(* ===== verification/Prelude.thy ===== *)
theory Prelude
  imports Main "HOL-Library.Word"
begin

text \<open>
  Shared vocabulary of the development: the C integer types as words, byte buffers as lists,
  the host's little-endian loads and stores, the byte-swap macros, \<open>memcpy\<close> into a buffer,
  and the cutting of a byte sequence into blocks.

  The configuration modelled throughout is the one the repository's build directory was made
  for: a little-endian LP64 machine (\<open>int\<close> 32 bits, \<open>long\<close> and \<open>size_t\<close> 64 bits).
  Object sizes and indices (\<open>size_t\<close>) are \<open>nat\<close>; values whose wrap-around the code relies
  on are words.
\<close>

unbundle bit_operations_syntax

named_theorems word_bytes \<open>conversions between words and their bytes\<close>
named_theorems buf_simps \<open>rewriting of buffer copies\<close>

type_synonym byte = "8 word"
type_synonym u16 = "16 word"
type_synonym u32 = "32 word"
type_synonym u64 = "64 word"

section \<open>Small facts on lists\<close>

lemma take_append_take [simp]: "take n xs @ take m (drop n xs) = take (n + m) xs"
  by (simp add: take_add)

lemma nat_less_8_cases: "(n::nat) < 8 \<longleftrightarrow> n \<in> {0, 1, 2, 3, 4, 5, 6, 7}"
  by auto

lemma length_ge_split: "k \<le> length xs \<Longrightarrow> \<exists>ys zs. xs = ys @ zs \<and> length ys = k"
  by (rule exI [of _ "take k xs"], rule exI [of _ "drop k xs"]) simp

section \<open>Word arithmetic\<close>

lemma unat_word_of_nat_mod: "unat (word_of_nat n :: 'a::len word) = n mod 2 ^ LENGTH('a)"
  by (simp add: unsigned_of_nat take_bit_eq_mod)

lemma word_of_nat_unat: "word_of_nat (unat w) = w"
  by (simp add: word_unat_eq_iff unat_word_of_nat_mod)

lemma unat_add_mod: "unat (a + b) = (unat a + unat b) mod 2 ^ LENGTH('a)" for a b :: "'a::len word"
  by (simp add: unat_word_ariths)

lemma unat_widen_32 [simp]: "unat (ucast w :: u64) = unat w" for w :: u32
  using unsigned_less [of w, where 'a = nat]
  by (simp add: unsigned_ucast_eq take_bit_nat_eq_self)

lemma ucast_narrow_nat: "ucast (word_of_nat n :: u64) = (word_of_nat n :: u32)"
  by (simp add: word_unat_eq_iff unsigned_ucast_eq unat_word_of_nat_mod take_bit_eq_mod mod_mod_cancel)

lemma ucast_widen_nat: "n < 2 ^ 32 \<Longrightarrow> ucast (word_of_nat n :: u32) = (word_of_nat n :: u64)"
  by (simp add: word_unat_eq_iff unat_word_of_nat_mod)

lemma and_not_mask: "w AND NOT (mask n) = push_bit n (drop_bit n w)" for w :: "'a::len word"
  by (rule bit_word_eqI) (auto simp: bit_simps)

lemma unat_and_not_mask: "unat (w AND NOT (mask n)) = unat w div 2 ^ n * 2 ^ n" for w :: "'a::len word"
proof -
  have "unat w div 2 ^ n * 2 ^ n < 2 ^ LENGTH('a)"
    using unsigned_less [of w, where 'a = nat] by (meson div_times_less_eq_dividend order.strict_trans1)
  then show ?thesis
    unfolding and_not_mask unsigned_push_bit_eq unsigned_drop_bit_eq
    by (simp add: push_bit_eq_mult drop_bit_eq_div take_bit_nat_eq_self)
qed

lemma carry_nat:
  fixes a b N :: nat
  assumes "a < N" and "b < N"
  shows "(a + b) mod N < b \<longleftrightarrow> N \<le> a + b"
    and "(a + b) div N = (if N \<le> a + b then 1 else 0)"
proof -
  have "N \<le> a + b \<Longrightarrow> (a + b) mod N = a + b - N \<and> (a + b) div N = 1"
    using assms by (simp add: le_mod_geq le_div_geq)
  moreover have "\<not> N \<le> a + b \<Longrightarrow> (a + b) mod N = a + b \<and> (a + b) div N = 0"
    by simp
  ultimately show "(a + b) mod N < b \<longleftrightarrow> N \<le> a + b"
    and "(a + b) div N = (if N \<le> a + b then 1 else 0)"
    using assms by (cases "N \<le> a + b"; simp)+
qed

lemma add_carry_iff:
  fixes a b :: "'a::len word"
  shows "a + b < b \<longleftrightarrow> 2 ^ LENGTH('a) \<le> unat a + unat b"
  using carry_nat(1) [OF unsigned_less unsigned_less, of a b]
  by (simp add: word_less_nat_alt unat_add_mod)

lemma double_word_add:
  fixes lo hi :: "'a::len word" and n :: nat
  defines "N \<equiv> (2::nat) ^ LENGTH('a)"
  defines "lo' \<equiv> lo + word_of_nat n"
  shows "unat (hi + (word_of_nat (n div N) + (if lo' < word_of_nat n then 1 else 0))) * N + unat lo'
     = (unat hi * N + unat lo + n) mod (N * N)"
proof -
  let ?c = "(unat lo + n mod N) div N"
  have N: "0 < N" by (simp add: N_def)
  have lo: "unat lo' = (unat lo + n mod N) mod N"
    by (simp add: lo'_def unat_add_mod unat_word_of_nat_mod N_def)
  have sum: "unat lo < N" "n mod N < N"
    using N by (simp_all add: N_def unsigned_less)
  then have c: "?c = (if lo' < word_of_nat n then 1 else 0)"
    by (simp add: carry_nat lo'_def add_carry_iff unat_word_of_nat_mod flip: N_def)
  have "(word_of_nat (n div N) + (if lo' < word_of_nat n then 1 else 0) :: 'a word) = word_of_nat (n div N + ?c)"
    by (simp add: c)
  then have "unat (hi + (word_of_nat (n div N) + (if lo' < word_of_nat n then 1 else 0)))
      = (unat hi + (n div N + ?c)) mod N"
    by (simp only: unat_add_mod unat_word_of_nat_mod mod_add_right_eq flip: N_def)
  moreover have "unat hi * N + unat lo + n = (unat hi + (n div N + ?c)) * N + unat lo'"
    by (simp add: lo algebra_simps)
  moreover have "unat lo' < N" using N lo by simp
  ultimately show ?thesis
    using N by (simp add: mod_mult2_eq)
qed

lemma rotate_left_bits:
  fixes w :: "'a::len word"
  assumes "0 < s" "s < LENGTH('a)"
  shows "push_bit s w OR drop_bit (LENGTH('a) - s) w = word_rotl s w"
proof (rule bit_word_eqI)
  fix n assume n: "n < LENGTH('a)"
  let ?L = "LENGTH('a)"
  have "(n + (?L - s)) mod ?L = (if n < s then n + (?L - s) else n - s)"
    using assms n by (auto simp: mod_if not_less)
  then show "bit (push_bit s w OR drop_bit (?L - s) w) n = bit (word_rotl s w) n"
    using assms n by (auto simp: bit_simps bit_word_rotl_iff add.commute dest: bit_imp_le_length)
qed

lemma rotate_right_bits:
  fixes w :: "'a::len word"
  assumes "0 < s" "s < LENGTH('a)"
  shows "drop_bit s w OR push_bit (LENGTH('a) - s) w = word_rotr s w"
proof (rule bit_word_eqI)
  fix n assume n: "n < LENGTH('a)"
  let ?L = "LENGTH('a)"
  have "(n + s) mod ?L = (if n + s < ?L then n + s else n + s - ?L)"
    using assms n by (auto simp: mod_if not_less)
  then show "bit (drop_bit s w OR push_bit (?L - s) w) n = bit (word_rotr s w) n"
    using assms n by (auto simp: bit_simps bit_word_rotr_iff add.commute dest: bit_imp_le_length)
qed

lemma bit_concat_nat:
  fixes hi lo :: nat
  assumes "lo < 2 ^ L"
  shows "bit (hi * 2 ^ L + lo) k \<longleftrightarrow> (if k < L then bit lo k else bit hi (k - L))"
proof (cases "k < L")
  case True
  have "take_bit L (hi * 2 ^ L + lo) = lo"
    using assms by (simp add: take_bit_eq_mod)
  then have "bit (take_bit L (hi * 2 ^ L + lo)) k = bit lo k" by simp
  then show ?thesis using True by (simp add: bit_take_bit_iff)
next
  case False
  then obtain j where k: "k = L + j" by (metis le_add_diff_inverse not_less)
  have "drop_bit L (hi * 2 ^ L + lo) = hi"
    using assms by (simp add: drop_bit_eq_div)
  then have "bit (drop_bit L (hi * 2 ^ L + lo)) j = bit hi j" by simp
  then show ?thesis using k by (simp add: bit_drop_bit_eq)
qed

lemma eight_times_pair:
  fixes lo hi :: "'a::len word"
  defines "N \<equiv> (2::nat) ^ LENGTH('a)"
  defines "T \<equiv> unat hi * N + unat lo"
  assumes "3 < LENGTH('a)"
  shows "word_of_nat (8 * T mod (N * N)) = push_bit 3 lo"
    and "word_of_nat (8 * T mod (N * N) div N) = push_bit 3 hi OR drop_bit (LENGTH('a) - 3) lo"
proof -
  have T: "bit (8 * T mod (N * N)) n \<longleftrightarrow> n < LENGTH('a) + LENGTH('a) \<and> 3 \<le> n \<and>
      (if n - 3 < LENGTH('a) then bit lo (n - 3) else bit hi (n - 3 - LENGTH('a)))" for n
  proof -
    have "8 * T mod (N * N) = take_bit (LENGTH('a) + LENGTH('a)) (push_bit 3 T)"
      by (simp add: take_bit_eq_mod push_bit_eq_mult N_def power_add mult.commute)
    then show ?thesis
      by (auto simp: T_def N_def bit_simps bit_concat_nat)
  qed
  show "word_of_nat (8 * T mod (N * N)) = push_bit 3 lo"
    by (rule bit_word_eqI) (use assms(3) in \<open>auto simp: bit_simps T\<close>)
  have D: "8 * T mod (N * N) div N = drop_bit LENGTH('a) (8 * T mod (N * N))"
    by (simp add: drop_bit_eq_div N_def)
  show "word_of_nat (8 * T mod (N * N) div N) = push_bit 3 hi OR drop_bit (LENGTH('a) - 3) lo"
    unfolding D
    by (rule bit_word_eqI)
      (use assms(3) in \<open>auto simp: bit_simps T add.commute dest: bit_imp_le_length\<close>)
qed

section \<open>Byte order\<close>

text \<open>The byte-swap macros \<open>SWAP\<close> and \<open>SWAP64\<close> of \<open>crypt/sha256.c\<close> (and \<open>SWAP\<close> of
  \<open>crypt/sha512.c\<close>) for a little-endian host.\<close>

definition bswap_32 :: "u32 \<Rightarrow> u32" where
  "bswap_32 n = push_bit 24 n OR push_bit 8 (n AND 0xff00) OR (drop_bit 8 n AND 0xff00)
     OR drop_bit 24 n"

definition bswap_64 :: "u64 \<Rightarrow> u64" where
  "bswap_64 n = push_bit 56 n OR push_bit 40 (n AND 0xff00) OR push_bit 24 (n AND 0xff0000)
     OR push_bit 8 (n AND 0xff000000) OR (drop_bit 8 n AND 0xff000000)
     OR (drop_bit 24 n AND 0xff0000) OR (drop_bit 40 n AND 0xff00) OR drop_bit 56 n"

text \<open>How the host lays out a word in memory: least significant byte first.\<close>

definition store32 :: "u32 \<Rightarrow> byte list" where
  "store32 w = map (\<lambda>i. ucast (drop_bit (8 * i) w)) [0, 1, 2, 3]"

definition store64 :: "u64 \<Rightarrow> byte list" where
  "store64 w = map (\<lambda>i. ucast (drop_bit (8 * i) w)) [0, 1, 2, 3, 4, 5, 6, 7]"

definition load32 :: "byte list \<Rightarrow> u32" where
  "load32 bs = ucast (bs ! 0) OR push_bit 8 (ucast (bs ! 1)) OR push_bit 16 (ucast (bs ! 2))
     OR push_bit 24 (ucast (bs ! 3))"

definition load64 :: "byte list \<Rightarrow> u64" where
  "load64 bs = ucast (bs ! 0) OR push_bit 8 (ucast (bs ! 1)) OR push_bit 16 (ucast (bs ! 2))
     OR push_bit 24 (ucast (bs ! 3)) OR push_bit 32 (ucast (bs ! 4))
     OR push_bit 40 (ucast (bs ! 5)) OR push_bit 48 (ucast (bs ! 6)) OR push_bit 56 (ucast (bs ! 7))"

text \<open>Reference renderings, independent of the host: the base-256 digits of a number.\<close>

definition le_bytes :: "nat \<Rightarrow> nat \<Rightarrow> byte list" where
  "le_bytes k n = map (\<lambda>i. word_of_nat (n div 256 ^ i)) [0..<k]"

definition be_bytes :: "nat \<Rightarrow> nat \<Rightarrow> byte list" where
  "be_bytes k n = rev (le_bytes k n)"

lemma length_store [simp, word_bytes]: "length (store32 w) = 4" "length (store64 v) = 8"
  by (simp_all add: store32_def store64_def)

lemma length_le_be_bytes [simp, word_bytes]: "length (le_bytes k n) = k" "length (be_bytes k n) = k"
  by (simp_all add: le_bytes_def be_bytes_def)

lemma and_byte_mask: "w AND push_bit k (mask 8) = push_bit k (take_bit 8 (drop_bit k w))"
  for w :: "'a::len word"
  by (rule bit_word_eqI) (auto simp: bit_simps)

lemma byte_masks:
  "(0xff00 :: u32) = push_bit 8 (mask 8)" "(0xff00 :: u64) = push_bit 8 (mask 8)"
  "(0xff0000 :: u64) = push_bit 16 (mask 8)" "(0xff000000 :: u64) = push_bit 24 (mask 8)"
  by (simp_all add: mask_eq_exp_minus_1)

lemma store32_bswap [word_bytes]: "store32 (bswap_32 w) = rev (store32 w)"
  unfolding store32_def bswap_32_def byte_masks and_byte_mask
  by simp (intro conjI; rule bit_word_eqI; auto simp: bit_simps)

lemma store64_bswap [word_bytes]: "store64 (bswap_64 w) = rev (store64 w)"
  unfolding store64_def bswap_64_def byte_masks and_byte_mask
  by simp (intro conjI; rule bit_word_eqI; auto simp: bit_simps)

lemma ucast_drop_bit_word_of_nat:
  fixes n :: nat
  assumes "8 * i + 8 \<le> LENGTH('a::len)"
  shows "(ucast (drop_bit (8 * i) (word_of_nat n :: 'a word)) :: byte) = word_of_nat (n div 256 ^ i)"
proof (rule bit_word_eqI)
  fix k assume "k < LENGTH(8)"
  then have "k < 8" by simp
  moreover have "(256::nat) ^ i = 2 ^ (8 * i)"
    by (simp add: power_mult)
  moreover have "bit (n div 2 ^ (8 * i)) k = bit n (8 * i + k)"
    by (simp add: bit_iff_odd power_add div_mult2_eq)
  ultimately show "bit (ucast (drop_bit (8 * i) (word_of_nat n :: 'a word)) :: byte) k
      = bit (word_of_nat (n div 256 ^ i) :: byte) k"
    using assms by (simp add: bit_simps)
qed

lemma le_bytes_Suc [word_bytes]: "le_bytes (Suc k) n = word_of_nat n # le_bytes k (n div 256)"
proof -
  have "[0..<Suc k] = 0 # map Suc [0..<k]"
    by (simp add: map_Suc_upt upt_conv_Cons del: upt_Suc)
  then show ?thesis
    by (simp add: le_bytes_def comp_def div_mult2_eq del: upt_Suc)
qed

lemma le_bytes_0 [simp, word_bytes]: "le_bytes 0 n = []"
  by (simp add: le_bytes_def)

lemma le_bytes_append: "le_bytes (a + b) n = le_bytes a n @ le_bytes b (n div 256 ^ a)"
  by (induction a arbitrary: n) (simp_all add: le_bytes_Suc div_mult2_eq)

lemma le_bytes_upto_8:
  "le_bytes 4 n = map (\<lambda>i. word_of_nat (n div 256 ^ i)) [0, 1, 2, 3]"
  "le_bytes 8 n = map (\<lambda>i. word_of_nat (n div 256 ^ i)) [0, 1, 2, 3, 4, 5, 6, 7]"
proof -
  have "[0..<4] = [0, 1, 2, 3::nat]" "[0..<8] = [0, 1, 2, 3, 4, 5, 6, 7::nat]"
    by (simp_all add: upt_rec)
  then show "le_bytes 4 n = map (\<lambda>i. word_of_nat (n div 256 ^ i)) [0, 1, 2, 3]"
    and "le_bytes 8 n = map (\<lambda>i. word_of_nat (n div 256 ^ i)) [0, 1, 2, 3, 4, 5, 6, 7]"
    by (simp_all only: le_bytes_def)
qed

lemma store32_word_of_nat [word_bytes]: "store32 (word_of_nat n) = le_bytes 4 n"
  unfolding store32_def le_bytes_upto_8
  by (rule map_cong [OF refl], rule ucast_drop_bit_word_of_nat) auto

lemma store64_word_of_nat [word_bytes]: "store64 (word_of_nat n) = le_bytes 8 n"
  unfolding store64_def le_bytes_upto_8
  by (rule map_cong [OF refl], rule ucast_drop_bit_word_of_nat) auto

lemma length_4_conv: "length bs = 4 \<longleftrightarrow> (\<exists>a b c d. bs = [a, b, c, d])"
  by (auto simp: numeral_eq_Suc length_Suc_conv)

lemma length_8_conv: "length bs = 8 \<longleftrightarrow> (\<exists>a b c d e f g h. bs = [a, b, c, d, e, f, g, h])"
  by (auto simp: numeral_eq_Suc length_Suc_conv)

lemma word_eq_by_bytes:
  fixes v w :: "'a::len word"
  assumes "LENGTH('a) = 8 * k"
    and "\<And>i. i < k \<Longrightarrow> (ucast (drop_bit (8 * i) v) :: byte) = ucast (drop_bit (8 * i) w)"
  shows "v = w"
proof (rule bit_word_eqI)
  fix n assume "n < LENGTH('a)"
  then have "n div 8 < k" using assms(1) by simp
  then have "bit (ucast (drop_bit (8 * (n div 8)) v) :: byte) (n mod 8)
      = bit (ucast (drop_bit (8 * (n div 8)) w) :: byte) (n mod 8)"
    by (simp add: assms(2))
  then show "bit v n = bit w n" by (simp add: bit_simps)
qed

lemma store32_eq_iff: "store32 v = store32 w \<longleftrightarrow> v = w"
proof
  assume eq: "store32 v = store32 w"
  show "v = w"
  proof (rule word_eq_by_bytes [where k = 4])
    show "(ucast (drop_bit (8 * i) v) :: byte) = ucast (drop_bit (8 * i) w)" if "i < 4" for i
    proof -
      from that have "i \<in> set [0, 1, 2, 3]" by auto
      with eq show ?thesis by (simp only: store32_def map_eq_conv)
    qed
  qed simp
qed simp

lemma store64_eq_iff: "store64 v = store64 w \<longleftrightarrow> v = w"
proof
  assume eq: "store64 v = store64 w"
  show "v = w"
  proof (rule word_eq_by_bytes [where k = 8])
    show "(ucast (drop_bit (8 * i) v) :: byte) = ucast (drop_bit (8 * i) w)" if "i < 8" for i
    proof -
      from that have "i \<in> set [0, 1, 2, 3, 4, 5, 6, 7]" by (auto simp: nat_less_8_cases)
      with eq show ?thesis by (simp only: store64_def map_eq_conv)
    qed
  qed simp
qed simp

lemma store32_load32 [word_bytes]: "length bs = 4 \<Longrightarrow> store32 (load32 bs) = bs"
  unfolding load32_def store32_def
  by (clarsimp simp: length_4_conv)
    (intro conjI; rule bit_word_eqI; auto simp: bit_simps dest: bit_imp_le_length)

lemma store64_load64 [word_bytes]: "length bs = 8 \<Longrightarrow> store64 (load64 bs) = bs"
  unfolding load64_def store64_def
  by (clarsimp simp: length_8_conv)
    (intro conjI; rule bit_word_eqI; auto simp: bit_simps dest: bit_imp_le_length)

lemma load32_store32 [simp, word_bytes]: "load32 (store32 w) = w"
  using store32_load32 [of "store32 w"] by (simp add: store32_eq_iff)

lemma load64_store64 [simp, word_bytes]: "load64 (store64 w) = w"
  using store64_load64 [of "store64 w"] by (simp add: store64_eq_iff)

text \<open>The number a byte string denotes, most significant byte first, and the fact that a
  byte-swapped host load reads exactly that number.\<close>

fun le_val :: "byte list \<Rightarrow> nat" where
  "le_val [] = 0"
| "le_val (b # bs) = unat b + 256 * le_val bs"

definition be_val :: "byte list \<Rightarrow> nat" where
  "be_val bs = le_val (rev bs)"

lemma le_bytes_le_val [word_bytes]: "le_bytes (length bs) (le_val bs) = bs"
proof (induction bs)
  case Nil
  then show ?case by simp
next
  case (Cons b bs)
  have "unat b < 256"
    using unsigned_less [of b] by simp
  then have "(unat b + 256 * le_val bs) div 256 = le_val bs"
    by simp
  moreover have "word_of_nat (unat b + 256 * le_val bs) = b"
  proof -
    have "(256 :: byte) = 0" by simp
    then show ?thesis by (simp only: of_nat_add of_nat_mult of_nat_numeral) simp
  qed
  ultimately show ?case
    using Cons.IH by (simp add: le_bytes_Suc)
qed

lemma load32_le_val [word_bytes]: "length bs = 4 \<Longrightarrow> load32 bs = word_of_nat (le_val bs)"
  by (metis store32_eq_iff store32_load32 store32_word_of_nat le_bytes_le_val)

lemma load64_le_val [word_bytes]: "length bs = 8 \<Longrightarrow> load64 bs = word_of_nat (le_val bs)"
  by (metis store64_eq_iff store64_load64 store64_word_of_nat le_bytes_le_val)

lemma bswap_32_load32 [word_bytes]:
  assumes "length bs = 4"
  shows "bswap_32 (load32 bs) = word_of_nat (be_val bs)"
proof -
  have "store32 (bswap_32 (load32 bs)) = rev bs"
    using assms by (simp add: store32_bswap store32_load32)
  also have "\<dots> = store32 (word_of_nat (be_val bs))"
    using assms le_bytes_le_val [of "rev bs"] by (simp add: be_val_def store32_word_of_nat)
  finally show ?thesis by (simp add: store32_eq_iff)
qed

lemma bswap_64_load64 [word_bytes]:
  assumes "length bs = 8"
  shows "bswap_64 (load64 bs) = word_of_nat (be_val bs)"
proof -
  have "store64 (bswap_64 (load64 bs)) = rev bs"
    using assms by (simp add: store64_bswap store64_load64)
  also have "\<dots> = store64 (word_of_nat (be_val bs))"
    using assms le_bytes_le_val [of "rev bs"] by (simp add: be_val_def store64_word_of_nat)
  finally show ?thesis by (simp add: store64_eq_iff)
qed

section \<open>Buffers\<close>

text \<open>
  \<open>memcpy (&buf[off], src, n)\<close>: the bytes \<open>src\<close> overwrite the buffer from index \<open>off\<close> on.
  A copy that runs past the end makes the list longer, so that "the buffer keeps its declared
  length" is exactly the statement that no copy overflowed it.
\<close>

definition blit :: "'a list \<Rightarrow> nat \<Rightarrow> 'a list \<Rightarrow> 'a list" where
  "blit buf off src = take off buf @ src @ drop (off + length src) buf"

lemma length_blit [buf_simps]:
  "off + length src \<le> length buf \<Longrightarrow> length (blit buf off src) = length buf"
  by (simp add: blit_def)

lemma length_blit_overflow:
  "off \<le> length buf \<Longrightarrow> length (blit buf off src) = max (length buf) (off + length src)"
  by (simp add: blit_def)

lemma take_blit [buf_simps]:
  "off \<le> length buf \<Longrightarrow> n = off + length src \<Longrightarrow> take n (blit buf off src) = take off buf @ src"
  by (simp add: blit_def)

lemma blit_append [buf_simps]:
  "off + length src \<le> length buf \<Longrightarrow> off' = off + length src \<Longrightarrow>
     blit (blit buf off src) off' src' = blit buf off (src @ src')"
  by (simp add: blit_def ac_simps)

lemma blit_prepend [buf_simps]:
  "off + length src + length src' \<le> length buf \<Longrightarrow> off' = off + length src \<Longrightarrow>
     blit (blit buf off' src') off src = blit buf off (src @ src')"
  by (simp add: blit_def ac_simps)

lemma take_blit_before [buf_simps]:
  "n \<le> off \<Longrightarrow> off \<le> length buf \<Longrightarrow> take n (blit buf off src) = take n buf"
  by (simp add: blit_def min_def)

lemma drop_blit_zero [buf_simps]: "drop (length src) (blit buf 0 src) = drop (length src) buf"
  by (simp add: blit_def)

lemma blit_Nil [simp]: "blit buf off [] = buf"
  by (simp add: blit_def)

text \<open>Rounding a byte count down to whole blocks: \<open>n & ~(b - 1)\<close> for \<open>b\<close> a power of two.\<close>

definition round_down :: "nat \<Rightarrow> nat \<Rightarrow> nat" where
  "round_down b n = n - n mod b"

lemma round_down_le [simp]: "round_down b n \<le> n"
  by (simp add: round_down_def)

lemma dvd_round_down [simp]: "b dvd round_down b n"
  by (simp add: round_down_def minus_mod_eq_mult_div)

lemma round_down_plus_mod [simp]: "round_down b n + n mod b = n"
  by (simp add: round_down_def)

section \<open>Cutting a sequence into blocks\<close>

function chunks :: "nat \<Rightarrow> 'a list \<Rightarrow> 'a list list" where
  "chunks b xs = (if b = 0 \<or> xs = [] then [] else take b xs # chunks b (drop b xs))"
  by pat_completeness auto
termination
  by (relation "measure (\<lambda>(b, xs). length xs)") auto

declare chunks.simps [simp del]

lemma chunks_Nil [simp]: "chunks b [] = []"
  by (simp add: chunks.simps)

lemma chunks_block: "0 < b \<Longrightarrow> length xs = b \<Longrightarrow> chunks b (xs @ ys) = xs # chunks b ys"
  by (subst chunks.simps) auto

lemma chunks_append:
  assumes "0 < b" and "b dvd length xs"
  shows "chunks b (xs @ ys) = chunks b xs @ chunks b ys"
  using assms(2)
proof (induction xs rule: length_induct)
  case (1 xs)
  show ?case
  proof (cases "xs = []")
    case False
    with 1 have len: "b \<le> length xs"
      by (auto simp: dvd_imp_le)
    then obtain us vs where xs: "xs = us @ vs" "length us = b"
      using length_ge_split by blast
    then have "b dvd length vs" "length vs < length xs"
      using 1 \<open>0 < b\<close> by auto
    then have "chunks b (vs @ ys) = chunks b vs @ chunks b ys"
      using 1 by blast
    then show ?thesis
      using xs \<open>0 < b\<close> by (simp add: chunks_block)
  qed simp
qed

lemma chunks_take_drop:
  "0 < b \<Longrightarrow> b dvd n \<Longrightarrow> n \<le> length xs \<Longrightarrow> chunks b xs = chunks b (take n xs) @ chunks b (drop n xs)"
  using chunks_append [of b "take n xs" "drop n xs"] by (simp add: min_def)

lemma chunks_single: "0 < b \<Longrightarrow> length xs = b \<Longrightarrow> chunks b xs = [xs]"
  using chunks_block [of b xs "[]"] by simp

lemma set_chunks_length:
  "b dvd length xs \<Longrightarrow> c \<in> set (chunks b xs) \<Longrightarrow> length c = b"
proof (induction b xs rule: chunks.induct)
  case (1 b xs)
  show ?case
  proof (cases "b = 0 \<or> xs = []")
    case True
    with 1 show ?thesis by (simp add: chunks.simps)
  next
    case False
    with 1 have "b \<le> length xs" "b dvd length (drop b xs)"
      by (auto simp: dvd_imp_le)
    with 1 False show ?thesis
      by (auto simp: chunks.simps [of b xs])
  qed
qed

lemma chunks_eq_map:
  assumes "0 < b" and "b dvd length xs"
  shows "chunks b xs = map (\<lambda>i. take b (drop (b * i) xs)) [0..<length xs div b]"
  using assms(2)
proof (induction xs rule: length_induct)
  case (1 xs)
  show ?case
  proof (cases "xs = []")
    case False
    with 1 have le: "b \<le> length xs" by (auto simp: dvd_imp_le)
    let ?f = "\<lambda>i. take b (drop (b * i) xs)"
    have div: "length xs div b = Suc (length (drop b xs) div b)"
      using le \<open>0 < b\<close> by (simp add: le_div_geq)
    have "chunks b xs = take b xs # chunks b (drop b xs)"
      using False \<open>0 < b\<close> by (subst chunks.simps) simp
    also have "chunks b (drop b xs) = map (?f \<circ> Suc) [0..<length (drop b xs) div b]"
      using 1 False \<open>0 < b\<close> le by (simp add: comp_def add.commute)
    also have "take b xs # \<dots> = map ?f (0 # map Suc [0..<length (drop b xs) div b])"
      by simp
    also have "0 # map Suc [0..<length (drop b xs) div b] = [0..<length xs div b]"
      by (simp add: div map_Suc_upt upt_conv_Cons del: upt_Suc)
    finally show ?thesis .
  qed simp
qed

end
