(* ===== verification/Digest.thy ===== *)
theory Digest
  imports Prelude
begin

text \<open>
  The buffering layer that \<open>crypt/md5.c\<close>, \<open>crypt/sha256.c\<close> and \<open>crypt/sha512.c\<close> share.
  The three files hold the same \<open>process_bytes\<close> function with different constants: the block
  size \<open>B\<close> (64, 64, 128; the internal buffer is twice that), the alignment the block function
  wants (4, 4, 8) and the block function itself. Here it is written once over those constants;
  the three component theories instantiate it.

  The contexts \<open>struct md5_ctx\<close>, \<open>struct sha256_ctx\<close> and \<open>struct sha512_ctx\<close> all have the
  fields below, and extend this record with their chaining words and their byte counter.
\<close>

record digest_ctx =
  buflen :: nat
  buffer :: "byte list"

section \<open>The three phases of process_bytes\<close>

text \<open>First \<open>if\<close>: bytes are already pending, so append to the internal buffer first. Returns
  how many input bytes were taken.\<close>

definition fill_pending ::
  "nat \<Rightarrow> (byte list \<Rightarrow> 'a digest_ctx_scheme \<Rightarrow> 'a digest_ctx_scheme) \<Rightarrow> byte list
     \<Rightarrow> 'a digest_ctx_scheme \<Rightarrow> nat \<times> 'a digest_ctx_scheme" where
  "fill_pending B process_block data ctx =
    (let left_over = buflen ctx;
         add = (if 2 * B - left_over > length data then length data else 2 * B - left_over);
         ctx = ctx\<lparr>buffer := blit (buffer ctx) left_over (take add data)\<rparr>;
         ctx = ctx\<lparr>buflen := buflen ctx + add\<rparr>;
         ctx = (if buflen ctx > B
                then let ctx = process_block (take (round_down B (buflen ctx)) (buffer ctx)) ctx;
                         ctx = ctx\<lparr>buflen := buflen ctx mod B\<rparr>
                     in ctx\<lparr>buffer := blit (buffer ctx) 0
                          (take (buflen ctx) (drop (round_down B (left_over + add)) (buffer ctx)))\<rparr>
                else ctx)
     in (add, ctx))"

text \<open>The loop for input that is not aligned: one block at a time through the internal buffer.
  It leaves up to a whole block of input.\<close>

function unaligned_blocks ::
  "nat \<Rightarrow> (byte list \<Rightarrow> 'a digest_ctx_scheme \<Rightarrow> 'a digest_ctx_scheme) \<Rightarrow> byte list
     \<Rightarrow> 'a digest_ctx_scheme \<Rightarrow> byte list \<times> 'a digest_ctx_scheme" where
  "unaligned_blocks B process_block data ctx =
    (if 0 < B \<and> length data > B
     then let ctx = ctx\<lparr>buffer := blit (buffer ctx) 0 (take B data)\<rparr>;
              ctx = process_block (take B (buffer ctx)) ctx
          in unaligned_blocks B process_block (drop B data) ctx
     else (data, ctx))"
  by pat_completeness auto
termination
  by (relation "measure (\<lambda>(B, process_block, data, ctx). length data)") auto

declare unaligned_blocks.simps [simp del]

text \<open>Second \<open>if\<close>: the complete blocks of the input. \<open>sau\<close> is \<open>_STRING_ARCH_unaligned\<close>,
  \<open>addr\<close> the address of the input, \<open>al\<close> the alignment \<open>UNALIGNED_P\<close> tests for.\<close>

definition whole_blocks ::
  "nat \<Rightarrow> nat \<Rightarrow> (byte list \<Rightarrow> 'a digest_ctx_scheme \<Rightarrow> 'a digest_ctx_scheme) \<Rightarrow> bool \<Rightarrow> nat
     \<Rightarrow> byte list \<Rightarrow> 'a digest_ctx_scheme \<Rightarrow> byte list \<times> 'a digest_ctx_scheme" where
  "whole_blocks B al process_block sau addr data ctx =
    (if length data \<ge> B
     then if \<not> sau \<and> addr mod al \<noteq> 0
          then unaligned_blocks B process_block data ctx
          else (drop (round_down B (length data)) data,
                process_block (take (round_down B (length data)) data) ctx)
     else (data, ctx))"

text \<open>Third \<open>if\<close>: move the remaining bytes into the internal buffer.\<close>

definition keep_rest ::
  "nat \<Rightarrow> (byte list \<Rightarrow> 'a digest_ctx_scheme \<Rightarrow> 'a digest_ctx_scheme) \<Rightarrow> byte list
     \<Rightarrow> 'a digest_ctx_scheme \<Rightarrow> 'a digest_ctx_scheme" where
  "keep_rest B process_block data ctx =
    (if length data > 0
     then let left_over = buflen ctx;
              ctx = ctx\<lparr>buffer := blit (buffer ctx) left_over data\<rparr>;
              left_over = left_over + length data;
              (left_over, ctx) =
                (if left_over \<ge> B
                 then let ctx = process_block (take B (buffer ctx)) ctx;
                          left_over = left_over - B
                      in (left_over,
                          ctx\<lparr>buffer := blit (buffer ctx) 0 (take left_over (drop B (buffer ctx)))\<rparr>)
                 else (left_over, ctx))
          in ctx\<lparr>buflen := left_over\<rparr>
     else ctx)"

definition process_bytes ::
  "nat \<Rightarrow> nat \<Rightarrow> (byte list \<Rightarrow> 'a digest_ctx_scheme \<Rightarrow> 'a digest_ctx_scheme) \<Rightarrow> bool \<Rightarrow> nat
     \<Rightarrow> byte list \<Rightarrow> 'a digest_ctx_scheme \<Rightarrow> 'a digest_ctx_scheme" where
  "process_bytes B al process_block sau addr data ctx =
    (let (data, addr, ctx) =
           (if buflen ctx \<noteq> 0
            then let (add, ctx) = fill_pending B process_block data ctx
                 in (drop add data, addr + add, ctx)
            else (data, addr, ctx));
         (data, ctx) = whole_blocks B al process_block sau addr data ctx
     in keep_rest B process_block data ctx)"

section \<open>What a context has absorbed\<close>

text \<open>
  The context has absorbed the message \<open>m\<close>: its chaining value is the result of compressing
  all of \<open>m\<close> but the pending bytes, its counter counts those (modulo \<open>M\<close>), and the pending
  bytes are the start of the buffer, which still has its declared size. The pending bytes may
  fill a whole block.
\<close>

definition absorbed ::
  "nat \<Rightarrow> nat \<Rightarrow> (byte list \<Rightarrow> 'h \<Rightarrow> 'h) \<Rightarrow> 'h \<Rightarrow> ('a digest_ctx_scheme \<Rightarrow> 'h)
     \<Rightarrow> ('a digest_ctx_scheme \<Rightarrow> nat) \<Rightarrow> byte list \<Rightarrow> 'a digest_ctx_scheme \<Rightarrow> bool" where
  "absorbed B M compress iv chain counter m ctx \<longleftrightarrow>
    (let k = length m - buflen ctx in
       buflen ctx \<le> length m \<and> length (buffer ctx) = 2 * B \<and> buflen ctx \<le> B \<and> B dvd k \<and>
       take (buflen ctx) (buffer ctx) = drop k m \<and>
       chain ctx = fold compress (chunks B (take k m)) iv \<and> counter ctx = k mod M)"

text \<open>
  Padding: one \<open>0x80\<close> byte and zeros until \<open>L\<close> bytes are left in the last block for the
  length field. \<open>finish_pad\<close> is how the code counts it from the number of pending bytes.
\<close>

definition pad_zeros :: "nat \<Rightarrow> nat \<Rightarrow> nat \<Rightarrow> nat" where
  "pad_zeros B L n = (2 * B - L - 1 - n mod B) mod B"

definition finish_pad :: "nat \<Rightarrow> nat \<Rightarrow> nat \<Rightarrow> nat" where
  "finish_pad B L bytes = (if bytes \<ge> B - L then B + (B - L) - bytes else B - L - bytes)"

lemma finish_pad_zeros:
  assumes "0 < L" "L < B" "B dvd k" "bytes \<le> B"
  shows "finish_pad B L bytes = Suc (pad_zeros B L (k + bytes))"
proof -
  have "(k + bytes) mod B = bytes mod B"
    using assms(3) by (metis mod_add_left_eq dvd_eq_mod_eq_0 add_0)
  then show ?thesis
    using assms by (cases "bytes = B") (auto simp: finish_pad_def pad_zeros_def mod_if)
qed

lemma finish_pad_total:
  assumes "0 < L" "L < B" "bytes \<le> B"
  shows "bytes + finish_pad B L bytes + L = B \<or> bytes + finish_pad B L bytes + L = 2 * B"
    and "finish_pad B L bytes \<le> B"
  using assms by (auto simp: finish_pad_def)

lemma length_words32:
  "store32 (push_bit 3 lo) @ store32 (push_bit 3 hi OR drop_bit 29 lo)
     = le_bytes 8 (8 * (unat hi * 2 ^ 32 + unat lo) mod 2 ^ 64)" for lo hi :: u32
  using eight_times_pair [of hi lo] le_bytes_append [of 4 4]
  by (simp flip: store32_word_of_nat)

lemma length_words64:
  "store64 (push_bit 3 lo) @ store64 (push_bit 3 hi OR drop_bit 61 lo)
     = le_bytes 16 (8 * (unat hi * 2 ^ 64 + unat lo) mod 2 ^ 128)" for lo hi :: u64
  using eight_times_pair [of hi lo] le_bytes_append [of 8 8]
  by (simp flip: store64_word_of_nat)

text \<open>
  The contract between the buffering layer and a block function: it folds the compression
  function over its whole blocks, counts its bytes, and leaves the buffering fields alone.
\<close>

locale block_digest =
  fixes B :: nat and M :: nat
    and compress :: "byte list \<Rightarrow> 'h \<Rightarrow> 'h"
    and iv :: 'h
    and chain :: "'a digest_ctx_scheme \<Rightarrow> 'h"
    and counter :: "'a digest_ctx_scheme \<Rightarrow> nat"
    and process_block :: "byte list \<Rightarrow> 'a digest_ctx_scheme \<Rightarrow> 'a digest_ctx_scheme"
  assumes B_pos: "0 < B"
    and chain_block: "B dvd length bs \<Longrightarrow>
          chain (process_block bs ctx) = fold compress (chunks B bs) (chain ctx)"
    and counter_block: "counter (process_block bs ctx) = (counter ctx + length bs) mod M"
    and buflen_block: "buflen (process_block bs ctx) = buflen ctx"
    and buffer_block: "buffer (process_block bs ctx) = buffer ctx"
    and chain_frame: "chain (ctx\<lparr>buflen := n\<rparr>) = chain ctx" "chain (ctx\<lparr>buffer := b\<rparr>) = chain ctx"
    and counter_frame: "counter (ctx\<lparr>buflen := n\<rparr>) = counter ctx" "counter (ctx\<lparr>buffer := b\<rparr>) = counter ctx"
begin

lemmas block_simps = buflen_block buffer_block chain_frame counter_frame chain_block counter_block

definition split_at :: "byte list \<Rightarrow> byte list \<Rightarrow> 'a digest_ctx_scheme \<Rightarrow> bool" where
  "split_at p q ctx \<longleftrightarrow> length (buffer ctx) = 2 * B \<and> buflen ctx = length q \<and> length q \<le> B \<and>
     take (length q) (buffer ctx) = q \<and> B dvd length p \<and>
     chain ctx = fold compress (chunks B p) iv \<and> counter ctx = length p mod M"

lemma absorbed_split:
  "absorbed B M compress iv chain counter m ctx \<longleftrightarrow> (\<exists>p q. m = p @ q \<and> split_at p q ctx)"
proof
  assume a: "absorbed B M compress iv chain counter m ctx"
  let ?k = "length m - buflen ctx"
  have "m = take ?k m @ drop ?k m" by simp
  moreover have "split_at (take ?k m) (drop ?k m) ctx"
    using a by (auto simp: absorbed_def split_at_def Let_def)
  ultimately show "\<exists>p q. m = p @ q \<and> split_at p q ctx" by blast
next
  assume "\<exists>p q. m = p @ q \<and> split_at p q ctx"
  then show "absorbed B M compress iv chain counter m ctx"
    by (auto simp: absorbed_def split_at_def)
qed

lemma split_at_block:
  assumes "split_at p q ctx" and "B dvd length bs"
  shows "chain (process_block bs ctx) = fold compress (chunks B (p @ bs)) iv"
    and "counter (process_block bs ctx) = length (p @ bs) mod M"
    and "B dvd length (p @ bs)"
  using assms B_pos
  by (auto simp: split_at_def block_simps chunks_append mod_add_left_eq)

text \<open>Processing the whole blocks of the buffer contents \<open>c\<close> and moving the rest to the front.\<close>

lemma flush_split:
  assumes st: "length (buffer ctx) = 2 * B" "take (length c) (buffer ctx) = c"
      "B dvd length p" "chain ctx = fold compress (chunks B p) iv" "counter ctx = length p mod M"
    and r: "B dvd r" "r \<le> length c" "length c - r \<le> B"
    and n: "n = length c - r"
    and ctx': "ctx' = (process_block (take r (buffer ctx)) ctx)
                 \<lparr>buflen := n, buffer := blit (buffer ctx) 0 (take n (drop r (buffer ctx)))\<rparr>"
  shows "split_at (p @ take r c) (drop r c) ctx'"
proof -
  have rest: "take (length c - r) (drop r (buffer ctx)) = drop r c"
    using st(2) by (metis drop_take)
  have tr: "take r (buffer ctx) = take r c"
    using st(2) r(2) by (metis min.absorb1 take_take)
  have "length c \<le> 2 * B"
    using st(1,2) by (metis length_take min.cobounded1)
  then have "length (blit (buffer ctx) 0 (drop r c)) = 2 * B"
    using st(1) by (simp add: length_blit)
  moreover have "take (length c - r) (blit (buffer ctx) 0 (drop r c)) = drop r c"
    by (simp add: take_blit)
  ultimately show ?thesis
    using st r n B_pos
    by (simp add: split_at_def ctx' block_simps rest tr chunks_append mod_add_left_eq min_def)
qed

text \<open>Phase one: afterwards either all input was taken or nothing is pending.\<close>

lemma fill_pending_split:
  assumes st: "split_at p q ctx" and fp: "fill_pending B process_block data ctx = (add, ctx')"
  shows "add \<le> length data \<and> (\<exists>p' q'. p' @ q' = p @ q @ take add data \<and> split_at p' q' ctx' \<and>
           (add < length data \<longrightarrow> q' = []))"
proof -
  define a where "a = (if 2 * B - length q > length data then length data else 2 * B - length q)"
  define buf where "buf = blit (buffer ctx) (length q) (take a data)"
  define c where "c = q @ take a data"
  define ctx1 where "ctx1 = ctx\<lparr>buffer := buf, buflen := length c\<rparr>"
  have q: "buflen ctx = length q" "length q \<le> B" "length (buffer ctx) = 2 * B"
      "take (length q) (buffer ctx) = q"
    using st by (simp_all add: split_at_def)
  have a_le: "a \<le> length data" and a_B: "length q + a \<le> 2 * B"
    using q(2) by (auto simp: a_def)
  then have len_c: "length c = length q + a"
    by (simp add: c_def)
  have full: "length c = 2 * B" if "a < length data"
    using that q(2) len_c by (auto simp: a_def split: if_splits)
  have buf: "length buf = 2 * B" "take (length c) buf = c"
    using q a_le a_B len_c by (simp_all add: buf_def c_def buf_simps)
  have ctx': "ctx' = (if length c > B
       then (process_block (take (round_down B (length c)) buf) ctx1)
         \<lparr>buflen := length c mod B,
          buffer := blit buf 0 (take (length c mod B) (drop (round_down B (length c)) buf))\<rparr>
       else ctx1)" and add: "add = a"
    using fp q(1) a_le
    by (auto simp: fill_pending_def Let_def block_simps ctx1_def buf_def len_c
          simp flip: a_def split: if_splits)
  show ?thesis
  proof (cases "length c > B")
    case False
    moreover have "\<not> a < length data"
      using False full B_pos by auto
    moreover have "split_at p c ctx1"
      using st False buf by (simp add: split_at_def block_simps ctx1_def)
    moreover have "p @ c = p @ q @ take add data"
      by (simp add: c_def add)
    ultimately show ?thesis
      using ctx' add a_le by auto
  next
    case True
    let ?r = "round_down B (length c)"
    have "split_at (p @ take ?r c) (drop ?r c) ctx'"
    proof (rule flush_split [where ctx = ctx1 and n = "length c mod B"])
      show "length c - ?r \<le> B" "length c mod B = length c - ?r"
        using B_pos by (auto simp: round_down_def intro: less_imp_le)
    qed (use st buf True ctx' in \<open>simp_all add: split_at_def ctx1_def block_simps\<close>)
    moreover have "drop ?r c = []" if "a < length data"
      using full [OF that] by (simp add: round_down_def)
    moreover have "(p @ take ?r c) @ drop ?r c = p @ q @ take add data"
      by (simp only: append_assoc append_take_drop_id add) (simp add: c_def)
    ultimately show ?thesis
      using add a_le by blast
  qed
qed

text \<open>Phase two, both ways of reading the input.\<close>

lemma split_at_take_blocks:
  assumes "split_at p [] ctx" and "B dvd n" and "n \<le> length data"
  shows "split_at (p @ take n data) [] (process_block (take n data) ctx)"
  using assms B_pos
  by (simp add: split_at_def block_simps chunks_append mod_add_left_eq min_def)

lemma unaligned_blocks_split:
  "split_at p [] ctx \<Longrightarrow> unaligned_blocks B process_block data ctx = (rest, ctx') \<Longrightarrow>
     \<exists>p'. p' @ rest = p @ data \<and> split_at p' [] ctx' \<and> length rest \<le> B"
proof (induction data arbitrary: p ctx rule: length_induct)
  case (1 data)
  show ?case
  proof (cases "length data > B")
    case False
    with 1 show ?thesis
      by (auto simp: unaligned_blocks.simps [of B process_block data])
  next
    case True
    define ctx1 where "ctx1 = ctx\<lparr>buffer := blit (buffer ctx) 0 (take B data)\<rparr>"
    have "split_at p [] ctx1" and "take B (buffer ctx1) = take B data"
      using 1 True by (simp_all add: split_at_def ctx1_def block_simps buf_simps)
    then have "split_at (p @ take B data) [] (process_block (take B (buffer ctx1)) ctx1)"
      using True split_at_take_blocks [of p ctx1 B data] by simp
    moreover have "unaligned_blocks B process_block (drop B data)
        (process_block (take B (buffer ctx1)) ctx1) = (rest, ctx')"
      using 1 True B_pos
      by (simp add: unaligned_blocks.simps [of B process_block data] ctx1_def Let_def)
    moreover have "length (drop B data) < length data"
      using True B_pos by simp
    ultimately have "\<exists>p'. p' @ rest = (p @ take B data) @ drop B data \<and> split_at p' [] ctx' \<and>
        length rest \<le> B"
      using 1(1) by blast
    then show ?thesis by simp
  qed
qed

lemma whole_blocks_split:
  assumes st: "split_at p q ctx" and empty: "data \<noteq> [] \<longrightarrow> q = []"
    and wb: "whole_blocks B al process_block sau addr data ctx = (rest, ctx')"
  shows "\<exists>p'. p' @ q @ rest = p @ q @ data \<and> split_at p' q ctx' \<and> length rest \<le> B \<and>
           (rest \<noteq> [] \<longrightarrow> q = [])"
proof (cases "length data \<ge> B")
  case False
  then show ?thesis
    using assms by (auto simp: whole_blocks_def)
next
  case True
  then have q: "q = []" using empty B_pos by auto
  show ?thesis
  proof (cases "\<not> sau \<and> addr mod al \<noteq> 0")
    case True
    then show ?thesis
      using unaligned_blocks_split [of p ctx data rest ctx'] st wb q \<open>length data \<ge> B\<close>
      by (auto simp: whole_blocks_def)
  next
    case False
    let ?r = "round_down B (length data)"
    have "rest = drop ?r data" "ctx' = process_block (take ?r data) ctx"
      using wb False \<open>length data \<ge> B\<close> by (auto simp: whole_blocks_def)
    moreover have "split_at (p @ take ?r data) [] (process_block (take ?r data) ctx)"
      using st q by (intro split_at_take_blocks) auto
    moreover have "length (drop ?r data) \<le> B"
      using B_pos by (simp add: round_down_def less_imp_le)
    ultimately show ?thesis
      using q by (intro exI [of _ "p @ take ?r data"]) auto
  qed
qed

text \<open>Phase three.\<close>

lemma keep_rest_split:
  assumes st: "split_at p q ctx" and len: "length data \<le> B" and empty: "data \<noteq> [] \<longrightarrow> q = []"
  shows "\<exists>p' q'. p' @ q' = p @ q @ data \<and> split_at p' q' (keep_rest B process_block data ctx)"
proof (cases "data = []")
  case True
  then show ?thesis using st by (auto simp: keep_rest_def)
next
  case False
  then have q: "q = []" using empty by simp
  define buf where "buf = blit (buffer ctx) 0 data"
  define ctx1 where "ctx1 = ctx\<lparr>buffer := buf\<rparr>"
  have buf: "length buf = 2 * B" "take (length data) buf = data"
    using st len by (simp_all add: buf_def split_at_def buf_simps)
  have "buflen ctx = 0" using st q by (simp add: split_at_def)
  then have kr: "keep_rest B process_block data ctx =
     (if length data \<ge> B
      then (process_block (take B buf) ctx1)
        \<lparr>buflen := length data - B, buffer := blit buf 0 (take (length data - B) (drop B buf))\<rparr>
      else ctx1\<lparr>buflen := length data\<rparr>)"
    using False by (auto simp: keep_rest_def Let_def block_simps ctx1_def buf_def)
  show ?thesis
  proof (cases "length data \<ge> B")
    case True
    have "split_at (p @ take B data) (drop B data) (keep_rest B process_block data ctx)"
      by (rule flush_split [where ctx = ctx1 and n = "length data - B"])
        (use st buf True len kr in \<open>simp_all add: split_at_def ctx1_def block_simps\<close>)
    moreover have "(p @ take B data) @ drop B data = p @ q @ data"
      using q by simp
    ultimately show ?thesis by blast
  next
    case False
    then have "split_at p data (keep_rest B process_block data ctx)"
      using st buf kr by (simp add: split_at_def ctx1_def block_simps)
    then show ?thesis using q by (metis append_Nil)
  qed
qed

lemma process_bytes_absorbed:
  assumes "absorbed B M compress iv chain counter m ctx"
  shows "absorbed B M compress iv chain counter (m @ data)
           (process_bytes B al process_block sau addr data ctx)"
proof -
  obtain p q where m: "m = p @ q" and st: "split_at p q ctx"
    using assms by (auto simp: absorbed_split)
  obtain add ctx1 where fp: "fill_pending B process_block data ctx = (add, ctx1)"
    by fastforce
  define data1 where "data1 = (if buflen ctx \<noteq> 0 then drop add data else data)"
  define addr1 where "addr1 = (if buflen ctx \<noteq> 0 then addr + add else addr)"
  define ctx2 where "ctx2 = (if buflen ctx \<noteq> 0 then ctx1 else ctx)"
  obtain rest ctx3 where wb: "whole_blocks B al process_block sau addr1 data1 ctx2 = (rest, ctx3)"
    by fastforce
  have pb: "process_bytes B al process_block sau addr data ctx = keep_rest B process_block rest ctx3"
    using fp wb by (simp add: process_bytes_def data1_def addr1_def ctx2_def split: if_splits)
  have "\<exists>p' q'. p' @ q' @ data1 = m @ data \<and> split_at p' q' ctx2 \<and> (data1 \<noteq> [] \<longrightarrow> q' = [])"
  proof (cases "buflen ctx \<noteq> 0")
    case True
    obtain p' q' where "p' @ q' = p @ q @ take add data" "split_at p' q' ctx1"
        "add < length data \<longrightarrow> q' = []"
      using fill_pending_split [OF st fp] by blast
    moreover from this(1) have "p' @ q' @ drop add data = m @ data"
      using m by (metis append_assoc append_take_drop_id)
    moreover have "drop add data \<noteq> [] \<longrightarrow> q' = []"
      using calculation(3) by simp
    ultimately show ?thesis
      using True by (auto simp: data1_def ctx2_def)
  next
    case False
    then show ?thesis using st m by (auto simp: data1_def ctx2_def split_at_def)
  qed
  then obtain p' q' where 1: "p' @ q' @ data1 = m @ data" "split_at p' q' ctx2"
      "data1 \<noteq> [] \<longrightarrow> q' = []"
    by blast
  obtain p'' where 2: "p'' @ q' @ rest = p' @ q' @ data1" "split_at p'' q' ctx3" "length rest \<le> B"
      "rest \<noteq> [] \<longrightarrow> q' = []"
    using whole_blocks_split [OF 1(2,3) wb] by blast
  show ?thesis
    using keep_rest_split [OF 2(2,3,4)] 1(1) 2(1) by (simp add: pb absorbed_split) metis
qed

text \<open>Any number of calls, whatever their sizes and addresses.\<close>

lemma process_all_absorbed:
  assumes "absorbed B M compress iv chain counter m ctx"
  shows "absorbed B M compress iv chain counter (m @ concat (map snd inputs))
           (fold (\<lambda>(addr, data). process_bytes B al process_block sau addr data) inputs ctx)"
  using assms
proof (induction inputs arbitrary: m ctx)
  case Nil
  then show ?case by simp
next
  case (Cons i inputs)
  then show ?case
    using Cons.IH [OF process_bytes_absorbed [OF Cons.prems]]
    by (cases i) (simp flip: append_assoc)
qed

text \<open>The final call of the block function, on the pending bytes followed by a tail \<open>t\<close>.\<close>

lemma absorbed_finish:
  assumes abs: "absorbed B M compress iv chain counter m ctx"
    and ctx': "chain ctx' = chain ctx" "take n (buffer ctx') = take (buflen ctx) (buffer ctx) @ t"
    and len: "B dvd buflen ctx + length t"
  shows "chain (process_block (take n (buffer ctx')) ctx') = fold compress (chunks B (m @ t)) iv"
proof -
  obtain p q where m: "m = p @ q" and st: "split_at p q ctx"
    using abs by (auto simp: absorbed_split)
  have "take n (buffer ctx') = q @ t" and "B dvd length (q @ t)"
    using ctx' st len by (simp_all add: split_at_def)
  then show ?thesis
    using st B_pos ctx'(1) by (simp add: m chain_block split_at_def chunks_append)
qed

end

end
