(* ===== verification/Md5.thy ===== *)
theory Md5
  imports Digest
begin

text \<open>
  \<open>crypt/md5.c\<close> and \<open>crypt/md5-block.c\<close>: the context, the 64 unrolled operations of the
  block function, padding and the streaming interface, refined to RFC 1321's description of
  MD5. The buffering is \<open>process_bytes\<close> of theory \<open>Digest\<close>.
\<close>

section \<open>The block function\<close>

text \<open>\<open>struct md5_ctx\<close>; \<open>total[0]\<close> and \<open>total[1]\<close> are the two halves of the byte count.\<close>

record md5_ctx = digest_ctx +
  md5_A :: u32
  md5_B :: u32
  md5_C :: u32
  md5_D :: u32
  total0 :: u32
  total1 :: u32

type_synonym md5_words = "u32 \<times> u32 \<times> u32 \<times> u32"
type_synonym md5_fn = "u32 \<Rightarrow> u32 \<Rightarrow> u32 \<Rightarrow> u32"

definition FF :: md5_fn where "FF b c d = d XOR (b AND (c XOR d))"
definition FG :: md5_fn where "FG b c d = FF d b c"
definition FH :: md5_fn where "FH b c d = b XOR c XOR d"
definition FI :: md5_fn where "FI b c d = c XOR (b OR NOT d)"

definition CYCLIC :: "u32 \<Rightarrow> nat \<Rightarrow> u32" where
  "CYCLIC w s = push_bit s w OR drop_bit (32 - s) w"

text \<open>The macro \<open>OP\<close>: the new value of its first argument.\<close>

definition OP :: "md5_fn \<Rightarrow> u32 \<Rightarrow> u32 \<Rightarrow> u32 \<Rightarrow> u32 \<Rightarrow> u32 \<Rightarrow> nat \<Rightarrow> u32 \<Rightarrow> u32" where
  "OP f a b c d x s T =
    (let a = a + (f b c d + x + T);
         a = CYCLIC a s
     in a + b)"

text \<open>\<open>OP (f, A, B, C, D, k, s, T)\<close> and its three rotations, as updates of the four working
  variables; \<open>cw\<close> is the array \<open>correct_words\<close>.\<close>

fun opA :: "md5_fn \<Rightarrow> nat \<Rightarrow> nat \<Rightarrow> u32 \<Rightarrow> u32 list \<Rightarrow> md5_words \<Rightarrow> md5_words" where
  "opA f k s T cw (A, B, C, D) = (OP f A B C D (cw ! k) s T, B, C, D)"

fun opD :: "md5_fn \<Rightarrow> nat \<Rightarrow> nat \<Rightarrow> u32 \<Rightarrow> u32 list \<Rightarrow> md5_words \<Rightarrow> md5_words" where
  "opD f k s T cw (A, B, C, D) = (A, B, C, OP f D A B C (cw ! k) s T)"

fun opC :: "md5_fn \<Rightarrow> nat \<Rightarrow> nat \<Rightarrow> u32 \<Rightarrow> u32 list \<Rightarrow> md5_words \<Rightarrow> md5_words" where
  "opC f k s T cw (A, B, C, D) = (A, B, OP f C D A B (cw ! k) s T, D)"

fun opB :: "md5_fn \<Rightarrow> nat \<Rightarrow> nat \<Rightarrow> u32 \<Rightarrow> u32 list \<Rightarrow> md5_words \<Rightarrow> md5_words" where
  "opB f k s T cw (A, B, C, D) = (A, OP f B C D A (cw ! k) s T, C, D)"

definition md5_round1 :: "(u32 list \<Rightarrow> md5_words \<Rightarrow> md5_words) list" where
  "md5_round1 =
    [opA FF 0 7 0xd76aa478, opD FF 1 12 0xe8c7b756,
     opC FF 2 17 0x242070db, opB FF 3 22 0xc1bdceee,
     opA FF 4 7 0xf57c0faf, opD FF 5 12 0x4787c62a,
     opC FF 6 17 0xa8304613, opB FF 7 22 0xfd469501,
     opA FF 8 7 0x698098d8, opD FF 9 12 0x8b44f7af,
     opC FF 10 17 0xffff5bb1, opB FF 11 22 0x895cd7be,
     opA FF 12 7 0x6b901122, opD FF 13 12 0xfd987193,
     opC FF 14 17 0xa679438e, opB FF 15 22 0x49b40821]"

definition md5_round2 :: "(u32 list \<Rightarrow> md5_words \<Rightarrow> md5_words) list" where
  "md5_round2 =
    [opA FG 1 5 0xf61e2562, opD FG 6 9 0xc040b340,
     opC FG 11 14 0x265e5a51, opB FG 0 20 0xe9b6c7aa,
     opA FG 5 5 0xd62f105d, opD FG 10 9 0x02441453,
     opC FG 15 14 0xd8a1e681, opB FG 4 20 0xe7d3fbc8,
     opA FG 9 5 0x21e1cde6, opD FG 14 9 0xc33707d6,
     opC FG 3 14 0xf4d50d87, opB FG 8 20 0x455a14ed,
     opA FG 13 5 0xa9e3e905, opD FG 2 9 0xfcefa3f8,
     opC FG 7 14 0x676f02d9, opB FG 12 20 0x8d2a4c8a]"

definition md5_round3 :: "(u32 list \<Rightarrow> md5_words \<Rightarrow> md5_words) list" where
  "md5_round3 =
    [opA FH 5 4 0xfffa3942, opD FH 8 11 0x8771f681,
     opC FH 11 16 0x6d9d6122, opB FH 14 23 0xfde5380c,
     opA FH 1 4 0xa4beea44, opD FH 4 11 0x4bdecfa9,
     opC FH 7 16 0xf6bb4b60, opB FH 10 23 0xbebfbc70,
     opA FH 13 4 0x289b7ec6, opD FH 0 11 0xeaa127fa,
     opC FH 3 16 0xd4ef3085, opB FH 6 23 0x04881d05,
     opA FH 9 4 0xd9d4d039, opD FH 12 11 0xe6db99e5,
     opC FH 15 16 0x1fa27cf8, opB FH 2 23 0xc4ac5665]"

definition md5_round4 :: "(u32 list \<Rightarrow> md5_words \<Rightarrow> md5_words) list" where
  "md5_round4 =
    [opA FI 0 6 0xf4292244, opD FI 7 10 0x432aff97,
     opC FI 14 15 0xab9423a7, opB FI 5 21 0xfc93a039,
     opA FI 12 6 0x655b59c3, opD FI 3 10 0x8f0ccc92,
     opC FI 10 15 0xffeff47d, opB FI 1 21 0x85845dd1,
     opA FI 8 6 0x6fa87e4f, opD FI 15 10 0xfe2ce6e0,
     opC FI 6 15 0xa3014314, opB FI 13 21 0x4e0811a1,
     opA FI 4 6 0xf7537e82, opD FI 11 10 0xbd3af235,
     opC FI 2 15 0x2ad7d2bb, opB FI 9 21 0xeb86d391]"

definition load_words32 :: "byte list \<Rightarrow> u32 list" where
  "load_words32 bs = map (\<lambda>i. load32 (take 4 (drop (4 * i) bs))) [0..<16]"

text \<open>The body of the loop of \<open>__md5_process_block\<close>: one 64-byte block. On a little-endian
  host \<open>SWAP\<close> is the identity.\<close>

definition md5_one_block :: "byte list \<Rightarrow> md5_words \<Rightarrow> md5_words" where
  "md5_one_block block saved =
    (let cw = load_words32 block;
         (A, B, C, D) = fold (\<lambda>p. p cw) (md5_round1 @ md5_round2 @ md5_round3 @ md5_round4) saved;
         (A_save, B_save, C_save, D_save) = saved
     in (A + A_save, B + B_save, C + C_save, D + D_save))"

function md5_blocks :: "byte list \<Rightarrow> md5_words \<Rightarrow> md5_words" where
  "md5_blocks words st =
    (if words = [] then st else md5_blocks (drop 64 words) (md5_one_block (take 64 words) st))"
  by pat_completeness auto
termination
  by (relation "measure (\<lambda>(words, st). length words)") auto

declare md5_blocks.simps [simp del]

definition md5_process_block :: "byte list \<Rightarrow> md5_ctx \<Rightarrow> md5_ctx" where
  "md5_process_block data ctx =
    (let len = length data;
         lolen = word_of_nat len;
         ctx = ctx\<lparr>total0 := total0 ctx + lolen\<rparr>;
         ctx = ctx\<lparr>total1 := total1 ctx
                + (word_of_nat (len div 2 ^ 31 div 2) + (if total0 ctx < lolen then 1 else 0))\<rparr>;
         (A, B, C, D) = md5_blocks data (md5_A ctx, md5_B ctx, md5_C ctx, md5_D ctx)
     in ctx\<lparr>md5_A := A, md5_B := B, md5_C := C, md5_D := D\<rparr>)"

section \<open>The streaming interface\<close>

definition fillbuf :: "byte list" where
  "fillbuf = 0x80 # replicate 63 0"

definition md5_init_ctx :: "md5_ctx \<Rightarrow> md5_ctx" where
  "md5_init_ctx ctx = ctx\<lparr>md5_A := 0x67452301, md5_B := 0xefcdab89, md5_C := 0x98badcfe,
     md5_D := 0x10325476, total0 := 0, total1 := 0, buflen := 0\<rparr>"

definition md5_read_ctx :: "md5_ctx \<Rightarrow> byte list" where
  "md5_read_ctx ctx = store32 (md5_A ctx) @ store32 (md5_B ctx) @ store32 (md5_C ctx)
     @ store32 (md5_D ctx)"

text \<open>The stores through \<open>buffer32\<close> are stores at four times the index of the byte buffer.\<close>

definition md5_finish_ctx :: "md5_ctx \<Rightarrow> byte list \<times> md5_ctx" where
  "md5_finish_ctx ctx =
    (let bytes = buflen ctx;
         ctx = ctx\<lparr>total0 := total0 ctx + word_of_nat bytes\<rparr>;
         ctx = (if total0 ctx < word_of_nat bytes then ctx\<lparr>total1 := total1 ctx + 1\<rparr> else ctx);
         pad = (if bytes \<ge> 56 then 64 + 56 - bytes else 56 - bytes);
         ctx = ctx\<lparr>buffer := blit (buffer ctx) bytes (take pad fillbuf)\<rparr>;
         ctx = ctx\<lparr>buffer := blit (buffer ctx) (4 * ((bytes + pad) div 4))
                 (store32 (push_bit 3 (total0 ctx)))\<rparr>;
         ctx = ctx\<lparr>buffer := blit (buffer ctx) (4 * ((bytes + pad + 4) div 4))
                 (store32 (push_bit 3 (total1 ctx) OR drop_bit 29 (total0 ctx)))\<rparr>;
         ctx = md5_process_block (take (bytes + pad + 8) (buffer ctx)) ctx
     in (md5_read_ctx ctx, ctx))"

definition md5_process_bytes :: "bool \<Rightarrow> nat \<Rightarrow> byte list \<Rightarrow> md5_ctx \<Rightarrow> md5_ctx" where
  "md5_process_bytes = process_bytes 64 4 md5_process_block"

text \<open>\<open>md5_buffer\<close>: the whole computation on one buffer. \<open>ctx\<close> is the uninitialised local
  context.\<close>

definition md5_buffer :: "bool \<Rightarrow> nat \<Rightarrow> byte list \<Rightarrow> md5_ctx \<Rightarrow> byte list" where
  "md5_buffer sau addr data ctx =
    (let ctx = md5_init_ctx ctx;
         ctx = md5_process_bytes sau addr data ctx
     in fst (md5_finish_ctx ctx))"

section \<open>Reference: RFC 1321\<close>

text \<open>The auxiliary functions, the word order and the rotation amounts as the RFC gives them,
  indexed by the step number.\<close>

definition rfc_F :: "nat \<Rightarrow> md5_fn" where
  "rfc_F i x y z =
    (if i < 16 then (x AND y) OR (NOT x AND z)
     else if i < 32 then (x AND z) OR (y AND NOT z)
     else if i < 48 then x XOR y XOR z
     else y XOR (x OR NOT z))"

definition rfc_k :: "nat \<Rightarrow> nat" where
  "rfc_k i = (if i < 16 then i else if i < 32 then (5 * i + 1) mod 16
     else if i < 48 then (3 * i + 5) mod 16 else (7 * i) mod 16)"

definition rfc_s :: "nat \<Rightarrow> nat" where
  "rfc_s i = [[7, 12, 17, 22], [5, 9, 14, 20], [4, 11, 16, 23], [6, 10, 15, 21]] ! (i div 16) ! (i mod 4)"

text \<open>\<open>T[i] = floor (4294967296 * |sin i|)\<close> for \<open>i = 1..64\<close>.\<close>

definition rfc_T :: "nat list" where
  "rfc_T =
    [3614090360, 3905402710, 606105819, 3250441966, 4118548399, 1200080426,
     2821735955, 4249261313, 1770035416, 2336552879, 4294925233, 2304563134,
     1804603682, 4254626195, 2792965006, 1236535329, 4129170786, 3225465664,
     643717713, 3921069994, 3593408605, 38016083, 3634488961, 3889429448,
     568446438, 3275163606, 4107603335, 1163531501, 2850285829, 4243563512,
     1735328473, 2368359562, 4294588738, 2272392833, 1839030562, 4259657740,
     2763975236, 1272893353, 4139469664, 3200236656, 681279174, 3936430074,
     3572445317, 76029189, 3654602809, 3873151461, 530742520, 3299628645,
     4096336452, 1126891415, 2878612391, 4237533241, 1700485571, 2399980690,
     4293915773, 2240044497, 1873313359, 4264355552, 2734768916, 1309151649,
     4149444226, 3174756917, 718787259, 3951481745]"

text \<open>Step \<open>i\<close>: \<open>a = b + ((a + F (b, c, d) + X[k] + T[i]) <<< s)\<close>, then the four registers
  change places.\<close>

fun rfc_step :: "u32 list \<Rightarrow> nat \<Rightarrow> md5_words \<Rightarrow> md5_words" where
  "rfc_step X i (a, b, c, d) =
    (d, b + word_rotl (rfc_s i) (a + rfc_F i b c d + X ! rfc_k i + word_of_nat (rfc_T ! i)), b, c)"

definition rfc_compress :: "byte list \<Rightarrow> md5_words \<Rightarrow> md5_words" where
  "rfc_compress block h =
    (let X = map (\<lambda>w. word_of_nat (le_val w)) (chunks 4 block);
         (a, b, c, d) = fold (rfc_step X) [0..<64] h;
         (a0, b0, c0, d0) = h
     in (a + a0, b + b0, c + c0, d + d0))"

definition rfc_iv :: md5_words where
  "rfc_iv = (0x67452301, 0xefcdab89, 0x98badcfe, 0x10325476)"

text \<open>Padding to 56 modulo 64 and the length in bits as a 64-bit little-endian number.\<close>

definition md5_pad :: "byte list \<Rightarrow> byte list" where
  "md5_pad m = m @ [0x80] @ replicate ((119 - length m mod 64) mod 64) 0
     @ le_bytes 8 (8 * length m mod 2 ^ 64)"

definition md5_ref :: "byte list \<Rightarrow> byte list" where
  "md5_ref m =
    (let (a, b, c, d) = fold rfc_compress (chunks 64 (md5_pad m)) rfc_iv
     in le_bytes 4 (unat a) @ le_bytes 4 (unat b) @ le_bytes 4 (unat c) @ le_bytes 4 (unat d))"

section \<open>The unrolled operations are the RFC's steps\<close>

lemma FF_rfc: "FF = rfc_F i" if "i < 16"
  using that by (intro ext bit_word_eqI) (auto simp: FF_def rfc_F_def bit_simps)

lemma FG_rfc: "FG = rfc_F i" if "16 \<le> i" "i < 32"
  using that by (intro ext bit_word_eqI) (auto simp: FG_def FF_def rfc_F_def bit_simps)

lemma FH_rfc: "FH = rfc_F i" if "32 \<le> i" "i < 48"
  using that by (intro ext) (simp add: FH_def rfc_F_def)

lemma FI_rfc: "FI = rfc_F i" if "48 \<le> i"
  using that by (intro ext) (simp add: FI_def rfc_F_def)

lemma md5_CYCLIC_rotl: "0 < s \<Longrightarrow> s < 32 \<Longrightarrow> CYCLIC w s = word_rotl s w"
  using rotate_left_bits [of s w] by (simp add: CYCLIC_def)

definition md5_op :: "nat \<Rightarrow> u32 list \<Rightarrow> md5_words \<Rightarrow> md5_words" where
  "md5_op i = ([opA, opD, opC, opB] ! (i mod 4)) (rfc_F i) (rfc_k i) (rfc_s i) (word_of_nat (rfc_T ! i))"

lemma step_numbers:
  "[0..<16] = [0, 1, 2, 3, 4, 5, 6, 7, 8, 9, 10, 11, 12, 13, 14, 15]"
  "[16..<32] = [16, 17, 18, 19, 20, 21, 22, 23, 24, 25, 26, 27, 28, 29, 30, 31]"
  "[32..<48] = [32, 33, 34, 35, 36, 37, 38, 39, 40, 41, 42, 43, 44, 45, 46, 47]"
  "[48..<64] = [48, 49, 50, 51, 52, 53, 54, 55, 56, 57, 58, 59, 60, 61, 62, 63]"
  by (simp_all add: upt_rec)

lemma md5_rounds_indexed:
  "md5_round1 = map md5_op [0..<16]" "md5_round2 = map md5_op [16..<32]"
  "md5_round3 = map md5_op [32..<48]" "md5_round4 = map md5_op [48..<64]"
  by (simp_all add: md5_round1_def md5_round2_def md5_round3_def md5_round4_def step_numbers
        md5_op_def rfc_k_def rfc_s_def rfc_T_def flip: FF_rfc FG_rfc FH_rfc FI_rfc)

lemma md5_ops_indexed:
  "md5_round1 @ md5_round2 @ md5_round3 @ md5_round4 = map md5_op [0..<64]"
proof -
  have "[0..<64] = [0..<16] @ [16..<32] @ [32..<48] @ [48..<64]"
    by (simp add: upt_rec)
  then show ?thesis by (simp only: md5_rounds_indexed map_append)
qed

text \<open>Where the RFC's registers \<open>a, b, c, d\<close> are among \<open>A, B, C, D\<close> before step \<open>i\<close>.\<close>

fun registers :: "nat \<Rightarrow> md5_words \<Rightarrow> md5_words" where
  "registers i (A, B, C, D) =
    [(A, B, C, D), (D, A, B, C), (C, D, A, B), (B, C, D, A)] ! (i mod 4)"

lemma rfc_s_range: "i < 64 \<Longrightarrow> 0 < rfc_s i \<and> rfc_s i < 32"
proof -
  assume "i < 64"
  then have "i div 16 \<in> {0, 1, 2, 3}" "i mod 4 \<in> {0, 1, 2, 3}" by auto
  then show ?thesis by (auto simp: rfc_s_def)
qed

lemma md5_op_step:
  assumes "i < 64"
  shows "rfc_step cw i (registers i st) = registers (Suc i) (md5_op i cw st)"
proof -
  obtain A B C D where st: "st = (A, B, C, D)" by (cases st) auto
  have "i mod 4 = 0 \<and> Suc i mod 4 = 1 \<or> i mod 4 = 1 \<and> Suc i mod 4 = 2 \<or>
      i mod 4 = 2 \<and> Suc i mod 4 = 3 \<or> i mod 4 = 3 \<and> Suc i mod 4 = 0"
    by presburger
  then show ?thesis
    using rfc_s_range [OF assms]
    by (elim disjE conjE)
      (simp_all add: st md5_op_def OP_def md5_CYCLIC_rotl Let_def algebra_simps)
qed

lemma md5_ops_steps:
  "n \<le> 64 \<Longrightarrow> fold (rfc_step cw) [0..<n] st = registers n (fold (\<lambda>p. p cw) (map md5_op [0..<n]) st)"
proof (induction n)
  case 0
  then show ?case by (cases st) simp
next
  case (Suc n)
  then show ?case by (simp add: md5_op_step)
qed

lemma load_words32_chunks:
  "length block = 64 \<Longrightarrow> load_words32 block = map (\<lambda>w. word_of_nat (le_val w)) (chunks 4 block)"
  by (simp add: load_words32_def chunks_eq_map load32_le_val)

lemma md5_one_block_rfc:
  assumes "length block = 64"
  shows "md5_one_block block = rfc_compress block"
proof
  fix h :: md5_words
  let ?cw = "load_words32 block"
  have "fold (rfc_step ?cw) [0..<64] h
      = registers 64 (fold (\<lambda>p. p ?cw) (md5_round1 @ md5_round2 @ md5_round3 @ md5_round4) h)"
    by (simp only: md5_ops_steps [of 64, simplified] md5_ops_indexed order_refl)
  moreover have "registers 64 st = st" for st
    by (cases st) simp
  ultimately show "md5_one_block block h = rfc_compress block h"
    using assms by (simp add: md5_one_block_def rfc_compress_def load_words32_chunks Let_def)
qed

lemma md5_blocks_fold:
  "64 dvd length data \<Longrightarrow> md5_blocks data st = fold rfc_compress (chunks 64 data) st"
proof (induction data st rule: md5_blocks.induct)
  case (1 data st)
  show ?case
  proof (cases "data = []")
    case True
    then show ?thesis by (simp add: md5_blocks.simps)
  next
    case False
    with 1 have "64 \<le> length data" by (auto simp: dvd_imp_le)
    then show ?thesis
      using 1 False
      by (simp add: md5_blocks.simps [of data] chunks.simps [of 64 data] md5_one_block_rfc)
  qed
qed

section \<open>The streaming interface computes the RFC's digest\<close>

definition md5_chain :: "md5_ctx \<Rightarrow> md5_words" where
  "md5_chain ctx = (md5_A ctx, md5_B ctx, md5_C ctx, md5_D ctx)"

definition md5_total :: "md5_ctx \<Rightarrow> nat" where
  "md5_total ctx = unat (total1 ctx) * 2 ^ 32 + unat (total0 ctx)"

abbreviation md5_absorbed :: "byte list \<Rightarrow> md5_ctx \<Rightarrow> bool" where
  "md5_absorbed \<equiv> absorbed 64 (2 ^ 64) rfc_compress rfc_iv md5_chain md5_total"

lemma md5_process_block_fields [simp]:
  "buflen (md5_process_block data ctx) = buflen ctx"
  "buffer (md5_process_block data ctx) = buffer ctx"
  by (simp_all add: md5_process_block_def Let_def split: prod.split)

lemma md5_process_block_chain:
  "md5_chain (md5_process_block data ctx) = md5_blocks data (md5_chain ctx)"
  by (simp add: md5_process_block_def md5_chain_def Let_def split: prod.split)

lemma md5_process_block_total:
  "md5_total (md5_process_block data ctx) = (md5_total ctx + length data) mod 2 ^ 64"
  using double_word_add [of "total1 ctx" "length data" "total0 ctx"]
  by (cases "md5_blocks data (md5_A ctx, md5_B ctx, md5_C ctx, md5_D ctx)")
    (simp add: md5_process_block_def md5_total_def Let_def div_mult2_eq [symmetric])

interpretation md5: block_digest 64 "2 ^ 64" rfc_compress rfc_iv md5_chain md5_total md5_process_block
  by unfold_locales
    (simp_all add: md5_process_block_chain md5_process_block_total md5_blocks_fold,
     simp_all add: md5_chain_def md5_total_def)

lemma md5_init_absorbed:
  "length (buffer ctx) = 128 \<Longrightarrow> md5_absorbed [] (md5_init_ctx ctx)"
  by (simp add: absorbed_def md5_init_ctx_def md5_chain_def md5_total_def rfc_iv_def)

lemma md5_take_fillbuf: "0 < n \<Longrightarrow> n \<le> 64 \<Longrightarrow> take n fillbuf = 0x80 # replicate (n - 1) 0"
  by (cases n) (simp_all add: fillbuf_def min_def)

lemma md5_finish_digest:
  assumes abs: "md5_absorbed m ctx"
  shows "fst (md5_finish_ctx ctx) = md5_ref m"
proof -
  define bytes where "bytes = buflen ctx"
  define pad where "pad = finish_pad 64 8 bytes"
  define lo where "lo = total0 ctx + word_of_nat bytes"
  define hi where "hi = total1 ctx + (if lo < word_of_nat bytes then 1 else 0)"
  define t where "t = take pad fillbuf @ store32 (push_bit 3 lo)
      @ store32 (push_bit 3 hi OR drop_bit 29 lo)"
  define ctx1 where "ctx1 = ctx\<lparr>total0 := lo, total1 := hi, buffer := blit (buffer ctx) bytes t\<rparr>"
  have b: "bytes \<le> 64" "bytes \<le> length m" "length (buffer ctx) = 128" "64 dvd length m - bytes"
    and tot: "md5_total ctx = (length m - bytes) mod 2 ^ 64"
    using abs by (simp_all add: absorbed_def Let_def bytes_def)
  have pad: "bytes + pad = 56 \<or> bytes + pad = 120" "pad \<le> 64" "0 < pad"
    using finish_pad_total [of 8 64 bytes] b by (auto simp: pad_def finish_pad_def)
  then have lent: "length t = pad + 8"
    by (simp add: t_def fillbuf_def)
  have blits: "blit (blit (blit (buffer ctx) bytes (take pad fillbuf))
        (4 * ((bytes + pad) div 4)) (store32 (push_bit 3 lo)))
        (4 * ((bytes + pad + 4) div 4)) (store32 (push_bit 3 hi OR drop_bit 29 lo))
      = blit (buffer ctx) bytes t"
    using pad b by (auto simp: t_def buf_simps fillbuf_def length_blit)
  have fin: "fst (md5_finish_ctx ctx) = md5_read_ctx (md5_process_block (take (bytes + pad + 8) (buffer ctx1)) ctx1)"
    using blits
    by (cases "lo < word_of_nat bytes"; cases "bytes \<ge> 56")
      (simp_all add: md5_finish_ctx_def Let_def ctx1_def lo_def hi_def pad_def finish_pad_def
         flip: bytes_def)
  have "unat hi * 2 ^ 32 + unat lo = length m mod 2 ^ 64"
    using double_word_add [of "total1 ctx" bytes "total0 ctx"] tot b
    by (simp add: hi_def lo_def md5_total_def mod_add_left_eq)
  then have "t = 0x80 # replicate ((119 - length m mod 64) mod 64) 0
      @ le_bytes 8 (8 * length m mod 2 ^ 64)"
    using finish_pad_zeros [of 8 64 "length m - bytes" bytes] pad b
    by (simp add: t_def md5_take_fillbuf length_words32 pad_def pad_zeros_def mod_mult_right_eq)
  moreover have "md5_chain (md5_process_block (take (bytes + pad + 8) (buffer ctx1)) ctx1)
      = fold rfc_compress (chunks 64 (m @ t)) rfc_iv"
  proof (rule md5.absorbed_finish [OF abs])
    show "take (bytes + pad + 8) (buffer ctx1) = take (buflen ctx) (buffer ctx) @ t"
      using b lent by (simp add: ctx1_def take_blit bytes_def)
    have "buflen ctx + length t = 64 \<or> buflen ctx + length t = 128"
      using pad(1) lent bytes_def by linarith
    then show "64 dvd buflen ctx + length t" by auto
  qed (simp add: ctx1_def md5_chain_def)
  ultimately show ?thesis
    by (simp add: fin md5_ref_def md5_pad_def md5_read_ctx_def md5_chain_def flip: store32_word_of_nat)
      (auto split: prod.split)
qed

lemma md5_stream_absorbed:
  "length (buffer ctx) = 128 \<Longrightarrow>
     md5_absorbed (concat (map snd inputs))
       (fold (\<lambda>(addr, data). md5_process_bytes sau addr data) inputs (md5_init_ctx ctx))"
  using md5.process_all_absorbed [OF md5_init_absorbed, of ctx inputs 4 sau]
  by (simp add: md5_process_bytes_def)

text \<open>
  C1. MD5 is computed correctly however the message arrives: after \<open>md5_init_ctx\<close>, any
  sequence of \<open>md5_process_bytes\<close> calls with any chunk sizes (empty ones included), at any
  addresses, aligned or not, on a machine with or without unaligned access, \<open>md5_finish_ctx\<close>
  returns the RFC 1321 digest of the concatenation of the chunks.
\<close>

theorem md5_digest_correct:
  assumes "length (buffer ctx) = 128"
  shows "fst (md5_finish_ctx
           (fold (\<lambda>(addr, data). md5_process_bytes sau addr data) inputs (md5_init_ctx ctx)))
         = md5_ref (concat (map snd inputs))"
  using md5_finish_digest [OF md5_stream_absorbed [OF assms]] .

definition fresh_md5_ctx :: md5_ctx where
  "fresh_md5_ctx = \<lparr>buflen = 3, buffer = replicate 128 0x55, md5_A = 1, md5_B = 2, md5_C = 3,
     md5_D = 4, total0 = 5, total1 = 6\<rparr>"

lemma md5_digest_correct_witness:
  "length (buffer fresh_md5_ctx) = 128 \<and>
   fst (md5_finish_ctx (fold (\<lambda>(addr, data). md5_process_bytes False addr data)
      [(1, [97]), (6, [98, 99])] (md5_init_ctx fresh_md5_ctx))) = md5_ref [97, 98, 99]"
  using md5_digest_correct [of fresh_md5_ctx False "[(1, [97]), (6, [98, 99])]"]
  by (simp add: fresh_md5_ctx_def)

text \<open>
  The unrolled block function is the RFC's: on a 64-byte block the 64 \<open>OP\<close> lines, with
  the optimised \<open>FF\<close> and \<open>FG\<close>, compute the table-driven rounds of RFC 1321 with its index
  permutations, rotation amounts and sine constants.
\<close>

theorem md5_block_is_rfc:
  assumes "length block = 64"
  shows "md5_one_block block h = rfc_compress block h"
  using md5_one_block_rfc [OF assms] by simp

lemma md5_block_is_rfc_witness:
  "length (replicate 64 (0x61::byte)) = 64 \<and>
   md5_one_block (replicate 64 0x61) rfc_iv = rfc_compress (replicate 64 0x61) rfc_iv"
  using md5_block_is_rfc [of "replicate 64 0x61" rfc_iv] by simp

end
