(* ===== verification/Md5_Stream.thy ===== *)
theory Md5_Stream
  imports Md5
begin

text \<open>
  \<open>md5_stream\<close> of crypt/md5.c: the digest of all that can be read from a stream, in blocks of 4096
  bytes that go to the block function directly.

  A stream is what \<open>fread\<close> and \<open>ferror\<close> show of it: the bytes that are still to come, among them the
  places where a read fails, and the error indicator, which stays set.
\<close>

section \<open>The stdio calls\<close>

datatype stream_item = Byte byte | Fail

record in_stream =
  items :: "stream_item list"
  error_flag :: bool

text \<open>Up to \<open>n\<close> bytes; a failing read ends the call and is reported once.\<close>

fun read_items :: "nat \<Rightarrow> stream_item list \<Rightarrow> byte list \<times> bool \<times> stream_item list" where
  "read_items 0 is = ([], False, is)"
| "read_items (Suc n) [] = ([], False, [])"
| "read_items (Suc n) (Fail # is) = ([], True, is)"
| "read_items (Suc n) (Byte b # is) = (let (bs, err, is) = read_items n is in (b # bs, err, is))"

definition fread :: "nat \<Rightarrow> in_stream \<Rightarrow> byte list \<times> in_stream" where
  "fread n f = (let (bs, err, is) = read_items n (items f) in (bs, f\<lparr>items := is, error_flag := error_flag f \<or> err\<rparr>))"

definition ferror :: "in_stream \<Rightarrow> bool" where
  "ferror f = error_flag f"

lemma read_items_length: "read_items n is = (bs, err, is') \<Longrightarrow> length bs \<le> n \<and> length bs + length is' \<le> length is"
  by (induction n "is" arbitrary: bs err is' rule: read_items.induct) (auto split: prod.splits)

lemma fread_length: "fread n f = (bs, f') \<Longrightarrow> length bs \<le> n \<and> length bs + length (items f') \<le> length (items f)"
  using read_items_length by (auto simp: fread_def split: prod.splits)

section \<open>The code\<close>

definition BLOCKSIZE :: nat where
  "BLOCKSIZE = 4096"

text \<open>The inner loop. \<open>buf\<close> is the filled part of the local buffer, \<open>sum\<close> bytes; the last result of
  \<open>fread\<close> is returned as \<open>n\<close>.\<close>

function read_block :: "byte list \<Rightarrow> in_stream \<Rightarrow> byte list \<times> nat \<times> in_stream" where
  "read_block buf f =
     (let (bs, f) = fread (BLOCKSIZE - length buf) f;
          n = length bs;
          buf = buf @ bs
      in if length buf < BLOCKSIZE \<and> n \<noteq> 0 then read_block buf f else (buf, n, f))"
  by pat_completeness auto
termination
  by (relation "measure (\<lambda>(buf, f). BLOCKSIZE - length buf)") (auto intro: diff_less_mono2)

declare read_block.simps [simp del]

lemma read_block_length:
  "read_block buf f = (buf', n, f') \<Longrightarrow> length buf' + length (items f') \<le> length buf + length (items f) \<and> (n \<noteq> 0 \<longrightarrow> BLOCKSIZE \<le> length buf')"
proof (induction buf f rule: read_block.induct)
  case (1 buf f)
  obtain bs f1 where r: "fread (BLOCKSIZE - length buf) f = (bs, f1)" by (cases "fread (BLOCKSIZE - length buf) f")
  note len = fread_length [OF r]
  show ?case
  proof (cases "length (buf @ bs) < BLOCKSIZE \<and> length bs \<noteq> 0")
    case True
    then have "read_block (buf @ bs) f1 = (buf', n, f')"
      using "1.prems" by (subst (asm) read_block.simps) (simp add: r)
    then show ?thesis using "1.IH" [OF r [symmetric] refl refl refl True] len by auto
  next
    case False
    then show ?thesis using "1.prems" len by (subst (asm) read_block.simps) (auto simp: r)
  qed
qed

text \<open>The outer loop: \<open>None\<close> when a read error is found at the end.\<close>

function stream_blocks :: "in_stream \<Rightarrow> md5_ctx \<Rightarrow> (byte list \<times> md5_ctx) option \<times> in_stream" where
  "stream_blocks f ctx =
     (let (buf, n, f) = read_block [] f
      in if n = 0 \<and> ferror f then (None, f)
         else if n = 0 then (Some (buf, ctx), f)
         else stream_blocks f (md5_process_block (take BLOCKSIZE buf) ctx))"
  by pat_completeness auto
termination
  by (relation "measure (\<lambda>(f, ctx). length (items f))") (auto dest!: sym [of _ "read_block _ _"] read_block_length simp: BLOCKSIZE_def)

declare stream_blocks.simps [simp del]

text \<open>The result is the return value with the contents of \<open>resblock\<close>, \<open>None\<close> when it is not written.
  \<open>addr\<close> is the address of the local buffer, \<open>ctx\<close> the uninitialised local context.\<close>

definition md5_stream :: "bool \<Rightarrow> nat \<Rightarrow> in_stream \<Rightarrow> md5_ctx \<Rightarrow> int \<times> byte list option \<times> in_stream" where
  "md5_stream sau addr f ctx =
     (let ctx = md5_init_ctx ctx
      in case stream_blocks f ctx of
           (None, f) \<Rightarrow> (1, None, f)
         | (Some (buf, ctx), f) \<Rightarrow>
             let ctx = (if length buf > 0 then md5_process_bytes sau addr buf ctx else ctx)
             in (0, Some (fst (md5_finish_ctx ctx)), f))"

section \<open>What is read\<close>

definition stream_bytes :: "in_stream \<Rightarrow> byte list" where
  "stream_bytes f = concat (map (\<lambda>i. case i of Byte b \<Rightarrow> [b] | Fail \<Rightarrow> []) (items f))"

definition failing :: "in_stream \<Rightarrow> bool" where
  "failing f \<longleftrightarrow> error_flag f \<or> Fail \<in> set (items f)"

lemma read_items_split:
  assumes "read_items n is = (bs, err, is')"
  shows "concat (map (\<lambda>i. case i of Byte b \<Rightarrow> [b] | Fail \<Rightarrow> []) is) = bs @ concat (map (\<lambda>i. case i of Byte b \<Rightarrow> [b] | Fail \<Rightarrow> []) is')"
    and "Fail \<in> set is \<longleftrightarrow> err \<or> Fail \<in> set is'"
    and "bs = [] \<Longrightarrow> 0 < n \<Longrightarrow> \<not> err \<Longrightarrow> is' = []"
  using assms by (induction n "is" arbitrary: bs err is' rule: read_items.induct) (auto split: prod.splits)

lemma fread_split:
  assumes "fread n f = (bs, f')"
  shows "stream_bytes f = bs @ stream_bytes f'" "failing f' \<longleftrightarrow> failing f"
    "bs = [] \<Longrightarrow> 0 < n \<Longrightarrow> \<not> ferror f' \<Longrightarrow> items f' = []"
  using assms read_items_split [of n "items f"]
  by (auto simp: fread_def stream_bytes_def failing_def ferror_def split: prod.splits)

lemma read_block_split:
  assumes "read_block buf f = (buf', n, f')" "length buf < BLOCKSIZE"
  shows "buf @ stream_bytes f = buf' @ stream_bytes f' \<and> (failing f' \<longleftrightarrow> failing f) \<and> length buf' \<le> BLOCKSIZE \<and>
    (n = 0 \<longrightarrow> \<not> ferror f' \<longrightarrow> items f' = [])"
  using assms
proof (induction buf f rule: read_block.induct)
  case (1 buf f)
  obtain bs f1 where r: "fread (BLOCKSIZE - length buf) f = (bs, f1)" by (cases "fread (BLOCKSIZE - length buf) f")
  note split = fread_split [OF r]
  show ?case
  proof (cases "length (buf @ bs) < BLOCKSIZE \<and> length bs \<noteq> 0")
    case True
    then have "read_block (buf @ bs) f1 = (buf', n, f')"
      using "1.prems"(1) by (subst (asm) read_block.simps) (simp add: r)
    then show ?thesis using "1.IH" [OF r [symmetric] refl refl refl True] True split(1,2) by auto
  next
    case False
    then have "buf' = buf @ bs" "n = length bs" "f' = f1"
      using "1.prems"(1) by (subst (asm) read_block.simps, auto simp: r)+
    then show ?thesis using "1.prems"(2) fread_length [OF r] split by auto
  qed
qed

context block_digest
begin

lemma block_absorbed:
  assumes "absorbed B M compress iv chain counter m ctx" "buflen ctx = 0" "B dvd length bs"
  shows "absorbed B M compress iv chain counter (m @ bs) (process_block bs ctx)"
proof -
  obtain p q where m: "m = p @ q" "split_at p q ctx" using assms(1) absorbed_split by blast
  then have "q = []" using assms(2) by (simp add: split_at_def)
  then have "split_at (m @ bs) [] (process_block bs ctx)"
    using m split_at_block [OF m(2) assms(3)] by (simp add: split_at_def block_simps)
  then show ?thesis unfolding absorbed_split by (intro exI [of _ "m @ bs"] exI [of _ "[]"]) simp
qed

end

lemma stream_blocks_split:
  assumes "md5_absorbed m c" "buflen c = 0"
  shows "if failing f then \<exists>f'. stream_blocks f c = (None, f')
    else \<exists>buf c' f' m'. stream_blocks f c = (Some (buf, c'), f') \<and> md5_absorbed m' c' \<and> m' @ buf = m @ stream_bytes f \<and> items f' = []"
  using assms
proof (induction f c arbitrary: m rule: stream_blocks.induct)
  case (1 f c)
  obtain buf n f1 where r: "read_block [] f = (buf, n, f1)" by (cases "read_block [] f")
  have split: "stream_bytes f = buf @ stream_bytes f1" "failing f1 \<longleftrightarrow> failing f" "length buf \<le> BLOCKSIZE"
      "n = 0 \<Longrightarrow> \<not> ferror f1 \<Longrightarrow> items f1 = []"
    using read_block_split [OF r] by (simp_all add: BLOCKSIZE_def)
  show ?case
  proof (cases "n = 0")
    case True
    then have code: "stream_blocks f c = (if ferror f1 then (None, f1) else (Some (buf, c), f1))"
      by (subst stream_blocks.simps) (simp add: r)
    have "failing f1 \<longleftrightarrow> ferror f1"
      using split(4) [OF True] by (cases "ferror f1") (simp_all add: failing_def flip: ferror_def)
    then have "failing f \<longleftrightarrow> ferror f1" using split(2) by simp
    then show ?thesis
      using "1.prems"(1) split(1) split(4) [OF True] unfolding code by (auto simp: stream_bytes_def)
  next
    case False
    then have len: "length buf = BLOCKSIZE" using read_block_length [OF r] split(3) by simp
    then have code: "stream_blocks f c = stream_blocks f1 (md5_process_block buf c)"
      using False by (subst stream_blocks.simps) (simp add: r)
    have "md5_absorbed (m @ buf) (md5_process_block buf c)"
      using "1.prems" len by (intro md5.block_absorbed) (simp_all add: BLOCKSIZE_def)
    moreover have "buflen (md5_process_block buf c) = 0" using "1.prems"(2) by simp
    moreover have tk: "take BLOCKSIZE buf = buf" using len by simp
    moreover have "\<not> (n = 0 \<and> ferror f1)" using False by simp
    ultimately have "if failing f1 then \<exists>f'. stream_blocks f1 (md5_process_block buf c) = (None, f')
        else \<exists>buf' c' f' m'. stream_blocks f1 (md5_process_block buf c) = (Some (buf', c'), f') \<and> md5_absorbed m' c' \<and>
          m' @ buf' = (m @ buf) @ stream_bytes f1 \<and> items f' = []"
      using "1.IH" [OF r [symmetric] refl refl _ False, of "m @ buf"] unfolding tk by blast
    then show ?thesis unfolding code split(1,2) append_assoc .
  qed
qed

text \<open>C2. The digest of a stream: \<open>md5_stream\<close> always ends. When no read fails it returns 0 and stores
  the RFC 1321 digest of all bytes up to the end of the stream, which it has consumed; when a read
  fails anywhere on the way, or the error indicator was set before, it returns 1 and stores nothing.\<close>

theorem md5_stream_correct:
  assumes "length (buffer ctx) = 128"
  shows "\<exists>f'. md5_stream sau addr f ctx =
      (if failing f then (1, None, f') else (0, Some (md5_ref (stream_bytes f)), f')) \<and> (\<not> failing f \<longrightarrow> items f' = [])"
proof -
  let ?c = "md5_init_ctx ctx"
  have "buflen ?c = 0" by (simp add: md5_init_ctx_def)
  note blocks = stream_blocks_split [OF md5_init_absorbed [OF assms] this, of f]
  show ?thesis
  proof (cases "failing f")
    case True
    then show ?thesis using blocks by (auto simp: md5_stream_def Let_def)
  next
    case False
    then obtain buf c' f' m' where b: "stream_blocks f ?c = (Some (buf, c'), f')" "md5_absorbed m' c'"
        "m' @ buf = [] @ stream_bytes f" "items f' = []" using blocks by auto
    have "md5_absorbed (m' @ buf) (if length buf > 0 then md5_process_bytes sau addr buf c' else c')"
      using b(2) md5.process_bytes_absorbed [OF b(2), of buf 4 sau addr] unfolding md5_process_bytes_def by simp
    from md5_finish_digest [OF this] show ?thesis
      using False b(3,4) unfolding md5_stream_def Let_def b(1) by simp
  qed
qed

lemma md5_stream_correct_witness:
  "length (buffer fresh_md5_ctx) = 128 \<and>
   (\<exists>f'. md5_stream True 8 \<lparr>items = [Byte 97, Byte 98, Byte 99], error_flag = False\<rparr> fresh_md5_ctx = (0, Some (md5_ref [97, 98, 99]), f')) \<and>
   (\<exists>f'. md5_stream True 8 \<lparr>items = [Byte 97, Fail, Byte 99], error_flag = False\<rparr> fresh_md5_ctx = (1, None, f'))"
  using md5_stream_correct [of fresh_md5_ctx True 8 "\<lparr>items = [Byte 97, Byte 98, Byte 99], error_flag = False\<rparr>"]
    md5_stream_correct [of fresh_md5_ctx True 8 "\<lparr>items = [Byte 97, Fail, Byte 99], error_flag = False\<rparr>"]
  by (auto simp: fresh_md5_ctx_def failing_def stream_bytes_def)

end
