(* ===== verification/Sha256.thy ===== *)
theory Sha256
  imports Digest
begin

text \<open>
  \<open>crypt/sha256.c\<close> and \<open>crypt/sha256-block.c\<close>: the SHA-256 block function, padding and
  streaming interface, refined to the standard's (FIPS 180-2) description. Both settings of
  \<open>_STRING_ARCH_unaligned\<close> are modelled.
\<close>

section \<open>The block function\<close>

record sha256_ctx = digest_ctx +
  sha256_H :: "u32 list"
  total64 :: u64

type_synonym words8 = "u32 \<times> u32 \<times> u32 \<times> u32 \<times> u32 \<times> u32 \<times> u32 \<times> u32"

definition K :: "u32 list" where
  "K = concat
    [[0x428a2f98, 0x71374491, 0xb5c0fbcf, 0xe9b5dba5],
     [0x3956c25b, 0x59f111f1, 0x923f82a4, 0xab1c5ed5],
     [0xd807aa98, 0x12835b01, 0x243185be, 0x550c7dc3],
     [0x72be5d74, 0x80deb1fe, 0x9bdc06a7, 0xc19bf174],
     [0xe49b69c1, 0xefbe4786, 0x0fc19dc6, 0x240ca1cc],
     [0x2de92c6f, 0x4a7484aa, 0x5cb0a9dc, 0x76f988da],
     [0x983e5152, 0xa831c66d, 0xb00327c8, 0xbf597fc7],
     [0xc6e00bf3, 0xd5a79147, 0x06ca6351, 0x14292967],
     [0x27b70a85, 0x2e1b2138, 0x4d2c6dfc, 0x53380d13],
     [0x650a7354, 0x766a0abb, 0x81c2c92e, 0x92722c85],
     [0xa2bfe8a1, 0xa81a664b, 0xc24b8b70, 0xc76c51a3],
     [0xd192e819, 0xd6990624, 0xf40e3585, 0x106aa070],
     [0x19a4c116, 0x1e376c08, 0x2748774c, 0x34b0bcb5],
     [0x391c0cb3, 0x4ed8aa4a, 0x5b9cca4f, 0x682e6ff3],
     [0x748f82ee, 0x78a5636f, 0x84c87814, 0x8cc70208],
     [0x90befffa, 0xa4506ceb, 0xbef9a3f7, 0xc67178f2]]"

definition CYCLIC :: "u32 \<Rightarrow> nat \<Rightarrow> u32" where
  "CYCLIC w s = drop_bit s w OR push_bit (32 - s) w"

definition Ch :: "u32 \<Rightarrow> u32 \<Rightarrow> u32 \<Rightarrow> u32" where
  "Ch x y z = (x AND y) XOR (NOT x AND z)"

definition Maj :: "u32 \<Rightarrow> u32 \<Rightarrow> u32 \<Rightarrow> u32" where
  "Maj x y z = (x AND y) XOR (x AND z) XOR (y AND z)"

definition S0 :: "u32 \<Rightarrow> u32" where "S0 x = CYCLIC x 2 XOR CYCLIC x 13 XOR CYCLIC x 22"
definition S1 :: "u32 \<Rightarrow> u32" where "S1 x = CYCLIC x 6 XOR CYCLIC x 11 XOR CYCLIC x 25"
definition R0 :: "u32 \<Rightarrow> u32" where "R0 x = CYCLIC x 7 XOR CYCLIC x 18 XOR drop_bit 3 x"
definition R1 :: "u32 \<Rightarrow> u32" where "R1 x = CYCLIC x 17 XOR CYCLIC x 19 XOR drop_bit 10 x"

text \<open>The array \<open>W\<close>: sixteen byte-swapped words of the block, then the two loops fill it in
  index order.\<close>

definition schedule_start :: "byte list \<Rightarrow> u32 list" where
  "schedule_start words = map (\<lambda>t. bswap_32 (load32 (take 4 (drop (4 * t) words)))) [0..<16]"

definition schedule_word :: "nat \<Rightarrow> u32 list \<Rightarrow> u32 list" where
  "schedule_word t W = W @ [R1 (W ! (t - 2)) + W ! (t - 7) + R0 (W ! (t - 15)) + W ! (t - 16)]"

definition schedule :: "byte list \<Rightarrow> u32 list" where
  "schedule words = fold schedule_word [16..<64] (schedule_start words)"

fun sha256_round :: "u32 list \<Rightarrow> nat \<Rightarrow> words8 \<Rightarrow> words8" where
  "sha256_round W t (a, b, c, d, e, f, g, h) =
    (let T1 = h + S1 e + Ch e f g + K ! t + W ! t;
         T2 = S0 a + Maj a b c
     in (T1 + T2, a, b, c, d + T1, e, f, g))"

definition sha256_one_block :: "byte list \<Rightarrow> words8 \<Rightarrow> words8" where
  "sha256_one_block words saved =
    (let W = schedule words;
         (a, b, c, d, e, f, g, h) = fold (sha256_round W) [0..<64] saved;
         (a_save, b_save, c_save, d_save, e_save, f_save, g_save, h_save) = saved
     in (a + a_save, b + b_save, c + c_save, d + d_save,
         e + e_save, f + f_save, g + g_save, h + h_save))"

function sha256_blocks :: "byte list \<Rightarrow> words8 \<Rightarrow> words8" where
  "sha256_blocks words st =
    (if words = [] then st
     else sha256_blocks (drop 64 words) (sha256_one_block (take 64 words) st))"
  by pat_completeness auto
termination
  by (relation "measure (\<lambda>(words, st). length words)") auto

declare sha256_blocks.simps [simp del]

definition sha256_process_block :: "byte list \<Rightarrow> sha256_ctx \<Rightarrow> sha256_ctx" where
  "sha256_process_block data ctx =
    (let H = sha256_H ctx;
         ctx = ctx\<lparr>total64 := total64 ctx + word_of_nat (length data)\<rparr>;
         (a, b, c, d, e, f, g, h) =
           sha256_blocks data (H ! 0, H ! 1, H ! 2, H ! 3, H ! 4, H ! 5, H ! 6, H ! 7)
     in ctx\<lparr>sha256_H := [a, b, c, d, e, f, g, h]\<rparr>)"

section \<open>The streaming interface\<close>

definition fillbuf :: "byte list" where
  "fillbuf = 0x80 # replicate 63 0"

definition sha256_init_ctx :: "sha256_ctx \<Rightarrow> sha256_ctx" where
  "sha256_init_ctx ctx = ctx\<lparr>sha256_H :=
      [0x6a09e667, 0xbb67ae85, 0x3c6ef372, 0xa54ff53a,
       0x510e527f, 0x9b05688c, 0x1f83d9ab, 0x5be0cd19],
     total64 := 0, buflen := 0\<rparr>"

text \<open>\<open>total[TOTAL64_low]\<close> and \<open>total[TOTAL64_high]\<close> are the halves of \<open>total64\<close>.\<close>

definition sha256_finish_ctx :: "bool \<Rightarrow> sha256_ctx \<Rightarrow> byte list \<times> sha256_ctx" where
  "sha256_finish_ctx sau ctx =
    (let bytes = buflen ctx;
         ctx = ctx\<lparr>total64 := total64 ctx + word_of_nat bytes\<rparr>;
         pad = (if bytes \<ge> 56 then 64 + 56 - bytes else 56 - bytes);
         ctx = ctx\<lparr>buffer := blit (buffer ctx) bytes (take pad fillbuf)\<rparr>;
         ctx = (if sau
                then ctx\<lparr>buffer := blit (buffer ctx) (8 * ((bytes + pad) div 8))
                       (store64 (bswap_64 (push_bit 3 (total64 ctx))))\<rparr>
                else let total_low = ucast (total64 ctx) :: u32;
                         total_high = ucast (drop_bit 32 (total64 ctx)) :: u32;
                         ctx = ctx\<lparr>buffer := blit (buffer ctx) (4 * ((bytes + pad + 4) div 4))
                                 (store32 (bswap_32 (push_bit 3 total_low)))\<rparr>
                     in ctx\<lparr>buffer := blit (buffer ctx) (4 * ((bytes + pad) div 4))
                          (store32 (bswap_32 (push_bit 3 total_high OR drop_bit 29 total_low)))\<rparr>);
         ctx = sha256_process_block (take (bytes + pad + 8) (buffer ctx)) ctx
     in (concat (map (\<lambda>i. store32 (bswap_32 (sha256_H ctx ! i))) [0..<8]), ctx))"

definition sha256_process_bytes :: "bool \<Rightarrow> nat \<Rightarrow> byte list \<Rightarrow> sha256_ctx \<Rightarrow> sha256_ctx" where
  "sha256_process_bytes = process_bytes 64 4 sha256_process_block"

section \<open>Reference: FIPS 180-2\<close>

definition Sigma0 :: "u32 \<Rightarrow> u32" where
  "Sigma0 x = word_rotr 2 x XOR word_rotr 13 x XOR word_rotr 22 x"

definition Sigma1 :: "u32 \<Rightarrow> u32" where
  "Sigma1 x = word_rotr 6 x XOR word_rotr 11 x XOR word_rotr 25 x"

definition sigma0 :: "u32 \<Rightarrow> u32" where
  "sigma0 x = word_rotr 7 x XOR word_rotr 18 x XOR drop_bit 3 x"

definition sigma1 :: "u32 \<Rightarrow> u32" where
  "sigma1 x = word_rotr 17 x XOR word_rotr 19 x XOR drop_bit 10 x"

text \<open>The message schedule, by the standard's recurrence over big-endian words.\<close>

fun fips_W :: "u32 list \<Rightarrow> nat \<Rightarrow> u32" where
  "fips_W M t =
    (if t < 16 then M ! t
     else sigma1 (fips_W M (t - 2)) + fips_W M (t - 7) + sigma0 (fips_W M (t - 15)) + fips_W M (t - 16))"

declare fips_W.simps [simp del]

fun fips_round :: "u32 list \<Rightarrow> nat \<Rightarrow> words8 \<Rightarrow> words8" where
  "fips_round M t (a, b, c, d, e, f, g, h) =
    (let T1 = h + Sigma1 e + ((e AND f) XOR (NOT e AND g)) + K ! t + fips_W M t;
         T2 = Sigma0 a + ((a AND b) XOR (a AND c) XOR (b AND c))
     in (T1 + T2, a, b, c, d + T1, e, f, g))"

definition fips_compress :: "byte list \<Rightarrow> words8 \<Rightarrow> words8" where
  "fips_compress block hv =
    (let M = map (\<lambda>w. word_of_nat (be_val w)) (chunks 4 block);
         (a, b, c, d, e, f, g, h) = fold (fips_round M) [0..<64] hv;
         (a0, b0, c0, d0, e0, f0, g0, h0) = hv
     in (a + a0, b + b0, c + c0, d + d0, e + e0, f + f0, g + g0, h + h0))"

definition fips_iv :: words8 where
  "fips_iv =
    (0x6a09e667, 0xbb67ae85, 0x3c6ef372, 0xa54ff53a,
     0x510e527f, 0x9b05688c, 0x1f83d9ab, 0x5be0cd19)"

definition sha256_pad :: "byte list \<Rightarrow> byte list" where
  "sha256_pad m = m @ [0x80] @ replicate ((119 - length m mod 64) mod 64) 0
     @ be_bytes 8 (8 * length m mod 2 ^ 64)"

fun words8_list :: "words8 \<Rightarrow> u32 list" where
  "words8_list (a, b, c, d, e, f, g, h) = [a, b, c, d, e, f, g, h]"

definition sha256_ref :: "byte list \<Rightarrow> byte list" where
  "sha256_ref m = concat (map (\<lambda>w. be_bytes 4 (unat w))
     (words8_list (fold fips_compress (chunks 64 (sha256_pad m)) fips_iv)))"

section \<open>The block function is the standard's\<close>

lemma sha256_CYCLIC_rotr: "0 < s \<Longrightarrow> s < 32 \<Longrightarrow> CYCLIC w s = word_rotr s w"
  using rotate_right_bits [of s w] by (simp add: CYCLIC_def)

lemma sha256_sigma_functions:
  "S0 = Sigma0" "S1 = Sigma1" "R0 = sigma0" "R1 = sigma1"
  by (intro ext; simp add: S0_def S1_def R0_def R1_def Sigma0_def Sigma1_def sigma0_def sigma1_def
        sha256_CYCLIC_rotr)+

lemma sha256_schedule_start_nth:
  assumes "length block = 64"
  shows "schedule_start block = map (\<lambda>w. word_of_nat (be_val w)) (chunks 4 block)"
  using assms by (simp add: schedule_start_def chunks_eq_map bswap_32_load32)

lemma sha256_schedule_prefix:
  assumes "16 \<le> n" and "length M = 16"
  shows "fold schedule_word [16..<n] M = map (fips_W M) [0..<n]"
  using assms(1)
proof (induction n rule: dec_induct)
  case base
  show ?case
    using assms(2) by (intro nth_equalityI) (auto simp: fips_W.simps)
next
  case (step n)
  then have "fold schedule_word [16..<Suc n] M = schedule_word n (map (fips_W M) [0..<n])"
    by simp
  also have "\<dots> = map (fips_W M) [0..<Suc n]"
    using step.hyps by (simp add: schedule_word_def sha256_sigma_functions fips_W.simps [of M n])
  finally show ?case .
qed

lemma sha256_schedule_fips:
  assumes "length block = 64" and "t < 64"
  shows "schedule block ! t = fips_W (map (\<lambda>w. word_of_nat (be_val w)) (chunks 4 block)) t"
  using assms sha256_schedule_prefix [of 64 "schedule_start block"]
  by (simp add: schedule_def sha256_schedule_start_nth chunks_eq_map)

lemma sha256_words8_exhaust: "\<exists>a b c d e f g h. (st :: words8) = (a, b, c, d, e, f, g, h)"
  by (metis surj_pair)

lemma sha256_one_block_fips:
  assumes "length block = 64"
  shows "sha256_one_block block = fips_compress block"
proof
  fix hv :: words8
  let ?M = "map (\<lambda>w. word_of_nat (be_val w)) (chunks 4 block)"
  have "sha256_round (schedule block) t st = fips_round ?M t st" if "t < 64" for t st
    using that sha256_words8_exhaust [of st]
    by (auto simp: sha256_schedule_fips [OF assms] sha256_sigma_functions Ch_def Maj_def)
  then have "fold (sha256_round (schedule block)) [0..<64] hv = fold (fips_round ?M) [0..<64] hv"
    by (intro fold_cong) (auto simp: fun_eq_iff)
  then show "sha256_one_block block hv = fips_compress block hv"
    by (simp only: sha256_one_block_def fips_compress_def Let_def)
qed

lemma sha256_blocks_fold:
  "64 dvd length data \<Longrightarrow> sha256_blocks data st = fold fips_compress (chunks 64 data) st"
proof (induction data st rule: sha256_blocks.induct)
  case (1 data st)
  show ?case
  proof (cases "data = []")
    case True
    then show ?thesis by (simp add: sha256_blocks.simps)
  next
    case False
    with 1 have "64 \<le> length data" by (auto simp: dvd_imp_le)
    then show ?thesis
      using 1 False
      by (simp add: sha256_blocks.simps [of data] chunks.simps [of 64 data] sha256_one_block_fips)
  qed
qed

section \<open>The streaming interface computes the standard's digest\<close>

definition sha256_chain :: "sha256_ctx \<Rightarrow> words8" where
  "sha256_chain ctx = (let H = sha256_H ctx in
     (H ! 0, H ! 1, H ! 2, H ! 3, H ! 4, H ! 5, H ! 6, H ! 7))"

definition sha256_total :: "sha256_ctx \<Rightarrow> nat" where
  "sha256_total ctx = unat (total64 ctx)"

abbreviation sha256_absorbed :: "byte list \<Rightarrow> sha256_ctx \<Rightarrow> bool" where
  "sha256_absorbed \<equiv> absorbed 64 (2 ^ 64) fips_compress fips_iv sha256_chain sha256_total"

lemma sha256_process_block_fields [simp]:
  "buflen (sha256_process_block data ctx) = buflen ctx"
  "buffer (sha256_process_block data ctx) = buffer ctx"
  by (simp_all add: sha256_process_block_def Let_def split: prod.split)

lemma sha256_process_block_chain:
  "sha256_chain (sha256_process_block data ctx) = sha256_blocks data (sha256_chain ctx)"
  by (simp add: sha256_process_block_def sha256_chain_def Let_def split: prod.split)

lemma sha256_process_block_H:
  "sha256_H (sha256_process_block data ctx) = words8_list (sha256_blocks data (sha256_chain ctx))"
  by (simp add: sha256_process_block_def sha256_chain_def Let_def split: prod.split)

lemma sha256_process_block_total:
  "sha256_total (sha256_process_block data ctx) = (sha256_total ctx + length data) mod 2 ^ 64"
  by (simp add: sha256_process_block_def sha256_total_def Let_def unat_add_mod unat_word_of_nat_mod
        mod_add_right_eq split: prod.split)

interpretation sha256: block_digest 64 "2 ^ 64" fips_compress fips_iv sha256_chain sha256_total
  sha256_process_block
  by unfold_locales
    (simp_all add: sha256_process_block_chain sha256_process_block_total sha256_blocks_fold,
     simp_all add: sha256_chain_def sha256_total_def)

lemma sha256_init_absorbed:
  "length (buffer ctx) = 128 \<Longrightarrow> sha256_absorbed [] (sha256_init_ctx ctx)"
  by (simp add: absorbed_def sha256_init_ctx_def sha256_chain_def sha256_total_def fips_iv_def)

lemma sha256_take_fillbuf: "0 < n \<Longrightarrow> n \<le> 64 \<Longrightarrow> take n fillbuf = 0x80 # replicate (n - 1) 0"
  by (cases n) (simp_all add: fillbuf_def min_def)

text \<open>Both ways of storing the length field write the same eight bytes.\<close>

lemma sha256_length_field:
  fixes T :: u64
  shows "store64 (bswap_64 (push_bit 3 T)) = be_bytes 8 (8 * unat T mod 2 ^ 64)"
    and "store32 (bswap_32 (push_bit 3 (ucast (drop_bit 32 T)) OR drop_bit 29 (ucast T)))
          @ store32 (bswap_32 (push_bit 3 (ucast T))) = be_bytes 8 (8 * unat T mod 2 ^ 64)"
proof -
  have "push_bit 3 T = word_of_nat (8 * unat T mod 2 ^ 64)"
    by (rule word_unat_eq_iff [THEN iffD2])
      (simp add: unat_word_of_nat_mod push_bit_eq_mult unat_word_ariths mult.commute)
  then show "store64 (bswap_64 (push_bit 3 T)) = be_bytes 8 (8 * unat T mod 2 ^ 64)"
    by (simp add: store64_bswap store64_word_of_nat be_bytes_def)
  have "unat (ucast (drop_bit 32 T) :: u32) * 2 ^ 32 + unat (ucast T :: u32) = unat T"
  proof -
    have "unat T < 2 ^ 32 * 2 ^ 32" using unsigned_less [of T] by simp
    then have "unat T div 2 ^ 32 < 2 ^ 32" by (simp add: div_less_iff_less_mult)
    then show ?thesis
      by (simp add: unsigned_ucast_eq take_bit_eq_mod drop_bit_eq_div unat_div_distrib)
  qed
  then show "store32 (bswap_32 (push_bit 3 (ucast (drop_bit 32 T)) OR drop_bit 29 (ucast T)))
      @ store32 (bswap_32 (push_bit 3 (ucast T))) = be_bytes 8 (8 * unat T mod 2 ^ 64)"
    using length_words32 [of "ucast T" "ucast (drop_bit 32 T)"]
    by (simp add: store32_bswap be_bytes_def flip: rev_append)
qed

lemma sha256_concat_words8:
  "concat (map (\<lambda>i. f (words8_list hv ! i)) [0..<8]) = concat (map f (words8_list hv))"
  using sha256_words8_exhaust [of hv] by (auto simp: upt_rec)

lemma sha256_finish_digest:
  assumes abs: "sha256_absorbed m ctx"
  shows "fst (sha256_finish_ctx sau ctx) = sha256_ref m"
proof -
  define bytes where "bytes = buflen ctx"
  define pad where "pad = finish_pad 64 8 bytes"
  define T where "T = total64 ctx + word_of_nat bytes"
  define t where "t = take pad fillbuf @ be_bytes 8 (8 * unat T mod 2 ^ 64)"
  define ctx1 where "ctx1 = ctx\<lparr>total64 := T, buffer := blit (buffer ctx) bytes t\<rparr>"
  have b: "bytes \<le> 64" "bytes \<le> length m" "length (buffer ctx) = 128" "64 dvd length m - bytes"
    and tot: "sha256_total ctx = (length m - bytes) mod 2 ^ 64"
    using abs by (simp_all add: absorbed_def Let_def bytes_def)
  have pad: "bytes + pad = 56 \<or> bytes + pad = 120" "pad \<le> 64" "0 < pad"
    using finish_pad_total [of 8 64 bytes] b by (auto simp: pad_def finish_pad_def)
  then have lent: "length t = pad + 8"
    by (simp add: t_def fillbuf_def)
  let ?b1 = "blit (buffer ctx) bytes (take pad fillbuf)"
  have blits: "blit ?b1 (8 * ((bytes + pad) div 8)) (store64 (bswap_64 (push_bit 3 T)))
      = blit (buffer ctx) bytes t"
    "blit (blit ?b1 (4 * ((bytes + pad + 4) div 4)) (store32 (bswap_32 (push_bit 3 (ucast T)))))
        (4 * ((bytes + pad) div 4))
        (store32 (bswap_32 (push_bit 3 (ucast (drop_bit 32 T)) OR drop_bit 29 (ucast T))))
      = blit (buffer ctx) bytes t"
    using pad b by (auto simp: t_def buf_simps fillbuf_def sha256_length_field)
  have fin: "fst (sha256_finish_ctx sau ctx) = concat (map (\<lambda>i. store32 (bswap_32
      (sha256_H (sha256_process_block (take (bytes + pad + 8) (buffer ctx1)) ctx1) ! i))) [0..<8])"
    using blits
    by (cases sau; cases "bytes \<ge> 56")
      (simp_all add: sha256_finish_ctx_def Let_def ctx1_def T_def pad_def finish_pad_def
         flip: bytes_def del: upt_rec_numeral)
  have "unat T = length m mod 2 ^ 64"
    using tot b by (simp add: T_def unat_add_mod unat_word_of_nat_mod sha256_total_def mod_add_left_eq)
  then have "t = 0x80 # replicate ((119 - length m mod 64) mod 64) 0
      @ be_bytes 8 (8 * length m mod 2 ^ 64)"
    using finish_pad_zeros [of 8 64 "length m - bytes" bytes] pad b
    by (simp add: t_def sha256_take_fillbuf pad_def pad_zeros_def mod_mult_right_eq)
  moreover have "sha256_chain (sha256_process_block (take (bytes + pad + 8) (buffer ctx1)) ctx1)
      = fold fips_compress (chunks 64 (m @ t)) fips_iv"
  proof (rule sha256.absorbed_finish [OF abs])
    show "take (bytes + pad + 8) (buffer ctx1) = take (buflen ctx) (buffer ctx) @ t"
      using b lent by (simp add: ctx1_def take_blit bytes_def)
    have "buflen ctx + length t = 64 \<or> buflen ctx + length t = 128"
      using pad(1) lent bytes_def by linarith
    then show "64 dvd buflen ctx + length t" by auto
  qed (simp add: ctx1_def sha256_chain_def)
  ultimately show ?thesis
    unfolding fin sha256_process_block_H sha256_process_block_chain [symmetric]
    by (simp add: sha256_ref_def sha256_pad_def store32_bswap be_bytes_def
          sha256_concat_words8 [of "\<lambda>w. rev (store32 w)"] flip: store32_word_of_nat)
qed

lemma sha256_stream_absorbed:
  "length (buffer ctx) = 128 \<Longrightarrow>
     sha256_absorbed (concat (map snd inputs))
       (fold (\<lambda>(addr, data). sha256_process_bytes sau addr data) inputs (sha256_init_ctx ctx))"
  using sha256.process_all_absorbed [OF sha256_init_absorbed, of ctx inputs 4 sau]
  by (simp add: sha256_process_bytes_def)

text \<open>
  C3. SHA-256 is computed correctly however the message arrives: any sequence of
  \<open>__sha256_process_bytes\<close> calls on an initialised context, then \<open>__sha256_finish_ctx\<close> with
  either way of storing the length field, returns the FIPS 180-2 digest of the concatenation
  of the chunks.
\<close>

theorem sha256_digest_correct:
  assumes "length (buffer ctx) = 128"
  shows "fst (sha256_finish_ctx sau
           (fold (\<lambda>(addr, data). sha256_process_bytes sau addr data) inputs (sha256_init_ctx ctx)))
         = sha256_ref (concat (map snd inputs))"
  using sha256_finish_digest [OF sha256_stream_absorbed [OF assms]] .

definition fresh_sha256_ctx :: sha256_ctx where
  "fresh_sha256_ctx = \<lparr>buflen = 3, buffer = replicate 128 0x55, sha256_H = [1, 2, 3, 4, 5, 6, 7, 8],
     total64 = 9\<rparr>"

lemma sha256_digest_correct_witness:
  "length (buffer fresh_sha256_ctx) = 128 \<and>
   fst (sha256_finish_ctx False (fold (\<lambda>(addr, data). sha256_process_bytes False addr data)
      [(1, [97]), (6, [98, 99])] (sha256_init_ctx fresh_sha256_ctx))) = sha256_ref [97, 98, 99]"
  using sha256_digest_correct [of fresh_sha256_ctx False "[(1, [97]), (6, [98, 99])]"]
  by (simp add: fresh_sha256_ctx_def)

end
