(* ===== verification/Sha512.thy ===== *)
theory Sha512
  imports Digest
begin

text \<open>
  \<open>crypt/sha512.c\<close> and \<open>crypt/sha512-block.c\<close>: the SHA-512 block function, padding and
  streaming interface, refined to the standard's (FIPS 180-2) description. Both settings of
  \<open>_STRING_ARCH_unaligned\<close> and both ways of counting the bytes, with and without
  \<open>USE_TOTAL128\<close> (the parameter \<open>u128\<close>), are modelled.
\<close>

section \<open>The block function\<close>

record sha512_ctx = digest_ctx +
  sha512_H :: "u64 list"
  total_lo :: u64
  total_hi :: u64

type_synonym words8 = "u64 \<times> u64 \<times> u64 \<times> u64 \<times> u64 \<times> u64 \<times> u64 \<times> u64"

definition K :: "u64 list" where
  "K = concat
    [[0x428a2f98d728ae22, 0x7137449123ef65cd], [0xb5c0fbcfec4d3b2f, 0xe9b5dba58189dbbc],
     [0x3956c25bf348b538, 0x59f111f1b605d019], [0x923f82a4af194f9b, 0xab1c5ed5da6d8118],
     [0xd807aa98a3030242, 0x12835b0145706fbe], [0x243185be4ee4b28c, 0x550c7dc3d5ffb4e2],
     [0x72be5d74f27b896f, 0x80deb1fe3b1696b1], [0x9bdc06a725c71235, 0xc19bf174cf692694],
     [0xe49b69c19ef14ad2, 0xefbe4786384f25e3], [0x0fc19dc68b8cd5b5, 0x240ca1cc77ac9c65],
     [0x2de92c6f592b0275, 0x4a7484aa6ea6e483], [0x5cb0a9dcbd41fbd4, 0x76f988da831153b5],
     [0x983e5152ee66dfab, 0xa831c66d2db43210], [0xb00327c898fb213f, 0xbf597fc7beef0ee4],
     [0xc6e00bf33da88fc2, 0xd5a79147930aa725], [0x06ca6351e003826f, 0x142929670a0e6e70],
     [0x27b70a8546d22ffc, 0x2e1b21385c26c926], [0x4d2c6dfc5ac42aed, 0x53380d139d95b3df],
     [0x650a73548baf63de, 0x766a0abb3c77b2a8], [0x81c2c92e47edaee6, 0x92722c851482353b],
     [0xa2bfe8a14cf10364, 0xa81a664bbc423001], [0xc24b8b70d0f89791, 0xc76c51a30654be30],
     [0xd192e819d6ef5218, 0xd69906245565a910], [0xf40e35855771202a, 0x106aa07032bbd1b8],
     [0x19a4c116b8d2d0c8, 0x1e376c085141ab53], [0x2748774cdf8eeb99, 0x34b0bcb5e19b48a8],
     [0x391c0cb3c5c95a63, 0x4ed8aa4ae3418acb], [0x5b9cca4f7763e373, 0x682e6ff3d6b2b8a3],
     [0x748f82ee5defb2fc, 0x78a5636f43172f60], [0x84c87814a1f0ab72, 0x8cc702081a6439ec],
     [0x90befffa23631e28, 0xa4506cebde82bde9], [0xbef9a3f7b2c67915, 0xc67178f2e372532b],
     [0xca273eceea26619c, 0xd186b8c721c0c207], [0xeada7dd6cde0eb1e, 0xf57d4f7fee6ed178],
     [0x06f067aa72176fba, 0x0a637dc5a2c898a6], [0x113f9804bef90dae, 0x1b710b35131c471b],
     [0x28db77f523047d84, 0x32caab7b40c72493], [0x3c9ebe0a15c9bebc, 0x431d67c49c100d4c],
     [0x4cc5d4becb3e42b6, 0x597f299cfc657e2a], [0x5fcb6fab3ad6faec, 0x6c44198c4a475817]]"

definition CYCLIC :: "u64 \<Rightarrow> nat \<Rightarrow> u64" where
  "CYCLIC w s = drop_bit s w OR push_bit (64 - s) w"

definition Ch :: "u64 \<Rightarrow> u64 \<Rightarrow> u64 \<Rightarrow> u64" where
  "Ch x y z = (x AND y) XOR (NOT x AND z)"

definition Maj :: "u64 \<Rightarrow> u64 \<Rightarrow> u64 \<Rightarrow> u64" where
  "Maj x y z = (x AND y) XOR (x AND z) XOR (y AND z)"

definition S0 :: "u64 \<Rightarrow> u64" where "S0 x = CYCLIC x 28 XOR CYCLIC x 34 XOR CYCLIC x 39"
definition S1 :: "u64 \<Rightarrow> u64" where "S1 x = CYCLIC x 14 XOR CYCLIC x 18 XOR CYCLIC x 41"
definition R0 :: "u64 \<Rightarrow> u64" where "R0 x = CYCLIC x 1 XOR CYCLIC x 8 XOR drop_bit 7 x"
definition R1 :: "u64 \<Rightarrow> u64" where "R1 x = CYCLIC x 19 XOR CYCLIC x 61 XOR drop_bit 6 x"

text \<open>The array \<open>W\<close>: sixteen byte-swapped words of the block, then the two loops fill it in
  index order.\<close>

definition schedule_start :: "byte list \<Rightarrow> u64 list" where
  "schedule_start words = map (\<lambda>t. bswap_64 (load64 (take 8 (drop (8 * t) words)))) [0..<16]"

definition schedule_word :: "nat \<Rightarrow> u64 list \<Rightarrow> u64 list" where
  "schedule_word t W = W @ [R1 (W ! (t - 2)) + W ! (t - 7) + R0 (W ! (t - 15)) + W ! (t - 16)]"

definition schedule :: "byte list \<Rightarrow> u64 list" where
  "schedule words = fold schedule_word [16..<80] (schedule_start words)"

fun sha512_round :: "u64 list \<Rightarrow> nat \<Rightarrow> words8 \<Rightarrow> words8" where
  "sha512_round W t (a, b, c, d, e, f, g, h) =
    (let T1 = h + S1 e + Ch e f g + K ! t + W ! t;
         T2 = S0 a + Maj a b c
     in (T1 + T2, a, b, c, d + T1, e, f, g))"

definition sha512_one_block :: "byte list \<Rightarrow> words8 \<Rightarrow> words8" where
  "sha512_one_block words saved =
    (let W = schedule words;
         (a, b, c, d, e, f, g, h) = fold (sha512_round W) [0..<80] saved;
         (a_save, b_save, c_save, d_save, e_save, f_save, g_save, h_save) = saved
     in (a + a_save, b + b_save, c + c_save, d + d_save,
         e + e_save, f + f_save, g + g_save, h + h_save))"

function sha512_blocks :: "byte list \<Rightarrow> words8 \<Rightarrow> words8" where
  "sha512_blocks words st =
    (if words = [] then st
     else sha512_blocks (drop 128 words) (sha512_one_block (take 128 words) st))"
  by pat_completeness auto
termination
  by (relation "measure (\<lambda>(words, st). length words)") auto

declare sha512_blocks.simps [simp del]

text \<open>\<open>ctx->total128 += n\<close>: the union of \<open>total128\<close> and \<open>total[2]\<close>, low word first on this
  host.\<close>

definition add_total128 :: "nat \<Rightarrow> sha512_ctx \<Rightarrow> sha512_ctx" where
  "add_total128 n ctx =
    (let t = (word_of_nat (unat (total_hi ctx) * 2 ^ 64 + unat (total_lo ctx)) :: 128 word)
               + word_of_nat n
     in ctx\<lparr>total_lo := ucast t, total_hi := ucast (drop_bit 64 t)\<rparr>)"

definition sha512_process_block :: "bool \<Rightarrow> byte list \<Rightarrow> sha512_ctx \<Rightarrow> sha512_ctx" where
  "sha512_process_block u128 data ctx =
    (let H = sha512_H ctx;
         len = length data;
         ctx = (if u128 then add_total128 len ctx
                else let lolen = word_of_nat len;
                         ctx = ctx\<lparr>total_lo := total_lo ctx + lolen\<rparr>
                     in ctx\<lparr>total_hi := total_hi ctx
                          + (word_of_nat (len div 2 ^ 31 div 2 ^ 31 div 2 ^ 2)
                             + (if total_lo ctx < lolen then 1 else 0))\<rparr>);
         (a, b, c, d, e, f, g, h) =
           sha512_blocks data (H ! 0, H ! 1, H ! 2, H ! 3, H ! 4, H ! 5, H ! 6, H ! 7)
     in ctx\<lparr>sha512_H := [a, b, c, d, e, f, g, h]\<rparr>)"

section \<open>The streaming interface\<close>

definition fillbuf :: "byte list" where
  "fillbuf = 0x80 # replicate 127 0"

definition sha512_init_ctx :: "sha512_ctx \<Rightarrow> sha512_ctx" where
  "sha512_init_ctx ctx = ctx\<lparr>sha512_H :=
      [0x6a09e667f3bcc908, 0xbb67ae8584caa73b, 0x3c6ef372fe94f82b,
       0xa54ff53a5f1d36f1, 0x510e527fade682d1, 0x9b05688c2b3e6c1f,
       0x1f83d9abfb41bd6b, 0x5be0cd19137e2179],
     total_lo := 0, total_hi := 0, buflen := 0\<rparr>"

text \<open>Counting the pending bytes in \<open>__sha512_finish_ctx\<close>.\<close>

definition count_pending :: "bool \<Rightarrow> nat \<Rightarrow> sha512_ctx \<Rightarrow> sha512_ctx" where
  "count_pending u128 bytes ctx =
    (if u128 then add_total128 bytes ctx
     else let ctx = ctx\<lparr>total_lo := total_lo ctx + word_of_nat bytes\<rparr>
          in if total_lo ctx < word_of_nat bytes
             then ctx\<lparr>total_hi := total_hi ctx + 1\<rparr> else ctx)"

definition sha512_finish_ctx :: "bool \<Rightarrow> sha512_ctx \<Rightarrow> byte list \<times> sha512_ctx" where
  "sha512_finish_ctx u128 ctx =
    (let bytes = buflen ctx;
         ctx = count_pending u128 bytes ctx;
         pad = (if bytes \<ge> 112 then 128 + 112 - bytes else 112 - bytes);
         ctx = ctx\<lparr>buffer := blit (buffer ctx) bytes (take pad fillbuf)\<rparr>;
         ctx = ctx\<lparr>buffer := blit (buffer ctx) (8 * ((bytes + pad + 8) div 8))
                 (store64 (bswap_64 (push_bit 3 (total_lo ctx))))\<rparr>;
         ctx = ctx\<lparr>buffer := blit (buffer ctx) (8 * ((bytes + pad) div 8))
                 (store64 (bswap_64 (push_bit 3 (total_hi ctx) OR drop_bit 61 (total_lo ctx))))\<rparr>;
         ctx = sha512_process_block u128 (take (bytes + pad + 16) (buffer ctx)) ctx
     in (concat (map (\<lambda>i. store64 (bswap_64 (sha512_H ctx ! i))) [0..<8]), ctx))"

definition sha512_process_bytes ::
  "bool \<Rightarrow> bool \<Rightarrow> nat \<Rightarrow> byte list \<Rightarrow> sha512_ctx \<Rightarrow> sha512_ctx" where
  "sha512_process_bytes u128 = process_bytes 128 8 (sha512_process_block u128)"

section \<open>Reference: FIPS 180-2\<close>

definition Sigma0 :: "u64 \<Rightarrow> u64" where
  "Sigma0 x = word_rotr 28 x XOR word_rotr 34 x XOR word_rotr 39 x"

definition Sigma1 :: "u64 \<Rightarrow> u64" where
  "Sigma1 x = word_rotr 14 x XOR word_rotr 18 x XOR word_rotr 41 x"

definition sigma0 :: "u64 \<Rightarrow> u64" where
  "sigma0 x = word_rotr 1 x XOR word_rotr 8 x XOR drop_bit 7 x"

definition sigma1 :: "u64 \<Rightarrow> u64" where
  "sigma1 x = word_rotr 19 x XOR word_rotr 61 x XOR drop_bit 6 x"

text \<open>The message schedule, by the standard's recurrence over big-endian words.\<close>

fun fips_W :: "u64 list \<Rightarrow> nat \<Rightarrow> u64" where
  "fips_W M t =
    (if t < 16 then M ! t
     else sigma1 (fips_W M (t - 2)) + fips_W M (t - 7) + sigma0 (fips_W M (t - 15)) + fips_W M (t - 16))"

declare fips_W.simps [simp del]

fun fips_round :: "u64 list \<Rightarrow> nat \<Rightarrow> words8 \<Rightarrow> words8" where
  "fips_round M t (a, b, c, d, e, f, g, h) =
    (let T1 = h + Sigma1 e + ((e AND f) XOR (NOT e AND g)) + K ! t + fips_W M t;
         T2 = Sigma0 a + ((a AND b) XOR (a AND c) XOR (b AND c))
     in (T1 + T2, a, b, c, d + T1, e, f, g))"

definition fips_compress :: "byte list \<Rightarrow> words8 \<Rightarrow> words8" where
  "fips_compress block hv =
    (let M = map (\<lambda>w. word_of_nat (be_val w)) (chunks 8 block);
         (a, b, c, d, e, f, g, h) = fold (fips_round M) [0..<80] hv;
         (a0, b0, c0, d0, e0, f0, g0, h0) = hv
     in (a + a0, b + b0, c + c0, d + d0, e + e0, f + f0, g + g0, h + h0))"

definition fips_iv :: words8 where
  "fips_iv =
    (0x6a09e667f3bcc908, 0xbb67ae8584caa73b, 0x3c6ef372fe94f82b,
     0xa54ff53a5f1d36f1, 0x510e527fade682d1, 0x9b05688c2b3e6c1f,
     0x1f83d9abfb41bd6b, 0x5be0cd19137e2179)"

definition sha512_pad :: "byte list \<Rightarrow> byte list" where
  "sha512_pad m = m @ [0x80] @ replicate ((239 - length m mod 128) mod 128) 0
     @ be_bytes 16 (8 * length m mod 2 ^ 128)"

fun words8_list :: "words8 \<Rightarrow> u64 list" where
  "words8_list (a, b, c, d, e, f, g, h) = [a, b, c, d, e, f, g, h]"

definition sha512_ref :: "byte list \<Rightarrow> byte list" where
  "sha512_ref m = concat (map (\<lambda>w. be_bytes 8 (unat w))
     (words8_list (fold fips_compress (chunks 128 (sha512_pad m)) fips_iv)))"

section \<open>The block function is the standard's\<close>

lemma sha512_CYCLIC_rotr: "0 < s \<Longrightarrow> s < 64 \<Longrightarrow> CYCLIC w s = word_rotr s w"
  using rotate_right_bits [of s w] by (simp add: CYCLIC_def)

lemma sha512_sigma_functions:
  "S0 = Sigma0" "S1 = Sigma1" "R0 = sigma0" "R1 = sigma1"
  by (intro ext; simp add: S0_def S1_def R0_def R1_def Sigma0_def Sigma1_def sigma0_def sigma1_def
        sha512_CYCLIC_rotr)+

lemma sha512_schedule_start_nth:
  assumes "length block = 128"
  shows "schedule_start block = map (\<lambda>w. word_of_nat (be_val w)) (chunks 8 block)"
  using assms by (simp add: schedule_start_def chunks_eq_map bswap_64_load64)

lemma sha512_schedule_prefix:
  assumes "16 \<le> n" and "length M = 16"
  shows "fold schedule_word [16..<n] M = map (fips_W M) [0..<n]"
  using assms(1)
proof (induction n rule: dec_induct)
  case base
  show ?case
    using assms(2) by (intro nth_equalityI) (auto simp: fips_W.simps)
next
  case (step n)
  then have "fold schedule_word [16..<Suc n] M = schedule_word n (map (fips_W M) [0..<n])"
    by simp
  also have "\<dots> = map (fips_W M) [0..<Suc n]"
    using step.hyps by (simp add: schedule_word_def sha512_sigma_functions fips_W.simps [of M n])
  finally show ?case .
qed

lemma sha512_schedule_fips:
  assumes "length block = 128" and "t < 80"
  shows "schedule block ! t = fips_W (map (\<lambda>w. word_of_nat (be_val w)) (chunks 8 block)) t"
  using assms sha512_schedule_prefix [of 80 "schedule_start block"]
  by (simp add: schedule_def sha512_schedule_start_nth chunks_eq_map)

lemma sha512_words8_exhaust: "\<exists>a b c d e f g h. (st :: words8) = (a, b, c, d, e, f, g, h)"
  by (metis surj_pair)

lemma sha512_one_block_fips:
  assumes "length block = 128"
  shows "sha512_one_block block = fips_compress block"
proof
  fix hv :: words8
  let ?M = "map (\<lambda>w. word_of_nat (be_val w)) (chunks 8 block)"
  have "sha512_round (schedule block) t st = fips_round ?M t st" if "t < 80" for t st
    using that sha512_words8_exhaust [of st]
    by (auto simp: sha512_schedule_fips [OF assms] sha512_sigma_functions Ch_def Maj_def)
  then have "fold (sha512_round (schedule block)) [0..<80] hv = fold (fips_round ?M) [0..<80] hv"
    by (intro fold_cong) (auto simp: fun_eq_iff)
  then show "sha512_one_block block hv = fips_compress block hv"
    by (simp only: sha512_one_block_def fips_compress_def Let_def)
qed

lemma sha512_blocks_fold:
  "128 dvd length data \<Longrightarrow> sha512_blocks data st = fold fips_compress (chunks 128 data) st"
proof (induction data st rule: sha512_blocks.induct)
  case (1 data st)
  show ?case
  proof (cases "data = []")
    case True
    then show ?thesis by (simp add: sha512_blocks.simps)
  next
    case False
    with 1 have "128 \<le> length data" by (auto simp: dvd_imp_le)
    then show ?thesis
      using 1 False
      by (simp add: sha512_blocks.simps [of data] chunks.simps [of 128 data] sha512_one_block_fips)
  qed
qed

section \<open>The streaming interface computes the standard's digest\<close>

definition sha512_chain :: "sha512_ctx \<Rightarrow> words8" where
  "sha512_chain ctx = (let H = sha512_H ctx in
     (H ! 0, H ! 1, H ! 2, H ! 3, H ! 4, H ! 5, H ! 6, H ! 7))"

definition sha512_total :: "sha512_ctx \<Rightarrow> nat" where
  "sha512_total ctx = unat (total_hi ctx) * 2 ^ 64 + unat (total_lo ctx)"

abbreviation sha512_absorbed :: "byte list \<Rightarrow> sha512_ctx \<Rightarrow> bool" where
  "sha512_absorbed \<equiv> absorbed 128 (2 ^ 128) fips_compress fips_iv sha512_chain sha512_total"

lemma add_total128_fields [simp]:
  "buflen (add_total128 n ctx) = buflen ctx" "buffer (add_total128 n ctx) = buffer ctx"
  "sha512_H (add_total128 n ctx) = sha512_H ctx"
  by (simp_all add: add_total128_def Let_def)

lemma split_128:
  fixes t :: "128 word"
  shows "unat (ucast (drop_bit 64 t) :: u64) * 2 ^ 64 + unat (ucast t :: u64) = unat t"
proof -
  have "unat t < 2 ^ 64 * 2 ^ 64" using unsigned_less [of t] by simp
  then have "unat t div 2 ^ 64 < 2 ^ 64" by (simp add: div_less_iff_less_mult)
  then show ?thesis
    by (simp add: unsigned_ucast_eq take_bit_eq_mod drop_bit_eq_div unat_div_distrib)
qed

lemma add_total128_total:
  "sha512_total (add_total128 n ctx) = (sha512_total ctx + n) mod 2 ^ 128"
proof -
  define t where "t = (word_of_nat (sha512_total ctx) :: 128 word) + word_of_nat n"
  have "sha512_total (add_total128 n ctx) = unat t"
    using split_128 [of t] by (simp add: add_total128_def sha512_total_def t_def Let_def)
  then show ?thesis
    by (simp add: t_def unat_add_mod unat_word_of_nat_mod mod_add_eq)
qed

lemma two_word_total:
  fixes ctx :: sha512_ctx and n :: nat
  defines "lo \<equiv> total_lo ctx + word_of_nat n"
  shows "unat (total_hi ctx + (word_of_nat (n div 2 ^ 64) + (if lo < word_of_nat n then 1 else 0)))
      * 2 ^ 64 + unat lo = (sha512_total ctx + n) mod 2 ^ 128"
  using double_word_add [of "total_hi ctx" n "total_lo ctx"]
  by (simp add: lo_def sha512_total_def)

lemma sha512_process_block_fields [simp]:
  "buflen (sha512_process_block u128 data ctx) = buflen ctx"
  "buffer (sha512_process_block u128 data ctx) = buffer ctx"
  by (simp_all add: sha512_process_block_def Let_def split: prod.split)

lemma sha512_process_block_H:
  "sha512_H (sha512_process_block u128 data ctx) = words8_list (sha512_blocks data (sha512_chain ctx))"
  by (simp add: sha512_process_block_def sha512_chain_def Let_def split: prod.split)

lemma sha512_process_block_chain:
  "sha512_chain (sha512_process_block u128 data ctx) = sha512_blocks data (sha512_chain ctx)"
  using sha512_words8_exhaust [of "sha512_blocks data (sha512_chain ctx)"]
  by (auto simp: sha512_chain_def [of "sha512_process_block u128 data ctx"] sha512_process_block_H)

lemma sha512_process_block_total:
  "sha512_total (sha512_process_block u128 data ctx) = (sha512_total ctx + length data) mod 2 ^ 128"
proof -
  have "sha512_total (c\<lparr>sha512_H := H\<rparr>) = sha512_total c" for c H
    by (simp add: sha512_total_def)
  then show ?thesis
    using add_total128_total [of "length data" ctx] two_word_total [of ctx "length data"]
    by (cases u128; cases "total_lo ctx + word_of_nat (length data) < word_of_nat (length data)")
      (simp_all add: sha512_process_block_def Let_def div_mult2_eq [symmetric] sha512_total_def
        split: prod.split)
qed

interpretation sha512: block_digest 128 "2 ^ 128" fips_compress fips_iv sha512_chain sha512_total
  "sha512_process_block u128" for u128
  by unfold_locales
    (simp_all add: sha512_process_block_chain sha512_process_block_total sha512_blocks_fold,
     simp_all add: sha512_chain_def sha512_total_def)

lemma sha512_init_absorbed:
  "length (buffer ctx) = 256 \<Longrightarrow> sha512_absorbed [] (sha512_init_ctx ctx)"
  by (simp add: absorbed_def sha512_init_ctx_def sha512_chain_def sha512_total_def fips_iv_def)

lemma sha512_take_fillbuf: "0 < n \<Longrightarrow> n \<le> 128 \<Longrightarrow> take n fillbuf = 0x80 # replicate (n - 1) 0"
  by (cases n) (simp_all add: fillbuf_def min_def)

lemma sha512_length_field:
  "store64 (bswap_64 (push_bit 3 hi OR drop_bit 61 lo)) @ store64 (bswap_64 (push_bit 3 lo))
     = be_bytes 16 (8 * (unat hi * 2 ^ 64 + unat lo) mod 2 ^ 128)"
  using length_words64 [of lo hi] by (simp add: store64_bswap be_bytes_def flip: rev_append)

lemma sha512_concat_words8:
  "concat (map (\<lambda>i. f (words8_list hv ! i)) [0..<8]) = concat (map f (words8_list hv))"
  using sha512_words8_exhaust [of hv] by (auto simp: upt_rec)

lemma count_pending_fields [simp]:
  "buflen (count_pending u128 n ctx) = buflen ctx" "buffer (count_pending u128 n ctx) = buffer ctx"
  "sha512_H (count_pending u128 n ctx) = sha512_H ctx"
  by (simp_all add: count_pending_def Let_def)

lemma count_pending_total:
  "n < 2 ^ 64 \<Longrightarrow> sha512_total (count_pending u128 n ctx) = (sha512_total ctx + n) mod 2 ^ 128"
  using add_total128_total [of n ctx] two_word_total [of ctx n]
  by (cases u128; cases "total_lo ctx + word_of_nat n < word_of_nat n")
    (simp_all add: count_pending_def Let_def sha512_total_def)

lemma sha512_finish_digest:
  assumes abs: "sha512_absorbed m ctx"
  shows "fst (sha512_finish_ctx u128 ctx) = sha512_ref m"
proof -
  define bytes where "bytes = buflen ctx"
  define pad where "pad = finish_pad 128 16 bytes"
  define ctx0 where "ctx0 = count_pending u128 bytes ctx"
  define t where "t = take pad fillbuf @ be_bytes 16 (8 * sha512_total ctx0 mod 2 ^ 128)"
  define ctx1 where "ctx1 = ctx0\<lparr>buffer := blit (buffer ctx) bytes t\<rparr>"
  have b: "bytes \<le> 128" "bytes \<le> length m" "length (buffer ctx) = 256" "128 dvd length m - bytes"
    and tot: "sha512_total ctx = (length m - bytes) mod 2 ^ 128"
    using abs by (simp_all add: absorbed_def Let_def bytes_def)
  have pad: "bytes + pad = 112 \<or> bytes + pad = 240" "pad \<le> 128" "0 < pad"
    using finish_pad_total [of 16 128 bytes] b by (auto simp: pad_def finish_pad_def)
  then have lent: "length t = pad + 16"
    by (simp add: t_def fillbuf_def)
  let ?b1 = "blit (buffer ctx) bytes (take pad fillbuf)"
  have blits:
    "blit (blit ?b1 (8 * ((bytes + pad + 8) div 8)) (store64 (bswap_64 (push_bit 3 (total_lo ctx0)))))
        (8 * ((bytes + pad) div 8))
        (store64 (bswap_64 (push_bit 3 (total_hi ctx0) OR drop_bit 61 (total_lo ctx0))))
      = blit (buffer ctx) bytes t"
    using pad b by (auto simp: t_def buf_simps fillbuf_def sha512_length_field sha512_total_def)
  have fin: "fst (sha512_finish_ctx u128 ctx) = concat (map (\<lambda>i. store64 (bswap_64
      (sha512_H (sha512_process_block u128 (take (bytes + pad + 16) (buffer ctx1)) ctx1) ! i))) [0..<8])"
    using blits unfolding sha512_finish_ctx_def bytes_def [symmetric]
    by (cases "bytes \<ge> 112")
      (simp_all add: Let_def ctx1_def pad_def finish_pad_def ctx0_def del: upt_rec_numeral)
  have "sha512_total ctx0 = length m mod 2 ^ 128"
    using tot b by (simp add: ctx0_def count_pending_total mod_add_left_eq)
  then have "t = 0x80 # replicate ((239 - length m mod 128) mod 128) 0
      @ be_bytes 16 (8 * length m mod 2 ^ 128)"
    using finish_pad_zeros [of 16 128 "length m - bytes" bytes] pad b
    by (simp add: t_def sha512_take_fillbuf pad_def pad_zeros_def mod_mult_right_eq)
  moreover have "sha512_chain (sha512_process_block u128 (take (bytes + pad + 16) (buffer ctx1)) ctx1)
      = fold fips_compress (chunks 128 (m @ t)) fips_iv"
  proof (rule sha512.absorbed_finish [OF abs])
    show "take (bytes + pad + 16) (buffer ctx1) = take (buflen ctx) (buffer ctx) @ t"
      using b lent by (simp add: ctx1_def take_blit bytes_def)
    have "buflen ctx + length t = 128 \<or> buflen ctx + length t = 256"
      using pad(1) lent bytes_def by linarith
    then show "128 dvd buflen ctx + length t" by auto
  qed (simp add: ctx1_def ctx0_def sha512_chain_def)
  ultimately show ?thesis
    unfolding fin sha512_process_block_H sha512_process_block_chain [of u128, symmetric]
    by (simp add: sha512_ref_def sha512_pad_def store64_bswap be_bytes_def
          sha512_concat_words8 [of "\<lambda>w. rev (store64 w)"] flip: store64_word_of_nat)
qed

lemma sha512_stream_absorbed:
  "length (buffer ctx) = 256 \<Longrightarrow>
     sha512_absorbed (concat (map snd inputs))
       (fold (\<lambda>(addr, data). sha512_process_bytes u128 sau addr data) inputs (sha512_init_ctx ctx))"
  using sha512.process_all_absorbed [OF sha512_init_absorbed, of ctx inputs 8 u128 sau]
  by (simp add: sha512_process_bytes_def)

text \<open>
  C4. SHA-512 is computed correctly however the message arrives and however the bytes are
  counted: any sequence of \<open>__sha512_process_bytes\<close> calls on an initialised context, then
  \<open>__sha512_finish_ctx\<close>, with a 128-bit counter or with two 64-bit words and a carry, returns
  the FIPS 180-2 digest of the concatenation of the chunks.
\<close>

theorem sha512_digest_correct:
  assumes "length (buffer ctx) = 256"
  shows "fst (sha512_finish_ctx u128 (fold (\<lambda>(addr, data). sha512_process_bytes u128 sau addr data)
           inputs (sha512_init_ctx ctx)))
         = sha512_ref (concat (map snd inputs))"
  using sha512_finish_digest [OF sha512_stream_absorbed [OF assms]] .

definition fresh_sha512_ctx :: sha512_ctx where
  "fresh_sha512_ctx = \<lparr>buflen = 3, buffer = replicate 256 0x55, sha512_H = [1, 2, 3, 4, 5, 6, 7, 8],
     total_lo = 9, total_hi = 10\<rparr>"

lemma sha512_digest_correct_witness:
  "length (buffer fresh_sha512_ctx) = 256 \<and>
   fst (sha512_finish_ctx True (fold (\<lambda>(addr, data). sha512_process_bytes True False addr data)
      [(1, [97]), (6, [98, 99])] (sha512_init_ctx fresh_sha512_ctx))) = sha512_ref [97, 98, 99]"
  using sha512_digest_correct [of fresh_sha512_ctx True False "[(1, [97]), (6, [98, 99])]"]
  by (simp add: fresh_sha512_ctx_def)

end
