(* ===== verification/Xdr.thy ===== *)
theory Xdr
  imports Prelude
begin

text \<open>
  The generic XDR filters of sunrpc/xdr.c, sunrpc/xdr_array.c, sunrpc/xdr_ref.c and
  sunrpc/xdr_intXX_t.c, over an arbitrary stream.

  A stream is a vector of operations \<open>xdr_ops\<close> over a private state \<open>'s\<close>, which stands for
  the fields x_private, x_base and x_handy of struct XDR and for all memory reached through
  them. A filter takes the handle and the object its pointer argument designates, and returns
  the truth value, the handle and the object as it leaves them. A \<open>char **\<close> argument is an
  optional buffer, \<open>None\<close> being the null pointer. Integers have the widths of an LP64 host
  (int 32, long 64) and two's complement contents.

  Allocation (\<open>mem_alloc\<close>, \<open>calloc\<close>) is a parameter: the fresh buffer, or \<open>None\<close> when memory
  is exhausted. An automatic variable whose address is handed to a stream before it has been
  set is passed as 0; no filter reads it back after a failed call.
\<close>

section \<open>The XDR handle\<close>

datatype xdr_op = XDR_ENCODE | XDR_DECODE | XDR_FREE

record 's xdr_ops =
  x_getlong :: "'s \<Rightarrow> u64 \<Rightarrow> bool \<times> 's \<times> u64"
  x_putlong :: "'s \<Rightarrow> u64 \<Rightarrow> bool \<times> 's"
  x_getbytes :: "'s \<Rightarrow> byte list \<Rightarrow> u32 \<Rightarrow> bool \<times> 's \<times> byte list"
  x_putbytes :: "'s \<Rightarrow> byte list \<Rightarrow> u32 \<Rightarrow> bool \<times> 's"
  x_getpostn :: "xdr_op \<Rightarrow> 's \<Rightarrow> u32"
  x_setpostn :: "xdr_op \<Rightarrow> 's \<Rightarrow> u32 \<Rightarrow> bool \<times> 's"
  x_inline :: "xdr_op \<Rightarrow> 's \<Rightarrow> u32 \<Rightarrow> u64 option \<times> 's"
  x_destroy :: "'s \<Rightarrow> 's"
  x_getint32 :: "'s \<Rightarrow> u32 \<Rightarrow> bool \<times> 's \<times> u32"
  x_putint32 :: "'s \<Rightarrow> u32 \<Rightarrow> bool \<times> 's"

record 's XDR =
  x_op :: xdr_op
  x_ops :: "'s xdr_ops"
  x_stream :: 's

type_synonym ('s, 'a) xdr_result = "bool \<times> 's XDR \<times> 'a"
type_synonym ('s, 'a) xdr_filter = "'s XDR \<Rightarrow> 'a \<Rightarrow> ('s, 'a) xdr_result"

text \<open>An xdrproc_t as the composite filters call it: with a trailing LASTUNSIGNED.\<close>

type_synonym ('s, 'a) xdrproc_t = "'s XDR \<Rightarrow> 'a \<Rightarrow> u32 \<Rightarrow> ('s, 'a) xdr_result"

definition XDR_GETLONG :: "'s XDR \<Rightarrow> u64 \<Rightarrow> ('s, u64) xdr_result" where
  "XDR_GETLONG xdrs longp = (case x_getlong (x_ops xdrs) (x_stream xdrs) longp of
     (ok, s, l) \<Rightarrow> (ok, xdrs\<lparr>x_stream := s\<rparr>, l))"

definition XDR_PUTLONG :: "'s XDR \<Rightarrow> u64 \<Rightarrow> bool \<times> 's XDR" where
  "XDR_PUTLONG xdrs longp = (case x_putlong (x_ops xdrs) (x_stream xdrs) longp of
     (ok, s) \<Rightarrow> (ok, xdrs\<lparr>x_stream := s\<rparr>))"

definition XDR_GETBYTES :: "'s XDR \<Rightarrow> byte list \<Rightarrow> u32 \<Rightarrow> ('s, byte list) xdr_result" where
  "XDR_GETBYTES xdrs addr len = (case x_getbytes (x_ops xdrs) (x_stream xdrs) addr len of
     (ok, s, bs) \<Rightarrow> (ok, xdrs\<lparr>x_stream := s\<rparr>, bs))"

definition XDR_PUTBYTES :: "'s XDR \<Rightarrow> byte list \<Rightarrow> u32 \<Rightarrow> bool \<times> 's XDR" where
  "XDR_PUTBYTES xdrs addr len = (case x_putbytes (x_ops xdrs) (x_stream xdrs) addr len of
     (ok, s) \<Rightarrow> (ok, xdrs\<lparr>x_stream := s\<rparr>))"

definition XDR_GETINT32 :: "'s XDR \<Rightarrow> u32 \<Rightarrow> ('s, u32) xdr_result" where
  "XDR_GETINT32 xdrs int32p = (case x_getint32 (x_ops xdrs) (x_stream xdrs) int32p of
     (ok, s, i) \<Rightarrow> (ok, xdrs\<lparr>x_stream := s\<rparr>, i))"

definition XDR_PUTINT32 :: "'s XDR \<Rightarrow> u32 \<Rightarrow> bool \<times> 's XDR" where
  "XDR_PUTINT32 xdrs int32p = (case x_putint32 (x_ops xdrs) (x_stream xdrs) int32p of
     (ok, s) \<Rightarrow> (ok, xdrs\<lparr>x_stream := s\<rparr>))"

definition XDR_GETPOS :: "'s XDR \<Rightarrow> u32" where
  "XDR_GETPOS xdrs = x_getpostn (x_ops xdrs) (x_op xdrs) (x_stream xdrs)"

definition XDR_SETPOS :: "'s XDR \<Rightarrow> u32 \<Rightarrow> bool \<times> 's XDR" where
  "XDR_SETPOS xdrs pos = (case x_setpostn (x_ops xdrs) (x_op xdrs) (x_stream xdrs) pos of
     (ok, s) \<Rightarrow> (ok, xdrs\<lparr>x_stream := s\<rparr>))"

definition XDR_INLINE :: "'s XDR \<Rightarrow> u32 \<Rightarrow> u64 option \<times> 's XDR" where
  "XDR_INLINE xdrs len = (case x_inline (x_ops xdrs) (x_op xdrs) (x_stream xdrs) len of
     (p, s) \<Rightarrow> (p, xdrs\<lparr>x_stream := s\<rparr>))"

abbreviation LASTUNSIGNED :: u32 where
  "LASTUNSIGNED \<equiv> 0 - 1"

definition BYTES_PER_XDR_UNIT :: u32 where
  "BYTES_PER_XDR_UNIT = 4"

definition xdr_zero :: "byte list" where
  "xdr_zero = [0, 0, 0, 0]"

section \<open>sunrpc/xdr.c: integers\<close>

text \<open>xdr_free builds a handle of which only x_op is set; its other two fields are
  whatever the stack held.\<close>

definition xdr_free :: "('s, 'a) xdr_filter \<Rightarrow> 's xdr_ops \<Rightarrow> 's \<Rightarrow> 'a \<Rightarrow> 'a" where
  "xdr_free proc garbage_ops garbage_stream objp =
     snd (snd (proc \<lparr>x_op = XDR_FREE, x_ops = garbage_ops, x_stream = garbage_stream\<rparr> objp))"

definition xdr_void :: bool where
  "xdr_void = True"

definition xdr_int :: "('s, u32) xdr_filter" where
  "xdr_int xdrs ip = (case x_op xdrs of
     XDR_ENCODE \<Rightarrow> let (ok, xdrs) = XDR_PUTLONG xdrs (scast ip) in (ok, xdrs, ip)
   | XDR_DECODE \<Rightarrow> let (ok, xdrs, l) = XDR_GETLONG xdrs 0 in
       if \<not> ok then (False, xdrs, ip) else (True, xdrs, ucast l)
   | XDR_FREE \<Rightarrow> (True, xdrs, ip))"

definition xdr_u_int :: "('s, u32) xdr_filter" where
  "xdr_u_int xdrs up = (case x_op xdrs of
     XDR_ENCODE \<Rightarrow> let (ok, xdrs) = XDR_PUTLONG xdrs (ucast up) in (ok, xdrs, up)
   | XDR_DECODE \<Rightarrow> let (ok, xdrs, l) = XDR_GETLONG xdrs 0 in
       if \<not> ok then (False, xdrs, up) else (True, xdrs, ucast l)
   | XDR_FREE \<Rightarrow> (True, xdrs, up))"

definition xdr_long :: "('s, u64) xdr_filter" where
  "xdr_long xdrs lp =
     (if x_op xdrs = XDR_ENCODE \<and> scast (ucast lp :: u32) = lp
      then let (ok, xdrs) = XDR_PUTLONG xdrs lp in (ok, xdrs, lp)
      else if x_op xdrs = XDR_DECODE then XDR_GETLONG xdrs lp
      else if x_op xdrs = XDR_FREE then (True, xdrs, lp)
      else (False, xdrs, lp))"

definition xdr_u_long :: "('s, u64) xdr_filter" where
  "xdr_u_long xdrs ulp = (case x_op xdrs of
     XDR_DECODE \<Rightarrow> let (ok, xdrs, tmp) = XDR_GETLONG xdrs 0 in
       if \<not> ok then (False, xdrs, ulp) else (True, xdrs, ucast (ucast tmp :: u32))
   | XDR_ENCODE \<Rightarrow>
       if ucast (ucast ulp :: u32) \<noteq> ulp then (False, xdrs, ulp)
       else let (ok, xdrs) = XDR_PUTLONG xdrs ulp in (ok, xdrs, ulp)
   | XDR_FREE \<Rightarrow> (True, xdrs, ulp))"

text \<open>xdr_hyper and xdr_u_hyper differ in the shift that yields the upper half: arithmetic
  for quad_t, logical for u_quad_t.\<close>

definition xdr_hyper :: "('s, u64) xdr_filter" where
  "xdr_hyper xdrs llp = (case x_op xdrs of
     XDR_ENCODE \<Rightarrow>
       let t1 = signed_drop_bit 32 llp; t2 = llp; (ok, xdrs) = XDR_PUTLONG xdrs t1 in
       if ok then let (ok, xdrs) = XDR_PUTLONG xdrs t2 in (ok, xdrs, llp) else (False, xdrs, llp)
   | XDR_DECODE \<Rightarrow>
       let (ok, xdrs, t1) = XDR_GETLONG xdrs 0 in
       if \<not> ok then (False, xdrs, llp)
       else let (ok, xdrs, t2) = XDR_GETLONG xdrs 0 in
       if \<not> ok then (False, xdrs, llp)
       else (True, xdrs, push_bit 32 t1 OR ucast (ucast t2 :: u32))
   | XDR_FREE \<Rightarrow> (True, xdrs, llp))"

definition xdr_u_hyper :: "('s, u64) xdr_filter" where
  "xdr_u_hyper xdrs ullp = (case x_op xdrs of
     XDR_ENCODE \<Rightarrow>
       let t1 = drop_bit 32 ullp; t2 = ullp; (ok, xdrs) = XDR_PUTLONG xdrs t1 in
       if ok then let (ok, xdrs) = XDR_PUTLONG xdrs t2 in (ok, xdrs, ullp) else (False, xdrs, ullp)
   | XDR_DECODE \<Rightarrow>
       let (ok, xdrs, t1) = XDR_GETLONG xdrs 0 in
       if \<not> ok then (False, xdrs, ullp)
       else let (ok, xdrs, t2) = XDR_GETLONG xdrs 0 in
       if \<not> ok then (False, xdrs, ullp)
       else (True, xdrs, push_bit 32 t1 OR ucast (ucast t2 :: u32))
   | XDR_FREE \<Rightarrow> (True, xdrs, ullp))"

definition xdr_longlong_t :: "('s, u64) xdr_filter" where
  "xdr_longlong_t xdrs llp = xdr_hyper xdrs llp"

definition xdr_u_longlong_t :: "('s, u64) xdr_filter" where
  "xdr_u_longlong_t xdrs ullp = xdr_u_hyper xdrs ullp"

definition xdr_short :: "('s, u16) xdr_filter" where
  "xdr_short xdrs sp = (case x_op xdrs of
     XDR_ENCODE \<Rightarrow> let (ok, xdrs) = XDR_PUTLONG xdrs (scast sp) in (ok, xdrs, sp)
   | XDR_DECODE \<Rightarrow> let (ok, xdrs, l) = XDR_GETLONG xdrs 0 in
       if \<not> ok then (False, xdrs, sp) else (True, xdrs, ucast l)
   | XDR_FREE \<Rightarrow> (True, xdrs, sp))"

definition xdr_u_short :: "('s, u16) xdr_filter" where
  "xdr_u_short xdrs usp = (case x_op xdrs of
     XDR_ENCODE \<Rightarrow> let (ok, xdrs) = XDR_PUTLONG xdrs (ucast usp) in (ok, xdrs, usp)
   | XDR_DECODE \<Rightarrow> let (ok, xdrs, l) = XDR_GETLONG xdrs 0 in
       if \<not> ok then (False, xdrs, usp) else (True, xdrs, ucast l)
   | XDR_FREE \<Rightarrow> (True, xdrs, usp))"

text \<open>char is signed on the modelled host.\<close>

definition xdr_char :: "('s, byte) xdr_filter" where
  "xdr_char xdrs cp =
     (let (ok, xdrs, i) = xdr_int xdrs (scast cp) in
      if \<not> ok then (False, xdrs, cp) else (True, xdrs, ucast i))"

definition xdr_u_char :: "('s, byte) xdr_filter" where
  "xdr_u_char xdrs cp =
     (let (ok, xdrs, u) = xdr_u_int xdrs (ucast cp) in
      if \<not> ok then (False, xdrs, cp) else (True, xdrs, ucast u))"

text \<open>bool_t is an int: any non-zero value counts as true and is written as 1.\<close>

definition xdr_bool :: "('s, u32) xdr_filter" where
  "xdr_bool xdrs bp = (case x_op xdrs of
     XDR_ENCODE \<Rightarrow>
       let lb = (if bp \<noteq> 0 then 1 else 0); (ok, xdrs) = XDR_PUTLONG xdrs lb in (ok, xdrs, bp)
   | XDR_DECODE \<Rightarrow> let (ok, xdrs, lb) = XDR_GETLONG xdrs 0 in
       if \<not> ok then (False, xdrs, bp) else (True, xdrs, if lb = 0 then 0 else 1)
   | XDR_FREE \<Rightarrow> (True, xdrs, bp))"

text \<open>An enum is an int on the modelled host, so the first branch of xdr_enum applies.\<close>

definition xdr_enum :: "('s, u32) xdr_filter" where
  "xdr_enum xdrs ep = (case x_op xdrs of
     XDR_ENCODE \<Rightarrow> let (ok, xdrs) = XDR_PUTLONG xdrs (scast ep) in (ok, xdrs, ep)
   | XDR_DECODE \<Rightarrow> let (ok, xdrs, l) = XDR_GETLONG xdrs 0 in
       if \<not> ok then (False, xdrs, ep) else (True, xdrs, ucast l)
   | XDR_FREE \<Rightarrow> (True, xdrs, ep))"

section \<open>sunrpc/xdr.c: byte strings\<close>

text \<open>How many bytes round a count up to full XDR units.\<close>

definition round_up_count :: "u32 \<Rightarrow> u32" where
  "round_up_count cnt =
     (let rndup = cnt mod BYTES_PER_XDR_UNIT in
      if rndup > 0 then BYTES_PER_XDR_UNIT - rndup else rndup)"

definition xdr_opaque :: "'s XDR \<Rightarrow> byte list \<Rightarrow> u32 \<Rightarrow> ('s, byte list) xdr_result" where
  "xdr_opaque xdrs cp cnt =
     (if cnt = 0 then (True, xdrs, cp)
      else let rndup = round_up_count cnt in
      (case x_op xdrs of
         XDR_DECODE \<Rightarrow>
           let (ok, xdrs, cp) = XDR_GETBYTES xdrs cp cnt in
           if \<not> ok then (False, xdrs, cp)
           else if rndup = 0 then (True, xdrs, cp)
           else let (ok, xdrs, crud) = XDR_GETBYTES xdrs [0, 0, 0, 0] rndup in (ok, xdrs, cp)
       | XDR_ENCODE \<Rightarrow>
           let (ok, xdrs) = XDR_PUTBYTES xdrs cp cnt in
           if \<not> ok then (False, xdrs, cp)
           else if rndup = 0 then (True, xdrs, cp)
           else let (ok, xdrs) = XDR_PUTBYTES xdrs xdr_zero rndup in (ok, xdrs, cp)
       | XDR_FREE \<Rightarrow> (True, xdrs, cp)))"

text \<open>xdr_bytes: the object is the pair (\<open>*cpp\<close>, \<open>*sizep\<close>).\<close>

definition xdr_bytes ::
  "(u32 \<Rightarrow> byte list option) \<Rightarrow> 's XDR \<Rightarrow> byte list option \<times> u32 \<Rightarrow> u32
     \<Rightarrow> ('s, byte list option \<times> u32) xdr_result" where
  "xdr_bytes mem_alloc xdrs obj maxsize =
     (let (sp, sizep) = obj; (ok, xdrs, sizep) = xdr_u_int xdrs sizep in
      if \<not> ok then (False, xdrs, sp, sizep)
      else let nodesize = sizep in
      if nodesize > maxsize \<and> x_op xdrs \<noteq> XDR_FREE then (False, xdrs, sp, sizep)
      else (case x_op xdrs of
         XDR_DECODE \<Rightarrow>
           if nodesize = 0 then (True, xdrs, sp, sizep)
           else (case (case sp of None \<Rightarrow> mem_alloc nodesize | Some buf \<Rightarrow> Some buf) of
              None \<Rightarrow> (False, xdrs, None, sizep)
            | Some buf \<Rightarrow> let (ok, xdrs, buf) = xdr_opaque xdrs buf nodesize in
                (ok, xdrs, Some buf, sizep))
       | XDR_ENCODE \<Rightarrow>
           let (ok, xdrs, _) = xdr_opaque xdrs (case sp of None \<Rightarrow> [] | Some buf \<Rightarrow> buf) nodesize in
           (ok, xdrs, sp, sizep)
       | XDR_FREE \<Rightarrow> (True, xdrs, None, sizep)))"

record netobj =
  n_len :: u32
  n_bytes :: "byte list option"

definition xdr_netobj :: "(u32 \<Rightarrow> byte list option) \<Rightarrow> ('s, netobj) xdr_filter" where
  "xdr_netobj mem_alloc xdrs np =
     (let (ok, xdrs, sp, len) = xdr_bytes mem_alloc xdrs (n_bytes np, n_len np) 1024 in
      (ok, xdrs, \<lparr>n_len = len, n_bytes = sp\<rparr>))"

definition strlen :: "byte list \<Rightarrow> nat" where
  "strlen sp = length (takeWhile (\<lambda>b. b \<noteq> 0) sp)"

definition xdr_string ::
  "(u32 \<Rightarrow> byte list option) \<Rightarrow> 's XDR \<Rightarrow> byte list option \<Rightarrow> u32
     \<Rightarrow> ('s, byte list option) xdr_result" where
  "xdr_string mem_alloc xdrs cpp maxsize =
     (if x_op xdrs = XDR_FREE \<and> cpp = None then (True, xdrs, cpp)
      else if x_op xdrs \<noteq> XDR_DECODE \<and> cpp = None then (False, xdrs, cpp)
      else let size = (if x_op xdrs = XDR_DECODE then 0 else word_of_nat (strlen (the cpp)));
               (ok, xdrs, size) = xdr_u_int xdrs size in
      if \<not> ok then (False, xdrs, cpp)
      else if size > maxsize then (False, xdrs, cpp)
      else let nodesize = size + 1 in
      if nodesize = 0 then (False, xdrs, cpp)
      else (case x_op xdrs of
         XDR_DECODE \<Rightarrow>
           (case (case cpp of None \<Rightarrow> mem_alloc nodesize | Some buf \<Rightarrow> Some buf) of
              None \<Rightarrow> (False, xdrs, None)
            | Some buf \<Rightarrow>
                let (ok, xdrs, buf) = xdr_opaque xdrs (buf[unat size := 0]) size in
                (ok, xdrs, Some buf))
       | XDR_ENCODE \<Rightarrow> let (ok, xdrs, _) = xdr_opaque xdrs (the cpp) size in (ok, xdrs, cpp)
       | XDR_FREE \<Rightarrow> (True, xdrs, None)))"

definition xdr_wrapstring :: "(u32 \<Rightarrow> byte list option) \<Rightarrow> ('s, byte list option) xdr_filter" where
  "xdr_wrapstring mem_alloc xdrs cpp =
     (let (ok, xdrs, cpp) = xdr_string mem_alloc xdrs cpp LASTUNSIGNED in
      if ok then (True, xdrs, cpp) else (False, xdrs, cpp))"

section \<open>sunrpc/xdr.c: discriminated unions\<close>

text \<open>The table of arms, without the terminating entry whose procedure is null.\<close>

record ('s, 'a) xdr_discrim =
  dvalue :: u32
  dproc :: "('s, 'a) xdrproc_t"

fun find_arm :: "('s, 'a) xdr_discrim list \<Rightarrow> u32 \<Rightarrow> ('s, 'a) xdrproc_t option" where
  "find_arm [] dscm = None"
| "find_arm (c # choices) dscm = (if dvalue c = dscm then Some (dproc c) else find_arm choices dscm)"

definition xdr_union ::
  "'s XDR \<Rightarrow> u32 \<times> 'a \<Rightarrow> ('s, 'a) xdr_discrim list \<Rightarrow> ('s, 'a) xdrproc_t option
     \<Rightarrow> ('s, u32 \<times> 'a) xdr_result" where
  "xdr_union xdrs obj choices dfault =
     (let (dscmp, unp) = obj; (ok, xdrs, dscm) = xdr_enum xdrs dscmp in
      if \<not> ok then (False, xdrs, dscm, unp)
      else (case find_arm choices dscm of
         Some proc \<Rightarrow> let (ok, xdrs, unp) = proc xdrs unp LASTUNSIGNED in (ok, xdrs, dscm, unp)
       | None \<Rightarrow> (case dfault of
            None \<Rightarrow> (False, xdrs, dscm, unp)
          | Some proc \<Rightarrow> let (ok, xdrs, unp) = proc xdrs unp LASTUNSIGNED in (ok, xdrs, dscm, unp))))"

section \<open>sunrpc/xdr_array.c\<close>

text \<open>The loop over the elements. An array is the list of its elements; running past its end
  has no meaning in C, and the model stops there with failure.\<close>

fun xdr_elements :: "nat \<Rightarrow> ('s, 'a) xdrproc_t \<Rightarrow> ('s, 'a list) xdr_filter" where
  "xdr_elements 0 elproc xdrs ts = (True, xdrs, ts)"
| "xdr_elements (Suc n) elproc xdrs [] = (False, xdrs, [])"
| "xdr_elements (Suc n) elproc xdrs (t # ts) =
     (let (stat, xdrs, t) = elproc xdrs t LASTUNSIGNED in
      if \<not> stat then (False, xdrs, t # ts)
      else let (stat, xdrs, ts) = xdr_elements n elproc xdrs ts in (stat, xdrs, t # ts))"

text \<open>\<open>calloc c elsize\<close> yields the zeroed elements of the new array. The test against overflow divides
  by \<open>elsize\<close>: for elements of no bytes this is a division by zero in C, while the quotient is 0 here,
  so that the model refuses every such array that is not empty.\<close>

definition xdr_array ::
  "(u32 \<Rightarrow> u32 \<Rightarrow> 'a list option) \<Rightarrow> 's XDR \<Rightarrow> 'a list option \<times> u32 \<Rightarrow> u32 \<Rightarrow> u32
     \<Rightarrow> ('s, 'a) xdrproc_t \<Rightarrow> ('s, 'a list option \<times> u32) xdr_result" where
  "xdr_array calloc xdrs obj maxsize elsize elproc =
     (let (addrp, sizep) = obj; (ok, xdrs, c) = xdr_u_int xdrs sizep in
      if \<not> ok then (False, xdrs, addrp, c)
      else if (c > maxsize \<or> c > LASTUNSIGNED div elsize) \<and> x_op xdrs \<noteq> XDR_FREE
        then (False, xdrs, addrp, c)
      else if addrp = None \<and> x_op xdrs = XDR_DECODE \<and> c = 0 then (True, xdrs, addrp, c)
      else let target = (if addrp = None \<and> x_op xdrs = XDR_DECODE then calloc c elsize else addrp) in
      if addrp = None \<and> x_op xdrs = XDR_DECODE \<and> target = None then (False, xdrs, None, c)
      else if addrp = None \<and> x_op xdrs = XDR_FREE then (True, xdrs, None, c)
      else let elems = (case target of None \<Rightarrow> [] | Some ts \<Rightarrow> ts);
               (stat, xdrs, ts) = xdr_elements (unat c) elproc xdrs elems in
      (stat, xdrs, if x_op xdrs = XDR_FREE then None else if target = None then None else Some ts, c))"

definition xdr_vector :: "u32 \<Rightarrow> u32 \<Rightarrow> ('s, 'a) xdrproc_t \<Rightarrow> ('s, 'a list) xdr_filter" where
  "xdr_vector nelem elemsize xdr_elem xdrs basep = xdr_elements (unat nelem) xdr_elem xdrs basep"

section \<open>sunrpc/xdr_ref.c\<close>

text \<open>Encoding through a null pointer is undefined in xdr_reference; the model fails there.\<close>

definition xdr_reference ::
  "(u32 \<Rightarrow> u32 \<Rightarrow> 'a option) \<Rightarrow> 's XDR \<Rightarrow> 'a option \<Rightarrow> u32 \<Rightarrow> ('s, 'a) xdrproc_t
     \<Rightarrow> ('s, 'a option) xdr_result" where
  "xdr_reference calloc xdrs pp sz proc =
     (if pp = None \<and> x_op xdrs = XDR_FREE then (True, xdrs, None)
      else case (if pp = None \<and> x_op xdrs = XDR_DECODE then calloc 1 sz else pp) of
        None \<Rightarrow> (False, xdrs, None)
      | Some loc \<Rightarrow>
          let (stat, xdrs, loc) = proc xdrs loc LASTUNSIGNED in
          (stat, xdrs, if x_op xdrs = XDR_FREE then None else Some loc))"

definition xdr_pointer ::
  "(u32 \<Rightarrow> u32 \<Rightarrow> 'a option) \<Rightarrow> 's XDR \<Rightarrow> 'a option \<Rightarrow> u32 \<Rightarrow> ('s, 'a) xdrproc_t
     \<Rightarrow> ('s, 'a option) xdr_result" where
  "xdr_pointer calloc xdrs objpp obj_size xdr_obj =
     (let more_data = (if objpp \<noteq> None then 1 else 0);
          (ok, xdrs, more_data) = xdr_bool xdrs more_data in
      if \<not> ok then (False, xdrs, objpp)
      else if more_data = 0 then (True, xdrs, None)
      else xdr_reference calloc xdrs objpp obj_size xdr_obj)"

section \<open>sunrpc/xdr_intXX_t.c\<close>

definition xdr_int64_t :: "('s, u64) xdr_filter" where
  "xdr_int64_t xdrs ip = (case x_op xdrs of
     XDR_ENCODE \<Rightarrow>
       let t1 = ucast (signed_drop_bit 32 ip); t2 = ucast ip; (ok, xdrs) = XDR_PUTINT32 xdrs t1 in
       if ok then let (ok, xdrs) = XDR_PUTINT32 xdrs t2 in (ok, xdrs, ip) else (False, xdrs, ip)
   | XDR_DECODE \<Rightarrow>
       let (ok, xdrs, t1) = XDR_GETINT32 xdrs 0 in
       if \<not> ok then (False, xdrs, ip)
       else let (ok, xdrs, t2) = XDR_GETINT32 xdrs 0 in
       if \<not> ok then (False, xdrs, ip)
       else (True, xdrs, push_bit 32 (scast t1) OR ucast t2)
   | XDR_FREE \<Rightarrow> (True, xdrs, ip))"

definition xdr_quad_t :: "('s, u64) xdr_filter" where
  "xdr_quad_t xdrs ip = xdr_int64_t xdrs ip"

definition xdr_uint64_t :: "('s, u64) xdr_filter" where
  "xdr_uint64_t xdrs uip = (case x_op xdrs of
     XDR_ENCODE \<Rightarrow>
       let t1 = ucast (drop_bit 32 uip); t2 = ucast uip; (ok, xdrs) = XDR_PUTINT32 xdrs t1 in
       if ok then let (ok, xdrs) = XDR_PUTINT32 xdrs t2 in (ok, xdrs, uip) else (False, xdrs, uip)
   | XDR_DECODE \<Rightarrow>
       let (ok, xdrs, t1) = XDR_GETINT32 xdrs 0 in
       if \<not> ok then (False, xdrs, uip)
       else let (ok, xdrs, t2) = XDR_GETINT32 xdrs 0 in
       if \<not> ok then (False, xdrs, uip)
       else (True, xdrs, push_bit 32 (ucast t1) OR ucast t2)
   | XDR_FREE \<Rightarrow> (True, xdrs, uip))"

definition xdr_u_quad_t :: "('s, u64) xdr_filter" where
  "xdr_u_quad_t xdrs ip = xdr_uint64_t xdrs ip"

definition xdr_int32_t :: "('s, u32) xdr_filter" where
  "xdr_int32_t xdrs lp = (case x_op xdrs of
     XDR_ENCODE \<Rightarrow> let (ok, xdrs) = XDR_PUTINT32 xdrs lp in (ok, xdrs, lp)
   | XDR_DECODE \<Rightarrow> XDR_GETINT32 xdrs lp
   | XDR_FREE \<Rightarrow> (True, xdrs, lp))"

definition xdr_uint32_t :: "('s, u32) xdr_filter" where
  "xdr_uint32_t xdrs ulp = (case x_op xdrs of
     XDR_ENCODE \<Rightarrow> let (ok, xdrs) = XDR_PUTINT32 xdrs ulp in (ok, xdrs, ulp)
   | XDR_DECODE \<Rightarrow> XDR_GETINT32 xdrs ulp
   | XDR_FREE \<Rightarrow> (True, xdrs, ulp))"

definition xdr_int16_t :: "('s, u16) xdr_filter" where
  "xdr_int16_t xdrs ip = (case x_op xdrs of
     XDR_ENCODE \<Rightarrow> let t = scast ip; (ok, xdrs) = XDR_PUTINT32 xdrs t in (ok, xdrs, ip)
   | XDR_DECODE \<Rightarrow> let (ok, xdrs, t) = XDR_GETINT32 xdrs 0 in
       if \<not> ok then (False, xdrs, ip) else (True, xdrs, ucast t)
   | XDR_FREE \<Rightarrow> (True, xdrs, ip))"

definition xdr_uint16_t :: "('s, u16) xdr_filter" where
  "xdr_uint16_t xdrs uip = (case x_op xdrs of
     XDR_ENCODE \<Rightarrow> let ut = ucast uip; (ok, xdrs) = XDR_PUTINT32 xdrs ut in (ok, xdrs, uip)
   | XDR_DECODE \<Rightarrow> let (ok, xdrs, ut) = XDR_GETINT32 xdrs 0 in
       if \<not> ok then (False, xdrs, uip) else (True, xdrs, ucast ut)
   | XDR_FREE \<Rightarrow> (True, xdrs, uip))"

definition xdr_int8_t :: "('s, byte) xdr_filter" where
  "xdr_int8_t xdrs ip = (case x_op xdrs of
     XDR_ENCODE \<Rightarrow> let t = scast ip; (ok, xdrs) = XDR_PUTINT32 xdrs t in (ok, xdrs, ip)
   | XDR_DECODE \<Rightarrow> let (ok, xdrs, t) = XDR_GETINT32 xdrs 0 in
       if \<not> ok then (False, xdrs, ip) else (True, xdrs, ucast t)
   | XDR_FREE \<Rightarrow> (True, xdrs, ip))"

definition xdr_uint8_t :: "('s, byte) xdr_filter" where
  "xdr_uint8_t xdrs uip = (case x_op xdrs of
     XDR_ENCODE \<Rightarrow> let ut = ucast uip; (ok, xdrs) = XDR_PUTINT32 xdrs ut in (ok, xdrs, uip)
   | XDR_DECODE \<Rightarrow> let (ok, xdrs, ut) = XDR_GETINT32 xdrs 0 in
       if \<not> ok then (False, xdrs, uip) else (True, xdrs, ucast ut)
   | XDR_FREE \<Rightarrow> (True, xdrs, uip))"

section \<open>Filters for structures\<close>

text \<open>How the filters of RPC structures are put together: \<open>f (xdrs, &r->member)\<close>, the
  short-circuit \<open>&&\<close> of two filter calls on one object, and a test of the object in the middle
  of such a chain.\<close>

definition member :: "('r \<Rightarrow> 'a) \<Rightarrow> (('a \<Rightarrow> 'a) \<Rightarrow> 'r \<Rightarrow> 'r) \<Rightarrow> ('s, 'a) xdr_filter \<Rightarrow> ('s, 'r) xdr_filter" where
  "member get upd f xdrs r = (let (ok, xdrs, v) = f xdrs (get r) in (ok, xdrs, upd (\<lambda>_. v) r))"

definition and_then :: "('s, 'r) xdr_filter \<Rightarrow> ('s, 'r) xdr_filter \<Rightarrow> ('s, 'r) xdr_filter" where
  "and_then f g xdrs r = (let (ok, xdrs, r) = f xdrs r in if ok then g xdrs r else (False, xdrs, r))"

definition holds :: "('r \<Rightarrow> bool) \<Rightarrow> ('s, 'r) xdr_filter" where
  "holds p xdrs r = (p r, xdrs, r)"

end
