(* ===== verification/Xdr_Contract.thy ===== *)
theory Xdr_Contract
  imports Xdr "HOL-Library.Sublist"
begin

text \<open>
  What the filters of theory Xdr rely on and what they promise, stated once for every stream.

  \<open>xdr_sink\<close> is the interface of a stream that is written to: \<open>puts s bs s'\<close> says that \<open>s'\<close> is
  \<open>s\<close> after the bytes \<open>bs\<close>, \<open>room s n\<close> that \<open>n\<close> more bytes fit. \<open>xdr_source\<close> is the interface
  of one that is read: \<open>avail s\<close> are the bytes ahead. \<open>widen\<close> is how a stream's getlong widens
  the 32-bit word it read to a long; \<open>xdr_signed_source\<close> adds that it extends the sign, which
  only xdr_long needs.

  Inside the locales \<open>encodes f v bs\<close> says that the filter f, applied to the object v, writes
  exactly bs, and fails exactly when bs does not fit; \<open>decodes f v0 bs v\<close> says that f turns
  the bytes bs back into v (over the old contents v0), leaves the stream right behind
  them, and fails when the input ends before bs does.
\<close>

section \<open>The external representation\<close>

text \<open>RFC 4506: an integer unit is four bytes, most significant first; opaque data is padded
  with zeros to a whole number of units.\<close>

definition xdr_be :: "u32 \<Rightarrow> byte list" where
  "xdr_be w = be_bytes 4 (unat w)"

definition padding :: "nat \<Rightarrow> nat" where
  "padding n = (4 - n mod 4) mod 4"

definition xdr_padded :: "byte list \<Rightarrow> byte list" where
  "xdr_padded bs = bs @ replicate (padding (length bs)) 0"

definition xdr_counted :: "byte list \<Rightarrow> byte list" where
  "xdr_counted bs = xdr_be (word_of_nat (length bs)) @ xdr_padded bs"

lemma length_xdr_be [simp]: "length (xdr_be w) = 4"
  by (simp add: xdr_be_def)

lemma be_val_xdr_be [simp]: "word_of_nat (be_val (xdr_be w)) = w"
proof -
  have "bswap_32 (load32 (xdr_be w)) = word_of_nat (be_val (xdr_be w))"
    by (rule bswap_32_load32) simp
  moreover have "store32 (bswap_32 (load32 (xdr_be w))) = rev (xdr_be w)"
    by (simp add: store32_bswap store32_load32)
  moreover have "rev (xdr_be w) = store32 w"
    using store32_word_of_nat [of "unat w"] by (simp add: xdr_be_def be_bytes_def)
  ultimately show ?thesis
    by (metis store32_eq_iff)
qed

lemma store32_htonl: "store32 (bswap_32 w) = xdr_be w"
  using store32_word_of_nat [of "unat w"] by (simp add: store32_bswap xdr_be_def be_bytes_def)

lemma padding_less: "padding n < 4"
  by (simp add: padding_def)

lemma unat_round_up_count: "unat (round_up_count cnt) = padding (unat cnt)"
proof -
  have lt: "cnt mod 4 < 4"
    by (simp add: word_less_nat_alt unat_mod)
  have "unat (cnt mod 4) = unat cnt mod 4"
    by (simp add: unat_mod)
  moreover have "unat (4 - cnt mod 4) = 4 - unat (cnt mod 4)"
    using unat_sub [of "cnt mod 4" 4] lt by simp
  ultimately show ?thesis
    by (auto simp: round_up_count_def BYTES_PER_XDR_UNIT_def padding_def word_less_nat_alt Let_def)
qed

lemma length_xdr_padded: "length (xdr_padded bs) = length bs + padding (length bs)"
  by (simp add: xdr_padded_def)

lemma xdr_padded_units: "4 dvd length (xdr_padded bs)"
proof -
  let ?n = "length bs"
  have "(?n + (4 - ?n mod 4) mod 4) mod 4 = (?n + (4 - ?n mod 4)) mod 4"
    by (simp only: mod_add_right_eq)
  also have "\<dots> = (?n mod 4 + (4 - ?n mod 4)) mod 4"
    by (simp only: mod_add_left_eq)
  also have "?n mod 4 + (4 - ?n mod 4) = 4"
    by simp
  finally show ?thesis
    unfolding length_xdr_padded padding_def dvd_eq_mod_eq_0 by simp
qed

lemma ucast_scast_32:
  "ucast (scast i :: u64) = i" "ucast (ucast i :: u64) = i" for i :: u32
  by (rule bit_word_eqI; simp add: bit_simps)+

lemma ucast_through_32:
  "(ucast l :: u16) = ucast (ucast l :: u32)" "(ucast l :: byte) = ucast (ucast l :: u32)" for l :: u64
  by (rule bit_word_eqI; simp add: bit_simps)+

lemma narrow_again:
  "ucast (scast h :: u32) = h" "ucast (ucast h :: u32) = h"
  "ucast (scast b :: u32) = b" "ucast (ucast b :: u32) = b" for h :: u16 and b :: byte
  by (rule bit_word_eqI; simp add: bit_simps)+

lemma hyper_halves:
  "push_bit 32 t1 OR ucast (ucast llp :: u32) = llp"
  if "ucast t1 = (ucast (drop_bit 32 llp) :: u32)" for t1 llp :: u64
proof (rule bit_word_eqI)
  fix n assume "n < LENGTH(64)"
  then have n: "n < 64" by simp
  have "bit t1 (n - 32) = bit llp n" if "32 \<le> n"
  proof -
    have "n - 32 < 32"
      using n that by linarith
    then show ?thesis
      using arg_cong [OF \<open>ucast t1 = _\<close>, of "\<lambda>w. bit w (n - 32)"] that by (simp add: bit_simps)
  qed
  with n show "bit (push_bit 32 t1 OR ucast (ucast llp :: u32)) n = bit llp n"
    by (auto simp: bit_simps)
qed

lemma upper_half:
  "ucast (signed_drop_bit 32 llp) = (ucast (drop_bit 32 llp) :: u32)" for llp :: u64
  by (rule bit_word_eqI) (simp add: bit_simps)

lemma strict_prefix_append_cases:
  assumes "strict_prefix as (bs @ cs)"
  obtains "strict_prefix as bs" | as' where "as = bs @ as'" "strict_prefix as' cs"
proof -
  have ne: "as \<noteq> bs @ cs" and p: "prefix as bs \<or> (\<exists>us. as = bs @ us \<and> prefix us cs)"
    using assms by (auto simp: strict_prefix_def prefix_append)
  show thesis
  proof (cases "strict_prefix as bs")
    case False
    with p obtain us where "as = bs @ us" "prefix us cs"
      by (auto simp: strict_prefix_def)
    with ne show thesis
      by (intro that(2) [of us]) (auto simp: strict_prefix_def)
  qed (rule that(1))
qed

text \<open>An element procedure, called the way the composite filters call it.\<close>

definition as_filter :: "('s, 'a) xdrproc_t \<Rightarrow> ('s, 'a) xdr_filter" where
  "as_filter proc xdrs v = proc xdrs v LASTUNSIGNED"

lemma as_filter_ignore [simp]: "as_filter (\<lambda>x v _. f x v) = f"
  by (simp add: fun_eq_iff as_filter_def)

lemma xdr_wrapstring_eq: "xdr_wrapstring alloc = (\<lambda>x v. xdr_string alloc x v LASTUNSIGNED)"
  by (auto simp: fun_eq_iff xdr_wrapstring_def Let_def split: prod.split)

text \<open>Hypotheses on the allocator: a request succeeds and yields storage of the requested
  size, uninitialised for \<open>mem_alloc\<close>, zeroed for \<open>calloc\<close>.\<close>

definition allocates :: "(u32 \<Rightarrow> byte list option) \<Rightarrow> bool" where
  "allocates alloc \<longleftrightarrow> (\<forall>n. \<exists>buf. alloc n = Some buf \<and> length buf = unat n)"

definition callocates :: "'a \<Rightarrow> (u32 \<Rightarrow> u32 \<Rightarrow> 'a list option) \<Rightarrow> bool" where
  "callocates z calloc \<longleftrightarrow> (\<forall>n sz. calloc n sz = Some (replicate (unat n) z))"

lemma word_of_nat_Suc_ne_0:
  assumes "n < 2 ^ 32 - 1"
  shows "(word_of_nat n :: u32) + 1 \<noteq> 0"
proof -
  have "unat ((word_of_nat n :: u32) + 1) = Suc n"
    using assms by (simp add: unat_add_mod unat_word_of_nat_mod)
  then show ?thesis
    by (metis nat.distinct(1) unat_0)
qed

lemma strlen_terminated [simp]: "0 \<notin> set cs \<Longrightarrow> strlen (cs @ [0]) = length cs"
  unfolding strlen_def by (subst takeWhile_append2) auto

section \<open>Writing: the interface of a sink\<close>

locale xdr_sink =
  fixes ops :: "'s xdr_ops"
    and wf :: "'s \<Rightarrow> bool"
    and puts :: "'s \<Rightarrow> byte list \<Rightarrow> 's \<Rightarrow> bool"
    and room :: "'s \<Rightarrow> nat \<Rightarrow> bool"
  assumes puts_refl: "wf s \<Longrightarrow> puts s [] s"
    and puts_trans: "puts s as s' \<Longrightarrow> puts s' bs s'' \<Longrightarrow> puts s (as @ bs) s''"
    and puts_wf: "wf s \<Longrightarrow> puts s bs s' \<Longrightarrow> wf s'"
    and puts_room: "wf s \<Longrightarrow> puts s bs s' \<Longrightarrow> room s' n \<longleftrightarrow> room s (length bs + n)"
    and room_mono: "room s n \<Longrightarrow> m \<le> n \<Longrightarrow> room s m"
    and room_0: "wf s \<Longrightarrow> room s 0"
    and putlong_ok: "wf s \<Longrightarrow> room s 4 \<Longrightarrow>
          \<exists>s'. x_putlong ops s l = (True, s') \<and> puts s (xdr_be (ucast l)) s'"
    and putlong_full: "wf s \<Longrightarrow> \<not> room s 4 \<Longrightarrow> \<not> fst (x_putlong ops s l)"
    and putbytes_ok: "wf s \<Longrightarrow> unat len \<le> length bs \<Longrightarrow> room s (unat len) \<Longrightarrow>
          \<exists>s'. x_putbytes ops s bs len = (True, s') \<and> puts s (take (unat len) bs) s'"
    and putbytes_full: "wf s \<Longrightarrow> \<not> room s (unat len) \<Longrightarrow> \<not> fst (x_putbytes ops s bs len)"
    and putint32_ok: "wf s \<Longrightarrow> room s 4 \<Longrightarrow>
          \<exists>s'. x_putint32 ops s i = (True, s') \<and> puts s (xdr_be i) s'"
    and putint32_full: "wf s \<Longrightarrow> \<not> room s 4 \<Longrightarrow> \<not> fst (x_putint32 ops s i)"
begin

definition enc :: "'s \<Rightarrow> 's XDR" where
  "enc s = \<lparr>x_op = XDR_ENCODE, x_ops = ops, x_stream = s\<rparr>"

definition encodes :: "('s, 'a) xdr_filter \<Rightarrow> 'a \<Rightarrow> byte list \<Rightarrow> bool" where
  "encodes f v bs \<longleftrightarrow> (\<forall>s. wf s \<longrightarrow>
     (if room s (length bs) then \<exists>s'. f (enc s) v = (True, enc s', v) \<and> puts s bs s'
      else \<not> fst (f (enc s) v)))"

lemma enc_simps [simp]:
  "x_op (enc s) = XDR_ENCODE" "x_ops (enc s) = ops" "x_stream (enc s) = s"
  "(enc s)\<lparr>x_stream := s'\<rparr> = enc s'"
  by (simp_all add: enc_def)

lemma encodesI:
  assumes "\<And>s. wf s \<Longrightarrow> room s (length bs) \<Longrightarrow> \<exists>s'. f (enc s) v = (True, enc s', v) \<and> puts s bs s'"
    and "\<And>s. wf s \<Longrightarrow> \<not> room s (length bs) \<Longrightarrow> \<not> fst (f (enc s) v)"
  shows "encodes f v bs"
  using assms by (simp add: encodes_def)

lemma encodes_ok:
  assumes "encodes f v bs" and "wf s" and "room s (length bs)"
  shows "\<exists>s'. f (enc s) v = (True, enc s', v) \<and> puts s bs s' \<and> wf s'"
  using assms puts_wf unfolding encodes_def by (metis (full_types))

lemma encodes_full:
  assumes "encodes f v bs" and "wf s" and "\<not> room s (length bs)"
  shows "\<exists>x v'. f (enc s) v = (False, x, v')"
  using assms unfolding encodes_def by (cases "f (enc s) v") auto

lemma PUTLONG_cases:
  assumes "wf s"
  obtains s' where "room s 4" "XDR_PUTLONG (enc s) l = (True, enc s')" "puts s (xdr_be (ucast l)) s'" "wf s'"
  | s' where "\<not> room s 4" "XDR_PUTLONG (enc s) l = (False, enc s')"
proof (cases "room s 4")
  case True
  then show ?thesis
    using putlong_ok [OF assms True, of l] that(1) puts_wf [OF assms]
    by (auto simp: XDR_PUTLONG_def)
next
  case False
  then show ?thesis
    using putlong_full [OF assms False, of l] that(2)
    by (cases "x_putlong ops s l") (auto simp: XDR_PUTLONG_def)
qed

lemma PUTINT32_cases:
  assumes "wf s"
  obtains s' where "room s 4" "XDR_PUTINT32 (enc s) i = (True, enc s')" "puts s (xdr_be i) s'" "wf s'"
  | s' where "\<not> room s 4" "XDR_PUTINT32 (enc s) i = (False, enc s')"
proof (cases "room s 4")
  case True
  then show ?thesis
    using putint32_ok [OF assms True, of i] that(1) puts_wf [OF assms]
    by (auto simp: XDR_PUTINT32_def)
next
  case False
  then show ?thesis
    using putint32_full [OF assms False, of i] that(2)
    by (cases "x_putint32 ops s i") (auto simp: XDR_PUTINT32_def)
qed

lemma PUTBYTES_cases:
  assumes "wf s" and "unat len \<le> length bs"
  obtains s' where "room s (unat len)" "XDR_PUTBYTES (enc s) bs len = (True, enc s')"
      "puts s (take (unat len) bs) s'" "wf s'"
  | s' where "\<not> room s (unat len)" "XDR_PUTBYTES (enc s) bs len = (False, enc s')"
proof (cases "room s (unat len)")
  case True
  then show ?thesis
    using putbytes_ok [OF assms True] that(1) puts_wf [OF assms(1)]
    by (auto simp: XDR_PUTBYTES_def)
next
  case False
  then show ?thesis
    using putbytes_full [OF assms(1) False, of bs] that(2)
    by (cases "x_putbytes ops s bs len") (auto simp: XDR_PUTBYTES_def)
qed

text \<open>Two writes in a row, as the composite filters chain them.\<close>

lemma encodes_then:
  assumes f: "encodes f v as" and g: "encodes g w bs"
    and stop: "\<And>s x v'. f (enc s) v = (False, x, v') \<Longrightarrow> \<not> fst (h (enc s) u)"
    and go: "\<And>s s1. f (enc s) v = (True, enc s1, v) \<Longrightarrow> fst (h (enc s) u) = fst (g (enc s1) w)"
    and both: "\<And>s s1 s2. f (enc s) v = (True, enc s1, v) \<Longrightarrow> g (enc s1) w = (True, enc s2, w) \<Longrightarrow>
      h (enc s) u = (True, enc s2, u)"
  shows "encodes h u (as @ bs)"
proof (rule encodesI)
  fix s assume s: "wf s" and r: "room s (length (as @ bs))"
  then have "room s (length as)"
    by (auto elim: room_mono)
  then obtain s1 where 1: "f (enc s) v = (True, enc s1, v)" "puts s as s1" "wf s1"
    using encodes_ok [OF f s] by blast
  have "room s1 (length bs)"
    using puts_room [OF s 1(2)] r by simp
  then obtain s2 where 2: "g (enc s1) w = (True, enc s2, w)" "puts s1 bs s2"
    using encodes_ok [OF g 1(3)] by blast
  show "\<exists>s'. h (enc s) u = (True, enc s', u) \<and> puts s (as @ bs) s'"
    using 1 2 puts_trans both by blast
next
  fix s assume s: "wf s" and r: "\<not> room s (length (as @ bs))"
  show "\<not> fst (h (enc s) u)"
  proof (cases "room s (length as)")
    case True
    then obtain s1 where 1: "f (enc s) v = (True, enc s1, v)" "puts s as s1" "wf s1"
      using encodes_ok [OF f s] by blast
    have "\<not> room s1 (length bs)"
      using puts_room [OF s 1(2)] r by simp
    then obtain x w' where "g (enc s1) w = (False, x, w')"
      using encodes_full [OF g 1(3)] by blast
    with go [OF 1(1)] show ?thesis
      by simp
  next
    case False
    then show ?thesis
      using encodes_full [OF f s] stop by blast
  qed
qed

subsection \<open>Integers\<close>

lemma encodes_putlong:
  assumes "\<And>s. f (enc s) v = (let (ok, x) = XDR_PUTLONG (enc s) l in (ok, x, v))"
  shows "encodes f v (xdr_be (ucast l))"
proof (rule encodesI)
  fix s assume "wf s"
  then show "room s (length (xdr_be (ucast l))) \<Longrightarrow>
      \<exists>s'. f (enc s) v = (True, enc s', v) \<and> puts s (xdr_be (ucast l)) s'"
    by (rule PUTLONG_cases [where l = l]) (auto simp: assms)
  show "\<not> room s (length (xdr_be (ucast l))) \<Longrightarrow> \<not> fst (f (enc s) v)"
    using \<open>wf s\<close> by (rule PUTLONG_cases [where l = l]) (auto simp: assms)
qed

lemma encodes_putint32:
  assumes "\<And>s. f (enc s) v = (let (ok, x) = XDR_PUTINT32 (enc s) i in (ok, x, v))"
  shows "encodes f v (xdr_be i)"
proof (rule encodesI)
  fix s assume "wf s"
  then show "room s (length (xdr_be i)) \<Longrightarrow>
      \<exists>s'. f (enc s) v = (True, enc s', v) \<and> puts s (xdr_be i) s'"
    by (rule PUTINT32_cases [where i = i]) (auto simp: assms)
  show "\<not> room s (length (xdr_be i)) \<Longrightarrow> \<not> fst (f (enc s) v)"
    using \<open>wf s\<close> by (rule PUTINT32_cases [where i = i]) (auto simp: assms)
qed

lemma encodes_nothing:
  assumes "\<And>s. f (enc s) v = (True, enc s, v)"
  shows "encodes f v []"
  using assms puts_refl room_0 by (auto intro!: encodesI)

lemma encodes_xdr_int: "encodes xdr_int ip (xdr_be ip)"
  using encodes_putlong [of xdr_int ip "scast ip"] by (simp add: xdr_int_def ucast_scast_32)

lemma encodes_xdr_u_int: "encodes xdr_u_int up (xdr_be up)"
  using encodes_putlong [of xdr_u_int up "ucast up"] by (simp add: xdr_u_int_def ucast_scast_32)

lemma encodes_xdr_enum: "encodes xdr_enum ep (xdr_be ep)"
  using encodes_putlong [of xdr_enum ep "scast ep"] by (simp add: xdr_enum_def ucast_scast_32)

lemma encodes_xdr_long: "scast (ucast lp :: u32) = lp \<Longrightarrow> encodes xdr_long lp (xdr_be (ucast lp))"
  by (rule encodes_putlong) (simp add: xdr_long_def)

lemma encodes_xdr_u_long: "ucast (ucast ulp :: u32) = ulp \<Longrightarrow> encodes xdr_u_long ulp (xdr_be (ucast ulp))"
  by (rule encodes_putlong) (simp add: xdr_u_long_def)

lemma encodes_xdr_short: "encodes xdr_short sp (xdr_be (scast sp))"
proof -
  have "ucast (scast sp :: u64) = (scast sp :: u32)"
    by (rule bit_word_eqI) (simp add: bit_simps)
  then show ?thesis
    using encodes_putlong [of xdr_short sp "scast sp"] by (simp add: xdr_short_def)
qed

lemma encodes_xdr_u_short: "encodes xdr_u_short usp (xdr_be (ucast usp))"
proof -
  have "ucast (ucast usp :: u64) = (ucast usp :: u32)"
    by (rule bit_word_eqI) (auto simp: bit_simps dest: bit_imp_le_length)
  then show ?thesis
    using encodes_putlong [of xdr_u_short usp "ucast usp"] by (simp add: xdr_u_short_def)
qed

lemma encodes_xdr_bool: "encodes xdr_bool bp (xdr_be (if bp \<noteq> 0 then 1 else 0))"
  using encodes_putlong [of xdr_bool bp "if bp \<noteq> 0 then 1 else 0"]
  by (simp add: xdr_bool_def Let_def split: if_splits)

text \<open>A filter that delegates to another one on a copy or a part of its object.\<close>

lemma encodes_via:
  assumes f: "encodes f v bs"
    and stop: "\<And>s x v'. f (enc s) v = (False, x, v') \<Longrightarrow> \<not> fst (h (enc s) u)"
    and ok: "\<And>s s'. f (enc s) v = (True, enc s', v) \<Longrightarrow> h (enc s) u = (True, enc s', u)"
  shows "encodes h u bs"
proof (rule encodesI)
  fix s assume s: "wf s"
  show "room s (length bs) \<Longrightarrow> \<exists>s'. h (enc s) u = (True, enc s', u) \<and> puts s bs s'"
    using encodes_ok [OF f s] ok by blast
  show "\<not> room s (length bs) \<Longrightarrow> \<not> fst (h (enc s) u)"
    using encodes_full [OF f s] stop by blast
qed

lemma encodes_xdr_char: "encodes xdr_char cp (xdr_be (scast cp))"
  by (rule encodes_via [OF encodes_xdr_int]) (auto simp: xdr_char_def narrow_again)

lemma encodes_xdr_u_char: "encodes xdr_u_char cp (xdr_be (ucast cp))"
  by (rule encodes_via [OF encodes_xdr_u_int]) (auto simp: xdr_u_char_def narrow_again)

text \<open>The 64-bit filters write the upper unit first.\<close>

lemma encodes_two_longs:
  assumes "\<And>s. h (enc s) v = (case XDR_PUTLONG (enc s) hi of
      (ok, x) \<Rightarrow> if ok then case XDR_PUTLONG x lo of (ok, x) \<Rightarrow> (ok, x, v) else (False, x, v))"
  shows "encodes h v (xdr_be (ucast hi) @ xdr_be (ucast lo))"
proof (rule encodes_then)
  show "encodes (\<lambda>x t. let (ok, x) = XDR_PUTLONG x hi in (ok, x, t)) v (xdr_be (ucast hi))"
    and "encodes (\<lambda>x t. let (ok, x) = XDR_PUTLONG x lo in (ok, x, t)) v (xdr_be (ucast lo))"
    by (rule encodes_putlong, simp)+
qed (auto simp: assms split: prod.splits)

lemma encodes_two_int32s:
  assumes "\<And>s. h (enc s) v = (case XDR_PUTINT32 (enc s) hi of
      (ok, x) \<Rightarrow> if ok then case XDR_PUTINT32 x lo of (ok, x) \<Rightarrow> (ok, x, v) else (False, x, v))"
  shows "encodes h v (xdr_be hi @ xdr_be lo)"
proof (rule encodes_then)
  show "encodes (\<lambda>x t. let (ok, x) = XDR_PUTINT32 x hi in (ok, x, t)) v (xdr_be hi)"
    and "encodes (\<lambda>x t. let (ok, x) = XDR_PUTINT32 x lo in (ok, x, t)) v (xdr_be lo)"
    by (rule encodes_putint32, simp)+
qed (auto simp: assms split: prod.splits)

lemma encodes_64:
  "encodes xdr_hyper v (xdr_be (ucast (drop_bit 32 v)) @ xdr_be (ucast v))"
  "encodes xdr_u_hyper v (xdr_be (ucast (drop_bit 32 v)) @ xdr_be (ucast v))"
  "encodes xdr_int64_t v (xdr_be (ucast (drop_bit 32 v)) @ xdr_be (ucast v))"
  "encodes xdr_uint64_t v (xdr_be (ucast (drop_bit 32 v)) @ xdr_be (ucast v))"
proof -
  have "encodes xdr_hyper v (xdr_be (ucast (signed_drop_bit 32 v)) @ xdr_be (ucast v))"
    by (rule encodes_two_longs) (simp add: xdr_hyper_def split: prod.split)
  then show "encodes xdr_hyper v (xdr_be (ucast (drop_bit 32 v)) @ xdr_be (ucast v))"
    by (simp add: upper_half)
  show "encodes xdr_u_hyper v (xdr_be (ucast (drop_bit 32 v)) @ xdr_be (ucast v))"
    by (rule encodes_two_longs) (simp add: xdr_u_hyper_def split: prod.split)
  show "encodes xdr_int64_t v (xdr_be (ucast (drop_bit 32 v)) @ xdr_be (ucast v))"
    and "encodes xdr_uint64_t v (xdr_be (ucast (drop_bit 32 v)) @ xdr_be (ucast v))"
    by (rule encodes_two_int32s,
        simp add: xdr_int64_t_def xdr_uint64_t_def upper_half split: prod.split)+
qed

lemma encodes_intXX:
  "encodes xdr_int32_t i (xdr_be i)" "encodes xdr_uint32_t i (xdr_be i)"
  "encodes xdr_int16_t h (xdr_be (scast h))" "encodes xdr_uint16_t h (xdr_be (ucast h))"
  "encodes xdr_int8_t b (xdr_be (scast b))" "encodes xdr_uint8_t b (xdr_be (ucast b))"
  by (rule encodes_putint32, simp add: xdr_int32_t_def xdr_uint32_t_def xdr_int16_t_def
      xdr_uint16_t_def xdr_int8_t_def xdr_uint8_t_def)+

subsection \<open>Byte strings\<close>

lemma encodes_putbytes:
  assumes len: "unat len \<le> length bs"
    and "\<And>s. f (enc s) v = (let (ok, x) = XDR_PUTBYTES (enc s) bs len in (ok, x, v))"
  shows "encodes f v (take (unat len) bs)"
proof (rule encodesI)
  fix s assume s: "wf s"
  show "room s (length (take (unat len) bs)) \<Longrightarrow>
      \<exists>s'. f (enc s) v = (True, enc s', v) \<and> puts s (take (unat len) bs) s'"
    using len by (rule PUTBYTES_cases [OF s]) (auto simp: assms min_absorb2)
  show "\<not> room s (length (take (unat len) bs)) \<Longrightarrow> \<not> fst (f (enc s) v)"
    using len by (rule PUTBYTES_cases [OF s]) (auto simp: assms min_absorb2)
qed

lemma encodes_xdr_opaque:
  assumes "unat cnt \<le> length cp"
  shows "encodes (\<lambda>x v. xdr_opaque x v cnt) cp (xdr_padded (take (unat cnt) cp))"
proof (cases "cnt = 0")
  case True
  then show ?thesis
    by (simp add: xdr_padded_def padding_def xdr_opaque_def encodes_nothing)
next
  case False
  define rnd where "rnd = round_up_count cnt"
  have rnd: "unat rnd = padding (unat cnt)"
    unfolding rnd_def by (rule unat_round_up_count)
  have pad: "xdr_padded (take (unat cnt) cp) = take (unat cnt) cp @ replicate (unat rnd) 0"
    using assms by (simp add: xdr_padded_def rnd min_def)
  have body: "encodes (\<lambda>x v. let (ok, x) = XDR_PUTBYTES x cp cnt in (ok, x, v)) cp (take (unat cnt) cp)"
    by (rule encodes_putbytes [OF assms]) simp
  have zeros: "take (unat rnd) xdr_zero = replicate (unat rnd) 0"
    using padding_less [of "unat cnt"] rnd
    by (auto simp: xdr_zero_def numeral_eq_Suc less_Suc_eq)
  show ?thesis
  proof (cases "rnd = 0")
    case True
    have "encodes (\<lambda>x v. xdr_opaque x v cnt) cp (take (unat cnt) cp)"
      using assms by (rule encodes_putbytes)
        (use False True in \<open>auto simp: xdr_opaque_def rnd_def Let_def split: prod.split\<close>)
    with True show ?thesis
      by (simp add: pad)
  next
    case nz: False
    have "encodes (\<lambda>x v. let (ok, x) = XDR_PUTBYTES x xdr_zero rnd in (ok, x, v)) cp (take (unat rnd) xdr_zero)"
      using padding_less [of "unat cnt"] rnd by (intro encodes_putbytes) (auto simp: xdr_zero_def)
    with body show ?thesis
      unfolding pad zeros [symmetric]
      by (rule encodes_then)
        (use False nz in \<open>auto simp: xdr_opaque_def rnd_def Let_def split: prod.splits\<close>)
  qed
qed

lemma encodes_xdr_bytes:
  assumes "unat sz \<le> length buf" and "sz \<le> maxsize"
  shows "encodes (\<lambda>x v. xdr_bytes alloc x v maxsize) (Some buf, sz)
    (xdr_be sz @ xdr_padded (take (unat sz) buf))"
  by (rule encodes_then [OF encodes_xdr_u_int encodes_xdr_opaque [OF assms(1)]])
    (use assms(2) in \<open>auto simp: xdr_bytes_def not_less Let_def split: prod.splits\<close>)

lemma encodes_xdr_netobj:
  assumes "unat (n_len np) \<le> length buf" and "n_len np \<le> 1024" and "n_bytes np = Some buf"
  shows "encodes (xdr_netobj alloc) np (xdr_be (n_len np) @ xdr_padded (take (unat (n_len np)) buf))"
proof (rule encodesI)
  let ?bs = "xdr_be (n_len np) @ xdr_padded (take (unat (n_len np)) buf)"
  note bytes = encodes_xdr_bytes [OF assms(1,2), of alloc]
  fix s assume s: "wf s"
  show "room s (length ?bs) \<Longrightarrow> \<exists>s'. xdr_netobj alloc (enc s) np = (True, enc s', np) \<and> puts s ?bs s'"
    using encodes_ok [OF bytes s] assms(3) by (auto simp: xdr_netobj_def)
  show "\<not> room s (length ?bs) \<Longrightarrow> \<not> fst (xdr_netobj alloc (enc s) np)"
    using encodes_full [OF bytes s] assms(3) by (auto simp: xdr_netobj_def)
qed

text \<open>A C string: the bytes up to the first zero, of which the buffer holds at least one.\<close>

lemma encodes_xdr_string:
  assumes nul: "0 \<in> set sp" and len: "strlen sp \<le> unat maxsize" "strlen sp < 2 ^ 32 - 1"
  shows "encodes (\<lambda>x v. xdr_string alloc x v maxsize) (Some sp) (xdr_counted (take (strlen sp) sp))"
proof -
  let ?n = "word_of_nat (strlen sp) :: u32"
  have n: "unat ?n = strlen sp"
    using len(2) by (simp add: unat_word_of_nat_mod)
  have le: "strlen sp \<le> length sp"
    by (simp add: strlen_def length_takeWhile_le)
  have "?n \<le> maxsize"
    using len(1) by (simp add: word_le_nat_alt n)
  moreover have "?n + 1 \<noteq> 0"
  proof -
    have "unat (?n + 1) = strlen sp + 1"
      using len(2) n by (simp add: unat_add_mod)
    then show ?thesis
      by (metis add_eq_0_iff_both_eq_0 unat_0 zero_neq_one)
  qed
  moreover have "unat ?n \<le> length sp"
    using le n by simp
  ultimately have "encodes (\<lambda>x v. xdr_string alloc x v maxsize) (Some sp) (xdr_be ?n @ xdr_padded (take (unat ?n) sp))"
    by (intro encodes_then [OF encodes_xdr_u_int encodes_xdr_opaque])
      (auto simp: xdr_string_def not_less Let_def split: prod.splits)
  then show ?thesis
    using le by (simp add: n xdr_counted_def min_absorb2)
qed

lemma encodes_xdr_wrapstring:
  assumes "0 \<in> set sp" "strlen sp < 2 ^ 32 - 1"
  shows "encodes (xdr_wrapstring alloc) (Some sp) (xdr_counted (take (strlen sp) sp))"
proof -
  have "unat LASTUNSIGNED = 2 ^ 32 - 1"
    by (simp add: unsigned_minus_1_eq_mask mask_eq_exp_minus_1)
  with assms have "encodes (\<lambda>x v. xdr_string alloc x v LASTUNSIGNED) (Some sp) (xdr_counted (take (strlen sp) sp))"
    by (intro encodes_xdr_string) auto
  then show ?thesis
    unfolding xdr_wrapstring_eq .
qed

subsection \<open>Unions, arrays and pointers\<close>

lemma encodes_xdr_union:
  assumes "find_arm choices dscm = Some proc \<or> find_arm choices dscm = None \<and> dfault = Some proc"
    and "encodes (as_filter proc) v bs"
  shows "encodes (\<lambda>x v. xdr_union x v choices dfault) (dscm, v) (xdr_be dscm @ bs)"
  by (rule encodes_then [OF encodes_xdr_enum assms(2)])
    (use assms(1) in \<open>auto simp: as_filter_def xdr_union_def Let_def split: prod.splits\<close>)

lemma encodes_xdr_elements:
  assumes "list_all2 (encodes (as_filter elproc)) vs bss"
  shows "encodes (xdr_elements (length vs) elproc) vs (concat bss)"
  using assms
proof (induction rule: list_all2_induct)
  case Nil
  then show ?case
    by (simp add: encodes_nothing)
next
  case (Cons v vs bs bss)
  show ?case
    unfolding concat.simps
    by (rule encodes_then [OF Cons.hyps(1) Cons.IH]) (auto simp: as_filter_def split: prod.splits)
qed

lemma encodes_xdr_vector:
  assumes "list_all2 (encodes (as_filter elproc)) vs bss" and "unat nelem = length vs"
  shows "encodes (xdr_vector nelem elemsize elproc) vs (concat bss)"
proof -
  have "xdr_vector nelem elemsize elproc = xdr_elements (length vs) elproc"
    by (simp add: fun_eq_iff xdr_vector_def assms(2))
  then show ?thesis
    by (simp add: encodes_xdr_elements [OF assms(1)])
qed

lemma encodes_xdr_array:
  assumes el: "list_all2 (encodes (as_filter elproc)) vs bss"
    and c: "unat c = length vs" "c \<le> maxsize" "c \<le> LASTUNSIGNED div elsize"
  shows "encodes (\<lambda>x v. xdr_array calloc x v maxsize elsize elproc) (Some vs, c) (xdr_be c @ concat bss)"
  by (rule encodes_then [OF encodes_xdr_u_int encodes_xdr_elements [OF el]])
    (use c in \<open>auto simp: as_filter_def xdr_array_def not_less Let_def split: prod.splits\<close>)

lemma encodes_xdr_reference:
  assumes "encodes (as_filter proc) v bs"
  shows "encodes (\<lambda>x p. xdr_reference calloc x p sz proc) (Some v) bs"
  using encodes_ok [OF assms] encodes_full [OF assms]
  by (fastforce intro!: encodesI simp: as_filter_def xdr_reference_def split: prod.splits)

lemma encodes_xdr_pointer_Some:
  assumes "encodes (as_filter proc) v bs"
  shows "encodes (\<lambda>x p. xdr_pointer calloc x p sz proc) (Some v) (xdr_be 1 @ bs)"
proof -
  have "encodes xdr_bool 1 (xdr_be 1)"
    using encodes_xdr_bool [of 1] by simp
  then show ?thesis
    by (rule encodes_then [OF _ encodes_xdr_reference [OF assms]])
      (auto simp: xdr_pointer_def Let_def split: prod.splits)
qed

lemma encodes_xdr_pointer_None:
  "encodes (\<lambda>x p. xdr_pointer calloc x p sz proc) None (xdr_be 0)"
proof -
  have "encodes xdr_bool 0 (xdr_be 0)"
    using encodes_xdr_bool [of 0] by simp
  then show ?thesis
    using encodes_ok [of xdr_bool 0 "xdr_be 0"] encodes_full [of xdr_bool 0 "xdr_be 0"]
    by (fastforce intro!: encodesI simp: xdr_pointer_def)
qed

subsection \<open>Structures\<close>

lemma encodes_member:
  assumes f: "encodes f (get r) bs" and "upd (\<lambda>_. get r) r = r"
  shows "encodes (member get upd f) r bs"
proof (rule encodesI)
  fix s assume s: "wf s"
  show "room s (length bs) \<Longrightarrow> \<exists>s'. member get upd f (enc s) r = (True, enc s', r) \<and> puts s bs s'"
    using encodes_ok [OF f s] assms(2) by (auto simp: member_def)
  show "\<not> room s (length bs) \<Longrightarrow> \<not> fst (member get upd f (enc s) r)"
    using encodes_full [OF f s] by (auto simp: member_def)
qed

lemma encodes_and_then:
  assumes "encodes f r as" "encodes g r bs"
  shows "encodes (and_then f g) r (as @ bs)"
  using assms by (rule encodes_then) (auto simp: and_then_def)

lemma encodes_holds: "p r \<Longrightarrow> encodes (holds p) r []"
  by (rule encodes_nothing) (simp add: holds_def)

lemma encodes_cong:
  assumes "encodes g v bs" and "\<And>x. f x v = g x v"
  shows "encodes f v bs"
  using assms by (simp add: encodes_def)

lemma encodes_xdr_bytes_null:
  "encodes (\<lambda>x v. xdr_bytes alloc x v maxsize) (None, 0) (xdr_be 0)"
  using encodes_ok [OF encodes_xdr_u_int, of _ 0] encodes_full [OF encodes_xdr_u_int, of _ 0]
  by (fastforce intro!: encodesI simp: xdr_bytes_def xdr_opaque_def)

end

section \<open>Reading: the interface of a source\<close>

locale xdr_source =
  fixes ops :: "'s xdr_ops"
    and wf :: "'s \<Rightarrow> bool"
    and avail :: "'s \<Rightarrow> byte list"
    and widen :: "u32 \<Rightarrow> u64"
  assumes widen_low: "ucast (widen w) = w"
    and widen_0: "widen 0 = 0"
    and getlong_ok: "wf s \<Longrightarrow> avail s = bs @ rest \<Longrightarrow> length bs = 4 \<Longrightarrow>
          \<exists>s'. x_getlong ops s l = (True, s', widen (word_of_nat (be_val bs))) \<and> wf s' \<and> avail s' = rest"
    and getlong_short: "wf s \<Longrightarrow> length (avail s) < 4 \<Longrightarrow> \<not> fst (x_getlong ops s l)"
    and getbytes_ok: "wf s \<Longrightarrow> avail s = bs @ rest \<Longrightarrow> length bs = unat len \<Longrightarrow>
          \<exists>s'. x_getbytes ops s buf len = (True, s', blit buf 0 bs) \<and> wf s' \<and> avail s' = rest"
    and getbytes_short: "wf s \<Longrightarrow> length (avail s) < unat len \<Longrightarrow> \<not> fst (x_getbytes ops s buf len)"
    and getint32_ok: "wf s \<Longrightarrow> avail s = bs @ rest \<Longrightarrow> length bs = 4 \<Longrightarrow>
          \<exists>s'. x_getint32 ops s i = (True, s', word_of_nat (be_val bs)) \<and> wf s' \<and> avail s' = rest"
    and getint32_short: "wf s \<Longrightarrow> length (avail s) < 4 \<Longrightarrow> \<not> fst (x_getint32 ops s i)"
begin

definition dec :: "'s \<Rightarrow> 's XDR" where
  "dec s = \<lparr>x_op = XDR_DECODE, x_ops = ops, x_stream = s\<rparr>"

definition decodes :: "('s, 'a) xdr_filter \<Rightarrow> 'a \<Rightarrow> byte list \<Rightarrow> 'a \<Rightarrow> bool" where
  "decodes f v0 bs v \<longleftrightarrow> (\<forall>s. wf s \<longrightarrow>
     (\<forall>rest. avail s = bs @ rest \<longrightarrow>
        (\<exists>s'. f (dec s) v0 = (True, dec s', v) \<and> wf s' \<and> avail s' = rest)) \<and>
     (strict_prefix (avail s) bs \<longrightarrow> \<not> fst (f (dec s) v0)))"

lemma dec_simps [simp]:
  "x_op (dec s) = XDR_DECODE" "x_ops (dec s) = ops" "x_stream (dec s) = s"
  "(dec s)\<lparr>x_stream := s'\<rparr> = dec s'"
  by (simp_all add: dec_def)

lemma decodesI:
  assumes "\<And>s rest. wf s \<Longrightarrow> avail s = bs @ rest \<Longrightarrow>
      \<exists>s'. f (dec s) v0 = (True, dec s', v) \<and> wf s' \<and> avail s' = rest"
    and "\<And>s. wf s \<Longrightarrow> strict_prefix (avail s) bs \<Longrightarrow> \<not> fst (f (dec s) v0)"
  shows "decodes f v0 bs v"
  using assms by (simp add: decodes_def)

lemma decodes_ok:
  assumes "decodes f v0 bs v" and "wf s" and "avail s = bs @ rest"
  shows "\<exists>s'. f (dec s) v0 = (True, dec s', v) \<and> wf s' \<and> avail s' = rest"
  using assms unfolding decodes_def by blast

lemma decodes_short:
  assumes "decodes f v0 bs v" and "wf s" and "strict_prefix (avail s) bs"
  shows "\<exists>x v'. f (dec s) v0 = (False, x, v')"
  using assms unfolding decodes_def by (cases "f (dec s) v0") auto

lemma decodes_then:
  assumes f: "decodes f v0 as v" and g: "decodes g w0 bs w"
    and stop: "\<And>s x v'. f (dec s) v0 = (False, x, v') \<Longrightarrow> \<not> fst (h (dec s) u0)"
    and go: "\<And>s s1. f (dec s) v0 = (True, dec s1, v) \<Longrightarrow> fst (h (dec s) u0) = fst (g (dec s1) w0)"
    and both: "\<And>s s1 s2. f (dec s) v0 = (True, dec s1, v) \<Longrightarrow> g (dec s1) w0 = (True, dec s2, w) \<Longrightarrow>
      h (dec s) u0 = (True, dec s2, u)"
  shows "decodes h u0 (as @ bs) u"
proof (rule decodesI)
  fix s rest assume s: "wf s" and a: "avail s = (as @ bs) @ rest"
  then obtain s1 where 1: "f (dec s) v0 = (True, dec s1, v)" "wf s1" "avail s1 = bs @ rest"
    using decodes_ok [OF f s, of "bs @ rest"] by auto
  then obtain s2 where "g (dec s1) w0 = (True, dec s2, w)" "wf s2" "avail s2 = rest"
    using decodes_ok [OF g] by blast
  with both [OF 1(1)] show "\<exists>s'. h (dec s) u0 = (True, dec s', u) \<and> wf s' \<and> avail s' = rest"
    by blast
next
  fix s assume s: "wf s" and "strict_prefix (avail s) (as @ bs)"
  from this(2) show "\<not> fst (h (dec s) u0)"
  proof (cases rule: strict_prefix_append_cases)
    case 1
    then show ?thesis
      using decodes_short [OF f s] stop by blast
  next
    case (2 rest)
    then obtain s1 where 1: "f (dec s) v0 = (True, dec s1, v)" "wf s1" "avail s1 = rest"
      using decodes_ok [OF f s] by blast
    with 2 have "\<not> fst (g (dec s1) w0)"
      using decodes_short [OF g, of s1] by auto
    with go [OF 1(1)] show ?thesis
      by simp
  qed
qed

lemma decodes_nothing:
  assumes "\<And>s. f (dec s) v0 = (True, dec s, v)"
  shows "decodes f v0 [] v"
  using assms by (intro decodesI) auto

text \<open>A filter that reads on, or that only changes how its result is presented.\<close>

lemma decodes_via:
  assumes f: "decodes f v0 bs v"
    and stop: "\<And>s x v'. f (dec s) v0 = (False, x, v') \<Longrightarrow> \<not> fst (h (dec s) u0)"
    and ok: "\<And>s s'. f (dec s) v0 = (True, dec s', v) \<Longrightarrow> h (dec s) u0 = (True, dec s', u)"
  shows "decodes h u0 bs u"
  using decodes_ok [OF f] decodes_short [OF f] stop ok by (intro decodesI) blast+

subsection \<open>Integers\<close>

lemma decodes_getlong: "decodes XDR_GETLONG l (xdr_be w) (widen w)"
proof (rule decodesI)
  show "\<exists>s'. XDR_GETLONG (dec s) l = (True, dec s', widen w) \<and> wf s' \<and> avail s' = rest"
    if "wf s" "avail s = xdr_be w @ rest" for s rest
    using getlong_ok [OF that, of l] by (auto simp: XDR_GETLONG_def)
  show "\<not> fst (XDR_GETLONG (dec s) l)" if "wf s" "strict_prefix (avail s) (xdr_be w)" for s
    using getlong_short [OF that(1), of l] prefix_length_less [OF that(2)]
    by (auto simp: XDR_GETLONG_def split: prod.split)
qed

lemma decodes_getint32: "decodes XDR_GETINT32 i (xdr_be w) w"
proof (rule decodesI)
  show "\<exists>s'. XDR_GETINT32 (dec s) i = (True, dec s', w) \<and> wf s' \<and> avail s' = rest"
    if "wf s" "avail s = xdr_be w @ rest" for s rest
    using getint32_ok [OF that, of i] by (auto simp: XDR_GETINT32_def)
  show "\<not> fst (XDR_GETINT32 (dec s) i)" if "wf s" "strict_prefix (avail s) (xdr_be w)" for s
    using getint32_short [OF that(1), of i] prefix_length_less [OF that(2)]
    by (auto simp: XDR_GETINT32_def split: prod.split)
qed

lemma decodes_via_long:
  assumes "\<And>s. f (dec s) v0 = (let (ok, x, l) = XDR_GETLONG (dec s) 0 in
      if \<not> ok then (False, x, v0) else (True, x, k l))" and "k (widen w) = v"
  shows "decodes f v0 (xdr_be w) v"
  using assms(2) by (intro decodes_via [OF decodes_getlong [of 0 w]]) (auto simp: assms(1))

lemma decodes_via_int32:
  assumes "\<And>s. f (dec s) v0 = (let (ok, x, l) = XDR_GETINT32 (dec s) 0 in
      if \<not> ok then (False, x, v0) else (True, x, k l))" and "k w = v"
  shows "decodes f v0 (xdr_be w) v"
  using assms(2) by (intro decodes_via [OF decodes_getint32 [of 0 w]]) (auto simp: assms(1))

lemma decodes_xdr_int: "decodes xdr_int v0 (xdr_be v) v"
  by (rule decodes_via_long [where k = ucast]) (simp_all add: xdr_int_def widen_low)

lemma decodes_xdr_u_int: "decodes xdr_u_int v0 (xdr_be v) v"
  by (rule decodes_via_long [where k = ucast]) (simp_all add: xdr_u_int_def widen_low)

lemma decodes_xdr_enum: "decodes xdr_enum v0 (xdr_be v) v"
  by (rule decodes_via_long [where k = ucast]) (simp_all add: xdr_enum_def widen_low)

lemma decodes_xdr_u_long: "ucast (ucast v :: u32) = v \<Longrightarrow> decodes xdr_u_long v0 (xdr_be (ucast v)) v"
  by (rule decodes_via_long [where k = "\<lambda>l. ucast (ucast l :: u32)"])
    (simp_all add: xdr_u_long_def widen_low)

lemma decodes_xdr_short: "decodes xdr_short v0 (xdr_be (scast v)) v"
  by (rule decodes_via_long [where k = ucast])
    (simp_all add: xdr_short_def ucast_through_32 widen_low narrow_again)

lemma decodes_xdr_u_short: "decodes xdr_u_short v0 (xdr_be (ucast v)) v"
  by (rule decodes_via_long [where k = ucast])
    (simp_all add: xdr_u_short_def ucast_through_32 widen_low narrow_again)

lemma widen_eq_0: "widen w = 0 \<longleftrightarrow> w = 0"
  by (metis widen_low widen_0 unsigned_0)

lemma decodes_xdr_bool: "decodes xdr_bool v0 (xdr_be w) (if w = 0 then 0 else 1)"
  by (rule decodes_via_long [where k = "\<lambda>l. if l = 0 then 0 else 1"])
    (simp_all add: xdr_bool_def widen_eq_0)

lemma decodes_xdr_char: "decodes xdr_char v0 (xdr_be (scast v)) v"
  by (rule decodes_via [OF decodes_xdr_int [of "scast v0"]]) (auto simp: xdr_char_def narrow_again)

lemma decodes_xdr_u_char: "decodes xdr_u_char v0 (xdr_be (ucast v)) v"
  by (rule decodes_via [OF decodes_xdr_u_int [of "ucast v0"]]) (auto simp: xdr_u_char_def narrow_again)

lemma decodes_hyper:
  "decodes xdr_hyper v0 (xdr_be (ucast (drop_bit 32 v)) @ xdr_be (ucast v)) v"
  "decodes xdr_u_hyper v0 (xdr_be (ucast (drop_bit 32 v)) @ xdr_be (ucast v)) v"
proof -
  note both = decodes_then [OF decodes_getlong [of 0 "ucast (drop_bit 32 v)"] decodes_getlong [of 0 "ucast v"]]
  show "decodes xdr_hyper v0 (xdr_be (ucast (drop_bit 32 v)) @ xdr_be (ucast v)) v"
    by (rule both) (auto simp: xdr_hyper_def Let_def widen_low hyper_halves split: prod.splits)
  show "decodes xdr_u_hyper v0 (xdr_be (ucast (drop_bit 32 v)) @ xdr_be (ucast v)) v"
    by (rule both) (auto simp: xdr_u_hyper_def Let_def widen_low hyper_halves split: prod.splits)
qed

lemma decodes_int64:
  "decodes xdr_int64_t v0 (xdr_be (ucast (drop_bit 32 v)) @ xdr_be (ucast v)) v"
  "decodes xdr_uint64_t v0 (xdr_be (ucast (drop_bit 32 v)) @ xdr_be (ucast v)) v"
proof -
  note both = decodes_then [OF decodes_getint32 [of 0 "ucast (drop_bit 32 v)"] decodes_getint32 [of 0 "ucast v"]]
  show "decodes xdr_int64_t v0 (xdr_be (ucast (drop_bit 32 v)) @ xdr_be (ucast v)) v"
    by (rule both) (auto simp: xdr_int64_t_def Let_def ucast_scast_32 hyper_halves split: prod.splits)
  show "decodes xdr_uint64_t v0 (xdr_be (ucast (drop_bit 32 v)) @ xdr_be (ucast v)) v"
    by (rule both) (auto simp: xdr_uint64_t_def Let_def ucast_scast_32 hyper_halves split: prod.splits)
qed

lemma decodes_intXX:
  "decodes xdr_int32_t i0 (xdr_be i) i" "decodes xdr_uint32_t i0 (xdr_be i) i"
  "decodes xdr_int16_t h0 (xdr_be (scast h)) h" "decodes xdr_uint16_t h0 (xdr_be (ucast h)) h"
  "decodes xdr_int8_t b0 (xdr_be (scast b)) b" "decodes xdr_uint8_t b0 (xdr_be (ucast b)) b"
proof -
  show "decodes xdr_int32_t i0 (xdr_be i) i" "decodes xdr_uint32_t i0 (xdr_be i) i"
    by (rule decodes_via [OF decodes_getint32 [of i0 i]], auto simp: xdr_int32_t_def xdr_uint32_t_def)+
  show "decodes xdr_int16_t h0 (xdr_be (scast h)) h" "decodes xdr_uint16_t h0 (xdr_be (ucast h)) h"
    by (rule decodes_via_int32 [where k = ucast],
        simp_all add: xdr_int16_t_def xdr_uint16_t_def narrow_again)+
  show "decodes xdr_int8_t b0 (xdr_be (scast b)) b" "decodes xdr_uint8_t b0 (xdr_be (ucast b)) b"
    by (rule decodes_via_int32 [where k = ucast],
        simp_all add: xdr_int8_t_def xdr_uint8_t_def narrow_again)+
qed

subsection \<open>Byte strings\<close>

lemma decodes_getbytes:
  assumes "length bs = unat len"
  shows "decodes (\<lambda>x b. XDR_GETBYTES x b len) buf bs (blit buf 0 bs)"
proof (rule decodesI)
  show "\<exists>s'. XDR_GETBYTES (dec s) buf len = (True, dec s', blit buf 0 bs) \<and> wf s' \<and> avail s' = rest"
    if "wf s" "avail s = bs @ rest" for s rest
    using getbytes_ok [OF that assms, of buf] by (auto simp: XDR_GETBYTES_def)
  show "\<not> fst (XDR_GETBYTES (dec s) buf len)" if "wf s" "strict_prefix (avail s) bs" for s
    using getbytes_short [OF that(1), of len buf] prefix_length_less [OF that(2)] assms
    by (auto simp: XDR_GETBYTES_def split: prod.split)
qed

lemma decodes_xdr_opaque:
  assumes len: "length bs = unat cnt"
  shows "decodes (\<lambda>x v. xdr_opaque x v cnt) buf (xdr_padded bs) (blit buf 0 bs)"
proof (cases "cnt = 0")
  case True
  with len show ?thesis
    by (auto simp: xdr_padded_def padding_def xdr_opaque_def intro: decodes_nothing)
next
  case False
  let ?rnd = "round_up_count cnt"
  have pad: "xdr_padded bs = bs @ replicate (unat ?rnd) 0"
    using len by (simp add: xdr_padded_def unat_round_up_count)
  show ?thesis
  proof (cases "?rnd = 0")
    case True
    have "decodes (\<lambda>x v. xdr_opaque x v cnt) buf bs (blit buf 0 bs)"
      by (rule decodes_via [OF decodes_getbytes [OF len, of buf]])
        (use False True in \<open>auto simp: xdr_opaque_def Let_def\<close>)
    with True show ?thesis
      by (simp add: pad)
  next
    case nz: False
    have "decodes (\<lambda>x b. XDR_GETBYTES x b ?rnd) [0, 0, 0, 0] (replicate (unat ?rnd) 0)
        (blit [0, 0, 0, 0] 0 (replicate (unat ?rnd) 0))"
      by (rule decodes_getbytes) simp
    with decodes_getbytes [OF len, of buf] show ?thesis
      unfolding pad
      by (rule decodes_then) (use False nz in \<open>auto simp: xdr_opaque_def Let_def split: prod.splits\<close>)
  qed
qed

lemma decodes_xdr_bytes:
  assumes len: "length bs = unat sz" and max: "sz \<le> maxsize"
    and buf: "(case p of None \<Rightarrow> alloc sz | Some buf \<Rightarrow> Some buf) = Some buf" and "unat sz \<le> length buf"
  shows "decodes (\<lambda>x v. xdr_bytes alloc x v maxsize) (p, sz0) (xdr_be sz @ xdr_padded bs)
    (if sz = 0 then p else Some (blit buf 0 bs), sz)"
proof (rule decodes_then [OF decodes_xdr_u_int [of sz0 sz] decodes_xdr_opaque [OF len, of buf]])
  show "fst (xdr_bytes alloc (dec s) (p, sz0) maxsize) = fst (xdr_opaque (dec s1) buf sz)"
    if "xdr_u_int (dec s) sz0 = (True, dec s1, sz)" for s s1
    using that max buf by (auto simp: xdr_bytes_def not_less xdr_opaque_def [of "dec s1" buf 0] split: prod.splits)
  show "xdr_bytes alloc (dec s) (p, sz0) maxsize =
      (True, dec s2, if sz = 0 then p else Some (blit buf 0 bs), sz)"
    if "xdr_u_int (dec s) sz0 = (True, dec s1, sz)" "xdr_opaque (dec s1) buf sz = (True, dec s2, blit buf 0 bs)"
    for s s1 s2
    using that max buf by (auto simp: xdr_bytes_def not_less xdr_opaque_def [of "dec s1" buf 0] split: prod.splits)
qed (auto simp: xdr_bytes_def)

lemma decodes_xdr_netobj:
  assumes "length bs = unat sz" "sz \<le> 1024" "alloc sz = Some buf" "length buf = unat sz"
    and "n_bytes np0 = None"
  shows "decodes (xdr_netobj alloc) np0 (xdr_be sz @ xdr_padded bs)
    \<lparr>n_len = sz, n_bytes = (if sz = 0 then None else Some bs)\<rparr>"
proof -
  have "blit buf 0 bs = bs"
    using assms by (simp add: blit_def)
  then show ?thesis
    using assms by (intro decodes_via [OF decodes_xdr_bytes [OF assms(1,2), of alloc None buf "n_len np0"]])
      (auto simp: xdr_netobj_def)
qed

lemma decodes_xdr_string:
  assumes len: "length bs = unat sz" and max: "sz \<le> maxsize" and top: "sz + 1 \<noteq> 0"
    and buf: "(case p of None \<Rightarrow> alloc (sz + 1) | Some buf \<Rightarrow> Some buf) = Some buf"
    and room: "unat sz < length buf"
  shows "decodes (\<lambda>x v. xdr_string alloc x v maxsize) p (xdr_be sz @ xdr_padded bs)
    (Some (blit (buf[unat sz := 0]) 0 bs))"
  by (rule decodes_then [OF decodes_xdr_u_int [of 0 sz] decodes_xdr_opaque [OF len, of "buf[unat sz := 0]"]])
    (use max top buf in \<open>auto simp: xdr_string_def not_less Let_def split: prod.splits\<close>)

lemma decodes_xdr_string_fresh:
  assumes "length bs = unat sz" "sz \<le> maxsize" "sz + 1 \<noteq> 0" "alloc (sz + 1) = Some buf"
    and "length buf = unat (sz + 1)"
  shows "decodes (\<lambda>x v. xdr_string alloc x v maxsize) None (xdr_be sz @ xdr_padded bs) (Some (bs @ [0]))"
proof -
  have "unat (sz + 1) = Suc (unat sz)"
    using assms(3) by (simp add: unatSuc add.commute)
  then have "blit (buf[unat sz := 0]) 0 bs = bs @ [0]"
    using assms(1,5) by (simp add: blit_def drop_update_swap) (metis Cons_nth_drop_Suc drop_all lessI
        less_or_eq_imp_le list_update_code(2) length_drop)
  then show ?thesis
    using decodes_xdr_string [of bs sz maxsize alloc None buf] assms \<open>unat (sz + 1) = _\<close> by simp
qed

lemma decodes_string_fresh:
  assumes "allocates alloc" "length cs \<le> unat maxsize" "length cs < 2 ^ 32 - 1"
  shows "decodes (\<lambda>x p. xdr_string alloc x p maxsize) None (xdr_counted cs) (Some (cs @ [0]))"
proof -
  let ?n = "word_of_nat (length cs) :: u32"
  have n: "unat ?n = length cs"
    using assms(3) by (simp add: unat_word_of_nat_mod)
  moreover obtain buf where "alloc (?n + 1) = Some buf" "length buf = unat (?n + 1)"
    using assms(1) by (auto simp: allocates_def)
  ultimately show ?thesis
    unfolding xdr_counted_def
    using assms by (intro decodes_xdr_string_fresh [where buf = buf])
      (auto simp: word_le_nat_alt word_of_nat_Suc_ne_0)
qed

text \<open>A count above the protocol's maximum is refused before any byte of the body is read or
  any buffer is allocated.\<close>

lemma rejects_oversize:
  assumes s: "wf s" "avail s = xdr_be sz @ rest" and big: "maxsize < sz"
  shows "\<exists>s' sz'. xdr_bytes alloc (dec s) (p, sz0) maxsize = (False, dec s', p, sz') \<and> avail s' = rest"
    and "\<exists>s'. xdr_string alloc (dec s) p maxsize = (False, dec s', p) \<and> avail s' = rest"
    and "\<exists>s' sz'. xdr_array calloc (dec s) (q, sz0) maxsize elsize elproc = (False, dec s', q, sz') \<and>
           avail s' = rest"
  using decodes_ok [OF decodes_xdr_u_int s, of sz0] decodes_ok [OF decodes_xdr_u_int s, of 0] big
  by (auto simp: xdr_bytes_def xdr_string_def xdr_array_def)

subsection \<open>Unions, arrays and pointers\<close>

lemma decodes_xdr_union:
  assumes "find_arm choices dscm = Some proc \<or> find_arm choices dscm = None \<and> dfault = Some proc"
    and "decodes (as_filter proc) v0 bs v"
  shows "decodes (\<lambda>x v. xdr_union x v choices dfault) (dscm0, v0) (xdr_be dscm @ bs) (dscm, v)"
  by (rule decodes_then [OF decodes_xdr_enum [of dscm0 dscm] assms(2)])
    (use assms(1) in \<open>auto simp: as_filter_def xdr_union_def Let_def split: prod.splits\<close>)

lemma decodes_xdr_elements:
  assumes "list_all2 (\<lambda>v0 (bs, v). decodes (as_filter elproc) v0 bs v) vs0 bvs"
  shows "decodes (xdr_elements (length vs0) elproc) vs0 (concat (map fst bvs)) (map snd bvs)"
  using assms
proof (induction rule: list_all2_induct)
  case Nil
  then show ?case
    by (simp add: decodes_nothing)
next
  case (Cons v0 vs0 bv bvs)
  then have "decodes (as_filter elproc) v0 (fst bv) (snd bv)"
    by (simp add: case_prod_beta)
  from decodes_then [OF this Cons.IH, where h = "xdr_elements (length (v0 # vs0)) elproc"
      and u = "snd bv # map snd bvs"] show ?case
    by (auto simp: as_filter_def split: prod.splits)
qed

lemma decodes_xdr_vector:
  assumes "list_all2 (\<lambda>v0 (bs, v). decodes (as_filter elproc) v0 bs v) vs0 bvs" and "unat nelem = length vs0"
  shows "decodes (xdr_vector nelem elemsize elproc) vs0 (concat (map fst bvs)) (map snd bvs)"
proof -
  have "xdr_vector nelem elemsize elproc = xdr_elements (length vs0) elproc"
    by (simp add: fun_eq_iff xdr_vector_def assms(2))
  then show ?thesis
    by (simp add: decodes_xdr_elements [OF assms(1)])
qed

lemma decodes_xdr_array:
  assumes el: "list_all2 (\<lambda>v0 (bs, v). decodes (as_filter elproc) v0 bs v) vs0 bvs"
    and c: "unat c = length vs0" "c \<le> maxsize" "c \<le> LASTUNSIGNED div elsize"
    and target: "(case p of None \<Rightarrow> calloc c elsize | Some ts \<Rightarrow> Some ts) = Some vs0"
  shows "decodes (\<lambda>x v. xdr_array calloc x v maxsize elsize elproc) (p, c0)
    (xdr_be c @ concat (map fst bvs)) (if p = None \<and> c = 0 then None else Some (map snd bvs), c)"
proof (rule decodes_then [OF decodes_xdr_u_int [of c0 c] decodes_xdr_elements [OF el]])
  fix s s1 assume count: "xdr_u_int (dec s) c0 = (True, dec s1, c)"
  show "fst (xdr_array calloc (dec s) (p, c0) maxsize elsize elproc)
      = fst (xdr_elements (length vs0) elproc (dec s1) vs0)"
    using count c target by (cases p; cases "c = 0") (auto simp: xdr_array_def not_less split: prod.splits)
  show "xdr_array calloc (dec s) (p, c0) maxsize elsize elproc =
      (True, dec s2, if p = None \<and> c = 0 then None else Some (map snd bvs), c)"
    if "xdr_elements (length vs0) elproc (dec s1) vs0 = (True, dec s2, map snd bvs)" for s2
    using count c target that
    by (cases p; cases "c = 0") (auto simp: xdr_array_def not_less split: prod.splits)
qed (auto simp: xdr_array_def)

lemma decodes_xdr_reference:
  assumes "decodes (as_filter proc) v0 bs v"
    and "(if p = None then calloc 1 sz else p) = Some v0"
  shows "decodes (\<lambda>x p. xdr_reference calloc x p sz proc) p bs (Some v)"
  by (rule decodes_via [OF assms(1)])
    (use assms(2) in \<open>cases p; auto simp: as_filter_def xdr_reference_def split: prod.splits\<close>)+

lemma decodes_xdr_pointer_Some:
  assumes "decodes (as_filter proc) v0 bs v"
    and "(if p = None then calloc 1 sz else p) = Some v0"
  shows "decodes (\<lambda>x p. xdr_pointer calloc x p sz proc) p (xdr_be 1 @ bs) (Some v)"
proof (rule decodes_then [OF _ decodes_xdr_reference [OF assms(1), where calloc = calloc and sz = sz]])
  show "(if p = None then calloc 1 sz else p) = Some v0"
    by (rule assms(2))
  show "decodes xdr_bool (if p \<noteq> None then 1 else 0) (xdr_be 1) 1"
    using decodes_xdr_bool [of _ 1] by simp
qed (auto simp: xdr_pointer_def Let_def split: prod.splits)

lemma decodes_xdr_pointer_None:
  "decodes (\<lambda>x p. xdr_pointer calloc x p sz proc) p (xdr_be 0) None"
proof (rule decodes_via)
  show "decodes xdr_bool (if p \<noteq> None then 1 else 0) (xdr_be 0) 0"
    using decodes_xdr_bool [of _ 0] by simp
qed (auto simp: xdr_pointer_def)

subsection \<open>Structures\<close>

lemma decodes_member:
  assumes "decodes f (get r0) bs v"
  shows "decodes (member get upd f) r0 bs (upd (\<lambda>_. v) r0)"
  by (rule decodes_via [OF assms]) (auto simp: member_def)

lemma decodes_and_then:
  assumes "decodes f r0 as r1" "decodes g r1 bs r2"
  shows "decodes (and_then f g) r0 (as @ bs) r2"
  using assms by (rule decodes_then) (auto simp: and_then_def)

lemma decodes_member_eq:
  assumes "decodes f (get r0) bs v" "upd (\<lambda>_. v) r0 = r"
  shows "decodes (member get upd f) r0 bs r"
  using decodes_member [where get = get and upd = upd, OF assms(1)] assms(2) by simp

lemma decodes_member_then:
  assumes "decodes f (get r0) as v" "decodes g (upd (\<lambda>_. v) r0) bs r"
  shows "decodes (and_then (member get upd f) g) r0 (as @ bs) r"
  using decodes_member [where get = get and upd = upd, OF assms(1)] assms(2) by (rule decodes_and_then)

lemma decodes_holds: "p r \<Longrightarrow> decodes (holds p) r [] r"
  by (rule decodes_nothing) (simp add: holds_def)

lemma decodes_cong:
  assumes "decodes g v0 bs v" and "\<And>x. f x v0 = g x v0"
  shows "decodes f v0 bs v"
  using assms by (simp add: decodes_def)

end

text \<open>A source whose getlong extends the sign, as every stream must for xdr_long to restore a
  negative value.\<close>

locale xdr_signed_source = xdr_source +
  assumes widen_signed: "widen w = scast w"
begin

lemma decodes_xdr_long:
  assumes "scast (ucast v :: u32) = v"
  shows "decodes xdr_long v0 (xdr_be (ucast v)) v"
  using assms
  by (intro decodes_via [OF decodes_getlong [of v0 "ucast v"]]) (auto simp: xdr_long_def widen_signed)

end

end
