(* ===== verification/Xdr_Mem.thy ===== *)
theory Xdr_Mem
  imports Xdr_Contract
begin

text \<open>
  The memory stream of sunrpc/xdr_mem.c. Its state is the byte-addressed memory of a 64-bit
  host together with the fields x_private (the next byte), x_base and x_handy (how many bytes
  are left) of the handle; address and count arithmetic wraps as in C. The stream is shown to
  satisfy the interfaces \<open>xdr_sink\<close> and \<open>xdr_signed_source\<close>, whence everything the filters
  write can be read back, in exactly the bytes RFC 4506 prescribes, and nothing outside the
  buffer changes.
\<close>

section \<open>Memory\<close>

type_synonym memory = "u64 \<Rightarrow> byte"

fun read_mem :: "memory \<Rightarrow> u64 \<Rightarrow> nat \<Rightarrow> byte list" where
  "read_mem m p 0 = []"
| "read_mem m p (Suc n) = m p # read_mem m (p + 1) n"

fun write_mem :: "memory \<Rightarrow> u64 \<Rightarrow> byte list \<Rightarrow> memory" where
  "write_mem m p [] = m"
| "write_mem m p (b # bs) = write_mem (m(p := b)) (p + 1) bs"

lemma length_read_mem [simp]: "length (read_mem m p n) = n"
  by (induction n arbitrary: p) simp_all

lemma read_mem_4: "read_mem m p 4 = [m p, m (p + 1), m (p + 2), m (p + 3)]"
proof -
  have "4 = Suc (Suc (Suc (Suc 0)))" by simp
  then show ?thesis
    unfolding \<open>4 = _\<close> by (simp add: add.assoc)
qed

lemma read_mem_add: "read_mem m p (a + b) = read_mem m p a @ read_mem m (p + of_nat a) b"
  by (induction a arbitrary: p) (simp_all add: algebra_simps)

lemma take_read_mem: "k \<le> n \<Longrightarrow> take k (read_mem m p n) = read_mem m p k"
  by (metis append_eq_conv_conj le_add_diff_inverse length_read_mem read_mem_add)

lemma drop_read_mem: "k \<le> n \<Longrightarrow> drop k (read_mem m p n) = read_mem m (p + of_nat k) (n - k)"
  by (metis append_eq_conv_conj le_add_diff_inverse length_read_mem read_mem_add)

lemma nth_read_mem: "i < n \<Longrightarrow> read_mem m p n ! i = m (p + of_nat i)"
  by (induction n arbitrary: p i) (auto simp: nth_Cons algebra_simps split: nat.split)

lemma write_mem_append:
  "write_mem m p (as @ bs) = write_mem (write_mem m p as) (p + of_nat (length as)) bs"
  by (induction as arbitrary: m p) (simp_all add: algebra_simps)

text \<open>What one address holds after a write, wrap-around of the address space included.\<close>

lemma write_mem_at:
  "length bs \<le> 2 ^ 64 \<Longrightarrow>
     write_mem m p bs q = (if unat (q - p) < length bs then bs ! unat (q - p) else m q)"
proof (induction bs arbitrary: m p)
  case Nil
  then show ?case by simp
next
  case (Cons b bs)
  show ?case
  proof (cases "q = p")
    case True
    have "unat (- 1 :: u64) = 2 ^ 64 - 1"
      by (simp add: unsigned_minus_1_eq_mask mask_eq_exp_minus_1)
    then have "unat (q - (p + 1)) = 2 ^ 64 - 1"
      using True by simp
    then show ?thesis
      using Cons True by simp
  next
    case False
    then have "q - p \<noteq> 0" by simp
    then have "unat (q - p - 1) = unat (q - p) - 1" "0 < unat (q - p)"
      by (simp_all add: unat_minus_one unat_gt_0)
    then have "unat (q - p) = Suc (unat (q - (p + 1)))"
      by (simp add: diff_diff_eq)
    then show ?thesis
      using Cons False by simp
  qed
qed

lemma read_write_mem:
  assumes "length bs \<le> 2 ^ 64"
  shows "read_mem (write_mem m p bs) p (length bs) = bs"
proof (rule nth_equalityI)
  fix i assume "i < length (read_mem (write_mem m p bs) p (length bs))"
  then have i: "i < length bs" by simp
  with assms have "unat (word_of_nat i :: u64) = i"
    by (simp add: unat_word_of_nat_mod)
  with i assms show "read_mem (write_mem m p bs) p (length bs) ! i = bs ! i"
    by (simp add: nth_read_mem write_mem_at)
qed simp

lemma write_mem_outside:
  "length bs \<le> n \<Longrightarrow> n \<le> unat (q - p) \<Longrightarrow> write_mem m p bs q = m q"
  using unsigned_less [of "q - p", where 'a = nat] by (subst write_mem_at) auto

section \<open>sunrpc/xdr_mem.c\<close>

record xdrmem =
  mem :: memory
  x_private :: u64
  x_base :: u64
  x_handy :: u32

definition xdrmem_destroy :: "xdrmem \<Rightarrow> xdrmem" where
  "xdrmem_destroy xdrs = xdrs"

definition xdrmem_getlong :: "xdrmem \<Rightarrow> u64 \<Rightarrow> bool \<times> xdrmem \<times> u64" where
  "xdrmem_getlong xdrs lp =
     (if x_handy xdrs < 4 then (False, xdrs, lp)
      else let xdrs = xdrs\<lparr>x_handy := x_handy xdrs - 4\<rparr>;
               lp = scast (bswap_32 (load32 (read_mem (mem xdrs) (x_private xdrs) 4)));
               xdrs = xdrs\<lparr>x_private := x_private xdrs + 4\<rparr>
           in (True, xdrs, lp))"

definition xdrmem_putlong :: "xdrmem \<Rightarrow> u64 \<Rightarrow> bool \<times> xdrmem" where
  "xdrmem_putlong xdrs lp =
     (if x_handy xdrs < 4 then (False, xdrs)
      else let xdrs = xdrs\<lparr>x_handy := x_handy xdrs - 4\<rparr>;
               xdrs = xdrs\<lparr>mem := write_mem (mem xdrs) (x_private xdrs) (store32 (bswap_32 (ucast lp)))\<rparr>;
               xdrs = xdrs\<lparr>x_private := x_private xdrs + 4\<rparr>
           in (True, xdrs))"

definition xdrmem_getbytes :: "xdrmem \<Rightarrow> byte list \<Rightarrow> u32 \<Rightarrow> bool \<times> xdrmem \<times> byte list" where
  "xdrmem_getbytes xdrs addr len =
     (if x_handy xdrs < len then (False, xdrs, addr)
      else let xdrs = xdrs\<lparr>x_handy := x_handy xdrs - len\<rparr>;
               addr = blit addr 0 (read_mem (mem xdrs) (x_private xdrs) (unat len));
               xdrs = xdrs\<lparr>x_private := x_private xdrs + ucast len\<rparr>
           in (True, xdrs, addr))"

definition xdrmem_putbytes :: "xdrmem \<Rightarrow> byte list \<Rightarrow> u32 \<Rightarrow> bool \<times> xdrmem" where
  "xdrmem_putbytes xdrs addr len =
     (if x_handy xdrs < len then (False, xdrs)
      else let xdrs = xdrs\<lparr>x_handy := x_handy xdrs - len\<rparr>;
               xdrs = xdrs\<lparr>mem := write_mem (mem xdrs) (x_private xdrs) (take (unat len) addr)\<rparr>;
               xdrs = xdrs\<lparr>x_private := x_private xdrs + ucast len\<rparr>
           in (True, xdrs))"

definition xdrmem_getpos :: "xdr_op \<Rightarrow> xdrmem \<Rightarrow> u32" where
  "xdrmem_getpos op xdrs = ucast (x_private xdrs - x_base xdrs)"

definition xdrmem_setpos :: "xdr_op \<Rightarrow> xdrmem \<Rightarrow> u32 \<Rightarrow> bool \<times> xdrmem" where
  "xdrmem_setpos op xdrs pos =
     (let newaddr = x_base xdrs + ucast pos;
          lastaddr = x_private xdrs + ucast (x_handy xdrs);
          handy = lastaddr - newaddr in
      if newaddr > lastaddr \<or> newaddr < x_base xdrs \<or> handy \<noteq> ucast (ucast handy :: u32)
      then (False, xdrs)
      else (True, xdrs\<lparr>x_private := newaddr, x_handy := ucast handy\<rparr>))"

definition xdrmem_inline :: "xdr_op \<Rightarrow> xdrmem \<Rightarrow> u32 \<Rightarrow> u64 option \<times> xdrmem" where
  "xdrmem_inline op xdrs len =
     (if x_handy xdrs \<ge> len
      then let xdrs = xdrs\<lparr>x_handy := x_handy xdrs - len\<rparr>;
               buf = x_private xdrs;
               xdrs = xdrs\<lparr>x_private := x_private xdrs + ucast len\<rparr>
           in (Some buf, xdrs)
      else (None, xdrs))"

definition xdrmem_getint32 :: "xdrmem \<Rightarrow> u32 \<Rightarrow> bool \<times> xdrmem \<times> u32" where
  "xdrmem_getint32 xdrs ip =
     (if x_handy xdrs < 4 then (False, xdrs, ip)
      else let xdrs = xdrs\<lparr>x_handy := x_handy xdrs - 4\<rparr>;
               ip = bswap_32 (load32 (read_mem (mem xdrs) (x_private xdrs) 4));
               xdrs = xdrs\<lparr>x_private := x_private xdrs + 4\<rparr>
           in (True, xdrs, ip))"

definition xdrmem_putint32 :: "xdrmem \<Rightarrow> u32 \<Rightarrow> bool \<times> xdrmem" where
  "xdrmem_putint32 xdrs ip =
     (if x_handy xdrs < 4 then (False, xdrs)
      else let xdrs = xdrs\<lparr>x_handy := x_handy xdrs - 4\<rparr>;
               xdrs = xdrs\<lparr>mem := write_mem (mem xdrs) (x_private xdrs) (store32 (bswap_32 ip))\<rparr>;
               xdrs = xdrs\<lparr>x_private := x_private xdrs + 4\<rparr>
           in (True, xdrs))"

definition xdrmem_ops :: "xdrmem xdr_ops" where
  "xdrmem_ops = \<lparr>x_getlong = xdrmem_getlong, x_putlong = xdrmem_putlong,
     x_getbytes = xdrmem_getbytes, x_putbytes = xdrmem_putbytes,
     x_getpostn = xdrmem_getpos, x_setpostn = xdrmem_setpos, x_inline = xdrmem_inline,
     x_destroy = xdrmem_destroy, x_getint32 = xdrmem_getint32, x_putint32 = xdrmem_putint32\<rparr>"

lemma xdrmem_ops_simps [simp]:
  "x_getlong xdrmem_ops = xdrmem_getlong" "x_putlong xdrmem_ops = xdrmem_putlong"
  "x_getbytes xdrmem_ops = xdrmem_getbytes" "x_putbytes xdrmem_ops = xdrmem_putbytes"
  "x_getpostn xdrmem_ops = xdrmem_getpos" "x_setpostn xdrmem_ops = xdrmem_setpos"
  "x_inline xdrmem_ops = xdrmem_inline" "x_destroy xdrmem_ops = xdrmem_destroy"
  "x_getint32 xdrmem_ops = xdrmem_getint32" "x_putint32 xdrmem_ops = xdrmem_putint32"
  by (simp_all add: xdrmem_ops_def)

definition xdrmem_create :: "memory \<Rightarrow> u64 \<Rightarrow> u32 \<Rightarrow> xdr_op \<Rightarrow> xdrmem XDR" where
  "xdrmem_create m addr sz op =
     \<lparr>x_op = op, x_ops = xdrmem_ops,
      x_stream = \<lparr>mem = m, x_private = addr, x_base = addr, x_handy = sz\<rparr>\<rparr>"

section \<open>The memory stream provides the stream interfaces\<close>

definition mem_room :: "xdrmem \<Rightarrow> nat \<Rightarrow> bool" where
  "mem_room s n \<longleftrightarrow> n \<le> unat (x_handy s)"

definition mem_advance :: "xdrmem \<Rightarrow> byte list \<Rightarrow> xdrmem" where
  "mem_advance s bs = s\<lparr>mem := write_mem (mem s) (x_private s) bs,
     x_private := x_private s + of_nat (length bs), x_handy := x_handy s - of_nat (length bs)\<rparr>"

definition mem_puts :: "xdrmem \<Rightarrow> byte list \<Rightarrow> xdrmem \<Rightarrow> bool" where
  "mem_puts s bs s' \<longleftrightarrow> mem_room s (length bs) \<and> s' = mem_advance s bs"

definition mem_avail :: "xdrmem \<Rightarrow> byte list" where
  "mem_avail s = read_mem (mem s) (x_private s) (unat (x_handy s))"

lemma mem_room_advance:
  assumes "mem_room s (length bs)"
  shows "unat (x_handy (mem_advance s bs)) = unat (x_handy s) - length bs"
proof -
  have "unat (of_nat (length bs) :: u32) = length bs"
    using assms unsigned_less [of "x_handy s", where 'a = nat] by (simp add: mem_room_def unat_word_of_nat_mod)
  then show ?thesis
    using assms by (simp add: mem_advance_def mem_room_def unat_sub word_le_nat_alt)
qed

lemma mem_advance_append:
  "mem_advance (mem_advance s as) bs = mem_advance s (as @ bs)"
  by (simp add: mem_advance_def write_mem_append algebra_simps)

lemma mem_avail_split:
  assumes "mem_avail s = bs @ rest"
  shows "length bs \<le> unat (x_handy s)"
    and "read_mem (mem s) (x_private s) (length bs) = bs"
    and "read_mem (mem s) (x_private s + of_nat (length bs)) (unat (x_handy s) - length bs) = rest"
proof -
  show le: "length bs \<le> unat (x_handy s)"
    using arg_cong [OF assms, of length] by (simp add: mem_avail_def)
  show "read_mem (mem s) (x_private s) (length bs) = bs"
    using arg_cong [OF assms, of "take (length bs)"] by (simp add: mem_avail_def take_read_mem le)
  show "read_mem (mem s) (x_private s + of_nat (length bs)) (unat (x_handy s) - length bs) = rest"
    using arg_cong [OF assms, of "drop (length bs)"] by (simp add: mem_avail_def drop_read_mem le)
qed

interpretation mem_out: xdr_sink xdrmem_ops "\<lambda>_. True" mem_puts mem_room
proof unfold_locales
  fix s s' s'' :: xdrmem and as bs :: "byte list" and n m :: nat and l :: u64 and len i :: u32
  show "mem_puts s [] s"
    by (simp add: mem_puts_def mem_room_def mem_advance_def)
  show "mem_puts s (as @ bs) s''" if "mem_puts s as s'" "mem_puts s' bs s''"
    using that mem_room_advance [of s as]
    by (auto simp: mem_puts_def mem_advance_append mem_room_def)
  show "mem_room s' n = mem_room s (length bs + n)" if "mem_puts s bs s'"
    using that mem_room_advance [of s bs] by (auto simp: mem_puts_def mem_room_def)
  show "\<exists>s'. x_putlong xdrmem_ops s l = (True, s') \<and> mem_puts s (xdr_be (ucast l)) s'" if "mem_room s 4"
    using that by (simp add: xdrmem_putlong_def mem_puts_def mem_room_def
        mem_advance_def store32_htonl word_less_nat_alt)
  show "\<exists>s'. x_putint32 xdrmem_ops s i = (True, s') \<and> mem_puts s (xdr_be i) s'" if "mem_room s 4"
    using that by (simp add: xdrmem_putint32_def mem_puts_def mem_room_def
        mem_advance_def store32_htonl word_less_nat_alt)
  show "\<exists>s'. x_putbytes xdrmem_ops s bs len = (True, s') \<and> mem_puts s (take (unat len) bs) s'"
    if "unat len \<le> length bs" "mem_room s (unat len)"
    using that by (auto simp: xdrmem_putbytes_def mem_puts_def mem_room_def
        mem_advance_def word_less_nat_alt min_absorb2)
qed (auto simp: mem_room_def xdrmem_putlong_def xdrmem_putint32_def xdrmem_putbytes_def
    word_less_nat_alt)

text \<open>Reading leaves memory and base alone, and the end of the buffer where it is: this is the
  well-formedness the reading interface carries along.\<close>

definition mem_at :: "memory \<Rightarrow> u64 \<Rightarrow> u64 \<Rightarrow> xdrmem \<Rightarrow> bool" where
  "mem_at m base limit s \<longleftrightarrow> mem s = m \<and> x_base s = base \<and> x_private s + ucast (x_handy s) = limit"

lemma mem_at_step:
  assumes "mem_at m base limit s" and "n \<le> x_handy s"
  shows "mem_at m base limit (s\<lparr>x_handy := x_handy s - n, x_private := x_private s + ucast n\<rparr>)"
proof -
  have "(ucast (x_handy s - n) :: u64) = ucast (x_handy s) - ucast n"
  proof (rule word_unat_eq_iff [THEN iffD2])
    have "(ucast n :: u64) \<le> ucast (x_handy s)"
      using assms(2) by (simp add: word_le_nat_alt)
    then show "unat (ucast (x_handy s - n) :: u64) = unat (ucast (x_handy s) - ucast n :: u64)"
      using assms(2) by (simp add: unat_sub)
  qed
  then show ?thesis
    using assms(1) by (simp add: mem_at_def)
qed

lemma mem_at_step4:
  assumes "mem_at m base limit s" and "4 \<le> x_handy s"
  shows "mem_at m base limit (s\<lparr>x_handy := x_handy s - 4, x_private := x_private s + 4\<rparr>)"
  using mem_at_step [OF assms] by simp

interpretation mem_in: xdr_signed_source xdrmem_ops "mem_at m base limit" mem_avail scast for m base limit
proof unfold_locales
  fix s :: xdrmem and bs rest buf :: "byte list" and l :: u64 and len i :: u32
  show "\<exists>s'. x_getlong xdrmem_ops s l = (True, s', scast (word_of_nat (be_val bs) :: u32)) \<and>
      mem_at m base limit s' \<and> mem_avail s' = rest"
    if wf: "mem_at m base limit s" and a: "mem_avail s = bs @ rest" "length bs = 4"
    using mem_at_step4 [OF wf] mem_avail_split [OF a(1)] bswap_32_load32 [OF a(2)] a(2)
    by (auto simp: xdrmem_getlong_def mem_avail_def word_less_nat_alt unat_sub word_le_nat_alt)
  show "\<exists>s'. x_getint32 xdrmem_ops s i = (True, s', word_of_nat (be_val bs)) \<and>
      mem_at m base limit s' \<and> mem_avail s' = rest"
    if wf: "mem_at m base limit s" and a: "mem_avail s = bs @ rest" "length bs = 4"
    using mem_at_step4 [OF wf] mem_avail_split [OF a(1)] bswap_32_load32 [OF a(2)] a(2)
    by (auto simp: xdrmem_getint32_def mem_avail_def word_less_nat_alt unat_sub word_le_nat_alt)
  show "\<exists>s'. x_getbytes xdrmem_ops s buf len = (True, s', blit buf 0 bs) \<and>
      mem_at m base limit s' \<and> mem_avail s' = rest"
    if wf: "mem_at m base limit s" and a: "mem_avail s = bs @ rest" "length bs = unat len"
    using mem_at_step [OF wf, of len] mem_avail_split [OF a(1)] a(2)
    by (auto simp: xdrmem_getbytes_def mem_avail_def word_less_nat_alt unat_sub word_le_nat_alt)
qed (auto simp: mem_avail_def xdrmem_getlong_def xdrmem_getint32_def xdrmem_getbytes_def
    word_less_nat_alt ucast_scast_32)

section \<open>Round trips through a memory buffer\<close>

text \<open>
  \<open>mem_roundtrip f v v0 bs\<close>: encoding \<open>v\<close> with the filter \<open>f\<close> into a buffer at any address
  succeeds exactly when the buffer has room for \<open>bs\<close>. Then the buffer starts with \<open>bs\<close>, the
  stream position is behind it, no other byte of memory has changed, decoding over the old
  contents \<open>v0\<close> yields \<open>v\<close> and stops at the same position, and decoding any proper prefix of
  the encoding fails.
\<close>

definition mem_roundtrip :: "(xdrmem, 'a) xdr_filter \<Rightarrow> 'a \<Rightarrow> 'a \<Rightarrow> byte list \<Rightarrow> bool" where
  "mem_roundtrip f v v0 bs \<longleftrightarrow> (\<forall>m addr sz.
     let (ok, x, v1) = f (xdrmem_create m addr sz XDR_ENCODE) v;
         m' = mem (x_stream x); n = length bs in
     (ok \<longleftrightarrow> n \<le> unat sz) \<and>
     (ok \<longrightarrow> v1 = v \<and> unat (XDR_GETPOS x) = n \<and> read_mem m' addr n = bs \<and>
        (\<forall>q. n \<le> unat (q - addr) \<longrightarrow> m' q = m q) \<and>
        (\<forall>k. n \<le> k \<and> k < 2 ^ 32 \<longrightarrow>
           (\<exists>x'. f (xdrmem_create m' addr (of_nat k) XDR_DECODE) v0 = (True, x', v) \<and>
                 XDR_GETPOS x' = XDR_GETPOS x \<and> mem (x_stream x') = m')) \<and>
        (\<forall>k<n. \<not> fst (f (xdrmem_create m' addr (of_nat k) XDR_DECODE) v0))))"

lemma mem_roundtripI:
  assumes enc: "mem_out.encodes f v bs"
    and dec: "\<And>m base limit. mem_in.decodes m base limit f v0 bs v"
  shows "mem_roundtrip f v v0 bs"
proof -
  have main: "let (ok, x, v1) = f (mem_out.enc s) v; m' = mem (x_stream x); n = length bs in
     (ok \<longleftrightarrow> n \<le> unat sz) \<and>
     (ok \<longrightarrow> v1 = v \<and> unat (XDR_GETPOS x) = n \<and> read_mem m' addr n = bs \<and>
        (\<forall>q. n \<le> unat (q - addr) \<longrightarrow> m' q = m q) \<and>
        (\<forall>k. n \<le> k \<and> k < 2 ^ 32 \<longrightarrow>
           (\<exists>x'. f (xdrmem_create m' addr (of_nat k) XDR_DECODE) v0 = (True, x', v) \<and>
                 XDR_GETPOS x' = XDR_GETPOS x \<and> mem (x_stream x') = m')) \<and>
        (\<forall>k<n. \<not> fst (f (xdrmem_create m' addr (of_nat k) XDR_DECODE) v0)))"
    if s: "s = \<lparr>mem = m, x_private = addr, x_base = addr, x_handy = sz\<rparr>" for s m addr sz
  proof (cases "length bs \<le> unat sz")
    case False
    then obtain x v' where "f (mem_out.enc s) v = (False, x, v')"
      using mem_out.encodes_full [OF enc, of s] by (auto simp: mem_room_def s)
    with False show ?thesis
      by simp
  next
    case True
    then obtain s1 where 1: "f (mem_out.enc s) v = (True, mem_out.enc s1, v)" and s1: "s1 = mem_advance s bs"
      using mem_out.encodes_ok [OF enc, of s] by (auto simp: mem_room_def s mem_puts_def)
    have small: "length bs < 2 ^ 32"
      using True unsigned_less [of sz, where 'a = nat] by simp
    let ?m = "mem s1" and ?n = "length bs"
    have m: "?m = write_mem m addr bs"
      by (simp add: s1 mem_advance_def s)
    have bytes: "read_mem ?m addr ?n = bs"
      using small by (simp add: m read_write_mem)
    have pos: "XDR_GETPOS (mem_out.enc s1) = of_nat ?n"
      by (simp add: XDR_GETPOS_def xdrmem_getpos_def s1 mem_advance_def s ucast_narrow_nat)
    let ?d = "\<lambda>k. \<lparr>mem = ?m, x_private = addr, x_base = addr, x_handy = of_nat k\<rparr>"
    have d: "xdrmem_create ?m addr (of_nat k) XDR_DECODE = mem_in.dec (?d k)"
        "mem_at ?m addr (addr + of_nat k) (?d k)" "mem_avail (?d k) = read_mem ?m addr k"
      if "k < 2 ^ 32" for k
      using that by (simp_all add: xdrmem_create_def mem_in.dec_def mem_at_def mem_avail_def
          unat_word_of_nat_mod ucast_widen_nat)
    have ok: "\<exists>x'. f (xdrmem_create ?m addr (of_nat k) XDR_DECODE) v0 = (True, x', v) \<and>
        XDR_GETPOS x' = of_nat ?n \<and> mem (x_stream x') = ?m" if k: "?n \<le> k" "k < 2 ^ 32" for k
    proof -
      have "mem_avail (?d k) = bs @ read_mem ?m (addr + of_nat ?n) (k - ?n)"
        using k read_mem_add [of ?m addr ?n "k - ?n"] bytes by (simp add: d(3))
      from mem_in.decodes_ok [OF dec d(2) [OF k(2)] this] obtain s2 where
        2: "f (mem_in.dec (?d k)) v0 = (True, mem_in.dec s2, v)" "mem_at ?m addr (addr + of_nat k) s2"
          "mem_avail s2 = read_mem ?m (addr + of_nat ?n) (k - ?n)"
        by auto
      have "unat (x_handy s2) = k - ?n"
        using arg_cong [OF 2(3), of length] by (simp add: mem_avail_def)
      then have "x_handy s2 = of_nat (k - ?n)"
        using k(2) by (simp add: word_unat_eq_iff unat_word_of_nat_mod)
      then have "(ucast (x_handy s2) :: u64) = of_nat (k - ?n)"
        using k(2) by (simp add: ucast_widen_nat)
      moreover have "x_private s2 = addr + of_nat k - ucast (x_handy s2)"
        using 2(2) by (simp add: mem_at_def eq_diff_eq)
      ultimately have "x_private s2 = addr + of_nat ?n"
        using k(1) by (simp add: of_nat_diff)
      then have "XDR_GETPOS (mem_in.dec s2) = of_nat ?n" "mem s2 = ?m"
        using 2(2) by (simp_all add: mem_at_def XDR_GETPOS_def xdrmem_getpos_def ucast_narrow_nat)
      with 2(1) show ?thesis
        using d(1) [OF k(2)] by auto
    qed
    have short: "\<not> fst (f (xdrmem_create ?m addr (of_nat k) XDR_DECODE) v0)" if k: "k < ?n" for k
    proof -
      have "read_mem ?m addr k = take k bs"
        using take_read_mem [of k ?n ?m addr] k by (simp add: bytes)
      then have "strict_prefix (mem_avail (?d k)) bs"
        using k small by (simp add: d(3) strict_prefix_def take_is_prefix)
      moreover have k32: "k < 2 ^ 32"
        using k small by simp
      ultimately have "\<exists>x v'. f (mem_in.dec (?d k)) v0 = (False, x, v')"
        by (intro mem_in.decodes_short [OF dec d(2)])
      then show ?thesis
        unfolding d(1) [OF k32] by auto
    qed
    have "unat (of_nat ?n :: u32) = ?n"
      using small by (simp add: unat_word_of_nat_mod)
    then show ?thesis
      using True small bytes ok short by (simp add: 1 pos m write_mem_outside)
  qed
  show ?thesis
    unfolding mem_roundtrip_def using main by (simp add: xdrmem_create_def mem_out.enc_def)
qed

text \<open>A filter and a value with a fixed external form on every memory stream, whatever the
  stream's position: the form the composite filters ask of the filters they call.\<close>

definition mem_codec :: "(xdrmem, 'a) xdr_filter \<Rightarrow> 'a \<Rightarrow> 'a \<Rightarrow> byte list \<Rightarrow> bool" where
  "mem_codec f v v0 bs \<longleftrightarrow>
     mem_out.encodes f v bs \<and> (\<forall>m base limit. mem_in.decodes m base limit f v0 bs v)"

lemma mem_codec_roundtrip: "mem_codec f v v0 bs \<Longrightarrow> mem_roundtrip f v v0 bs"
  by (simp add: mem_codec_def mem_roundtripI)

section \<open>Properties\<close>

text \<open>
  C15. xdr_string on a memory stream: a C string of at most maxsize characters is written as
  its length, its characters and the zero padding, and a decode from a null pointer allocates
  and restores exactly that string, terminator included.
\<close>

theorem xdr_string_mem_roundtrip:
  assumes "allocates alloc" "0 \<notin> set cs" "length cs \<le> unat maxsize" "length cs < 2 ^ 32 - 1"
  shows "mem_roundtrip (\<lambda>x p. xdr_string alloc x p maxsize) (Some (cs @ [0])) None (xdr_counted cs)"
proof (rule mem_roundtripI)
  show "mem_out.encodes (\<lambda>x p. xdr_string alloc x p maxsize) (Some (cs @ [0])) (xdr_counted cs)"
    using mem_out.encodes_xdr_string [of "cs @ [0]" maxsize alloc] assms by simp
qed (rule mem_in.decodes_string_fresh [OF assms(1,3,4)])

theorem xdr_string_mem_roundtrip_witness:
  "mem_roundtrip (\<lambda>x p. xdr_string (\<lambda>n. Some (replicate (unat n) 7)) x p 5)
     (Some [104, 105, 0]) None (xdr_counted [104, 105])"
  using xdr_string_mem_roundtrip [of "\<lambda>n. Some (replicate (unat n) 7)" "[104, 105]" 5]
  by (simp add: allocates_def)

text \<open>
  C16. xdr_array of one or more strings on a memory stream: the count, then each string in order; a decode
  from a null array pointer allocates the array and every string and restores all of them.
\<close>

theorem xdr_array_of_strings_mem_roundtrip:
  assumes "allocates alloc" "callocates None calloc" "css \<noteq> []"
    and strings: "\<forall>cs\<in>set css. 0 \<notin> set cs \<and> length cs < 2 ^ 32 - 1"
    and c: "unat c = length css" "c \<le> maxsize" "c \<le> LASTUNSIGNED div 8"
  shows "mem_roundtrip (\<lambda>x v. xdr_array calloc x v maxsize 8 (\<lambda>x p _. xdr_wrapstring alloc x p))
     (Some (map (\<lambda>cs. Some (cs @ [0])) css), c) (None, c0) (xdr_be c @ concat (map xdr_counted css))"
proof (rule mem_roundtripI)
  let ?el = "\<lambda>x p (_::u32). xdr_wrapstring alloc x p"
  have el: "as_filter ?el = xdr_wrapstring alloc"
    by (simp add: fun_eq_iff as_filter_def)
  have top: "unat LASTUNSIGNED = 2 ^ 32 - 1"
    by (simp add: unsigned_minus_1_eq_mask mask_eq_exp_minus_1)
  have "list_all2 (mem_out.encodes (as_filter ?el)) (map (\<lambda>cs. Some (cs @ [0])) css) (map xdr_counted css)"
    unfolding el list_all2_conv_all_nth
  proof (intro conjI allI impI)
    fix i assume "i < length (map (\<lambda>cs. Some (cs @ [0])) css)"
    then show "mem_out.encodes (xdr_wrapstring alloc) (map (\<lambda>cs. Some (cs @ [0])) css ! i) (map xdr_counted css ! i)"
      using strings mem_out.encodes_xdr_wrapstring [of "css ! i @ [0]" alloc] by simp
  qed simp
  from mem_out.encodes_xdr_array [OF this, of c maxsize 8 calloc] c
  show "mem_out.encodes (\<lambda>x v. xdr_array calloc x v maxsize 8 ?el)
      (Some (map (\<lambda>cs. Some (cs @ [0])) css), c) (xdr_be c @ concat (map xdr_counted css))"
    by simp
  fix m base limit
  let ?bvs = "map (\<lambda>cs. (xdr_counted cs, Some (cs @ [0]))) css"
  have "mem_in.decodes m base limit (xdr_wrapstring alloc) None (xdr_counted cs) (Some (cs @ [0]))"
    if "cs \<in> set css" for cs
    unfolding xdr_wrapstring_eq using that strings top by (intro mem_in.decodes_string_fresh [OF assms(1)]) auto
  then have "list_all2 (\<lambda>v0 (bs, v). mem_in.decodes m base limit (as_filter ?el) v0 bs v)
      (replicate (length css) None) ?bvs"
    by (simp add: list_all2_conv_all_nth el)
  moreover have "c \<noteq> 0"
    using c(1) assms(3) by auto
  ultimately show "mem_in.decodes m base limit (\<lambda>x v. xdr_array calloc x v maxsize 8 ?el) (None, c0)
      (xdr_be c @ concat (map xdr_counted css)) (Some (map (\<lambda>cs. Some (cs @ [0])) css), c)"
    using mem_in.decodes_xdr_array [where elproc = ?el and bvs = ?bvs and c = c and maxsize = maxsize
        and elsize = 8 and p = None and calloc = calloc] c assms(2)
    by (auto simp: callocates_def comp_def)
qed

theorem xdr_array_of_strings_mem_roundtrip_witness:
  "mem_roundtrip (\<lambda>x v. xdr_array (\<lambda>n _. Some (replicate (unat n) None)) x v 9 8
       (\<lambda>x p _. xdr_wrapstring (\<lambda>n. Some (replicate (unat n) 7)) x p))
     (Some [Some [65, 0], Some [0]], 2) (None, 0) (xdr_be 2 @ concat (map xdr_counted [[65], []]))"
  using xdr_array_of_strings_mem_roundtrip
    [of "\<lambda>n. Some (replicate (unat n) 7)" "\<lambda>n _. Some (replicate (unat n) None)" "[[65], []]" 2 9 0]
  by (simp add: allocates_def callocates_def)

text \<open>
  xdr_bytes on a memory stream: any byte block of at most maxsize bytes, zeros included,
  is restored with its count. A decode of an empty block leaves the null pointer in place.
\<close>

theorem xdr_bytes_mem_roundtrip:
  assumes "allocates alloc" "unat sz = length bs" "sz \<le> maxsize" "bs \<noteq> []"
  shows "mem_roundtrip (\<lambda>x v. xdr_bytes alloc x v maxsize) (Some bs, sz) (None, sz0) (xdr_counted bs)"
proof (rule mem_roundtripI)
  have wire: "xdr_counted bs = xdr_be sz @ xdr_padded bs"
    unfolding xdr_counted_def assms(2) [symmetric] by simp
  show "mem_out.encodes (\<lambda>x v. xdr_bytes alloc x v maxsize) (Some bs, sz) (xdr_counted bs)"
    using mem_out.encodes_xdr_bytes [of sz bs maxsize alloc] assms by (simp add: wire)
  fix m base limit
  obtain buf where "alloc sz = Some buf" "length buf = unat sz"
    using assms(1) by (auto simp: allocates_def)
  moreover have "sz \<noteq> 0"
    using assms(2,4) by auto
  moreover have "blit buf 0 bs = bs"
    using assms(2) \<open>length buf = unat sz\<close> by (simp add: blit_def)
  ultimately show "mem_in.decodes m base limit (\<lambda>x v. xdr_bytes alloc x v maxsize) (None, sz0)
      (xdr_counted bs) (Some bs, sz)"
    using mem_in.decodes_xdr_bytes [of bs sz maxsize alloc None buf m base limit sz0] assms
    by (simp add: wire)
qed

theorem xdr_bytes_mem_roundtrip_witness:
  "mem_roundtrip (\<lambda>x v. xdr_bytes (\<lambda>n. Some (replicate (unat n) 7)) x v 4) (Some [0, 255, 0], 3) (None, 0)
     (xdr_counted [0, 255, 0])"
  using xdr_bytes_mem_roundtrip [of "\<lambda>n. Some (replicate (unat n) 7)" 3 "[0, 255, 0]" 4 0]
  by (simp add: allocates_def)

text \<open>
  The integer filters on a memory stream: every value of up to 32 bits is one big-endian
  unit, extended by sign or by zero as its type asks, every 64-bit value is two units, upper
  half first, whichever of the hyper and int64 filters writes or reads it, and all of them are
  restored, negative values included. xdr_long and xdr_u_long restore exactly the values that
  fit in 32 bits.
\<close>

theorem xdr_integers_mem_roundtrip:
  "mem_roundtrip xdr_int i i0 (xdr_be i) \<and> mem_roundtrip xdr_u_int i i0 (xdr_be i) \<and>
   mem_roundtrip xdr_enum i i0 (xdr_be i) \<and>
   mem_roundtrip xdr_int32_t i i0 (xdr_be i) \<and> mem_roundtrip xdr_uint32_t i i0 (xdr_be i) \<and>
   mem_roundtrip xdr_short h h0 (xdr_be (scast h)) \<and> mem_roundtrip xdr_u_short h h0 (xdr_be (ucast h)) \<and>
   mem_roundtrip xdr_int16_t h h0 (xdr_be (scast h)) \<and> mem_roundtrip xdr_uint16_t h h0 (xdr_be (ucast h)) \<and>
   mem_roundtrip xdr_char b b0 (xdr_be (scast b)) \<and> mem_roundtrip xdr_u_char b b0 (xdr_be (ucast b)) \<and>
   mem_roundtrip xdr_int8_t b b0 (xdr_be (scast b)) \<and> mem_roundtrip xdr_uint8_t b b0 (xdr_be (ucast b)) \<and>
   mem_roundtrip xdr_bool (if t then 1 else 0) i0 (xdr_be (if t then 1 else 0)) \<and>
   (\<forall>f \<in> {xdr_hyper, xdr_u_hyper, xdr_int64_t, xdr_uint64_t, xdr_longlong_t, xdr_u_longlong_t,
        xdr_quad_t, xdr_u_quad_t}.
      mem_roundtrip f q q0 (xdr_be (ucast (drop_bit 32 q)) @ xdr_be (ucast q))) \<and>
   (scast (ucast q :: u32) = q \<longrightarrow> mem_roundtrip xdr_long q q0 (xdr_be (ucast q))) \<and>
   (ucast (ucast q :: u32) = q \<longrightarrow> mem_roundtrip xdr_u_long q q0 (xdr_be (ucast q)))"
proof -
  have same: "xdr_longlong_t = xdr_hyper" "xdr_u_longlong_t = xdr_u_hyper"
      "xdr_quad_t = xdr_int64_t" "xdr_u_quad_t = xdr_uint64_t"
    by (simp_all add: fun_eq_iff xdr_longlong_t_def xdr_u_longlong_t_def xdr_quad_t_def xdr_u_quad_t_def)
  have bool: "mem_roundtrip xdr_bool (if t then 1 else 0) i0 (xdr_be (if t then 1 else 0))"
    using mem_out.encodes_xdr_bool [of "if t then 1 else 0"] mem_in.decodes_xdr_bool [of _ _ _ i0 "if t then 1 else 0"]
    by (intro mem_roundtripI) (auto split: if_splits)
  note enc = mem_out.encodes_xdr_int mem_out.encodes_xdr_u_int mem_out.encodes_xdr_enum
    mem_out.encodes_xdr_short mem_out.encodes_xdr_u_short mem_out.encodes_xdr_char
    mem_out.encodes_xdr_u_char mem_out.encodes_intXX mem_out.encodes_64
  note dec = mem_in.decodes_xdr_int mem_in.decodes_xdr_u_int mem_in.decodes_xdr_enum
    mem_in.decodes_xdr_short mem_in.decodes_xdr_u_short mem_in.decodes_xdr_char
    mem_in.decodes_xdr_u_char mem_in.decodes_intXX mem_in.decodes_hyper mem_in.decodes_int64
  have "mem_roundtrip f q q0 (xdr_be (ucast (drop_bit 32 q)) @ xdr_be (ucast q))"
    if "f \<in> {xdr_hyper, xdr_u_hyper, xdr_int64_t, xdr_uint64_t, xdr_longlong_t, xdr_u_longlong_t,
        xdr_quad_t, xdr_u_quad_t}" for f
    using that unfolding same by (auto intro: mem_roundtripI enc dec)
  moreover have "mem_roundtrip xdr_long q q0 (xdr_be (ucast q))" if "scast (ucast q :: u32) = q"
    using that by (intro mem_roundtripI mem_out.encodes_xdr_long mem_in.decodes_xdr_long)
  moreover have "mem_roundtrip xdr_u_long q q0 (xdr_be (ucast q))" if "ucast (ucast q :: u32) = q"
    using that by (intro mem_roundtripI mem_out.encodes_xdr_u_long mem_in.decodes_xdr_u_long)
  ultimately show ?thesis
    by (intro conjI bool mem_roundtripI enc dec) blast+
qed

theorem xdr_integers_mem_roundtrip_witness:
  "mem_roundtrip xdr_int (- 2) 0 (xdr_be (- 2)) \<and>
   mem_roundtrip xdr_quad_t (- 2) 0 (xdr_be (ucast (drop_bit 32 (- 2 :: u64))) @ xdr_be (ucast (- 2 :: u64))) \<and>
   mem_roundtrip xdr_long (- 2) 0 (xdr_be (ucast (- 2 :: u64)))"
  using xdr_integers_mem_roundtrip [of "- 2" 0 0 0 0 0 True "- 2" 0] by simp

text \<open>A memory stream over the buffer of \<open>sz\<close> bytes at \<open>addr\<close>, positioned at \<open>pos\<close>.\<close>

definition mem_stream :: "memory \<Rightarrow> u64 \<Rightarrow> u32 \<Rightarrow> u32 \<Rightarrow> xdrmem" where
  "mem_stream m addr sz pos =
     \<lparr>mem = m, x_private = addr + ucast pos, x_base = addr, x_handy = sz - pos\<rparr>"

text \<open>
  Repositioning a memory stream whose buffer does not wrap around the address space:
  getpos reports the position, setpos moves to any position inside the buffer, its end
  included, whatever the current one is, and refuses every other without changing the stream.
\<close>

theorem xdrmem_setpos_correct:
  assumes "pos \<le> sz" "unat addr + unat sz < 2 ^ 64"
  shows "xdrmem_getpos op (mem_stream m addr sz pos) = pos \<and>
    xdrmem_setpos op (mem_stream m addr sz pos) newpos =
      (if newpos \<le> sz then (True, mem_stream m addr sz newpos) else (False, mem_stream m addr sz pos))"
proof -
  have diff: "(ucast (sz - p) :: u64) = ucast sz - ucast p" if "p \<le> sz" for p
    using that by (simp add: word_unat_eq_iff unat_sub word_le_nat_alt)
  have limit: "addr + ucast pos + ucast (sz - pos) = addr + ucast sz"
    by (simp add: diff [OF assms(1)])
  have sum: "unat (addr + ucast p) = unat addr + unat p" if "p \<le> sz" for p :: u32
    using that assms(2) by (simp add: unat_add_mod word_le_nat_alt)
  have pos: "(ucast (ucast pos :: u64) :: u32) = pos"
    by (rule ucast_scast_32)
  show ?thesis
  proof (cases "newpos \<le> sz")
    case True
    have "addr + ucast newpos \<le> addr + ucast sz" "addr \<le> addr + ucast newpos"
      using True by (simp_all add: word_le_nat_alt sum)
    moreover have "addr + ucast sz - (addr + ucast newpos) = ucast (sz - newpos)"
      by (simp add: diff [OF True])
    moreover have "(ucast (ucast (sz - newpos) :: u64) :: u32) = sz - newpos"
      by (rule ucast_scast_32)
    ultimately show ?thesis
      using True pos
      unfolding xdrmem_getpos_def xdrmem_setpos_def mem_stream_def Let_def xdrmem.simps limit
      by (simp add: not_less)
  next
    case False
    have "addr + ucast newpos > addr + ucast sz \<or> addr + ucast newpos < addr"
    proof (cases "unat addr + unat newpos < 2 ^ 64")
      case True
      then have "unat (addr + ucast newpos) = unat addr + unat newpos"
        by (simp add: unat_add_mod)
      then show ?thesis
        using False by (simp add: word_less_nat_alt word_le_nat_alt sum)
    next
      case wrap: False
      have "unat (addr + ucast newpos) = unat addr + unat newpos - 2 ^ 64"
        using wrap unsigned_less [of addr, where 'a = nat] unsigned_less [of newpos, where 'a = nat]
        by (simp add: unat_add_mod le_mod_geq)
      then have "unat (addr + ucast newpos) < unat addr"
        using wrap unsigned_less [of addr, where 'a = nat] unsigned_less [of newpos, where 'a = nat] by simp
      then show ?thesis
        by (simp add: word_less_nat_alt)
    qed
    then show ?thesis
      using False pos
      unfolding xdrmem_getpos_def xdrmem_setpos_def mem_stream_def Let_def xdrmem.simps limit
      by auto
  qed
qed

theorem xdrmem_setpos_correct_witness:
  "xdrmem_getpos XDR_DECODE (mem_stream (\<lambda>_. 0) 4096 12 8) = 8 \<and>
   xdrmem_setpos XDR_DECODE (mem_stream (\<lambda>_. 0) 4096 12 8) 12 = (True, mem_stream (\<lambda>_. 0) 4096 12 12)"
  using xdrmem_setpos_correct [of 8 12 4096 XDR_DECODE "\<lambda>_. 0" 12] by simp

text \<open>
  C17. A counted object whose count exceeds the protocol's maximum is refused by xdr_bytes,
  xdr_string and xdr_array on a memory stream, right after the count: no body byte is read,
  nothing is allocated and the caller's pointer is left as it was, whatever follows in the
  input.
\<close>

theorem xdr_oversize_refused:
  assumes "mem_avail s = xdr_be sz @ rest" "maxsize < sz"
    and "xdrs = \<lparr>x_op = XDR_DECODE, x_ops = xdrmem_ops, x_stream = s\<rparr>"
  shows "\<exists>s'. mem_avail s' = rest \<and> mem s' = mem s \<and>
    (\<exists>n. xdr_bytes alloc xdrs (p, sz0) maxsize = (False, xdrs\<lparr>x_stream := s'\<rparr>, p, n)) \<and>
    xdr_string alloc xdrs p maxsize = (False, xdrs\<lparr>x_stream := s'\<rparr>, p) \<and>
    (\<exists>n. xdr_array calloc xdrs (q, sz0) maxsize elsize elproc = (False, xdrs\<lparr>x_stream := s'\<rparr>, q, n))"
proof -
  have wf: "mem_at (mem s) (x_base s) (x_private s + ucast (x_handy s)) s"
    by (simp add: mem_at_def)
  have dec: "xdrs = mem_in.dec s"
    by (simp add: assms(3) mem_in.dec_def)
  obtain s' where s': "\<And>n0. xdr_u_int xdrs n0 = (True, mem_in.dec s', sz)" "mem_avail s' = rest" "mem s' = mem s"
    using mem_in.decodes_ok [OF mem_in.decodes_getlong [of _ _ _ 0] wf assms(1)] dec
    by (auto simp: mem_at_def xdr_u_int_def ucast_scast_32)
  show ?thesis
    using s' assms(2) dec by (intro exI [of _ s']) (auto simp: xdr_bytes_def xdr_string_def xdr_array_def)
qed

theorem xdr_oversize_refused_witness:
  "\<exists>s'. mem_avail s' = [] \<and> mem s' = (\<lambda>_. 255) \<and>
    xdr_string (\<lambda>_. None) (xdrmem_create (\<lambda>_. 255) 64 4 XDR_DECODE) None 100 =
      (False, (xdrmem_create (\<lambda>_. 255) 64 4 XDR_DECODE)\<lparr>x_stream := s'\<rparr>, None)"
proof -
  have "mem_avail (mem_stream (\<lambda>_. 255) 64 4 0) = xdr_be (- 1) @ []"
    by (simp add: mem_avail_def mem_stream_def xdr_be_def be_bytes_def le_bytes_upto_8 read_mem_4
        unsigned_minus_1_eq_mask mask_eq_exp_minus_1)
  from xdr_oversize_refused [OF this, of 100 "xdrmem_create (\<lambda>_. 255) 64 4 XDR_DECODE" "\<lambda>_. None"
      None 0 "\<lambda>_ _. None" "None :: u32 list option" 4 "\<lambda>x v _. xdr_int x v"]
  show ?thesis
    by (auto simp: xdrmem_create_def mem_stream_def)
qed

text \<open>What xdr_free relies on for the filters it is handed down to: they leave x_op alone.\<close>

definition keeps_op :: "('s, 'a) xdrproc_t \<Rightarrow> bool" where
  "keeps_op proc \<longleftrightarrow> (\<forall>x v n. x_op (fst (snd (proc x v n))) = x_op x)"

lemma xdr_elements_keeps_op:
  assumes "keeps_op elproc"
  shows "x_op (fst (snd (xdr_elements n elproc x ts))) = x_op x"
proof (induction n arbitrary: x ts)
  case (Suc n)
  show ?case
  proof (cases ts)
    case (Cons t ts')
    obtain ok x' t' where e: "elproc x t LASTUNSIGNED = (ok, x', t')"
      by (rule prod_cases3)
    then have "x_op x' = x_op x"
      using assms unfolding keeps_op_def by (metis fst_conv snd_conv)
    then show ?thesis
      using Suc.IH [of x' ts'] e by (auto simp: Cons case_prod_beta)
  qed simp
qed simp

text \<open>
  C18. xdr_free releases what a decode allocated, whatever garbage the rest of its handle
  holds: byte blocks, strings of at most maxsize characters, arrays and referenced objects
  end up as null pointers. A string longer than maxsize is left allocated.
\<close>

theorem xdr_free_releases:
  assumes "keeps_op elproc"
  shows "xdr_free (\<lambda>x p. xdr_string alloc x p maxsize) ops s (Some sp) =
     (let n = word_of_nat (strlen sp) in if n \<le> maxsize \<and> n \<noteq> LASTUNSIGNED then None else Some sp) \<and>
   xdr_free (\<lambda>x v. xdr_bytes alloc x v maxsize) ops s (p, n) = (None, n) \<and>
   xdr_free (\<lambda>x v. xdr_array calloc x v maxsize elsize elproc) ops s (q, n) = (None, n) \<and>
   xdr_free (\<lambda>x v. xdr_reference calloc' x v elsize elproc) ops s r = None"
proof (intro conjI)
  let ?x = "\<lparr>x_op = XDR_FREE, x_ops = ops, x_stream = s\<rparr>"
  have top: "(n + 1 = 0) = (n = LASTUNSIGNED)" for n :: u32
    by (metis add.inverse_inverse add_diff_cancel_right' diff_0 eq_neg_iff_add_eq_0)
  show "xdr_free (\<lambda>x p. xdr_string alloc x p maxsize) ops s (Some sp) =
     (let n = word_of_nat (strlen sp) in if n \<le> maxsize \<and> n \<noteq> LASTUNSIGNED then None else Some sp)"
    by (auto simp: xdr_free_def xdr_string_def xdr_u_int_def Let_def top)
  show "xdr_free (\<lambda>x v. xdr_bytes alloc x v maxsize) ops s (p, n) = (None, n)"
    by (simp add: xdr_free_def xdr_bytes_def xdr_u_int_def)
  show "xdr_free (\<lambda>x v. xdr_array calloc x v maxsize elsize elproc) ops s (q, n) = (None, n)"
    using xdr_elements_keeps_op [OF assms, of "unat n" ?x "the q"]
    by (cases q) (auto simp: xdr_free_def xdr_array_def xdr_u_int_def split: prod.splits)
  show "xdr_free (\<lambda>x v. xdr_reference calloc' x v elsize elproc) ops s r = None"
    using assms by (cases r) (auto simp: keeps_op_def xdr_free_def xdr_reference_def case_prod_beta)
qed

theorem xdr_free_releases_witness:
  "xdr_free (\<lambda>x v. xdr_array (\<lambda>_ _. None) x v 9 4 (\<lambda>x v _. xdr_int x v)) xdrmem_ops
     (mem_stream (\<lambda>_. 0) 0 0 0) (Some [3, 4], 2) = (None, 2)"
proof -
  have "keeps_op (\<lambda>x v _. xdr_int x v)"
    by (auto simp: keeps_op_def xdr_int_def XDR_GETLONG_def XDR_PUTLONG_def
        split: xdr_op.split prod.split)
  from xdr_free_releases [OF this, where ops = xdrmem_ops and s = "mem_stream (\<lambda>_. 0) 0 0 0"
      and q = "Some [3, 4]" and n = 2 and maxsize = 9 and elsize = 4 and calloc = "\<lambda>_ _. None"]
  show ?thesis
    by simp
qed

end
