(* ===== verification/Rpc.thy ===== *)
theory Rpc
  imports Xdr_Mem
begin

text \<open>
  The messages of the RPC protocol: sunrpc/rpc_prot.c (authenticators, replies, call headers
  and the translation of a reply into a client error), sunrpc/rpc_cmsg.c (call messages, with
  their inline path), sunrpc/pmap_prot.c and pmap_prot2.c (portmapper mappings and lists of
  them) and sunrpc/authuxprot.c (Unix credentials).

  A C union is modelled with one field per member: the code never reads a member through
  another one. The inline path of xdr_callmsg works on raw memory, so that filter is modelled
  on memory streams; all others work on any stream.
\<close>

section \<open>Message structures\<close>

record opaque_auth =
  oa_flavor :: u32
  oa_base :: "byte list option"
  oa_length :: u32

record ('s, 'r) accepted_reply =
  ar_verf :: opaque_auth
  ar_stat :: u32
  ar_vers_low :: u64
  ar_vers_high :: u64
  ar_where :: 'r
  ar_proc :: "('s, 'r) xdr_filter"

record rejected_reply =
  rj_stat :: u32
  rj_vers_low :: u64
  rj_vers_high :: u64
  rj_why :: u32

record ('s, 'r) reply_ru =
  RP_ar :: "('s, 'r) accepted_reply"
  RP_dr :: rejected_reply

record ('s, 'r) reply_body =
  rp_stat :: u32
  rp_ru :: "('s, 'r) reply_ru"

record call_body =
  cb_rpcvers :: u64
  cb_prog :: u64
  cb_vers :: u64
  cb_proc :: u64
  cb_cred :: opaque_auth
  cb_verf :: opaque_auth

record ('s, 'r) rpc_msg =
  rm_xid :: u64
  rm_direction :: u32
  rm_call :: call_body
  rm_reply :: "('s, 'r) reply_body"

abbreviation (input) CALL :: u32 where "CALL \<equiv> 0"
abbreviation (input) REPLY :: u32 where "REPLY \<equiv> 1"
abbreviation (input) MSG_ACCEPTED :: u32 where "MSG_ACCEPTED \<equiv> 0"
abbreviation (input) MSG_DENIED :: u32 where "MSG_DENIED \<equiv> 1"
abbreviation (input) SUCCESS :: u32 where "SUCCESS \<equiv> 0"
abbreviation (input) PROG_UNAVAIL :: u32 where "PROG_UNAVAIL \<equiv> 1"
abbreviation (input) PROG_MISMATCH :: u32 where "PROG_MISMATCH \<equiv> 2"
abbreviation (input) PROC_UNAVAIL :: u32 where "PROC_UNAVAIL \<equiv> 3"
abbreviation (input) GARBAGE_ARGS :: u32 where "GARBAGE_ARGS \<equiv> 4"
abbreviation (input) SYSTEM_ERR :: u32 where "SYSTEM_ERR \<equiv> 5"
abbreviation (input) RPC_MISMATCH :: u32 where "RPC_MISMATCH \<equiv> 0"
abbreviation (input) AUTH_ERROR :: u32 where "AUTH_ERROR \<equiv> 1"
abbreviation (input) RPC_MSG_VERSION :: u64 where "RPC_MSG_VERSION \<equiv> 2"
abbreviation (input) MAX_AUTH_BYTES :: u32 where "MAX_AUTH_BYTES \<equiv> 400"

section \<open>sunrpc/rpc_prot.c: filters\<close>

definition xdr_opaque_auth :: "(u32 \<Rightarrow> byte list option) \<Rightarrow> ('s, opaque_auth) xdr_filter" where
  "xdr_opaque_auth alloc =
     and_then (member oa_flavor oa_flavor_update xdr_enum)
       (\<lambda>xdrs ap. let (ok, xdrs, base, len) = xdr_bytes alloc xdrs (oa_base ap, oa_length ap) MAX_AUTH_BYTES
          in (ok, xdrs, ap\<lparr>oa_base := base, oa_length := len\<rparr>))"

definition xdr_des_block :: "('s, byte list) xdr_filter" where
  "xdr_des_block xdrs blkp = xdr_opaque xdrs blkp 8"

definition xdr_accepted_reply :: "(u32 \<Rightarrow> byte list option) \<Rightarrow> ('s, ('s, 'r) accepted_reply) xdr_filter" where
  "xdr_accepted_reply alloc =
     and_then (member ar_verf ar_verf_update (xdr_opaque_auth alloc))
     (and_then (member ar_stat ar_stat_update xdr_enum)
       (\<lambda>xdrs ar.
          if ar_stat ar = SUCCESS then member ar_where ar_where_update (ar_proc ar) xdrs ar
          else if ar_stat ar = PROG_MISMATCH then
            and_then (member ar_vers_low ar_vers_low_update xdr_u_long)
              (member ar_vers_high ar_vers_high_update xdr_u_long) xdrs ar
          else (True, xdrs, ar)))"

definition xdr_rejected_reply :: "('s, rejected_reply) xdr_filter" where
  "xdr_rejected_reply =
     and_then (member rj_stat rj_stat_update xdr_enum)
       (\<lambda>xdrs rr.
          if rj_stat rr = RPC_MISMATCH then
            and_then (member rj_vers_low rj_vers_low_update xdr_u_long)
              (member rj_vers_high rj_vers_high_update xdr_u_long) xdrs rr
          else if rj_stat rr = AUTH_ERROR then member rj_why rj_why_update xdr_enum xdrs rr
          else (False, xdrs, rr))"

definition reply_dscrm :: "(u32 \<Rightarrow> byte list option) \<Rightarrow> ('s, ('s, 'r) reply_ru) xdr_discrim list" where
  "reply_dscrm alloc =
     [\<lparr>dvalue = MSG_ACCEPTED, dproc = \<lambda>xdrs ru _. member RP_ar RP_ar_update (xdr_accepted_reply alloc) xdrs ru\<rparr>,
      \<lparr>dvalue = MSG_DENIED, dproc = \<lambda>xdrs ru _. member RP_dr RP_dr_update xdr_rejected_reply xdrs ru\<rparr>]"

definition xdr_replymsg :: "(u32 \<Rightarrow> byte list option) \<Rightarrow> ('s, ('s, 'r) rpc_msg) xdr_filter" where
  "xdr_replymsg alloc =
     and_then (member rm_xid rm_xid_update xdr_u_long)
     (and_then (member rm_direction rm_direction_update xdr_enum)
     (and_then (holds (\<lambda>rmsg. rm_direction rmsg = REPLY))
       (\<lambda>xdrs rmsg.
          let (ok, xdrs, stat, ru) = xdr_union xdrs (rp_stat (rm_reply rmsg), rp_ru (rm_reply rmsg))
                (reply_dscrm alloc) None
          in (ok, xdrs, rmsg\<lparr>rm_reply := \<lparr>rp_stat = stat, rp_ru = ru\<rparr>\<rparr>))))"

definition xdr_callhdr :: "('s, ('s, 'r) rpc_msg) xdr_filter" where
  "xdr_callhdr xdrs cmsg =
     (let cmsg = cmsg\<lparr>rm_direction := CALL\<rparr>;
          cmsg = cmsg\<lparr>rm_call := (rm_call cmsg)\<lparr>cb_rpcvers := RPC_MSG_VERSION\<rparr>\<rparr> in
      if x_op xdrs = XDR_ENCODE
      then and_then (member rm_xid rm_xid_update xdr_u_long)
          (and_then (member rm_direction rm_direction_update xdr_enum)
          (and_then (member rm_call rm_call_update (member cb_rpcvers cb_rpcvers_update xdr_u_long))
          (and_then (member rm_call rm_call_update (member cb_prog cb_prog_update xdr_u_long))
            (member rm_call rm_call_update (member cb_vers cb_vers_update xdr_u_long))))) xdrs cmsg
      else (False, xdrs, cmsg))"

section \<open>sunrpc/rpc_prot.c: errors of a reply\<close>

datatype clnt_stat = RPC_SUCCESS | RPC_CANTENCODEARGS | RPC_CANTDECODERES | RPC_CANTSEND
  | RPC_CANTRECV | RPC_TIMEDOUT | RPC_VERSMISMATCH | RPC_AUTHERROR | RPC_PROGUNAVAIL
  | RPC_PROGVERSMISMATCH | RPC_PROCUNAVAIL | RPC_CANTDECODEARGS | RPC_SYSTEMERROR
  | RPC_NOBROADCAST | RPC_UNKNOWNHOST | RPC_UNKNOWNPROTO | RPC_UNKNOWNADDR | RPC_RPCBFAILURE
  | RPC_PROGNOTREGISTERED | RPC_N2AXLATEFAILURE | RPC_FAILED | RPC_INTR | RPC_TLIERROR
  | RPC_UDERROR | RPC_INPROGRESS | RPC_STALERACHANDLE

record rpc_err =
  re_status :: clnt_stat
  re_why :: u32
  re_vers_low :: u64
  re_vers_high :: u64
  re_lb_s1 :: u64
  re_lb_s2 :: u64

definition accepted :: "u32 \<Rightarrow> rpc_err \<Rightarrow> rpc_err" where
  "accepted acpt_stat error =
     (if acpt_stat = PROG_UNAVAIL then error\<lparr>re_status := RPC_PROGUNAVAIL\<rparr>
      else if acpt_stat = PROG_MISMATCH then error\<lparr>re_status := RPC_PROGVERSMISMATCH\<rparr>
      else if acpt_stat = PROC_UNAVAIL then error\<lparr>re_status := RPC_PROCUNAVAIL\<rparr>
      else if acpt_stat = GARBAGE_ARGS then error\<lparr>re_status := RPC_CANTDECODEARGS\<rparr>
      else if acpt_stat = SYSTEM_ERR then error\<lparr>re_status := RPC_SYSTEMERROR\<rparr>
      else if acpt_stat = SUCCESS then error\<lparr>re_status := RPC_SUCCESS\<rparr>
      else error\<lparr>re_status := RPC_FAILED, re_lb_s1 := ucast MSG_ACCEPTED, re_lb_s2 := ucast acpt_stat\<rparr>)"

definition rejected :: "u32 \<Rightarrow> rpc_err \<Rightarrow> rpc_err" where
  "rejected rjct_stat error =
     (if rjct_stat = RPC_MISMATCH then error\<lparr>re_status := RPC_VERSMISMATCH\<rparr>
      else if rjct_stat = AUTH_ERROR then error\<lparr>re_status := RPC_AUTHERROR\<rparr>
      else error\<lparr>re_status := RPC_FAILED, re_lb_s1 := ucast MSG_DENIED, re_lb_s2 := ucast rjct_stat\<rparr>)"

definition seterr_versions :: "('s, 'r) rpc_msg \<Rightarrow> rpc_err \<Rightarrow> rpc_err" where
  "seterr_versions msg error = (let ru = rp_ru (rm_reply msg) in
     case re_status error of
       RPC_VERSMISMATCH \<Rightarrow> error\<lparr>re_vers_low := rj_vers_low (RP_dr ru), re_vers_high := rj_vers_high (RP_dr ru)\<rparr>
     | RPC_AUTHERROR \<Rightarrow> error\<lparr>re_why := rj_why (RP_dr ru)\<rparr>
     | RPC_PROGVERSMISMATCH \<Rightarrow>
         error\<lparr>re_vers_low := ar_vers_low (RP_ar ru), re_vers_high := ar_vers_high (RP_ar ru)\<rparr>
     | _ \<Rightarrow> error)"

definition seterr_reply :: "('s, 'r) rpc_msg \<Rightarrow> rpc_err \<Rightarrow> rpc_err" where
  "seterr_reply msg error = (let reply = rm_reply msg; ru = rp_ru reply in
     if rp_stat reply = MSG_ACCEPTED then
       if ar_stat (RP_ar ru) = SUCCESS then error\<lparr>re_status := RPC_SUCCESS\<rparr>
       else seterr_versions msg (accepted (ar_stat (RP_ar ru)) error)
     else if rp_stat reply = MSG_DENIED then seterr_versions msg (rejected (rj_stat (RP_dr ru)) error)
     else seterr_versions msg (error\<lparr>re_status := RPC_FAILED, re_lb_s1 := ucast (rp_stat reply)\<rparr>))"

section \<open>sunrpc/pmap_prot.c and pmap_prot2.c\<close>

record pmap =
  pm_prog :: u64
  pm_vers :: u64
  pm_prot :: u64
  pm_port :: u64

definition xdr_pmap :: "('s, pmap) xdr_filter" where
  "xdr_pmap =
     and_then (member pm_prog pm_prog_update xdr_u_long)
     (and_then (member pm_vers pm_vers_update xdr_u_long)
     (and_then (member pm_prot pm_prot_update xdr_u_long)
       (member pm_port pm_port_update xdr_u_long)))"

text \<open>A pmaplist is the list of the mappings that hang off \<open>*rp\<close>. Each turn of the loop of
  xdr_pmaplist handles one node. The fuel bounds the number of turns: a decode follows what
  the stream says, so only the stream can bound it; \<open>None\<close> is a loop cut short.\<close>

fun xdr_pmaplist ::
  "nat \<Rightarrow> (u32 \<Rightarrow> u32 \<Rightarrow> pmap option) \<Rightarrow> 's XDR \<Rightarrow> pmap list \<Rightarrow> ('s, pmap list) xdr_result option" where
  "xdr_pmaplist 0 calloc xdrs rp = None"
| "xdr_pmaplist (Suc fuel) calloc xdrs rp =
     (let more_elements = (if rp \<noteq> [] then 1 else 0);
          (ok, xdrs, more_elements) = xdr_bool xdrs more_elements in
      if \<not> ok then Some (False, xdrs, rp)
      else if more_elements = 0 then Some (True, xdrs, rp)
      else let freeing = (x_op xdrs = XDR_FREE);
               (hd, nxt) = (case rp of [] \<Rightarrow> (None, []) | m # ms \<Rightarrow> (Some m, ms));
               (ok, xdrs, hd) = xdr_reference calloc xdrs hd 40 (\<lambda>x v _. xdr_pmap x v) in
      if \<not> ok then Some (False, xdrs, (case hd of None \<Rightarrow> [] | Some m \<Rightarrow> m # nxt))
      else map_option (\<lambda>(ok, xdrs, ms). (ok, xdrs, if freeing then [] else the hd # ms))
             (xdr_pmaplist fuel calloc xdrs nxt))"

section \<open>sunrpc/authuxprot.c\<close>

record authunix_parms =
  aup_time :: u64
  aup_machname :: "byte list option"
  aup_uid :: u32
  aup_gid :: u32
  aup_len :: u32
  aup_gids :: "u32 list option"

definition xdr_authunix_parms ::
  "(u32 \<Rightarrow> byte list option) \<Rightarrow> (u32 \<Rightarrow> u32 \<Rightarrow> u32 list option) \<Rightarrow> ('s, authunix_parms) xdr_filter" where
  "xdr_authunix_parms alloc calloc =
     and_then (member aup_time aup_time_update xdr_u_long)
     (and_then (member aup_machname aup_machname_update (\<lambda>x p. xdr_string alloc x p 255))
     (and_then (member aup_uid aup_uid_update xdr_u_int)
     (and_then (member aup_gid aup_gid_update xdr_u_int)
       (\<lambda>xdrs p. let (ok, xdrs, gids, len) = xdr_array calloc xdrs (aup_gids p, aup_len p) 16 4
                       (\<lambda>x v _. xdr_u_int x v)
          in (ok, xdrs, p\<lparr>aup_gids := gids, aup_len := len\<rparr>)))))"

section \<open>sunrpc/rpc_cmsg.c\<close>

text \<open>The inline macros of rpc/xdr.h: a cursor into memory.\<close>

definition RNDUP :: "u32 \<Rightarrow> u32" where
  "RNDUP x = (x + 4 - 1) AND NOT (4 - 1)"

definition IXDR_PUT_INT32 :: "u32 \<Rightarrow> memory \<times> u64 \<Rightarrow> memory \<times> u64" where
  "IXDR_PUT_INT32 v c = (write_mem (fst c) (snd c) (store32 (bswap_32 v)), snd c + 4)"

definition IXDR_PUT_LONG :: "u64 \<Rightarrow> memory \<times> u64 \<Rightarrow> memory \<times> u64" where
  "IXDR_PUT_LONG v c = IXDR_PUT_INT32 (ucast v) c"

definition IXDR_PUT_ENUM :: "u32 \<Rightarrow> memory \<times> u64 \<Rightarrow> memory \<times> u64" where
  "IXDR_PUT_ENUM v c = IXDR_PUT_LONG (scast v) c"

definition IXDR_GET_INT32 :: "memory \<Rightarrow> u64 \<Rightarrow> u32" where
  "IXDR_GET_INT32 m buf = bswap_32 (load32 (read_mem m buf 4))"

definition IXDR_GET_LONG :: "memory \<Rightarrow> u64 \<Rightarrow> u64" where
  "IXDR_GET_LONG m buf = ucast (IXDR_GET_INT32 m buf)"

definition IXDR_GET_ENUM :: "memory \<Rightarrow> u64 \<Rightarrow> u32" where
  "IXDR_GET_ENUM m buf = ucast (IXDR_GET_LONG m buf)"

text \<open>The body of an authenticator as the inline path copies it: the padding bytes keep what
  the buffer held.\<close>

definition inline_put_auth :: "opaque_auth \<Rightarrow> memory \<times> u64 \<Rightarrow> memory \<times> u64" where
  "inline_put_auth oa c =
     (let c = IXDR_PUT_ENUM (oa_flavor oa) c; c = IXDR_PUT_INT32 (oa_length oa) c in
      if oa_length oa \<noteq> 0
      then (write_mem (fst c) (snd c) (take (unat (oa_length oa)) (the (oa_base oa))),
            snd c + ucast (RNDUP (oa_length oa)))
      else c)"

definition inline_call :: "call_body \<Rightarrow> memory \<times> u64 \<Rightarrow> memory \<times> u64" where
  "inline_call cb c =
     inline_put_auth (cb_verf cb) (inline_put_auth (cb_cred cb)
       (IXDR_PUT_LONG (cb_proc cb) (IXDR_PUT_LONG (cb_vers cb) (IXDR_PUT_LONG (cb_prog cb) c))))"

definition set_mem :: "xdrmem XDR \<Rightarrow> memory \<times> u64 \<Rightarrow> xdrmem XDR" where
  "set_mem xdrs c = xdrs\<lparr>x_stream := (x_stream xdrs)\<lparr>mem := fst c\<rparr>\<rparr>"

definition callmsg_encode_inline :: "xdrmem XDR \<Rightarrow> u64 \<Rightarrow> (xdrmem, 'r) rpc_msg \<Rightarrow> bool \<times> xdrmem XDR" where
  "callmsg_encode_inline xdrs buf cmsg =
     (let c = (mem (x_stream xdrs), buf);
          c = IXDR_PUT_LONG (rm_xid cmsg) c;
          c = IXDR_PUT_ENUM (rm_direction cmsg) c in
      if rm_direction cmsg \<noteq> CALL then (False, set_mem xdrs c)
      else let c = IXDR_PUT_LONG (cb_rpcvers (rm_call cmsg)) c in
      if cb_rpcvers (rm_call cmsg) \<noteq> RPC_MSG_VERSION then (False, set_mem xdrs c)
      else (True, set_mem xdrs (inline_call (rm_call cmsg) c)))"

text \<open>The body of an authenticator in the inline decode path. The code does not check the
  result of mem_alloc; when it is null the copy through it is undefined, and the model fails.\<close>

definition inline_get_auth_body ::
  "(u32 \<Rightarrow> byte list option) \<Rightarrow> xdrmem XDR \<Rightarrow> opaque_auth \<Rightarrow> bool \<times> xdrmem XDR \<times> opaque_auth" where
  "inline_get_auth_body alloc xdrs oa =
     (if oa_length oa \<noteq> 0 then
        if oa_length oa > MAX_AUTH_BYTES then (False, xdrs, oa)
        else case (case oa_base oa of None \<Rightarrow> alloc (oa_length oa) | Some b \<Rightarrow> Some b) of
          None \<Rightarrow> (False, xdrs, oa)
        | Some base \<Rightarrow>
            let (buf, xdrs) = XDR_INLINE xdrs (RNDUP (oa_length oa)) in
            (case buf of
               None \<Rightarrow> let (ok, xdrs, base) = xdr_opaque xdrs base (oa_length oa) in
                 (ok, xdrs, oa\<lparr>oa_base := Some base\<rparr>)
             | Some p \<Rightarrow> (True, xdrs,
                 oa\<lparr>oa_base := Some (blit base 0 (read_mem (mem (x_stream xdrs)) p (unat (oa_length oa))))\<rparr>))
      else (True, xdrs, oa))"

definition inline_get_verf_head :: "xdrmem XDR \<Rightarrow> opaque_auth \<Rightarrow> bool \<times> xdrmem XDR \<times> opaque_auth" where
  "inline_get_verf_head xdrs oa =
     (let (buf, xdrs) = XDR_INLINE xdrs (2 * BYTES_PER_XDR_UNIT) in
      case buf of
        None \<Rightarrow> and_then (member oa_flavor oa_flavor_update xdr_enum)
                  (member oa_length oa_length_update xdr_u_int) xdrs oa
      | Some p \<Rightarrow> (True, xdrs, oa\<lparr>oa_flavor := IXDR_GET_ENUM (mem (x_stream xdrs)) p,
                      oa_length := IXDR_GET_INT32 (mem (x_stream xdrs)) (p + 4)\<rparr>))"

definition callmsg_decode_inline ::
  "(u32 \<Rightarrow> byte list option) \<Rightarrow> xdrmem XDR \<Rightarrow> u64 \<Rightarrow> (xdrmem, 'r) rpc_msg
     \<Rightarrow> (xdrmem, (xdrmem, 'r) rpc_msg) xdr_result" where
  "callmsg_decode_inline alloc xdrs buf cmsg =
     (let m = mem (x_stream xdrs);
          cmsg = cmsg\<lparr>rm_xid := IXDR_GET_LONG m buf, rm_direction := IXDR_GET_ENUM m (buf + 4)\<rparr> in
      if rm_direction cmsg \<noteq> CALL then (False, xdrs, cmsg)
      else let cb = (rm_call cmsg)\<lparr>cb_rpcvers := IXDR_GET_LONG m (buf + 8)\<rparr> in
      if cb_rpcvers cb \<noteq> RPC_MSG_VERSION then (False, xdrs, cmsg\<lparr>rm_call := cb\<rparr>)
      else let cb = cb\<lparr>cb_prog := IXDR_GET_LONG m (buf + 12), cb_vers := IXDR_GET_LONG m (buf + 16),
                 cb_proc := IXDR_GET_LONG m (buf + 20)\<rparr>;
               cred = (cb_cred cb)\<lparr>oa_flavor := IXDR_GET_ENUM m (buf + 24),
                 oa_length := IXDR_GET_INT32 m (buf + 28)\<rparr>;
               (ok, xdrs, cred) = inline_get_auth_body alloc xdrs cred;
               cb = cb\<lparr>cb_cred := cred\<rparr> in
      if \<not> ok then (False, xdrs, cmsg\<lparr>rm_call := cb\<rparr>)
      else let (ok, xdrs, verf) = inline_get_verf_head xdrs (cb_verf cb) in
      if \<not> ok then (False, xdrs, cmsg\<lparr>rm_call := cb\<lparr>cb_verf := verf\<rparr>\<rparr>)
      else let (ok, xdrs, verf) = inline_get_auth_body alloc xdrs verf in
           (ok, xdrs, cmsg\<lparr>rm_call := cb\<lparr>cb_verf := verf\<rparr>\<rparr>))"

definition callmsg_chain :: "(u32 \<Rightarrow> byte list option) \<Rightarrow> ('s, ('s, 'r) rpc_msg) xdr_filter" where
  "callmsg_chain alloc =
     and_then (member rm_xid rm_xid_update xdr_u_long)
     (and_then (member rm_direction rm_direction_update xdr_enum)
     (and_then (holds (\<lambda>cmsg. rm_direction cmsg = CALL))
     (and_then (member rm_call rm_call_update (member cb_rpcvers cb_rpcvers_update xdr_u_long))
     (and_then (holds (\<lambda>cmsg. cb_rpcvers (rm_call cmsg) = RPC_MSG_VERSION))
     (and_then (member rm_call rm_call_update (member cb_prog cb_prog_update xdr_u_long))
     (and_then (member rm_call rm_call_update (member cb_vers cb_vers_update xdr_u_long))
     (and_then (member rm_call rm_call_update (member cb_proc cb_proc_update xdr_u_long))
     (and_then (member rm_call rm_call_update (member cb_cred cb_cred_update (xdr_opaque_auth alloc)))
       (member rm_call rm_call_update (member cb_verf cb_verf_update (xdr_opaque_auth alloc)))))))))))"

definition xdr_callmsg :: "(u32 \<Rightarrow> byte list option) \<Rightarrow> (xdrmem, (xdrmem, 'r) rpc_msg) xdr_filter" where
  "xdr_callmsg alloc xdrs cmsg =
     (let cred_len = oa_length (cb_cred (rm_call cmsg)); verf_len = oa_length (cb_verf (rm_call cmsg)) in
      if x_op xdrs = XDR_ENCODE then
        if cred_len > MAX_AUTH_BYTES then (False, xdrs, cmsg)
        else if verf_len > MAX_AUTH_BYTES then (False, xdrs, cmsg)
        else let (buf, xdrs) = XDR_INLINE xdrs (8 * BYTES_PER_XDR_UNIT + RNDUP cred_len
                   + 2 * BYTES_PER_XDR_UNIT + RNDUP verf_len) in
          (case buf of
             Some p \<Rightarrow> let (ok, xdrs) = callmsg_encode_inline xdrs p cmsg in (ok, xdrs, cmsg)
           | None \<Rightarrow> callmsg_chain alloc xdrs cmsg)
      else if x_op xdrs = XDR_DECODE then
        let (buf, xdrs) = XDR_INLINE xdrs (8 * BYTES_PER_XDR_UNIT) in
        (case buf of
           Some p \<Rightarrow> callmsg_decode_inline alloc xdrs p cmsg
         | None \<Rightarrow> callmsg_chain alloc xdrs cmsg)
      else callmsg_chain alloc xdrs cmsg)"

section \<open>The external form of the messages\<close>

text \<open>What a message is, apart from how the C structures lay it out. A long fits an XDR unit
  when its upper half is zero; an authenticator is well formed when its pointer is null exactly
  if its length is zero and it is no longer than the protocol allows.\<close>

definition fits32 :: "u64 \<Rightarrow> bool" where
  "fits32 v \<longleftrightarrow> ucast (ucast v :: u32) = v"

definition auth_body :: "opaque_auth \<Rightarrow> byte list" where
  "auth_body oa = (case oa_base oa of None \<Rightarrow> [] | Some b \<Rightarrow> b)"

definition auth_ok :: "opaque_auth \<Rightarrow> bool" where
  "auth_ok oa \<longleftrightarrow> unat (oa_length oa) = length (auth_body oa) \<and> oa_length oa \<le> MAX_AUTH_BYTES \<and>
     (oa_base oa = None \<longleftrightarrow> oa_length oa = 0)"

definition auth_wire :: "opaque_auth \<Rightarrow> byte list" where
  "auth_wire oa = xdr_be (oa_flavor oa) @ xdr_counted (auth_body oa)"

datatype 'r reply =
    Success opaque_auth 'r
  | Program_mismatch opaque_auth u32 u32
  | Call_failed opaque_auth u32
  | Rpc_mismatch u32 u32
  | Auth_error u32

text \<open>The same reply in the C structure, over a template that supplies what is not on the
  wire: the result procedure and the unused union members.\<close>

fun fill_reply :: "'r reply \<Rightarrow> ('s, 'r) reply_ru \<Rightarrow> u32 \<times> ('s, 'r) reply_ru" where
  "fill_reply (Success verf w) ru =
     (MSG_ACCEPTED, ru\<lparr>RP_ar := (RP_ar ru)\<lparr>ar_verf := verf, ar_stat := SUCCESS, ar_where := w\<rparr>\<rparr>)"
| "fill_reply (Program_mismatch verf lo hi) ru =
     (MSG_ACCEPTED, ru\<lparr>RP_ar := (RP_ar ru)\<lparr>ar_verf := verf, ar_stat := PROG_MISMATCH,
        ar_vers_low := ucast lo, ar_vers_high := ucast hi\<rparr>\<rparr>)"
| "fill_reply (Call_failed verf st) ru =
     (MSG_ACCEPTED, ru\<lparr>RP_ar := (RP_ar ru)\<lparr>ar_verf := verf, ar_stat := st\<rparr>\<rparr>)"
| "fill_reply (Rpc_mismatch lo hi) ru =
     (MSG_DENIED, ru\<lparr>RP_dr := (RP_dr ru)\<lparr>rj_stat := RPC_MISMATCH, rj_vers_low := ucast lo,
        rj_vers_high := ucast hi\<rparr>\<rparr>)"
| "fill_reply (Auth_error why) ru =
     (MSG_DENIED, ru\<lparr>RP_dr := (RP_dr ru)\<lparr>rj_stat := AUTH_ERROR, rj_why := why\<rparr>\<rparr>)"

definition fill_msg :: "u32 \<Rightarrow> 'r reply \<Rightarrow> ('s, 'r) rpc_msg \<Rightarrow> ('s, 'r) rpc_msg" where
  "fill_msg xid rep msg =
     (let (stat, ru) = fill_reply rep (rp_ru (rm_reply msg)) in
      msg\<lparr>rm_xid := ucast xid, rm_direction := REPLY, rm_reply := \<lparr>rp_stat = stat, rp_ru = ru\<rparr>\<rparr>)"

fun reply_ok :: "'r reply \<Rightarrow> bool" where
  "reply_ok (Success verf w) = auth_ok verf"
| "reply_ok (Program_mismatch verf lo hi) = auth_ok verf"
| "reply_ok (Call_failed verf st) = (auth_ok verf \<and> st \<noteq> SUCCESS \<and> st \<noteq> PROG_MISMATCH)"
| "reply_ok (Rpc_mismatch lo hi) = True"
| "reply_ok (Auth_error why) = True"

text \<open>\<open>rwire\<close> is the external form of a result.\<close>

fun reply_wire :: "('r \<Rightarrow> byte list) \<Rightarrow> 'r reply \<Rightarrow> byte list" where
  "reply_wire rwire (Success verf w) = xdr_be MSG_ACCEPTED @ auth_wire verf @ xdr_be SUCCESS @ rwire w"
| "reply_wire rwire (Program_mismatch verf lo hi) =
     xdr_be MSG_ACCEPTED @ auth_wire verf @ xdr_be PROG_MISMATCH @ xdr_be lo @ xdr_be hi"
| "reply_wire rwire (Call_failed verf st) = xdr_be MSG_ACCEPTED @ auth_wire verf @ xdr_be st"
| "reply_wire rwire (Rpc_mismatch lo hi) = xdr_be MSG_DENIED @ xdr_be RPC_MISMATCH @ xdr_be lo @ xdr_be hi"
| "reply_wire rwire (Auth_error why) = xdr_be MSG_DENIED @ xdr_be AUTH_ERROR @ xdr_be why"

definition replymsg_wire :: "('r \<Rightarrow> byte list) \<Rightarrow> u32 \<Rightarrow> 'r reply \<Rightarrow> byte list" where
  "replymsg_wire rwire xid rep = xdr_be xid @ xdr_be REPLY @ reply_wire rwire rep"

definition pmap_ok :: "pmap \<Rightarrow> bool" where
  "pmap_ok p \<longleftrightarrow> fits32 (pm_prog p) \<and> fits32 (pm_vers p) \<and> fits32 (pm_prot p) \<and> fits32 (pm_port p)"

definition pmap_wire :: "pmap \<Rightarrow> byte list" where
  "pmap_wire p = xdr_be (ucast (pm_prog p)) @ xdr_be (ucast (pm_vers p)) @
     xdr_be (ucast (pm_prot p)) @ xdr_be (ucast (pm_port p))"

lemma fits32_ucast [simp]: "fits32 (ucast w)" for w :: u32
  by (simp add: fits32_def ucast_scast_32)

section \<open>What the filters write\<close>

context xdr_sink begin

lemma encodes_u_long: "fits32 v \<Longrightarrow> encodes xdr_u_long v (xdr_be (ucast v))"
  by (simp add: encodes_xdr_u_long fits32_def)

lemma encodes_opaque_auth:
  assumes "auth_ok oa"
  shows "encodes (xdr_opaque_auth alloc) oa (auth_wire oa)"
proof -
  have "encodes (\<lambda>x v. xdr_bytes alloc x v MAX_AUTH_BYTES) (oa_base oa, oa_length oa) (xdr_counted (auth_body oa))"
  proof (cases "oa_base oa")
    case None
    with assms show ?thesis
      using encodes_xdr_bytes_null [of alloc MAX_AUTH_BYTES]
      by (simp add: auth_ok_def auth_body_def xdr_counted_def xdr_padded_def padding_def)
  next
    case (Some b)
    with assms have "oa_length oa = word_of_nat (length b)"
      by (metis auth_body_def auth_ok_def option.simps(5) word_of_nat_unat)
    with Some assms show ?thesis
      using encodes_xdr_bytes [of "oa_length oa" b MAX_AUTH_BYTES alloc]
      by (simp add: auth_ok_def auth_body_def xdr_counted_def)
  qed
  then have "encodes (\<lambda>xdrs ap. let (ok, xdrs, base, len) = xdr_bytes alloc xdrs (oa_base ap, oa_length ap) MAX_AUTH_BYTES
      in (ok, xdrs, ap\<lparr>oa_base := base, oa_length := len\<rparr>)) oa (xdr_counted (auth_body oa))"
    by (rule encodes_via) auto
  then show ?thesis
    unfolding xdr_opaque_auth_def auth_wire_def
    by (intro encodes_and_then encodes_member encodes_xdr_enum) simp
qed

lemma encodes_accepted_reply:
  assumes "auth_ok (ar_verf ar)"
    and "ar_stat ar = SUCCESS \<Longrightarrow> encodes (ar_proc ar) (ar_where ar) body"
    and "ar_stat ar = PROG_MISMATCH \<Longrightarrow> fits32 (ar_vers_low ar) \<and> fits32 (ar_vers_high ar) \<and>
      body = xdr_be (ucast (ar_vers_low ar)) @ xdr_be (ucast (ar_vers_high ar))"
    and "ar_stat ar \<noteq> SUCCESS \<Longrightarrow> ar_stat ar \<noteq> PROG_MISMATCH \<Longrightarrow> body = []"
  shows "encodes (xdr_accepted_reply alloc) ar (auth_wire (ar_verf ar) @ xdr_be (ar_stat ar) @ body)"
proof -
  let ?rest = "\<lambda>xdrs ar. if ar_stat ar = SUCCESS then member ar_where ar_where_update (ar_proc ar) xdrs ar
     else if ar_stat ar = PROG_MISMATCH then
       and_then (member ar_vers_low ar_vers_low_update xdr_u_long)
         (member ar_vers_high ar_vers_high_update xdr_u_long) xdrs ar
     else (True, xdrs, ar)"
  have "encodes ?rest ar body"
  proof (cases "ar_stat ar = SUCCESS")
    case True
    then show ?thesis
      using assms(2) by (intro encodes_cong [where f = ?rest and g = "member ar_where ar_where_update (ar_proc ar)"]
          encodes_member) auto
  next
    case False
    show ?thesis
    proof (cases "ar_stat ar = PROG_MISMATCH")
      case True
      then show ?thesis
        using assms(3) by (auto intro!: encodes_and_then encodes_member encodes_u_long
            encodes_cong [where f = ?rest and g = "and_then (member ar_vers_low ar_vers_low_update xdr_u_long)
              (member ar_vers_high ar_vers_high_update xdr_u_long)"])
    qed (use False assms(4) in \<open>auto intro!: encodes_nothing\<close>)
  qed
  then show ?thesis
    unfolding xdr_accepted_reply_def
    using assms(1) by (intro encodes_and_then encodes_member encodes_opaque_auth encodes_xdr_enum) simp_all
qed

lemma encodes_rejected_reply:
  assumes "rj_stat rr = RPC_MISMATCH \<and> fits32 (rj_vers_low rr) \<and> fits32 (rj_vers_high rr) \<and>
      body = xdr_be (ucast (rj_vers_low rr)) @ xdr_be (ucast (rj_vers_high rr)) \<or>
    rj_stat rr = AUTH_ERROR \<and> body = xdr_be (rj_why rr)"
  shows "encodes xdr_rejected_reply rr (xdr_be (rj_stat rr) @ body)"
proof -
  let ?rest = "\<lambda>xdrs rr. if rj_stat rr = RPC_MISMATCH then
       and_then (member rj_vers_low rj_vers_low_update xdr_u_long)
         (member rj_vers_high rj_vers_high_update xdr_u_long) xdrs rr
     else if rj_stat rr = AUTH_ERROR then member rj_why rj_why_update xdr_enum xdrs rr
     else (False, xdrs, rr)"
  have "encodes ?rest rr body"
    using assms
  proof
    assume "rj_stat rr = RPC_MISMATCH \<and> fits32 (rj_vers_low rr) \<and> fits32 (rj_vers_high rr) \<and>
      body = xdr_be (ucast (rj_vers_low rr)) @ xdr_be (ucast (rj_vers_high rr))"
    then show ?thesis
      by (auto intro!: encodes_and_then encodes_member encodes_u_long
          encodes_cong [where f = ?rest and g = "and_then (member rj_vers_low rj_vers_low_update xdr_u_long)
            (member rj_vers_high rj_vers_high_update xdr_u_long)"])
  next
    assume "rj_stat rr = AUTH_ERROR \<and> body = xdr_be (rj_why rr)"
    then show ?thesis
      by (auto intro!: encodes_member encodes_xdr_enum
          encodes_cong [where f = ?rest and g = "member rj_why rj_why_update xdr_enum"])
  qed
  then show ?thesis
    unfolding xdr_rejected_reply_def by (intro encodes_and_then encodes_member encodes_xdr_enum) simp_all
qed

lemma encodes_union_accepted:
  assumes "encodes (xdr_accepted_reply alloc) (RP_ar ru) body"
  shows "encodes (\<lambda>x v. xdr_union x v (reply_dscrm alloc) None) (MSG_ACCEPTED, ru) (xdr_be MSG_ACCEPTED @ body)"
proof (rule encodes_xdr_union)
  show "encodes (as_filter (\<lambda>xdrs ru _. member RP_ar RP_ar_update (xdr_accepted_reply alloc) xdrs ru)) ru body"
    using encodes_member [where get = RP_ar and upd = RP_ar_update, OF assms]
    by (rule encodes_cong) (simp_all add: as_filter_def)
qed (simp add: reply_dscrm_def)

lemma encodes_union_denied:
  assumes "encodes xdr_rejected_reply (RP_dr ru) body"
  shows "encodes (\<lambda>x v. xdr_union x v (reply_dscrm alloc) None) (MSG_DENIED, ru) (xdr_be MSG_DENIED @ body)"
proof (rule encodes_xdr_union)
  show "encodes (as_filter (\<lambda>xdrs ru _. member RP_dr RP_dr_update xdr_rejected_reply xdrs ru)) ru body"
    using encodes_member [where get = RP_dr and upd = RP_dr_update, OF assms]
    by (rule encodes_cong) (simp_all add: as_filter_def)
qed (simp add: reply_dscrm_def)

lemma encodes_reply_union:
  assumes ok: "reply_ok rep"
    and res: "\<And>verf w. rep = Success verf w \<Longrightarrow> encodes (ar_proc (RP_ar ru)) w (rwire w)"
  shows "encodes (\<lambda>x v. xdr_union x v (reply_dscrm alloc) None) (fill_reply rep ru) (reply_wire rwire rep)"
proof (cases rep)
  case (Success verf w)
  let ?ar = "(RP_ar ru)\<lparr>ar_verf := verf, ar_stat := SUCCESS, ar_where := w\<rparr>"
  have "encodes (xdr_accepted_reply alloc) ?ar (auth_wire (ar_verf ?ar) @ xdr_be (ar_stat ?ar) @ rwire w)"
    by (rule encodes_accepted_reply) (use ok res Success in simp_all)
  then show ?thesis
    unfolding Success fill_reply.simps reply_wire.simps by (intro encodes_union_accepted) simp
next
  case (Program_mismatch verf lo hi)
  let ?ar = "(RP_ar ru)\<lparr>ar_verf := verf, ar_stat := PROG_MISMATCH, ar_vers_low := ucast lo, ar_vers_high := ucast hi\<rparr>"
  have "encodes (xdr_accepted_reply alloc) ?ar (auth_wire (ar_verf ?ar) @ xdr_be (ar_stat ?ar) @ xdr_be lo @ xdr_be hi)"
    by (rule encodes_accepted_reply) (use ok Program_mismatch in \<open>simp_all add: ucast_scast_32\<close>)
  then show ?thesis
    unfolding Program_mismatch fill_reply.simps reply_wire.simps by (intro encodes_union_accepted) simp
next
  case (Call_failed verf st)
  let ?ar = "(RP_ar ru)\<lparr>ar_verf := verf, ar_stat := st\<rparr>"
  have "encodes (xdr_accepted_reply alloc) ?ar (auth_wire (ar_verf ?ar) @ xdr_be (ar_stat ?ar) @ [])"
    by (rule encodes_accepted_reply) (use ok Call_failed in simp_all)
  then show ?thesis
    unfolding Call_failed fill_reply.simps reply_wire.simps by (intro encodes_union_accepted) simp
next
  case (Rpc_mismatch lo hi)
  let ?rr = "(RP_dr ru)\<lparr>rj_stat := RPC_MISMATCH, rj_vers_low := ucast lo, rj_vers_high := ucast hi\<rparr>"
  have "encodes xdr_rejected_reply ?rr (xdr_be (rj_stat ?rr) @ xdr_be lo @ xdr_be hi)"
    by (rule encodes_rejected_reply) (simp add: ucast_scast_32)
  then show ?thesis
    unfolding Rpc_mismatch fill_reply.simps reply_wire.simps by (intro encodes_union_denied) simp
next
  case (Auth_error why)
  let ?rr = "(RP_dr ru)\<lparr>rj_stat := AUTH_ERROR, rj_why := why\<rparr>"
  have "encodes xdr_rejected_reply ?rr (xdr_be (rj_stat ?rr) @ xdr_be why)"
    by (rule encodes_rejected_reply) simp
  then show ?thesis
    unfolding Auth_error fill_reply.simps reply_wire.simps by (intro encodes_union_denied) simp
qed

lemma encodes_replymsg:
  assumes "reply_ok rep"
    and "\<And>verf w. rep = Success verf w \<Longrightarrow> encodes (ar_proc (RP_ar (rp_ru (rm_reply msg)))) w (rwire w)"
  shows "encodes (xdr_replymsg alloc) (fill_msg xid rep msg) (replymsg_wire rwire xid rep)"
proof -
  let ?msg = "fill_msg xid rep msg" and ?ru = "rp_ru (rm_reply msg)"
  obtain stat ru where f: "fill_reply rep ?ru = (stat, ru)"
    by fastforce
  have msg: "rm_xid ?msg = ucast xid" "rm_direction ?msg = REPLY" "rm_reply ?msg = \<lparr>rp_stat = stat, rp_ru = ru\<rparr>"
    by (simp_all add: fill_msg_def f)
  have keep: "?msg\<lparr>rm_reply := \<lparr>rp_stat = stat, rp_ru = ru\<rparr>\<rparr> = ?msg"
    by (simp add: fill_msg_def f)
  have body: "encodes (\<lambda>x v. xdr_union x v (reply_dscrm alloc) None) (stat, ru) (reply_wire rwire rep)"
    using encodes_reply_union [OF assms, where alloc = alloc] by (simp add: f)
  have "encodes (\<lambda>xdrs rmsg.
          let (ok, xdrs, stat, ru) = xdr_union xdrs (rp_stat (rm_reply rmsg), rp_ru (rm_reply rmsg))
                (reply_dscrm alloc) None
          in (ok, xdrs, rmsg\<lparr>rm_reply := \<lparr>rp_stat = stat, rp_ru = ru\<rparr>\<rparr>)) ?msg (reply_wire rwire rep)"
    by (rule encodes_via [OF body]) (auto simp: msg keep)
  moreover have "encodes xdr_u_long (rm_xid ?msg) (xdr_be xid)"
    using encodes_u_long [of "ucast xid"] by (simp add: msg ucast_scast_32)
  moreover have "encodes xdr_enum (rm_direction ?msg) (xdr_be REPLY)"
    using encodes_xdr_enum [of REPLY] by (simp add: msg)
  moreover have "encodes (holds (\<lambda>rmsg. rm_direction rmsg = REPLY)) ?msg []"
    by (simp add: encodes_holds msg)
  ultimately have "encodes (xdr_replymsg alloc) ?msg (xdr_be xid @ xdr_be REPLY @ [] @ reply_wire rwire rep)"
    unfolding xdr_replymsg_def by (intro encodes_and_then encodes_member) simp_all
  then show ?thesis
    by (simp add: replymsg_wire_def)
qed

lemma encodes_pmap: "pmap_ok p \<Longrightarrow> encodes xdr_pmap p (pmap_wire p)"
  unfolding xdr_pmap_def pmap_wire_def pmap_ok_def
  by (intro encodes_and_then encodes_member encodes_u_long) simp_all

end

section \<open>What the filters read\<close>

context xdr_source begin

lemma decodes_u_long: "fits32 v \<Longrightarrow> decodes xdr_u_long v0 (xdr_be (ucast v)) v"
  by (simp add: decodes_xdr_u_long fits32_def)

lemma decodes_opaque_auth:
  assumes "auth_ok oa" "allocates alloc" "oa_base oa0 = None"
  shows "decodes (xdr_opaque_auth alloc) oa0 (auth_wire oa) oa"
proof -
  let ?bs = "auth_body oa"
  have len: "length ?bs = unat (oa_length oa)" "oa_length oa \<le> MAX_AUTH_BYTES"
    using assms(1) by (auto simp: auth_ok_def)
  obtain buf where buf: "alloc (oa_length oa) = Some buf" "length buf = unat (oa_length oa)"
    using assms(2) by (auto simp: allocates_def)
  have "blit buf 0 ?bs = ?bs"
    using buf len by (simp add: blit_def)
  then have val: "(if oa_length oa = 0 then None else Some (blit buf 0 ?bs)) = oa_base oa"
    using assms(1) by (auto simp: auth_ok_def auth_body_def)
  have wire: "xdr_counted ?bs = xdr_be (oa_length oa) @ xdr_padded ?bs"
    by (simp add: xdr_counted_def len(1) word_of_nat_unat)
  have bytes: "decodes (\<lambda>x v. xdr_bytes alloc x v MAX_AUTH_BYTES) (None, n0) (xdr_counted ?bs)
      (oa_base oa, oa_length oa)" for n0
    using decodes_xdr_bytes [OF len, of alloc None buf n0] buf unfolding wire val by simp
  have "decodes (\<lambda>xdrs ap. let (ok, xdrs, base, n) = xdr_bytes alloc xdrs (oa_base ap, oa_length ap) MAX_AUTH_BYTES
      in (ok, xdrs, ap\<lparr>oa_base := base, oa_length := n\<rparr>)) (oa0\<lparr>oa_flavor := oa_flavor oa\<rparr>) (xdr_counted ?bs) oa"
    by (rule decodes_via [OF bytes [of "oa_length oa0"]]) (auto simp: assms(3))
  then show ?thesis
    unfolding xdr_opaque_auth_def auth_wire_def
    by (rule decodes_member_then [OF decodes_xdr_enum])
qed

lemma decodes_pmap:
  assumes "pmap_ok p"
  shows "decodes xdr_pmap p0 (pmap_wire p) p"
  using assms unfolding xdr_pmap_def pmap_wire_def pmap_ok_def
  by (auto intro!: decodes_member_then [OF decodes_u_long] decodes_member_eq [OF decodes_u_long])

lemma decodes_accepted_reply:
  assumes "auth_ok verf" "allocates alloc" "oa_base (ar_verf ar0) = None"
    and "\<lbrakk>st = SUCCESS\<rbrakk> \<Longrightarrow> decodes (ar_proc ar0) (ar_where ar0) body w \<and>
      ar = ar0\<lparr>ar_verf := verf, ar_stat := SUCCESS, ar_where := w\<rparr>"
    and "\<lbrakk>st = PROG_MISMATCH\<rbrakk> \<Longrightarrow> body = xdr_be lo @ xdr_be hi \<and>
      ar = ar0\<lparr>ar_verf := verf, ar_stat := PROG_MISMATCH, ar_vers_low := ucast lo, ar_vers_high := ucast hi\<rparr>"
    and "\<lbrakk>st \<noteq> SUCCESS; st \<noteq> PROG_MISMATCH\<rbrakk> \<Longrightarrow> body = [] \<and> ar = ar0\<lparr>ar_verf := verf, ar_stat := st\<rparr>"
  shows "decodes (xdr_accepted_reply alloc) ar0 (auth_wire verf @ xdr_be st @ body) ar"
proof -
  let ?rest = "\<lambda>xdrs ar. if ar_stat ar = SUCCESS then member ar_where ar_where_update (ar_proc ar) xdrs ar
     else if ar_stat ar = PROG_MISMATCH then
       and_then (member ar_vers_low ar_vers_low_update xdr_u_long)
         (member ar_vers_high ar_vers_high_update xdr_u_long) xdrs ar
     else (True, xdrs, ar)"
  let ?ar = "ar0\<lparr>ar_verf := verf, ar_stat := st\<rparr>"
  have long: "decodes xdr_u_long v0 (xdr_be n) (ucast n)" for v0 and n :: u32
    using decodes_u_long [of "ucast n" v0] by (simp add: ucast_scast_32)
  consider "st = SUCCESS" | "st = PROG_MISMATCH" | "st \<noteq> SUCCESS" "st \<noteq> PROG_MISMATCH" by blast
  then have "decodes ?rest ?ar body ar"
  proof cases
    case 1
    have "decodes (member ar_where ar_where_update (ar_proc ?ar)) ?ar body ar"
      using assms(4) [OF 1] 1 by (intro decodes_member_eq [where v = w]) simp_all
    then show ?thesis
      by (rule decodes_cong) (simp add: 1)
  next
    case 2
    have "decodes (and_then (member ar_vers_low ar_vers_low_update xdr_u_long)
         (member ar_vers_high ar_vers_high_update xdr_u_long)) ?ar (xdr_be lo @ xdr_be hi) ar"
      using assms(5) [OF 2] 2 by (auto intro!: decodes_member_then [OF long] decodes_member_eq [OF long])
    then show ?thesis
      using assms(5) [OF 2] by (auto simp: 2 elim: decodes_cong)
  next
    case 3
    then show ?thesis
      using assms(6) [OF 3] by (auto intro: decodes_nothing)
  qed
  then show ?thesis
    unfolding xdr_accepted_reply_def
    by - (rule decodes_member_then [where get = ar_verf and ?r0.0 = ar0, OF decodes_opaque_auth [OF assms(1-3)]],
        rule decodes_member_then [OF decodes_xdr_enum], simp)
qed

lemma decodes_rejected_reply:
  assumes "st = RPC_MISMATCH \<and> body = xdr_be lo @ xdr_be hi \<and>
      rr = rr0\<lparr>rj_stat := RPC_MISMATCH, rj_vers_low := ucast lo, rj_vers_high := ucast hi\<rparr> \<or>
    st = AUTH_ERROR \<and> body = xdr_be why \<and> rr = rr0\<lparr>rj_stat := AUTH_ERROR, rj_why := why\<rparr>"
  shows "decodes xdr_rejected_reply rr0 (xdr_be st @ body) rr"
proof -
  let ?rest = "\<lambda>xdrs rr. if rj_stat rr = RPC_MISMATCH then
       and_then (member rj_vers_low rj_vers_low_update xdr_u_long)
         (member rj_vers_high rj_vers_high_update xdr_u_long) xdrs rr
     else if rj_stat rr = AUTH_ERROR then member rj_why rj_why_update xdr_enum xdrs rr
     else (False, xdrs, rr)"
  have long: "decodes xdr_u_long v0 (xdr_be n) (ucast n)" for v0 and n :: u32
    using decodes_u_long [of "ucast n" v0] by (simp add: ucast_scast_32)
  have "decodes (and_then (member rj_vers_low rj_vers_low_update xdr_u_long)
      (member rj_vers_high rj_vers_high_update xdr_u_long)) (rr0\<lparr>rj_stat := RPC_MISMATCH\<rparr>) (xdr_be lo @ xdr_be hi)
      (rr0\<lparr>rj_stat := RPC_MISMATCH, rj_vers_low := ucast lo, rj_vers_high := ucast hi\<rparr>)"
    by (auto intro!: decodes_member_then [OF long] decodes_member_eq [OF long])
  moreover have "decodes (member rj_why rj_why_update xdr_enum) (rr0\<lparr>rj_stat := AUTH_ERROR\<rparr>) (xdr_be why)
      (rr0\<lparr>rj_stat := AUTH_ERROR, rj_why := why\<rparr>)"
    by (rule decodes_member_eq [OF decodes_xdr_enum]) simp
  ultimately have "decodes ?rest (rr0\<lparr>rj_stat := st\<rparr>) body rr"
    using assms by (auto elim: decodes_cong)
  then show ?thesis
    unfolding xdr_rejected_reply_def by (rule decodes_member_then [OF decodes_xdr_enum])
qed

lemma decodes_union_accepted:
  assumes "decodes (xdr_accepted_reply alloc) (RP_ar ru0) body ar"
  shows "decodes (\<lambda>x v. xdr_union x v (reply_dscrm alloc) None) (st0, ru0) (xdr_be MSG_ACCEPTED @ body)
    (MSG_ACCEPTED, ru0\<lparr>RP_ar := ar\<rparr>)"
proof (rule decodes_xdr_union)
  show "decodes (as_filter (\<lambda>xdrs ru _. member RP_ar RP_ar_update (xdr_accepted_reply alloc) xdrs ru)) ru0 body
      (ru0\<lparr>RP_ar := ar\<rparr>)"
    using decodes_member [where get = RP_ar and upd = RP_ar_update, OF assms]
    by (rule decodes_cong) (simp add: as_filter_def)
qed (simp add: reply_dscrm_def)

lemma decodes_union_denied:
  assumes "decodes xdr_rejected_reply (RP_dr ru0) body rr"
  shows "decodes (\<lambda>x v. xdr_union x v (reply_dscrm alloc) None) (st0, ru0) (xdr_be MSG_DENIED @ body)
    (MSG_DENIED, ru0\<lparr>RP_dr := rr\<rparr>)"
proof (rule decodes_xdr_union)
  show "decodes (as_filter (\<lambda>xdrs ru _. member RP_dr RP_dr_update xdr_rejected_reply xdrs ru)) ru0 body
      (ru0\<lparr>RP_dr := rr\<rparr>)"
    using decodes_member [where get = RP_dr and upd = RP_dr_update, OF assms]
    by (rule decodes_cong) (simp add: as_filter_def)
qed (simp add: reply_dscrm_def)

lemma decodes_reply_union:
  assumes ok: "reply_ok rep" and alloc: "allocates alloc" "oa_base (ar_verf (RP_ar ru)) = None"
    and res: "\<And>verf w. rep = Success verf w \<Longrightarrow> decodes (ar_proc (RP_ar ru)) (ar_where (RP_ar ru)) (rwire w) w"
  shows "decodes (\<lambda>x v. xdr_union x v (reply_dscrm alloc) None) (st0, ru) (reply_wire rwire rep) (fill_reply rep ru)"
proof (cases rep)
  case (Success verf w)
  then have "decodes (xdr_accepted_reply alloc) (RP_ar ru) (auth_wire verf @ xdr_be SUCCESS @ rwire w)
      ((RP_ar ru)\<lparr>ar_verf := verf, ar_stat := SUCCESS, ar_where := w\<rparr>)"
    using ok res by (intro decodes_accepted_reply [where w = w and lo = 0 and hi = 0] alloc) auto
  then show ?thesis
    unfolding Success fill_reply.simps reply_wire.simps by (rule decodes_union_accepted)
next
  case (Program_mismatch verf lo hi)
  then have "decodes (xdr_accepted_reply alloc) (RP_ar ru) (auth_wire verf @ xdr_be PROG_MISMATCH @ xdr_be lo @ xdr_be hi)
      ((RP_ar ru)\<lparr>ar_verf := verf, ar_stat := PROG_MISMATCH, ar_vers_low := ucast lo, ar_vers_high := ucast hi\<rparr>)"
    using ok by (intro decodes_accepted_reply [where lo = lo and hi = hi] alloc) auto
  then show ?thesis
    unfolding Program_mismatch fill_reply.simps reply_wire.simps by (rule decodes_union_accepted)
next
  case (Call_failed verf st)
  then have "decodes (xdr_accepted_reply alloc) (RP_ar ru) (auth_wire verf @ xdr_be st @ [])
      ((RP_ar ru)\<lparr>ar_verf := verf, ar_stat := st\<rparr>)"
    using ok by (intro decodes_accepted_reply [where lo = 0 and hi = 0] alloc) auto
  then show ?thesis
    unfolding Call_failed fill_reply.simps reply_wire.simps append_Nil2 by (rule decodes_union_accepted)
next
  case (Rpc_mismatch lo hi)
  have "decodes xdr_rejected_reply (RP_dr ru) (xdr_be RPC_MISMATCH @ xdr_be lo @ xdr_be hi)
      ((RP_dr ru)\<lparr>rj_stat := RPC_MISMATCH, rj_vers_low := ucast lo, rj_vers_high := ucast hi\<rparr>)"
    by (rule decodes_rejected_reply) auto
  then show ?thesis
    unfolding Rpc_mismatch fill_reply.simps reply_wire.simps by (rule decodes_union_denied)
next
  case (Auth_error why)
  have "decodes xdr_rejected_reply (RP_dr ru) (xdr_be AUTH_ERROR @ xdr_be why)
      ((RP_dr ru)\<lparr>rj_stat := AUTH_ERROR, rj_why := why\<rparr>)"
    by (rule decodes_rejected_reply) auto
  then show ?thesis
    unfolding Auth_error fill_reply.simps reply_wire.simps by (rule decodes_union_denied)
qed

lemma decodes_replymsg:
  assumes "reply_ok rep" "allocates alloc" "oa_base (ar_verf (RP_ar (rp_ru (rm_reply msg)))) = None"
    and "\<And>verf w. rep = Success verf w \<Longrightarrow>
      decodes (ar_proc (RP_ar (rp_ru (rm_reply msg)))) (ar_where (RP_ar (rp_ru (rm_reply msg)))) (rwire w) w"
  shows "decodes (xdr_replymsg alloc) msg (replymsg_wire rwire xid rep) (fill_msg xid rep msg)"
proof -
  let ?msg = "msg\<lparr>rm_xid := ucast xid, rm_direction := REPLY\<rparr>"
  have long: "decodes xdr_u_long v0 (xdr_be n) (ucast n)" for v0 and n :: u32
    using decodes_u_long [of "ucast n" v0] by (simp add: ucast_scast_32)
  have "decodes (\<lambda>xdrs rmsg.
          let (ok, xdrs, stat, ru) = xdr_union xdrs (rp_stat (rm_reply rmsg), rp_ru (rm_reply rmsg))
                (reply_dscrm alloc) None
          in (ok, xdrs, rmsg\<lparr>rm_reply := \<lparr>rp_stat = stat, rp_ru = ru\<rparr>\<rparr>)) ?msg (reply_wire rwire rep) (fill_msg xid rep msg)"
    by (rule decodes_via [OF decodes_reply_union [OF assms, where ?st0.0 = "rp_stat (rm_reply msg)"]])
      (auto simp: fill_msg_def split: prod.splits)
  from decodes_and_then [OF decodes_holds this, of "\<lambda>rmsg. rm_direction rmsg = REPLY"]
  show ?thesis
    unfolding xdr_replymsg_def replymsg_wire_def
    by (intro decodes_member_then [OF long] decodes_member_then [OF decodes_xdr_enum]) simp
qed

end

section \<open>Lists of portmapper mappings\<close>

fun pmaplist_wire :: "pmap list \<Rightarrow> byte list" where
  "pmaplist_wire [] = xdr_be 0"
| "pmaplist_wire (p # ps) = xdr_be 1 @ pmap_wire p @ pmaplist_wire ps"

text \<open>The loop as a filter; running out of fuel counts as failure.\<close>

definition run_pmaplist :: "nat \<Rightarrow> (u32 \<Rightarrow> u32 \<Rightarrow> pmap option) \<Rightarrow> ('s, pmap list) xdr_filter" where
  "run_pmaplist fuel calloc xdrs rp =
     (case xdr_pmaplist fuel calloc xdrs rp of None \<Rightarrow> (False, xdrs, rp) | Some r \<Rightarrow> r)"

text \<open>One node and the rest of the list: what a turn of the loop does after the boolean.\<close>

definition pmap_node ::
  "nat \<Rightarrow> (u32 \<Rightarrow> u32 \<Rightarrow> pmap option) \<Rightarrow> (pmap list \<Rightarrow> pmap option) \<Rightarrow> ('s, pmap list) xdr_filter" where
  "pmap_node fuel calloc first xdrs rp =
     (let (ok, xdrs, node) = xdr_reference calloc xdrs (first rp) 40 (\<lambda>x v _. xdr_pmap x v) in
      if \<not> ok then (False, xdrs, rp)
      else let (ok, xdrs, ms) = run_pmaplist fuel calloc xdrs (tl rp) in (ok, xdrs, the node # ms))"

context xdr_sink begin

lemma encodes_pmaplist:
  "\<forall>p\<in>set ps. pmap_ok p \<Longrightarrow> length ps < fuel \<Longrightarrow> encodes (run_pmaplist fuel calloc) ps (pmaplist_wire ps)"
proof (induction ps arbitrary: fuel)
  case Nil
  then obtain n where n: "fuel = Suc n"
    by (metis length_0_conv less_imp_Suc_add list.size(3))
  have "encodes xdr_bool 0 (xdr_be 0)"
    using encodes_xdr_bool [of 0] by simp
  then show ?case
    unfolding pmaplist_wire.simps by (rule encodes_via) (simp_all add: run_pmaplist_def n)
next
  case (Cons p ps)
  then obtain n where n: "fuel = Suc n" "length ps < n"
    by (cases fuel) auto
  have "encodes xdr_bool 1 (xdr_be 1)"
    using encodes_xdr_bool [of 1] by simp
  moreover have "encodes (\<lambda>x l. xdr_reference calloc x l 40 (\<lambda>x v _. xdr_pmap x v)) (Some p) (pmap_wire p)"
    using Cons.prems(1) encodes_pmap
    by (intro encodes_xdr_reference) auto
  moreover have "encodes (run_pmaplist n calloc) ps (pmaplist_wire ps)"
    using Cons n by simp
  ultimately have "encodes (pmap_node n calloc (\<lambda>l. Some (hd l))) (p # ps) (pmap_wire p @ pmaplist_wire ps)"
    by (intro encodes_then [where h = "pmap_node n calloc (\<lambda>l. Some (hd l))"]) (auto simp: pmap_node_def split: prod.splits)
  with \<open>encodes xdr_bool 1 (xdr_be 1)\<close> show ?case
    unfolding pmaplist_wire.simps n(1)
    by (rule encodes_then)
      (auto simp: run_pmaplist_def pmap_node_def split: prod.splits option.splits)
qed

lemma encodes_authunix:
  assumes "fits32 (aup_time p)" "aup_machname p = Some (name @ [0])" "0 \<notin> set name" "length name \<le> 255"
    and "aup_gids p = Some gids" "unat (aup_len p) = length gids" "length gids \<le> 16"
  shows "encodes (xdr_authunix_parms alloc calloc) p (xdr_be (ucast (aup_time p)) @ xdr_counted name @
    xdr_be (aup_uid p) @ xdr_be (aup_gid p) @ xdr_be (aup_len p) @ concat (map xdr_be gids))"
proof -
  have "encodes (\<lambda>x p. xdr_string alloc x p 255) (aup_machname p) (xdr_counted name)"
    using encodes_xdr_string [of "name @ [0]" 255 alloc] assms by simp
  moreover have "list_all2 (encodes (as_filter (\<lambda>x v _. xdr_u_int x v))) gids (map xdr_be gids)"
    by (simp add: list_all2_conv_all_nth encodes_xdr_u_int)
  then have "encodes (\<lambda>x v. xdr_array calloc x v 16 4 (\<lambda>x v _. xdr_u_int x v)) (Some gids, aup_len p)
      (xdr_be (aup_len p) @ concat (map xdr_be gids))"
    using assms by (intro encodes_xdr_array) (auto simp: word_le_nat_alt)
  then have "encodes (\<lambda>xdrs p. let (ok, xdrs, gids, len) = xdr_array calloc xdrs (aup_gids p, aup_len p) 16 4
        (\<lambda>x v _. xdr_u_int x v)
      in (ok, xdrs, p\<lparr>aup_gids := gids, aup_len := len\<rparr>)) p (xdr_be (aup_len p) @ concat (map xdr_be gids))"
    by (rule encodes_via) (auto simp: assms(5)[symmetric])
  ultimately show ?thesis
    unfolding xdr_authunix_parms_def
    by (intro encodes_and_then encodes_member encodes_xdr_u_int encodes_u_long assms(1)) simp_all
qed

end

context xdr_source begin

lemma decodes_pmaplist:
  assumes "calloc 1 40 = Some z"
  shows "\<forall>p\<in>set ps. pmap_ok p \<Longrightarrow> length ps < fuel \<Longrightarrow>
    decodes (run_pmaplist fuel calloc) [] (pmaplist_wire ps) ps"
proof (induction ps arbitrary: fuel)
  case Nil
  then obtain n where n: "fuel = Suc n"
    by (cases fuel) auto
  have "decodes xdr_bool 0 (xdr_be 0) 0"
    using decodes_xdr_bool [of 0 0] by simp
  then show ?case
    unfolding pmaplist_wire.simps by (rule decodes_via) (simp_all add: run_pmaplist_def n)
next
  case (Cons p ps)
  then obtain n where n: "fuel = Suc n" "length ps < n"
    by (cases fuel) auto
  have more: "decodes xdr_bool 0 (xdr_be 1) 1"
    using decodes_xdr_bool [of 0 1] by simp
  have "decodes (\<lambda>x l. xdr_reference calloc x l 40 (\<lambda>x v _. xdr_pmap x v)) None (pmap_wire p) (Some p)"
    using Cons.prems(1) decodes_pmap assms by (intro decodes_xdr_reference [where ?v0.0 = z]) auto
  moreover have "decodes (run_pmaplist n calloc) [] (pmaplist_wire ps) ps"
    using Cons n by simp
  ultimately have "decodes (pmap_node n calloc (\<lambda>l. None)) [] (pmap_wire p @ pmaplist_wire ps) (p # ps)"
    by (rule decodes_then) (auto simp: pmap_node_def split: prod.splits)
  with more show ?case
    unfolding pmaplist_wire.simps n(1)
    by (rule decodes_then)
      (auto simp: run_pmaplist_def pmap_node_def split: prod.splits option.splits)
qed

lemma decodes_authunix:
  assumes "allocates alloc" "callocates 0 calloc"
    and "fits32 (aup_time p)" "aup_machname p = Some (name @ [0])" "length name \<le> 255"
    and "aup_gids p = (if gids = [] then None else Some gids)" "unat (aup_len p) = length gids" "length gids \<le> 16"
    and "aup_machname p0 = None" "aup_gids p0 = None"
  shows "decodes (xdr_authunix_parms alloc calloc) p0 (xdr_be (ucast (aup_time p)) @ xdr_counted name @
    xdr_be (aup_uid p) @ xdr_be (aup_gid p) @ xdr_be (aup_len p) @ concat (map xdr_be gids)) p"
proof -
  let ?p = "p0\<lparr>aup_time := aup_time p, aup_machname := aup_machname p, aup_uid := aup_uid p, aup_gid := aup_gid p\<rparr>"
  have str: "decodes (\<lambda>x p. xdr_string alloc x p 255) None (xdr_counted name) (aup_machname p)"
    using decodes_string_fresh [OF assms(1), of name 255] assms by simp
  let ?bvs = "map (\<lambda>g. (xdr_be g, g)) gids"
  have "list_all2 (\<lambda>v0 (bs, v). decodes (as_filter (\<lambda>x v _. xdr_u_int x v)) v0 bs v) (replicate (length gids) 0) ?bvs"
    by (simp add: list_all2_conv_all_nth decodes_xdr_u_int)
  moreover have "aup_len p = 0 \<longleftrightarrow> gids = []"
    using assms(7) by (metis length_0_conv unat_eq_zero)
  ultimately have "decodes (\<lambda>x v. xdr_array calloc x v 16 4 (\<lambda>x v _. xdr_u_int x v)) (None, c0)
      (xdr_be (aup_len p) @ concat (map xdr_be gids)) (aup_gids p, aup_len p)" for c0
    using decodes_xdr_array [where ?vs0.0 = "replicate (length gids) 0" and bvs = ?bvs and c = "aup_len p"
        and maxsize = 16 and elsize = 4 and p = None and calloc = calloc and ?c0.0 = c0
        and elproc = "\<lambda>x v _. xdr_u_int x v"] assms
    by (auto simp: callocates_def comp_def word_le_nat_alt)
  then have "decodes (\<lambda>xdrs p. let (ok, xdrs, gids, len) = xdr_array calloc xdrs (aup_gids p, aup_len p) 16 4
        (\<lambda>x v _. xdr_u_int x v)
      in (ok, xdrs, p\<lparr>aup_gids := gids, aup_len := len\<rparr>)) ?p (xdr_be (aup_len p) @ concat (map xdr_be gids)) p"
    by (rule decodes_via [where ?v0.0 = "(None, aup_len p0)"]) (auto simp: assms(10))
  moreover have "decodes (\<lambda>x p. xdr_string alloc x p 255) (aup_machname (p0\<lparr>aup_time := aup_time p\<rparr>)) (xdr_counted name) (aup_machname p)"
    using str assms(9) by simp
  ultimately show ?thesis
    unfolding xdr_authunix_parms_def
    by - (rule decodes_member_then [OF decodes_u_long [OF assms(3)]],
        rule decodes_member_then, assumption,
        rule decodes_member_then [OF decodes_xdr_u_int], rule decodes_member_then [OF decodes_xdr_u_int], simp)
qed

end

section \<open>The inline path of call messages\<close>

text \<open>The external form of a call, the padding of its two authenticators left open.\<close>

definition inline_auth_wire :: "opaque_auth \<Rightarrow> byte list \<Rightarrow> byte list" where
  "inline_auth_wire oa pad = xdr_be (oa_flavor oa) @ xdr_be (oa_length oa) @ auth_body oa @ pad"

definition callmsg_wire :: "('s, 'r) rpc_msg \<Rightarrow> byte list \<Rightarrow> byte list \<Rightarrow> byte list" where
  "callmsg_wire cmsg pad1 pad2 =
     xdr_be (ucast (rm_xid cmsg)) @ xdr_be CALL @ xdr_be 2 @
     xdr_be (ucast (cb_prog (rm_call cmsg))) @ xdr_be (ucast (cb_vers (rm_call cmsg))) @
     xdr_be (ucast (cb_proc (rm_call cmsg))) @
     inline_auth_wire (cb_cred (rm_call cmsg)) pad1 @ inline_auth_wire (cb_verf (rm_call cmsg)) pad2"

definition call_ok :: "('s, 'r) rpc_msg \<Rightarrow> bool" where
  "call_ok cmsg \<longleftrightarrow> rm_direction cmsg = CALL \<and> cb_rpcvers (rm_call cmsg) = RPC_MSG_VERSION \<and>
     fits32 (rm_xid cmsg) \<and> fits32 (cb_prog (rm_call cmsg)) \<and> fits32 (cb_vers (rm_call cmsg)) \<and>
     fits32 (cb_proc (rm_call cmsg)) \<and> auth_ok (cb_cred (rm_call cmsg)) \<and> auth_ok (cb_verf (rm_call cmsg))"

definition auth_pad :: "opaque_auth \<Rightarrow> nat" where
  "auth_pad oa = padding (unat (oa_length oa))"

lemma round_up_4: "(n + 3) div 4 * 4 = n + (4 - n mod 4) mod 4" for n :: nat
proof -
  have "n mod 4 < 4" by simp
  then consider "n mod 4 = 0" | "n mod 4 = 1" | "n mod 4 = 2" | "n mod 4 = 3" by linarith
  then show ?thesis
  proof cases
    case 1
    then have "(n + 3) div 4 * 4 = n" by presburger
    with 1 show ?thesis by simp
  next
    case 2
    then have "(n + 3) div 4 * 4 = n + 3" by presburger
    with 2 show ?thesis by simp
  next
    case 3
    then have "(n + 3) div 4 * 4 = n + 2" by presburger
    with 3 show ?thesis by simp
  next
    case 4
    then have "(n + 3) div 4 * 4 = n + 1" by presburger
    with 4 show ?thesis by simp
  qed
qed

lemma unat_RNDUP_padding:
  assumes "unat x + 3 < 2 ^ 32"
  shows "unat (RNDUP x) = unat x + padding (unat x)"
proof -
  have "RNDUP x = (x + 3) AND NOT (mask 2)"
    by (simp add: RNDUP_def mask_eq_exp_minus_1 add.commute)
  then have "unat (RNDUP x) = unat (x + 3) div 4 * 4"
    by (simp add: unat_and_not_mask)
  moreover have "unat (x + 3) = unat x + 3"
    using assms by (simp add: unat_add_mod)
  ultimately have "unat (RNDUP x) = (unat x + 3) div 4 * 4"
    by (simp only:)
  then show ?thesis
    by (simp add: padding_def round_up_4)
qed

lemma unat_RNDUP: "x \<le> MAX_AUTH_BYTES \<Longrightarrow> unat (RNDUP x) = unat x + padding (unat x)"
  by (rule unat_RNDUP_padding) (simp add: word_le_nat_alt)

text \<open>The cursor after a run of writes.\<close>

definition cput :: "byte list \<Rightarrow> memory \<times> u64 \<Rightarrow> memory \<times> u64" where
  "cput bs c = (write_mem (fst c) (snd c) bs, snd c + of_nat (length bs))"

lemma cput_cput: "cput bs (cput as c) = cput (as @ bs) c"
  by (simp add: cput_def write_mem_append add.assoc)

lemma IXDR_PUT_cput:
  "IXDR_PUT_INT32 v c = cput (xdr_be v) c" "IXDR_PUT_LONG w c = cput (xdr_be (ucast w)) c"
  "IXDR_PUT_ENUM v c = cput (xdr_be v) c"
  by (simp_all add: IXDR_PUT_INT32_def IXDR_PUT_LONG_def IXDR_PUT_ENUM_def cput_def store32_htonl
      ucast_scast_32)

lemma write_mem_same: "write_mem m p (read_mem m p n) = m"
  by (induction n arbitrary: p) simp_all

lemma inline_put_auth_cput:
  assumes "auth_ok oa"
  shows "\<exists>pad. length pad = auth_pad oa \<and> inline_put_auth oa c = cput (inline_auth_wire oa pad) c"
proof -
  let ?c = "cput (xdr_be (oa_flavor oa) @ xdr_be (oa_length oa)) c" and ?n = "length (auth_body oa)"
  have len: "unat (oa_length oa) = ?n" "oa_length oa \<le> MAX_AUTH_BYTES"
    using assms by (simp_all add: auth_ok_def)
  define m where "m = write_mem (fst ?c) (snd ?c) (auth_body oa)"
  define pad where "pad = read_mem m (snd ?c + of_nat ?n) (auth_pad oa)"
  have "write_mem (fst ?c) (snd ?c) (auth_body oa @ pad) = m"
    unfolding write_mem_append m_def [symmetric] pad_def by (rule write_mem_same)
  moreover have "(ucast (RNDUP (oa_length oa)) :: u64) = of_nat (?n + auth_pad oa)"
    by (metis auth_pad_def len unat_RNDUP unat_widen_32 word_of_nat_unat)
  ultimately have "inline_put_auth oa c = cput (auth_body oa @ pad) ?c"
  proof (cases "oa_length oa = 0")
    case True
    then have "auth_body oa = []" "auth_pad oa = 0"
      using len(1) by (simp_all add: auth_pad_def padding_def)
    then show ?thesis
      using True by (simp add: inline_put_auth_def IXDR_PUT_cput cput_cput pad_def)
  next
    case False
    then have "the (oa_base oa) = auth_body oa"
      using assms by (auto simp: auth_ok_def auth_body_def)
    with False have "inline_put_auth oa c = (m, snd ?c + ucast (RNDUP (oa_length oa)))"
      by (simp add: inline_put_auth_def IXDR_PUT_cput cput_cput Let_def m_def len(1))
    moreover have "length (auth_body oa @ pad) = ?n + auth_pad oa"
      by (simp add: pad_def)
    ultimately show ?thesis
      using \<open>write_mem (fst ?c) (snd ?c) (auth_body oa @ pad) = m\<close>
        \<open>ucast (RNDUP (oa_length oa)) = of_nat (?n + auth_pad oa)\<close>
      by (simp only: cput_def [of "auth_body oa @ pad" ?c])
  qed
  then show ?thesis
    by (intro exI [of _ pad]) (simp add: inline_auth_wire_def cput_cput pad_def)
qed

text \<open>Taking an inline buffer from a memory stream.\<close>

definition mem_skip :: "xdrmem \<Rightarrow> u32 \<Rightarrow> xdrmem" where
  "mem_skip s n = s\<lparr>x_handy := x_handy s - n, x_private := x_private s + ucast n\<rparr>"

lemma mem_skip_simps [simp]: "mem (mem_skip s n) = mem s" "x_base (mem_skip s n) = x_base s"
  by (simp_all add: mem_skip_def)

lemma XDR_INLINE_mem:
  assumes "x_ops x = xdrmem_ops"
  shows "XDR_INLINE x n = (if n \<le> x_handy (x_stream x)
     then (Some (x_private (x_stream x)), x\<lparr>x_stream := mem_skip (x_stream x) n\<rparr>) else (None, x))"
  using assms by (simp add: XDR_INLINE_def xdrmem_inline_def mem_skip_def)

lemma word_of_nat_unat_64: "(word_of_nat (unat n) :: u64) = ucast n" for n :: u32
  by (metis unat_widen_32 word_of_nat_unat)

lemma mem_avail_skip:
  assumes "mem_avail s = as @ rest" "length as = unat n"
  shows "n \<le> x_handy s" "mem_avail (mem_skip s n) = rest"
    and "read_mem (mem s) (x_private s) (unat n) = as"
proof -
  note split = mem_avail_split [OF assms(1)]
  show le: "n \<le> x_handy s"
    using split(1) assms(2) by (simp add: word_le_nat_alt)
  show "mem_avail (mem_skip s n) = rest"
    using split(3) assms(2) le by (simp add: mem_avail_def mem_skip_def unat_sub word_of_nat_unat_64)
  show "read_mem (mem s) (x_private s) (unat n) = as"
    using split(2) assms(2) by simp
qed

lemma IXDR_GET_mem:
  assumes "mem_avail s = as @ xdr_be v @ rest"
  shows "IXDR_GET_INT32 (mem s) (x_private s + of_nat (length as)) = v"
    "IXDR_GET_LONG (mem s) (x_private s + of_nat (length as)) = ucast v"
    "IXDR_GET_ENUM (mem s) (x_private s + of_nat (length as)) = v"
proof -
  have "mem_avail s = (as @ xdr_be v) @ rest"
    using assms by simp
  from mem_avail_split(2) [OF this] have
    "read_mem (mem s) (x_private s) (length as) @ read_mem (mem s) (x_private s + of_nat (length as)) 4 = as @ xdr_be v"
    by (simp add: read_mem_add)
  then have "read_mem (mem s) (x_private s + of_nat (length as)) 4 = xdr_be v"
    by (simp add: append_eq_append_conv)
  then show get: "IXDR_GET_INT32 (mem s) (x_private s + of_nat (length as)) = v"
    by (simp add: IXDR_GET_INT32_def bswap_32_load32)
  show "IXDR_GET_LONG (mem s) (x_private s + of_nat (length as)) = ucast v"
    "IXDR_GET_ENUM (mem s) (x_private s + of_nat (length as)) = v"
    by (simp_all add: IXDR_GET_LONG_def IXDR_GET_ENUM_def get ucast_scast_32)
qed

definition callmsg_len :: "('s, 'r) rpc_msg \<Rightarrow> nat" where
  "callmsg_len cmsg = length (callmsg_wire cmsg (replicate (auth_pad (cb_cred (rm_call cmsg))) 0)
     (replicate (auth_pad (cb_verf (rm_call cmsg))) 0))"

lemma callmsg_len_code:
  assumes "call_ok cmsg"
  shows "unat (8 * BYTES_PER_XDR_UNIT + RNDUP (oa_length (cb_cred (rm_call cmsg)))
    + 2 * BYTES_PER_XDR_UNIT + RNDUP (oa_length (cb_verf (rm_call cmsg)))) = callmsg_len cmsg"
proof -
  let ?c = "oa_length (cb_cred (rm_call cmsg))" and ?v = "oa_length (cb_verf (rm_call cmsg))"
  have le: "?c \<le> MAX_AUTH_BYTES" "?v \<le> MAX_AUTH_BYTES"
    and body: "length (auth_body (cb_cred (rm_call cmsg))) = unat ?c"
      "length (auth_body (cb_verf (rm_call cmsg))) = unat ?v"
    using assms by (auto simp: call_ok_def auth_ok_def)
  have "unat ?c \<le> 400" "unat ?v \<le> 400" "padding (unat ?c) < 4" "padding (unat ?v) < 4"
    using le by (simp_all add: word_le_nat_alt padding_less)
  then have "unat (32 + RNDUP ?c + 8 + RNDUP ?v) = 32 + unat (RNDUP ?c) + 8 + unat (RNDUP ?v)"
    by (simp add: unat_add_mod unat_RNDUP le)
  then show ?thesis
    using le body by (simp add: BYTES_PER_XDR_UNIT_def callmsg_len_def callmsg_wire_def inline_auth_wire_def
        auth_pad_def unat_RNDUP)
qed

lemma length_callmsg_wire:
  "length pad1 = auth_pad (cb_cred (rm_call cmsg)) \<Longrightarrow> length pad2 = auth_pad (cb_verf (rm_call cmsg)) \<Longrightarrow>
     length (callmsg_wire cmsg pad1 pad2) = callmsg_len cmsg"
  by (simp add: callmsg_len_def callmsg_wire_def inline_auth_wire_def)

lemma callmsg_encode_mem:
  assumes ok: "call_ok cmsg" and room: "callmsg_len cmsg \<le> unat (x_handy s)"
  shows "\<exists>pad1 pad2. length pad1 = auth_pad (cb_cred (rm_call cmsg)) \<and>
    length pad2 = auth_pad (cb_verf (rm_call cmsg)) \<and>
    xdr_callmsg alloc (mem_out.enc s) cmsg =
      (True, mem_out.enc (mem_advance s (callmsg_wire cmsg pad1 pad2)), cmsg)"
proof -
  let ?cb = "rm_call cmsg" and ?p = "x_private s"
  let ?n = "8 * BYTES_PER_XDR_UNIT + RNDUP (oa_length (cb_cred ?cb)) + 2 * BYTES_PER_XDR_UNIT
    + RNDUP (oa_length (cb_verf ?cb))"
  have auths: "auth_ok (cb_cred ?cb)" "auth_ok (cb_verf ?cb)"
    using ok by (simp_all add: call_ok_def)
  let ?head = "xdr_be (ucast (rm_xid cmsg)) @ xdr_be CALL @ xdr_be 2 @ xdr_be (ucast (cb_prog ?cb)) @
    xdr_be (ucast (cb_vers ?cb)) @ xdr_be (ucast (cb_proc ?cb))"
  obtain pad1 where pad1: "length pad1 = auth_pad (cb_cred ?cb)"
    "inline_put_auth (cb_cred ?cb) (cput ?head (mem s, ?p)) = cput (inline_auth_wire (cb_cred ?cb) pad1) (cput ?head (mem s, ?p))"
    using inline_put_auth_cput [OF auths(1)] by blast
  obtain pad2 where pad2: "length pad2 = auth_pad (cb_verf ?cb)"
    "inline_put_auth (cb_verf ?cb) (cput (?head @ inline_auth_wire (cb_cred ?cb) pad1) (mem s, ?p)) =
      cput (inline_auth_wire (cb_verf ?cb) pad2) (cput (?head @ inline_auth_wire (cb_cred ?cb) pad1) (mem s, ?p))"
    using inline_put_auth_cput [OF auths(2)] by blast
  let ?w = "callmsg_wire cmsg pad1 pad2"
  have n: "unat ?n = callmsg_len cmsg" "length ?w = callmsg_len cmsg"
    using callmsg_len_code [OF ok] length_callmsg_wire pad1(1) pad2(1) by auto
  have inline: "callmsg_encode_inline x ?p cmsg = (True, set_mem x (cput ?w (mem s, ?p)))"
    if "mem (x_stream x) = mem s" for x
    using ok that pad1(2) pad2(2)
    by (simp add: callmsg_encode_inline_def call_ok_def IXDR_PUT_cput inline_call_def cput_cput callmsg_wire_def)
  have le: "?n \<le> x_handy s"
    using room n(1) by (simp add: word_le_nat_alt)
  have w: "?n = of_nat (length ?w)" "(ucast ?n :: u64) = of_nat (length ?w)"
    using n by (metis word_of_nat_unat, metis unat_widen_32 word_of_nat_unat)
  have "set_mem (mem_out.enc (mem_skip s ?n)) (cput ?w (mem s, ?p)) = mem_out.enc (mem_advance s ?w)"
    unfolding mem_skip_def w(2) unfolding w(1) by (simp add: set_mem_def mem_advance_def cput_def)
  moreover have "oa_length (cb_cred ?cb) \<le> MAX_AUTH_BYTES" "oa_length (cb_verf ?cb) \<le> MAX_AUTH_BYTES"
    using auths by (simp_all add: auth_ok_def)
  ultimately have "xdr_callmsg alloc (mem_out.enc s) cmsg = (True, mem_out.enc (mem_advance s ?w), cmsg)"
    using le inline [of "mem_out.enc (mem_skip s ?n)"]
    by (simp add: xdr_callmsg_def XDR_INLINE_mem not_less Let_def)
  with pad1(1) pad2(1) show ?thesis
    by blast
qed

text \<open>Reading back, padding bytes ignored.\<close>

lemma inline_get_auth_body_mem:
  assumes ok: "auth_ok oa" "allocates alloc" and oa0: "oa_base oa0 = None" "oa_length oa0 = oa_length oa"
    and avail: "mem_avail s = auth_body oa @ pad @ rest" "length pad = auth_pad oa"
  shows "\<exists>s'. inline_get_auth_body alloc (mem_in.dec s) oa0 = (True, mem_in.dec s', oa0\<lparr>oa_base := oa_base oa\<rparr>) \<and>
    mem_avail s' = rest \<and> mem s' = mem s"
proof (cases "oa_length oa = 0")
  case True
  then have "auth_body oa = []" "pad = []" "oa_base oa = None"
    using ok avail(2) by (auto simp: auth_ok_def auth_pad_def padding_def)
  then show ?thesis
    using avail(1) oa0 True by (intro exI [of _ s]) (simp add: inline_get_auth_body_def)
next
  case False
  let ?n = "RNDUP (oa_length oa)"
  obtain buf where buf: "alloc (oa_length oa) = Some buf" "length buf = unat (oa_length oa)"
    using ok(2) by (auto simp: allocates_def)
  have body: "length (auth_body oa) = unat (oa_length oa)" "oa_base oa = Some (auth_body oa)"
    and max: "oa_length oa \<le> MAX_AUTH_BYTES"
    using ok(1) False by (auto simp: auth_ok_def auth_body_def)
  have "mem_avail s = (auth_body oa @ pad) @ rest" "length (auth_body oa @ pad) = unat ?n"
    using avail body by (simp_all add: unat_RNDUP [OF max] auth_pad_def)
  note skip = mem_avail_skip [OF this]
  have "read_mem (mem s) (x_private s) (unat (oa_length oa)) = auth_body oa"
    using take_read_mem [of "unat (oa_length oa)" "unat ?n" "mem s" "x_private s"] skip(3) body(1)
    by (simp add: unat_RNDUP [OF max])
  then have "inline_get_auth_body alloc (mem_in.dec s) oa0 =
      (True, mem_in.dec (mem_skip s ?n), oa0\<lparr>oa_base := Some (auth_body oa)\<rparr>)"
    using False max oa0 buf skip(1) body(1)
    by (simp add: inline_get_auth_body_def XDR_INLINE_mem not_less blit_def)
  then show ?thesis
    using skip(2) body(2) by auto
qed

lemma inline_get_verf_head_mem:
  assumes "mem_avail s = xdr_be flavor @ xdr_be len @ rest"
  shows "\<exists>s'. inline_get_verf_head (mem_in.dec s) oa0 = (True, mem_in.dec s', oa0\<lparr>oa_flavor := flavor, oa_length := len\<rparr>) \<and>
    mem_avail s' = rest \<and> mem s' = mem s"
proof -
  have "mem_avail s = (xdr_be flavor @ xdr_be len) @ rest" "length (xdr_be flavor @ xdr_be len) = unat (2 * BYTES_PER_XDR_UNIT)"
    using assms by (simp_all add: BYTES_PER_XDR_UNIT_def)
  note skip = mem_avail_skip [OF this]
  show ?thesis
    using skip IXDR_GET_mem(3) [of s "[]" flavor] IXDR_GET_mem(1) [of s "xdr_be flavor" len] assms
    by (intro exI [of _ "mem_skip s (2 * BYTES_PER_XDR_UNIT)"])
      (simp add: inline_get_verf_head_def XDR_INLINE_mem)
qed

lemma callmsg_decode_mem:
  assumes ok: "call_ok cmsg" "allocates alloc"
    and cmsg0: "oa_base (cb_cred (rm_call cmsg0)) = None" "oa_base (cb_verf (rm_call cmsg0)) = None"
    and pads: "length pad1 = auth_pad (cb_cred (rm_call cmsg))" "length pad2 = auth_pad (cb_verf (rm_call cmsg))"
    and avail: "mem_avail s = callmsg_wire cmsg pad1 pad2 @ rest"
  shows "\<exists>s'. xdr_callmsg alloc (mem_in.dec s) cmsg0 = (True, mem_in.dec s',
      cmsg0\<lparr>rm_xid := rm_xid cmsg, rm_direction := CALL, rm_call := rm_call cmsg\<rparr>) \<and>
    mem_avail s' = rest \<and> mem s' = mem s"
proof -
  let ?cb = "rm_call cmsg" and ?m = "mem s" and ?p = "x_private s"
  let ?cred = "cb_cred ?cb" and ?verf = "cb_verf ?cb"
  let ?body = "auth_body ?cred @ pad1 @ inline_auth_wire ?verf pad2 @ rest"
  let ?u = "[ucast (rm_xid cmsg), CALL, 2, ucast (cb_prog ?cb), ucast (cb_vers ?cb), ucast (cb_proc ?cb),
    oa_flavor ?cred, oa_length ?cred]"
  have long: "ucast (ucast v :: u32) = v" if "fits32 v" for v :: u64
    using that by (simp add: fits32_def)
  have fields: "fits32 (rm_xid cmsg)" "fits32 (cb_prog ?cb)" "fits32 (cb_vers ?cb)" "fits32 (cb_proc ?cb)"
    and auths: "auth_ok ?cred" "auth_ok ?verf" and vers: "cb_rpcvers ?cb = RPC_MSG_VERSION"
    using ok(1) by (simp_all add: call_ok_def)
  have head: "mem_avail s = concat (map xdr_be ?u) @ ?body"
    using avail by (simp add: callmsg_wire_def inline_auth_wire_def)
  have unit: "mem_avail s = concat (map xdr_be (take i ?u)) @ xdr_be (?u ! i) @
      (concat (map xdr_be (drop (Suc i) ?u)) @ ?body)" if "i < 8" for i
    using that unfolding head by (subst (1) id_take_nth_drop [of i ?u]) simp_all
  have len: "length (concat (map xdr_be (take i ?u))) = 4 * i" if "i < 8" for i
    using that by (simp add: length_concat sum_list_triv comp_def)
  have get: "IXDR_GET_INT32 ?m (?p + of_nat (4 * i)) = ?u ! i" "IXDR_GET_LONG ?m (?p + of_nat (4 * i)) = ucast (?u ! i)"
    "IXDR_GET_ENUM ?m (?p + of_nat (4 * i)) = ?u ! i" if "i < 8" for i
    using IXDR_GET_mem [OF unit [OF that]] len [OF that] by simp_all
  have skip: "32 \<le> x_handy s" "mem_avail (mem_skip s 32) = ?body"
    using mem_avail_skip [OF head, of 32] by simp_all
  let ?oldcred = "(cb_cred (rm_call cmsg0))\<lparr>oa_flavor := oa_flavor ?cred, oa_length := oa_length ?cred\<rparr>"
  let ?oldverf = "(cb_verf (rm_call cmsg0))\<lparr>oa_flavor := oa_flavor ?verf, oa_length := oa_length ?verf\<rparr>"
  obtain s1 where s1: "inline_get_auth_body alloc (mem_in.dec (mem_skip s 32)) ?oldcred = (True, mem_in.dec s1, ?cred)"
    "mem_avail s1 = xdr_be (oa_flavor ?verf) @ xdr_be (oa_length ?verf) @ (auth_body ?verf @ pad2 @ rest)" "mem s1 = ?m"
    using inline_get_auth_body_mem [OF auths(1) ok(2), of ?oldcred "mem_skip s 32" pad1] cmsg0 skip(2) pads(1)
    by (auto simp: inline_auth_wire_def)
  obtain s2 where s2: "inline_get_verf_head (mem_in.dec s1) (cb_verf (rm_call cmsg0)) = (True, mem_in.dec s2, ?oldverf)"
    "mem_avail s2 = auth_body ?verf @ pad2 @ rest" "mem s2 = ?m"
    using inline_get_verf_head_mem [OF s1(2)] s1(3) by auto
  obtain s3 where s3: "inline_get_auth_body alloc (mem_in.dec s2) ?oldverf = (True, mem_in.dec s3, ?verf)"
    "mem_avail s3 = rest" "mem s3 = ?m"
    using inline_get_auth_body_mem [OF auths(2) ok(2) _ _ s2(2) pads(2), of ?oldverf] cmsg0 s2(3) by auto
  have units: "IXDR_GET_LONG ?m ?p = rm_xid cmsg" "IXDR_GET_ENUM ?m (?p + 4) = CALL"
    "IXDR_GET_LONG ?m (?p + 8) = 2" "IXDR_GET_LONG ?m (?p + 12) = cb_prog ?cb"
    "IXDR_GET_LONG ?m (?p + 16) = cb_vers ?cb" "IXDR_GET_LONG ?m (?p + 20) = cb_proc ?cb"
    "IXDR_GET_ENUM ?m (?p + 24) = oa_flavor ?cred" "IXDR_GET_INT32 ?m (?p + 28) = oa_length ?cred"
    using get(2) [of 0] get(3) [of 1] get(2) [of 2] get(2) [of 3] get(2) [of 4] get(2) [of 5]
      get(3) [of 6] get(1) [of 7] fields
    by (simp_all add: long)
  have "(rm_call cmsg0)\<lparr>cb_rpcvers := 2, cb_prog := cb_prog ?cb, cb_vers := cb_vers ?cb, cb_proc := cb_proc ?cb,
      cb_cred := ?cred, cb_verf := ?verf\<rparr> = ?cb"
    using vers by (cases ?cb) simp
  then have "callmsg_decode_inline alloc (mem_in.dec (mem_skip s 32)) ?p cmsg0 =
      (True, mem_in.dec s3, cmsg0\<lparr>rm_xid := rm_xid cmsg, rm_direction := CALL, rm_call := ?cb\<rparr>)"
    using s1(1) s2(1) s3(1) by (simp add: callmsg_decode_inline_def units)
  then show ?thesis
    using skip(1) s3(2,3) by (intro exI [of _ s3]) (simp add: xdr_callmsg_def XDR_INLINE_mem BYTES_PER_XDR_UNIT_def)
qed

context xdr_sink begin

lemma encodes_callmsg_chain:
  assumes "call_ok cmsg"
  shows "encodes (callmsg_chain alloc) cmsg (callmsg_wire cmsg (replicate (auth_pad (cb_cred (rm_call cmsg))) 0)
     (replicate (auth_pad (cb_verf (rm_call cmsg))) 0))"
proof -
  let ?cb = "rm_call cmsg"
  have wire: "auth_wire oa = inline_auth_wire oa (replicate (auth_pad oa) 0)" if "auth_ok oa" for oa
    using that by (simp add: auth_wire_def inline_auth_wire_def xdr_counted_def xdr_padded_def auth_pad_def
        auth_ok_def) (metis word_of_nat_unat)
  have "encodes xdr_enum (rm_direction cmsg) (xdr_be CALL)" "encodes xdr_u_long (cb_rpcvers ?cb) (xdr_be 2)"
    using assms encodes_xdr_enum [of CALL] encodes_u_long [of 2] by (simp_all add: call_ok_def fits32_def)
  moreover have "encodes (holds (\<lambda>cmsg. rm_direction cmsg = CALL)) cmsg []"
    "encodes (holds (\<lambda>cmsg. cb_rpcvers (rm_call cmsg) = RPC_MSG_VERSION)) cmsg []"
    using assms by (simp_all add: encodes_holds call_ok_def)
  moreover have "encodes (xdr_opaque_auth alloc) (cb_cred ?cb) (auth_wire (cb_cred ?cb))"
    "encodes (xdr_opaque_auth alloc) (cb_verf ?cb) (auth_wire (cb_verf ?cb))"
    using assms by (simp_all add: encodes_opaque_auth call_ok_def)
  ultimately have "encodes (callmsg_chain alloc) cmsg (xdr_be (ucast (rm_xid cmsg)) @ xdr_be CALL @ [] @ xdr_be 2 @ [] @
     xdr_be (ucast (cb_prog ?cb)) @ xdr_be (ucast (cb_vers ?cb)) @ xdr_be (ucast (cb_proc ?cb)) @
     auth_wire (cb_cred ?cb) @ auth_wire (cb_verf ?cb))"
    using assms unfolding callmsg_chain_def call_ok_def
    by (intro encodes_and_then encodes_member encodes_u_long) simp_all
  then show ?thesis
    using assms by (simp add: callmsg_wire_def wire call_ok_def)
qed

end

section \<open>Properties\<close>

text \<open>A message structure with nothing in it but the client's result procedure.\<close>

definition null_auth :: opaque_auth where
  "null_auth = \<lparr>oa_flavor = 0, oa_base = None, oa_length = 0\<rparr>"

definition blank_msg :: "('s, 'r) xdr_filter \<Rightarrow> 'r \<Rightarrow> ('s, 'r) rpc_msg" where
  "blank_msg proc w = \<lparr>rm_xid = 0, rm_direction = 0,
     rm_call = \<lparr>cb_rpcvers = 0, cb_prog = 0, cb_vers = 0, cb_proc = 0, cb_cred = null_auth, cb_verf = null_auth\<rparr>,
     rm_reply = \<lparr>rp_stat = 0, rp_ru =
       \<lparr>RP_ar = \<lparr>ar_verf = null_auth, ar_stat = 0, ar_vers_low = 0, ar_vers_high = 0, ar_where = w, ar_proc = proc\<rparr>,
        RP_dr = \<lparr>rj_stat = 0, rj_vers_low = 0, rj_vers_high = 0, rj_why = 0\<rparr>\<rparr>\<rparr>\<rparr>"

text \<open>
  C20. xdr_replymsg on a memory stream: every reply, accepted or denied, with its verifier and
  its results, is written in the form the RPC protocol prescribes and read back into the
  client's message structure, given that the client's result procedure has an external form
  for the result.
\<close>

theorem replymsg_mem_roundtrip:
  assumes "reply_ok rep" "allocates alloc" "ar = RP_ar (rp_ru (rm_reply msg))" "oa_base (ar_verf ar) = None"
    and result: "\<forall>verf w. rep = Success verf w \<longrightarrow> mem_codec (ar_proc ar) w (ar_where ar) (rwire w)"
  shows "mem_roundtrip (xdr_replymsg alloc) (fill_msg xid rep msg) msg (replymsg_wire rwire xid rep)"
proof (rule mem_roundtripI)
  show "mem_out.encodes (xdr_replymsg alloc) (fill_msg xid rep msg) (replymsg_wire rwire xid rep)"
    using assms by (intro mem_out.encodes_replymsg) (auto simp: mem_codec_def)
  show "mem_in.decodes m base limit (xdr_replymsg alloc) msg (replymsg_wire rwire xid rep) (fill_msg xid rep msg)"
    for m base limit
    using assms by (intro mem_in.decodes_replymsg) (auto simp: mem_codec_def)
qed

theorem replymsg_mem_roundtrip_witness:
  "mem_roundtrip (xdr_replymsg (\<lambda>n. Some (replicate (unat n) 7)))
     (fill_msg 5 (Success null_auth 42) (blank_msg xdr_int 0)) (blank_msg xdr_int 0)
     (replymsg_wire xdr_be 5 (Success null_auth 42))"
proof -
  have "auth_ok null_auth"
    by (simp add: auth_ok_def null_auth_def auth_body_def)
  moreover have "mem_codec xdr_int w 0 (xdr_be w)" for w
    by (simp add: mem_codec_def mem_out.encodes_xdr_int mem_in.decodes_xdr_int)
  moreover have "oa_base (ar_verf (RP_ar (rp_ru (rm_reply (blank_msg xdr_int 0))))) = None"
    by (simp add: blank_msg_def null_auth_def)
  ultimately show ?thesis
    by (intro replymsg_mem_roundtrip [OF _ _ refl]) (simp_all add: allocates_def blank_msg_def)
qed

fun status_of :: "'r reply \<Rightarrow> clnt_stat" where
  "status_of (Success verf w) = RPC_SUCCESS"
| "status_of (Program_mismatch verf lo hi) = RPC_PROGVERSMISMATCH"
| "status_of (Call_failed verf st) =
     (if st = PROG_UNAVAIL then RPC_PROGUNAVAIL else if st = PROC_UNAVAIL then RPC_PROCUNAVAIL
      else if st = GARBAGE_ARGS then RPC_CANTDECODEARGS else if st = SYSTEM_ERR then RPC_SYSTEMERROR
      else RPC_FAILED)"
| "status_of (Rpc_mismatch lo hi) = RPC_VERSMISMATCH"
| "status_of (Auth_error why) = RPC_AUTHERROR"

text \<open>
  _seterr_reply on a decoded reply reports RPC_SUCCESS for successful calls only, the
  status that belongs to the reply otherwise, together with the version range of a mismatch
  and the reason of an authentication error; an accept status the client does not know is
  RPC_FAILED with that status as debugging data.
\<close>

theorem seterr_reply_correct:
  assumes "reply_ok rep"
  shows "let e = seterr_reply (fill_msg xid rep msg) err in
    re_status e = status_of rep \<and>
    (re_status e = RPC_SUCCESS \<longleftrightarrow> (\<exists>verf w. rep = Success verf w)) \<and>
    (case rep of
       Program_mismatch _ lo hi \<Rightarrow> re_vers_low e = ucast lo \<and> re_vers_high e = ucast hi
     | Rpc_mismatch lo hi \<Rightarrow> re_vers_low e = ucast lo \<and> re_vers_high e = ucast hi
     | Auth_error why \<Rightarrow> re_why e = why
     | Call_failed _ st \<Rightarrow> 5 < st \<longrightarrow> re_lb_s2 e = ucast st
     | Success _ _ \<Rightarrow> e = err\<lparr>re_status := RPC_SUCCESS\<rparr>)"
proof (cases rep)
  case (Call_failed verf st)
  with assms have "st \<noteq> 0" "st \<noteq> 2" by simp_all
  with Call_failed show ?thesis
    by (auto simp: fill_msg_def seterr_reply_def seterr_versions_def accepted_def Let_def)
qed (auto simp: fill_msg_def seterr_reply_def seterr_versions_def accepted_def rejected_def Let_def)

definition no_err :: rpc_err where
  "no_err = \<lparr>re_status = RPC_TIMEDOUT, re_why = 0, re_vers_low = 0, re_vers_high = 0, re_lb_s1 = 0, re_lb_s2 = 0\<rparr>"

theorem seterr_reply_correct_witness:
  "re_status (seterr_reply (fill_msg 1 (Rpc_mismatch 2 3) (blank_msg xdr_int 0 :: (xdrmem, u32) rpc_msg)) no_err)
     = RPC_VERSMISMATCH"
  using seterr_reply_correct [of "Rpc_mismatch 2 3" 1 "blank_msg xdr_int 0 :: (xdrmem, u32) rpc_msg" no_err]
  by (simp add: Let_def)

text \<open>
  xdr_pmaplist: a list of portmapper mappings is written as the protocol's chain of
  booleans and mappings and read back node by node from a null pointer, one turn of the loop
  per mapping and one for the end.
\<close>

theorem pmaplist_mem_roundtrip:
  assumes "calloc 1 40 = Some z" "\<forall>p\<in>set ps. pmap_ok p" "length ps < fuel"
  shows "mem_roundtrip (run_pmaplist fuel calloc) ps [] (pmaplist_wire ps)"
  using assms by (intro mem_roundtripI mem_out.encodes_pmaplist mem_in.decodes_pmaplist)

theorem pmaplist_mem_roundtrip_witness:
  "mem_roundtrip (run_pmaplist 2 (\<lambda>_ _. Some \<lparr>pm_prog = 0, pm_vers = 0, pm_prot = 0, pm_port = 0\<rparr>))
     [\<lparr>pm_prog = 100000, pm_vers = 2, pm_prot = 17, pm_port = 111\<rparr>] []
     (pmaplist_wire [\<lparr>pm_prog = 100000, pm_vers = 2, pm_prot = 17, pm_port = 111\<rparr>])"
  by (rule pmaplist_mem_roundtrip [where z = "\<lparr>pm_prog = 0, pm_vers = 0, pm_prot = 0, pm_port = 0\<rparr>"])
    (simp_all add: pmap_ok_def fits32_def)

text \<open>
  xdr_authunix_parms on a memory stream: Unix credentials with a machine name of at most
  255 characters and up to 16 supplementary groups are written and read back, name and group
  array freshly allocated.
\<close>

theorem authunix_mem_roundtrip:
  assumes "allocates alloc" "callocates 0 calloc"
    and "fits32 (aup_time p)" "aup_machname p = Some (name @ [0])" "0 \<notin> set name" "length name \<le> 255"
    and "aup_gids p = Some gids" "gids \<noteq> []" "unat (aup_len p) = length gids" "length gids \<le> 16"
    and "aup_machname p0 = None" "aup_gids p0 = None"
  shows "mem_roundtrip (xdr_authunix_parms alloc calloc) p p0 (xdr_be (ucast (aup_time p)) @ xdr_counted name @
    xdr_be (aup_uid p) @ xdr_be (aup_gid p) @ xdr_be (aup_len p) @ concat (map xdr_be gids))"
  using assms by (intro mem_roundtripI mem_out.encodes_authunix mem_in.decodes_authunix) simp_all

theorem authunix_mem_roundtrip_witness:
  "mem_roundtrip (xdr_authunix_parms (\<lambda>n. Some (replicate (unat n) 7)) (\<lambda>n _. Some (replicate (unat n) 0)))
     \<lparr>aup_time = 9, aup_machname = Some [104, 0], aup_uid = 1000, aup_gid = 100, aup_len = 2, aup_gids = Some [4, 27]\<rparr>
     \<lparr>aup_time = 0, aup_machname = None, aup_uid = 0, aup_gid = 0, aup_len = 0, aup_gids = None\<rparr>
     (xdr_be 9 @ xdr_counted [104] @ xdr_be 1000 @ xdr_be 100 @ xdr_be 2 @ concat (map xdr_be [4, 27]))"
  using authunix_mem_roundtrip [of "\<lambda>n. Some (replicate (unat n) 7)" "\<lambda>n _. Some (replicate (unat n) 0)"
      "\<lparr>aup_time = 9, aup_machname = Some [104, 0], aup_uid = 1000, aup_gid = 100, aup_len = 2, aup_gids = Some [4, 27]\<rparr>"
      "[104]" "[4, 27]"
      "\<lparr>aup_time = 0, aup_machname = None, aup_uid = 0, aup_gid = 0, aup_len = 0, aup_gids = None\<rparr>"]
  by (simp add: allocates_def callocates_def fits32_def)

text \<open>
  C19. xdr_callmsg on a memory stream, inline paths included: a well-formed call is written
  exactly when the buffer has room for it, into the protocol's bytes up to the padding of the
  authenticators, without touching memory outside, and is read back whatever the padding
  holds, into freshly allocated authenticator bodies.
\<close>

theorem callmsg_mem_roundtrip:
  assumes "call_ok cmsg" "allocates alloc"
    and "oa_base (cb_cred (rm_call cmsg0)) = None" "oa_base (cb_verf (rm_call cmsg0)) = None"
  shows "let (ok, x, cmsg') = xdr_callmsg alloc (xdrmem_create m addr sz XDR_ENCODE) cmsg; m' = mem (x_stream x);
             n = callmsg_len cmsg in
    (ok \<longleftrightarrow> n \<le> unat sz) \<and>
    (ok \<longrightarrow> cmsg' = cmsg \<and> unat (XDR_GETPOS x) = n \<and>
      (\<exists>pad1 pad2. length pad1 = auth_pad (cb_cred (rm_call cmsg)) \<and> length pad2 = auth_pad (cb_verf (rm_call cmsg)) \<and>
         read_mem m' addr n = callmsg_wire cmsg pad1 pad2) \<and>
      (\<forall>q. n \<le> unat (q - addr) \<longrightarrow> m' q = m q) \<and>
      (\<exists>x'. xdr_callmsg alloc (xdrmem_create m' addr sz XDR_DECODE) cmsg0 =
         (True, x', cmsg0\<lparr>rm_xid := rm_xid cmsg, rm_direction := CALL, rm_call := rm_call cmsg\<rparr>)))"
proof (cases "callmsg_len cmsg \<le> unat sz")
  case False
  let ?s = "\<lparr>mem = m, x_private = addr, x_base = addr, x_handy = sz\<rparr>"
  have "\<not> (8 * BYTES_PER_XDR_UNIT + RNDUP (oa_length (cb_cred (rm_call cmsg))) + 2 * BYTES_PER_XDR_UNIT
      + RNDUP (oa_length (cb_verf (rm_call cmsg))) \<le> sz)"
    using False callmsg_len_code [OF assms(1)] by (simp add: word_le_nat_alt)
  moreover have "\<not> fst (callmsg_chain alloc (mem_out.enc ?s) cmsg)"
    using mem_out.encodes_full [OF mem_out.encodes_callmsg_chain [OF assms(1), where alloc = alloc], of ?s] False
    by (auto simp: mem_room_def callmsg_len_def)
  ultimately have "\<not> fst (xdr_callmsg alloc (mem_out.enc ?s) cmsg)"
    by (auto simp: xdr_callmsg_def XDR_INLINE_mem Let_def)
  with False show ?thesis
    by (auto simp: xdrmem_create_def mem_out.enc_def split: prod.split)
next
  case True
  let ?s = "\<lparr>mem = m, x_private = addr, x_base = addr, x_handy = sz\<rparr>"
  obtain pad1 pad2 where pads: "length pad1 = auth_pad (cb_cred (rm_call cmsg))"
      "length pad2 = auth_pad (cb_verf (rm_call cmsg))"
    and enc: "xdr_callmsg alloc (mem_out.enc ?s) cmsg =
      (True, mem_out.enc (mem_advance ?s (callmsg_wire cmsg pad1 pad2)), cmsg)"
    using callmsg_encode_mem [OF assms(1), of ?s alloc] True by auto
  let ?w = "callmsg_wire cmsg pad1 pad2" and ?n = "callmsg_len cmsg"
  let ?s1 = "mem_advance ?s ?w"
  have len: "length ?w = ?n"
    using pads by (rule length_callmsg_wire)
  have small: "?n < 2 ^ 32"
    using True unsigned_less [of sz, where 'a = nat] by simp
  have m1: "mem ?s1 = write_mem m addr ?w"
    by (simp add: mem_advance_def)
  have bytes: "read_mem (mem ?s1) addr ?n = ?w"
    using read_write_mem [of ?w m addr] small len by (simp add: m1)
  have pos: "unat (XDR_GETPOS (mem_out.enc ?s1)) = ?n"
    using small by (simp add: XDR_GETPOS_def xdrmem_getpos_def mem_advance_def len ucast_narrow_nat unat_word_of_nat_mod)
  let ?d = "\<lparr>mem = mem ?s1, x_private = addr, x_base = addr, x_handy = sz\<rparr>"
  have "mem_avail ?d = ?w @ read_mem (mem ?s1) (addr + of_nat ?n) (unat sz - ?n)"
    using read_mem_add [of "mem ?s1" addr ?n "unat sz - ?n"] bytes True by (simp add: mem_avail_def)
  from callmsg_decode_mem [OF assms pads this] have "\<exists>x'. xdr_callmsg alloc (xdrmem_create (mem ?s1) addr sz XDR_DECODE) cmsg0 =
      (True, x', cmsg0\<lparr>rm_xid := rm_xid cmsg, rm_direction := CALL, rm_call := rm_call cmsg\<rparr>)"
    by (auto simp: xdrmem_create_def mem_in.dec_def)
  moreover have "\<forall>q. ?n \<le> unat (q - addr) \<longrightarrow> mem ?s1 q = m q"
    by (simp add: m1 write_mem_outside len)
  moreover have "xdr_callmsg alloc (xdrmem_create m addr sz XDR_ENCODE) cmsg = (True, mem_out.enc ?s1, cmsg)"
    using enc by (simp add: xdrmem_create_def mem_out.enc_def)
  ultimately show ?thesis
    using True pos bytes pads by auto
qed

definition demo_call :: "(xdrmem, u32) rpc_msg" where
  "demo_call = (blank_msg xdr_int 0)\<lparr>rm_call := \<lparr>cb_rpcvers = 2, cb_prog = 100000, cb_vers = 2, cb_proc = 3,
     cb_cred = \<lparr>oa_flavor = 1, oa_base = Some [9], oa_length = 1\<rparr>, cb_verf = null_auth\<rparr>\<rparr>"

theorem callmsg_mem_roundtrip_witness:
  "fst (xdr_callmsg (\<lambda>n. Some (replicate (unat n) 7)) (xdrmem_create (\<lambda>_. 255) 4096 100 XDR_ENCODE) demo_call)"
proof -
  have ok: "call_ok demo_call"
    by (simp add: call_ok_def demo_call_def blank_msg_def null_auth_def auth_ok_def auth_body_def fits32_def)
  have "callmsg_len demo_call \<le> 100"
    by (simp add: callmsg_len_def callmsg_wire_def inline_auth_wire_def demo_call_def null_auth_def auth_body_def
        auth_pad_def padding_def)
  then show ?thesis
    using callmsg_mem_roundtrip [OF ok, of "\<lambda>n. Some (replicate (unat n) 7)" "blank_msg xdr_int 0"
        "\<lambda>_. 255" 4096 100]
    by (auto simp: allocates_def blank_msg_def null_auth_def Let_def split: prod.splits)
qed

end
