(* ===== verification/Xdr_Rec.thy ===== *)
theory Xdr_Rec
  imports Rpc
begin

text \<open>
  The record stream of sunrpc/xdr_rec.c: XDR over a byte transport, cut into records and the
  records into fragments. The transport is whatever the callbacks \<open>readit\<close> and \<open>writeit\<close>
  reach through the opaque handle; both are parameters of the stream, as in the C structure.

  The stream buffers are byte lists and the pointers into them are offsets from out_base and
  in_base. Both bases are aligned to XDR units, so that the alignment of an input pointer is
  that of its offset. Loops that read from the transport run for as long as it yields empty
  reads; they are defined in the option monad, where \<open>None\<close> is a loop that does not end. The
  callbacks of the RPC transports (readtcp in clnt_tcp.c and svc_tcp.c, and the same for local
  sockets) turn the end of the input into \<open>-1\<close>, which ends these loops; an empty read does not.
\<close>

section \<open>State\<close>

record 'h rec_strm =
  tcp_handle :: 'h
  writeit :: "'h \<Rightarrow> byte list \<Rightarrow> int \<times> 'h"
  out_buf :: "byte list"
  out_finger :: nat
  out_boundry :: nat
  frag_header :: nat
  frag_sent :: bool
  readit :: "'h \<Rightarrow> nat \<Rightarrow> int \<times> byte list \<times> 'h"
  in_buf :: "byte list"
  in_size :: nat
  in_finger :: nat
  in_boundry :: nat
  fbtbc :: nat
  last_frag :: bool

definition LAST_FRAG :: u32 where
  "LAST_FRAG = push_bit 31 1"

definition fix_buf_size :: "u32 \<Rightarrow> u32" where
  "fix_buf_size s = (let s = (if s < 100 then 4000 else s) in RNDUP s)"

text \<open>Both blocks are asked for, the structure and the buffers, before either result is tested. The
  size of the buffers is a u_int sum, which wraps around.\<close>

definition sizeof_RECSTREAM :: nat where
  "sizeof_RECSTREAM = 128"

definition xdrrec_create ::
  "(nat \<Rightarrow> byte list option) \<Rightarrow> u32 \<Rightarrow> u32 \<Rightarrow> 'h \<Rightarrow> ('h \<Rightarrow> nat \<Rightarrow> int \<times> byte list \<times> 'h)
     \<Rightarrow> ('h \<Rightarrow> byte list \<Rightarrow> int \<times> 'h) \<Rightarrow> 'h rec_strm option" where
  "xdrrec_create mem_alloc sendsize recvsize handle rd wr =
     (let rstrm = mem_alloc sizeof_RECSTREAM;
          sendsize = fix_buf_size sendsize; recvsize = fix_buf_size recvsize;
          buf = mem_alloc (unat (sendsize + recvsize + BYTES_PER_XDR_UNIT)) in
      if rstrm = None \<or> buf = None then None
      else let buf = the buf in Some
         \<lparr>tcp_handle = handle, writeit = wr,
          out_buf = take (unat sendsize) buf, out_finger = 4, out_boundry = unat sendsize,
          frag_header = 0, frag_sent = False,
          readit = rd, in_buf = take (unat recvsize) (drop (unat sendsize) buf), in_size = unat recvsize,
          in_finger = unat recvsize, in_boundry = unat recvsize, fbtbc = 0, last_frag = True\<rparr>)"

section \<open>Output\<close>

definition flush_out :: "'h rec_strm \<Rightarrow> bool \<Rightarrow> bool \<times> 'h rec_strm" where
  "flush_out rstrm eor =
     (let eormask = (if eor then LAST_FRAG else 0);
          len = out_finger rstrm - frag_header rstrm - 4;
          rstrm = rstrm\<lparr>out_buf := blit (out_buf rstrm) (frag_header rstrm)
                     (store32 (bswap_32 (word_of_nat len OR eormask)))\<rparr>;
          len = out_finger rstrm;
          (n, h) = writeit rstrm (tcp_handle rstrm) (take len (out_buf rstrm));
          rstrm = rstrm\<lparr>tcp_handle := h\<rparr> in
      if n \<noteq> int len then (False, rstrm)
      else (True, rstrm\<lparr>frag_header := 0, out_finger := 4\<rparr>))"

definition put_unit :: "'h rec_strm \<Rightarrow> u32 \<Rightarrow> bool \<times> 'h rec_strm" where
  "put_unit rstrm w =
     (let (ok, rstrm) =
        (if out_finger rstrm + 4 > out_boundry rstrm
         then flush_out (rstrm\<lparr>frag_sent := True\<rparr>) False
         else (True, rstrm)) in
      if \<not> ok then (False, rstrm)
      else (True, rstrm\<lparr>out_buf := blit (out_buf rstrm) (out_finger rstrm) (store32 (bswap_32 w)),
                        out_finger := out_finger rstrm + 4\<rparr>))"

definition xdrrec_putlong :: "'h rec_strm \<Rightarrow> u64 \<Rightarrow> bool \<times> 'h rec_strm" where
  "xdrrec_putlong rstrm lp = put_unit rstrm (ucast lp)"

definition xdrrec_putint32 :: "'h rec_strm \<Rightarrow> u32 \<Rightarrow> bool \<times> 'h rec_strm" where
  "xdrrec_putint32 rstrm ip = put_unit rstrm ip"

partial_function (option) putbytes_loop :: "'h rec_strm \<Rightarrow> byte list \<Rightarrow> (bool \<times> 'h rec_strm) option" where
  "putbytes_loop rstrm addr =
     (if addr = [] then Some (True, rstrm)
      else let current = min (length addr) (out_boundry rstrm - out_finger rstrm);
               rstrm = rstrm\<lparr>out_buf := blit (out_buf rstrm) (out_finger rstrm) (take current addr),
                             out_finger := out_finger rstrm + current\<rparr>;
               addr = drop current addr in
      if out_finger rstrm = out_boundry rstrm \<and> addr \<noteq> []
      then let r = flush_out (rstrm\<lparr>frag_sent := True\<rparr>) False in
           if \<not> fst r then Some (False, snd r) else putbytes_loop (snd r) addr
      else putbytes_loop rstrm addr)"

text \<open>In the operations vector an endless loop has to have some value; it counts as failure.\<close>

definition xdrrec_putbytes :: "'h rec_strm \<Rightarrow> byte list \<Rightarrow> u32 \<Rightarrow> bool \<times> 'h rec_strm" where
  "xdrrec_putbytes rstrm addr len =
     (case putbytes_loop rstrm (take (unat len) addr) of None \<Rightarrow> (False, rstrm) | Some r \<Rightarrow> r)"

definition xdrrec_endofrecord :: "'h rec_strm \<Rightarrow> bool \<Rightarrow> bool \<times> 'h rec_strm" where
  "xdrrec_endofrecord rstrm sendnow =
     (if sendnow \<or> frag_sent rstrm \<or> out_finger rstrm + 4 \<ge> out_boundry rstrm
      then flush_out (rstrm\<lparr>frag_sent := False\<rparr>) True
      else let len = out_finger rstrm - frag_header rstrm - 4 in
           (True, rstrm\<lparr>out_buf := blit (out_buf rstrm) (frag_header rstrm)
                          (store32 (bswap_32 (word_of_nat len OR LAST_FRAG))),
                        frag_header := out_finger rstrm, out_finger := out_finger rstrm + 4\<rparr>))"

section \<open>Input\<close>

definition fill_input_buf :: "'h rec_strm \<Rightarrow> bool \<times> 'h rec_strm" where
  "fill_input_buf rstrm =
     (let i = in_boundry rstrm mod 4; len = in_size rstrm - i;
          (n, bs, h) = readit rstrm (tcp_handle rstrm) len;
          rstrm = rstrm\<lparr>tcp_handle := h\<rparr> in
      if n = - 1 then (False, rstrm)
      else (True, rstrm\<lparr>in_buf := blit (in_buf rstrm) i bs, in_finger := i, in_boundry := i + nat n\<rparr>))"

text \<open>\<open>got\<close> are the bytes already copied to the caller.\<close>

partial_function (option) get_input_bytes ::
  "'h rec_strm \<Rightarrow> byte list \<Rightarrow> nat \<Rightarrow> (bool \<times> 'h rec_strm \<times> byte list) option" where
  "get_input_bytes rstrm got len =
     (if len = 0 then Some (True, rstrm, got)
      else let current = in_boundry rstrm - in_finger rstrm in
      if current = 0
      then let r = fill_input_buf rstrm in
           if \<not> fst r then Some (False, snd r, got) else get_input_bytes (snd r) got len
      else let current = min len current in
           get_input_bytes (rstrm\<lparr>in_finger := in_finger rstrm + current\<rparr>)
             (got @ take current (drop (in_finger rstrm) (in_buf rstrm))) (len - current))"

partial_function (option) skip_input_bytes :: "'h rec_strm \<Rightarrow> nat \<Rightarrow> (bool \<times> 'h rec_strm) option" where
  "skip_input_bytes rstrm cnt =
     (if cnt = 0 then Some (True, rstrm)
      else let current = in_boundry rstrm - in_finger rstrm in
      if current = 0
      then let r = fill_input_buf rstrm in
           if \<not> fst r then Some (False, snd r) else skip_input_bytes (snd r) cnt
      else let current = min cnt current in
           skip_input_bytes (rstrm\<lparr>in_finger := in_finger rstrm + current\<rparr>) (cnt - current))"

definition set_input_fragment :: "'h rec_strm \<Rightarrow> (bool \<times> 'h rec_strm) option" where
  "set_input_fragment rstrm =
     map_option (\<lambda>(ok, rstrm, bs).
       if \<not> ok then (False, rstrm)
       else let header = bswap_32 (load32 bs);
                rstrm = rstrm\<lparr>last_frag := (header AND LAST_FRAG \<noteq> 0)\<rparr> in
            if header = 0 then (False, rstrm)
            else (True, rstrm\<lparr>fbtbc := unat (header AND NOT LAST_FRAG)\<rparr>))
       (get_input_bytes rstrm [] 4)"

partial_function (option) getbytes_loop ::
  "'h rec_strm \<Rightarrow> byte list \<Rightarrow> nat \<Rightarrow> (bool \<times> 'h rec_strm \<times> byte list) option" where
  "getbytes_loop rstrm got len =
     (if len = 0 then Some (True, rstrm, got)
      else if fbtbc rstrm = 0
      then if last_frag rstrm then Some (False, rstrm, got)
           else Option.bind (set_input_fragment rstrm) (\<lambda>r.
             if \<not> fst r then Some (False, snd r, got) else getbytes_loop (snd r) got len)
      else let current = min len (fbtbc rstrm) in
           Option.bind (get_input_bytes rstrm got current) (\<lambda>r.
             if \<not> fst r then Some (False, fst (snd r), snd (snd r))
             else getbytes_loop ((fst (snd r))\<lparr>fbtbc := fbtbc (fst (snd r)) - current\<rparr>) (snd (snd r)) (len - current)))"

definition xdrrec_getbytes :: "'h rec_strm \<Rightarrow> byte list \<Rightarrow> u32 \<Rightarrow> bool \<times> 'h rec_strm \<times> byte list" where
  "xdrrec_getbytes rstrm addr len =
     (case getbytes_loop rstrm [] (unat len) of
        None \<Rightarrow> (False, rstrm, addr)
      | Some (ok, rstrm, bs) \<Rightarrow> (ok, rstrm, blit addr 0 bs))"

definition get_unit :: "'h rec_strm \<Rightarrow> bool \<times> 'h rec_strm \<times> u32" where
  "get_unit rstrm =
     (if fbtbc rstrm \<ge> 4 \<and> in_boundry rstrm - in_finger rstrm \<ge> 4
      then (True, rstrm\<lparr>fbtbc := fbtbc rstrm - 4, in_finger := in_finger rstrm + 4\<rparr>,
            bswap_32 (load32 (take 4 (drop (in_finger rstrm) (in_buf rstrm)))))
      else let (ok, rstrm, mylong) = xdrrec_getbytes rstrm [0, 0, 0, 0] BYTES_PER_XDR_UNIT in
           if \<not> ok then (False, rstrm, 0) else (True, rstrm, bswap_32 (load32 mylong)))"

definition xdrrec_getlong :: "'h rec_strm \<Rightarrow> u64 \<Rightarrow> bool \<times> 'h rec_strm \<times> u64" where
  "xdrrec_getlong rstrm lp =
     (let (ok, rstrm, w) = get_unit rstrm in if ok then (True, rstrm, scast w) else (False, rstrm, lp))"

definition xdrrec_getint32 :: "'h rec_strm \<Rightarrow> u32 \<Rightarrow> bool \<times> 'h rec_strm \<times> u32" where
  "xdrrec_getint32 rstrm ip =
     (let (ok, rstrm, w) = get_unit rstrm in if ok then (True, rstrm, w) else (False, rstrm, ip))"

partial_function (option) skip_to_end :: "'h rec_strm \<Rightarrow> (bool \<times> 'h rec_strm) option" where
  "skip_to_end rstrm =
     (if fbtbc rstrm > 0 \<or> \<not> last_frag rstrm
      then Option.bind (skip_input_bytes rstrm (fbtbc rstrm)) (\<lambda>r.
        if \<not> fst r then Some (False, snd r)
        else let rstrm = (snd r)\<lparr>fbtbc := 0\<rparr> in
        if last_frag rstrm then skip_to_end rstrm
        else Option.bind (set_input_fragment rstrm) (\<lambda>r.
          if \<not> fst r then Some (False, snd r) else skip_to_end (snd r)))
      else Some (True, rstrm))"

definition xdrrec_skiprecord :: "'h rec_strm \<Rightarrow> (bool \<times> 'h rec_strm) option" where
  "xdrrec_skiprecord rstrm =
     map_option (\<lambda>(ok, rstrm). if ok then (True, rstrm\<lparr>last_frag := False\<rparr>) else (False, rstrm))
       (skip_to_end rstrm)"

definition xdrrec_eof :: "'h rec_strm \<Rightarrow> (bool \<times> 'h rec_strm) option" where
  "xdrrec_eof rstrm =
     map_option (\<lambda>(ok, rstrm). (\<not> ok \<or> in_finger rstrm = in_boundry rstrm, rstrm)) (skip_to_end rstrm)"

section \<open>Positions and inline buffers\<close>

text \<open>\<open>lseek h\<close> is the result of lseek on the handle with offset 0 from the current position.\<close>

definition xdrrec_getpos :: "('h \<Rightarrow> int) \<Rightarrow> xdr_op \<Rightarrow> 'h rec_strm \<Rightarrow> u32" where
  "xdrrec_getpos lseek op rstrm =
     (let pos = lseek (tcp_handle rstrm) in
      word_of_int (if pos \<noteq> - 1 then
        (case op of
           XDR_ENCODE \<Rightarrow> pos + int (out_finger rstrm)
         | XDR_DECODE \<Rightarrow> pos - int (in_boundry rstrm - in_finger rstrm)
         | XDR_FREE \<Rightarrow> 2 ^ 32 - 1)
       else pos))"

definition xdrrec_setpos :: "('h \<Rightarrow> int) \<Rightarrow> xdr_op \<Rightarrow> 'h rec_strm \<Rightarrow> u32 \<Rightarrow> bool \<times> 'h rec_strm" where
  "xdrrec_setpos lseek op rstrm pos =
     (let currpos = xdrrec_getpos lseek op rstrm; delta = sint (currpos - pos) in
      if sint currpos \<noteq> - 1 then
        (case op of
           XDR_ENCODE \<Rightarrow>
             let newpos = int (out_finger rstrm) - delta in
             if newpos > int (frag_header rstrm) \<and> newpos < int (out_boundry rstrm)
             then (True, rstrm\<lparr>out_finger := nat newpos\<rparr>) else (False, rstrm)
         | XDR_DECODE \<Rightarrow>
             let newpos = int (in_finger rstrm) - delta in
             if delta < int (fbtbc rstrm) \<and> newpos \<le> int (in_boundry rstrm) \<and> newpos \<ge> 0
             then (True, rstrm\<lparr>in_finger := nat newpos, fbtbc := nat (int (fbtbc rstrm) - delta)\<rparr>)
             else (False, rstrm)
         | XDR_FREE \<Rightarrow> (False, rstrm))
      else (False, rstrm))"

text \<open>The pointer handed out is the offset into the output or the input buffer.\<close>

definition xdrrec_inline :: "xdr_op \<Rightarrow> 'h rec_strm \<Rightarrow> u32 \<Rightarrow> u64 option \<times> 'h rec_strm" where
  "xdrrec_inline op rstrm len = (case op of
     XDR_ENCODE \<Rightarrow>
       if out_finger rstrm + unat len \<le> out_boundry rstrm
       then (Some (word_of_nat (out_finger rstrm)), rstrm\<lparr>out_finger := out_finger rstrm + unat len\<rparr>)
       else (None, rstrm)
   | XDR_DECODE \<Rightarrow>
       if unat len \<le> fbtbc rstrm \<and> in_finger rstrm + unat len \<le> in_boundry rstrm
       then (Some (word_of_nat (in_finger rstrm)),
             rstrm\<lparr>fbtbc := fbtbc rstrm - unat len, in_finger := in_finger rstrm + unat len\<rparr>)
       else (None, rstrm)
   | XDR_FREE \<Rightarrow> (None, rstrm))"

text \<open>xdrrec_destroy releases the buffers; what is left of the stream is not used again.\<close>

definition xdrrec_destroy :: "'h rec_strm \<Rightarrow> 'h rec_strm" where
  "xdrrec_destroy rstrm = rstrm\<lparr>out_buf := [], in_buf := []\<rparr>"

definition xdrrec_ops :: "('h \<Rightarrow> int) \<Rightarrow> 'h rec_strm xdr_ops" where
  "xdrrec_ops lseek = \<lparr>x_getlong = xdrrec_getlong, x_putlong = xdrrec_putlong,
     x_getbytes = xdrrec_getbytes, x_putbytes = xdrrec_putbytes,
     x_getpostn = xdrrec_getpos lseek, x_setpostn = xdrrec_setpos lseek, x_inline = xdrrec_inline,
     x_destroy = xdrrec_destroy, x_getint32 = xdrrec_getint32, x_putint32 = xdrrec_putint32\<rparr>"

section \<open>Writing a record\<close>

text \<open>What the stream relies on: the write callback takes everything it is given. \<open>sent\<close> is
  what the transport has taken so far.\<close>

definition delivers :: "('h \<Rightarrow> byte list \<Rightarrow> int \<times> 'h) \<Rightarrow> ('h \<Rightarrow> byte list) \<Rightarrow> bool" where
  "delivers wr sent \<longleftrightarrow> (\<forall>h bs. \<exists>h'. wr h bs = (int (length bs), h') \<and> sent h' = sent h @ bs)"

text \<open>A fragment on the wire, and the payload of the fragment being built.\<close>

definition frame :: "bool \<Rightarrow> byte list \<Rightarrow> byte list" where
  "frame eor p = xdr_be (word_of_nat (length p) OR (if eor then LAST_FRAG else 0)) @ p"

definition open_frag :: "'h rec_strm \<Rightarrow> byte list" where
  "open_frag r = drop 4 (take (out_finger r) (out_buf r))"

definition out_wf :: "('h \<Rightarrow> byte list \<Rightarrow> int \<times> 'h) \<Rightarrow> 'h rec_strm \<Rightarrow> bool" where
  "out_wf wr r \<longleftrightarrow> writeit r = wr \<and> frag_header r = 0 \<and> out_boundry r = length (out_buf r) \<and>
     100 \<le> out_boundry r \<and> out_boundry r < 2 ^ 31 \<and> 4 \<le> out_finger r \<and> out_finger r \<le> out_boundry r"

definition out_puts ::
  "('h \<Rightarrow> byte list \<Rightarrow> int \<times> 'h) \<Rightarrow> ('h \<Rightarrow> byte list) \<Rightarrow> 'h rec_strm \<Rightarrow> byte list \<Rightarrow> 'h rec_strm \<Rightarrow> bool" where
  "out_puts wr sent r bs r' \<longleftrightarrow> out_wf wr r' \<and>
     (\<exists>frs. sent (tcp_handle r') = sent (tcp_handle r) @ concat (map (frame False) frs) \<and>
        open_frag r @ bs = concat frs @ open_frag r' \<and> (\<forall>f\<in>set frs. f \<noteq> [] \<and> length f < 2 ^ 31))"

lemma out_puts_trans:
  assumes "out_puts wr sent r as r'" "out_puts wr sent r' bs r''"
  shows "out_puts wr sent r (as @ bs) r''"
proof -
  obtain frs gs where "sent (tcp_handle r') = sent (tcp_handle r) @ concat (map (frame False) frs)"
      "open_frag r @ as = concat frs @ open_frag r'" "\<forall>f\<in>set frs. f \<noteq> [] \<and> length f < 2 ^ 31"
      "sent (tcp_handle r'') = sent (tcp_handle r') @ concat (map (frame False) gs)"
      "open_frag r' @ bs = concat gs @ open_frag r''" "\<forall>f\<in>set gs. f \<noteq> [] \<and> length f < 2 ^ 31"
    using assms by (auto simp: out_puts_def)
  moreover from this have "open_frag r @ as @ bs = concat (frs @ gs) @ open_frag r''"
    by (metis append.assoc concat_append)
  ultimately show ?thesis
    using assms(2) unfolding out_puts_def by (intro conjI exI [of _ "frs @ gs"]) auto
qed

lemma flush_out_sends:
  assumes "out_wf wr r" "delivers wr sent"
  shows "\<exists>r'. flush_out r eor = (True, r') \<and> out_wf wr r' \<and> open_frag r' = [] \<and> out_finger r' = 4 \<and>
    sent (tcp_handle r') = sent (tcp_handle r) @ frame eor (open_frag r)"
proof -
  let ?w = "word_of_nat (out_finger r - 4) OR (if eor then LAST_FRAG else 0)"
  let ?buf = "blit (out_buf r) 0 (xdr_be ?w)"
  have wf: "writeit r = wr" "frag_header r = 0" "4 \<le> out_finger r" "out_finger r \<le> length (out_buf r)"
    using assms(1) by (auto simp: out_wf_def)
  have out: "take (out_finger r) ?buf = frame eor (open_frag r)"
    using wf by (simp add: blit_def frame_def open_frag_def drop_take)
  have len: "length ?buf = length (out_buf r)"
    using wf by (simp add: length_blit)
  obtain h' where h': "wr (tcp_handle r) (frame eor (open_frag r)) = (int (length (frame eor (open_frag r))), h')"
      "sent h' = sent (tcp_handle r) @ frame eor (open_frag r)"
    using assms(2) unfolding delivers_def by blast
  have "length (frame eor (open_frag r)) = out_finger r"
    using wf len by (simp flip: out)
  then have "flush_out r eor = (True, r\<lparr>out_buf := ?buf, tcp_handle := h', frag_header := 0, out_finger := 4\<rparr>)"
    using h'(1) wf by (simp add: flush_out_def Let_def store32_htonl out del: of_nat_diff split del: if_split)
  moreover have "4 \<le> length (out_buf r)"
    using wf by linarith
  ultimately show ?thesis
    using h'(2) assms(1) len by (simp add: out_wf_def open_frag_def)
qed

text \<open>Appending to the fragment being built, when it fits.\<close>

lemma append_open:
  assumes "out_wf wr r" "out_finger r + length bs \<le> out_boundry r"
  defines "r' \<equiv> r\<lparr>out_buf := blit (out_buf r) (out_finger r) bs, out_finger := out_finger r + length bs\<rparr>"
  shows "out_wf wr r'" "open_frag r' = open_frag r @ bs" "out_puts wr sent r bs r'"
proof -
  show wf': "out_wf wr r'"
    using assms by (auto simp: out_wf_def length_blit)
  have "take (out_finger r + length bs) (blit (out_buf r) (out_finger r) bs) = take (out_finger r) (out_buf r) @ bs"
    using assms by (intro take_blit) (auto simp: out_wf_def)
  then show app: "open_frag r' = open_frag r @ bs"
    using assms by (auto simp: open_frag_def out_wf_def min_absorb2)
  show "out_puts wr sent r bs r'"
    unfolding out_puts_def using wf' app by (intro conjI exI [of _ "[]"]) (simp_all add: r'_def)
qed

lemma flush_puts:
  assumes "out_wf wr r" "delivers wr sent" "4 < out_finger r"
  shows "\<exists>r'. flush_out (r\<lparr>frag_sent := True\<rparr>) False = (True, r') \<and> out_puts wr sent r [] r' \<and> out_finger r' = 4"
proof -
  have "out_wf wr (r\<lparr>frag_sent := True\<rparr>)" "open_frag (r\<lparr>frag_sent := True\<rparr>) = open_frag r"
    using assms(1) by (simp_all add: out_wf_def open_frag_def)
  then obtain r' where r': "flush_out (r\<lparr>frag_sent := True\<rparr>) False = (True, r')" "out_wf wr r'" "open_frag r' = []"
      "out_finger r' = 4" "sent (tcp_handle r') = sent (tcp_handle r) @ frame False (open_frag r)"
    using flush_out_sends [OF _ assms(2), of "r\<lparr>frag_sent := True\<rparr>" False] by auto
  moreover have "open_frag r \<noteq> []" "length (open_frag r) < 2 ^ 31"
    using assms by (auto simp: open_frag_def out_wf_def)
  ultimately show ?thesis
    by (intro exI [of _ r']) (auto simp: out_puts_def intro!: exI [of _ "[open_frag r]"])
qed

lemma put_unit_puts:
  assumes "out_wf wr r" "delivers wr sent"
  shows "\<exists>r'. put_unit r w = (True, r') \<and> out_puts wr sent r (xdr_be w) r'"
proof (cases "out_finger r + 4 > out_boundry r")
  case True
  then obtain r1 where r1: "flush_out (r\<lparr>frag_sent := True\<rparr>) False = (True, r1)" "out_puts wr sent r [] r1" "out_finger r1 = 4"
    using flush_puts [OF assms] assms(1) by (auto simp: out_wf_def)
  then have "out_wf wr r1"
    by (simp add: out_puts_def)
  then have "out_puts wr sent r1 (xdr_be w) (r1\<lparr>out_buf := blit (out_buf r1) (out_finger r1) (xdr_be w),
      out_finger := out_finger r1 + 4\<rparr>)"
    using append_open(3) [of wr r1 "xdr_be w" sent] r1(3) by (simp add: out_wf_def)
  with out_puts_trans [OF r1(2) this] show ?thesis
    using True r1(1) by (simp add: put_unit_def store32_htonl)
next
  case False
  then show ?thesis
    using append_open(3) [OF assms(1), of "xdr_be w" sent] by (simp add: put_unit_def store32_htonl)
qed

lemma putbytes_loop_puts:
  assumes "delivers wr sent"
  shows "out_wf wr r \<Longrightarrow> out_finger r < out_boundry r \<Longrightarrow>
    \<exists>r'. putbytes_loop r bs = Some (True, r') \<and> out_puts wr sent r bs r'"
proof (induction "length bs" arbitrary: r bs rule: less_induct)
  case less
  show ?case
  proof (cases "bs = []")
    case True
    then show ?thesis
      using less.prems append_open(3) [of wr r "[]" sent] by (simp add: putbytes_loop.simps)
  next
    case False
    define k where "k = min (length bs) (out_boundry r - out_finger r)"
    define r1 where "r1 = r\<lparr>out_buf := blit (out_buf r) (out_finger r) (take k bs), out_finger := out_finger r + k\<rparr>"
    have k: "0 < k" "k \<le> length bs" "out_finger r + k \<le> out_boundry r"
      using False less.prems by (auto simp: k_def)
    have puts1: "out_puts wr sent r (take k bs) r1" and wf1: "out_wf wr r1"
      using append_open [OF less.prems(1), of "take k bs"] k by (simp_all add: r1_def min_absorb2)
    have unfold: "putbytes_loop r bs = (if out_finger r1 = out_boundry r1 \<and> drop k bs \<noteq> []
        then let f = flush_out (r1\<lparr>frag_sent := True\<rparr>) False in
             if \<not> fst f then Some (False, snd f) else putbytes_loop (snd f) (drop k bs)
        else putbytes_loop r1 (drop k bs))"
      using False by (subst putbytes_loop.simps) (simp add: k_def r1_def Let_def)
    show ?thesis
    proof (cases "drop k bs = []")
      case True
      then have "putbytes_loop r bs = Some (True, r1)"
        unfolding unfold by (simp add: putbytes_loop.simps)
      with puts1 True k show ?thesis
        by simp
    next
      case rest: False
      then have "out_finger r1 = out_boundry r1"
        using less.prems(2) by (auto simp: r1_def k_def)
      moreover obtain r2 where r2: "flush_out (r1\<lparr>frag_sent := True\<rparr>) False = (True, r2)" "out_puts wr sent r1 [] r2"
          "out_finger r2 = 4"
        using flush_puts [OF wf1 assms] k(1) less.prems(1) by (auto simp: r1_def out_wf_def)
      moreover have "out_wf wr r2"
        using r2(2) by (simp add: out_puts_def)
      then have "out_finger r2 < out_boundry r2"
        using r2(3) by (simp add: out_wf_def)
      then obtain r3 where "putbytes_loop r2 (drop k bs) = Some (True, r3)" "out_puts wr sent r2 (drop k bs) r3"
        using less.hyps [of "drop k bs" r2, OF _ \<open>out_wf wr r2\<close>] k False by fastforce
      ultimately show ?thesis
        using rest out_puts_trans [OF puts1 out_puts_trans [OF r2(2)], of "drop k bs"] unfold by auto
    qed
  qed
qed

lemma putbytes_puts:
  assumes "delivers wr sent" "out_wf wr r" "unat len \<le> length bs"
  shows "\<exists>r'. xdrrec_putbytes r bs len = (True, r') \<and> out_puts wr sent r (take (unat len) bs) r'"
proof (cases "out_finger r < out_boundry r \<or> take (unat len) bs = []")
  case True
  then have "\<exists>r'. putbytes_loop r (take (unat len) bs) = Some (True, r') \<and> out_puts wr sent r (take (unat len) bs) r'"
    using putbytes_loop_puts [OF assms(1,2)] append_open(3) [OF assms(2), of "[]" sent] assms(2)
    by (auto simp: putbytes_loop.simps [of r "[]"] out_wf_def)
  then show ?thesis
    by (auto simp: xdrrec_putbytes_def)
next
  case False
  let ?bs = "take (unat len) bs"
  have full: "out_finger r = out_boundry r" "?bs \<noteq> []"
    using False assms(2) by (auto simp: out_wf_def)
  then obtain r1 where r1: "flush_out (r\<lparr>frag_sent := True\<rparr>) False = (True, r1)" "out_puts wr sent r [] r1" "out_finger r1 = 4"
    using flush_puts [OF assms(2,1)] assms(2) by (auto simp: out_wf_def)
  have "r\<lparr>out_finger := out_boundry r\<rparr> = r"
    using full(1) by (cases r) simp
  then have same: "r\<lparr>out_finger := out_boundry r, frag_sent := True\<rparr> = r\<lparr>frag_sent := True\<rparr>"
    by metis
  have "putbytes_loop r ?bs = putbytes_loop r1 ?bs"
    using full r1(1) by (subst putbytes_loop.simps) (simp add: Let_def same)
  moreover have "out_wf wr r1"
    using r1(2) by (simp add: out_puts_def)
  then have "out_finger r1 < out_boundry r1"
    using r1(3) by (simp add: out_wf_def)
  then obtain r2 where "putbytes_loop r1 ?bs = Some (True, r2)" "out_puts wr sent r1 ?bs r2"
    using putbytes_loop_puts [OF assms(1) \<open>out_wf wr r1\<close>, of ?bs] by auto
  ultimately show ?thesis
    using out_puts_trans [OF r1(2)] by (auto simp: xdrrec_putbytes_def)
qed

lemma xdrrec_ops_simps [simp]:
  "x_getlong (xdrrec_ops ls) = xdrrec_getlong" "x_putlong (xdrrec_ops ls) = xdrrec_putlong"
  "x_getbytes (xdrrec_ops ls) = xdrrec_getbytes" "x_putbytes (xdrrec_ops ls) = xdrrec_putbytes"
  "x_getint32 (xdrrec_ops ls) = xdrrec_getint32" "x_putint32 (xdrrec_ops ls) = xdrrec_putint32"
  by (simp_all add: xdrrec_ops_def)

lemma rec_sink:
  assumes "delivers wr sent"
  shows "xdr_sink (xdrrec_ops ls) (out_wf wr) (out_puts wr sent) (\<lambda>_ _. True)"
proof
  fix r as r' bs r''
  show "out_wf wr r \<Longrightarrow> out_puts wr sent r [] r"
    using append_open(3) [of wr r "[]" sent] by (simp add: out_wf_def)
  show "out_puts wr sent r as r' \<Longrightarrow> out_puts wr sent r' bs r'' \<Longrightarrow> out_puts wr sent r (as @ bs) r''"
    by (rule out_puts_trans)
  show "out_puts wr sent r bs r' \<Longrightarrow> out_wf wr r'"
    by (simp add: out_puts_def)
qed (use put_unit_puts [OF _ assms] putbytes_puts [OF assms] in
    \<open>simp_all add: xdrrec_putlong_def xdrrec_putint32_def\<close>)

end
