(* ===== verification/Xdr_Rec_Read.thy ===== *)
theory Xdr_Rec_Read
  imports Xdr_Rec
begin

text \<open>
  Reading records (sunrpc/xdr_rec.c): whatever the sizes of the pieces in which the transport
  hands over its bytes, the input side of the stream presents the payload of the current record
  and nothing beyond it, skips to the next record, and together with the output side restores
  what was written.
\<close>

section \<open>The input buffer\<close>

text \<open>What the stream relies on: the read callback returns a non-empty piece, at most as long
  as asked for, of the bytes still to come, and \<open>-1\<close> when the connection has ended. This is what
  readtcp does, in clnt_tcp.c and in svc_tcp.c: it turns an empty read, the end of the input, into
  an error.\<close>

definition reliable :: "('h \<Rightarrow> nat \<Rightarrow> int \<times> byte list \<times> 'h) \<Rightarrow> ('h \<Rightarrow> byte list) \<Rightarrow> bool" where
  "reliable rd incoming \<longleftrightarrow> (\<forall>h n. 0 < n \<longrightarrow>
     (if incoming h = [] then \<exists>bs h'. rd h n = (- 1, bs, h') \<and> incoming h' = []
      else \<exists>bs h'. rd h n = (int (length bs), bs, h') \<and> bs \<noteq> [] \<and> length bs \<le> n \<and>
             incoming h = bs @ incoming h'))"

definition in_wf :: "('h \<Rightarrow> nat \<Rightarrow> int \<times> byte list \<times> 'h) \<Rightarrow> 'h rec_strm \<Rightarrow> bool" where
  "in_wf rd r \<longleftrightarrow> readit r = rd \<and> in_size r = length (in_buf r) \<and> 100 \<le> in_size r \<and>
     in_finger r \<le> in_boundry r \<and> in_boundry r \<le> in_size r"

definition buffered :: "'h rec_strm \<Rightarrow> byte list" where
  "buffered r = take (in_boundry r - in_finger r) (drop (in_finger r) (in_buf r))"

definition unread :: "('h \<Rightarrow> byte list) \<Rightarrow> 'h rec_strm \<Rightarrow> byte list" where
  "unread incoming r = buffered r @ incoming (tcp_handle r)"

lemma length_buffered: "in_wf rd r \<Longrightarrow> length (buffered r) = in_boundry r - in_finger r"
  by (auto simp: in_wf_def buffered_def)

text \<open>Taking bytes that are in the buffer, and refilling an empty one.\<close>

definition same_fragment :: "'h rec_strm \<Rightarrow> 'h rec_strm \<Rightarrow> bool" where
  "same_fragment r r' \<longleftrightarrow> fbtbc r' = fbtbc r \<and> last_frag r' = last_frag r"

lemma same_fragment_cong: "same_fragment r r1 \<Longrightarrow> same_fragment r1 = same_fragment r"
  by (auto simp: same_fragment_def)

lemma advance:
  assumes "in_wf rd r" "k \<le> in_boundry r - in_finger r"
  defines "r' \<equiv> r\<lparr>in_finger := in_finger r + k\<rparr>"
  shows "in_wf rd r'" "same_fragment r r'" "unread incoming r = take k (drop (in_finger r) (in_buf r)) @ unread incoming r'"
    "take k (drop (in_finger r) (in_buf r)) = take k (unread incoming r)"
    "length (take k (drop (in_finger r) (in_buf r))) = k"
proof -
  show "in_wf rd r'" "same_fragment r r'"
    using assms by (auto simp: in_wf_def same_fragment_def)
  show len: "length (take k (drop (in_finger r) (in_buf r))) = k"
    using assms by (auto simp: in_wf_def)
  show split: "unread incoming r = take k (drop (in_finger r) (in_buf r)) @ unread incoming r'"
    using assms(2) take_add [of k "in_boundry r - in_finger r - k" "drop (in_finger r) (in_buf r)"]
      le_add_diff_inverse [OF assms(2)]
    by (simp add: r'_def unread_def buffered_def add.commute [of k])
  show "take k (drop (in_finger r) (in_buf r)) = take k (unread incoming r)"
    unfolding split using len by simp
qed

lemma refill:
  assumes "reliable rd incoming" "in_wf rd r" "in_boundry r - in_finger r = 0"
  shows "if unread incoming r = [] then \<exists>r'. fill_input_buf r = (False, r')
    else \<exists>r'. fill_input_buf r = (True, r') \<and> in_wf rd r' \<and> same_fragment r r' \<and>
      unread incoming r' = unread incoming r \<and> in_boundry r' - in_finger r' \<noteq> 0"
proof -
  define i where "i = in_boundry r mod 4"
  have i: "i < 4" "i < length (in_buf r)" "0 < in_size r - i" and size: "in_size r = length (in_buf r)" "readit r = rd"
    using assms(2) by (auto simp: i_def in_wf_def intro: less_trans)
  have unread: "unread incoming r = incoming (tcp_handle r)"
    using assms(3) by (simp add: unread_def buffered_def)
  show ?thesis
  proof (cases "incoming (tcp_handle r) = []")
    case True
    then obtain bs h' where "rd (tcp_handle r) (in_size r - i) = (- 1, bs, h')"
      using assms(1) i(3) unfolding reliable_def by metis
    then show ?thesis
      using True unread size by (simp add: fill_input_buf_def i_def Let_def)
  next
    case False
    then obtain bs h' where rd: "rd (tcp_handle r) (in_size r - i) = (int (length bs), bs, h')" "bs \<noteq> []"
        "length bs \<le> in_size r - i" "incoming (tcp_handle r) = bs @ incoming h'"
      using assms(1) i(3) unfolding reliable_def by metis
    let ?r = "r\<lparr>tcp_handle := h', in_buf := blit (in_buf r) i bs, in_finger := i, in_boundry := i + length bs\<rparr>"
    have fit: "i + length bs \<le> length (in_buf r)"
      using rd(3) i size by linarith
    have "fill_input_buf r = (True, ?r)"
      using rd(1) size by (simp add: fill_input_buf_def i_def Let_def)
    moreover have "in_wf rd ?r"
      using assms(2) fit size by (auto simp: in_wf_def length_blit)
    moreover have "take (length bs) (drop i (blit (in_buf r) i bs)) = bs"
      using fit by (simp add: blit_def)
    then have "unread incoming ?r = unread incoming r"
      using rd(4) unread by (simp add: unread_def buffered_def)
    ultimately show ?thesis
      using False rd(2) unread by (simp add: same_fragment_def)
  qed
qed

text \<open>Both loops over the buffer end, since the transport makes progress.\<close>

lemma input_bytes:
  assumes "reliable rd incoming"
  shows "in_wf rd r \<Longrightarrow>
    (if len \<le> length (unread incoming r)
     then \<exists>r'. get_input_bytes r got len = Some (True, r', got @ take len (unread incoming r)) \<and>
         skip_input_bytes r len = Some (True, r') \<and> in_wf rd r' \<and> same_fragment r r' \<and>
         unread incoming r' = drop len (unread incoming r)
     else \<exists>r' g. get_input_bytes r got len = Some (False, r', g) \<and> skip_input_bytes r len = Some (False, r'))"
proof (induction "2 * len + (if in_boundry r - in_finger r = 0 then 1 else 0)" arbitrary: r got len rule: less_induct)
  case less
  consider "len = 0" | "0 < len" "in_boundry r - in_finger r = 0" | "0 < len" "in_boundry r - in_finger r \<noteq> 0"
    by linarith
  then show ?case
  proof cases
    case 1
    then show ?thesis
      using less.prems by (simp add: get_input_bytes.simps skip_input_bytes.simps same_fragment_def)
  next
    case 2
    show ?thesis
    proof (cases "unread incoming r = []")
      case True
      then obtain r' where "fill_input_buf r = (False, r')"
        using refill [OF assms less.prems 2(2)] by auto
      then show ?thesis
        using True 2 by (simp add: get_input_bytes.simps [of r] skip_input_bytes.simps [of r])
    next
      case False
      then obtain r1 where r1: "fill_input_buf r = (True, r1)" "in_wf rd r1" "same_fragment r r1"
          "unread incoming r1 = unread incoming r" "in_boundry r1 - in_finger r1 \<noteq> 0"
        using refill [OF assms less.prems 2(2)] by auto
      then have "get_input_bytes r got len = get_input_bytes r1 got len" "skip_input_bytes r len = skip_input_bytes r1 len"
        using 2 by (simp_all add: get_input_bytes.simps [of r] skip_input_bytes.simps [of r])
      then show ?thesis
        using less.hyps [of len r1 got] r1 2 same_fragment_cong [OF r1(3)] by auto
    qed
  next
    case 3
    define k where "k = min len (in_boundry r - in_finger r)"
    define r1 where "r1 = r\<lparr>in_finger := in_finger r + k\<rparr>"
    have k: "0 < k" "k \<le> len" "k \<le> in_boundry r - in_finger r"
      using 3 by (auto simp: k_def)
    note adv = advance(1,2) [OF less.prems k(3), folded r1_def] advance(3,4) [OF less.prems k(3), of incoming, folded r1_def]
      advance(5) [OF less.prems k(3)]
    have step: "get_input_bytes r got len = get_input_bytes r1 (got @ take k (unread incoming r)) (len - k)"
      "skip_input_bytes r len = skip_input_bytes r1 (len - k)"
      using 3 by (simp_all add: get_input_bytes.simps [of r] skip_input_bytes.simps [of r] Let_def k_def [symmetric]
        r1_def [symmetric] adv(4))
    have rest: "unread incoming r1 = drop k (unread incoming r)" and long: "k \<le> length (unread incoming r)"
      using adv(3,5) by (metis append_eq_conv_conj, metis adv(4) length_take min.cobounded1)
    have "got @ take len (unread incoming r) = (got @ take k (unread incoming r)) @ take (len - k) (unread incoming r1)"
      using k(2) by (simp add: rest flip: take_add)
    moreover have "len \<le> length (unread incoming r) \<longleftrightarrow> len - k \<le> length (unread incoming r1)"
      using long k(2) by (auto simp: rest)
    moreover have "drop len (unread incoming r) = drop (len - k) (unread incoming r1)"
      using k(2) by (simp add: rest)
    moreover have "2 * (len - k) + (if in_boundry r1 - in_finger r1 = 0 then 1 else 0)
        < 2 * len + (if in_boundry r - in_finger r = 0 then 1 else 0 :: nat)"
      using k(1,2) by auto
    note less.hyps [OF this adv(1), of "got @ take k (unread incoming r)"]
    ultimately show ?thesis
      using same_fragment_cong [OF adv(2)] unfolding step by auto
  qed
qed

section \<open>Fragments\<close>

text \<open>The payload of the record that starts with \<open>fb\<close> more bytes of the current fragment, and
  what follows that record; a fragment header of zero ends it in an error.\<close>

abbreviation header_of :: "byte list \<Rightarrow> u32" where
  "header_of bs \<equiv> word_of_nat (be_val (take 4 bs))"

function record_rest :: "nat \<Rightarrow> bool \<Rightarrow> byte list \<Rightarrow> byte list" where
  "record_rest fb eor bs = take fb bs @
     (if eor \<or> length bs < fb + 4 \<or> header_of (drop fb bs) = 0 then []
      else record_rest (unat (header_of (drop fb bs) AND NOT LAST_FRAG)) (header_of (drop fb bs) AND LAST_FRAG \<noteq> 0)
             (drop (fb + 4) bs))"
  by auto
termination by (relation "measure (\<lambda>(_, _, bs). length bs)") auto

function record_end :: "nat \<Rightarrow> bool \<Rightarrow> byte list \<Rightarrow> byte list option" where
  "record_end fb eor bs =
     (if length bs < fb then None else if eor then Some (drop fb bs)
      else if length bs < fb + 4 \<or> header_of (drop fb bs) = 0 then None
      else record_end (unat (header_of (drop fb bs) AND NOT LAST_FRAG)) (header_of (drop fb bs) AND LAST_FRAG \<noteq> 0)
             (drop (fb + 4) bs))"
  by auto
termination by (relation "measure (\<lambda>(_, _, bs). length bs)") auto

declare record_rest.simps [simp del] record_end.simps [simp del]

lemma record_rest_split:
  assumes "k \<le> fb" "k \<le> length bs"
  shows "record_rest fb eor bs = take k bs @ record_rest (fb - k) eor (drop k bs)"
proof -
  have "take fb bs = take k bs @ take (fb - k) (drop k bs)"
    using assms by (simp flip: take_add)
  moreover have "length bs < fb + 4 \<longleftrightarrow> length (drop k bs) < fb - k + 4"
    using assms by auto
  moreover have "fb - k + 4 + k = fb + 4"
    using assms by simp
  ultimately show ?thesis
    using assms by (simp add: record_rest.simps [of fb] record_rest.simps [of "fb - k"])
qed

lemma record_end_split:
  assumes "k \<le> fb" "k \<le> length bs"
  shows "record_end fb eor bs = record_end (fb - k) eor (drop k bs)"
proof -
  have "length bs < fb + 4 \<longleftrightarrow> length (drop k bs) < fb - k + 4" "length bs < fb \<longleftrightarrow> length (drop k bs) < fb - k"
    using assms by auto
  moreover have "fb - k + 4 + k = fb + 4"
    using assms by simp
  ultimately show ?thesis
    using assms by (simp add: record_end.simps [of fb] record_end.simps [of "fb - k"])
qed

definition record_avail :: "('h \<Rightarrow> byte list) \<Rightarrow> 'h rec_strm \<Rightarrow> byte list" where
  "record_avail incoming r = record_rest (fbtbc r) (last_frag r) (unread incoming r)"

definition record_tail :: "('h \<Rightarrow> byte list) \<Rightarrow> 'h rec_strm \<Rightarrow> byte list option" where
  "record_tail incoming r = record_end (fbtbc r) (last_frag r) (unread incoming r)"

lemma next_fragment:
  assumes "reliable rd incoming" "in_wf rd r"
  defines "bs \<equiv> unread incoming r"
  shows "if length bs < 4 \<or> header_of bs = 0 then \<exists>r'. set_input_fragment r = Some (False, r')
    else \<exists>r'. set_input_fragment r = Some (True, r') \<and> in_wf rd r' \<and> unread incoming r' = drop 4 bs \<and>
      fbtbc r' = unat (header_of bs AND NOT LAST_FRAG) \<and> last_frag r' = (header_of bs AND LAST_FRAG \<noteq> 0)"
proof (cases "4 \<le> length bs")
  case True
  then obtain r1 where r1: "get_input_bytes r [] 4 = Some (True, r1, take 4 bs)" "in_wf rd r1" "unread incoming r1 = drop 4 bs"
    using input_bytes [OF assms(1,2), of 4 "[]"] by (auto simp: bs_def)
  have hdr: "bswap_32 (load32 (take 4 bs)) = header_of bs"
    using True by (simp add: bswap_32_load32)
  let ?r = "r1\<lparr>last_frag := (header_of bs AND LAST_FRAG \<noteq> 0), fbtbc := unat (header_of bs AND NOT LAST_FRAG)\<rparr>"
  have "in_wf rd ?r" "unread incoming ?r = drop 4 bs"
    using r1(2,3) by (auto simp: in_wf_def unread_def buffered_def)
  then show ?thesis
    using True r1(1) hdr by (auto simp: set_input_fragment_def Let_def)
next
  case False
  then show ?thesis
    using input_bytes [OF assms(1,2), of 4 "[]"] by (auto simp: bs_def set_input_fragment_def)
qed

lemma getbytes_loop_reads:
  assumes "reliable rd incoming"
  shows "in_wf rd r \<Longrightarrow>
    (if len \<le> length (record_avail incoming r)
     then \<exists>r'. getbytes_loop r got len = Some (True, r', got @ take len (record_avail incoming r)) \<and>
         in_wf rd r' \<and> record_avail incoming r' = drop len (record_avail incoming r) \<and>
         record_tail incoming r' = record_tail incoming r
     else \<exists>r' g. getbytes_loop r got len = Some (False, r', g))"
proof (induction "length (unread incoming r)" arbitrary: r got len rule: less_induct)
  case less
  let ?bs = "unread incoming r"
  consider "len = 0" | "0 < len" "fbtbc r = 0" "last_frag r \<or> length ?bs < 4 \<or> header_of ?bs = 0"
    | "0 < len" "fbtbc r = 0" "\<not> last_frag r" "4 \<le> length ?bs" "header_of ?bs \<noteq> 0"
    | "0 < len" "0 < fbtbc r" "length ?bs < min len (fbtbc r)"
    | "0 < len" "0 < fbtbc r" "min len (fbtbc r) \<le> length ?bs"
    by linarith
  then show ?case
  proof cases
    case 1
    then show ?thesis
      using less.prems by (simp add: getbytes_loop.simps)
  next
    case 2
    then have "record_avail incoming r = []"
      by (auto simp: record_avail_def record_rest.simps)
    then show ?thesis
      using 2 next_fragment [OF assms less.prems] by (auto simp: getbytes_loop.simps [of r])
  next
    case 3
    then obtain r1 where r1: "set_input_fragment r = Some (True, r1)" "in_wf rd r1" "unread incoming r1 = drop 4 ?bs"
        "fbtbc r1 = unat (header_of ?bs AND NOT LAST_FRAG)" "last_frag r1 = (header_of ?bs AND LAST_FRAG \<noteq> 0)"
      using next_fragment [OF assms less.prems] by auto
    have "getbytes_loop r got len = getbytes_loop r1 got len"
      using 3 r1(1) by (simp add: getbytes_loop.simps [of r])
    moreover have "record_avail incoming r = record_avail incoming r1" "record_tail incoming r = record_tail incoming r1"
      using 3 r1 by (simp_all add: record_avail_def record_rest.simps [of 0] record_tail_def record_end.simps [of 0])
    moreover have "length (unread incoming r1) < length ?bs"
      using 3 r1(3) by simp
    ultimately show ?thesis
      using less.hyps [of r1 len got] r1(2) by simp
  next
    case 4
    then have "record_avail incoming r = ?bs"
      by (auto simp: record_avail_def record_rest.simps)
    moreover obtain r' g where "get_input_bytes r got (min len (fbtbc r)) = Some (False, r', g)"
      using 4(3) input_bytes [OF assms less.prems, of "min len (fbtbc r)" got] unfolding not_le [symmetric] by auto
    ultimately show ?thesis
      using 4 by (simp add: getbytes_loop.simps [of r] Let_def)
  next
    case 5
    define k where "k = min len (fbtbc r)"
    have k: "0 < k" "k \<le> len" "k \<le> fbtbc r" "k \<le> length ?bs"
      using 5 by (auto simp: k_def)
    obtain r1 where r1: "get_input_bytes r got k = Some (True, r1, got @ take k ?bs)" "in_wf rd r1" "same_fragment r r1"
        "unread incoming r1 = drop k ?bs"
      using input_bytes [OF assms less.prems, of k got] k(4) by auto
    define r2 where "r2 = r1\<lparr>fbtbc := fbtbc r1 - k\<rparr>"
    have r2: "in_wf rd r2" "unread incoming r2 = drop k ?bs" "fbtbc r2 = fbtbc r - k" "last_frag r2 = last_frag r"
      using r1 by (auto simp: r2_def in_wf_def unread_def buffered_def same_fragment_def)
    have loop: "getbytes_loop r got len = getbytes_loop r2 (got @ take k ?bs) (len - k)"
      using 5 r1(1) by (simp add: getbytes_loop.simps [of r] Let_def r2_def k_def [symmetric])
    have split: "record_avail incoming r = take k ?bs @ record_avail incoming r2"
      using record_rest_split [OF k(3,4)] by (simp add: record_avail_def r2)
    have tail: "record_tail incoming r = record_tail incoming r2"
      using record_end_split [OF k(3,4)] by (simp add: record_tail_def r2)
    have "length (unread incoming r2) < length ?bs"
      using k r2(2) by simp
    note less.hyps [OF this r2(1), of "len - k" "got @ take k ?bs"]
    moreover have "len - k \<le> length (record_avail incoming r2) \<longleftrightarrow> len \<le> length (record_avail incoming r)"
      using k by (auto simp: split)
    ultimately show ?thesis
      using k tail unfolding loop split by auto
  qed
qed

lemma xdrrec_getbytes_ok:
  assumes "reliable rd incoming" "in_wf rd r" "record_avail incoming r = bs @ rest" "length bs = unat len"
  shows "\<exists>r'. xdrrec_getbytes r buf len = (True, r', blit buf 0 bs) \<and> in_wf rd r' \<and>
    record_avail incoming r' = rest \<and> record_tail incoming r' = record_tail incoming r"
  using getbytes_loop_reads [OF assms(1,2), of "unat len" "[]"] assms(3,4) by (auto simp: xdrrec_getbytes_def)

lemma xdrrec_getbytes_short:
  assumes "reliable rd incoming" "in_wf rd r" "length (record_avail incoming r) < unat len"
  shows "\<not> fst (xdrrec_getbytes r buf len)"
  using getbytes_loop_reads [OF assms(1,2), of "unat len" "[]"] assms(3) by (auto simp: xdrrec_getbytes_def)

text \<open>The fast path of the units agrees with the loop.\<close>

lemma get_unit_ok:
  assumes "reliable rd incoming" "in_wf rd r" "record_avail incoming r = bs @ rest" "length bs = 4"
  shows "\<exists>r'. get_unit r = (True, r', word_of_nat (be_val bs)) \<and> in_wf rd r' \<and>
    record_avail incoming r' = rest \<and> record_tail incoming r' = record_tail incoming r"
proof (cases "fbtbc r \<ge> 4 \<and> in_boundry r - in_finger r \<ge> 4")
  case True
  let ?r = "r\<lparr>fbtbc := fbtbc r - 4, in_finger := in_finger r + 4\<rparr>"
  note adv = advance(1) [OF assms(2), of 4] advance(3,4) [OF assms(2), of 4 incoming] advance(5) [OF assms(2), of 4]
  let ?u = "take 4 (drop (in_finger r) (in_buf r))"
  have "unread incoming (r\<lparr>in_finger := in_finger r + 4\<rparr>) = unread incoming ?r"
    by (simp add: unread_def buffered_def)
  then have u: "length ?u = 4" "?u = take 4 (unread incoming r)" "unread incoming r = ?u @ unread incoming ?r"
    using adv(2-4) True by metis+
  have "4 \<le> length (unread incoming r)"
    using u(1) unfolding u(3) by simp
  then have "record_avail incoming r = take 4 (unread incoming r) @ record_rest (fbtbc r - 4) (last_frag r) (drop 4 (unread incoming r))"
    unfolding record_avail_def using True by (intro record_rest_split) simp_all
  also have rest: "drop 4 (unread incoming r) = unread incoming ?r"
    using u(1) by (subst u(3)) simp
  finally have "record_avail incoming r = ?u @ record_avail incoming ?r"
    using u(2) by (simp add: record_avail_def)
  then have "bs = ?u" "record_avail incoming ?r = rest"
    using u(1) assms(3,4) by (metis append_eq_append_conv, metis append_eq_append_conv)
  moreover have "record_tail incoming r = record_tail incoming ?r"
    using record_end_split [of 4 "fbtbc r" "unread incoming r"] True \<open>4 \<le> length (unread incoming r)\<close> rest
    by (simp add: record_tail_def)
  moreover have "in_wf rd ?r"
    using adv(1) True by (simp add: in_wf_def)
  ultimately show ?thesis
    using True assms(4) by (simp add: get_unit_def bswap_32_load32)
next
  case False
  then show ?thesis
    using xdrrec_getbytes_ok [OF assms(1-3), of 4 "[0, 0, 0, 0]"] assms(4)
    by (auto simp: get_unit_def BYTES_PER_XDR_UNIT_def bswap_32_load32 blit_def)
qed

lemma get_unit_short:
  assumes "reliable rd incoming" "in_wf rd r" "length (record_avail incoming r) < 4"
  shows "\<not> fst (get_unit r)"
proof -
  have "\<not> (fbtbc r \<ge> 4 \<and> in_boundry r - in_finger r \<ge> 4)"
  proof
    assume "fbtbc r \<ge> 4 \<and> in_boundry r - in_finger r \<ge> 4"
    then have "4 \<le> length (take (fbtbc r) (unread incoming r))"
      using length_buffered [OF assms(2)] by (auto simp: unread_def)
    moreover have "length (take (fbtbc r) (unread incoming r)) \<le> length (record_avail incoming r)"
      by (subst record_avail_def, subst record_rest.simps) simp
    ultimately show False
      using assms(3) by linarith
  qed
  then show ?thesis
    using xdrrec_getbytes_short [OF assms(1,2), of 4 "[0, 0, 0, 0]"] assms(3)
    by (auto simp: get_unit_def BYTES_PER_XDR_UNIT_def split: prod.splits)
qed

text \<open>While a record is read, what follows it stays fixed.\<close>

definition reading :: "('h \<Rightarrow> nat \<Rightarrow> int \<times> byte list \<times> 'h) \<Rightarrow> ('h \<Rightarrow> byte list) \<Rightarrow> byte list option \<Rightarrow> 'h rec_strm \<Rightarrow> bool" where
  "reading rd incoming e r \<longleftrightarrow> in_wf rd r \<and> record_tail incoming r = e"

lemma rec_source:
  assumes "reliable rd incoming"
  shows "xdr_signed_source (xdrrec_ops ls) (reading rd incoming e) (record_avail incoming) scast"
proof
  fix w :: u32
  show "ucast (scast w :: u64) = w"
    by (rule ucast_scast_32)
next
  fix r bs rest l i
  assume "reading rd incoming e r" "record_avail incoming r = bs @ rest" "length bs = 4"
  then show
    "\<exists>s'. x_getlong (xdrrec_ops ls) r l = (True, s', scast (word_of_nat (be_val bs) :: u32)) \<and> reading rd incoming e s' \<and>
       record_avail incoming s' = rest"
    "\<exists>s'. x_getint32 (xdrrec_ops ls) r i = (True, s', word_of_nat (be_val bs)) \<and> reading rd incoming e s' \<and>
       record_avail incoming s' = rest"
    using get_unit_ok [OF assms, of r bs rest] by (auto simp: reading_def xdrrec_getlong_def xdrrec_getint32_def)
next
  fix r l i
  assume "reading rd incoming e r" "length (record_avail incoming r) < 4"
  then show "\<not> fst (x_getlong (xdrrec_ops ls) r l)" "\<not> fst (x_getint32 (xdrrec_ops ls) r i)"
    using get_unit_short [OF assms, of r]
    by (auto simp: reading_def xdrrec_getlong_def xdrrec_getint32_def split: prod.splits)
next
  fix r bs rest buf and len :: u32
  assume "reading rd incoming e r" "record_avail incoming r = bs @ rest" "length bs = unat len"
  then show "\<exists>s'. x_getbytes (xdrrec_ops ls) r buf len = (True, s', blit buf 0 bs) \<and> reading rd incoming e s' \<and>
       record_avail incoming s' = rest"
    using xdrrec_getbytes_ok [OF assms, of r bs rest len buf] by (auto simp: reading_def)
next
  fix r buf and len :: u32
  assume "reading rd incoming e r" "length (record_avail incoming r) < unat len"
  then show "\<not> fst (x_getbytes (xdrrec_ops ls) r buf len)"
    using xdrrec_getbytes_short [OF assms, of r] by (simp add: reading_def)
qed simp_all

section \<open>Skipping to the next record\<close>

lemma skip_to_end_skips:
  assumes "reliable rd incoming"
  shows "in_wf rd r \<Longrightarrow>
    (case record_tail incoming r of
       None \<Rightarrow> \<exists>r'. skip_to_end r = Some (False, r')
     | Some rest \<Rightarrow> \<exists>r'. skip_to_end r = Some (True, r') \<and> in_wf rd r' \<and> unread incoming r' = rest \<and>
         fbtbc r' = 0 \<and> last_frag r')"
proof (induction "length (unread incoming r)" arbitrary: r rule: less_induct)
  case less
  let ?bs = "unread incoming r"
  show ?case
  proof (cases "fbtbc r = 0 \<and> last_frag r")
    case True
    then show ?thesis
      using less.prems by (simp add: skip_to_end.simps [of r] record_tail_def record_end.simps [of 0])
  next
    case False
    show ?thesis
    proof (cases "fbtbc r \<le> length ?bs")
      case short: False
      then show ?thesis
        using False input_bytes [OF assms less.prems, of "fbtbc r" "[]"]
        by (auto simp: skip_to_end.simps [of r] record_tail_def record_end.simps [of "fbtbc r"])
    next
      case long: True
      then obtain r1 where r1: "skip_input_bytes r (fbtbc r) = Some (True, r1)" "in_wf rd r1" "same_fragment r r1"
          "unread incoming r1 = drop (fbtbc r) ?bs"
        using input_bytes [OF assms less.prems, of "fbtbc r" "[]"] by auto
      define r2 where "r2 = r1\<lparr>fbtbc := 0\<rparr>"
      have r2: "in_wf rd r2" "unread incoming r2 = drop (fbtbc r) ?bs" "fbtbc r2 = 0" "last_frag r2 = last_frag r"
        using r1 by (auto simp: r2_def in_wf_def unread_def buffered_def same_fragment_def)
      have tail: "record_tail incoming r = record_tail incoming r2"
        using record_end_split [of "fbtbc r" "fbtbc r" ?bs] long by (simp add: record_tail_def r2)
      have loop: "skip_to_end r = (if last_frag r2 then skip_to_end r2 else Option.bind (set_input_fragment r2) (\<lambda>r.
          if \<not> fst r then Some (False, snd r) else skip_to_end (snd r)))"
        using False r1(1) by (subst skip_to_end.simps) (auto simp: r2_def Let_def)
      show ?thesis
      proof (cases "last_frag r")
        case True
        then show ?thesis
          using r2 unfolding loop tail by (simp add: skip_to_end.simps [of r2] record_tail_def record_end.simps [of 0])
      next
        case more: False
        show ?thesis
        proof (cases "length (unread incoming r2) < 4 \<or> header_of (unread incoming r2) = 0")
          case True
          then show ?thesis
            using next_fragment [OF assms r2(1)] more r2 unfolding loop tail
            by (auto simp: record_tail_def record_end.simps [of 0])
        next
          case hdr: False
          then obtain r3 where r3: "set_input_fragment r2 = Some (True, r3)" "in_wf rd r3"
              "unread incoming r3 = drop 4 (unread incoming r2)"
              "fbtbc r3 = unat (header_of (unread incoming r2) AND NOT LAST_FRAG)"
              "last_frag r3 = (header_of (unread incoming r2) AND LAST_FRAG \<noteq> 0)"
            using next_fragment [OF assms r2(1)] by auto
          have "record_tail incoming r2 = record_tail incoming r3"
            using hdr more r2 r3 by (simp add: record_tail_def record_end.simps [of 0])
          moreover have "length (unread incoming r3) < length ?bs"
            using hdr r2(2) r3(3) by auto
          moreover have "skip_to_end r = skip_to_end r3"
            using r3(1) more r2(4) by (simp add: loop)
          ultimately show ?thesis
            using less.hyps [of r3] r3(2) unfolding tail by (simp split: option.splits)
        qed
      qed
    qed
  qed
qed

lemma xdrrec_skiprecord_skips:
  assumes "reliable rd incoming" "in_wf rd r" "record_tail incoming r = Some rest"
  shows "\<exists>r'. xdrrec_skiprecord r = Some (True, r') \<and> reading rd incoming (record_end 0 False rest) r' \<and>
    record_avail incoming r' = record_rest 0 False rest"
proof -
  obtain r1 where r1: "skip_to_end r = Some (True, r1)" "in_wf rd r1" "unread incoming r1 = rest" "fbtbc r1 = 0"
    using skip_to_end_skips [OF assms(1,2)] assms(3) by auto
  then have "xdrrec_skiprecord r = Some (True, r1\<lparr>last_frag := False\<rparr>)"
    by (simp add: xdrrec_skiprecord_def)
  moreover have "in_wf rd (r1\<lparr>last_frag := False\<rparr>)" "unread incoming (r1\<lparr>last_frag := False\<rparr>) = rest"
    using r1 by (simp_all add: in_wf_def unread_def buffered_def)
  ultimately show ?thesis
    using r1(4) by (simp add: reading_def record_avail_def record_tail_def)
qed

section \<open>A record on the wire\<close>

definition record_wire :: "byte list list \<Rightarrow> byte list \<Rightarrow> byte list" where
  "record_wire frs p = concat (map (frame False) frs) @ frame True p"

text \<open>A fragment header carries the length in its low 31 bits and the end mark in the top bit.\<close>

lemma header_fields:
  assumes "n < 2 ^ 31"
  defines "w \<equiv> word_of_nat n :: u32"
  shows "unat ((w OR LAST_FRAG) AND NOT LAST_FRAG) = n" "(w OR LAST_FRAG) AND LAST_FRAG \<noteq> 0" "w OR LAST_FRAG \<noteq> 0"
    "unat (w AND NOT LAST_FRAG) = n" "w AND LAST_FRAG = 0" "w = 0 \<longleftrightarrow> n = 0"
proof -
  have n: "unat w = n"
    using assms by (simp add: unat_of_nat take_bit_nat_eq_self)
  have "take_bit 31 n = n"
    using assms(1) by (simp add: take_bit_nat_eq_self)
  then have "bit n i \<Longrightarrow> i < 31" for i
    by (metis bit_take_bit_iff)
  then have low: "bit w i \<longleftrightarrow> i < 31 \<and> bit n i" for i
    by (auto simp: w_def bit_of_nat_iff possible_bit_def dest: order.strict_trans)
  have mark: "bit LAST_FRAG i \<longleftrightarrow> i = 31" for i
    unfolding LAST_FRAG_def bit_push_bit_iff by (auto simp: bit_1_iff)
  have w1: "(w OR LAST_FRAG) AND NOT LAST_FRAG = w"
    by (rule bit_word_eqI) (auto simp: bit_simps low mark)
  have w2: "w AND NOT LAST_FRAG = w"
    by (rule bit_word_eqI) (auto simp: bit_simps low mark)
  have "bit (w OR LAST_FRAG) 31" "bit ((w OR LAST_FRAG) AND LAST_FRAG) 31"
    by (auto simp: bit_simps mark)
  then show "w OR LAST_FRAG \<noteq> 0" "(w OR LAST_FRAG) AND LAST_FRAG \<noteq> 0"
    by (metis bit_0_eq bot_apply bot_bool_def)+
  show "w AND LAST_FRAG = 0"
    by (rule bit_word_eqI) (auto simp: bit_simps low mark)
  show "unat ((w OR LAST_FRAG) AND NOT LAST_FRAG) = n" "unat (w AND NOT LAST_FRAG) = n"
    using n by (simp_all add: w1 w2)
  show "w = 0 \<longleftrightarrow> n = 0"
    using n by (metis unat_0 unat_eq_zero)
qed

lemma header_of_frame:
  "header_of (frame eor p @ rest) = word_of_nat (length p) OR (if eor then LAST_FRAG else 0)"
  "length (frame eor p) = 4 + length p" "drop 4 (frame eor p @ rest) = p @ rest"
  by (simp_all add: frame_def)

lemma record_wire_reads:
  assumes "\<forall>f\<in>set frs. f \<noteq> [] \<and> length f < 2 ^ 31" "length p < 2 ^ 31"
  shows "record_rest 0 False (record_wire frs p @ rest) = concat frs @ p"
    "record_end 0 False (record_wire frs p @ rest) = Some rest"
proof -
  have first: "record_rest 0 False (frame eor f @ bs) = f @ record_rest 0 eor bs"
    "record_end 0 False (frame eor f @ bs) = record_end 0 eor bs"
    if f: "length f < 2 ^ 31" "eor \<or> f \<noteq> []" for eor f bs
  proof -
    have h: "header_of (frame eor f @ bs) \<noteq> 0" "unat (header_of (frame eor f @ bs) AND NOT LAST_FRAG) = length f"
      "(header_of (frame eor f @ bs) AND LAST_FRAG \<noteq> 0) = eor"
      unfolding header_of_frame using header_fields [OF f(1)] f(2) by auto
    have "record_rest 0 False (frame eor f @ bs) = record_rest (length f) eor (f @ bs)"
      "record_end 0 False (frame eor f @ bs) = record_end (length f) eor (f @ bs)"
      using h by (subst record_rest.simps record_end.simps, simp add: header_of_frame del: take_append drop_append)+
    then show "record_rest 0 False (frame eor f @ bs) = f @ record_rest 0 eor bs"
      "record_end 0 False (frame eor f @ bs) = record_end 0 eor bs"
      using record_rest_split [of "length f" "length f" "f @ bs" eor] record_end_split [of "length f" "length f" "f @ bs" eor]
      by simp_all
  qed
  show "record_rest 0 False (record_wire frs p @ rest) = concat frs @ p"
    using assms by (induction frs) (simp_all add: record_wire_def first record_rest.simps [of 0 True])
  show "record_end 0 False (record_wire frs p @ rest) = Some rest"
    using assms by (induction frs) (simp_all add: record_wire_def first record_end.simps [of 0 True])
qed

text \<open>Closing a record sends the fragment being built as the last one.\<close>

lemma endofrecord_sends:
  assumes "out_puts wr sent w bs w'" "open_frag w = []" "delivers wr sent"
  shows "\<exists>w'' frs p. xdrrec_endofrecord w' True = (True, w'') \<and> out_wf wr w'' \<and> open_frag w'' = [] \<and>
    sent (tcp_handle w'') = sent (tcp_handle w) @ record_wire frs p \<and> concat frs @ p = bs \<and>
    (\<forall>f\<in>set frs. f \<noteq> [] \<and> length f < 2 ^ 31) \<and> length p < 2 ^ 31"
proof -
  obtain frs where frs: "out_wf wr w'" "sent (tcp_handle w') = sent (tcp_handle w) @ concat (map (frame False) frs)"
      "bs = concat frs @ open_frag w'" "\<forall>f\<in>set frs. f \<noteq> [] \<and> length f < 2 ^ 31"
    using assms(1,2) by (auto simp: out_puts_def)
  have wf: "out_wf wr (w'\<lparr>frag_sent := False\<rparr>)" "open_frag (w'\<lparr>frag_sent := False\<rparr>) = open_frag w'"
    using frs(1) by (simp_all add: out_wf_def open_frag_def)
  moreover have "length (open_frag w') < 2 ^ 31"
    using frs(1) by (auto simp: out_wf_def open_frag_def)
  ultimately show ?thesis
    using flush_out_sends [OF wf(1) assms(3), of True] frs
    by (auto simp: xdrrec_endofrecord_def record_wire_def intro!: exI [of _ frs])
qed

section \<open>Round trips\<close>

abbreviation rec_xdr :: "('h \<Rightarrow> int) \<Rightarrow> xdr_op \<Rightarrow> 'h rec_strm \<Rightarrow> 'h rec_strm XDR" where
  "rec_xdr ls op r \<equiv> \<lparr>x_op = op, x_ops = xdrrec_ops ls, x_stream = r\<rparr>"

text \<open>Writing \<open>v\<close> on \<open>w\<close> and ending the record sends fragments whose payload is \<open>bs\<close>. A reader
  before these fragments moves to the record, gets \<open>v\<close> back, finds the record exhausted then, and
  moves on to what follows it.\<close>

definition record_roundtrip ::
  "('h \<Rightarrow> int) \<Rightarrow> ('h \<Rightarrow> byte list) \<Rightarrow> ('h \<Rightarrow> byte list) \<Rightarrow> 'h rec_strm \<Rightarrow> 'h rec_strm
     \<Rightarrow> ('h rec_strm, 'a) xdr_filter \<Rightarrow> 'a \<Rightarrow> 'a \<Rightarrow> byte list \<Rightarrow> bool" where
  "record_roundtrip ls sent incoming w r f v v0 bs \<longleftrightarrow>
     (\<exists>w1 w2 frs p.
        f (rec_xdr ls XDR_ENCODE w) v = (True, rec_xdr ls XDR_ENCODE w1, v) \<and>
        xdrrec_endofrecord w1 True = (True, w2) \<and>
        sent (tcp_handle w2) = sent (tcp_handle w) @ record_wire frs p \<and> concat frs @ p = bs \<and>
        (\<forall>rest. unread incoming r = record_wire frs p @ rest \<longrightarrow>
           (\<exists>r1 r2 r3. xdrrec_skiprecord r = Some (True, r1) \<and>
              f (rec_xdr ls XDR_DECODE r1) v0 = (True, rec_xdr ls XDR_DECODE r2, v) \<and>
              (\<forall>buf n. 0 < n \<longrightarrow> \<not> fst (xdrrec_getbytes r2 buf n)) \<and>
              xdrrec_skiprecord r2 = Some (True, r3) \<and> record_avail incoming r3 = record_rest 0 False rest)))"

lemma record_roundtripI:
  assumes out: "delivers wr sent" "out_wf wr w" "open_frag w = []"
    and inp: "reliable rd incoming" "in_wf rd r" "fbtbc r = 0" "last_frag r"
    and enc: "xdr_sink.encodes (xdrrec_ops ls) (out_wf wr) (out_puts wr sent) (\<lambda>_ _. True) f v bs"
    and dec: "\<And>e. xdr_source.decodes (xdrrec_ops ls) (reading rd incoming e) (record_avail incoming) f v0 bs v"
  shows "record_roundtrip ls sent incoming w r f v v0 bs"
proof -
  note sink = rec_sink [OF out(1), of ls]
  obtain w1 where w1: "f (rec_xdr ls XDR_ENCODE w) v = (True, rec_xdr ls XDR_ENCODE w1, v)" "out_puts wr sent w bs w1"
    using xdr_sink.encodes_ok [OF sink enc out(2)] by (auto simp: xdr_sink.enc_def [OF sink])
  then obtain w2 frs p where w2: "xdrrec_endofrecord w1 True = (True, w2)"
      "sent (tcp_handle w2) = sent (tcp_handle w) @ record_wire frs p" "concat frs @ p = bs"
      "\<forall>f\<in>set frs. f \<noteq> [] \<and> length f < 2 ^ 31" "length p < 2 ^ 31"
    using endofrecord_sends [OF _ out(3,1)] by blast
  have "\<exists>r1 r2 r3. xdrrec_skiprecord r = Some (True, r1) \<and>
      f (rec_xdr ls XDR_DECODE r1) v0 = (True, rec_xdr ls XDR_DECODE r2, v) \<and>
      (\<forall>buf n. 0 < n \<longrightarrow> \<not> fst (xdrrec_getbytes r2 buf n)) \<and>
      xdrrec_skiprecord r2 = Some (True, r3) \<and> record_avail incoming r3 = record_rest 0 False rest"
    if "unread incoming r = record_wire frs p @ rest" for rest
  proof -
    have "record_tail incoming r = Some (record_wire frs p @ rest)"
      using that inp(3,4) by (simp add: record_tail_def record_end.simps [of 0])
    then obtain r1 where r1: "xdrrec_skiprecord r = Some (True, r1)" "reading rd incoming (Some rest) r1"
        "record_avail incoming r1 = bs @ []"
      using xdrrec_skiprecord_skips [OF inp(1,2)] record_wire_reads [OF w2(4,5), of rest] w2(3) by auto
    note src = xdr_signed_source.axioms(1) [OF rec_source [OF inp(1), of ls "Some rest"]]
    obtain r2 where r2: "f (rec_xdr ls XDR_DECODE r1) v0 = (True, rec_xdr ls XDR_DECODE r2, v)"
        "reading rd incoming (Some rest) r2" "record_avail incoming r2 = []"
      using xdr_source.decodes_ok [OF src dec r1(2,3)] by (auto simp: xdr_source.dec_def [OF src])
    then have "\<forall>buf n. 0 < n \<longrightarrow> \<not> fst (xdrrec_getbytes r2 buf n)"
      using xdrrec_getbytes_short [OF inp(1), of r2] by (simp add: reading_def word_gt_0 unat_gt_0)
    moreover obtain r3 where "xdrrec_skiprecord r2 = Some (True, r3)" "record_avail incoming r3 = record_rest 0 False rest"
      using xdrrec_skiprecord_skips [OF inp(1), of r2 rest] r2(2) by (auto simp: reading_def)
    ultimately show ?thesis
      using r1(1) r2(1) by blast
  qed
  then show ?thesis
    unfolding record_roundtrip_def using w1(1) w2(1-3) by blast
qed

text \<open>A stream as xdrrec_create leaves it is ready for writing and for reading.\<close>

lemma xdrrec_create_ready:
  assumes "xdrrec_create mem_alloc sendsize recvsize h rd wr = Some s"
    and "\<And>n buf. mem_alloc n = Some buf \<Longrightarrow> length buf = n" "unat sendsize < 2 ^ 30" "unat recvsize < 2 ^ 30"
  shows "out_wf wr s" "open_frag s = []" "in_wf rd s" "fbtbc s = 0" "last_frag s" "unread incoming s = incoming h"
    "tcp_handle s = h"
proof -
  have size: "100 \<le> unat (fix_buf_size z)" "unat (fix_buf_size z) < 2 ^ 30 + 4" if "unat z < 2 ^ 30" for z
  proof -
    define y where "y = (if z < 100 then 4000 else z)"
    have y: "100 \<le> unat y" "unat y < 2 ^ 30"
      using that by (auto simp: y_def word_less_nat_alt)
    then have "unat (RNDUP y) = unat y + padding (unat y)"
      by (intro unat_RNDUP_padding) simp
    then show "100 \<le> unat (fix_buf_size z)" "unat (fix_buf_size z) < 2 ^ 30 + 4"
      using y padding_less [of "unat y"] by (simp_all add: fix_buf_size_def y_def Let_def)
  qed
  define a b where "a = fix_buf_size sendsize" and "b = fix_buf_size recvsize"
  note a = size [OF assms(3), folded a_def] and b = size [OF assms(4), folded b_def]
  have total: "unat (a + b + BYTES_PER_XDR_UNIT) = unat a + unat b + 4"
    using a(2) b(2) by (simp add: unat_word_ariths BYTES_PER_XDR_UNIT_def)
  obtain buf where buf: "mem_alloc (unat (a + b + BYTES_PER_XDR_UNIT)) = Some buf"
      "s = \<lparr>tcp_handle = h, writeit = wr, out_buf = take (unat a) buf, out_finger = 4, out_boundry = unat a,
          frag_header = 0, frag_sent = False, readit = rd, in_buf = take (unat b) (drop (unat a) buf), in_size = unat b,
          in_finger = unat b, in_boundry = unat b, fbtbc = 0, last_frag = True\<rparr>"
    using assms(1) by (auto simp: xdrrec_create_def Let_def a_def b_def split: if_splits)
  have "length buf = unat a + unat b + 4"
    using assms(2) [OF buf(1)] total by simp
  then show "out_wf wr s" "open_frag s = []" "in_wf rd s" "fbtbc s = 0" "last_frag s" "unread incoming s = incoming h"
    "tcp_handle s = h"
    using a b by (simp_all add: buf(2) out_wf_def open_frag_def in_wf_def unread_def buffered_def)
qed

section \<open>Properties\<close>

text \<open>
  C21. A string through a record stream: for any buffer sizes below 2^30 given to xdrrec_create (with
  larger ones the u_int sum of the two can wrap around, and the block is too small), a transport that
  takes what it is given, and one that delivers its bytes in pieces of any size and then -1, xdr_string
  and xdrrec_endofrecord send the XDR form of the string cut into fragments; xdrrec_skiprecord and
  xdr_string on a fresh receiving stream return the same string, no byte of the record is left, and
  the next xdrrec_skiprecord stands at whatever followed the record.
\<close>

theorem xdr_string_rec_roundtrip:
  assumes transport: "delivers wr sent" "reliable rd incoming"
    and sender: "xdrrec_create mem_alloc sendsize recvsize h rd' wr = Some w"
    and receiver: "xdrrec_create mem_alloc sendsize' recvsize' h' rd wr' = Some r"
    and sizes: "unat sendsize < 2 ^ 30" "unat recvsize < 2 ^ 30" "unat sendsize' < 2 ^ 30" "unat recvsize' < 2 ^ 30"
    and mem: "\<And>n buf. mem_alloc n = Some buf \<Longrightarrow> length buf = n" "allocates alloc"
    and string: "0 \<notin> set cs" "length cs \<le> unat maxsize" "length cs < 2 ^ 32 - 1"
  shows "unread incoming r = incoming h' \<and>
    record_roundtrip ls sent incoming w r (\<lambda>x p. xdr_string alloc x p maxsize) (Some (cs @ [0])) None (xdr_counted cs)"
proof
  note w = xdrrec_create_ready [OF sender mem(1) sizes(1,2)]
  note r = xdrrec_create_ready [OF receiver mem(1) sizes(3,4)]
  show "unread incoming r = incoming h'"
    by (rule r(6))
  note src = xdr_signed_source.axioms(1) [OF rec_source [OF transport(2)]]
  show "record_roundtrip ls sent incoming w r (\<lambda>x p. xdr_string alloc x p maxsize) (Some (cs @ [0])) None (xdr_counted cs)"
    using xdr_sink.encodes_xdr_string [OF rec_sink [OF transport(1)], of "cs @ [0]" maxsize ls alloc] string
      xdr_source.decodes_string_fresh [OF src mem(2) string(2,3)]
    by (intro record_roundtripI [OF transport(1) w(1,2) transport(2) r(3-5)]) simp_all
qed

text \<open>A transport over a byte list that hands out at most three bytes at a time.\<close>

definition list_write :: "byte list \<Rightarrow> byte list \<Rightarrow> int \<times> byte list" where
  "list_write h bs = (int (length bs), h @ bs)"

definition list_read :: "byte list \<Rightarrow> nat \<Rightarrow> int \<times> byte list \<times> byte list" where
  "list_read h n = (if h = [] then (- 1, [], []) else let bs = take (min n 3) h in (int (length bs), bs, drop (min n 3) h))"

lemma list_transport: "delivers list_write id" "reliable list_read id"
  by (auto simp: delivers_def list_write_def reliable_def list_read_def Let_def)

theorem xdr_string_rec_roundtrip_witness:
  "\<exists>w r. xdrrec_create (\<lambda>n. Some (replicate n 0)) 0 0 [] list_read list_write = Some w \<and>
     xdrrec_create (\<lambda>n. Some (replicate n 0)) 0 0 [0x80, 0, 0, 8, 0, 0, 0, 2, 104, 105, 0, 0] list_read list_write = Some r \<and>
     unread id r = [0x80, 0, 0, 8, 0, 0, 0, 2, 104, 105, 0, 0] \<and>
     record_roundtrip (\<lambda>_. - 1) id id w r (\<lambda>x p. xdr_string (\<lambda>n. Some (replicate (unat n) 7)) x p 5)
       (Some [104, 105, 0]) None (xdr_counted [104, 105])"
proof -
  let ?m = "\<lambda>n. Some (replicate n 0)"
  obtain w r where "xdrrec_create ?m 0 0 [] list_read list_write = Some w"
      "xdrrec_create ?m 0 0 [0x80, 0, 0, 8, 0, 0, 0, 2, 104, 105, 0, 0] list_read list_write = Some r"
    by (simp add: xdrrec_create_def Let_def)
  with xdr_string_rec_roundtrip [OF list_transport this, of "\<lambda>n. Some (replicate (unat n) 7)" "[104, 105]" 5 "\<lambda>_. - 1"]
  show ?thesis
    by (auto simp: allocates_def)
qed

section \<open>Empty reads\<close>

text \<open>
  A read callback that returns 0 at the end of its input, as the system call read does, is not
  noticed: with the buffer empty, get_input_bytes, and skip_input_bytes with it, calls it for ever.
\<close>

definition reads_nothing :: "('h \<Rightarrow> nat \<Rightarrow> int \<times> byte list \<times> 'h) \<Rightarrow> 'h rec_strm \<Rightarrow> bool" where
  "reads_nothing rd r \<longleftrightarrow> readit r = rd \<and> in_boundry r = in_finger r"

lemma fill_reads_nothing:
  assumes "\<And>h n. fst (rd h n) = 0" "reads_nothing rd r"
  shows "fst (fill_input_buf r)" "reads_nothing rd (snd (fill_input_buf r))"
  using assms(2) assms(1) [of "tcp_handle r" "in_size r - in_boundry r mod 4"]
  by (auto simp: fill_input_buf_def reads_nothing_def Let_def split: prod.splits)

theorem input_loops_endless:
  assumes rd: "\<And>h n. fst (rd h n) = 0" and r: "reads_nothing rd r" "0 < len"
  shows "get_input_bytes r got len = None \<and> skip_input_bytes r len = None"
proof
  have "\<not> (reads_nothing rd r \<and> 0 < len)" if "get_input_bytes r got len = Some y" for r :: "'a rec_strm" and got len y
  proof (rule get_input_bytes.raw_induct [where P = "\<lambda>r got len y. \<not> (reads_nothing rd r \<and> 0 < len)", OF _ that])
    fix f and r :: "'a rec_strm" and got :: "byte list" and len :: nat and y
    assume IH: "\<And>r got len y. f r got len = Some y \<Longrightarrow> \<not> (reads_nothing rd r \<and> 0 < len)"
      and body: "(if len = 0 then Some (True, r, got)
         else let current = in_boundry r - in_finger r in
           if current = 0
           then let r' = fill_input_buf r in if \<not> fst r' then Some (False, snd r', got) else f (snd r') got len
           else let current = min len current in
             f (r\<lparr>in_finger := in_finger r + current\<rparr>)
               (got @ take current (drop (in_finger r) (in_buf r))) (len - current)) = Some y"
    show "\<not> (reads_nothing rd r \<and> 0 < len)"
    proof
      assume r: "reads_nothing rd r \<and> 0 < len"
      note fill = fill_reads_nothing [where rd = rd and r = r, OF rd conjunct1 [OF r]]
      have "f (snd (fill_input_buf r)) got len = Some y"
        using body r fill(1) by (simp add: Let_def reads_nothing_def)
      from IH [OF this] show False
        using fill(2) r by blast
    qed
  qed
  then show "get_input_bytes r got len = None"
    using r by (metis option.exhaust)
next
  have "\<not> (reads_nothing rd r \<and> 0 < cnt)" if "skip_input_bytes r cnt = Some y" for r :: "'a rec_strm" and cnt y
  proof (rule skip_input_bytes.raw_induct [where P = "\<lambda>r cnt y. \<not> (reads_nothing rd r \<and> 0 < cnt)", OF _ that])
    fix f and r :: "'a rec_strm" and cnt :: nat and y
    assume IH: "\<And>r cnt y. f r cnt = Some y \<Longrightarrow> \<not> (reads_nothing rd r \<and> 0 < cnt)"
      and body: "(if cnt = 0 then Some (True, r)
         else let current = in_boundry r - in_finger r in
           if current = 0
           then let r' = fill_input_buf r in if \<not> fst r' then Some (False, snd r') else f (snd r') cnt
           else let current = min cnt current in
             f (r\<lparr>in_finger := in_finger r + current\<rparr>) (cnt - current)) = Some y"
    show "\<not> (reads_nothing rd r \<and> 0 < cnt)"
    proof
      assume r: "reads_nothing rd r \<and> 0 < cnt"
      note fill = fill_reads_nothing [where rd = rd and r = r, OF rd conjunct1 [OF r]]
      have "f (snd (fill_input_buf r)) cnt = Some y"
        using body r fill(1) by (simp add: Let_def reads_nothing_def)
      from IH [OF this] show False
        using fill(2) r by blast
    qed
  qed
  then show "skip_input_bytes r len = None"
    using r by (metis option.exhaust)
qed

section \<open>Reading within a record\<close>

text \<open>
  C22. Reading is confined to the current record: on a receiving stream whose read callback gives
  non-empty pieces of its input and -1 at the end of it, as readtcp does, xdrrec_getbytes ends, and
  it succeeds exactly when the record still holds that many bytes; it then returns its next bytes
  and leaves the rest. The bytes of the following record are never returned. (With a callback that
  gives 0 at the end it need not end: \<open>input_loops_endless\<close>.)
\<close>

theorem xdrrec_getbytes_within_record:
  assumes "reliable rd incoming" "in_wf rd r"
  shows "let bs = record_avail incoming r; n = unat len; (ok, r', buf') = xdrrec_getbytes r buf len in
    getbytes_loop r [] n \<noteq> None \<and> (ok \<longleftrightarrow> n \<le> length bs) \<and>
    (ok \<longrightarrow> buf' = blit buf 0 (take n bs) \<and> in_wf rd r' \<and> record_avail incoming r' = drop n bs \<and>
       record_tail incoming r' = record_tail incoming r)"
  using getbytes_loop_reads [OF assms, of "unat len" "[]"] by (auto simp: xdrrec_getbytes_def split: if_splits)

text \<open>Here the record has two fragments, and another record follows.\<close>

theorem xdrrec_getbytes_within_record_witness:
  "let h = [0, 0, 0, 1, 7, 0x80, 0, 0, 1, 8, 0x80, 0, 0, 1, 9]; r = \<lparr>tcp_handle = h, writeit = list_write, out_buf = [],
     out_finger = 0, out_boundry = 0, frag_header = 0, frag_sent = False, readit = list_read, in_buf = replicate 100 0,
     in_size = 100, in_finger = 100, in_boundry = 100, fbtbc = 0, last_frag = False\<rparr>;
     (ok, r', buf') = xdrrec_getbytes r [0, 0] 2 in
   ok \<and> buf' = [7, 8] \<and> record_avail id r' = [] \<and> record_tail id r' = Some [0x80, 0, 0, 1, 9]"
proof -
  let ?h = "[0, 0, 0, 1, 7, 0x80, 0, 0, 1, 8, 0x80, 0, 0, 1, 9] :: byte list"
  let ?r = "\<lparr>tcp_handle = ?h, writeit = list_write, out_buf = [],
     out_finger = 0, out_boundry = 0, frag_header = 0, frag_sent = False, readit = list_read, in_buf = replicate 100 0,
     in_size = 100, in_finger = 100, in_boundry = 100, fbtbc = 0, last_frag = False\<rparr>"
  have be: "xdr_be 1 = [0, 0, 0, 1]" "xdr_be 0x80000001 = [0x80, 0, 0, 1]"
    by (simp_all add: xdr_be_def be_bytes_def le_bytes_def upt_rec)
  have "in_wf list_read ?r" "unread id ?r = record_wire [[7]] [8] @ [0x80, 0, 0, 1, 9]"
    by (simp_all add: in_wf_def unread_def buffered_def record_wire_def frame_def LAST_FRAG_def be)
  moreover from this(2) have "record_avail id ?r = [7, 8]" "record_tail id ?r = Some [0x80, 0, 0, 1, 9]"
    using record_wire_reads [of "[[7]]" "[8]" "[0x80, 0, 0, 1, 9]"] by (simp_all add: record_avail_def record_tail_def)
  ultimately show ?thesis
    using xdrrec_getbytes_within_record [OF list_transport(2), of ?r 2 "[0, 0]"]
    by (auto simp: Let_def blit_def split: prod.splits)
qed

end
