(* ===== verification/Xdr_Stdio.thy ===== *)
theory Xdr_Stdio
  imports Xdr_Contract
begin

text \<open>
  XDR on a stdio stream (sunrpc/xdr_stdio.c) and the measuring stream behind xdr_sizeof
  (sunrpc/xdr_sizeof.c).

  A FILE is what the stdio calls show of it. The bytes written are seen through the stream at once,
  as \<open>contents\<close>; the device gets them when a buffer is full, at fflush and at fseek, and \<open>stored\<close> is
  what it holds after these. The device takes \<open>device\<close> bytes. A write fails only when the buffer has
  to be emptied and the device has no room (libio/fileops.c, _IO_new_file_xsputn), that is, behind a
  position \<open>accepts\<close> that is at least \<open>device\<close> and depends on the buffer; a write before that position
  succeeds, and the loss of what lies behind the end of the device shows only at fflush or fseek. A
  read past the end and a write past \<open>accepts\<close> transfer what they can and report no complete item.
\<close>

section \<open>The stdio calls\<close>

record FILE =
  contents :: "byte list"
  offset :: nat
  accepts :: nat
  device :: nat
  stored :: "byte list"

text \<open>One item of \<open>sz\<close> bytes. \<open>fread\<close> overwrites the start of the destination.\<close>

definition fread1 :: "byte list \<Rightarrow> nat \<Rightarrow> FILE \<Rightarrow> nat \<times> FILE \<times> byte list" where
  "fread1 dst sz f =
     (let bs = take sz (drop (offset f) (contents f)) in
      (if sz \<le> length bs then 1 else 0, f\<lparr>offset := offset f + length bs\<rparr>, blit dst 0 bs))"

definition fwrite1 :: "byte list \<Rightarrow> nat \<Rightarrow> FILE \<Rightarrow> nat \<times> FILE" where
  "fwrite1 src sz f =
     (let n = min sz (accepts f - offset f);
          old = contents f @ replicate (offset f - length (contents f)) 0 in
      (if sz \<le> n then 1 else 0, f\<lparr>contents := blit old (offset f) (take n src), offset := offset f + n\<rparr>))"

definition fflush :: "FILE \<Rightarrow> int \<times> FILE" where
  "fflush f = (if length (contents f) \<le> device f then 0 else - 1, f\<lparr>stored := take (device f) (contents f)\<rparr>)"

definition ftell :: "FILE \<Rightarrow> nat" where
  "ftell f = offset f"

definition fseek_set :: "FILE \<Rightarrow> nat \<Rightarrow> int \<times> FILE" where
  "fseek_set f pos = (let (r, f) = fflush f in if r < 0 then (- 1, f) else (0, f\<lparr>offset := pos\<rparr>))"

section \<open>sunrpc/xdr_stdio.c\<close>

text \<open>The result of fflush is dropped.\<close>

definition xdrstdio_destroy :: "FILE \<Rightarrow> FILE" where
  "xdrstdio_destroy f = (let (_, f) = fflush f in f)"

definition xdrstdio_getlong :: "FILE \<Rightarrow> u64 \<Rightarrow> bool \<times> FILE \<times> u64" where
  "xdrstdio_getlong f lp =
     (let (n, f, mycopy) = fread1 [0, 0, 0, 0] 4 f in
      if n \<noteq> 1 then (False, f, lp) else (True, f, ucast (bswap_32 (load32 mycopy))))"

definition xdrstdio_putlong :: "FILE \<Rightarrow> u64 \<Rightarrow> bool \<times> FILE" where
  "xdrstdio_putlong f lp =
     (let mycopy = bswap_32 (ucast lp); (n, f) = fwrite1 (store32 mycopy) 4 f in (n = 1, f))"

text \<open>The length goes through int before it becomes a size_t.\<close>

definition item_size :: "u32 \<Rightarrow> nat" where
  "item_size len = unat (scast len :: u64)"

definition xdrstdio_getbytes :: "FILE \<Rightarrow> byte list \<Rightarrow> u32 \<Rightarrow> bool \<times> FILE \<times> byte list" where
  "xdrstdio_getbytes f addr len =
     (if len \<noteq> 0
      then let (n, f, addr) = fread1 addr (item_size len) f in (n = 1, f, addr)
      else (True, f, addr))"

definition xdrstdio_putbytes :: "FILE \<Rightarrow> byte list \<Rightarrow> u32 \<Rightarrow> bool \<times> FILE" where
  "xdrstdio_putbytes f addr len =
     (if len \<noteq> 0 then let (n, f) = fwrite1 addr (item_size len) f in (n = 1, f) else (True, f))"

definition xdrstdio_getpos :: "xdr_op \<Rightarrow> FILE \<Rightarrow> u32" where
  "xdrstdio_getpos op f = word_of_nat (ftell f)"

definition xdrstdio_setpos :: "xdr_op \<Rightarrow> FILE \<Rightarrow> u32 \<Rightarrow> bool \<times> FILE" where
  "xdrstdio_setpos op f pos = (let (r, f) = fseek_set f (unat pos) in (\<not> r < 0, f))"

definition xdrstdio_inline :: "xdr_op \<Rightarrow> FILE \<Rightarrow> u32 \<Rightarrow> u64 option \<times> FILE" where
  "xdrstdio_inline op f len = (None, f)"

definition xdrstdio_getint32 :: "FILE \<Rightarrow> u32 \<Rightarrow> bool \<times> FILE \<times> u32" where
  "xdrstdio_getint32 f ip =
     (let (n, f, mycopy) = fread1 [0, 0, 0, 0] 4 f in
      if n \<noteq> 1 then (False, f, ip) else (True, f, bswap_32 (load32 mycopy)))"

definition xdrstdio_putint32 :: "FILE \<Rightarrow> u32 \<Rightarrow> bool \<times> FILE" where
  "xdrstdio_putint32 f ip =
     (let mycopy = bswap_32 ip; (n, f) = fwrite1 (store32 mycopy) 4 f in (n = 1, f))"

definition xdrstdio_ops :: "FILE xdr_ops" where
  "xdrstdio_ops = \<lparr>x_getlong = xdrstdio_getlong, x_putlong = xdrstdio_putlong,
     x_getbytes = xdrstdio_getbytes, x_putbytes = xdrstdio_putbytes,
     x_getpostn = xdrstdio_getpos, x_setpostn = xdrstdio_setpos, x_inline = xdrstdio_inline,
     x_destroy = xdrstdio_destroy, x_getint32 = xdrstdio_getint32, x_putint32 = xdrstdio_putint32\<rparr>"

definition xdrstdio_create :: "FILE \<Rightarrow> xdr_op \<Rightarrow> FILE XDR" where
  "xdrstdio_create file op = \<lparr>x_op = op, x_ops = xdrstdio_ops, x_stream = file\<rparr>"

lemma xdrstdio_ops_simps [simp]:
  "x_getlong xdrstdio_ops = xdrstdio_getlong" "x_putlong xdrstdio_ops = xdrstdio_putlong"
  "x_getbytes xdrstdio_ops = xdrstdio_getbytes" "x_putbytes xdrstdio_ops = xdrstdio_putbytes"
  "x_getpostn xdrstdio_ops = xdrstdio_getpos" "x_setpostn xdrstdio_ops = xdrstdio_setpos"
  "x_getint32 xdrstdio_ops = xdrstdio_getint32" "x_putint32 xdrstdio_ops = xdrstdio_putint32"
  by (simp_all add: xdrstdio_ops_def)

section \<open>sunrpc/xdr_sizeof.c\<close>

record sizeof_stream =
  sz_handy :: u32
  sz_private :: "u64 option"
  sz_base :: u64

definition x_putlong :: "sizeof_stream \<Rightarrow> u64 \<Rightarrow> bool \<times> sizeof_stream" where
  "x_putlong x longp = (True, x\<lparr>sz_handy := sz_handy x + BYTES_PER_XDR_UNIT\<rparr>)"

definition x_putbytes :: "sizeof_stream \<Rightarrow> byte list \<Rightarrow> u32 \<Rightarrow> bool \<times> sizeof_stream" where
  "x_putbytes x bp len = (True, x\<lparr>sz_handy := sz_handy x + len\<rparr>)"

definition x_getpostn :: "xdr_op \<Rightarrow> sizeof_stream \<Rightarrow> u32" where
  "x_getpostn op x = sz_handy x"

definition x_setpostn :: "xdr_op \<Rightarrow> sizeof_stream \<Rightarrow> u32 \<Rightarrow> bool \<times> sizeof_stream" where
  "x_setpostn op x len = (False, x)"

definition x_inline :: "(u32 \<Rightarrow> u64 option) \<Rightarrow> xdr_op \<Rightarrow> sizeof_stream \<Rightarrow> u32 \<Rightarrow> u64 option \<times> sizeof_stream" where
  "x_inline malloc op x len =
     (if len = 0 then (None, x)
      else if op \<noteq> XDR_ENCODE then (None, x)
      else if len < ucast (sz_base x) then (sz_private x, x\<lparr>sz_handy := sz_handy x + len\<rparr>)
      else case malloc len of
        None \<Rightarrow> (None, x\<lparr>sz_private := None, sz_base := 0\<rparr>)
      | Some p \<Rightarrow> (Some p, x\<lparr>sz_private := Some p, sz_base := ucast len, sz_handy := sz_handy x + len\<rparr>))"

definition x_destroy :: "sizeof_stream \<Rightarrow> sizeof_stream" where
  "x_destroy x = x\<lparr>sz_handy := 0, sz_base := 0, sz_private := None\<rparr>"

definition x_putint32 :: "sizeof_stream \<Rightarrow> u32 \<Rightarrow> bool \<times> sizeof_stream" where
  "x_putint32 x int32p = (True, x\<lparr>sz_handy := sz_handy x + BYTES_PER_XDR_UNIT\<rparr>)"

definition harmless :: "'s \<Rightarrow> 'a \<Rightarrow> bool \<times> 's \<times> 'a" where
  "harmless x v = (False, x, v)"

definition sizeof_ops :: "(u32 \<Rightarrow> u64 option) \<Rightarrow> sizeof_stream xdr_ops" where
  "sizeof_ops malloc = \<lparr>x_getlong = harmless, x_putlong = x_putlong,
     x_getbytes = (\<lambda>x addr len. harmless x addr), x_putbytes = x_putbytes,
     x_getpostn = x_getpostn, x_setpostn = x_setpostn, x_inline = x_inline malloc,
     x_destroy = x_destroy, x_getint32 = harmless, x_putint32 = x_putint32\<rparr>"

definition xdr_sizeof :: "(u32 \<Rightarrow> u64 option) \<Rightarrow> (sizeof_stream, 'a) xdr_filter \<Rightarrow> 'a \<Rightarrow> u64" where
  "xdr_sizeof malloc func dat =
     (let (stat, x, _) = func \<lparr>x_op = XDR_ENCODE, x_ops = sizeof_ops malloc,
            x_stream = \<lparr>sz_handy = 0, sz_private = None, sz_base = 0\<rparr>\<rparr> dat in
      if stat then ucast (sz_handy (x_stream x)) else 0)"

lemma sizeof_ops_simps [simp]:
  "xdr_ops.x_putlong (sizeof_ops malloc) = x_putlong" "xdr_ops.x_putbytes (sizeof_ops malloc) = x_putbytes"
  "xdr_ops.x_putint32 (sizeof_ops malloc) = x_putint32"
  by (simp_all add: sizeof_ops_def)

section \<open>The stdio stream provides the stream interfaces\<close>

text \<open>A file of less than 2 GiB; a longer block could not be written in one call.\<close>

definition file_wf :: "FILE \<Rightarrow> bool" where
  "file_wf f \<longleftrightarrow> offset f \<le> length (contents f) \<and> length (contents f) \<le> accepts f \<and> accepts f < 2 ^ 31"

definition file_room :: "FILE \<Rightarrow> nat \<Rightarrow> bool" where
  "file_room f n \<longleftrightarrow> offset f + n \<le> accepts f"

definition file_puts :: "FILE \<Rightarrow> byte list \<Rightarrow> FILE \<Rightarrow> bool" where
  "file_puts f bs f' \<longleftrightarrow> offset f \<le> length (contents f) \<and> file_room f (length bs) \<and>
     f' = f\<lparr>contents := blit (contents f) (offset f) bs, offset := offset f + length bs\<rparr>"

definition file_avail :: "FILE \<Rightarrow> byte list" where
  "file_avail f = drop (offset f) (contents f)"

lemma item_size_eq: "item_size len = (if unat len < 2 ^ 31 then unat len else 2 ^ 64 - 2 ^ 32 + unat len)"
proof -
  define n where "n = unat len"
  have n: "n < 2 ^ 32"
    using unsigned_less [of len, where 'a = nat] by (simp add: n_def)
  have shift: "sint len = (int n + 2 ^ 31) mod 2 ^ 32 - 2 ^ 31"
    by (simp add: n_def sint_uint signed_take_bit_eq_take_bit_shift take_bit_eq_mod)
  have "sint len = (if n < 2 ^ 31 then int n else int n - 2 ^ 32)"
  proof (cases "n < 2 ^ 31")
    case False
    have "(int n + 2 ^ 31) mod 2 ^ 32 = (int n + 2 ^ 31 - 2 ^ 32) mod 2 ^ 32"
      by (simp only: minus_mod_self2)
    also have "\<dots> = int n + 2 ^ 31 - 2 ^ 32"
      using False n by (intro mod_pos_pos_trivial) auto
    finally show ?thesis
      using False by (simp add: shift)
  qed (simp add: shift)
  moreover have "int (item_size len) = sint len mod 2 ^ 64"
    unfolding item_size_def scast_eq uint_nat [symmetric] uint_word_of_int by simp
  ultimately have "int (item_size len) = (if n < 2 ^ 31 then int n else (int n - 2 ^ 32) mod 2 ^ 64)"
    using n by simp
  also have "(int n - 2 ^ 32) mod 2 ^ 64 = (int n - 2 ^ 32 + 2 ^ 64) mod 2 ^ 64"
    by (simp only: mod_add_self2)
  also have "\<dots> = int n - 2 ^ 32 + 2 ^ 64"
    using n by (intro mod_pos_pos_trivial) auto
  finally show ?thesis
    using n by (auto simp: n_def [symmetric] split: if_splits)
qed

lemma item_size_ge: "unat len \<le> item_size len"
  by (simp add: item_size_eq)

lemma fwrite1_fits:
  assumes "file_wf f" "file_room f sz" "sz \<le> length bs"
  shows "\<exists>f'. fwrite1 bs sz f = (1, f') \<and> file_puts f (take sz bs) f'"
  using assms by (auto simp: fwrite1_def file_wf_def file_room_def file_puts_def Let_def min_def)

lemma fwrite1_full: "file_wf f \<Longrightarrow> \<not> file_room f sz \<Longrightarrow> fst (fwrite1 bs sz f) \<noteq> 1"
  by (auto simp: fwrite1_def file_wf_def file_room_def Let_def)

interpretation stdio_out: xdr_sink xdrstdio_ops file_wf file_puts file_room
proof unfold_locales
  fix f f' f'' :: FILE and as bs :: "byte list" and n m :: nat and l :: u64 and len i :: u32
  show "file_puts f [] f" if "file_wf f"
    using that by (auto simp: file_puts_def file_room_def file_wf_def)
  show "file_puts f (as @ bs) f''" if "file_puts f as f'" "file_puts f' bs f''"
  proof -
    have "blit (blit (contents f) (offset f) as) (offset f + length as) bs = blit (contents f) (offset f) (as @ bs)"
      if "offset f \<le> length (contents f)"
      using that by (simp add: blit_def ac_simps)
    then show ?thesis
      using that by (auto simp: file_puts_def file_room_def add.assoc)
  qed
  show "file_wf f'" if "file_wf f" "file_puts f bs f'"
    using that by (auto simp: file_wf_def file_puts_def file_room_def length_blit_overflow)
  show "file_room f' n = file_room f (length bs + n)" if "file_puts f bs f'"
    using that by (auto simp: file_puts_def file_room_def)
  show "\<exists>f'. xdr_ops.x_putlong xdrstdio_ops f l = (True, f') \<and> file_puts f (xdr_be (ucast l)) f'" if "file_wf f" "file_room f 4"
    using fwrite1_fits [OF that, of "xdr_be (ucast l)"] by (auto simp: xdrstdio_putlong_def store32_htonl)
  show "\<exists>f'. xdr_ops.x_putint32 xdrstdio_ops f i = (True, f') \<and> file_puts f (xdr_be i) f'" if "file_wf f" "file_room f 4"
    using fwrite1_fits [OF that, of "xdr_be i"] by (auto simp: xdrstdio_putint32_def store32_htonl)
  show "\<exists>f'. xdr_ops.x_putbytes xdrstdio_ops f bs len = (True, f') \<and> file_puts f (take (unat len) bs) f'"
    if "file_wf f" "unat len \<le> length bs" "file_room f (unat len)"
  proof -
    have "item_size len = unat len"
      using that(1,3) by (simp add: item_size_eq file_wf_def file_room_def)
    moreover have "file_puts f [] f"
      using that(1) by (auto simp: file_puts_def file_room_def file_wf_def)
    ultimately show ?thesis
      using fwrite1_fits [OF that(1,3,2)] by (auto simp: xdrstdio_putbytes_def)
  qed
  show "\<not> fst (xdr_ops.x_putbytes xdrstdio_ops f bs len)" if "file_wf f" "\<not> file_room f (unat len)"
  proof -
    have "\<not> file_room f (item_size len)" "len \<noteq> 0"
      using that item_size_ge [of len] by (auto simp: file_room_def file_wf_def)
    then show ?thesis
      using fwrite1_full [OF that(1), of "item_size len" bs] by (auto simp: xdrstdio_putbytes_def split: prod.splits)
  qed
  show "\<not> fst (xdr_ops.x_putlong xdrstdio_ops f l)" "\<not> fst (xdr_ops.x_putint32 xdrstdio_ops f i)" if "file_wf f" "\<not> file_room f 4"
    using fwrite1_full [OF that] by (auto simp: xdrstdio_putlong_def xdrstdio_putint32_def Let_def case_prod_beta)
  show "file_room f m" if "file_room f n" "m \<le> n"
    using that by (simp add: file_room_def)
  show "file_room f 0" if "file_wf f"
    using that by (simp add: file_room_def file_wf_def)
qed

text \<open>Reading leaves everything but the position alone.\<close>

definition file_at :: "byte list \<Rightarrow> nat \<Rightarrow> FILE \<Rightarrow> bool" where
  "file_at cs cap f \<longleftrightarrow> file_wf f \<and> contents f = cs \<and> accepts f = cap"

lemma fread1_ok:
  assumes "file_at cs cap f" "file_avail f = bs @ rest" "length bs = sz"
  shows "\<exists>f'. fread1 dst sz f = (1, f', blit dst 0 bs) \<and> file_at cs cap f' \<and> file_avail f' = rest"
proof -
  have "take sz (drop (offset f) (contents f)) = bs" "drop (offset f + sz) (contents f) = rest"
    using assms(2,3) by (simp_all add: file_avail_def flip: drop_drop add.commute [of sz])
  moreover have "offset f + sz \<le> length (contents f)"
    using arg_cong [OF assms(2), of length] assms(1,3) by (auto simp: file_avail_def file_at_def file_wf_def)
  ultimately show ?thesis
    using assms(1,3) by (auto simp: fread1_def file_at_def file_wf_def file_avail_def Let_def)
qed

lemma fread1_short: "length (file_avail f) < sz \<Longrightarrow> fst (fread1 dst sz f) \<noteq> 1"
  by (auto simp: fread1_def file_avail_def Let_def)

interpretation stdio_in: xdr_source xdrstdio_ops "file_at cs cap" file_avail ucast for cs cap
proof unfold_locales
  fix f :: FILE and bs rest buf :: "byte list" and l :: u64 and len i :: u32
  show "\<exists>f'. xdr_ops.x_getlong xdrstdio_ops f l = (True, f', ucast (word_of_nat (be_val bs) :: u32)) \<and>
      file_at cs cap f' \<and> file_avail f' = rest"
    if "file_at cs cap f" "file_avail f = bs @ rest" "length bs = 4"
    using fread1_ok [OF that, of "[0, 0, 0, 0]"] bswap_32_load32 [OF that(3)] that(3)
    by (auto simp: xdrstdio_getlong_def blit_def)
  show "\<exists>f'. xdr_ops.x_getint32 xdrstdio_ops f i = (True, f', word_of_nat (be_val bs)) \<and>
      file_at cs cap f' \<and> file_avail f' = rest"
    if "file_at cs cap f" "file_avail f = bs @ rest" "length bs = 4"
    using fread1_ok [OF that, of "[0, 0, 0, 0]"] bswap_32_load32 [OF that(3)] that(3)
    by (auto simp: xdrstdio_getint32_def blit_def)
  show "\<exists>f'. xdr_ops.x_getbytes xdrstdio_ops f buf len = (True, f', blit buf 0 bs) \<and>
      file_at cs cap f' \<and> file_avail f' = rest"
    if "file_at cs cap f" "file_avail f = bs @ rest" "length bs = unat len"
  proof -
    have "unat len \<le> length (contents f)"
      using arg_cong [OF that(2), of length] that(3) by (auto simp: file_avail_def)
    then have "item_size len = unat len"
      using that(1) by (auto simp: item_size_eq file_at_def file_wf_def)
    then show ?thesis
      using fread1_ok [OF that, of buf] that by (auto simp: xdrstdio_getbytes_def)
  qed
  show "\<not> fst (xdr_ops.x_getbytes xdrstdio_ops f buf len)" if "length (file_avail f) < unat len"
    using that item_size_ge [of len] fread1_short [of f "item_size len" buf]
    by (auto simp: xdrstdio_getbytes_def split: prod.splits)
  show "\<not> fst (xdr_ops.x_getlong xdrstdio_ops f l)" "\<not> fst (xdr_ops.x_getint32 xdrstdio_ops f i)"
    if "length (file_avail f) < 4"
    using fread1_short [OF that] by (auto simp: xdrstdio_getlong_def xdrstdio_getint32_def case_prod_beta)
  show "ucast (ucast w :: u64) = w" for w :: u32
    by (rule bit_word_eqI) (simp add: bit_simps)
qed simp_all

section \<open>The measuring stream provides the writing interface\<close>

definition sizeof_puts :: "sizeof_stream \<Rightarrow> byte list \<Rightarrow> sizeof_stream \<Rightarrow> bool" where
  "sizeof_puts x bs x' \<longleftrightarrow> x' = x\<lparr>sz_handy := sz_handy x + word_of_nat (length bs)\<rparr>"

interpretation size_out: xdr_sink "sizeof_ops malloc" "\<lambda>_. True" sizeof_puts "\<lambda>_ _. True" for malloc
  by unfold_locales (auto simp: sizeof_puts_def x_putlong_def x_putbytes_def x_putint32_def BYTES_PER_XDR_UNIT_def
      min_absorb2 word_of_nat_unat add.assoc)

lemma xdr_sizeof_encodes:
  assumes "size_out.encodes malloc f v bs" "length bs < 2 ^ 32"
  shows "xdr_sizeof malloc f v = word_of_nat (length bs)"
  using size_out.encodes_ok [OF assms(1), of "\<lparr>sz_handy = 0, sz_private = None, sz_base = 0\<rparr>"] assms(2)
  by (auto simp: xdr_sizeof_def size_out.enc_def sizeof_puts_def ucast_widen_nat)

section \<open>Properties\<close>

text \<open>
  Appending \<open>v\<close> to a file with contents \<open>old\<close>, and reading it back from where it was written. The
  writing reports success exactly as long as the stream accepts the bytes; how many of them
  xdrstdio_destroy leaves in the file depends on the device.
\<close>

definition stdio_roundtrip :: "(FILE, 'a) xdr_filter \<Rightarrow> 'a \<Rightarrow> 'a \<Rightarrow> byte list \<Rightarrow> bool" where
  "stdio_roundtrip f v v0 bs \<longleftrightarrow> (\<forall>old dev acc. length old \<le> dev \<longrightarrow> dev \<le> acc \<longrightarrow> acc < 2 ^ 31 \<longrightarrow>
     (let file = \<lparr>contents = old, offset = length old, accepts = acc, device = dev, stored = old\<rparr>;
          (ok, x, v1) = f (xdrstdio_create file XDR_ENCODE) v in
      (ok \<longleftrightarrow> length old + length bs \<le> acc) \<and>
      (ok \<longrightarrow> v1 = v \<and> contents (x_stream x) = old @ bs \<and> unat (XDR_GETPOS x) = length old + length bs \<and>
        stored (xdrstdio_destroy (x_stream x)) = take dev (old @ bs) \<and>
        (length old + length bs \<le> dev \<longrightarrow>
          (\<exists>y y'. XDR_SETPOS (x\<lparr>x_op := XDR_DECODE\<rparr>) (word_of_nat (length old)) = (True, y) \<and>
             f y v0 = (True, y', v) \<and> XDR_GETPOS y' = XDR_GETPOS x \<and> contents (x_stream y') = old @ bs)))))"

lemma stdio_roundtripI:
  assumes enc: "stdio_out.encodes f v bs" and dec: "\<And>cs cap. stdio_in.decodes cs cap f v0 bs v"
  shows "stdio_roundtrip f v v0 bs"
  unfolding stdio_roundtrip_def
proof (intro allI impI)
  fix old :: "byte list" and dev acc assume size: "length old \<le> dev" "dev \<le> acc" "acc < 2 ^ 31"
  let ?s = "\<lparr>contents = old, offset = length old, accepts = acc, device = dev, stored = old\<rparr>" and ?c = "old @ bs"
  have create: "xdrstdio_create s XDR_ENCODE = stdio_out.enc s" for s
    by (simp add: xdrstdio_create_def stdio_out.enc_def)
  have wf: "file_wf ?s"
    using size by (simp add: file_wf_def)
  show "let file = ?s; (ok, x, v1) = f (xdrstdio_create file XDR_ENCODE) v in
      (ok \<longleftrightarrow> length old + length bs \<le> acc) \<and>
      (ok \<longrightarrow> v1 = v \<and> contents (x_stream x) = ?c \<and> unat (XDR_GETPOS x) = length old + length bs \<and>
        stored (xdrstdio_destroy (x_stream x)) = take dev ?c \<and>
        (length old + length bs \<le> dev \<longrightarrow>
          (\<exists>y y'. XDR_SETPOS (x\<lparr>x_op := XDR_DECODE\<rparr>) (word_of_nat (length old)) = (True, y) \<and>
             f y v0 = (True, y', v) \<and> XDR_GETPOS y' = XDR_GETPOS x \<and> contents (x_stream y') = ?c)))"
  proof (cases "length old + length bs \<le> acc")
    case False
    then show ?thesis
      using stdio_out.encodes_full [OF enc wf] by (auto simp: create file_room_def)
  next
    case True
    obtain s' where s': "f (stdio_out.enc ?s) v = (True, stdio_out.enc s', v)" "file_puts ?s bs s'"
      using stdio_out.encodes_ok [OF enc wf] True by (auto simp: file_room_def)
    then have s'_eq: "s' = \<lparr>contents = ?c, offset = length ?c, accepts = acc, device = dev, stored = old\<rparr>"
      by (simp add: file_puts_def blit_def)
    have pos: "unat (XDR_GETPOS (stdio_out.enc s')) = length ?c"
      using True size(3) by (simp add: XDR_GETPOS_def xdrstdio_getpos_def ftell_def s'_eq stdio_out.enc_def unat_word_of_nat_mod flip: of_nat_add)
    have dest: "stored (xdrstdio_destroy s') = take dev ?c"
      by (simp add: xdrstdio_destroy_def fflush_def s'_eq)
    have "\<exists>y y'. XDR_SETPOS ((stdio_out.enc s')\<lparr>x_op := XDR_DECODE\<rparr>) (word_of_nat (length old)) = (True, y) \<and>
        f y v0 = (True, y', v) \<and> XDR_GETPOS y' = XDR_GETPOS (stdio_out.enc s') \<and> contents (x_stream y') = ?c"
      if fits: "length old + length bs \<le> dev"
    proof -
      let ?r = "\<lparr>contents = ?c, offset = length old, accepts = acc, device = dev, stored = ?c\<rparr>"
      have "file_at ?c acc ?r" "file_avail ?r = bs @ []"
        using True size by (simp_all add: file_at_def file_wf_def file_avail_def)
      then obtain t where t: "f (stdio_in.dec ?r) v0 = (True, stdio_in.dec t, v)" "file_at ?c acc t" "file_avail t = []"
        using stdio_in.decodes_ok [OF dec] by blast
      have "unat (word_of_nat (length old) :: u32) = length old"
        using size by (simp add: unat_word_of_nat_mod)
      then have "XDR_SETPOS ((stdio_out.enc s')\<lparr>x_op := XDR_DECODE\<rparr>) (word_of_nat (length old)) = (True, stdio_in.dec ?r)"
        using fits by (simp add: XDR_SETPOS_def xdrstdio_setpos_def fseek_set_def fflush_def s'_eq stdio_out.enc_def stdio_in.dec_def)
      moreover have "offset t = length ?c"
        using t(2,3) by (auto simp: file_at_def file_wf_def file_avail_def)
      then have "XDR_GETPOS (stdio_in.dec t) = XDR_GETPOS (stdio_out.enc s')"
        by (simp add: XDR_GETPOS_def xdrstdio_getpos_def ftell_def s'_eq stdio_out.enc_def stdio_in.dec_def)
      ultimately show ?thesis
        using t(1,2) by (auto simp: file_at_def stdio_in.dec_def)
    qed
    then show ?thesis
      using True s'(1) pos dest by (auto simp: create s'_eq stdio_out.enc_def)
  qed
qed

text \<open>
  C23. A string on a stdio stream, appended to a file of less than 2 GiB: xdr_string succeeds exactly as
  long as the stream accepts the bytes, which for a buffered stream can be more than the device takes;
  the file position moves behind the string. xdrstdio_destroy then leaves in the file as much of the
  string as the device takes, all of it exactly when it fits; when it fits, xdrstdio_setpos back to the start
  of the string succeeds and the same filter restores it.
\<close>

theorem xdr_string_stdio_roundtrip:
  assumes "allocates alloc" "0 \<notin> set cs" "length cs \<le> unat maxsize" "length cs < 2 ^ 32 - 1"
  shows "stdio_roundtrip (\<lambda>x p. xdr_string alloc x p maxsize) (Some (cs @ [0])) None (xdr_counted cs)"
proof (rule stdio_roundtripI)
  show "stdio_out.encodes (\<lambda>x p. xdr_string alloc x p maxsize) (Some (cs @ [0])) (xdr_counted cs)"
    using stdio_out.encodes_xdr_string [of "cs @ [0]" maxsize alloc] assms by simp
qed (rule stdio_in.decodes_string_fresh [OF assms(1,3,4)])

theorem xdr_string_stdio_roundtrip_witness:
  "stdio_roundtrip (\<lambda>x p. xdr_string (\<lambda>n. Some (replicate (unat n) 7)) x p 5)
     (Some [104, 105, 0]) None (xdr_counted [104, 105])"
  using xdr_string_stdio_roundtrip [of "\<lambda>n. Some (replicate (unat n) 7)" "[104, 105]" 5]
  by (simp add: allocates_def)

text \<open>
  C24. xdr_long on a stdio stream loses the sign: of the longs that fit 32 bits, exactly the
  non-negative ones are read back unchanged, since xdrstdio_getlong extends the unit with zeros.
  (The memory and the record stream extend the sign.)
\<close>

theorem xdr_long_stdio_nonnegative_only:
  assumes "scast (ucast l :: u32) = l"
  shows "stdio_roundtrip xdr_long l l0 (xdr_be (ucast l)) \<longleftrightarrow> unat l < 2 ^ 31"
proof -
  let ?w = "ucast l :: u32"
  have size: "unat l = item_size ?w"
    using assms by (simp add: item_size_def)
  then have iff: "ucast ?w = l \<longleftrightarrow> unat l < 2 ^ 31"
    by (auto simp: word_unat_eq_iff item_size_eq unat_widen_32)
  have dec: "stdio_in.decodes cs cap xdr_long l0 (xdr_be ?w) (ucast ?w)" for cs cap
    using stdio_in.decodes_getlong [of cs cap l0 ?w] by (simp add: stdio_in.decodes_def xdr_long_def)
  show ?thesis
  proof
    assume "unat l < 2 ^ 31"
    then show "stdio_roundtrip xdr_long l l0 (xdr_be ?w)"
      using dec iff by (intro stdio_roundtripI stdio_out.encodes_xdr_long [OF assms]) simp
  next
    assume rt: "stdio_roundtrip xdr_long l l0 (xdr_be ?w)"
    let ?s = "\<lparr>contents = [], offset = 0, accepts = 4, device = 4, stored = []\<rparr>"
    obtain x y y' where x: "xdr_long (xdrstdio_create ?s XDR_ENCODE) l = (True, x, l)"
        "contents (x_stream x) = xdr_be ?w" "XDR_SETPOS (x\<lparr>x_op := XDR_DECODE\<rparr>) 0 = (True, y)"
        "xdr_long y l0 = (True, y', l)"
      using rt [unfolded stdio_roundtrip_def, rule_format, of "[]" 4 4] by (auto split: prod.splits)
    obtain s' where s': "xdr_long (stdio_out.enc ?s) l = (True, stdio_out.enc s', l)" "file_puts ?s (xdr_be ?w) s'"
      using stdio_out.encodes_ok [OF stdio_out.encodes_xdr_long [OF assms], of ?s]
      by (auto simp: file_wf_def file_room_def)
    then have "x = stdio_out.enc \<lparr>contents = xdr_be ?w, offset = 4, accepts = 4, device = 4, stored = []\<rparr>"
      using x(1) by (simp add: xdrstdio_create_def stdio_out.enc_def file_puts_def blit_def)
    then have "y = stdio_in.dec \<lparr>contents = xdr_be ?w, offset = 0, accepts = 4, device = 4, stored = xdr_be ?w\<rparr>"
      using x(3) by (simp add: XDR_SETPOS_def xdrstdio_setpos_def fseek_set_def fflush_def stdio_out.enc_def stdio_in.dec_def)
    then have "l = ucast ?w"
      using stdio_in.decodes_ok [OF dec, of "xdr_be ?w" 4 "\<lparr>contents = xdr_be ?w, offset = 0, accepts = 4, device = 4, stored = xdr_be ?w\<rparr>" "[]"] x(4)
      by (auto simp: file_at_def file_wf_def file_avail_def)
    then show "unat l < 2 ^ 31"
      using iff by simp
  qed
qed

theorem xdr_long_stdio_nonnegative_only_witness:
  "\<not> stdio_roundtrip xdr_long (- 1) 0 (xdr_be (ucast (- 1 :: u64)))"
  using xdr_long_stdio_nonnegative_only [of "- 1" 0] by (simp add: unsigned_minus_1_eq_mask mask_eq_exp_minus_1)

text \<open>
  xdr_sizeof measures: for a string and for a byte block that maxsize admits it returns the
  number of bytes of their external form, and 0 for a longer string, which cannot be encoded.
\<close>

theorem xdr_sizeof_measures:
  assumes "0 \<notin> set cs" "length cs < 2 ^ 32 - 8" "unat n = length cs"
  shows "xdr_sizeof malloc (\<lambda>x p. xdr_string alloc x p maxsize) (Some (cs @ [0])) =
      (if length cs \<le> unat maxsize then word_of_nat (length (xdr_counted cs)) else 0) \<and>
    xdr_sizeof malloc (\<lambda>x v. xdr_bytes alloc x v maxsize) (Some cs, n) =
      (if length cs \<le> unat maxsize then word_of_nat (length (xdr_counted cs)) else 0)"
proof -
  have n: "word_of_nat (length cs) = n" "n \<le> maxsize \<longleftrightarrow> length cs \<le> unat maxsize"
    using assms(3) by (simp_all add: word_of_nat_unat word_le_nat_alt flip: assms(3))
  have len: "length (xdr_counted cs) < 2 ^ 32"
    using assms(2) padding_less [of "length cs"] by (simp add: xdr_counted_def length_xdr_padded)
  let ?x = "\<lparr>x_op = XDR_ENCODE, x_ops = sizeof_ops malloc, x_stream = \<lparr>sz_handy = 0, sz_private = None, sz_base = 0\<rparr>\<rparr>"
  obtain y where y: "xdr_u_int ?x n = (True, y, n)" "x_op y = XDR_ENCODE"
    using size_out.encodes_ok [OF size_out.encodes_xdr_u_int [of malloc n], of "x_stream ?x"]
    by (auto simp: size_out.enc_def)
  have str: "xdr_sizeof malloc (\<lambda>x p. xdr_string alloc x p maxsize) (Some (cs @ [0])) =
      (if length cs \<le> unat maxsize then word_of_nat (length (xdr_counted cs)) else 0)"
  proof (cases "length cs \<le> unat maxsize")
    case True
    then show ?thesis
      using size_out.encodes_xdr_string [of "cs @ [0]" maxsize malloc alloc] assms(1,2)
      by (simp add: xdr_sizeof_encodes [OF _ len])
  next
    case False
    then show ?thesis
      using assms(1) n y by (simp add: xdr_sizeof_def xdr_string_def not_le word_less_nat_alt assms(3))
  qed
  have blk: "xdr_sizeof malloc (\<lambda>x v. xdr_bytes alloc x v maxsize) (Some cs, n) =
      (if length cs \<le> unat maxsize then word_of_nat (length (xdr_counted cs)) else 0)"
  proof (cases "length cs \<le> unat maxsize")
    case True
    then show ?thesis
      using size_out.encodes_xdr_bytes [of n cs maxsize malloc alloc] assms(3) n
      by (simp add: xdr_sizeof_encodes [OF _ len] xdr_counted_def)
  next
    case False
    then show ?thesis
      using n y assms(3) by (simp add: xdr_sizeof_def xdr_bytes_def not_le word_less_nat_alt)
  qed
  from str blk show ?thesis
    by blast
qed

theorem xdr_sizeof_measures_witness:
  "xdr_sizeof (\<lambda>_. None) (\<lambda>x p. xdr_string (\<lambda>_. None) x p 5) (Some [104, 105, 0]) = 8 \<and>
   xdr_sizeof (\<lambda>_. None) (\<lambda>x v. xdr_bytes (\<lambda>_. None) x v 1) (Some [104, 105], 2) = 0"
  using xdr_sizeof_measures [of "[104, 105]" 2 "\<lambda>_. None" "\<lambda>_. None" 5]
    xdr_sizeof_measures [of "[104, 105]" 2 "\<lambda>_. None" "\<lambda>_. None" 1]
  by (simp add: xdr_counted_def length_xdr_padded padding_def)

end
