(* ===== verification/Search.thy ===== *)
theory Search
  imports Prelude
begin

text \<open>
  Searching arrays and linking queue elements: bits/stdlib-bsearch.h, misc/lsearch.c and
  misc/insremque.c.

  An array of objects of a fixed size is the list of its objects, each one a block of bytes; a
  pointer to one of them is its index. A comparison function is a function of the two objects
  its arguments point to. The elements of a queue live in a heap that maps addresses to the two
  link fields; address 0 is NULL.
\<close>

type_synonym obj = "byte list"
type_synonym compar = "obj \<Rightarrow> obj \<Rightarrow> int"

section \<open>Linear search\<close>

function lfind_loop :: "obj \<Rightarrow> obj list \<Rightarrow> nat \<Rightarrow> compar \<Rightarrow> nat \<Rightarrow> nat" where
  "lfind_loop key base nmemb compar cnt =
     (if cnt < nmemb \<and> compar key (base ! cnt) \<noteq> 0 then lfind_loop key base nmemb compar (cnt + 1) else cnt)"
  by auto
termination by (relation "measure (\<lambda>(_, _, nmemb, _, cnt). nmemb - cnt)") auto

declare lfind_loop.simps [simp del]

definition lfind :: "obj \<Rightarrow> obj list \<Rightarrow> nat \<Rightarrow> compar \<Rightarrow> nat option" where
  "lfind key base nmemb compar =
     (let cnt = lfind_loop key base nmemb compar 0 in if cnt < nmemb then Some cnt else None)"

text \<open>The result, the array and the element count afterwards.\<close>

definition lsearch :: "obj \<Rightarrow> obj list \<Rightarrow> nat \<Rightarrow> compar \<Rightarrow> nat \<times> obj list \<times> nat" where
  "lsearch key base nmemb compar =
     (case lfind key base nmemb compar of
        None \<Rightarrow> (nmemb, base[nmemb := key], nmemb + 1)
      | Some result \<Rightarrow> (result, base, nmemb))"

section \<open>Binary search\<close>

text \<open>The bounds are size_t values; \<open>None\<close> is a search that does not end, the inner option the
  pointer returned.\<close>

partial_function (option) bsearch_loop :: "obj \<Rightarrow> obj list \<Rightarrow> compar \<Rightarrow> u64 \<Rightarrow> u64 \<Rightarrow> u64 option option" where
  "bsearch_loop key base compar l u =
     (if l < u
      then let idx = (l + u) div 2; p = base ! unat idx; comparison = compar key p in
           if comparison < 0 then bsearch_loop key base compar l idx
           else if comparison > 0 then bsearch_loop key base compar (idx + 1) u
           else Some (Some idx)
      else Some None)"

definition bsearch :: "obj \<Rightarrow> obj list \<Rightarrow> u64 \<Rightarrow> compar \<Rightarrow> u64 option option" where
  "bsearch key base nmemb compar = bsearch_loop key base compar 0 nmemb"

section \<open>Queues\<close>

type_synonym addr = nat

record qelem =
  q_forw :: addr
  q_back :: addr

type_synonym qheap = "addr \<Rightarrow> qelem"

definition insque :: "qheap \<Rightarrow> addr \<Rightarrow> addr \<Rightarrow> qheap" where
  "insque h elem prev =
     (if prev = 0 then h(elem := (h elem)\<lparr>q_forw := 0, q_back := 0\<rparr>)
      else let next = q_forw (h prev);
               h = h(prev := (h prev)\<lparr>q_forw := elem\<rparr>);
               h = (if next \<noteq> 0 then h(next := (h next)\<lparr>q_back := elem\<rparr>) else h) in
           h(elem := (h elem)\<lparr>q_forw := next, q_back := prev\<rparr>))"

definition remque :: "qheap \<Rightarrow> addr \<Rightarrow> qheap" where
  "remque h elem =
     (let next = q_forw (h elem); prev = q_back (h elem);
          h = (if next \<noteq> 0 then h(next := (h next)\<lparr>q_back := prev\<rparr>) else h) in
      if prev \<noteq> 0 then h(prev := (h prev)\<lparr>q_forw := next\<rparr>) else h)"

section \<open>Linear search finds the first match\<close>

lemma lfind_loop_first:
  fixes key base compar
  assumes "cnt \<le> nmemb"
  defines "r \<equiv> lfind_loop key base nmemb compar cnt"
  shows "cnt \<le> r" "r \<le> nmemb" "\<And>i. cnt \<le> i \<Longrightarrow> i < r \<Longrightarrow> compar key (base ! i) \<noteq> 0"
    "r < nmemb \<Longrightarrow> compar key (base ! r) = 0"
proof -
  have "cnt \<le> r \<and> r \<le> nmemb \<and> (\<forall>i. cnt \<le> i \<longrightarrow> i < r \<longrightarrow> compar key (base ! i) \<noteq> 0) \<and>
      (r < nmemb \<longrightarrow> compar key (base ! r) = 0)"
    using assms(1) unfolding r_def
  proof (induction key base nmemb compar cnt rule: lfind_loop.induct)
    case (1 key base nmemb compar cnt)
    show ?case
    proof (cases "cnt < nmemb \<and> compar key (base ! cnt) \<noteq> 0")
      case True
      then have "lfind_loop key base nmemb compar cnt = lfind_loop key base nmemb compar (cnt + 1)"
        by (subst lfind_loop.simps) simp
      moreover have "compar key (base ! i) \<noteq> 0" if "cnt \<le> i" "cnt + 1 \<le> i \<longrightarrow> compar key (base ! i) \<noteq> 0" for i
        using that True by (cases "i = cnt") auto
      ultimately show ?thesis
        using 1 True by auto
    next
      case False
      then show ?thesis
        using 1(2) by (subst lfind_loop.simps) (auto simp: lfind_loop.simps [of key base nmemb compar cnt])
    qed
  qed
  then show "cnt \<le> r" "r \<le> nmemb" "\<And>i. cnt \<le> i \<Longrightarrow> i < r \<Longrightarrow> compar key (base ! i) \<noteq> 0"
    "r < nmemb \<Longrightarrow> compar key (base ! r) = 0"
    by blast+
qed

lemma lfind_eq:
  "lfind key base nmemb compar =
     (if \<exists>i<nmemb. compar key (base ! i) = 0 then Some (LEAST i. compar key (base ! i) = 0) else None)"
proof -
  define r where "r = lfind_loop key base nmemb compar 0"
  note first = lfind_loop_first [where cnt = 0 and nmemb = nmemb and key = key and base = base and compar = compar, folded r_def]
  show ?thesis
  proof (cases "r < nmemb")
    case True
    then have "(LEAST i. compar key (base ! i) = 0) = r"
      using first by (intro Least_equality) (auto simp: not_less [symmetric])
    then show ?thesis
      using True first by (auto simp: lfind_def r_def [symmetric])
  next
    case False
    then show ?thesis
      using first by (auto simp: lfind_def r_def [symmetric])
  qed
qed

section \<open>Binary search halves the range\<close>

text \<open>The array is ordered as the comparison with the key sees it: greater, equal, less.\<close>

definition ordered_for :: "compar \<Rightarrow> obj \<Rightarrow> obj list \<Rightarrow> nat \<Rightarrow> bool" where
  "ordered_for compar key base n \<longleftrightarrow>
     (\<forall>i j. i \<le> j \<longrightarrow> j < n \<longrightarrow>
        (compar key (base ! i) < 0 \<longrightarrow> compar key (base ! j) < 0) \<and>
        (compar key (base ! j) > 0 \<longrightarrow> compar key (base ! i) > 0))"

lemma ordered_forD:
  assumes "ordered_for compar key base n" "i \<le> j" "j < n"
  shows "compar key (base ! i) < 0 \<Longrightarrow> compar key (base ! j) < 0" "compar key (base ! j) > 0 \<Longrightarrow> compar key (base ! i) > 0"
  using assms by (auto simp: ordered_for_def)

lemma bsearch_loop_finds:
  assumes "n < 2 ^ 63"
  shows "unat l \<le> unat u \<Longrightarrow> unat u \<le> n \<Longrightarrow>
    \<exists>r. bsearch_loop key base compar l u = Some r \<and>
      (case r of Some i \<Rightarrow> unat i < unat u \<and> compar key (base ! unat i) = 0
       | None \<Rightarrow> ordered_for compar key base n \<longrightarrow> (\<forall>i. unat l \<le> i \<longrightarrow> i < unat u \<longrightarrow> compar key (base ! i) \<noteq> 0))"
proof (induction "unat u - unat l" arbitrary: l u rule: less_induct)
  case less
  show ?case
  proof (cases "l < u")
    case False
    then show ?thesis
      using less.prems by (subst bsearch_loop.simps) (auto simp: word_less_nat_alt)
  next
    case True
    define idx where "idx = (l + u) div 2"
    have "unat (l + u) = unat l + unat u"
      using less.prems assms by (simp add: unat_add_mod)
    then have idx: "unat idx = (unat l + unat u) div 2"
      by (simp add: idx_def unat_div)
    then have mid: "unat l \<le> unat idx" "unat idx < unat u" "unat (idx + 1) = unat idx + 1"
      using True less.prems assms by (auto simp: word_less_nat_alt unat_add_mod)
    have step: "bsearch_loop key base compar l u =
        (if compar key (base ! unat idx) < 0 then bsearch_loop key base compar l idx
         else if compar key (base ! unat idx) > 0 then bsearch_loop key base compar (idx + 1) u else Some (Some idx))"
      using True by (subst bsearch_loop.simps) (simp add: idx_def Let_def)
    consider "compar key (base ! unat idx) < 0" | "compar key (base ! unat idx) > 0" | "compar key (base ! unat idx) = 0"
      by linarith
    then show ?thesis
    proof cases
      case 1
      have "unat idx - unat l < unat u - unat l"
        using mid by linarith
      then obtain r where r: "bsearch_loop key base compar l idx = Some r"
          "case r of Some i \<Rightarrow> unat i < unat idx \<and> compar key (base ! unat i) = 0
           | None \<Rightarrow> ordered_for compar key base n \<longrightarrow> (\<forall>i. unat l \<le> i \<longrightarrow> i < unat idx \<longrightarrow> compar key (base ! i) \<noteq> 0)"
        using less.hyps [of idx l] mid less.prems by auto
      have "compar key (base ! i) \<noteq> 0" if "ordered_for compar key base n" "r = None" "unat l \<le> i" "i < unat u" for i
        using ordered_forD(1) [OF that(1), of "unat idx" i] r(2) that less.prems(2) 1 by (cases "i < unat idx") auto
      then show ?thesis
        using r 1 mid step by (cases r) auto
    next
      case 2
      then obtain r where r: "bsearch_loop key base compar (idx + 1) u = Some r"
          "case r of Some i \<Rightarrow> unat i < unat u \<and> compar key (base ! unat i) = 0
           | None \<Rightarrow> ordered_for compar key base n \<longrightarrow> (\<forall>i. unat (idx + 1) \<le> i \<longrightarrow> i < unat u \<longrightarrow> compar key (base ! i) \<noteq> 0)"
        using less.hyps [of u "idx + 1"] mid less.prems by fastforce
      have "compar key (base ! i) \<noteq> 0" if "ordered_for compar key base n" "r = None" "unat l \<le> i" "i < unat u" for i
        using ordered_forD(2) [OF that(1), of i "unat idx"] r(2) that mid less.prems(2) 2 by (cases "i \<le> unat idx") auto
      then show ?thesis
        using r 2 mid step by (cases r) auto
    next
      case 3
      then show ?thesis
        using mid step by simp
    qed
  qed
qed

section \<open>Queues as linked lists\<close>

text \<open>\<open>chain h p xs n\<close>: the elements \<open>xs\<close> are linked in this order both ways, the first one back
  to \<open>p\<close> and the last one forward to \<open>n\<close>.\<close>

fun chain :: "qheap \<Rightarrow> addr \<Rightarrow> addr list \<Rightarrow> addr \<Rightarrow> bool" where
  "chain h p [] n = True"
| "chain h p (x # xs) n = (q_back (h x) = p \<and> q_forw (h x) = hd (xs @ [n]) \<and> chain h x xs n)"

definition linear :: "qheap \<Rightarrow> addr list \<Rightarrow> bool" where
  "linear h xs \<longleftrightarrow> distinct xs \<and> 0 \<notin> set xs \<and> chain h 0 xs 0"

definition ring :: "qheap \<Rightarrow> addr list \<Rightarrow> bool" where
  "ring h xs \<longleftrightarrow> distinct xs \<and> 0 \<notin> set xs \<and> xs \<noteq> [] \<and> chain h (last xs) xs (hd xs)"

lemma chain_append:
  "chain h p (xs @ ys) n \<longleftrightarrow> chain h p xs (hd (ys @ [n])) \<and> chain h (last (p # xs)) ys n"
  by (induction xs arbitrary: p) auto

lemma chain_field_cong:
  "(\<And>x. x \<in> set xs \<Longrightarrow> q_forw (h' x) = q_forw (h x) \<and> q_back (h' x) = q_back (h x)) \<Longrightarrow> chain h' p xs n = chain h p xs n"
  by (induction xs arbitrary: p) auto

lemma chain_end:
  assumes "chain h p xs n" "xs \<noteq> []" "\<And>x. x \<in> set xs \<Longrightarrow> q_back (h' x) = q_back (h x)"
    "\<And>x. x \<in> set (butlast xs) \<Longrightarrow> q_forw (h' x) = q_forw (h x)" "q_forw (h' (last xs)) = n'"
  shows "chain h' p xs n'"
  using assms
proof (induction xs arbitrary: p)
  case (Cons x xs)
  then show ?case
    by (cases "xs = []") auto
qed simp

lemma chain_start:
  assumes "chain h p xs n" "xs \<noteq> []" "\<And>x. x \<in> set xs \<Longrightarrow> q_forw (h' x) = q_forw (h x)"
    "\<And>x. x \<in> set (tl xs) \<Longrightarrow> q_back (h' x) = q_back (h x)" "q_back (h' (hd xs)) = p'"
  shows "chain h' p' xs n"
proof (cases xs)
  case (Cons x ys)
  have "chain h' x ys n = chain h x ys n"
    using assms Cons by (intro chain_field_cong) simp
  then show ?thesis
    using assms Cons by simp
qed (use assms in simp)

text \<open>A ring can be entered at any of its elements.\<close>

lemma ring_rotate: "ring h (x # xs) \<longleftrightarrow> ring h (xs @ [x])"
  by (cases "xs = []") (auto simp: ring_def chain_append)

section \<open>Properties\<close>

text \<open>
  C25. lsearch is insertion into a set: it returns the first of the nmemb objects that compares
  equal to the key if there is one and changes nothing then; otherwise it appends the key behind
  them, counts it and returns it. Either way the first nmemb objects are kept, the result designates
  an object that matches, and asking again finds the same object and changes nothing.
\<close>

theorem lsearch_inserts_once:
  assumes "nmemb < length base" "compar key key = 0"
  shows "let (r, base', n) = lsearch key base nmemb compar in
    (r, base', n) = (if \<exists>i<nmemb. compar key (base ! i) = 0
       then (LEAST i. compar key (base ! i) = 0, base, nmemb) else (nmemb, base[nmemb := key], nmemb + 1)) \<and>
    take nmemb base' = take nmemb base \<and> r < n \<and> compar key (base' ! r) = 0 \<and>
    lfind key base' n compar = Some r \<and> lsearch key base' n compar = (r, base', n)"
proof (cases "\<exists>i<nmemb. compar key (base ! i) = 0")
  case True
  define r where "r = (LEAST i. compar key (base ! i) = 0)"
  have "compar key (base ! r) = 0" "r < nmemb"
    using True LeastI_ex [of "\<lambda>i. compar key (base ! i) = 0"] Least_le [of "\<lambda>i. compar key (base ! i) = 0"]
    by (auto simp: r_def intro: le_less_trans)
  then show ?thesis
    using True by (auto simp: lsearch_def lfind_eq r_def [symmetric])
next
  case False
  then have new: "(LEAST i. compar key (base[nmemb := key] ! i) = 0) = nmemb"
    using assms by (intro Least_equality) (auto simp: nth_list_update not_less [symmetric] split: if_splits)
  have "\<exists>i<Suc nmemb. compar key (base[nmemb := key] ! i) = 0"
    using assms by (auto intro!: exI [of _ nmemb])
  then show ?thesis
    using False new assms by (auto simp: lsearch_def lfind_eq)
qed

theorem lsearch_inserts_once_witness:
  "let cmp = (\<lambda>a b. if a = b then 0 else 1) in
   lsearch [3] [[1], [2], [0]] 2 cmp = (2, [[1], [2], [3]], 3) \<and>
   lsearch [3] [[1], [2], [3]] 3 cmp = (2, [[1], [2], [3]], 3)"
proof -
  let ?c = "(\<lambda>a b. if a = b then 0 else 1) :: compar"
  have none: "\<not> (\<exists>i<2. ?c [3] ([[1], [2], [0]] ! i) = 0)"
    by (auto dest!: less_2_cases)
  obtain r b n where "lsearch [3] [[1], [2], [0]] 2 ?c = (r, b, n)"
    by (metis prod_cases3)
  with lsearch_inserts_once [of 2 "[[1], [2], [0]]" ?c "[3]"] show ?thesis
    by (auto simp: if_not_P [OF none])
qed

text \<open>
  C26. bsearch ends for every comparison function and every array of fewer than 2^63 objects, without
  overflow of its index arithmetic, and an object it returns lies in the array and compares equal to the
  key. When the array is ordered for the key, a NULL result means that no object compares equal to it.
\<close>

theorem bsearch_correct:
  assumes "unat nmemb < 2 ^ 63"
  shows "\<exists>r. bsearch key base nmemb compar = Some r \<and>
    (\<forall>i. r = Some i \<longrightarrow> i < nmemb \<and> compar key (base ! unat i) = 0) \<and>
    (ordered_for compar key base (unat nmemb) \<longrightarrow> r = None \<longrightarrow> \<not> (\<exists>i<unat nmemb. compar key (base ! i) = 0))"
  using bsearch_loop_finds [OF assms, of 0 nmemb key base compar]
  by (auto simp: bsearch_def word_less_nat_alt split: option.splits)

text \<open>Found in an ordered array; in an array that is not ordered the same object can be missed.\<close>

theorem bsearch_correct_witness:
  "(\<exists>i. bsearch [7, 7] [[1], [2, 3], [4, 5, 6]] 3 (\<lambda>a b. int (length a) - int (length b)) = Some (Some i) \<and> i < 3 \<and>
     length (([[1], [2, 3], [4, 5, 6]] :: obj list) ! unat i) = 2) \<and>
   bsearch [7, 7] [[2, 3], [1], [4, 5, 6]] 3 (\<lambda>a b. int (length a) - int (length b)) = Some None"
proof -
  let ?c = "(\<lambda>a b. int (length a) - int (length b)) :: compar" and ?b = "[[1], [2, 3], [4, 5, 6]] :: obj list"
  have "ordered_for ?c [7, 7] ?b 3"
    by (auto simp: ordered_for_def less_Suc_eq le_Suc_eq numeral_3_eq_3)
  then have ord: "ordered_for ?c [7, 7] ?b (unat (3 :: u64))"
    by simp
  obtain r where
    r: "bsearch [7, 7] ?b 3 ?c = Some r" "\<forall>i. r = Some i \<longrightarrow> i < 3 \<and> ?c [7, 7] (?b ! unat i) = 0"
      "r = None \<longrightarrow> \<not> (\<exists>i<unat (3 :: u64). ?c [7, 7] (?b ! i) = 0)"
    using bsearch_correct [where compar = ?c and key = "[7, 7]" and base = ?b and nmemb = 3] ord by auto
  moreover have "\<exists>i<unat (3 :: u64). ?c [7, 7] (?b ! i) = 0"
    by (intro exI [of _ 1]) simp
  ultimately have "\<exists>i. bsearch [7, 7] ?b 3 ?c = Some (Some i) \<and> i < 3 \<and> length (?b ! unat i) = 2"
    by (cases r) auto
  moreover have "bsearch [7, 7] [[2, 3], [1], [4, 5, 6]] 3 ?c = Some None"
    by (simp add: bsearch_def bsearch_loop.simps)
  ultimately show ?thesis
    by blast
qed

section \<open>Operations on queues\<close>

lemma insque_fields:
  assumes "prev \<noteq> 0" "elem \<noteq> prev" "elem \<noteq> q_forw (h prev)"
  shows "q_forw (insque h elem prev elem) = q_forw (h prev)" "q_back (insque h elem prev elem) = prev"
    "q_forw (insque h elem prev prev) = elem"
    "q_forw (h prev) \<noteq> prev \<Longrightarrow> q_back (insque h elem prev prev) = q_back (h prev)"
    "q_forw (h prev) \<noteq> 0 \<Longrightarrow> q_back (insque h elem prev (q_forw (h prev))) = elem"
    "x \<noteq> elem \<Longrightarrow> x \<noteq> prev \<Longrightarrow> q_forw (insque h elem prev x) = q_forw (h x)"
    "x \<noteq> elem \<Longrightarrow> x \<noteq> q_forw (h prev) \<Longrightarrow> q_back (insque h elem prev x) = q_back (h x)"
  using assms by (auto simp: insque_def Let_def)

lemma remque_fields:
  "x \<noteq> q_back (h elem) \<or> x = 0 \<Longrightarrow> q_forw (remque h elem x) = q_forw (h x)"
  "x \<noteq> q_forw (h elem) \<or> x = 0 \<Longrightarrow> q_back (remque h elem x) = q_back (h x)"
  "q_back (h elem) \<noteq> 0 \<Longrightarrow> q_forw (remque h elem (q_back (h elem))) = q_forw (h elem)"
  "q_forw (h elem) \<noteq> 0 \<Longrightarrow> q_back (remque h elem (q_forw (h elem))) = q_back (h elem)"
  by (auto simp: remque_def Let_def)

lemma insque_linear:
  assumes "linear h (xs @ p # ys)" "e \<notin> set (xs @ p # ys)" "e \<noteq> 0"
  shows "linear (insque h e p) (xs @ p # e # ys)"
proof -
  let ?h = "insque h e p"
  have c: "chain h 0 xs p" "q_back (h p) = last (0 # xs)" "q_forw (h p) = hd (ys @ [0])" "chain h p ys 0"
    and d: "distinct xs" "distinct ys" "set xs \<inter> set ys = {}" "p \<notin> set xs" "p \<notin> set ys" "0 \<notin> set xs" "0 \<notin> set ys" "p \<noteq> 0"
    using assms(1) by (auto simp: linear_def chain_append)
  have nx: "q_forw (h p) \<noteq> p" "e \<noteq> q_forw (h p)" "q_forw (h p) \<notin> set xs" "e \<noteq> p"
    using c(3) d assms(2,3) by (cases ys; auto)+
  note f = insque_fields [where prev = p and elem = e and h = h, OF d(8) nx(4,2)]
  have "chain ?h 0 xs p = chain h 0 xs p"
    by (rule chain_field_cong) (metis assms(2) Un_iff d(4) f(6,7) nx(3) set_append)
  moreover have "chain ?h e ys 0"
  proof (cases ys)
    case (Cons y zs)
    then show ?thesis
      using c d f(5) assms(2) by (intro chain_start [OF c(4)] f(6,7)) auto
  qed simp
  ultimately show ?thesis
    using assms c d f nx by (auto simp: linear_def chain_append)
qed

lemma insque_ring:
  assumes "ring h (p # ys)" "e \<notin> set (p # ys)" "e \<noteq> 0"
  shows "ring (insque h e p) (p # e # ys)"
proof -
  have c: "q_back (h p) = last (p # ys)" "q_forw (h p) = hd (ys @ [p])" "chain h p ys p"
    and d: "distinct ys" "p \<notin> set ys" "0 \<notin> set ys" "p \<noteq> 0"
    using assms(1) by (auto simp: ring_def)
  have nx: "e \<noteq> q_forw (h p)" "e \<noteq> p"
    using c(2) assms(2) by (cases ys; auto)+
  note f = insque_fields [where prev = p and elem = e and h = h, OF d(4) nx(2,1)]
  show ?thesis
  proof (cases ys)
    case Nil
    then show ?thesis
      using assms c d f nx by (auto simp: ring_def)
  next
    case (Cons y zs)
    then have "chain (insque h e p) e ys p"
      using c d f(5) assms(2) by (intro chain_start [OF c(3)] f(6,7)) auto
    then show ?thesis
      using assms c d f nx Cons by (auto simp: ring_def)
  qed
qed

lemma remque_linear:
  assumes "linear h (xs @ e # ys)"
  shows "linear (remque h e) (xs @ ys)"
proof -
  let ?h = "remque h e"
  have c: "chain h 0 xs e" "q_back (h e) = last (0 # xs)" "q_forw (h e) = hd (ys @ [0])" "chain h e ys 0"
    and d: "distinct xs" "distinct ys" "set xs \<inter> set ys = {}" "e \<notin> set xs" "e \<notin> set ys" "0 \<notin> set xs" "0 \<notin> set ys"
    using assms by (auto simp: linear_def chain_append)
  note f = remque_fields [where elem = e and h = h]
  have "chain ?h 0 xs (hd (ys @ [0]))"
  proof (cases xs rule: rev_cases)
    case (snoc us u)
    then show ?thesis
      using c d f(3) by (intro chain_end [OF c(1)] f(1,2)) (cases ys; auto)+
  qed simp
  moreover have "last (0 # xs) \<notin> set ys"
    using d(3,7) by (cases xs rule: rev_cases) auto
  then have "chain ?h (last (0 # xs)) ys 0"
  proof (cases ys)
    case (Cons y zs)
    then show ?thesis
      using c d f(4) \<open>last (0 # xs) \<notin> set ys\<close> by (intro chain_start [OF c(4)] f(1,2)) auto
  qed simp
  ultimately show ?thesis
    using d by (auto simp: linear_def chain_append)
qed

lemma remque_ring:
  assumes "ring h (p # e # ys)"
  shows "ring (remque h e) (p # ys)"
proof -
  have c: "q_back (h p) = last (e # ys)" "q_forw (h p) = e" "q_back (h e) = p" "q_forw (h e) = hd (ys @ [p])" "chain h e ys p"
    and d: "distinct ys" "p \<notin> set ys" "e \<notin> set ys" "0 \<notin> set ys" "p \<noteq> 0" "e \<noteq> p"
    using assms by (auto simp: ring_def)
  note f = remque_fields [where elem = e and h = h]
  show ?thesis
  proof (cases ys)
    case Nil
    then show ?thesis
      using c d f by (auto simp: ring_def)
  next
    case (Cons y zs)
    then have "chain (remque h e) p ys p"
      using c d f(4) by (intro chain_start [OF c(5)] f(1,2)) auto
    then show ?thesis
      using c d f(2) [of p] f(3) Cons by (auto simp: ring_def)
  qed
qed

text \<open>
  C27. insque and remque keep queues well linked: insque with a NULL predecessor makes a queue of
  one element; after an element of a linear or of a circular queue it puts the new element right
  behind it; remque takes an element out of either kind of queue and links its neighbours.
\<close>

theorem insque_remque_queues:
  assumes "e \<noteq> 0"
  shows "linear (insque h e 0) [e] \<and>
    (linear h (xs @ p # ys) \<longrightarrow> e \<notin> set (xs @ p # ys) \<longrightarrow> linear (insque h e p) (xs @ p # e # ys)) \<and>
    (ring h (p # ys) \<longrightarrow> e \<notin> set (p # ys) \<longrightarrow> ring (insque h e p) (p # e # ys)) \<and>
    (linear h (xs @ e # ys) \<longrightarrow> linear (remque h e) (xs @ ys)) \<and>
    (ring h (p # e # ys) \<longrightarrow> ring (remque h e) (p # ys))"
  using insque_linear [of h xs p ys e] insque_ring [of h p ys e] remque_linear [of h xs e ys] remque_ring [of h p e ys] assms
  by (auto simp: linear_def insque_def)

theorem insque_remque_queues_witness:
  "let h = (\<lambda>_. \<lparr>q_forw = 0, q_back = 0\<rparr>); h1 = insque h 5 0; h2 = insque h1 7 5; h3 = insque h2 6 5 in
   linear h1 [5] \<and> linear h2 [5, 7] \<and> linear h3 [5, 6, 7] \<and> linear (remque h3 5) [6, 7]"
proof -
  let ?h = "\<lambda>_ :: addr. \<lparr>q_forw = 0, q_back = 0\<rparr>"
  define h1 h2 h3 where "h1 = insque ?h 5 0" and "h2 = insque h1 7 5" and "h3 = insque h2 6 5"
  have 1: "linear h1 [5]"
    using insque_remque_queues [of 5 ?h] by (simp add: h1_def)
  then have 2: "linear h2 [5, 7]"
    using insque_remque_queues [of 7 h1 "[]" 5 "[]"] by (simp add: h2_def)
  then have 3: "linear h3 [5, 6, 7]"
    using insque_remque_queues [of 6 h2 "[]" 5 "[7]"] by (simp add: h3_def)
  then have "linear (remque h3 5) [6, 7]"
    using insque_remque_queues [of 5 h3 "[]" _ "[6, 7]"] by simp
  with 1 2 3 show ?thesis
    by (simp add: h1_def h2_def h3_def Let_def)
qed

end
