(* ===== verification/Msort.thy ===== *)
theory Msort
  imports Search "HOL-Library.Multiset"
begin

text \<open>
  The merge sort of stdlib/msort.c. The array is the list of its objects, each one a block of as
  many bytes as the size argument says; pointers into it are indices, and the temporary array
  \<open>t\<close> of the parameter block is a second such list, whose old contents do not matter. The
  objects are copied the way the variant \<open>var\<close> says: as one 32-bit or one 64-bit word, as a
  sequence of longs, as a pointer, or by mempcpy. With variant 3 the array holds pointers, and
  \<open>deref\<close> is the memory they point to.
\<close>

section \<open>msort_with_tmp\<close>

record 'x msort_param =
  p_s :: u64
  p_var :: nat
  p_cmp :: "obj \<Rightarrow> obj \<Rightarrow> 'x \<Rightarrow> int"
  p_arg :: 'x

definition copy_longs :: "obj \<Rightarrow> obj" where
  "copy_longs e = concat (map (\<lambda>i. store64 (load64 (take 8 (drop (8 * i) e)))) [0..<length e div 8])"

definition copy_obj :: "nat \<Rightarrow> obj \<Rightarrow> obj" where
  "copy_obj v e =
     (if v = 0 then store32 (load32 e)
      else if v = 1 then store64 (load64 e)
      else if v = 2 then copy_longs e
      else if v = 3 then store64 (load64 e)
      else e)"

definition compare_objs :: "'x msort_param \<Rightarrow> (u64 \<Rightarrow> obj) \<Rightarrow> obj \<Rightarrow> obj \<Rightarrow> int" where
  "compare_objs p deref e1 e2 =
     (if p_var p = 3 then p_cmp p (deref (load64 e1)) (deref (load64 e2)) (p_arg p) else p_cmp p e1 e2 (p_arg p))"

text \<open>The merging loops: the temporary array, what is left of the two halves, and the position
  in the temporary array.\<close>

function merge_loop ::
  "'x msort_param \<Rightarrow> (u64 \<Rightarrow> obj) \<Rightarrow> obj list \<Rightarrow> obj list \<Rightarrow> nat \<Rightarrow> nat \<Rightarrow> nat \<Rightarrow> nat \<Rightarrow> nat
     \<Rightarrow> obj list \<times> nat \<times> nat \<times> nat \<times> nat" where
  "merge_loop p deref b t b1 b2 n1 n2 tmp =
     (if n1 > 0 \<and> n2 > 0
      then if compare_objs p deref (b ! b1) (b ! b2) \<le> 0
           then merge_loop p deref b (t[tmp := copy_obj (p_var p) (b ! b1)]) (b1 + 1) b2 (n1 - 1) n2 (tmp + 1)
           else merge_loop p deref b (t[tmp := copy_obj (p_var p) (b ! b2)]) b1 (b2 + 1) n1 (n2 - 1) (tmp + 1)
      else (t, b1, n1, n2, tmp))"
  by auto
termination by (relation "measure (\<lambda>(_, _, _, _, _, _, n1, n2, _). n1 + n2)") auto

declare merge_loop.simps [simp del]

function msort_with_tmp ::
  "'x msort_param \<Rightarrow> (u64 \<Rightarrow> obj) \<Rightarrow> obj list \<Rightarrow> obj list \<Rightarrow> nat \<Rightarrow> nat \<Rightarrow> obj list \<times> obj list" where
  "msort_with_tmp p deref b t lo n =
     (if n \<le> 1 then (b, t)
      else let n1 = n div 2; n2 = n - n1; b1 = lo; b2 = lo + n1;
               (b, t) = msort_with_tmp p deref b t b1 n1;
               (b, t) = msort_with_tmp p deref b t b2 n2;
               (t, b1, n1, n2, tmp) = merge_loop p deref b t b1 b2 n1 n2 0;
               t = (if n1 > 0 then blit t tmp (take n1 (drop b1 b)) else t) in
           (blit b lo (take (n - n2) t), t))"
  by auto
termination by (relation "measure (\<lambda>(_, _, _, _, _, n). n)") auto

declare msort_with_tmp.simps [simp del]

section \<open>Indirect sorting\<close>

text \<open>The array starts at address \<open>base\<close>; \<open>obj_index\<close> is the object a pointer designates.\<close>

definition obj_index :: "u64 \<Rightarrow> u64 \<Rightarrow> u64 \<Rightarrow> nat" where
  "obj_index base sz q = unat ((q - base) div sz)"

text \<open>The initial pointers: ip runs over the objects.\<close>

definition object_pointers :: "u64 \<Rightarrow> u64 \<Rightarrow> nat \<Rightarrow> u64 list" where
  "object_pointers base sz n = map (\<lambda>i. base + word_of_nat i * sz) [0..<n]"

partial_function (option) rotate_cycle ::
  "u64 \<Rightarrow> u64 \<Rightarrow> u64 \<Rightarrow> obj list \<Rightarrow> u64 list \<Rightarrow> nat \<Rightarrow> u64 \<Rightarrow> u64 \<Rightarrow> (obj list \<times> u64 list \<times> nat \<times> u64) option" where
  "rotate_cycle base sz ip b tp j jp kp =
     (let k = obj_index base sz kp;
          tp = tp[j := jp];
          b = b[obj_index base sz jp := b ! obj_index base sz kp];
          j = k; jp = kp; kp = tp ! k in
      if kp \<noteq> ip then rotate_cycle base sz ip b tp j jp kp else Some (b, tp, j, jp))"

partial_function (option) permute_objs ::
  "u64 \<Rightarrow> u64 \<Rightarrow> nat \<Rightarrow> obj list \<Rightarrow> u64 list \<Rightarrow> nat \<Rightarrow> u64 \<Rightarrow> (obj list \<times> u64 list) option" where
  "permute_objs base sz n b tp i ip =
     (if i < n
      then let kp = tp ! i in
           if kp \<noteq> ip
           then let tmp_storage = b ! obj_index base sz ip in
                Option.bind (rotate_cycle base sz ip b tp i ip kp) (\<lambda>r.
                  let b = fst r; tp = fst (snd r); j = fst (snd (snd r)); jp = snd (snd (snd r)) in
                  permute_objs base sz n (b[obj_index base sz jp := tmp_storage]) (tp[j := jp]) (i + 1) (ip + sz))
           else permute_objs base sz n b tp (i + 1) (ip + sz)
      else Some (b, tp))"

section \<open>Merge sort on lists\<close>

fun merge :: "('a \<Rightarrow> 'a \<Rightarrow> bool) \<Rightarrow> 'a list \<Rightarrow> 'a list \<Rightarrow> 'a list" where
  "merge le (x # xs) (y # ys) = (if le x y then x # merge le xs (y # ys) else y # merge le (x # xs) ys)"
| "merge le xs [] = xs"
| "merge le [] ys = ys"

function msort :: "('a \<Rightarrow> 'a \<Rightarrow> bool) \<Rightarrow> 'a list \<Rightarrow> 'a list" where
  "msort le xs = (if length xs \<le> 1 then xs
     else merge le (msort le (take (length xs div 2) xs)) (msort le (drop (length xs div 2) xs)))"
  by auto
termination by (relation "measure (\<lambda>(_, xs). length xs)") auto

declare msort.simps [simp del]

lemma length_merge [simp]: "length (merge le xs ys) = length xs + length ys"
  by (induction le xs ys rule: merge.induct) auto

lemma mset_merge: "mset (merge le xs ys) = mset xs + mset ys"
  by (induction le xs ys rule: merge.induct) auto

lemma set_merge: "set (merge le xs ys) = set xs \<union> set ys"
  by (metis mset_merge set_mset_mset set_mset_union)

lemma merge_Nil [simp]: "merge le [] ys = ys"
  by (cases ys) auto

lemma mset_msort [simp]: "mset (msort le xs) = mset xs"
proof (induction le xs rule: msort.induct)
  case (1 le xs)
  then show ?case
    by (subst msort.simps) (auto simp: mset_merge simp flip: mset_append)
qed

lemma length_msort [simp]: "length (msort le xs) = length xs"
  by (metis mset_msort size_mset)

lemma set_msort [simp]: "set (msort le xs) = set xs"
  by (metis mset_msort set_mset_mset)

section \<open>The order\<close>

text \<open>What qsort requires of a comparison function: a total preorder, read off the sign.\<close>

locale total_preorder =
  fixes le :: "'a \<Rightarrow> 'a \<Rightarrow> bool"
  assumes le_total: "le x y \<or> le y x"
    and le_trans: "le x y \<Longrightarrow> le y z \<Longrightarrow> le x z"
begin

definition equiv_to :: "'a \<Rightarrow> 'a \<Rightarrow> bool" where
  "equiv_to k x \<longleftrightarrow> le x k \<and> le k x"

lemma sorted_merge:
  "sorted_wrt le xs \<Longrightarrow> sorted_wrt le ys \<Longrightarrow> sorted_wrt le (merge le xs ys)"
proof (induction xs arbitrary: ys)
  case (Cons x xs)
  from Cons.prems(2) show ?case
  proof (induction ys)
    case (Cons y ys)
    have "\<forall>z\<in>set (merge le xs (y # ys)). le x z" if "le x y"
      using that le_trans [of x y] Cons.prems \<open>sorted_wrt le (x # xs)\<close> by (auto simp: set_merge)
    moreover have "\<forall>z\<in>set (merge le (x # xs) ys). le y z" if "\<not> le x y"
      using that le_total [of x y] le_trans [of y x] Cons.prems \<open>sorted_wrt le (x # xs)\<close> by (auto simp: set_merge)
    ultimately show ?case
      using Cons \<open>sorted_wrt le (x # xs)\<close> \<open>\<And>ys. sorted_wrt le xs \<Longrightarrow> sorted_wrt le ys \<Longrightarrow> sorted_wrt le (merge le xs ys)\<close>
      by simp
  qed (use Cons.prems in simp)
qed simp

text \<open>Equivalent objects keep their order.\<close>

lemma filter_merge:
  "sorted_wrt le xs \<Longrightarrow> filter (equiv_to k) (merge le xs ys) = filter (equiv_to k) xs @ filter (equiv_to k) ys"
proof (induction xs arbitrary: ys)
  case outer: (Cons x xs)
  show ?case
  proof (induction ys)
    case (Cons y ys)
    have "filter (equiv_to k) (x # xs) = []" if "\<not> le x y" "equiv_to k y"
    proof -
      have "\<not> equiv_to k z" if "z \<in> set (x # xs)" for z
      proof
        assume "equiv_to k z"
        then have "le z y"
          using \<open>equiv_to k y\<close> le_trans by (auto simp: equiv_to_def)
        moreover have "le x z"
          using that outer.prems le_total [of x x] by auto
        ultimately show False
          using \<open>\<not> le x y\<close> le_trans by blast
      qed
      then show ?thesis
        by (simp add: filter_empty_conv)
    qed
    then show ?case
      using Cons outer by auto
  qed simp
qed simp

lemma sorted_msort: "sorted_wrt le (msort le xs)"
proof (induction "length xs" arbitrary: xs rule: less_induct)
  case less
  show ?case
  proof (cases "length xs \<le> 1")
    case True
    then show ?thesis
      by (cases xs) (auto simp: msort.simps)
  next
    case False
    then show ?thesis
      by (subst msort.simps) (auto intro!: sorted_merge less)
  qed
qed

lemma filter_msort: "filter (equiv_to k) (msort le xs) = filter (equiv_to k) xs"
proof (induction "length xs" arbitrary: xs rule: less_induct)
  case less
  show ?case
  proof (cases "length xs \<le> 1")
    case False
    then have "filter (equiv_to k) (msort le (take (length xs div 2) xs)) = filter (equiv_to k) (take (length xs div 2) xs)"
      "filter (equiv_to k) (msort le (drop (length xs div 2) xs)) = filter (equiv_to k) (drop (length xs div 2) xs)"
      by (auto intro!: less)
    then show ?thesis
      using False by (subst msort.simps) (simp add: filter_merge sorted_msort flip: filter_append)
  qed (simp add: msort.simps)
qed

end

section \<open>The array version merges and sorts\<close>

abbreviation le_of :: "'x msort_param \<Rightarrow> (u64 \<Rightarrow> obj) \<Rightarrow> obj \<Rightarrow> obj \<Rightarrow> bool" where
  "le_of p deref e1 e2 \<equiv> compare_objs p deref e1 e2 \<le> 0"

lemma take_Suc_drop: "i < length xs \<Longrightarrow> 0 < n \<Longrightarrow> take n (drop i xs) = xs ! i # take (n - 1) (drop (i + 1) xs)"
  by (metis Cons_nth_drop_Suc Suc_eq_plus1 Suc_pred' take_Suc_Cons)

lemma merge_loop_merges:
  assumes "\<And>e. e \<in> set b \<Longrightarrow> copy_obj (p_var p) e = e"
  shows "merge_loop p deref b t b1 b2 n1 n2 tmp = (t', b1', n1', n2', tmp') \<Longrightarrow>
    b1 + n1 \<le> length b \<Longrightarrow> b2 + n2 \<le> length b \<Longrightarrow> tmp + n1 + n2 \<le> length t \<Longrightarrow>
    \<exists>zs. merge (le_of p deref) (take n1 (drop b1 b)) (take n2 (drop b2 b)) =
        zs @ take n1' (drop b1' b) @ drop (n2 - n2') (take n2 (drop b2 b)) \<and>
      take tmp' t' = take tmp t @ zs \<and> tmp' = tmp + length zs \<and> length zs = n1 - n1' + (n2 - n2') \<and>
      length t' = length t \<and> b1' + n1' = b1 + n1 \<and> n1' \<le> n1 \<and> n2' \<le> n2 \<and> (n1' = 0 \<or> n2' = 0)"
proof (induction "n1 + n2" arbitrary: t b1 b2 n1 n2 tmp rule: less_induct)
  case less
  let ?xs = "take n1 (drop b1 b)" and ?ys = "take n2 (drop b2 b)"
  show ?case
  proof (cases "n1 > 0 \<and> n2 > 0")
    case False
    then have eq: "t' = t" "b1' = b1" "n1' = n1" "n2' = n2" "tmp' = tmp"
      using less.prems(1) by (subst (asm) merge_loop.simps; simp)+
    have "merge (le_of p deref) ?xs ?ys = ?xs @ ?ys"
      using False by (cases "n1 = 0") auto
    then show ?thesis
      using False less.prems(4) by (intro exI [of _ "[]"]) (auto simp: eq)
  next
    case True
    have in_range: "b1 < length b" "b2 < length b" "tmp < length t"
      using True less.prems by auto
    have xs: "?xs = b ! b1 # take (n1 - 1) (drop (b1 + 1) b)" and ys: "?ys = b ! b2 # take (n2 - 1) (drop (b2 + 1) b)"
      using take_Suc_drop in_range True by auto
    have t: "take (Suc tmp) (t[tmp := e]) = take tmp t @ [e]" for e
      using in_range(3) by (simp add: take_Suc_conv_app_nth)
    show ?thesis
    proof (cases "le_of p deref (b ! b1) (b ! b2)")
      case le: True
      then have "merge_loop p deref b (t[tmp := b ! b1]) (b1 + 1) b2 (n1 - 1) n2 (tmp + 1) = (t', b1', n1', n2', tmp')"
        using less.prems(1) True assms [of "b ! b1"] in_range by (simp add: merge_loop.simps [of _ _ _ t])
      moreover have "n1 - 1 + n2 < n1 + n2" "b1 + 1 + (n1 - 1) \<le> length b" "tmp + 1 + (n1 - 1) + n2 \<le> length (t[tmp := b ! b1])"
        using True less.prems(2,4) by auto
      ultimately obtain zs where
        "merge (le_of p deref) (take (n1 - 1) (drop (b1 + 1) b)) ?ys = zs @ take n1' (drop b1' b) @ drop (n2 - n2') ?ys"
        "take tmp' t' = take (tmp + 1) (t[tmp := b ! b1]) @ zs" "tmp' = tmp + 1 + length zs"
        "length zs = n1 - 1 - n1' + (n2 - n2')" "length t' = length (t[tmp := b ! b1])" "b1' + n1' = b1 + 1 + (n1 - 1)" "n1' \<le> n1 - 1"
        "n2' \<le> n2" "n1' = 0 \<or> n2' = 0"
        using less.hyps [OF _ _ _ less.prems(3)] by blast
      then show ?thesis
        using True le by (intro exI [of _ "b ! b1 # zs"]) (auto simp: xs t ys)
    next
      case gt: False
      then have "merge_loop p deref b (t[tmp := b ! b2]) b1 (b2 + 1) n1 (n2 - 1) (tmp + 1) = (t', b1', n1', n2', tmp')"
        using less.prems(1) True assms [of "b ! b2"] in_range by (simp add: merge_loop.simps [of _ _ _ t])
      moreover have "n1 + (n2 - 1) < n1 + n2" "b2 + 1 + (n2 - 1) \<le> length b" "tmp + 1 + n1 + (n2 - 1) \<le> length (t[tmp := b ! b2])"
        using True less.prems(3,4) by auto
      ultimately obtain zs where
        "merge (le_of p deref) ?xs (take (n2 - 1) (drop (b2 + 1) b)) =
           zs @ take n1' (drop b1' b) @ drop (n2 - 1 - n2') (take (n2 - 1) (drop (b2 + 1) b))"
        "take tmp' t' = take (tmp + 1) (t[tmp := b ! b2]) @ zs" "tmp' = tmp + 1 + length zs"
        "length zs = n1 - n1' + (n2 - 1 - n2')" "length t' = length (t[tmp := b ! b2])" "b1' + n1' = b1 + n1" "n1' \<le> n1"
        "n2' \<le> n2 - 1" "n1' = 0 \<or> n2' = 0"
        using less.hyps [OF _ _ less.prems(2)] by blast
      moreover from this(8) have "drop (n2 - n2') ?ys = drop (n2 - 1 - n2') (take (n2 - 1) (drop (b2 + 1) b))"
        using True by (auto simp: ys drop_Cons' Suc_diff_le)
      ultimately show ?thesis
        using True gt by (intro exI [of _ "b ! b2 # zs"]) (auto simp: xs t ys)
    qed
  qed
qed

lemma msort_with_tmp_sorts:
  assumes "\<And>e. e \<in> set b \<Longrightarrow> copy_obj (p_var p) e = e" "lo + n \<le> length b" "n \<le> length t"
  shows "\<exists>t'. msort_with_tmp p deref b t lo n =
      (take lo b @ msort (le_of p deref) (take n (drop lo b)) @ drop (lo + n) b, t') \<and> length t' = length t"
  using assms
proof (induction n arbitrary: b t lo rule: less_induct)
  case (less n)
  show ?case
  proof (cases "n \<le> 1")
    case True
    have "take lo b @ take n (drop lo b) @ drop (lo + n) b = b"
      by (metis add.commute append_take_drop_id drop_drop)
    with True show ?thesis
      by (simp add: msort_with_tmp.simps [of _ _ _ _ _ n] msort.simps)
  next
    case False
    define n1 n2 where "n1 = n div 2" and "n2 = n - n1"
    have n: "n1 < n" "n2 < n" "n1 + n2 = n"
      using False by (auto simp: n1_def n2_def)
    let ?le = "le_of p deref"
    define xs ys where "xs = msort ?le (take n1 (drop lo b))" and "ys = msort ?le (take n2 (drop (lo + n1) b))"
    define b' where "b' = take lo b @ xs @ drop (lo + n1) b"
    define b'' where "b'' = take lo b @ xs @ ys @ drop (lo + n) b"
    have len: "length xs = n1" "length ys = n2" "length b' = length b" "length b'' = length b"
      using less.prems(2) n by (auto simp: xs_def ys_def b'_def b''_def)
    obtain t' where t': "msort_with_tmp p deref b t lo n1 = (b', t')" "length t' = length t"
      using less.IH [OF n(1), where b = b and lo = lo and t = t] less.prems n by (auto simp: b'_def xs_def)
    have "set b' \<subseteq> set b"
      by (auto simp: b'_def xs_def dest: in_set_takeD in_set_dropD)
    then have copy': "copy_obj (p_var p) e = e" if "e \<in> set b'" for e
      using less.prems(1) that by blast
    have "length (take lo b @ xs) = lo + n1"
      using less.prems(2) n len by simp
    then have cut: "take (lo + n1) b' = take lo b @ xs" "drop (lo + n1) b' = drop (lo + n1) b"
      unfolding b'_def by (metis append.assoc append_eq_conv_conj)+
    then have "drop (lo + n1 + n2) b' = drop (lo + n) b"
      by (metis add.assoc add.commute drop_drop n(3))
    with cut obtain t'' where t'': "msort_with_tmp p deref b' t' (lo + n1) n2 = (b'', t'')" "length t'' = length t"
      using less.IH [OF n(2), where b = b' and lo = "lo + n1" and t = t', OF copy'] less.prems n t'(2) len by (auto simp: b''_def ys_def)
    have "set b'' \<subseteq> set b"
      by (auto simp: b''_def xs_def ys_def dest: in_set_takeD in_set_dropD)
    then have copy'': "copy_obj (p_var p) e = e" if "e \<in> set b''" for e
      using less.prems(1) that by blast
    obtain t3 b1 m1 m2 tmp where loop: "merge_loop p deref b'' t'' lo (lo + n1) n1 n2 0 = (t3, b1, m1, m2, tmp)"
      by (metis prod_cases5)
    have parts: "take n1 (drop lo b'') = xs" "take n2 (drop (lo + n1) b'') = ys"
      using less.prems(2) n len by (simp_all add: b''_def)
    obtain zs where zs: "merge ?le xs ys = zs @ take m1 (drop b1 b'') @ drop (n2 - m2) ys" "take tmp t3 = zs" "tmp = length zs"
        "length zs = n1 - m1 + (n2 - m2)" "length t3 = length t''" "b1 + m1 = lo + n1" "m1 \<le> n1" "m2 \<le> n2" "m1 = 0 \<or> m2 = 0"
      using merge_loop_merges [OF copy'' loop] less.prems n len t''(2) parts by auto
    define t4 where "t4 = (if m1 > 0 then blit t3 tmp (take m1 (drop b1 b'')) else t3)"
    have rest: "length (take m1 (drop b1 b'')) = m1"
      using zs(6,7) less.prems(2) n len by auto
    have fits: "tmp + m1 \<le> length t3" "n - m2 = tmp + m1"
      using zs n less.prems(3) t''(2) by auto
    have t4: "length t4 = length t" "take (n - m2) t4 = zs @ take m1 (drop b1 b'')"
      using fits rest zs(2,3,5) t''(2) by (auto simp: t4_def length_blit take_blit)
    have result: "msort_with_tmp p deref b t lo n = (blit b'' lo (zs @ take m1 (drop b1 b'')), t4)"
      using False t'(1) t''(1) loop t4(2)
      by (subst msort_with_tmp.simps) (simp add: Let_def n1_def [symmetric] n2_def [symmetric] t4_def)
    have "drop (lo + (n - m2)) b'' = drop (n2 - m2) ys @ drop (lo + n) b"
      using less.prems(2) len(1,2) zs(8) by (simp add: b''_def flip: n(3))
    moreover have "length (zs @ take m1 (drop b1 b'')) = n - m2"
      using rest fits(2) zs(3) by simp
    moreover have "take lo b'' = take lo b"
      using less.prems(2) by (simp add: b''_def)
    ultimately have "blit b'' lo (zs @ take m1 (drop b1 b'')) = take lo b @ merge ?le xs ys @ drop (lo + n) b"
      unfolding blit_def zs(1) by (simp only: append.assoc)
    moreover have "length (take n (drop lo b)) = n" "take n1 (take n (drop lo b)) = take n1 (drop lo b)"
      "drop n1 (take n (drop lo b)) = take n2 (drop (lo + n1) b)"
      using less.prems(2) n by (simp_all add: min_absorb1 drop_take n2_def add.commute)
    then have "merge ?le xs ys = msort ?le (take n (drop lo b))"
      using False unfolding xs_def ys_def by (subst (3) msort.simps) (simp only: n1_def [symmetric] if_False)
    ultimately show ?thesis
      using t4(1) result by simp
  qed
qed

end
