(* ===== verification/Msort_Indirect.thy ===== *)
theory Msort_Indirect
  imports Msort
begin

text \<open>
  The indirect branch of __qsort_r (stdlib/msort.c): once the array of pointers is sorted, the
  objects are moved to their places cycle by cycle, with room for one object only. The moves end
  and leave at each place the object its pointer designated.
\<close>

section \<open>Addresses of objects\<close>

definition object_addr :: "u64 \<Rightarrow> u64 \<Rightarrow> nat \<Rightarrow> u64" where
  "object_addr base sz i = base + word_of_nat i * sz"

text \<open>The array lies within the address space.\<close>

definition array_fits :: "u64 \<Rightarrow> u64 \<Rightarrow> nat \<Rightarrow> bool" where
  "array_fits base sz n \<longleftrightarrow> 0 < sz \<and> unat base + n * unat sz \<le> 2 ^ 64"

lemma obj_index_addr:
  assumes "array_fits base sz n" "i < n"
  shows "obj_index base sz (object_addr base sz i) = i"
proof -
  have pos: "0 < unat sz"
    using assms(1) by (simp add: array_fits_def word_gt_0 unat_gt_0)
  have "i * unat sz < n * unat sz"
    using assms(2) pos by simp
  also have "\<dots> \<le> 2 ^ 64"
    using assms(1) by (simp add: array_fits_def)
  finally have "i * unat sz < 2 ^ 64" .
  moreover from this have "i < 2 ^ 64"
    using pos by (metis le_less_trans mult.right_neutral mult_le_mono2 Suc_leI One_nat_def)
  ultimately have "unat (word_of_nat i * sz) = i * unat sz" "i < 2 ^ 64"
    by (simp_all add: unat_word_ariths unat_word_of_nat_mod)
  then show ?thesis
    using pos by (simp add: obj_index_def object_addr_def unat_div)
qed

lemma object_addr_eq:
  assumes "array_fits base sz n" "i < n" "j < n"
  shows "object_addr base sz i = object_addr base sz j \<longleftrightarrow> i = j"
  using obj_index_addr [OF assms(1)] assms(2,3) by metis

lemma object_addr_Suc: "object_addr base sz (Suc i) = object_addr base sz i + sz"
  by (simp add: object_addr_def algebra_simps)

section \<open>One cycle\<close>

text \<open>\<open>moved b0 \<sigma> vs b tp\<close>: the places \<open>vs\<close> hold their objects and point to themselves, the
  others are as they were; \<open>path \<sigma> i vs j\<close>: following the pointers from \<open>i\<close> through \<open>vs\<close> leads
  to \<open>j\<close>.\<close>

definition moved :: "u64 \<Rightarrow> u64 \<Rightarrow> obj list \<Rightarrow> nat list \<Rightarrow> nat set \<Rightarrow> obj list \<Rightarrow> u64 list \<Rightarrow> bool" where
  "moved base sz b0 \<sigma> V b tp \<longleftrightarrow> length b = length \<sigma> \<and> length tp = length \<sigma> \<and>
     (\<forall>m<length \<sigma>. tp ! m = object_addr base sz (if m \<in> V then m else \<sigma> ! m) \<and>
        b ! m = b0 ! (if m \<in> V then \<sigma> ! m else m))"

definition path :: "nat list \<Rightarrow> nat \<Rightarrow> nat list \<Rightarrow> nat \<Rightarrow> bool" where
  "path \<sigma> i vs j \<longleftrightarrow> distinct (vs @ [j]) \<and> set (vs @ [j]) \<subseteq> {..<length \<sigma>} \<and> (vs @ [j]) ! 0 = i \<and>
     (\<forall>t<length vs. \<sigma> ! (vs ! t) = (vs @ [j]) ! Suc t)"

lemma path_extend:
  assumes "path \<sigma> i vs j" "distinct \<sigma>" "set \<sigma> \<subseteq> {..<length \<sigma>}" "\<sigma> ! j \<noteq> i"
  shows "path \<sigma> i (vs @ [j]) (\<sigma> ! j)"
proof -
  have j: "j < length \<sigma>"
    using assms(1) by (simp add: path_def)
  have "\<sigma> ! j \<notin> set (vs @ [j])"
  proof
    assume "\<sigma> ! j \<in> set (vs @ [j])"
    then obtain t where t: "t < length (vs @ [j])" "(vs @ [j]) ! t = \<sigma> ! j"
      by (metis in_set_conv_nth)
    have "t \<noteq> 0"
      using t(2) assms(1,4) by (metis path_def)
    then obtain u where u: "t = Suc u" "u < length vs"
      using t(1) by (cases t) auto
    then have "\<sigma> ! (vs ! u) = \<sigma> ! j"
      using t(2) assms(1) by (simp add: path_def)
    moreover have "vs ! u < length \<sigma>"
    proof -
      have "vs ! u \<in> set (vs @ [j])"
        using u(2) by simp
      then show ?thesis
        using assms(1) by (auto simp: path_def simp del: set_append)
    qed
    ultimately have "vs ! u = j"
      using assms(2) j by (simp add: nth_eq_iff_index_eq)
    then show False
      using assms(1) u(2) by (auto simp: path_def)
  qed
  moreover have "\<sigma> ! j < length \<sigma>"
    using assms(3) j nth_mem by blast
  ultimately show ?thesis
    using assms(1) j unfolding path_def by (auto simp: nth_append less_Suc_eq split: if_splits)
qed

lemma path_bound: "path \<sigma> i vs j \<Longrightarrow> length vs < length \<sigma>"
proof -
  assume "path \<sigma> i vs j"
  then have "card (set (vs @ [j])) \<le> card {..<length \<sigma>}" "distinct (vs @ [j])"
    unfolding path_def by (meson card_mono finite_lessThan)+
  then show ?thesis
    by (metis Suc_le_eq card_lessThan distinct_card length_append_singleton)
qed

lemma rotate_cycle_moves:
  assumes fits: "array_fits base sz (length \<sigma>)" and perm: "distinct \<sigma>" "set \<sigma> \<subseteq> {..<length \<sigma>}" and i: "i < length \<sigma>"
  shows "path \<sigma> i vs j \<Longrightarrow> moved base sz b0 \<sigma> (set vs) b tp \<Longrightarrow> \<sigma> ! j \<noteq> i \<Longrightarrow>
    \<exists>vs' j' b' tp'. rotate_cycle base sz (object_addr base sz i) b tp j (object_addr base sz j) (object_addr base sz (\<sigma> ! j)) =
        Some (b', tp', j', object_addr base sz j') \<and>
      path \<sigma> i vs' j' \<and> moved base sz b0 \<sigma> (set vs') b' tp' \<and> \<sigma> ! j' = i"
proof (induction "length \<sigma> - length vs" arbitrary: vs j b tp rule: less_induct)
  case less
  let ?k = "\<sigma> ! j"
  have ext: "path \<sigma> i (vs @ [j]) ?k"
    by (rule path_extend [OF less.prems(1) perm less.prems(3)])
  have j: "j < length \<sigma>" "?k < length \<sigma>" "j \<notin> set vs" "?k \<notin> set vs" "?k \<noteq> j"
    using less.prems(1) ext by (auto simp: path_def)
  let ?tp = "tp[j := object_addr base sz j]" and ?b = "b[j := b ! ?k]"
  have moved': "moved base sz b0 \<sigma> (set (vs @ [j])) ?b ?tp"
    using less.prems(2) j by (auto simp: moved_def nth_list_update)
  have k: "?tp ! ?k = object_addr base sz (\<sigma> ! ?k)"
    using less.prems(2) j by (auto simp: moved_def)
  have \<sigma>k: "\<sigma> ! ?k < length \<sigma>"
    using perm(2) j(2) nth_mem by blast
  have step: "rotate_cycle base sz (object_addr base sz i) b tp j (object_addr base sz j) (object_addr base sz ?k) =
      (if \<sigma> ! ?k \<noteq> i then rotate_cycle base sz (object_addr base sz i) ?b ?tp ?k (object_addr base sz ?k) (object_addr base sz (\<sigma> ! ?k))
       else Some (?b, ?tp, ?k, object_addr base sz ?k))"
    using k object_addr_eq [OF fits \<sigma>k i] obj_index_addr [OF fits] j
    by (subst rotate_cycle.simps) (simp add: Let_def)
  show ?case
  proof (cases "\<sigma> ! ?k = i")
    case True
    then show ?thesis
      using step ext moved' by auto
  next
    case False
    have "length \<sigma> - length (vs @ [j]) < length \<sigma> - length vs"
      using path_bound [OF less.prems(1)] by simp
    from less.hyps [OF this ext moved' False] False show ?thesis
      unfolding step by auto
  qed
qed

section \<open>All cycles\<close>

lemma cycle_closed:
  assumes "path \<sigma> i vs j" "\<sigma> ! j = i" "distinct \<sigma>" "m < length \<sigma>" "\<sigma> ! m \<in> set (vs @ [j])"
  shows "m \<in> set (vs @ [j])"
proof -
  obtain t where t: "t < length (vs @ [j])" "(vs @ [j]) ! t = \<sigma> ! m"
    using assms(5) by (metis in_set_conv_nth)
  have "\<exists>c\<in>set (vs @ [j]). \<sigma> ! c = \<sigma> ! m"
  proof (cases t)
    case 0
    then show ?thesis
      using t assms(1,2) by (auto simp: path_def)
  next
    case (Suc u)
    then show ?thesis
      using t assms(1) by (intro bexI [of _ "vs ! u"]) (auto simp: path_def)
  qed
  then obtain c where c: "c \<in> set (vs @ [j])" "\<sigma> ! c = \<sigma> ! m"
    by blast
  moreover have "c < length \<sigma>"
    using c(1) assms(1) by (auto simp: path_def)
  ultimately show ?thesis
    using assms(3,4) nth_eq_iff_index_eq by metis
qed

lemma permute_objs_permutes:
  assumes fits: "array_fits base sz n"
  shows "length \<sigma> = n \<Longrightarrow> length b = n \<Longrightarrow> distinct \<sigma> \<Longrightarrow> set \<sigma> \<subseteq> {..<n} \<Longrightarrow> i \<le> n \<Longrightarrow> (\<And>m. m < i \<Longrightarrow> \<sigma> ! m = m) \<Longrightarrow>
    \<exists>tp'. permute_objs base sz n b (map (object_addr base sz) \<sigma>) i (object_addr base sz i) =
      Some (map (\<lambda>m. b ! (\<sigma> ! m)) [0..<n], tp')"
proof (induction "n - i" arbitrary: \<sigma> b i rule: less_induct)
  case less
  let ?a = "object_addr base sz"
  show ?case
  proof (cases "i < n")
    case False
    then have "map (\<lambda>m. b ! (\<sigma> ! m)) [0..<n] = b"
      using less.prems by (intro nth_equalityI) auto
    then show ?thesis
      using False by (subst permute_objs.simps) simp
  next
    case i: True
    have \<sigma>i: "\<sigma> ! i < n"
      using less.prems(1,4) i nth_mem by blast
    show ?thesis
    proof (cases "\<sigma> ! i = i")
      case True
      then have "permute_objs base sz n b (map ?a \<sigma>) i (?a i) = permute_objs base sz n b (map ?a \<sigma>) (Suc i) (?a (Suc i))"
        using i less.prems(1) by (subst permute_objs.simps) (simp add: object_addr_Suc)
      moreover have "\<And>m. m < Suc i \<Longrightarrow> \<sigma> ! m = m"
        using less.prems(6) True less_Suc_eq by auto
      ultimately show ?thesis
        using less.hyps [of "Suc i" \<sigma> b] less.prems i by simp
    next
      case False
      have start: "path \<sigma> i [] i" "moved base sz b \<sigma> (set []) b (map ?a \<sigma>)"
        using i less.prems by (simp_all add: path_def moved_def)
      have fits': "array_fits base sz (length \<sigma>)" and perm: "set \<sigma> \<subseteq> {..<length \<sigma>}" and i': "i < length \<sigma>"
        using fits less.prems(1,4) i by simp_all
      obtain vs j b1 tp1 where cyc: "rotate_cycle base sz (?a i) b (map ?a \<sigma>) i (?a i) (?a (\<sigma> ! i)) = Some (b1, tp1, j, ?a j)"
          "path \<sigma> i vs j" "moved base sz b \<sigma> (set vs) b1 tp1" "\<sigma> ! j = i"
        using rotate_cycle_moves [OF fits' less.prems(3) perm i' start False] by blast
      let ?C = "set (vs @ [j])"
      define \<sigma>' where "\<sigma>' = map (\<lambda>m. if m \<in> ?C then m else \<sigma> ! m) [0..<n]"
      define b' where "b' = b1[j := b ! i]"
      have C: "?C \<subseteq> {..<n}" "i \<in> ?C" "j < n" "j \<notin> set vs"
        using cyc(2) less.prems(1) by (auto simp: path_def nth_append split: if_splits)
      have closed: "m \<in> ?C" if "m < n" "\<sigma> ! m \<in> ?C" for m
        using cycle_closed [OF cyc(2,4) less.prems(3)] that less.prems(1) by blast
      have b': "length b' = n" "\<And>m. m < n \<Longrightarrow> b' ! m = b ! (if m \<in> ?C then \<sigma> ! m else m)"
        using cyc(3,4) less.prems(1) C by (auto simp: b'_def moved_def nth_list_update)
      have tp': "tp1[j := ?a j] = map ?a \<sigma>'"
        using cyc(3) less.prems(1) C by (intro nth_equalityI) (auto simp: \<sigma>'_def moved_def nth_list_update)
      have step: "permute_objs base sz n b (map ?a \<sigma>) i (?a i) = permute_objs base sz n b' (map ?a \<sigma>') (Suc i) (?a (Suc i))"
        using i less.prems(1) False cyc(1) object_addr_eq [OF fits \<sigma>i i] obj_index_addr [OF fits] C(3) tp'
        by (subst permute_objs.simps) (simp add: Let_def object_addr_Suc b'_def)
      have nth': "\<sigma>' ! m = (if m \<in> ?C then m else \<sigma> ! m)" if "m < n" for m
        using that by (simp add: \<sigma>'_def)
      have len': "length \<sigma>' = n"
        by (simp add: \<sigma>'_def)
      have "distinct \<sigma>'"
        unfolding distinct_conv_nth len'
      proof (intro allI impI)
        fix m m' assume m: "m < n" "m' < n" "m \<noteq> m'"
        then have "\<sigma> ! m \<noteq> \<sigma> ! m'"
          using less.prems(1,3) by (simp add: nth_eq_iff_index_eq)
        then show "\<sigma>' ! m \<noteq> \<sigma>' ! m'"
          using m closed [of m] closed [of m'] by (auto simp: nth' simp del: set_append)
      qed
      moreover have "set \<sigma>' \<subseteq> {..<n}"
      proof -
        have "\<sigma> ! m < n" if "m < n" for m
          using less.prems(1,4) that nth_mem [of m \<sigma>] by blast
        then show ?thesis
          by (auto simp: \<sigma>'_def)
      qed
      moreover have "\<sigma>' ! m = m" if "m < Suc i" for m
        using that C(2) i less.prems(6) [of m] by (cases "m = i") (auto simp: nth' simp del: set_append)
      moreover have "n - Suc i < n - i"
        using i by simp
      ultimately obtain tp2 where "permute_objs base sz n b' (map ?a \<sigma>') (Suc i) (?a (Suc i)) =
          Some (map (\<lambda>m. b' ! (\<sigma>' ! m)) [0..<n], tp2)"
        using less.hyps [of "Suc i" \<sigma>' b'] i len' b'(1) by auto
      moreover have "b' ! (\<sigma>' ! m) = b ! (\<sigma> ! m)" if "m < n" for m
      proof (cases "m \<in> ?C")
        case False
        then have "\<sigma> ! m \<notin> ?C" "\<sigma> ! m < n"
          using closed that less.prems(1,4) nth_mem by blast+
        then show ?thesis
          using False that by (simp add: nth' b'(2) del: set_append)
      qed (use that in \<open>simp add: nth' b'(2) del: set_append\<close>)
      ultimately show ?thesis
        unfolding step by simp
    qed
  qed
qed

end
