(* ===== verification/Quicksort.thy ===== *)
theory Quicksort
  imports Msort "HOL-Library.Monad_Syntax"
begin

text \<open>
  The in-place sort of stdlib/qsort.c, used when there is no memory for the merge sort. Pointers
  to objects are their indices, and the byte loops of SWAP and of the final insertion work on the
  bytes of the objects. Every access is checked: a comparison, an exchange or a shift that touches
  an object outside the array, and a pointer that moves below its first object, give \<open>None\<close>. So do
  a scan that does not end, a push on the full stack of STACK_SIZE entries, and objects of no bytes,
  for which the code divides by zero or never moves its pointers; a result is proof that none of
  this happens. The comparison function is taken with its last argument fixed.
\<close>

section \<open>Moving objects byte by byte\<close>

definition compare_at :: "compar \<Rightarrow> obj list \<Rightarrow> nat \<Rightarrow> nat \<Rightarrow> int option" where
  "compare_at cmp a i j = (if i < length a \<and> j < length a then Some (cmp (a ! i) (a ! j)) else None)"

text \<open>The pointer to the object before.\<close>

definition prev_obj :: "nat \<Rightarrow> nat option" where
  "prev_obj i = (if i = 0 then None else Some (i - 1))"

definition SWAP_byte :: "nat \<Rightarrow> nat \<Rightarrow> nat \<Rightarrow> obj list \<Rightarrow> obj list" where
  "SWAP_byte i j off a =
     (let tmp = a ! i ! off;
          a = a[i := (a ! i)[off := a ! j ! off]] in
      a[j := (a ! j)[off := tmp]])"

text \<open>The loop runs once before it tests the decremented size, so that size 0 would wrap around
  and exchange the whole memory; it needs both objects and all their bytes.\<close>

definition SWAP :: "nat \<Rightarrow> obj list \<Rightarrow> nat \<Rightarrow> nat \<Rightarrow> obj list option" where
  "SWAP sz a i j =
     (if 0 < sz \<and> i < length a \<and> j < length a \<and> sz \<le> length (a ! i) \<and> sz \<le> length (a ! j)
      then Some (fold (SWAP_byte i j) [0..<sz] a) else None)"

text \<open>One byte column of the objects from tmp to run moves up by one object; \<open>c\<close> goes to tmp.\<close>

fun shift_column :: "nat \<Rightarrow> nat \<Rightarrow> byte \<Rightarrow> nat \<Rightarrow> obj list \<Rightarrow> obj list" where
  "shift_column off tmp c 0 a = a[0 := (a ! 0)[off := c]]"
| "shift_column off tmp c (Suc k) a =
     (if Suc k > tmp then shift_column off tmp c k (a[Suc k := (a ! Suc k)[off := a ! k ! off]])
      else a[Suc k := (a ! Suc k)[off := c]])"

definition insert_object :: "nat \<Rightarrow> obj list \<Rightarrow> nat \<Rightarrow> nat \<Rightarrow> obj list option" where
  "insert_object sz a tmp run =
     (if run < length a \<and> list_all (\<lambda>e. sz \<le> length e) (drop tmp (take (Suc run) a))
      then Some (fold (\<lambda>off a. shift_column off tmp (a ! run ! off) run a) (rev [0..<sz]) a) else None)"

section \<open>Partitioning\<close>

definition MAX_THRESH :: nat where
  "MAX_THRESH = 4"

text \<open>The size_t max_thresh, and the difference of two pointers in bytes before and after the
  conversion to size_t.\<close>

definition max_thresh :: "nat \<Rightarrow> nat" where
  "max_thresh sz = MAX_THRESH * sz mod 2 ^ 64"

definition ptr_diff :: "nat \<Rightarrow> nat \<Rightarrow> nat \<Rightarrow> int" where
  "ptr_diff sz p q = (int p - int q) * int sz"

definition size_t_diff :: "nat \<Rightarrow> nat \<Rightarrow> nat \<Rightarrow> nat" where
  "size_t_diff sz p q = nat (ptr_diff sz p q mod 2 ^ 64)"

definition STACK_SIZE :: nat where
  "STACK_SIZE = 8 * 8"

definition median_of_three :: "compar \<Rightarrow> nat \<Rightarrow> obj list \<Rightarrow> nat \<Rightarrow> nat \<Rightarrow> nat \<Rightarrow> obj list option" where
  "median_of_three cmp sz a lo mid hi = do {
     c \<leftarrow> compare_at cmp a mid lo;
     a \<leftarrow> (if c < 0 then SWAP sz a mid lo else Some a);
     c \<leftarrow> compare_at cmp a hi mid;
     if c < 0
     then do {
       a \<leftarrow> SWAP sz a mid hi;
       c \<leftarrow> compare_at cmp a mid lo;
       if c < 0 then SWAP sz a mid lo else Some a
     }
     else Some a
   }"

partial_function (option) scan_left :: "compar \<Rightarrow> obj list \<Rightarrow> nat \<Rightarrow> nat \<Rightarrow> nat option" where
  "scan_left cmp a mid left = do {
     c \<leftarrow> compare_at cmp a left mid;
     if c < 0 then scan_left cmp a mid (left + 1) else Some left
   }"

partial_function (option) scan_right :: "compar \<Rightarrow> obj list \<Rightarrow> nat \<Rightarrow> nat \<Rightarrow> nat option" where
  "scan_right cmp a mid right = do {
     c \<leftarrow> compare_at cmp a mid right;
     if c < 0 then do { right \<leftarrow> prev_obj right; scan_right cmp a mid right } else Some right
   }"

partial_function (option) collapse_walls ::
  "compar \<Rightarrow> nat \<Rightarrow> obj list \<Rightarrow> nat \<Rightarrow> nat \<Rightarrow> nat \<Rightarrow> (obj list \<times> nat \<times> nat) option" where
  "collapse_walls cmp sz a mid left right = do {
     left \<leftarrow> scan_left cmp a mid left;
     right \<leftarrow> scan_right cmp a mid right;
     if left < right
     then do {
       a \<leftarrow> SWAP sz a left right;
       let mid = (if mid = left then right else if mid = right then left else mid);
       let left = left + 1;
       right \<leftarrow> prev_obj right;
       if left \<le> right then collapse_walls cmp sz a mid left right else Some (a, left, right)
     }
     else if left = right then do { right \<leftarrow> prev_obj right; Some (a, left + 1, right) }
     else if left \<le> right then collapse_walls cmp sz a mid left right else Some (a, left, right)
   }"

definition PUSH :: "nat \<times> nat \<Rightarrow> (nat \<times> nat) list \<Rightarrow> (nat \<times> nat) list option" where
  "PUSH e stack = (if length stack < STACK_SIZE then Some (e # stack) else None)"

text \<open>The stack starts with the entry (NULL, NULL), here (0, 0), which is popped last. The number of
  objects from lo to hi is taken with unsigned arithmetic, which is meaningless when hi is below lo.\<close>

partial_function (option) partition_loop ::
  "compar \<Rightarrow> nat \<Rightarrow> obj list \<Rightarrow> nat \<Rightarrow> nat \<Rightarrow> (nat \<times> nat) list \<Rightarrow> obj list option" where
  "partition_loop cmp sz a lo hi stack =
     (if stack \<noteq> []
      then if hi < lo then None
      else do {
        let mid = lo + (hi - lo) div 2;
        a \<leftarrow> median_of_three cmp sz a lo mid hi;
        right \<leftarrow> prev_obj hi;
        r \<leftarrow> collapse_walls cmp sz a mid (lo + 1) right;
        let a = fst r;
        let left = fst (snd r);
        let right = snd (snd r);
        if size_t_diff sz right lo \<le> max_thresh sz
        then if size_t_diff sz hi left \<le> max_thresh sz
             then partition_loop cmp sz a (fst (List.hd stack)) (snd (List.hd stack)) (tl stack)
             else partition_loop cmp sz a left hi stack
        else if size_t_diff sz hi left \<le> max_thresh sz
        then partition_loop cmp sz a lo right stack
        else if ptr_diff sz right lo > ptr_diff sz hi left
        then do { stack \<leftarrow> PUSH (lo, right) stack; partition_loop cmp sz a left hi stack }
        else do { stack \<leftarrow> PUSH (left, hi) stack; partition_loop cmp sz a lo right stack }
      }
      else Some a)"

section \<open>Insertion sort\<close>

definition find_smallest :: "compar \<Rightarrow> obj list \<Rightarrow> nat \<Rightarrow> nat option" where
  "find_smallest cmp a thresh =
     fold (\<lambda>run smallest. do {
         tmp \<leftarrow> smallest;
         c \<leftarrow> compare_at cmp a run tmp;
         Some (if c < 0 then run else tmp)
       }) [1..<thresh + 1] (Some 0)"

text \<open>The place of the object at run is found by the same downward scan.\<close>

partial_function (option) insertion_loop :: "compar \<Rightarrow> nat \<Rightarrow> obj list \<Rightarrow> nat \<Rightarrow> nat \<Rightarrow> obj list option" where
  "insertion_loop cmp sz a end_ptr run =
     (let run = run + 1 in
      if run \<le> end_ptr
      then do {
        tmp \<leftarrow> prev_obj run;
        tmp \<leftarrow> scan_right cmp a run tmp;
        let tmp = tmp + 1;
        a \<leftarrow> (if tmp \<noteq> run then insert_object sz a tmp run else Some a);
        insertion_loop cmp sz a end_ptr run
      }
      else Some a)"

definition quicksort :: "obj list \<Rightarrow> nat \<Rightarrow> nat \<Rightarrow> compar \<Rightarrow> obj list option" where
  "quicksort pbase total_elems sz cmp =
     (if total_elems = 0 then Some pbase
      else if sz = 0 then None
      else do {
        a \<leftarrow> (if total_elems > MAX_THRESH
             then do { stack \<leftarrow> PUSH (0, 0) []; partition_loop cmp sz pbase 0 (total_elems - 1) stack }
             else Some pbase);
        let end_ptr = total_elems - 1;
        let thresh = min end_ptr (max_thresh sz div sz);
        tmp \<leftarrow> find_smallest cmp a thresh;
        a \<leftarrow> (if tmp \<noteq> 0 then SWAP sz a tmp 0 else Some a);
        insertion_loop cmp sz a end_ptr 1
      })"

section \<open>The byte loops move whole objects\<close>

definition objects :: "nat \<Rightarrow> obj list \<Rightarrow> bool" where
  "objects sz a \<longleftrightarrow> (\<forall>e\<in>set a. length e = sz)"

lemma objects_nth: "objects sz a \<Longrightarrow> i < length a \<Longrightarrow> length (a ! i) = sz"
  by (simp add: objects_def)

lemma objects_update: "objects sz a \<Longrightarrow> length e = sz \<Longrightarrow> objects sz (a[i := e])"
  using set_update_subset_insert [of a i e] by (auto simp: objects_def)

lemma SWAP_prefix:
  assumes "i < length a" "j < length a" "length (a ! i) = sz" "length (a ! j) = sz" "m \<le> sz"
  shows "fold (SWAP_byte i j) [0..<m] a =
    a[i := take m (a ! j) @ drop m (a ! i), j := take m (a ! i) @ drop m (a ! j)]"
  using assms(5)
proof (induction m)
  case 0
  then show ?case
    by simp
next
  case (Suc m)
  let ?x = "a ! i" and ?y = "a ! j"
  have upd: "(take m u @ drop m v)[m := u ! m] = take (Suc m) u @ drop (Suc m) v"
    if "length u = sz" "length v = sz" for u v :: obj
    using that Suc.prems by (intro nth_equalityI) (auto simp: nth_append nth_list_update min_def not_less)
  have nth: "(take m u @ drop m v) ! m = v ! m" if "length u = sz" "length v = sz" for u v :: obj
    using that Suc.prems by (simp add: nth_append)
  show ?case
  proof (cases "i = j")
    case True
    then show ?thesis
      using Suc assms by (simp add: SWAP_byte_def Let_def nth upd)
  next
    case False
    then have "a[i := p, j := q, i := u, j := v] = a[i := u, j := v]" for p q u v
      using assms(1,2) by - (rule nth_equalityI, simp_all add: nth_list_update)
    then show ?thesis
      using False Suc assms by (simp add: SWAP_byte_def Let_def nth upd)
  qed
qed

lemma SWAP_swaps:
  assumes "0 < sz" "objects sz a" "i < length a" "j < length a"
  shows "SWAP sz a i j = Some (a[i := a ! j, j := a ! i])"
  using SWAP_prefix [of i a j sz sz] assms by (simp add: SWAP_def objects_nth)

lemma compare_at_in [simp]: "i < length a \<Longrightarrow> j < length a \<Longrightarrow> compare_at cmp a i j = Some (cmp (a ! i) (a ! j))"
  by (simp add: compare_at_def)

lemma prev_obj_pos [simp]: "0 < i \<Longrightarrow> prev_obj i = Some (i - 1)"
  by (simp add: prev_obj_def)

lemma shift_column_nth:
  assumes "tmp \<le> k" "k < length a" "m < length a"
  shows "shift_column off tmp c k a ! m =
    (if m = tmp then (a ! tmp)[off := c] else if tmp < m \<and> m \<le> k then (a ! m)[off := a ! (m - 1) ! off] else a ! m)"
  using assms
proof (induction k arbitrary: a)
  case (Suc k)
  then show ?case
    by (cases "tmp = Suc k") (auto simp: nth_list_update le_Suc_eq)
qed (auto simp: nth_list_update)

lemma length_shift_column [simp]: "length (shift_column off tmp c k a) = length a"
  by (induction k arbitrary: a) auto

lemma length_columns: "length (fold (\<lambda>off a. shift_column off tmp (a ! run ! off) run a) offs a) = length a"
  by (induction offs arbitrary: a) auto

text \<open>After the columns from \<open>sz - 1\<close> down to \<open>m\<close> the objects have the bytes from \<open>m\<close> on of their
  predecessors, and the object at tmp those of the object that was at run.\<close>

lemma insert_columns:
  assumes "objects sz a" "tmp \<le> run" "run < length a" "m \<le> sz" "i < length a"
  shows "fold (\<lambda>off a. shift_column off tmp (a ! run ! off) run a) (rev [m..<sz]) a ! i =
    take m (a ! i) @ drop m (if i = tmp then a ! run else if tmp < i \<and> i \<le> run then a ! (i - 1) else a ! i)"
    (is "?f m ! i = _ @ drop m (?src i)")
  using assms(4,5)
proof (induction "sz - m" arbitrary: m i)
  case 0
  then have "m = sz"
    by simp
  then show ?case
    using 0 assms by (simp add: objects_nth)
next
  case (Suc d)
  then have m: "m < sz"
    by simp
  then have "rev [m..<sz] = rev [Suc m..<sz] @ [m]"
    by (simp add: upt_conv_Cons)
  then have f: "?f m = shift_column m tmp (?f (Suc m) ! run ! m) run (?f (Suc m))"
    by simp
  have len: "length (?f q) = length a" for q
    by (rule length_columns)
  have IH: "?f (Suc m) ! q = take (Suc m) (a ! q) @ drop (Suc m) (?src q)" if "q < length a" for q
    using Suc.hyps(1) [of "Suc m" q] Suc.hyps(2) that m by simp
  have byte: "?f (Suc m) ! q ! m = a ! q ! m" if "q < length a" for q
    using IH [OF that] objects_nth [OF assms(1) that] m by (simp add: nth_append)
  have upd: "(take (Suc m) u @ drop (Suc m) v)[m := v ! m] = take m u @ drop m v" if "length u = sz" "length v = sz" for u v :: obj
    using that m by (intro nth_equalityI) (auto simp: nth_append nth_list_update min_def not_less le_Suc_eq)
  have src: "length (?src i) = sz" "length (a ! i) = sz"
    using objects_nth [OF assms(1)] assms(2,3) Suc.prems by auto
  show ?case
    using Suc.prems m assms(2,3) byte [of run] byte [of "i - 1"] IH [of i] upd [OF src(2,1)]
    unfolding f by (subst shift_column_nth) (auto simp: len Cons_nth_drop_Suc [symmetric] take_Suc_conv_app_nth src)
qed


lemma insert_object_rotates:
  assumes "objects sz a" "tmp \<le> run" "run < length a"
  shows "insert_object sz a tmp run = Some (take tmp a @ a ! run # drop tmp (take run a) @ drop (Suc run) a)"
proof -
  let ?b = "fold (\<lambda>off a. shift_column off tmp (a ! run ! off) run a) (rev [0..<sz]) a"
  have "?b = take tmp a @ a ! run # drop tmp (take run a) @ drop (Suc run) a" (is "_ = ?c")
  proof (rule nth_equalityI)
    show "length ?b = length ?c"
      using assms(2,3) by (simp add: length_columns)
    fix i assume "i < length ?b"
    then have i: "i < length a"
      by (simp add: length_columns)
    have "?b ! i = (if i = tmp then a ! run else if tmp < i \<and> i \<le> run then a ! (i - 1) else a ! i)"
      using insert_columns [OF assms _ i, of 0] by simp
    then show "?b ! i = ?c ! i"
      using i assms(2,3) by (auto simp: nth_append nth_Cons' min_def)
  qed
  moreover have "list_all (\<lambda>e. sz \<le> length e) (drop tmp (take (Suc run) a))"
    using assms(1) by (auto simp: list_all_iff objects_def dest!: in_set_dropD in_set_takeD)
  ultimately show ?thesis
    using assms(3) by (simp add: insert_object_def)
qed

section \<open>Order and rearrangement\<close>

text \<open>What qsort requires of the comparison function.\<close>

definition orders :: "compar \<Rightarrow> bool" where
  "orders cmp \<longleftrightarrow> (\<forall>x y. cmp x y < 0 \<longleftrightarrow> cmp y x > 0) \<and> (\<forall>x y z. cmp x y \<le> 0 \<longrightarrow> cmp y z \<le> 0 \<longrightarrow> cmp x z \<le> 0)"

definition le_by :: "compar \<Rightarrow> obj \<Rightarrow> obj \<Rightarrow> bool" where
  "le_by cmp x y \<longleftrightarrow> (orders cmp \<longrightarrow> cmp x y \<le> 0)"

lemma le_by_eq: "orders cmp \<Longrightarrow> le_by cmp = (\<lambda>x y. cmp x y \<le> 0)"
  by (simp add: le_by_def fun_eq_iff)

interpretation cmp_order: total_preorder "le_by cmp" for cmp
  by unfold_locales (auto simp: le_by_def orders_def not_le less_imp_le)

lemma orders_less: "orders cmp \<Longrightarrow> cmp x y < 0 \<longleftrightarrow> \<not> cmp y x \<le> 0"
  by (auto simp: orders_def not_le)

lemma orders_trans: "orders cmp \<Longrightarrow> cmp x y \<le> 0 \<Longrightarrow> cmp y z \<le> 0 \<Longrightarrow> cmp x z \<le> 0"
  by (auto simp: orders_def)

lemma orders_refl: "orders cmp \<Longrightarrow> cmp x x \<le> 0"
  unfolding orders_def by (metis linorder_not_less order_less_asym')

text \<open>\<open>rearranged lo hi a a'\<close>: only objects between \<open>lo\<close> and \<open>hi\<close> have changed places.\<close>

definition rearranged :: "nat \<Rightarrow> nat \<Rightarrow> obj list \<Rightarrow> obj list \<Rightarrow> bool" where
  "rearranged lo hi a a' \<longleftrightarrow> mset a' = mset a \<and> (\<forall>k<length a. k < lo \<or> hi < k \<longrightarrow> a' ! k = a ! k)"

lemma rearranged_length: "rearranged lo hi a a' \<Longrightarrow> length a' = length a"
  unfolding rearranged_def by (metis size_mset)

lemma rearranged_objects: "rearranged lo hi a a' \<Longrightarrow> objects sz a' = objects sz a"
  unfolding rearranged_def objects_def by (metis set_mset_mset)

lemma rearranged_refl [simp]: "rearranged lo hi a a"
  by (simp add: rearranged_def)

lemma rearranged_trans: "rearranged lo hi a a' \<Longrightarrow> rearranged lo hi a' a'' \<Longrightarrow> rearranged lo hi a a''"
  using rearranged_length [of lo hi a a'] by (auto simp: rearranged_def)

lemma rearranged_swap:
  assumes "i < length a" "j < length a" "lo \<le> i" "i \<le> hi" "lo \<le> j" "j \<le> hi"
  shows "rearranged lo hi a (a[i := a ! j, j := a ! i])"
  using assms mset_swap [OF assms(2,1)] by (auto simp: rearranged_def nth_list_update)

text \<open>The objects within the range are the same ones.\<close>

lemma rearranged_within:
  assumes "rearranged lo hi a a'" "lo \<le> k" "k \<le> hi" "hi < length a"
  shows "\<exists>m. lo \<le> m \<and> m \<le> hi \<and> a' ! k = a ! m"
proof -
  have len: "length a' = length a"
    by (rule rearranged_length [OF assms(1)])
  have parts: "x = take lo x @ take (Suc hi - lo) (drop lo x) @ drop (Suc hi) x" if "length x = length a" for x :: "obj list"
    using assms(2-4) that by (metis append_take_drop_id drop_drop le_SucI le_add_diff_inverse2 order_trans)
  have "take lo a' = take lo a" "drop (Suc hi) a' = drop (Suc hi) a"
    using assms len by (auto simp: rearranged_def intro!: nth_equalityI)
  moreover have "mset a' = mset a"
    using assms(1) by (simp add: rearranged_def)
  ultimately have "mset (take (Suc hi - lo) (drop lo a')) = mset (take (Suc hi - lo) (drop lo a))"
    using parts [of a] parts [OF len] by (metis add_left_cancel add_right_cancel mset_append)
  moreover have "take (Suc hi - lo) (drop lo a') ! (k - lo) = a' ! k" "k - lo < length (take (Suc hi - lo) (drop lo a'))"
    using assms(2-4) len by auto
  ultimately have "a' ! k \<in> set (take (Suc hi - lo) (drop lo a))"
    by (metis nth_mem set_mset_mset)
  then obtain q where "q < Suc hi - lo" "a' ! k = a ! (lo + q)"
    using assms(4) by (auto simp: in_set_conv_nth)
  then show ?thesis
    by (intro exI [of _ "lo + q"]) auto
qed

section \<open>Partitioning\<close>

lemma scan_left_stops:
  "l \<le> u \<Longrightarrow> u < length a \<Longrightarrow> mid < length a \<Longrightarrow> \<not> cmp (a ! u) (a ! mid) < 0 \<Longrightarrow>
    \<exists>l'. scan_left cmp a mid l = Some l' \<and> l \<le> l' \<and> l' \<le> u \<and> (\<forall>k. l \<le> k \<longrightarrow> k < l' \<longrightarrow> cmp (a ! k) (a ! mid) < 0) \<and>
      \<not> cmp (a ! l') (a ! mid) < 0"
proof (induction "u - l" arbitrary: l)
  case 0
  then show ?case
    by (simp add: scan_left.simps)
next
  case (Suc d)
  show ?case
  proof (cases "cmp (a ! l) (a ! mid) < 0")
    case True
    have "d = u - (l + 1)" "l + 1 \<le> u"
      using Suc.hyps(2) by auto
    then obtain l' where l': "scan_left cmp a mid (l + 1) = Some l'" "l + 1 \<le> l'" "l' \<le> u"
        "\<forall>k. l + 1 \<le> k \<longrightarrow> k < l' \<longrightarrow> cmp (a ! k) (a ! mid) < 0" "\<not> cmp (a ! l') (a ! mid) < 0"
      using Suc.hyps(1) Suc.prems by blast
    have "cmp (a ! k) (a ! mid) < 0" if "l \<le> k" "k < l'" for k
      using l'(4) that True by (cases "k = l") auto
    then show ?thesis
      using True l' Suc.prems by (subst scan_left.simps) auto
  qed (use Suc.prems in \<open>simp add: scan_left.simps\<close>)
qed

lemma scan_right_stops:
  "u \<le> r \<Longrightarrow> r < length a \<Longrightarrow> mid < length a \<Longrightarrow> \<not> cmp (a ! mid) (a ! u) < 0 \<Longrightarrow>
    \<exists>r'. scan_right cmp a mid r = Some r' \<and> r' \<le> r \<and> u \<le> r' \<and> (\<forall>k. r' < k \<longrightarrow> k \<le> r \<longrightarrow> cmp (a ! mid) (a ! k) < 0) \<and>
      \<not> cmp (a ! mid) (a ! r') < 0"
proof (induction "r - u" arbitrary: r)
  case 0
  then show ?case
    by (simp add: scan_right.simps)
next
  case (Suc d)
  show ?case
  proof (cases "cmp (a ! mid) (a ! r) < 0")
    case True
    have "d = r - 1 - u" "u \<le> r - 1"
      using Suc.hyps(2) by auto
    then obtain r' where r': "scan_right cmp a mid (r - 1) = Some r'" "r' \<le> r - 1" "u \<le> r'"
        "\<forall>k. r' < k \<longrightarrow> k \<le> r - 1 \<longrightarrow> cmp (a ! mid) (a ! k) < 0" "\<not> cmp (a ! mid) (a ! r') < 0"
      using Suc.hyps(1) [of "r - 1"] Suc.prems by fastforce
    have "cmp (a ! mid) (a ! k) < 0" if "r' < k" "k \<le> r" for k
      using r'(4) that True by (cases "k = r") auto
    then show ?thesis
      using True r' Suc.prems Suc.hyps(2) by (subst scan_right.simps) auto
  qed (use Suc.prems in \<open>simp add: scan_right.simps\<close>)
qed

text \<open>\<open>split_at p lo hi l r a\<close>: left of \<open>l\<close> nothing exceeds the pivot, right of \<open>r\<close> nothing is below it.\<close>

definition split_at :: "compar \<Rightarrow> obj \<Rightarrow> nat \<Rightarrow> nat \<Rightarrow> nat \<Rightarrow> nat \<Rightarrow> obj list \<Rightarrow> bool" where
  "split_at cmp p lo hi l r a \<longleftrightarrow> (\<forall>k. lo \<le> k \<longrightarrow> k < l \<longrightarrow> cmp (a ! k) p \<le> 0) \<and> (\<forall>k. r < k \<longrightarrow> k \<le> hi \<longrightarrow> cmp p (a ! k) \<le> 0)"

lemma collapse_walls_splits:
  assumes ord: "orders cmp" and sz: "0 < sz"
  shows "objects sz a \<Longrightarrow> hi < length a \<Longrightarrow> lo < l \<Longrightarrow> l \<le> r + 1 \<Longrightarrow> r < hi \<Longrightarrow> lo \<le> mid \<Longrightarrow> mid \<le> hi \<Longrightarrow> a ! mid = p \<Longrightarrow>
    split_at cmp p lo hi l r a \<Longrightarrow>
    \<exists>a' l' r'. collapse_walls cmp sz a mid l r = Some (a', l', r') \<and> rearranged lo hi a a' \<and> lo \<le> r' \<and> r' < l' \<and> l' \<le> hi \<and>
      split_at cmp p lo hi (r' + 1) r' a'"
proof (induction "r + 1 - l" arbitrary: a l r mid rule: less_induct)
  case less
  note prems = less.prems(1-8) and split = less.prems(9) [unfolded split_at_def]
  have "\<not> cmp (a ! (r + 1)) (a ! mid) < 0"
    using split prems(5,8) orders_less [OF ord] by simp
  then obtain l' where l': "scan_left cmp a mid l = Some l'" "l \<le> l'" "l' \<le> r + 1"
      "\<And>k. l \<le> k \<Longrightarrow> k < l' \<Longrightarrow> cmp (a ! k) p < 0" "\<not> cmp (a ! l') p < 0"
    using scan_left_stops [of l "r + 1" a mid cmp] prems by auto
  have low: "cmp (a ! k) p \<le> 0" if "lo \<le> k" "k < l'" for k
    using split l'(4) that by (cases "k < l") (auto simp: less_imp_le)
  have "\<not> cmp (a ! mid) (a ! (l' - 1)) < 0"
    using low [of "l' - 1"] l'(2) prems(3,8) orders_less [OF ord] by simp
  moreover have "l' - 1 \<le> r"
    using l'(3) by simp
  ultimately obtain r' where r': "scan_right cmp a mid r = Some r'" "r' \<le> r" "l' - 1 \<le> r'"
      "\<And>k. r' < k \<Longrightarrow> k \<le> r \<Longrightarrow> cmp p (a ! k) < 0" "\<not> cmp p (a ! r') < 0"
    using scan_right_stops [of "l' - 1" r a mid cmp] prems by auto
  have high: "cmp p (a ! k) \<le> 0" if "r' < k" "k \<le> hi" for k
    using split r'(4) that by (cases "r < k") (auto simp: less_imp_le)
  have ends: "cmp p (a ! l') \<le> 0" "cmp (a ! r') p \<le> 0"
    using l'(5) r'(5) orders_less [OF ord] by auto
  have in_range: "l' < length a" "r' < length a" "lo \<le> l'" "l' \<le> hi" "lo \<le> r'" "r' \<le> hi"
    using prems l'(2,3) r'(2,3) by auto
  consider "l' < r'" | "l' = r'" | "r' < l'" "r' = l' - 1"
    using r'(3) by linarith
  then show ?case
  proof cases
    case 1
    define b where "b = a[l' := a ! r', r' := a ! l']"
    define mid' where "mid' = (if mid = l' then r' else if mid = r' then l' else mid)"
    have swap: "SWAP sz a l' r' = Some b"
      using SWAP_swaps [OF sz prems(1)] in_range by (simp add: b_def)
    have re: "rearranged lo hi a b"
      using rearranged_swap in_range by (simp add: b_def)
    have b: "objects sz b" "length b = length a"
      using rearranged_objects [OF re] rearranged_length [OF re] prems(1) by auto
    have split_b: "split_at cmp p lo hi (l' + 1) (r' - 1) b"
      using low high ends in_range 1 by (auto simp: split_at_def b_def nth_list_update less_Suc_eq)
    have mid': "lo \<le> mid'" "mid' \<le> hi" "b ! mid' = p"
      using prems in_range 1 by (auto simp: mid'_def b_def nth_list_update)
    have step: "collapse_walls cmp sz a mid l r =
        (if l' + 1 \<le> r' - 1 then collapse_walls cmp sz b mid' (l' + 1) (r' - 1) else Some (b, l' + 1, r' - 1))"
      using l'(1) r'(1) 1 swap by (subst collapse_walls.simps) (simp add: Let_def mid'_def)
    show ?thesis
    proof (cases "l' + 1 \<le> r' - 1")
      case True
      have "r' - 1 + 1 - (l' + 1) < r + 1 - l"
        using 1 l'(2) r'(2) prems(4) by auto
      moreover have "hi < length b" "lo < l' + 1" "l' + 1 \<le> r' - 1 + 1" "r' - 1 < hi"
        using b(2) prems in_range True by auto
      ultimately obtain a' l2 r2 where
        "collapse_walls cmp sz b mid' (l' + 1) (r' - 1) = Some (a', l2, r2)" "rearranged lo hi b a'" "lo \<le> r2" "r2 < l2" "l2 \<le> hi"
        "split_at cmp p lo hi (r2 + 1) r2 a'"
        using less.hyps [OF _ b(1) _ _ _ _ mid' split_b] by blast
      then show ?thesis
        using step True rearranged_trans [OF re] by auto
    next
      case False
      then have "r' - 1 + 1 = l' + 1"
        using 1 by simp
      then show ?thesis
        using step False re split_b in_range 1 by auto
    qed
  next
    case 2
    then have "collapse_walls cmp sz a mid l r = Some (a, l' + 1, r' - 1)"
      using l'(1,2) r'(1) prems(3) 2 by (subst collapse_walls.simps) simp
    moreover have "split_at cmp p lo hi (r' - 1 + 1) (r' - 1) a"
      unfolding split_at_def
    proof (intro conjI allI impI)
      fix k assume "lo \<le> k" "k < r' - 1 + 1"
      then show "cmp (a ! k) p \<le> 0"
        using low [of k] 2 prems(3) l'(2) by simp
    next
      fix k assume "r' - 1 < k" "k \<le> hi"
      then show "cmp p (a ! k) \<le> 0"
        using high [of k] ends(1) 2 by (cases "k = r'") auto
    qed
    ultimately show ?thesis
      using 2 prems l'(2) r'(2) by auto
  next
    case 3
    then have "collapse_walls cmp sz a mid l r = Some (a, l', r')"
      using l'(1) r'(1) by (subst collapse_walls.simps) simp
    moreover have "split_at cmp p lo hi (r' + 1) r' a"
      using low high 3 by (auto simp: split_at_def)
    ultimately show ?thesis
      using 3 in_range by auto
  qed
qed

text \<open>An exchange of two objects that is done when the first is below the second.\<close>

definition exchanged :: "compar \<Rightarrow> obj list \<Rightarrow> nat \<Rightarrow> nat \<Rightarrow> nat \<Rightarrow> nat \<Rightarrow> obj list" where
  "exchanged cmp a x y i j = (if cmp (a ! x) (a ! y) < 0 then a[i := a ! j, j := a ! i] else a)"

lemma exchanged_rearranged:
  assumes "objects sz a" "hi < length a" "lo \<le> i" "i \<le> hi" "lo \<le> j" "j \<le> hi"
  shows "rearranged lo hi a (exchanged cmp a x y i j)" "objects sz (exchanged cmp a x y i j)"
    "length (exchanged cmp a x y i j) = length a"
proof -
  show re: "rearranged lo hi a (exchanged cmp a x y i j)"
    using assms rearranged_swap [of i a j lo hi] by (simp add: exchanged_def)
  show "objects sz (exchanged cmp a x y i j)" "length (exchanged cmp a x y i j) = length a"
    using rearranged_objects [OF re] rearranged_length [OF re] assms(1) by simp_all
qed

lemma SWAP_exchanged:
  assumes "0 < sz" "objects sz a" "i < length a" "j < length a"
  shows "(if cmp (a ! x) (a ! y) < 0 then SWAP sz a i j else Some a) = Some (exchanged cmp a x y i j)"
  using assms by (simp add: exchanged_def SWAP_swaps)

lemma median_of_three_orders:
  assumes ord: "orders cmp" and sz: "0 < sz" and a: "objects sz a" "hi < length a" "lo < mid" "mid < hi"
  shows "\<exists>a'. median_of_three cmp sz a lo mid hi = Some a' \<and> rearranged lo hi a a' \<and>
    cmp (a' ! lo) (a' ! mid) \<le> 0 \<and> cmp (a' ! mid) (a' ! hi) \<le> 0"
proof -
  define b where "b = exchanged cmp a mid lo mid lo"
  define c where "c = exchanged cmp b hi mid mid hi"
  define d where "d = (if cmp (b ! hi) (b ! mid) < 0 then exchanged cmp c mid lo mid lo else c)"
  note b = exchanged_rearranged [OF a(1,2), of lo mid lo cmp mid lo, folded b_def]
  have b_obj: "rearranged lo hi a b" "objects sz b" "length b = length a"
    using b a(3,4) by auto
  note c = exchanged_rearranged [OF b_obj(2), of hi lo mid hi cmp hi mid, folded c_def]
  have c_obj: "rearranged lo hi b c" "objects sz c" "length c = length a"
    using c a b_obj(3) by auto
  have d_obj: "rearranged lo hi c d"
    using exchanged_rearranged(1) [OF c_obj(2), of hi lo mid lo cmp mid lo] a c_obj(3) by (simp add: d_def)
  have lo: "cmp (b ! lo) (b ! mid) \<le> 0"
    using a orders_less [OF ord, of "a ! mid" "a ! lo"] orders_less [OF ord, of "a ! lo" "a ! mid"]
    by (auto simp: b_def exchanged_def nth_list_update)
  have hi: "cmp (c ! mid) (c ! hi) \<le> 0"
    using a b_obj orders_less [OF ord, of "b ! hi" "b ! mid"] orders_less [OF ord, of "b ! mid" "b ! hi"]
    by (auto simp: c_def exchanged_def nth_list_update)
  have lohi: "cmp (c ! lo) (c ! hi) \<le> 0"
    using a b_obj lo hi orders_trans [OF ord, of "b ! lo" "b ! mid" "b ! hi"] by (auto simp: c_def exchanged_def nth_list_update)
  have "cmp (d ! lo) (d ! mid) \<le> 0"
    using a c_obj lo orders_less [OF ord, of "c ! mid" "c ! lo"] orders_less [OF ord, of "c ! lo" "c ! mid"]
    by (auto simp: d_def c_def [unfolded exchanged_def] exchanged_def nth_list_update)
  moreover have "cmp (d ! mid) (d ! hi) \<le> 0"
    using a c_obj hi lohi by (auto simp: d_def exchanged_def nth_list_update)
  moreover have "rearranged lo hi a d"
    by (rule rearranged_trans [OF b_obj(1) rearranged_trans [OF c_obj(1) d_obj]])
  moreover have "median_of_three cmp sz a lo mid hi = Some d"
  proof -
    have "(if cmp (a ! mid) (a ! lo) < 0 then SWAP sz a mid lo else Some a) = Some b"
      "(if cmp (c ! mid) (c ! lo) < 0 then SWAP sz c mid lo else Some c) = Some (exchanged cmp c mid lo mid lo)"
      using SWAP_exchanged [OF sz a(1)] SWAP_exchanged [OF sz c_obj(2)] a c_obj(3) by (simp_all add: b_def)
    moreover have "SWAP sz b mid hi = Some c" if "cmp (b ! hi) (b ! mid) < 0"
      using that SWAP_swaps [OF sz b_obj(2), of mid hi] a b_obj(3) by (simp add: c_def exchanged_def)
    moreover have "c = b" if "\<not> cmp (b ! hi) (b ! mid) < 0"
      using that by (simp add: c_def exchanged_def)
    ultimately show ?thesis
      using a b_obj(3) c_obj(3) by (simp add: median_of_three_def d_def)
  qed
  ultimately show ?thesis
    by blast
qed

text \<open>One round: the segment falls into two parts, ordered between each other.\<close>

lemma partition_round:
  assumes ord: "orders cmp" and sz: "0 < sz" and a: "objects sz a" "hi < length a" "lo + 4 \<le> hi"
  defines "mid \<equiv> lo + (hi - lo) div 2"
  shows "\<exists>b a' l r. median_of_three cmp sz a lo mid hi = Some b \<and>
    collapse_walls cmp sz b mid (lo + 1) (hi - 1) = Some (a', l, r) \<and>
    rearranged lo hi a a' \<and> lo \<le> r \<and> r < l \<and> l \<le> hi \<and>
    (\<forall>i k. lo \<le> i \<longrightarrow> i \<le> r \<longrightarrow> r < k \<longrightarrow> k \<le> hi \<longrightarrow> cmp (a' ! i) (a' ! k) \<le> 0)"
proof -
  have mid: "lo < mid" "mid < hi"
    using a(3) by (auto simp: mid_def)
  obtain b where m: "median_of_three cmp sz a lo mid hi = Some b" "rearranged lo hi a b"
      "cmp (b ! lo) (b ! mid) \<le> 0" "cmp (b ! mid) (b ! hi) \<le> 0"
    using median_of_three_orders [OF ord sz a(1,2) mid] by blast
  have b: "objects sz b" "hi < length b"
    using rearranged_objects [OF m(2)] rearranged_length [OF m(2)] a(1,2) by simp_all
  have "split_at cmp (b ! mid) lo hi (lo + 1) (hi - 1) b"
    unfolding split_at_def
  proof (intro conjI allI impI)
    fix k assume "lo \<le> k" "k < lo + 1"
    then have "k = lo"
      by linarith
    then show "cmp (b ! k) (b ! mid) \<le> 0"
      using m(3) by simp
  next
    fix k assume "hi - 1 < k" "k \<le> hi"
    then have "k = hi"
      by linarith
    then show "cmp (b ! mid) (b ! k) \<le> 0"
      using m(4) by simp
  qed
  then obtain a' l r where r: "collapse_walls cmp sz b mid (lo + 1) (hi - 1) = Some (a', l, r)" "rearranged lo hi b a'" "lo \<le> r" "r < l"
      "l \<le> hi" "split_at cmp (b ! mid) lo hi (r + 1) r a'"
    using collapse_walls_splits [OF ord sz b, of lo "lo + 1" "hi - 1" mid] mid by auto
  have "cmp (a' ! i) (a' ! k) \<le> 0" if "lo \<le> i" "i \<le> r" "r < k" "k \<le> hi" for i k
    using r(6) that orders_trans [OF ord, of "a' ! i" "b ! mid" "a' ! k"] by (simp add: split_at_def)
  then show ?thesis
    using m(1) r rearranged_trans [OF m(2)] by blast
qed

section \<open>The stack of segments\<close>

text \<open>\<open>front cmp a segs\<close>: some first part of the array is below the rest; it has at most five objects
  or is a segment still to be partitioned, and all other such segments lie behind it. At the end
  this puts a smallest object among the first five.\<close>

definition covers :: "nat \<Rightarrow> (nat \<times> nat) list \<Rightarrow> bool" where
  "covers h segs \<longleftrightarrow> h \<le> 4 \<and> (\<forall>g\<in>set segs. h < fst g) \<or>
     (\<exists>xs ys. segs = xs @ (0, h) # ys \<and> (\<forall>g\<in>set (xs @ ys). h < fst g))"

lemma covers_append:
  assumes "covers h S" "\<And>g. g \<in> set Q \<Longrightarrow> h < fst g"
  shows "covers h (Q @ S)"
  using assms(1) unfolding covers_def
proof (elim disjE exE conjE)
  fix xs ys assume "S = xs @ (0, h) # ys" "\<forall>g\<in>set (xs @ ys). h < fst g"
  then have "Q @ S = (Q @ xs) @ (0, h) # ys \<and> (\<forall>g\<in>set ((Q @ xs) @ ys). h < fst g)"
    using assms(2) by auto
  then show "h \<le> 4 \<and> (\<forall>g\<in>set (Q @ S). h < fst g) \<or>
      (\<exists>xs ys. Q @ S = xs @ (0, h) # ys \<and> (\<forall>g\<in>set (xs @ ys). h < fst g))"
    by blast
qed (use assms(2) in auto)

lemma covers_tl:
  assumes "covers h ((lo, hi) # S)" "h < lo"
  shows "covers h S"
  using assms(1) unfolding covers_def
proof (elim disjE exE conjE)
  fix xs ys assume xs: "(lo, hi) # S = xs @ (0, h) # ys" "\<forall>g\<in>set (xs @ ys). h < fst g"
  then obtain zs where "xs = (lo, hi) # zs"
    using assms(2) by (cases xs) auto
  then have "S = zs @ (0, h) # ys \<and> (\<forall>g\<in>set (zs @ ys). h < fst g)"
    using xs by auto
  then show "h \<le> 4 \<and> (\<forall>g\<in>set S. h < fst g) \<or> (\<exists>xs ys. S = xs @ (0, h) # ys \<and> (\<forall>g\<in>set (xs @ ys). h < fst g))"
    by blast
qed simp

lemma covers_hd:
  assumes "covers h ((lo, hi) # S)" "\<not> h < lo"
  shows "lo = 0" "h = hi" "\<forall>g\<in>set S. hi < fst g"
  using assms by (auto simp: covers_def Cons_eq_append_conv)

definition front :: "compar \<Rightarrow> obj list \<Rightarrow> (nat \<times> nat) list \<Rightarrow> bool" where
  "front cmp a segs \<longleftrightarrow> (\<exists>h<length a. (\<forall>i k. i \<le> h \<longrightarrow> h < k \<longrightarrow> k < length a \<longrightarrow> cmp (a ! i) (a ! k) \<le> 0) \<and>
     covers h segs)"

lemma front_step:
  assumes front: "front cmp a ((lo, hi) # S)" and re: "rearranged lo hi a a'" and hi: "hi < length a" "lo \<le> r" "r < l" "l \<le> hi"
    and parts: "\<forall>i k. lo \<le> i \<longrightarrow> i \<le> r \<longrightarrow> r < k \<longrightarrow> k \<le> hi \<longrightarrow> cmp (a' ! i) (a' ! k) \<le> 0"
    and Q: "set Q \<subseteq> {(lo, r), (l, hi)}" "distinct Q" "r - lo \<le> 4 \<or> (lo, r) \<in> set Q"
  shows "front cmp a' (Q @ S)"
proof -
  obtain h where h: "h < length a" "\<And>i k. i \<le> h \<Longrightarrow> h < k \<Longrightarrow> k < length a \<Longrightarrow> cmp (a ! i) (a ! k) \<le> 0"
    and cov: "covers h ((lo, hi) # S)"
    using front unfolding front_def by blast
  have len: "length a' = length a"
    by (rule rearranged_length [OF re])
  have out: "a' ! k = a ! k" if "k < length a" "k < lo \<or> hi < k" for k
    using re that by (auto simp: rearranged_def)
  show ?thesis
  proof (cases "h < lo")
    case True
    have "cmp (a' ! i) (a' ! k) \<le> 0" if ik: "i \<le> h" "h < k" "k < length a" for i k
    proof (cases "lo \<le> k \<and> k \<le> hi")
      case True
      then obtain m where "lo \<le> m" "m \<le> hi" "a' ! k = a ! m"
        using rearranged_within [OF re] hi by blast
      then show ?thesis
        using h(2) [of i m] out [of i] ik \<open>h < lo\<close> hi(1) by auto
    next
      case False
      then show ?thesis
        using h(2) [of i k] out [of i] out [of k] ik True by auto
    qed
    moreover have "h < fst g" if "g \<in> set Q" for g
      using that Q(1) True hi by auto
    then have "covers h (Q @ S)"
      by (intro covers_append covers_tl [OF cov True]) auto
    ultimately show ?thesis
      using h(1) unfolding front_def len by blast
  next
    case False
    note at = covers_hd [OF cov False]
    have "cmp (a' ! i) (a' ! k) \<le> 0" if ik: "i \<le> r" "r < k" "k < length a" for i k
    proof (cases "k \<le> hi")
      case True
      then show ?thesis
        using parts ik at(1) by simp
    next
      case False
      obtain m where "m \<le> hi" "a' ! i = a ! m"
        using rearranged_within [OF re, of i] hi ik at(1) by auto
      then show ?thesis
        using h(2) [of m k] out [of k] False ik at(2) by simp
    qed
    moreover have "r < length a" "\<forall>g\<in>set S. r < fst g" "r < fst (l, hi)"
      using at(3) hi by (auto intro: less_trans)
    moreover have "covers r (Q @ S)"
    proof (cases "(lo, r) \<in> set Q")
      case True
      then obtain xs ys where xs: "Q = xs @ (lo, r) # ys"
        by (meson split_list)
      then have "\<forall>g\<in>set (xs @ ys). r < fst g"
        using Q(1,2) hi by auto
      then have "Q @ S = xs @ (0, r) # (ys @ S) \<and> (\<forall>g\<in>set (xs @ ys @ S). r < fst g)"
        using xs at(1) \<open>\<forall>g\<in>set S. r < fst g\<close> by auto
      then show ?thesis
        unfolding covers_def by blast
    next
      case False
      then have "\<forall>g\<in>set Q. r < fst g" "r \<le> 4"
        using Q(1,3) hi at(1) by auto
      then show ?thesis
        using \<open>\<forall>g\<in>set S. r < fst g\<close> by (auto simp: covers_def)
    qed
    ultimately show ?thesis
      unfolding front_def len by blast
  qed
qed

fun depth_ok :: "nat \<Rightarrow> (nat \<times> nat) list \<Rightarrow> bool" where
  "depth_ok n [] = True"
| "depth_ok n ((l, u) # segs) = ((u - l) * 2 ^ length segs \<le> n \<and> depth_ok n segs)"

definition segs_ok :: "nat \<Rightarrow> (nat \<times> nat) list \<Rightarrow> bool" where
  "segs_ok n segs \<longleftrightarrow> (\<forall>(l, u)\<in>set segs. l + 4 \<le> u \<and> u < n) \<and> depth_ok n segs"

text \<open>The stack never needs more than STACK_SIZE entries.\<close>

lemma depth_bound:
  assumes "segs_ok n ((lo, hi) # segs)" "n < 2 ^ 64"
  shows "length segs + 1 < STACK_SIZE"
proof -
  have "4 * 2 ^ length segs \<le> (hi - lo) * 2 ^ length segs" "(hi - lo) * 2 ^ length segs \<le> n"
    using assms(1) by (auto simp: segs_ok_def)
  then have "4 * 2 ^ length segs < (2 :: nat) ^ 64"
    using assms(2) by linarith
  then have "(2 :: nat) ^ (length segs + 2) < 2 ^ 64"
    by (simp add: power_add)
  then have "length segs + 2 < 64"
    by (simp only: power_strict_increasing_iff [of "2 :: nat"])
  then show ?thesis
    by (simp add: STACK_SIZE_def)
qed

lemma segs_ok_sub:
  assumes "segs_ok n ((lo, hi) # segs)" "lo \<le> l" "u \<le> hi" "l + 4 \<le> u"
  shows "segs_ok n ((l, u) # segs)"
proof -
  have "(u - l) * 2 ^ length segs \<le> (hi - lo) * 2 ^ length segs"
    using assms(2,3) by simp
  also have "\<dots> \<le> n"
    using assms(1) by (simp add: segs_ok_def)
  finally show ?thesis
    using assms by (auto simp: segs_ok_def)
qed

lemma segs_ok_push:
  assumes "segs_ok n ((lo, hi) # segs)" "lo \<le> r" "r < l" "l \<le> hi"
    "(c, d) = (lo, r) \<and> (c', d') = (l, hi) \<or> (c, d) = (l, hi) \<and> (c', d') = (lo, r)" "d' - c' \<le> d - c" "c + 4 \<le> d" "c' + 4 \<le> d'"
  shows "segs_ok n ((c', d') # (c, d) # segs)"
proof -
  have "2 * (d' - c') \<le> hi - lo" "d - c \<le> hi - lo" "d < n" "d' < n"
    using assms by (auto simp: segs_ok_def)
  moreover have "(hi - lo) * 2 ^ length segs \<le> n"
    using assms(1) by (simp add: segs_ok_def)
  then have "2 * (d' - c') * 2 ^ length segs \<le> n" "(d - c) * 2 ^ length segs \<le> n"
    using calculation(1,2) by (meson le_trans mult_le_mono1)+
  ultimately show ?thesis
    using assms(1,7,8) by (auto simp: segs_ok_def mult.assoc mult.left_commute)
qed

definition work :: "(nat \<times> nat) list \<Rightarrow> nat" where
  "work segs = sum_list (map (\<lambda>(l, u). 2 * (u - l) + 1) segs)"

text \<open>In an array of less than 2^63 bytes the pointer arithmetic does not wrap around.\<close>

lemma ptr_diff_less:
  assumes "0 < sz" "q \<le> p" "q' \<le> p'"
  shows "ptr_diff sz p q < ptr_diff sz p' q' \<longleftrightarrow> p - q < p' - q'"
  using assms by (simp add: ptr_diff_def) linarith

lemma small_diff:
  assumes "0 < sz" "q \<le> p" "p < n" "4 < n" "n * sz < 2 ^ 63"
  shows "size_t_diff sz p q \<le> max_thresh sz \<longleftrightarrow> p - q \<le> 4"
proof -
  have "(p - q) * sz \<le> n * sz" "4 * sz \<le> n * sz"
    using assms by (intro mult_le_mono1; simp)+
  then have "(p - q) * sz < 2 ^ 63" "4 * sz < 2 ^ 63"
    using assms(5) le_less_trans by blast+
  then have "(p - q) * sz < 2 ^ 64" "4 * sz < 2 ^ 64"
    by simp_all
  moreover have "ptr_diff sz p q = int ((p - q) * sz)"
    using assms(2) by (simp add: ptr_diff_def of_nat_diff)
  then have "nat (ptr_diff sz p q) = (p - q) * sz" "0 \<le> ptr_diff sz p q"
    by (simp_all only: nat_int of_nat_0_le_iff)
  ultimately have "size_t_diff sz p q = (p - q) * sz" "max_thresh sz = 4 * sz"
    by (simp_all add: size_t_diff_def max_thresh_def MAX_THRESH_def nat_mod_distrib)
  then show ?thesis
    using assms(1) by simp
qed

lemma partition_loop_ends:
  assumes ord: "orders cmp" and n: "n * sz < 2 ^ 63" and sz: "0 < sz"
  shows "objects sz a \<Longrightarrow> length a = n \<Longrightarrow> segs_ok n ((lo, hi) # segs) \<Longrightarrow> front cmp a ((lo, hi) # segs) \<Longrightarrow>
    \<exists>a'. partition_loop cmp sz a lo hi (segs @ [(0, 0)]) = Some a' \<and> mset a' = mset a \<and> front cmp a' []"
proof (induction "work ((lo, hi) # segs)" arbitrary: a lo hi segs rule: less_induct)
  case less
  have seg: "hi < length a" "lo + 4 \<le> hi"
    using less.prems(2,3) by (auto simp: segs_ok_def)
  define mid where "mid = lo + (hi - lo) div 2"
  obtain b a' l r where median: "median_of_three cmp sz a lo mid hi = Some b"
    and round: "collapse_walls cmp sz b mid (lo + 1) (hi - 1) = Some (a', l, r)"
      "rearranged lo hi a a'" "lo \<le> r" "r < l" "l \<le> hi"
    and parts: "\<forall>i k. lo \<le> i \<longrightarrow> i \<le> r \<longrightarrow> r < k \<longrightarrow> k \<le> hi \<longrightarrow> cmp (a' ! i) (a' ! k) \<le> 0"
    using partition_round [OF ord sz less.prems(1) seg] unfolding mid_def by blast
  have a': "objects sz a'" "length a' = n" "mset a' = mset a"
    using rearranged_objects [OF round(2)] rearranged_length [OF round(2)] less.prems(1,2) round(2)
    by (simp_all add: rearranged_def)
  note fs = front_step [OF less.prems(4) round(2) seg(1) round(3-5) parts]
  have next_ok: "\<exists>b. partition_loop cmp sz a' lo2 hi2 (segs2 @ [(0, 0)]) = Some b \<and> mset b = mset a \<and> front cmp b []"
    if "work ((lo2, hi2) # segs2) < work ((lo, hi) # segs)" "segs_ok n ((lo2, hi2) # segs2)" "front cmp a' ((lo2, hi2) # segs2)"
    for lo2 hi2 segs2
    using less.hyps [OF that(1) a'(1,2) that(2,3)] a'(3) by simp
  have "n \<le> n * sz"
    using sz by simp
  then have "n < 2 ^ 63"
    using n by (rule le_less_trans)
  then have n64: "n < 2 ^ 64"
    by simp
  have small: "size_t_diff sz r lo \<le> max_thresh sz \<longleftrightarrow> r - lo \<le> 4" "size_t_diff sz hi l \<le> max_thresh sz \<longleftrightarrow> hi - l \<le> 4"
    using small_diff [OF sz _ _ _ n] round(3-5) seg less.prems(2) by simp_all
  have step: "partition_loop cmp sz a lo hi (segs @ [(0, 0)]) =
      (if r - lo \<le> 4
       then if hi - l \<le> 4
            then partition_loop cmp sz a' (fst (List.hd (segs @ [(0, 0)]))) (snd (List.hd (segs @ [(0, 0)]))) (tl (segs @ [(0, 0)]))
            else partition_loop cmp sz a' l hi (segs @ [(0, 0)])
       else if hi - l \<le> 4 then partition_loop cmp sz a' lo r (segs @ [(0, 0)])
       else if r - lo > hi - l then partition_loop cmp sz a' l hi ((lo, r) # segs @ [(0, 0)])
       else partition_loop cmp sz a' lo r ((l, hi) # segs @ [(0, 0)]))"
    using seg median round(1) depth_bound [OF less.prems(3) n64]
    by (subst partition_loop.simps) (simp add: mid_def [symmetric] small ptr_diff_less [OF sz] round(3-5) less_imp_le PUSH_def Let_def)
  consider "r - lo \<le> 4" "hi - l \<le> 4" "segs = []" | g gs where "r - lo \<le> 4" "hi - l \<le> 4" "segs = g # gs"
    | "r - lo \<le> 4" "\<not> hi - l \<le> 4" | "\<not> r - lo \<le> 4" "hi - l \<le> 4"
    | "\<not> r - lo \<le> 4" "\<not> hi - l \<le> 4" "r - lo > hi - l" | "\<not> r - lo \<le> 4" "\<not> hi - l \<le> 4" "\<not> r - lo > hi - l"
    by (cases segs) auto
  then show ?case
  proof cases
    case 1
    then show ?thesis
      using step fs [of "[]"] a'(3) by (simp add: partition_loop.simps [of _ _ _ 0 0 "[]"])
  next
    case 2
    then show ?thesis
      using step fs [of "[]"] next_ok [of "fst g" "snd g" gs] less.prems(3) by (cases g) (simp add: work_def segs_ok_def)
  next
    case 3
    then have "segs_ok n ((l, hi) # segs)"
      using round(3,4) by (intro segs_ok_sub [OF less.prems(3)]) auto
    then show ?thesis
      using 3 step fs [of "[(l, hi)]"] next_ok [of l hi segs] round(3,4) by (simp add: work_def)
  next
    case 4
    then have "segs_ok n ((lo, r) # segs)"
      using round(4,5) by (intro segs_ok_sub [OF less.prems(3)]) auto
    then show ?thesis
      using 4 step fs [of "[(lo, r)]"] next_ok [of lo r segs] round(4,5) by (simp add: work_def)
  next
    case 5
    then have "segs_ok n ((l, hi) # (lo, r) # segs)"
      by (intro segs_ok_push [OF less.prems(3) round(3-5)]) auto
    then show ?thesis
      using 5 step fs [of "[(l, hi), (lo, r)]"] next_ok [of l hi "(lo, r) # segs"] round(3-5) by (simp add: work_def)
  next
    case 6
    then have "segs_ok n ((lo, r) # (l, hi) # segs)"
      by (intro segs_ok_push [OF less.prems(3) round(3-5)]) auto
    then show ?thesis
      using 6 step fs [of "[(lo, r), (l, hi)]"] next_ok [of lo r "(l, hi) # segs"] round(3-5) by (simp add: work_def)
  qed
qed

section \<open>The final insertion sort\<close>

lemma find_smallest_min:
  assumes "orders cmp"
  shows "t < length a \<Longrightarrow> \<exists>m. find_smallest cmp a t = Some m \<and> m \<le> t \<and> (\<forall>k\<le>t. cmp (a ! m) (a ! k) \<le> 0)"
proof (induction t)
  case 0
  then show ?case
    by (simp add: find_smallest_def orders_refl [OF assms])
next
  case (Suc t)
  then obtain m where m: "find_smallest cmp a t = Some m" "m \<le> t" "\<forall>k\<le>t. cmp (a ! m) (a ! k) \<le> 0"
    by auto
  have step: "find_smallest cmp a (Suc t) = Some (if cmp (a ! Suc t) (a ! m) < 0 then Suc t else m)"
    using m(1,2) Suc.prems by (simp add: find_smallest_def)
  show ?case
  proof (cases "cmp (a ! Suc t) (a ! m) < 0")
    case True
    then have "cmp (a ! Suc t) (a ! k) \<le> 0" if "k \<le> Suc t" for k
      using m(3) orders_trans [OF assms, of "a ! Suc t" "a ! m" "a ! k"] that orders_refl [OF assms]
      by (cases "k = Suc t") auto
    then show ?thesis
      using True step by simp
  next
    case False
    then show ?thesis
      using m step orders_less [OF assms] by (auto simp: le_Suc_eq)
  qed
qed

abbreviation sorted_by :: "compar \<Rightarrow> obj list \<Rightarrow> bool" where
  "sorted_by cmp \<equiv> sorted_wrt (\<lambda>x y. cmp x y \<le> 0)"

lemma insertion_step:
  assumes ord: "orders cmp" and a: "objects sz a" "run < length a" "0 < run" "sorted_by cmp (take run a)"
    and least: "\<forall>k<length a. cmp (a ! 0) (a ! k) \<le> 0"
  shows "\<exists>t a'. scan_right cmp a run (run - 1) = Some t \<and>
    (if t + 1 \<noteq> run then insert_object sz a (t + 1) run else Some a) = Some a' \<and>
    mset a' = mset a \<and> sorted_by cmp (take (Suc run) a') \<and> a' ! 0 = a ! 0"
proof -
  have "\<not> cmp (a ! run) (a ! 0) < 0"
    using least a(2) orders_less [OF ord] by simp
  then obtain t where t: "scan_right cmp a run (run - 1) = Some t" "t \<le> run - 1"
      "\<And>k. t < k \<Longrightarrow> k \<le> run - 1 \<Longrightarrow> cmp (a ! run) (a ! k) < 0" "\<not> cmp (a ! run) (a ! t) < 0"
    using scan_right_stops [of 0 "run - 1" a run cmp] a(2,3) by (auto simp: less_imp_diff_less)
  define a' where "a' = take (t + 1) a @ a ! run # drop (t + 1) (take run a) @ drop (Suc run) a"
  have split: "a = take (t + 1) a @ drop (t + 1) (take run a) @ a ! run # drop (Suc run) a"
    using t(2) a(2,3) by (metis Cons_nth_drop_Suc Nat.le_diff_conv2 One_nat_def Suc_leI append_assoc append_take_drop_id
      min.absorb1 take_take)
  have inserted: "(if t + 1 \<noteq> run then insert_object sz a (t + 1) run else Some a) = Some a'"
  proof (cases "t + 1 = run")
    case True
    then show ?thesis
      using split by (simp add: a'_def)
  next
    case False
    then show ?thesis
      using t(2) a by (simp add: a'_def insert_object_rotates)
  qed
  have "mset a' = mset a"
    using arg_cong [OF split, of mset] by (simp add: a'_def)
  have below: "cmp x (a ! run) \<le> 0" if "x \<in> set (take (t + 1) a)" for x
  proof -
    have "x \<in> set (take (t + 1) (take run a))"
      using that t(2) a(3) by (auto simp: min_def)
    then obtain k where k: "k \<le> t" "x = a ! k"
      using t(2) a(2,3) by (auto simp: in_set_conv_nth less_Suc_eq_le)
    have "cmp (a ! k) (a ! t) \<le> 0"
    proof (cases "k = t")
      case False
      then show ?thesis
        using k(1) sorted_wrt_nth_less [OF a(4), of k t] t(2) a(2,3) by simp
    qed (simp add: orders_refl [OF ord])
    then show ?thesis
      using k t(4) orders_less [OF ord] orders_trans [OF ord] by metis
  qed
  have above: "cmp (a ! run) x \<le> 0" if "x \<in> set (drop (t + 1) (take run a))" for x
  proof -
    obtain k where "k < length (drop (t + 1) (take run a))" "x = drop (t + 1) (take run a) ! k"
      using \<open>x \<in> set (drop (t + 1) (take run a))\<close> by (metis in_set_conv_nth)
    moreover from this(1) have "t + 1 + k \<le> run - 1"
      by simp
    ultimately show ?thesis
      using t(3) [of "t + 1 + k"] a(2) by simp
  qed
  have "take run a = take (t + 1) a @ drop (t + 1) (take run a)"
    using t(2) a(3) by (metis Suc_eq_plus1 Suc_leI append_take_drop_id le_add_diff_inverse2 less_Suc_eq_le min.absorb1 nat_le_linear
      not_less_eq_eq One_nat_def take_take Suc_pred')
  then have "sorted_by cmp (take (t + 1) a @ drop (t + 1) (take run a))"
    using a(4) by simp
  then have "sorted_by cmp (take (t + 1) a @ a ! run # drop (t + 1) (take run a))"
    using below above by (auto simp: sorted_wrt_append)
  moreover have "length (take (t + 1) a @ a ! run # drop (t + 1) (take run a)) = Suc run"
    using t(2) a(2,3) by simp
  then have "take (Suc run) a' = take (t + 1) a @ a ! run # drop (t + 1) (take run a)"
    unfolding a'_def by (metis append_Cons append_assoc append_eq_conv_conj)
  moreover have "a' ! 0 = a ! 0"
    using a(2) by (cases a) (simp_all add: a'_def)
  ultimately show ?thesis
    using t(1) inserted \<open>mset a' = mset a\<close> by auto
qed

lemma insertion_loop_sorts:
  assumes ord: "orders cmp"
  shows "objects sz a \<Longrightarrow> 0 < length a \<Longrightarrow> 0 < run \<Longrightarrow> sorted_by cmp (take (Suc run) a) \<Longrightarrow>
    \<forall>k<length a. cmp (a ! 0) (a ! k) \<le> 0 \<Longrightarrow>
    \<exists>a'. insertion_loop cmp sz a (length a - 1) run = Some a' \<and> mset a' = mset a \<and> sorted_by cmp a'"
proof (induction "length a - run" arbitrary: a run rule: less_induct)
  case less
  show ?case
  proof (cases "run + 1 \<le> length a - 1")
    case False
    then have "take (Suc run) a = a"
      using less.prems(2) by simp
    then show ?thesis
      using False less.prems(4) by (subst insertion_loop.simps) simp
  next
    case True
    then have run: "run + 1 < length a"
      using less.prems(2) by simp
    obtain t a' where t: "scan_right cmp a (run + 1) run = Some t"
        "(if t + 1 \<noteq> run + 1 then insert_object sz a (t + 1) (run + 1) else Some a) = Some a'"
        "mset a' = mset a" "sorted_by cmp (take (Suc (run + 1)) a')" "a' ! 0 = a ! 0"
      using insertion_step [OF ord less.prems(1) run _ _ less.prems(5)] less.prems(4) by auto
    have len: "length a' = length a"
      using t(3) by (metis size_mset)
    have "\<forall>k<length a'. cmp (a' ! 0) (a' ! k) \<le> 0"
      using less.prems(5) t(3,5) by (metis in_set_conv_nth set_mset_mset)
    moreover have "objects sz a'"
      using less.prems(1) t(3) by (metis objects_def set_mset_mset)
    moreover have "insertion_loop cmp sz a (length a - 1) run = insertion_loop cmp sz a' (length a' - 1) (run + 1)"
      using True t(1,2) len by (subst insertion_loop.simps) (simp add: Let_def split: if_splits)
    moreover have "length a' - (run + 1) < length a - run" "0 < length a'" "0 < run + 1"
      using len run by auto
    ultimately show ?thesis
      using less.hyps [of a' "run + 1"] t(3,4) by auto
  qed
qed

lemma first_five:
  assumes a: "0 < sz" "0 < n" "n * sz < 2 ^ 63"
  shows "min (n - 1) (max_thresh sz div sz) = min (n - 1) 4"
proof (cases "n = 1")
  case False
  then have "2 * sz \<le> n * sz"
    using a(2) by (intro mult_le_mono1) simp
  then have "2 * sz < 2 ^ 63"
    using a(3) by (rule le_less_trans)
  then have "4 * sz < 2 ^ 64"
    by simp
  then show ?thesis
    using a(1) by (simp add: max_thresh_def MAX_THRESH_def)
qed simp

text \<open>After partitioning, the smallest object is among the first five.\<close>

lemma partition_phase:
  assumes ord: "orders cmp" and a: "objects sz a" "0 < sz" "length a * sz < 2 ^ 63" "a \<noteq> []"
  shows "\<exists>b. (if length a > 4 then Option.bind (PUSH (0, 0) []) (partition_loop cmp sz a 0 (length a - 1)) else Some a) = Some b \<and>
    mset b = mset a \<and> front cmp b []"
proof (cases "length a > 4")
  case True
  have "segs_ok (length a) [(0, length a - 1)]" "front cmp a [(0, length a - 1)]"
    using True by (auto simp: segs_ok_def front_def covers_def Cons_eq_append_conv intro!: exI [of _ "length a - 1"])
  then show ?thesis
    using partition_loop_ends [OF ord a(3,2,1) refl, of 0 "length a - 1" "[]"] True by (auto simp: PUSH_def STACK_SIZE_def)
next
  case False
  then have "front cmp a []"
    using a(4) by (auto simp: front_def covers_def intro!: exI [of _ "length a - 1"])
  then show ?thesis
    using False by auto
qed

lemma smallest_first:
  assumes ord: "orders cmp" and b: "objects sz b" "0 < sz" "front cmp b []" "b \<noteq> []"
  shows "\<exists>m c. find_smallest cmp b (min (length b - 1) 4) = Some m \<and> (if m \<noteq> 0 then SWAP sz b m 0 else Some b) = Some c \<and>
    mset c = mset b \<and> (\<forall>k<length c. cmp (c ! 0) (c ! k) \<le> 0)"
proof -
  define th where "th = min (length b - 1) 4"
  have "th < length b"
    using b(4) by (cases b) (auto simp: th_def)
  then obtain m where m: "find_smallest cmp b th = Some m" "m \<le> th" "\<And>k. k \<le> th \<Longrightarrow> cmp (b ! m) (b ! k) \<le> 0"
    using find_smallest_min [OF ord] by blast
  obtain h where h: "h < length b" "h \<le> 4" "\<And>i k. i \<le> h \<Longrightarrow> h < k \<Longrightarrow> k < length b \<Longrightarrow> cmp (b ! i) (b ! k) \<le> 0"
    using b(3) by (auto simp: front_def covers_def)
  have least: "cmp (b ! m) (b ! k) \<le> 0" if "k < length b" for k
  proof (cases "k \<le> th")
    case False
    then have "h < k" "cmp (b ! m) (b ! h) \<le> 0"
      using h(1,2) that m(3) [of h] by (auto simp: th_def)
    then show ?thesis
      using h(3) [of h k] that orders_trans [OF ord, of "b ! m" "b ! h" "b ! k"] by simp
  qed (use m in simp)
  define c where "c = b[m := b ! 0, 0 := b ! m]"
  have in_range: "m < length b" "0 < length b"
    using m(2) \<open>th < length b\<close> by auto
  then have c: "mset c = mset b" "c ! 0 = b ! m" "(if m \<noteq> 0 then SWAP sz b m 0 else Some b) = Some c"
    using SWAP_swaps [OF b(2,1)] mset_swap [of 0 b m] by (auto simp: c_def list_update_id)
  moreover have "\<forall>k<length c. cmp (c ! 0) (c ! k) \<le> 0"
    using least c(1,2) by (metis in_set_conv_nth set_mset_mset)
  ultimately show ?thesis
    using m(1) unfolding th_def by blast
qed

lemma quicksort_result:
  assumes ord: "orders cmp" and a: "objects sz a" "0 < sz" "length a * sz < 2 ^ 63"
  shows "\<exists>a'. quicksort a (length a) sz cmp = Some a' \<and> mset a' = mset a \<and> sorted_by cmp a'"
proof (cases "a = []")
  case True
  then show ?thesis
    by (simp add: quicksort_def)
next
  case False
  let ?n = "length a"
  obtain b where b: "(if ?n > 4 then Option.bind (PUSH (0, 0) []) (partition_loop cmp sz a 0 (?n - 1)) else Some a) = Some b"
      "mset b = mset a" "front cmp b []"
    using partition_phase [OF ord a False] by blast
  have same: "length x = ?n" "objects sz x" if "mset x = mset a" for x
    using that a(1) by (metis size_mset, metis objects_def set_mset_mset)
  have "b \<noteq> []"
    using same(1) [OF b(2)] False by auto
  then obtain m c where c: "find_smallest cmp b (min (?n - 1) 4) = Some m" "(if m \<noteq> 0 then SWAP sz b m 0 else Some b) = Some c"
      "mset c = mset b" "\<forall>k<length c. cmp (c ! 0) (c ! k) \<le> 0"
    using smallest_first [OF ord same(2) [OF b(2)] a(2) b(3)] same(1) [OF b(2)] by auto
  have c_obj: "mset c = mset a" "length c = ?n" "objects sz c"
    using same [of c] c(3) b(2) by auto
  have "sorted_by cmp (take (Suc 1) c)"
    using c(4) by (cases c; cases "tl c") (auto simp: orders_refl [OF ord])
  then obtain a' where "insertion_loop cmp sz c (?n - 1) 1 = Some a'" "mset a' = mset a" "sorted_by cmp a'"
    using insertion_loop_sorts [OF ord c_obj(3) _ _ _ c(4), of 1] c_obj(1,2) False by auto
  moreover have "quicksort a ?n sz cmp = insertion_loop cmp sz c (?n - 1) 1"
    using False a(2) b(1) c(1,2) first_five [OF a(2) _ a(3)] by (simp add: quicksort_def MAX_THRESH_def)
  ultimately show ?thesis
    by auto
qed

section \<open>Properties\<close>

text \<open>
  C28. _quicksort ends and sorts: for a comparison function that orders the objects and an array of
  non-empty objects with less than 2^63 bytes in all, it returns, without overflowing its stack of
  STACK_SIZE entries and without comparing, exchanging or shifting anything outside the array, the
  same objects in ascending order.
\<close>

theorem quicksort_sorts:
  assumes ord: "orders cmp" and a: "objects sz a" "0 < sz" "length a * sz < 2 ^ 63"
  shows "\<exists>a'. quicksort a (length a) sz cmp = Some a' \<and> mset a' = mset a \<and> sorted_by cmp a'"
  by (rule quicksort_result [OF assms])

theorem quicksort_sorts_witness:
  "\<exists>a'. quicksort [[5], [3], [9], [1], [7], [3]] 6 1 (\<lambda>x y. sint (hd x) - sint (hd y)) = Some a' \<and>
     mset a' = {#[5], [3], [9], [1], [7], [3]#} \<and> sorted_by (\<lambda>x y. sint (hd x) - sint (hd y)) a'"
proof -
  let ?c = "\<lambda>x y. sint (hd x) - sint (hd y)" and ?a = "[[5], [3], [9], [1], [7], [3]] :: obj list"
  have "orders ?c" "objects 1 ?a" and len: "length ?a = 6"
    by (auto simp: orders_def objects_def)
  from quicksort_sorts [OF this(1,2), unfolded len] show ?thesis
    by simp
qed

end
