(* ===== verification/Qsort.thy ===== *)
theory Qsort
  imports Msort_Indirect Quicksort
begin

text \<open>
  qsort and qsort_r (stdlib/msort.c): the choice between the merge sort, direct or through
  pointers, and the quicksort, and the correctness of each. \<open>tmp_area\<close> gives the bytes of the block
  that alloca or malloc returns for a size, with unspecified contents; a sort that needs more bytes than the
  block has gives \<open>None\<close>, so that a result is proof that __qsort_r asks for enough. \<open>malloc_fails\<close> says for
  which sizes malloc returns NULL; \<open>sysconf\<close> stands for the two system limits. The static variables of
  __qsort_r are a state, and a page size of 0, by which the code would divide, gives \<open>None\<close>.
\<close>

section \<open>The code\<close>

record sort_limits =
  phys_pages :: int
  pagesize :: int

definition init_limits :: "int \<times> int \<Rightarrow> sort_limits \<Rightarrow> sort_limits" where
  "init_limits sysconf lim =
     (if pagesize lim = 0
      then let pages = (if fst sysconf = - 1 then 2 ^ 63 - 1 else fst sysconf) div 4 in
           \<lparr>phys_pages = pages, pagesize = snd sysconf\<rparr>
      else lim)"

definition choose_var :: "u64 \<Rightarrow> u64 \<Rightarrow> nat" where
  "choose_var b s =
     (if s AND (4 - 1) = 0 \<and> b mod 4 = 0
      then if s = 4 then 0
           else if s = 8 \<and> b mod 8 = 0 then 1
           else if s AND (8 - 1) = 0 \<and> b mod 8 = 0 then 2
           else 4
      else 4)"

text \<open>The size of the temporary array: the objects, or two arrays of pointers and one object.\<close>

definition tmp_size :: "u64 \<Rightarrow> u64 \<Rightarrow> u64" where
  "tmp_size n s = (let size = n * s in if s > 32 then 2 * n * 8 + s else size)"

text \<open>The first \<open>n\<close> objects of an area of bytes.\<close>

definition area_objects :: "byte list \<Rightarrow> nat \<Rightarrow> nat \<Rightarrow> obj list" where
  "area_objects area n sz = map (\<lambda>i. take sz (drop (i * sz) area)) [0..<n]"

text \<open>The merge sort writes up to \<open>n\<close> objects to the area.\<close>

definition sort_direct ::
  "u64 \<Rightarrow> obj list \<Rightarrow> nat \<Rightarrow> u64 \<Rightarrow> (obj \<Rightarrow> obj \<Rightarrow> 'x \<Rightarrow> int) \<Rightarrow> 'x \<Rightarrow> byte list \<Rightarrow> obj list option" where
  "sort_direct base b n s cmp arg area =
     (if n * unat s \<le> length area
      then let p = \<lparr>p_s = s, p_var = choose_var base s, p_cmp = cmp, p_arg = arg\<rparr> in
           Some (fst (msort_with_tmp p (\<lambda>_. []) b (area_objects area n (unat s)) 0 n))
      else None)"

text \<open>The area holds the temporary array of \<open>n\<close> pointers, the array tp of \<open>n\<close> pointers behind it,
  and tmp_storage, one object, behind that.\<close>

definition sort_indirect ::
  "u64 \<Rightarrow> obj list \<Rightarrow> nat \<Rightarrow> u64 \<Rightarrow> (obj \<Rightarrow> obj \<Rightarrow> 'x \<Rightarrow> int) \<Rightarrow> 'x \<Rightarrow> byte list \<Rightarrow> obj list option" where
  "sort_indirect base b n s cmp arg area =
     (if n * 8 + n * 8 + unat s \<le> length area
      then let p = \<lparr>p_s = 8, p_var = 3, p_cmp = cmp, p_arg = arg\<rparr>;
               tp = map store64 (object_pointers base s n);
               tp = map load64 (fst (msort_with_tmp p (\<lambda>q. b ! obj_index base s q) tp (area_objects area n 8) 0 n)) in
           map_option fst (permute_objs base s n b tp 0 base)
      else None)"

definition qsort_r ::
  "(u64 \<Rightarrow> byte list) \<Rightarrow> (u64 \<Rightarrow> bool) \<Rightarrow> int \<times> int \<Rightarrow> sort_limits \<Rightarrow> u64 \<Rightarrow> obj list \<Rightarrow> u64 \<Rightarrow> u64
     \<Rightarrow> (obj \<Rightarrow> obj \<Rightarrow> 'x \<Rightarrow> int) \<Rightarrow> 'x \<Rightarrow> sort_limits \<times> obj list option" where
  "qsort_r tmp_area malloc_fails sysconf lim base b n s cmp arg =
     (let size = tmp_size n s;
          merge_sort = (if s > 32 then sort_indirect base b (unat n) s cmp arg (tmp_area size)
                        else sort_direct base b (unat n) s cmp arg (tmp_area size));
          in_place = quicksort b (unat n) (unat s) (\<lambda>x y. cmp x y arg) in
      if size < 1024 then (lim, merge_sort)
      else let lim = init_limits sysconf lim in
           if word_of_int (pagesize lim) = (0 :: u64) then (lim, None)
           else if size div word_of_int (pagesize lim) > word_of_int (phys_pages lim) then (lim, in_place)
           else if malloc_fails size then (lim, in_place)
           else (lim, merge_sort))"

definition qsort ::
  "(u64 \<Rightarrow> byte list) \<Rightarrow> (u64 \<Rightarrow> bool) \<Rightarrow> int \<times> int \<Rightarrow> sort_limits \<Rightarrow> u64 \<Rightarrow> obj list \<Rightarrow> u64 \<Rightarrow> u64
     \<Rightarrow> compar \<Rightarrow> sort_limits \<times> obj list option" where
  "qsort tmp_area malloc_fails sysconf lim base b n s cmp =
     qsort_r tmp_area malloc_fails sysconf lim base b n s (\<lambda>x y _. cmp x y) ()"

section \<open>Each variant copies whole objects\<close>

lemma copy_longs_id:
  assumes "8 dvd length e"
  shows "copy_longs e = e"
proof -
  obtain k where k: "length e = 8 * k"
    using assms by blast
  have "concat (map (\<lambda>i. store64 (load64 (take 8 (drop (8 * i) e)))) [0..<m]) = take (8 * m) e" if "m \<le> k" for m
    using that
  proof (induction m)
    case (Suc m)
    then have "length (take 8 (drop (8 * m) e)) = 8"
      using k by simp
    then show ?case
      using Suc by (simp add: store64_load64 add.commute flip: take_add)
  qed simp
  then show ?thesis
    using k by (simp add: copy_longs_def)
qed

lemma copy_obj_id:
  assumes "length e = unat s"
  shows "copy_obj (choose_var base s) e = e"
proof -
  have "8 dvd length e" if "s AND (8 - 1) = 0"
  proof -
    have "s AND mask 3 = 0"
      using that by (simp add: mask_eq_exp_minus_1)
    then have "take_bit 3 s = 0"
      by (simp add: take_bit_eq_mask)
    then have "unat s mod 8 = 0"
      by (metis (no_types) mod_0 numeral_3_eq_3 power3_eq_cube take_bit_eq_mod unat_0 unsigned_take_bit_eq numeral_times_numeral
        semiring_norm(11-13) num_double)
    then show ?thesis
      using assms by auto
  qed
  then show ?thesis
    using assms by (auto simp: choose_var_def copy_obj_def copy_longs_id store32_load32 store64_load64)
qed

section \<open>Merge sort and mappings\<close>

lemma merge_map: "merge le (map f xs) (map f ys) = map f (merge (\<lambda>x y. le (f x) (f y)) xs ys)"
  by (induction "\<lambda>x y. le (f x) (f y)" xs ys rule: merge.induct) auto

lemma msort_map: "msort le (map f xs) = map f (msort (\<lambda>x y. le (f x) (f y)) xs)"
proof (induction "length xs" arbitrary: xs rule: less_induct)
  case less
  show ?case
  proof (cases "length xs \<le> 1")
    case False
    then have "msort le (map f (take (length xs div 2) xs)) = map f (msort (\<lambda>x y. le (f x) (f y)) (take (length xs div 2) xs))"
      "msort le (map f (drop (length xs div 2) xs)) = map f (msort (\<lambda>x y. le (f x) (f y)) (drop (length xs div 2) xs))"
      by (auto intro!: less)
    then show ?thesis
      using False by (subst (1 2) msort.simps) (simp add: take_map drop_map merge_map)
  qed (simp add: msort.simps)
qed

lemma merge_cong:
  "(\<And>x y. x \<in> set xs \<Longrightarrow> y \<in> set ys \<Longrightarrow> le x y = le' x y) \<Longrightarrow> merge le xs ys = merge le' xs ys"
  by (induction le xs ys rule: merge.induct) auto

lemma msort_cong:
  "(\<And>x y. x \<in> set xs \<Longrightarrow> y \<in> set xs \<Longrightarrow> le x y = le' x y) \<Longrightarrow> msort le xs = msort le' xs"
proof (induction "length xs" arbitrary: xs rule: less_induct)
  case less
  show ?case
  proof (cases "length xs \<le> 1")
    case False
    let ?k = "length xs div 2"
    have sub: "set (take ?k xs) \<subseteq> set xs" "set (drop ?k xs) \<subseteq> set xs"
      by (auto dest: in_set_takeD in_set_dropD)
    have "msort le (take ?k xs) = msort le' (take ?k xs)" "msort le (drop ?k xs) = msort le' (drop ?k xs)"
      using False sub by (auto intro!: less.hyps less.prems)
    moreover have "merge le us vs = merge le' us vs" if "set us \<subseteq> set xs" "set vs \<subseteq> set xs" for us vs
      using that less.prems by (intro merge_cong) blast
    ultimately show ?thesis
      using False sub by (subst (1 2) msort.simps) simp
  qed (simp add: msort.simps)
qed

section \<open>Both merge sorts are the list merge sort\<close>

lemma length_area_objects [simp]: "length (area_objects area n sz) = n"
  by (simp add: area_objects_def)

lemma sort_direct_eq:
  assumes "objects (unat s) b" "length b * unat s \<le> length area"
  shows "sort_direct base b (length b) s cmp arg area = Some (msort (\<lambda>x y. cmp x y arg \<le> 0) b)"
proof -
  let ?p = "\<lparr>p_s = s, p_var = choose_var base s, p_cmp = cmp, p_arg = arg\<rparr>"
  have "choose_var base s \<noteq> 3"
    by (simp add: choose_var_def)
  then have le: "le_of ?p d = (\<lambda>x y. cmp x y arg \<le> 0)" for d
    by (simp add: fun_eq_iff compare_objs_def)
  have copy: "copy_obj (p_var ?p) e = e" if "e \<in> set b" for e
    using that assms(1) by (simp add: copy_obj_id objects_def)
  show ?thesis
    using msort_with_tmp_sorts [where p = ?p and b = b and lo = 0 and n = "length b" and t = "area_objects area (length b) (unat s)" and deref = "\<lambda>_. []"] copy
      assms(2) le by (fastforce simp: sort_direct_def Let_def)
qed

lemma sort_indirect_eq:
  assumes fits: "array_fits base s (length b)" and area: "16 * length b + unat s \<le> length area"
  shows "sort_indirect base b (length b) s cmp arg area = Some (msort (\<lambda>x y. cmp x y arg \<le> 0) b)"
proof -
  let ?n = "length b" and ?a = "object_addr base s" and ?le = "\<lambda>x y. cmp x y arg \<le> 0"
  let ?p = "\<lparr>p_s = 8, p_var = 3, p_cmp = cmp, p_arg = arg\<rparr>" and ?deref = "\<lambda>q. b ! obj_index base s q"
  let ?tp = "map store64 (object_pointers base s ?n)" and ?t = "area_objects area ?n 8"
  define \<sigma> where "\<sigma> = msort (\<lambda>i j. ?le (b ! i) (b ! j)) [0..<?n]"
  have tp: "?tp = map (\<lambda>i. store64 (?a i)) [0..<?n]"
    by (simp add: object_pointers_def object_addr_def)
  have "copy_obj (p_var ?p) e = e" if "e \<in> set ?tp" for e
    using that by (auto simp: copy_obj_def)
  then have "fst (msort_with_tmp ?p ?deref ?tp ?t 0 ?n) = msort (le_of ?p ?deref) ?tp"
    using msort_with_tmp_sorts [where p = ?p and b = ?tp and lo = 0 and n = ?n and t = ?t and deref = ?deref]
    by (fastforce simp: object_pointers_def)
  also have "\<dots> = map (\<lambda>i. store64 (?a i)) (msort (\<lambda>i j. le_of ?p ?deref (store64 (?a i)) (store64 (?a j))) [0..<?n])"
    unfolding tp by (rule msort_map)
  also have "msort (\<lambda>i j. le_of ?p ?deref (store64 (?a i)) (store64 (?a j))) [0..<?n] = \<sigma>"
    unfolding \<sigma>_def by (rule msort_cong) (simp add: compare_objs_def obj_index_addr [OF fits])
  finally have ptrs: "map load64 (fst (msort_with_tmp ?p ?deref ?tp ?t 0 ?n)) = map ?a \<sigma>"
    by simp
  have \<sigma>: "length \<sigma> = ?n" "distinct \<sigma>" "set \<sigma> \<subseteq> {..<?n}"
    by (auto simp: \<sigma>_def mset_eq_imp_distinct_iff [OF mset_msort])
  have "object_addr base s 0 = base"
    by (simp add: object_addr_def)
  with permute_objs_permutes [OF fits \<sigma>(1) refl \<sigma>(2,3), of 0] ptrs
  have "sort_indirect base b ?n s cmp arg area = Some (map (\<lambda>m. b ! (\<sigma> ! m)) [0..<?n])"
    using area by (auto simp: sort_indirect_def Let_def)
  also have "map (\<lambda>m. b ! (\<sigma> ! m)) [0..<?n] = map (nth b) \<sigma>"
    using \<sigma>(1) by (intro nth_equalityI) auto
  also have "\<dots> = msort ?le (map (nth b) [0..<?n])"
    unfolding \<sigma>_def by (rule msort_map [symmetric])
  finally show ?thesis
    by (simp add: map_nth)
qed

text \<open>The temporary array is large enough: its size does not wrap around, since no object exceeds 2^63 bytes.\<close>

lemma tmp_size_direct:
  assumes "unat n * unat s < 2 ^ 63" "\<not> s > 32"
  shows "unat (tmp_size n s) = unat n * unat s"
  using assms by (simp add: tmp_size_def unat_word_ariths)

lemma tmp_size_indirect:
  assumes bytes: "unat n * unat s < 2 ^ 63" and s: "s > 32"
  shows "unat (tmp_size n s) = 16 * unat n + unat s"
proof -
  have "16 * unat n + unat s < 2 ^ 64"
  proof (cases "unat n = 0")
    case False
    have "16 \<le> unat s"
      using s by (simp add: word_less_nat_alt)
    then have "unat n * 16 \<le> unat n * unat s" "1 * unat s \<le> unat n * unat s"
      using False by (intro mult_le_mono2 mult_le_mono1; simp)+
    then have "unat n * 16 < 2 ^ 63" "1 * unat s < 2 ^ 63"
      using bytes le_less_trans by blast+
    then show ?thesis
      by simp
  qed (use unsigned_less [of s, where 'a = nat] in simp)
  then show ?thesis
    using s by (simp add: tmp_size_def unat_word_ariths mod_simps)
qed

lemma merge_sort_eq:
  assumes array: "objects (unat s) b" "unat n = length b" "array_fits base s (length b)" "length b * unat s < 2 ^ 63"
    and area: "unat (tmp_size n s) \<le> length area"
  shows "(if s > 32 then sort_indirect base b (unat n) s cmp arg area else sort_direct base b (unat n) s cmp arg area) =
    Some (msort (\<lambda>x y. cmp x y arg \<le> 0) b)"
proof -
  have bytes: "unat n * unat s < 2 ^ 63"
    using array(2,4) by simp
  show ?thesis
    using area tmp_size_direct [OF bytes] tmp_size_indirect [OF bytes]
    by (cases "s > 32") (simp_all add: array(2) sort_indirect_eq [OF array(3)] sort_direct_eq [OF array(1)])
qed

lemma init_limits_pagesize:
  assumes "0 < snd sysconf" "snd sysconf < 2 ^ 31" "pagesize lim \<in> {0, snd sysconf}"
  shows "word_of_int (pagesize (init_limits sysconf lim)) \<noteq> (0 :: u64)"
proof -
  have "pagesize (init_limits sysconf lim) = snd sysconf"
    using assms by (auto simp: init_limits_def Let_def)
  moreover have "snd sysconf mod 2 ^ 64 \<noteq> 0"
    using assms(1,2) by simp
  then have "word_of_int (snd sysconf) \<noteq> (0 :: u64)"
    by (simp add: word_of_int_eq_0_iff dvd_eq_mod_eq_0)
  ultimately show ?thesis
    by simp
qed

section \<open>Properties\<close>

text \<open>
  C29. qsort_r sorts: for a comparison function that orders the objects and an array of less than 2^63
  bytes, it ends and leaves the same objects in ascending order, whatever path it takes: the direct
  merge sort with any of its copying variants, the indirect one for objects of more than 32 bytes, or
  the quicksort when the temporary array would exceed a quarter of physical memory or cannot be
  allocated. Of alloca and malloc it needs only that the block has the bytes asked for, which shows
  that the size computed is enough for everything the merge sorts write; of sysconf, that the page
  size is a positive int and does not change.
\<close>

theorem qsort_r_sorts:
  assumes ord: "orders (\<lambda>x y. cmp x y arg)"
    and array: "objects (unat s) b" "unat n = length b" "array_fits base s (length b)" "length b * unat s < 2 ^ 63"
    and block: "\<And>size. unat size \<le> length (tmp_area size)"
    and page: "0 < snd sysconf" "snd sysconf < 2 ^ 31" "pagesize lim \<in> {0, snd sysconf}"
  shows "\<exists>b'. snd (qsort_r tmp_area malloc_fails sysconf lim base b n s cmp arg) = Some b' \<and>
    mset b' = mset b \<and> sorted_by (\<lambda>x y. cmp x y arg) b'"
proof -
  let ?le = "\<lambda>x y. cmp x y arg \<le> 0"
  have m: "mset (msort ?le b) = mset b" "sorted_by (\<lambda>x y. cmp x y arg) (msort ?le b)"
    using cmp_order.sorted_msort [of "\<lambda>x y. cmp x y arg" b] by (simp_all add: le_by_eq [OF ord])
  have "0 < unat s"
    using array(3) by (simp add: array_fits_def word_gt_0 unat_gt_0)
  then obtain b' where q: "quicksort b (unat n) (unat s) (\<lambda>x y. cmp x y arg) = Some b'" "mset b' = mset b"
      "sorted_by (\<lambda>x y. cmp x y arg) b'"
    using quicksort_result [OF ord array(1) _ array(4)] array(2) by auto
  note merge = merge_sort_eq [OF array block, of cmp arg]
  show ?thesis
    using m q init_limits_pagesize [OF page] by (simp add: qsort_r_def Let_def merge)
qed

theorem qsort_r_sorts_witness:
  "\<exists>b'. snd (qsort_r (\<lambda>size. replicate (unat size) 0) (\<lambda>_. True) (1000, 4096) \<lparr>phys_pages = 0, pagesize = 0\<rparr> 4096
       [[9], [4], [7]] 3 1 (\<lambda>x y _. sint (hd x) - sint (hd y)) ()) = Some b' \<and>
     mset b' = {#[9], [4], [7]#} \<and> sorted_by (\<lambda>x y. sint (hd x) - sint (hd y)) b'"
  using qsort_r_sorts [of "\<lambda>x y _. sint (hd x) - sint (hd y)" "()" 1 "[[9], [4], [7]]" 3 4096 "\<lambda>size. replicate (unat size) 0"
    "(1000, 4096)" "\<lparr>phys_pages = 0, pagesize = 0\<rparr>"]
  by (simp add: orders_def objects_def array_fits_def)

text \<open>
  C30. On the merge sort paths qsort_r is stable: when the temporary array is small enough for the
  stack, or malloc provides it within the limit of a quarter of the physical memory, the result is
  the list merge sort of the array, in which objects that compare equal keep their order.
\<close>

theorem qsort_r_stable:
  assumes ord: "orders (\<lambda>x y. cmp x y arg)"
    and array: "objects (unat s) b" "unat n = length b" "array_fits base s (length b)" "length b * unat s < 2 ^ 63"
    and block: "\<And>size. unat size \<le> length (tmp_area size)"
    and page: "0 < snd sysconf" "snd sysconf < 2 ^ 31" "pagesize lim \<in> {0, snd sysconf}"
    and merge_path: "tmp_size n s < 1024 \<or>
      tmp_size n s div word_of_int (pagesize (init_limits sysconf lim)) \<le> word_of_int (phys_pages (init_limits sysconf lim)) \<and>
      \<not> malloc_fails (tmp_size n s)"
  shows "\<exists>b'. qsort_r tmp_area malloc_fails sysconf lim base b n s cmp arg =
      (if tmp_size n s < 1024 then lim else init_limits sysconf lim, Some b') \<and>
    b' = msort (\<lambda>x y. cmp x y arg \<le> 0) b \<and> sorted_by (\<lambda>x y. cmp x y arg) b' \<and>
    (\<forall>k. filter (\<lambda>x. cmp x k arg \<le> 0 \<and> cmp k x arg \<le> 0) b' = filter (\<lambda>x. cmp x k arg \<le> 0 \<and> cmp k x arg \<le> 0) b)"
proof -
  have eq: "cmp_order.equiv_to (\<lambda>x y. cmp x y arg) k = (\<lambda>x. cmp x k arg \<le> 0 \<and> cmp k x arg \<le> 0)" for k
    unfolding fun_eq_iff cmp_order.equiv_to_def by (simp add: le_by_eq [OF ord])
  have "filter (\<lambda>x. cmp x k arg \<le> 0 \<and> cmp k x arg \<le> 0) (msort (\<lambda>x y. cmp x y arg \<le> 0) b) =
      filter (\<lambda>x. cmp x k arg \<le> 0 \<and> cmp k x arg \<le> 0) b" for k
    using cmp_order.filter_msort [of "\<lambda>x y. cmp x y arg" k b, unfolded eq]
    by (simp add: le_by_eq [OF ord])
  moreover have "sorted_by (\<lambda>x y. cmp x y arg) (msort (\<lambda>x y. cmp x y arg \<le> 0) b)"
    using cmp_order.sorted_msort [of "\<lambda>x y. cmp x y arg" b] by (simp add: le_by_eq [OF ord])
  moreover note merge = merge_sort_eq [OF array block, of cmp arg]
  ultimately show ?thesis
    using merge_path init_limits_pagesize [OF page] by (auto simp: qsort_r_def Let_def not_less merge)
qed

text \<open>Two objects of forty bytes that compare equal, so that the indirect sort runs.\<close>

theorem qsort_r_stable_witness:
  "\<exists>b'. qsort_r (\<lambda>size. replicate (unat size) 0) (\<lambda>_. False) (1000, 4096) \<lparr>phys_pages = 0, pagesize = 0\<rparr> 4096
       [7 # replicate 39 1, 4 # replicate 39 0, 7 # replicate 39 0] 3 40 (\<lambda>x y _. sint (hd x) - sint (hd y)) () =
     (\<lparr>phys_pages = 0, pagesize = 0\<rparr>, Some b') \<and>
   filter (\<lambda>x. sint (hd x) - 7 \<le> 0 \<and> 7 - sint (hd x) \<le> 0) b' = [7 # replicate 39 1, 7 # replicate 39 0]"
proof -
  let ?c = "\<lambda>(x :: obj) (y :: obj) (_ :: unit). sint (hd x) - sint (hd y)" and ?b = "[7 # replicate 39 1, 4 # replicate 39 0, 7 # replicate 39 0] :: obj list"
  let ?e = "\<lambda>k x. ?c x k () \<le> 0 \<and> ?c k x () \<le> 0" and ?lim = "\<lparr>phys_pages = 0, pagesize = 0\<rparr>"
  have small: "tmp_size 3 40 < 1024"
    by (simp add: tmp_size_def)
  have "orders (\<lambda>x y. ?c x y ())" "objects (unat (40 :: u64)) ?b" "unat (3 :: u64) = length ?b" "array_fits 4096 40 (length ?b)"
      "length ?b * unat (40 :: u64) < 2 ^ 63"
    by (simp_all add: orders_def objects_def array_fits_def)
  then have "\<exists>b'. qsort_r (\<lambda>size. replicate (unat size) 0) (\<lambda>_. False) (1000, 4096) ?lim 4096 ?b 3 40 ?c () =
      (if tmp_size 3 40 < 1024 then ?lim else init_limits (1000, 4096) ?lim, Some b') \<and> b' = msort (\<lambda>x y. ?c x y () \<le> 0) ?b \<and>
      sorted_by (\<lambda>x y. ?c x y ()) b' \<and> (\<forall>k. filter (?e k) b' = filter (?e k) ?b)"
    by (rule qsort_r_stable [where cmp = ?c and arg = "()"]) (simp_all add: small)
  then obtain b' where b': "qsort_r (\<lambda>size. replicate (unat size) 0) (\<lambda>_. False) (1000, 4096) ?lim 4096 ?b 3 40 ?c () =
      (?lim, Some b')" "\<forall>k. filter (?e k) b' = filter (?e k) ?b"
    unfolding if_P [OF small] by blast
  from b'(2) have "filter (?e [7]) b' = filter (?e [7]) ?b" ..
  also have "\<dots> = [7 # replicate 39 1, 7 # replicate 39 0]" by simp
  finally have "filter (?e [7]) b' = [7 # replicate 39 1, 7 # replicate 39 0]" .
  with b'(1) show ?thesis by auto
qed

end
