(* ===== verification/Keyed_Store.thy ===== *)
theory Keyed_Store
  imports Prelude
begin

text \<open>
  The contract the search tables of search.h share: a store of keys with data, in which entering
  a key that is already there changes nothing, and a new key is added when the store has room
  for one more. The lemmas are about histories of insertions.
\<close>

locale keyed_store =
  fixes ok :: "'s \<Rightarrow> bool"
    and view :: "'s \<Rightarrow> ('k \<rightharpoonup> 'v)"
    and fits :: "'s \<Rightarrow> nat \<Rightarrow> bool"
    and enter :: "'k \<Rightarrow> 'v \<Rightarrow> 's \<Rightarrow> 's option"
  assumes finite_view: "ok s \<Longrightarrow> finite (dom (view s))"
    and fits_less: "fits s n \<Longrightarrow> m \<le> n \<Longrightarrow> fits s m"
    and enter_present: "ok s \<Longrightarrow> view s k \<noteq> None \<Longrightarrow> enter k v s = Some s"
    and enter_new: "ok s \<Longrightarrow> view s k = None \<Longrightarrow> fits s (Suc (card (dom (view s)))) \<Longrightarrow>
      \<exists>s'. enter k v s = Some s' \<and> ok s' \<and> view s' = (view s)(k \<mapsto> v) \<and> fits s' = fits s"
begin

primrec enter_all :: "('k \<times> 'v) list \<Rightarrow> 's \<Rightarrow> 's option" where
  "enter_all [] s = Some s"
| "enter_all (kv # kvs) s = Option.bind (enter (fst kv) (snd kv) s) (enter_all kvs)"

text \<open>A history of insertions whose keys all fit succeeds, and each key keeps the data it was
  first entered with.\<close>

lemma enter_all_first_wins:
  assumes "ok s" "fits s (card (dom (view s) \<union> fst ` set kvs))"
  shows "\<exists>s'. enter_all kvs s = Some s' \<and> ok s' \<and> view s' = map_of kvs ++ view s \<and> fits s' = fits s"
  using assms
proof (induction kvs arbitrary: s)
  case Nil
  then show ?case by simp
next
  case (Cons kv kvs)
  obtain k v where kv: "kv = (k, v)" by (cases kv)
  show ?case
  proof (cases "view s k")
    case None
    have "card (insert k (dom (view s))) \<le> card (dom (view s) \<union> fst ` set (kv # kvs))"
      using finite_view [OF Cons.prems(1)] by (intro card_mono) (auto simp: kv)
    moreover have "k \<notin> dom (view s)" using None by auto
    ultimately have "Suc (card (dom (view s))) \<le> card (dom (view s) \<union> fst ` set (kv # kvs))"
      using finite_view [OF Cons.prems(1)] by simp
    then obtain s' where s': "enter k v s = Some s'" "ok s'" "view s' = (view s)(k \<mapsto> v)" "fits s' = fits s"
      using enter_new [OF Cons.prems(1) None, of v] fits_less [OF Cons.prems(2)] by blast
    have "dom (view s') \<union> fst ` set kvs = dom (view s) \<union> fst ` set (kv # kvs)"
      by (auto simp: s'(3) kv)
    then obtain s'' where s'': "enter_all kvs s' = Some s''" "ok s''" "view s'' = map_of kvs ++ view s'" "fits s'' = fits s'"
      using Cons.IH [OF s'(2)] Cons.prems(2) by (simp only: s'(4)) blast
    have "map_of kvs ++ (view s)(k \<mapsto> v) = map_of (kv # kvs) ++ view s"
      using None by (auto simp: kv fun_eq_iff map_add_def split: option.splits)
    then have "view s'' = map_of (kv # kvs) ++ view s" by (simp only: s''(3) s'(3))
    with s'' show ?thesis by (intro exI [of _ s'']) (simp only: kv s' enter_all.simps fst_conv snd_conv bind.simps simp_thms)
  next
    case (Some v')
    then have "enter k v s = Some s" using enter_present [OF Cons.prems(1), of k v] by simp
    moreover have "dom (view s) \<union> fst ` set (kv # kvs) = dom (view s) \<union> fst ` set kvs"
      using Some by (auto simp: kv)
    then obtain s' where "enter_all kvs s = Some s'" "ok s'" "view s' = map_of kvs ++ view s" "fits s' = fits s"
      using Cons.IH [OF Cons.prems(1)] Cons.prems(2) by (metis (no_types))
    moreover have "map_of kvs ++ view s = map_of (kv # kvs) ++ view s"
      using Some by (auto simp: kv fun_eq_iff map_add_def split: option.splits)
    ultimately show ?thesis
      by (intro exI [of _ s']) (simp only: kv enter_all.simps fst_conv snd_conv bind.simps simp_thms)
  qed
qed

end

end
