(* ===== verification/Hsearch.thy ===== *)
theory Hsearch
  imports Search Keyed_Store
begin

text \<open>
  The hash tables of misc/hsearch_r.c and misc/hsearch.c: double hashing with open addressing in
  a table whose size is the first prime from the requested one on.

  A key is the bytes of a C string before its terminator; a pointer to an entry is the index of
  its slot. \<open>calloc\<close> is a parameter that says whether the allocation succeeds.
\<close>

section \<open>Data\<close>

datatype errno_code = EINVAL | ENOMEM | ESRCH

datatype ACTION = FIND | ENTER

record ENTRY =
  ekey :: "byte list"
  edata :: u64

record hslot =
  used :: u32
  entry :: ENTRY

record hsearch_data =
  table :: "hslot list option"
  hsize :: u32
  filled :: u32

section \<open>Creating and destroying a table\<close>

lemma odd_divisor_small:
  fixes d n :: u32
  assumes "d \<le> n div d"
  shows "unat d < 2 ^ 16"
proof (rule ccontr)
  assume "\<not> unat d < 2 ^ 16"
  then have "2 ^ 16 * 2 ^ 16 \<le> unat d * unat d"
    by (intro mult_mono) simp_all
  also have "\<dots> \<le> unat d * (unat n div unat d)"
    using assms by (intro mult_left_mono) (simp_all add: word_le_nat_alt unat_div)
  also have "\<dots> \<le> unat n" by simp
  finally show False using unsigned_less [of n, where 'a = nat] by simp
qed

lemma next_divisor:
  fixes d n :: u32
  assumes "d \<le> n div d"
  shows "unat (d + 2) = unat d + 2"
  using odd_divisor_small [OF assms] by (simp add: unat_add_mod)

function isprime_loop :: "u32 \<Rightarrow> u32 \<Rightarrow> bool" where
  "isprime_loop number d =
     (if d \<le> number div d then if number mod d = 0 then False else isprime_loop number (d + 2) else True)"
  by auto
termination
  by (relation "measure (\<lambda>(_, d). 2 ^ 32 - unat d)") (auto simp: next_divisor dest: odd_divisor_small)

declare isprime_loop.simps [simp del]

definition isprime :: "u32 \<Rightarrow> bool" where
  "isprime number = isprime_loop number 3"

text \<open>The search for the table size: \<open>None\<close> is the exit with ENOMEM. The argument of
  \<open>isprime\<close> is converted to an unsigned int.\<close>

definition UINT_MAX :: u64 where
  "UINT_MAX = 2 ^ 32 - 1"

function first_prime :: "u64 \<Rightarrow> u64 option" where
  "first_prime nel =
     (if UINT_MAX - 2 < nel then None else if isprime (ucast nel) then Some nel else first_prime (nel + 2))"
  by auto
termination
proof (relation "measure (\<lambda>nel. 2 ^ 32 + 1 - unat nel)")
  fix nel :: u64
  assume "\<not> UINT_MAX - 2 < nel"
  then have "unat nel \<le> 2 ^ 32 - 3"
    by (simp add: UINT_MAX_def word_less_nat_alt)
  then show "(nel + 2, nel) \<in> measure (\<lambda>nel. 2 ^ 32 + 1 - unat nel)"
    by (simp add: unat_add_mod)
qed simp

declare first_prime.simps [simp del]

definition hcreate_r ::
  "(u64 \<Rightarrow> bool) \<Rightarrow> u64 \<Rightarrow> hsearch_data option \<Rightarrow> bool \<times> errno_code option \<times> hsearch_data option" where
  "hcreate_r calloc nel htab =
     (case htab of
        None \<Rightarrow> (False, Some EINVAL, None)
      | Some h \<Rightarrow>
          if table h \<noteq> None then (False, None, Some h)
          else let nel = (if nel < 3 then 3 else nel) in
          (case first_prime (nel OR 1) of
             None \<Rightarrow> (False, Some ENOMEM, Some h)
           | Some nel \<Rightarrow>
               let h = h\<lparr>hsize := ucast nel, filled := 0\<rparr> in
               if calloc (ucast (hsize h + 1))
               then (True, None, Some (h\<lparr>table := Some (replicate (unat (hsize h + 1)) \<lparr>used = 0, entry = \<lparr>ekey = [], edata = 0\<rparr>\<rparr>)\<rparr>))
               else (False, None, Some (h\<lparr>table := None\<rparr>))))"

definition hdestroy_r :: "hsearch_data option \<Rightarrow> errno_code option \<times> hsearch_data option" where
  "hdestroy_r htab =
     (case htab of None \<Rightarrow> (Some EINVAL, None) | Some h \<Rightarrow> (None, Some (h\<lparr>table := None\<rparr>)))"

section \<open>Searching\<close>

text \<open>Plain \<open>char\<close> is signed, so that a byte is sign-extended before it is added.\<close>

fun hash_loop :: "byte list \<Rightarrow> nat \<Rightarrow> u32 \<Rightarrow> u32" where
  "hash_loop key 0 hval = hval"
| "hash_loop key (Suc count) hval = hash_loop key count (push_bit 4 hval + scast (key ! count))"

definition hash_value :: "byte list \<Rightarrow> u32" where
  "hash_value key =
     (let len = word_of_nat (length key); hval = hash_loop key (unat len) len in
      if hval = 0 then hval + 1 else hval)"

definition first_index :: "u32 \<Rightarrow> u32 \<Rightarrow> u32" where
  "first_index tsize hval = hval mod tsize + 1"

definition next_index :: "u32 \<Rightarrow> u32 \<Rightarrow> u32 \<Rightarrow> u32" where
  "next_index tsize hval2 idx = (if idx \<le> hval2 then tsize + idx - hval2 else idx - hval2)"

definition slot_matches :: "u32 \<Rightarrow> byte list \<Rightarrow> hslot \<Rightarrow> bool" where
  "slot_matches hval key e \<longleftrightarrow> used e = hval \<and> ekey (entry e) = key"

text \<open>The probe loop returns whether the key was found and the index it ended at. \<open>None\<close> is a
  loop that does not end or an access outside the table.\<close>

partial_function (option) probe ::
  "hslot list \<Rightarrow> u32 \<Rightarrow> byte list \<Rightarrow> u32 \<Rightarrow> u32 \<Rightarrow> u32 \<Rightarrow> u32 \<Rightarrow> (bool \<times> u32) option" where
  "probe t tsize key hval hval2 first_idx idx =
     (let idx = next_index tsize hval2 idx in
      if idx = first_idx then Some (False, idx)
      else if unat idx \<ge> length t then None
      else if slot_matches hval key (t ! unat idx) then Some (True, idx)
      else if used (t ! unat idx) \<noteq> 0 then probe t tsize key hval hval2 first_idx idx
      else Some (False, idx))"

definition locate :: "hslot list \<Rightarrow> u32 \<Rightarrow> byte list \<Rightarrow> (bool \<times> u32) option" where
  "locate t tsize key =
     (let hval = hash_value key; idx = first_index tsize hval in
      if unat idx \<ge> length t then None
      else if used (t ! unat idx) \<noteq> 0
      then if slot_matches hval key (t ! unat idx) then Some (True, idx)
           else probe t tsize key hval (1 + hval mod (tsize - 2)) idx idx
      else Some (False, idx))"

definition hsearch_r ::
  "ENTRY \<Rightarrow> ACTION \<Rightarrow> hsearch_data \<Rightarrow> (bool \<times> errno_code option \<times> u32 option \<times> hsearch_data) option" where
  "hsearch_r item action htab =
     Option.bind (table htab) (\<lambda>t.
     Option.bind (locate t (hsize htab) (ekey item)) (\<lambda>(found, idx).
       if found then Some (True, None, Some idx, htab)
       else if action = ENTER
       then if filled htab = hsize htab then Some (False, Some ENOMEM, None, htab)
            else Some (True, None, Some idx,
                   htab\<lparr>table := Some (t[unat idx := \<lparr>used = hash_value (ekey item), entry = item\<rparr>]),
                        filled := filled htab + 1\<rparr>)
       else Some (False, Some ESRCH, None, htab)))"

text \<open>misc/hsearch.c: the same operations on one static table.\<close>

definition hsearch :: "ENTRY \<Rightarrow> ACTION \<Rightarrow> hsearch_data \<Rightarrow> (u32 option \<times> hsearch_data) option" where
  "hsearch item action htab =
     map_option (\<lambda>(_, _, result, htab). (result, htab)) (hsearch_r item action htab)"

definition hcreate :: "(u64 \<Rightarrow> bool) \<Rightarrow> u64 \<Rightarrow> hsearch_data \<Rightarrow> bool \<times> hsearch_data" where
  "hcreate calloc nel htab =
     (let (r, _, h) = hcreate_r calloc nel (Some htab) in (r, the h))"

definition hdestroy :: "hsearch_data \<Rightarrow> hsearch_data" where
  "hdestroy htab = the (snd (hdestroy_r (Some htab)))"

section \<open>The table size is prime\<close>

definition prime_number :: "nat \<Rightarrow> bool" where
  "prime_number p \<longleftrightarrow> 1 < p \<and> (\<forall>d. d dvd p \<longrightarrow> d = 1 \<or> d = p)"

lemma prime_number_least_divisor:
  assumes "odd n" "3 \<le> n" "\<And>d. odd d \<Longrightarrow> 3 \<le> d \<Longrightarrow> d * d \<le> n \<Longrightarrow> \<not> d dvd n"
  shows "prime_number n"
  unfolding prime_number_def
proof (intro conjI allI impI)
  fix d assume "d dvd n"
  then obtain e where n: "n = d * e" by (auto elim: dvdE)
  then have "odd d" "odd e" using assms(1) by auto
  show "d = 1 \<or> d = n"
  proof (rule ccontr)
    assume "\<not> (d = 1 \<or> d = n)"
    then have "d \<noteq> 1" "e \<noteq> 1" using n by auto
    then have "3 \<le> d" "3 \<le> e"
      using \<open>odd d\<close> \<open>odd e\<close> by (auto elim!: oddE)
    moreover have "d * d \<le> n \<or> e * e \<le> n"
      unfolding n using nat_le_linear [of d e] by (auto intro: mult_le_mono)
    moreover have "e dvd n" using n by simp
    ultimately show False using assms(3) \<open>odd d\<close> \<open>odd e\<close> \<open>d dvd n\<close> by blast
  qed
qed (use assms(2) in simp)

lemma isprime_loop_correct:
  assumes "odd (unat d)" "3 \<le> unat d" "\<And>c. odd c \<Longrightarrow> 3 \<le> c \<Longrightarrow> c < unat d \<Longrightarrow> \<not> c dvd unat n"
  shows "isprime_loop n d \<longleftrightarrow> (\<forall>c. odd c \<longrightarrow> 3 \<le> c \<longrightarrow> c * c \<le> unat n \<longrightarrow> \<not> c dvd unat n)"
  using assms
proof (induction n d rule: isprime_loop.induct)
  case (1 n d)
  have sq: "d \<le> n div d \<longleftrightarrow> unat d * unat d \<le> unat n"
    using "1.prems"(2) by (simp add: word_le_nat_alt unat_div less_eq_div_iff_mult_less_eq)
  have dv: "n mod d = 0 \<longleftrightarrow> unat d dvd unat n"
    by (simp add: word_unat_eq_iff unat_mod dvd_eq_mod_eq_0)
  show ?case
  proof (cases "d \<le> n div d")
    case le: True
    show ?thesis
    proof (cases "n mod d = 0")
      case True
      then have "\<not> isprime_loop n d"
        using le by (simp add: isprime_loop.simps [of n d])
      then show ?thesis
        using True le "1.prems"(1,2) by (auto simp: sq dv)
    next
      case False
      have below: "\<not> c dvd unat n" if "odd c" "3 \<le> c" "c < unat (d + 2)" for c
      proof -
        have "c \<noteq> unat d + 1" using that(1) "1.prems"(1) by auto
        then have "c < unat d \<or> c = unat d"
          using that(3) by (simp add: next_divisor [OF le]) arith
        then show ?thesis
          using that "1.prems"(3) False by (auto simp: dv)
      qed
      have "isprime_loop n (d + 2) \<longleftrightarrow> (\<forall>c. odd c \<longrightarrow> 3 \<le> c \<longrightarrow> c * c \<le> unat n \<longrightarrow> \<not> c dvd unat n)"
        using "1.IH" [OF le False] below "1.prems"(1,2) by (simp add: next_divisor [OF le])
      then show ?thesis
        using le False by (simp add: isprime_loop.simps [of n d])
    qed
  next
    case False
    have "\<not> c dvd unat n" if "odd c" "3 \<le> c" "c * c \<le> unat n" for c
    proof -
      have "c * c < unat d * unat d" using that False by (simp add: sq)
      then have "c < unat d" by (metis mult_le_mono not_less)
      then show ?thesis using that "1.prems"(3) by blast
    qed
    then show ?thesis
      using False by (simp add: isprime_loop.simps [of n d])
  qed
qed

lemma isprime_correct:
  assumes "odd (unat n)" "3 \<le> unat n"
  shows "isprime n \<longleftrightarrow> prime_number (unat n)"
proof -
  have "isprime n \<longleftrightarrow> (\<forall>c. odd c \<longrightarrow> 3 \<le> c \<longrightarrow> c * c \<le> unat n \<longrightarrow> \<not> c dvd unat n)"
    unfolding isprime_def by (rule isprime_loop_correct) auto
  also have "\<dots> \<longleftrightarrow> prime_number (unat n)"
  proof
    assume "\<forall>c. odd c \<longrightarrow> 3 \<le> c \<longrightarrow> c * c \<le> unat n \<longrightarrow> \<not> c dvd unat n"
    then show "prime_number (unat n)"
      using assms by (intro prime_number_least_divisor) auto
  next
    assume p: "prime_number (unat n)"
    show "\<forall>c. odd c \<longrightarrow> 3 \<le> c \<longrightarrow> c * c \<le> unat n \<longrightarrow> \<not> c dvd unat n"
    proof (intro allI impI notI)
      fix c assume c: "3 \<le> c" "c * c \<le> unat n" "c dvd unat n"
      then have "c = unat n" using p by (auto simp: prime_number_def)
      with c show False by (auto simp: not_less [symmetric])
    qed
  qed
  finally show ?thesis .
qed

lemma prime_number_odd: "prime_number p \<Longrightarrow> 3 \<le> p \<Longrightarrow> odd p"
  by (rule notI) (auto simp: prime_number_def dest: spec [of _ 2])

definition prime_size :: "nat \<Rightarrow> bool" where
  "prime_size p \<longleftrightarrow> prime_number p \<and> 3 \<le> p \<and> p \<le> 2 ^ 32 - 3"

lemma first_prime_correct:
  assumes "odd (unat nel)" "3 \<le> unat nel"
  shows "case first_prime nel of
      None \<Rightarrow> \<forall>q \<ge> unat nel. \<not> prime_size q
    | Some p \<Rightarrow> unat nel \<le> unat p \<and> prime_size (unat p) \<and> (\<forall>q. unat nel \<le> q \<longrightarrow> q < unat p \<longrightarrow> \<not> prime_size q)"
  using assms
proof (induction nel rule: first_prime.induct)
  case (1 nel)
  have lim: "UINT_MAX - 2 < nel \<longleftrightarrow> 2 ^ 32 - 3 < unat nel"
    by (simp add: UINT_MAX_def word_less_nat_alt)
  show ?case
  proof (cases "UINT_MAX - 2 < nel")
    case True
    then show ?thesis
      by (auto simp: first_prime.simps [of nel] lim prime_size_def)
  next
    case small: False
    then have le: "unat nel \<le> 2 ^ 32 - 3" by (simp add: lim)
    have cast: "unat (ucast nel :: u32) = unat nel"
      using le by (simp add: unsigned_ucast_eq take_bit_nat_eq_self)
    have prime: "isprime (ucast nel) \<longleftrightarrow> prime_number (unat nel)"
      using isprime_correct [of "ucast nel"] "1.prems" by (simp add: cast)
    show ?thesis
    proof (cases "isprime (ucast nel)")
      case True
      then show ?thesis
        using small le "1.prems" by (simp add: first_prime.simps [of nel] prime prime_size_def)
    next
      case False
      have next2: "unat (nel + 2) = unat nel + 2" using le by (simp add: unat_add_mod)
      have skip: "\<not> prime_size q" if "unat nel \<le> q" "q < unat nel + 2" for q
      proof -
        have "q = unat nel \<or> q = unat nel + 1" using that by linarith
        then show ?thesis
          using False "1.prems" prime_number_odd [of "unat nel + 1"] by (auto simp: prime prime_size_def)
      qed
      have unfold: "first_prime nel = first_prime (nel + 2)"
        using small False by (simp add: first_prime.simps [of nel])
      from skip show ?thesis
        using "1.IH" [OF small False] "1.prems" unfolding unfold next2
        by (auto split: option.splits simp: not_less) (meson not_less)+
    qed
  qed
qed

section \<open>The probe sequence\<close>

text \<open>The slots visited for a key, as numbers: \<open>visit size i h j\<close> is the slot after \<open>j\<close> steps
  of \<open>h\<close> down from \<open>i\<close>. With a prime size every slot is visited once before the first one
  comes again.\<close>

definition visit :: "nat \<Rightarrow> nat \<Rightarrow> nat \<Rightarrow> nat \<Rightarrow> nat" where
  "visit p i h j = (i - 1 + j * (p - h)) mod p + 1"

lemma visit_range: "0 < p \<Longrightarrow> visit p i h j \<in> {1..p}"
  by (simp add: visit_def Suc_le_eq)

lemma visit_ends:
  assumes "i \<in> {1..p}"
  shows "visit p i h 0 = i" "visit p i h p = i"
proof -
  have "visit p i h 0 = (i - 1) mod p + 1" "visit p i h p = (i - 1) mod p + 1"
    by (simp_all only: visit_def mod_mult_self2 mod_mult_self1 mult_0 add_0_right mult.commute [of p])
  moreover have "i - 1 < p" using assms by auto
  ultimately show "visit p i h 0 = i" "visit p i h p = i" using assms by simp_all
qed

lemma visit_Suc:
  assumes "0 < h" "h < p"
  shows "visit p i h (Suc j) = (if visit p i h j \<le> h then p + visit p i h j - h else visit p i h j - h)"
proof -
  define x where "x = (i - 1 + j * (p - h)) mod p"
  have "x < p" using assms by (simp add: x_def)
  have "visit p i h (Suc j) = ((i - 1 + j * (p - h)) + (p - h)) mod p + 1"
    by (simp add: visit_def ac_simps)
  also have "\<dots> = (x + (p - h)) mod p + 1"
    by (simp only: x_def mod_add_left_eq)
  also have "(x + (p - h)) mod p = (if x < h then x + p - h else x - h)"
    using assms \<open>x < p\<close> by (auto simp: mod_if)
  finally have "visit p i h (Suc j) = (if x < h then x + p - h else x - h) + 1" .
  moreover have "visit p i h j = x + 1" by (simp add: visit_def x_def)
  ultimately show ?thesis using assms \<open>x < p\<close> by auto
qed

lemma prime_number_dvd_mult:
  assumes "prime_number p" "p dvd a * b" "0 < b" "b < p"
  shows "p dvd a"
proof -
  have "gcd p b = 1 \<or> gcd p b = p"
    using assms(1) by (simp add: prime_number_def)
  moreover have "gcd p b \<noteq> p"
  proof
    assume "gcd p b = p"
    then have "p dvd b" by (metis gcd_dvd2)
    then show False using assms(3,4) by (auto dest: dvd_imp_le)
  qed
  ultimately have "coprime p b" by (simp add: coprime_iff_gcd_eq_1)
  then show ?thesis using assms(2) by (simp add: coprime_dvd_mult_left_iff)
qed

lemma visit_inj:
  assumes "prime_number p" "0 < h" "h < p"
  shows "inj_on (visit p i h) {..<p}"
proof -
  have main: "j = k" if "j \<le> k" "k < p" "visit p i h j = visit p i h k" for j k
  proof -
    have "p dvd (i - 1 + k * (p - h)) - (i - 1 + j * (p - h))"
      using that by (intro mod_eq_dvd_iff_nat [THEN iffD1]) (auto simp: visit_def intro!: add_mono mult_mono)
    also have "(i - 1 + k * (p - h)) - (i - 1 + j * (p - h)) = (k - j) * (p - h)"
      by (simp add: diff_mult_distrib)
    finally have "p dvd k - j"
      using assms prime_number_dvd_mult [of p "k - j" "p - h"] by simp
    then show "j = k" using that by (auto dest: dvd_imp_le)
  qed
  show ?thesis
  proof (rule inj_onI)
    fix j k assume "j \<in> {..<p}" "k \<in> {..<p}" "visit p i h j = visit p i h k"
    then show "j = k" using main [of j k] main [of k j] by (cases "j \<le> k") auto
  qed
qed

lemma visit_all:
  assumes "prime_number p" "0 < h" "h < p"
  shows "visit p i h ` {..<p} = {1..p}"
proof (rule card_subset_eq)
  show "visit p i h ` {..<p} \<subseteq> {1..p}"
    using assms visit_range [of p i h] by (auto simp: prime_number_def)
  show "card (visit p i h ` {..<p}) = card {1..p}"
    by (simp add: card_image [OF visit_inj [OF assms]])
qed simp

text \<open>The probes of a key in a table of a given size.\<close>

abbreviation probe_start :: "u32 \<Rightarrow> byte list \<Rightarrow> nat" where
  "probe_start tsize k \<equiv> unat (first_index tsize (hash_value k))"

abbreviation probe_step :: "u32 \<Rightarrow> byte list \<Rightarrow> nat" where
  "probe_step tsize k \<equiv> unat (1 + hash_value k mod (tsize - 2))"

definition probes :: "u32 \<Rightarrow> byte list \<Rightarrow> nat \<Rightarrow> nat" where
  "probes tsize k j = visit (unat tsize) (probe_start tsize k) (probe_step tsize k) j"

lemma probe_start_range:
  assumes "prime_size (unat tsize)"
  shows "probe_start tsize k \<in> {1..unat tsize}"
proof -
  have "unat (hash_value k mod tsize) < unat tsize"
    using assms by (simp add: unat_mod prime_size_def)
  moreover have "unat tsize < 2 ^ 32 - 2" using assms by (simp add: prime_size_def)
  ultimately show ?thesis
    by (simp add: first_index_def unat_add_mod)
qed

lemma probe_step_range:
  assumes "prime_size (unat tsize)"
  shows "0 < probe_step tsize k" "probe_step tsize k < unat tsize"
proof -
  have sub: "unat (tsize - 2) = unat tsize - 2"
    using assms by (simp add: unat_sub_if' prime_size_def)
  have "unat (hash_value k mod (tsize - 2)) < unat tsize - 2"
    using assms by (simp add: unat_mod sub prime_size_def)
  moreover have "unat tsize < 2 ^ 32 - 2" using assms by (simp add: prime_size_def)
  ultimately have "probe_step tsize k = 1 + unat (hash_value k mod (tsize - 2))"
      "unat (hash_value k mod (tsize - 2)) < unat tsize - 2"
    by (simp_all add: unat_add_mod)
  then show "0 < probe_step tsize k" "probe_step tsize k < unat tsize" by simp_all
qed

lemma probes_inj: "prime_size (unat tsize) \<Longrightarrow> inj_on (probes tsize k) {..<unat tsize}"
  unfolding probes_def by (rule visit_inj) (simp_all add: probe_step_range prime_size_def)

lemma probes_all: "prime_size (unat tsize) \<Longrightarrow> probes tsize k ` {..<unat tsize} = {1..unat tsize}"
  unfolding probes_def by (rule visit_all) (simp_all add: probe_step_range prime_size_def)

lemma probes_range: "prime_size (unat tsize) \<Longrightarrow> probes tsize k j \<in> {1..unat tsize}"
  unfolding probes_def by (rule visit_range) (simp add: prime_size_def)

lemma probes_ends:
  "prime_size (unat tsize) \<Longrightarrow> probes tsize k 0 = probe_start tsize k"
  "prime_size (unat tsize) \<Longrightarrow> probes tsize k (unat tsize) = probe_start tsize k"
  using visit_ends [OF probe_start_range] by (simp_all add: probes_def)

lemma unat_next_index:
  assumes "idx \<noteq> 0" "unat idx \<le> unat tsize" "0 < unat h" "unat h < unat tsize"
  shows "unat (next_index tsize h idx) = (if unat idx \<le> unat h then unat tsize + unat idx - unat h else unat idx - unat h)"
proof -
  have "tsize + idx - h = word_of_nat (unat tsize + unat idx - unat h)"
    using assms by (simp add: of_nat_diff word_of_nat_unat)
  moreover have "unat tsize + unat idx - unat h < 2 ^ 32" if "unat idx \<le> unat h"
    using that unsigned_less [of tsize, where 'a = nat] by simp
  ultimately show ?thesis
    by (auto simp: next_index_def word_le_nat_alt unat_word_of_nat_mod unat_sub_if')
qed

lemma next_probe:
  assumes "prime_size (unat tsize)"
  shows "next_index tsize (1 + hash_value k mod (tsize - 2)) (word_of_nat (probes tsize k j)) =
    word_of_nat (probes tsize k (Suc j))"
proof -
  let ?x = "probes tsize k"
  have lt: "?x i < 2 ^ 32" "?x i \<noteq> 0" "?x i \<le> unat tsize" for i
    using probes_range [OF assms, of k i] unsigned_less [of tsize, where 'a = nat] by auto
  then have u: "unat (word_of_nat (?x i) :: u32) = ?x i" for i
    by (simp add: unat_word_of_nat_mod)
  have step: "?x (Suc j) = (if ?x j \<le> probe_step tsize k then unat tsize + ?x j - probe_step tsize k else ?x j - probe_step tsize k)"
    unfolding probes_def by (rule visit_Suc [OF probe_step_range [OF assms]])
  have "unat (next_index tsize (1 + hash_value k mod (tsize - 2)) (word_of_nat (?x j))) = ?x (Suc j)"
    using lt(2,3) [of j] probe_step_range [OF assms, of k]
    by (subst unat_next_index) (simp_all add: u step word_unat_eq_iff)
  then show ?thesis by (metis word_of_nat_unat)
qed

section \<open>What a search finds\<close>

lemma unat_probe:
  assumes "prime_size (unat tsize)"
  shows "unat (word_of_nat (probes tsize k j) :: u32) = probes tsize k j"
  using probes_range [OF assms, of k j] unsigned_less [of tsize, where 'a = nat]
  by (simp add: unat_word_of_nat_mod)

text \<open>A search walks along used slots that do not match and stops at slot number \<open>n\<close>: where the
  key is, at an unused slot, or back at the first one when all are used.\<close>

definition search_ends :: "hslot list \<Rightarrow> u32 \<Rightarrow> byte list \<Rightarrow> nat \<Rightarrow> bool \<Rightarrow> bool" where
  "search_ends t tsize k n found \<longleftrightarrow>
     n \<le> unat tsize \<and>
     (\<forall>m<n. used (t ! probes tsize k m) \<noteq> 0 \<and> \<not> slot_matches (hash_value k) k (t ! probes tsize k m)) \<and>
     (if n < unat tsize
      then (found \<longleftrightarrow> slot_matches (hash_value k) k (t ! probes tsize k n)) \<and>
           (found \<or> used (t ! probes tsize k n) = 0)
      else \<not> found)"

lemma probe_ends:
  assumes p: "prime_size (unat tsize)" and len: "length t = unat tsize + 1"
    and "j < unat tsize"
    and "\<forall>m\<le>j. used (t ! probes tsize k m) \<noteq> 0 \<and> \<not> slot_matches (hash_value k) k (t ! probes tsize k m)"
  shows "\<exists>n found. probe t tsize k (hash_value k) (1 + hash_value k mod (tsize - 2)) (word_of_nat (probes tsize k 0))
      (word_of_nat (probes tsize k j)) = Some (found, word_of_nat (probes tsize k n)) \<and> search_ends t tsize k n found"
  using assms(3,4)
proof (induction "unat tsize - j" arbitrary: j rule: less_induct)
  case less
  let ?x = "probes tsize k"
  have range: "?x (Suc j) \<le> unat tsize" using probes_range [OF p, of k "Suc j"] by simp
  show ?case
  proof (cases "Suc j = unat tsize")
    case True
    then have "?x (Suc j) = ?x 0" by (simp add: probes_ends [OF p])
    moreover have "search_ends t tsize k (Suc j) False"
      using less.prems True by (auto simp: search_ends_def less_Suc_eq_le)
    ultimately show ?thesis
      by (intro exI [of _ "Suc j"] exI [of _ False], subst probe.simps) (simp add: Let_def next_probe [OF p])
  next
    case False
    then have j: "Suc j < unat tsize" using less.prems(1) by simp
    have "?x (Suc j) \<noteq> ?x 0"
      using inj_on_eq_iff [OF probes_inj [OF p], of "Suc j" 0 k] j by simp
    then have ne: "(word_of_nat (?x (Suc j)) :: u32) \<noteq> word_of_nat (?x 0)"
      by (metis unat_probe [OF p])
    have unfold: "probe t tsize k (hash_value k) (1 + hash_value k mod (tsize - 2)) (word_of_nat (?x 0)) (word_of_nat (?x j)) =
        (if slot_matches (hash_value k) k (t ! ?x (Suc j)) then Some (True, word_of_nat (?x (Suc j)))
         else if used (t ! ?x (Suc j)) \<noteq> 0
         then probe t tsize k (hash_value k) (1 + hash_value k mod (tsize - 2)) (word_of_nat (?x 0)) (word_of_nat (?x (Suc j)))
         else Some (False, word_of_nat (?x (Suc j))))"
      using ne range len by (subst probe.simps) (simp add: Let_def next_probe [OF p] unat_probe [OF p])
    show ?thesis
    proof (cases "used (t ! ?x (Suc j)) \<noteq> 0 \<and> \<not> slot_matches (hash_value k) k (t ! ?x (Suc j))")
      case True
      have "\<forall>m\<le>Suc j. used (t ! ?x m) \<noteq> 0 \<and> \<not> slot_matches (hash_value k) k (t ! ?x m)"
        using less.prems(2) True by (auto simp: le_Suc_eq)
      with less.hyps [of "Suc j"] j less.prems(1) show ?thesis
        unfolding unfold using True by simp
    next
      case False
      then have "search_ends t tsize k (Suc j) (slot_matches (hash_value k) k (t ! ?x (Suc j)))"
        using j less.prems(2) by (auto simp: search_ends_def less_Suc_eq_le)
      then show ?thesis unfolding unfold using False by auto
    qed
  qed
qed

lemma locate_ends:
  assumes p: "prime_size (unat tsize)" and len: "length t = unat tsize + 1"
  shows "\<exists>n found. locate t tsize k = Some (found, word_of_nat (probes tsize k n)) \<and> search_ends t tsize k n found"
proof -
  let ?x = "probes tsize k"
  have start: "first_index tsize (hash_value k) = word_of_nat (?x 0)"
    by (simp add: probes_ends [OF p] word_of_nat_unat)
  have unfold: "locate t tsize k =
      (if used (t ! ?x 0) \<noteq> 0
       then if slot_matches (hash_value k) k (t ! ?x 0) then Some (True, word_of_nat (?x 0))
            else probe t tsize k (hash_value k) (1 + hash_value k mod (tsize - 2)) (word_of_nat (?x 0)) (word_of_nat (?x 0))
       else Some (False, word_of_nat (?x 0)))"
    using probes_range [OF p, of k 0] len by (simp add: locate_def Let_def start unat_probe [OF p])
  have pos: "0 < unat tsize" using p by (simp add: prime_size_def)
  have hv: "hash_value k \<noteq> 0" by (simp add: hash_value_def Let_def)
  show ?thesis
  proof (cases "used (t ! ?x 0) \<noteq> 0 \<and> \<not> slot_matches (hash_value k) k (t ! ?x 0)")
    case True
    then show ?thesis
      using probe_ends [OF p len pos, of k] unfolding unfold by simp
  next
    case False
    then have "search_ends t tsize k 0 (slot_matches (hash_value k) k (t ! ?x 0))"
      using pos by (auto simp: search_ends_def)
    then show ?thesis unfolding unfold using False hv
      by (intro exI [of _ 0] exI [of _ "slot_matches (hash_value k) k (t ! ?x 0)"]) (auto simp: slot_matches_def)
  qed
qed

section \<open>The table as a map\<close>

text \<open>Every used slot holds the hash of its key, and the slots probed for that key before it
  are used and hold other keys.\<close>

definition slot_ok :: "hslot list \<Rightarrow> u32 \<Rightarrow> nat \<Rightarrow> bool" where
  "slot_ok t tsize i \<longleftrightarrow>
     (let k = ekey (entry (t ! i)) in used (t ! i) = hash_value k \<and>
      (\<exists>j<unat tsize. i = probes tsize k j \<and>
         (\<forall>m<j. used (t ! probes tsize k m) \<noteq> 0 \<and> ekey (entry (t ! probes tsize k m)) \<noteq> k)))"

definition used_slots :: "hsearch_data \<Rightarrow> nat set" where
  "used_slots h = {i \<in> {1..unat (hsize h)}. used (the (table h) ! i) \<noteq> 0}"

definition wf_table :: "hsearch_data \<Rightarrow> bool" where
  "wf_table h \<longleftrightarrow>
     (\<exists>t. table h = Some t \<and> length t = unat (hsize h) + 1) \<and> prime_size (unat (hsize h)) \<and>
     unat (filled h) = card (used_slots h) \<and> (\<forall>i\<in>used_slots h. slot_ok (the (table h)) (hsize h) i)"

text \<open>The keys and data of the used slots.\<close>

definition contents :: "hsearch_data \<Rightarrow> (byte list \<rightharpoonup> u64)" where
  "contents h = map_of (map (\<lambda>e. (ekey (entry e), edata (entry e))) (filter (\<lambda>e. used e \<noteq> 0) (tl (the (table h)))))"

lemma finite_used_slots [simp]: "finite (used_slots h)"
  by (simp add: used_slots_def)

lemma wf_table_distinct:
  assumes "wf_table h" "i \<in> used_slots h" "i' \<in> used_slots h"
    and "ekey (entry (the (table h) ! i)) = ekey (entry (the (table h) ! i'))"
  shows "i = i'"
proof -
  have "slot_ok (the (table h)) (hsize h) i" "slot_ok (the (table h)) (hsize h) i'"
    using assms(1-3) by (auto simp: wf_table_def)
  then obtain j j' where j: "i = probes (hsize h) (ekey (entry (the (table h) ! i))) j"
      "\<forall>m<j. ekey (entry (the (table h) ! probes (hsize h) (ekey (entry (the (table h) ! i))) m)) \<noteq> ekey (entry (the (table h) ! i))"
    and j': "i' = probes (hsize h) (ekey (entry (the (table h) ! i'))) j'"
      "\<forall>m<j'. ekey (entry (the (table h) ! probes (hsize h) (ekey (entry (the (table h) ! i'))) m)) \<noteq> ekey (entry (the (table h) ! i'))"
    unfolding slot_ok_def Let_def by blast
  then show ?thesis
    using assms(4) by (metis linorder_neqE_nat)
qed

lemma set_tl_used:
  assumes "length t = unat n + 1"
  shows "set (filter P (tl t)) = (!) t ` {i \<in> {1..unat n}. P (t ! i)}"
proof -
  have "set (tl t) = (!) t ` {1..unat n}"
  proof -
    have "tl t = map ((!) t) [1..<length t]"
      by (rule nth_equalityI) (simp_all add: nth_tl)
    then have "set (tl t) = (!) t ` {1..<length t}" by (metis set_map set_upt)
    moreover have "{1..<length t} = {1..unat n}" using assms by auto
    ultimately show ?thesis by simp
  qed
  then show ?thesis by (simp only: set_filter) blast
qed

lemma map_of_by_set:
  assumes "\<And>e e'. e \<in> set xs \<Longrightarrow> e' \<in> set xs \<Longrightarrow> f e = f e' \<Longrightarrow> g e = g e'"
  shows "map_of (map (\<lambda>e. (f e, g e)) xs) k = Some v \<longleftrightarrow> (\<exists>e\<in>set xs. f e = k \<and> g e = v)"
  using assms
proof (induction xs)
  case (Cons x xs)
  have IH: "map_of (map (\<lambda>e. (f e, g e)) xs) k = Some v \<longleftrightarrow> (\<exists>e\<in>set xs. f e = k \<and> g e = v)"
    by (rule Cons.IH, rule Cons.prems) simp_all
  show ?case
  proof (cases "f x = k")
    case True
    then show ?thesis using Cons.prems [of x] by auto
  next
    case False
    then show ?thesis using IH by simp
  qed
qed simp

lemma option_eqI_by_Some: "(\<And>v. x = Some v \<longleftrightarrow> y = Some v) \<Longrightarrow> x = y"
  by (cases x; cases y) auto

lemma ENTRY_eq_iff: "e = \<lparr>ekey = k, edata = d\<rparr> \<longleftrightarrow> ekey e = k \<and> edata e = d"
  by (cases e) simp

lemma contents_iff:
  assumes "wf_table h"
  shows "contents h k = Some d \<longleftrightarrow>
    (\<exists>i\<in>used_slots h. entry (the (table h) ! i) = \<lparr>ekey = k, edata = d\<rparr>)"
proof -
  obtain t where t: "table h = Some t" "length t = unat (hsize h) + 1"
    using assms by (auto simp: wf_table_def)
  have set: "set (filter (\<lambda>e. used e \<noteq> 0) (tl t)) = (!) t ` used_slots h"
    unfolding set_tl_used [OF t(2)] used_slots_def t option.sel ..
  have one: "edata (entry e) = edata (entry e')"
    if "e \<in> (!) t ` used_slots h" "e' \<in> (!) t ` used_slots h" "ekey (entry e) = ekey (entry e')" for e e'
    using that wf_table_distinct [OF assms] by (auto simp: t)
  have "contents h k = Some d \<longleftrightarrow> (\<exists>e\<in>(!) t ` used_slots h. ekey (entry e) = k \<and> edata (entry e) = d)"
    unfolding contents_def t option.sel set [symmetric]
    by (rule map_of_by_set) (simp only: set, rule one)
  then show ?thesis by (simp add: t ENTRY_eq_iff)
qed

lemma dom_contents:
  assumes "wf_table h"
  shows "dom (contents h) = (\<lambda>i. ekey (entry (the (table h) ! i))) ` used_slots h"
  using contents_iff [OF assms] by (auto simp: dom_def image_iff ENTRY_eq_iff)

lemma card_contents:
  assumes "wf_table h"
  shows "card (dom (contents h)) = unat (filled h)"
proof -
  have "inj_on (\<lambda>i. ekey (entry (the (table h) ! i))) (used_slots h)"
    using wf_table_distinct [OF assms] by (auto intro: inj_onI)
  then show ?thesis
    using assms by (simp add: dom_contents card_image wf_table_def)
qed

lemma search_found:
  assumes "wf_table h" "search_ends (the (table h)) (hsize h) k n True"
  shows "probes (hsize h) k n \<in> used_slots h" "ekey (entry (the (table h) ! probes (hsize h) k n)) = k"
proof -
  have "hash_value k \<noteq> 0" by (simp add: hash_value_def Let_def)
  moreover have "prime_size (unat (hsize h))" using assms(1) by (simp add: wf_table_def)
  ultimately show "probes (hsize h) k n \<in> used_slots h" "ekey (entry (the (table h) ! probes (hsize h) k n)) = k"
    using assms(2) probes_range [of "hsize h" k n]
    by (auto simp: search_ends_def slot_matches_def used_slots_def split: if_splits)
qed

lemma search_not_found:
  assumes "wf_table h" "search_ends (the (table h)) (hsize h) k n False" "i \<in> used_slots h"
  shows "ekey (entry (the (table h) ! i)) \<noteq> k"
proof
  assume k: "ekey (entry (the (table h) ! i)) = k"
  have "slot_ok (the (table h)) (hsize h) i"
    using assms(1,3) by (auto simp: wf_table_def)
  then obtain j where j: "j < unat (hsize h)" "i = probes (hsize h) k j" "used (the (table h) ! i) = hash_value k"
      "\<forall>m<j. used (the (table h) ! probes (hsize h) k m) \<noteq> 0"
    unfolding slot_ok_def Let_def k by blast
  then have match: "slot_matches (hash_value k) k (the (table h) ! probes (hsize h) k j)"
    using k by (simp add: slot_matches_def)
  have "hash_value k \<noteq> 0" by (simp add: hash_value_def Let_def)
  then show False
    using assms(2) match j nat_neq_iff [of j n] by (auto simp: search_ends_def split: if_splits)
qed

lemma search_room:
  assumes "wf_table h" "search_ends (the (table h)) (hsize h) k n False" "filled h \<noteq> hsize h"
  shows "n < unat (hsize h)"
proof (rule ccontr)
  assume n: "\<not> n < unat (hsize h)"
  have p: "prime_size (unat (hsize h))" using assms(1) by (simp add: wf_table_def)
  have "used (the (table h) ! probes (hsize h) k j) \<noteq> 0" if "j < unat (hsize h)" for j
    using assms(2) n that by (auto simp: search_ends_def)
  then have "{1..unat (hsize h)} \<subseteq> {i. used (the (table h) ! i) \<noteq> 0}"
    unfolding probes_all [OF p, of k, symmetric] by auto
  then have "used_slots h = {1..unat (hsize h)}" by (auto simp: used_slots_def)
  then show False
    using assms(1,3) by (simp add: wf_table_def word_unat_eq_iff)
qed

lemma slot_ok_kept:
  assumes ok: "slot_ok t tsize i'" and i: "used (t ! i) = 0" "i' \<noteq> i" "i < length t" "used e \<noteq> 0"
  shows "slot_ok (t[i := e]) tsize i'"
proof -
  have "used (t[i := e] ! m) \<noteq> 0 \<and> ekey (entry (t[i := e] ! m)) \<noteq> k"
    if "used (t ! m) \<noteq> 0" "ekey (entry (t ! m)) \<noteq> k" for m k
    using that i(1,3) by (metis nth_list_update_neq)
  moreover have "t[i := e] ! i' = t ! i'" using i(2) by simp
  ultimately show ?thesis
    using ok unfolding slot_ok_def Let_def by auto
qed

text \<open>Entering a key that is not in the table at the unused slot where the search ended.\<close>

lemma enter_slot:
  fixes h item
  defines "k \<equiv> ekey item"
  assumes wf: "wf_table h" and s: "search_ends (the (table h)) (hsize h) k n False" and n: "n < unat (hsize h)"
  defines "i \<equiv> probes (hsize h) k n"
  defines "h' \<equiv> h\<lparr>table := Some ((the (table h))[i := \<lparr>used = hash_value k, entry = item\<rparr>]), filled := filled h + 1\<rparr>"
  shows "wf_table h'" "contents h' = (contents h)(k \<mapsto> edata item)" "i \<notin> used_slots h"
proof -
  obtain t where t: "table h = Some t" "length t = unat (hsize h) + 1"
    using wf by (auto simp: wf_table_def)
  have p: "prime_size (unat (hsize h))" using wf by (simp add: wf_table_def)
  let ?e = "\<lparr>used = hash_value k, entry = item\<rparr>"
  have hv: "hash_value k \<noteq> 0" by (simp add: hash_value_def Let_def)
  have i: "i \<in> {1..unat (hsize h)}" "used (t ! i) = 0"
    using probes_range [OF p, of k n] s n by (auto simp: i_def t search_ends_def)
  then have len: "i < length t" by (simp add: t)
  show notin: "i \<notin> used_slots h" using i by (simp add: used_slots_def t)
  have used': "used_slots h' = insert i (used_slots h)"
    using i(1) len hv by (auto simp: used_slots_def h'_def t nth_list_update)
  have "used_slots h \<subset> {1..unat (hsize h)}"
    using notin i(1) unfolding used_slots_def by blast
  then have "card (used_slots h) < card {1..unat (hsize h)}"
    by (rule psubset_card_mono [OF finite_atLeastAtMost])
  then have filled': "unat (filled h + 1) = card (used_slots h')"
    using wf p notin unfolding used' by (simp add: wf_table_def unat_add_mod prime_size_def)
  have "slot_ok (t[i := ?e]) (hsize h) i"
  proof -
    have "used (t[i := ?e] ! probes (hsize h) k m) \<noteq> 0 \<and> ekey (entry (t[i := ?e] ! probes (hsize h) k m)) \<noteq> k" if "m < n" for m
    proof -
      have "probes (hsize h) k m \<noteq> i"
        using inj_on_eq_iff [OF probes_inj [OF p], of m n k] that n by (simp add: i_def)
      moreover have "used (t ! probes (hsize h) k m) \<noteq> 0"
        using s that by (simp add: search_ends_def t)
      moreover from this have "ekey (entry (t ! probes (hsize h) k m)) \<noteq> k"
        using search_not_found [OF wf s, of "probes (hsize h) k m"] probes_range [OF p, of k m]
        by (simp add: used_slots_def t)
      ultimately show ?thesis by simp
    qed
    then show ?thesis using len n by (auto simp: slot_ok_def Let_def k_def i_def)
  qed
  moreover have "slot_ok (t[i := ?e]) (hsize h) i'" if "i' \<in> used_slots h" for i'
    using that wf i(2) len hv notin by (intro slot_ok_kept) (auto simp: wf_table_def t)
  ultimately have slots: "\<forall>i'\<in>used_slots h'. slot_ok (t[i := ?e]) (hsize h) i'"
    unfolding used' by blast
  show wf': "wf_table h'"
    using t p filled' slots by (simp add: wf_table_def h'_def)
  show "contents h' = (contents h)(k \<mapsto> edata item)"
  proof (rule ext, rule option_eqI_by_Some)
    fix x d
    have "contents h' x = Some d \<longleftrightarrow> (\<exists>i'\<in>insert i (used_slots h). entry (t[i := ?e] ! i') = \<lparr>ekey = x, edata = d\<rparr>)"
      unfolding contents_iff [OF wf'] used' by (simp add: h'_def t)
    also have "\<dots> \<longleftrightarrow> item = \<lparr>ekey = x, edata = d\<rparr> \<or> contents h x = Some d"
      unfolding contents_iff [OF wf] using len notin by (auto simp: t nth_list_update)
    also have "\<dots> \<longleftrightarrow> ((contents h)(k \<mapsto> edata item)) x = Some d"
      using search_not_found [OF wf s] contents_iff [OF wf, of k d] by (auto simp: ENTRY_eq_iff k_def)
    finally show "contents h' x = Some d \<longleftrightarrow> ((contents h)(k \<mapsto> edata item)) x = Some d" .
  qed
qed

lemma empty_table:
  assumes "table h = Some (replicate (unat (hsize h) + 1) e)" "used e = 0" "filled h = 0" "prime_size (unat (hsize h))"
  shows "wf_table h" "contents h = Map.empty"
proof -
  have "used_slots h = {}" by (auto simp: used_slots_def assms simp del: replicate_Suc)
  then show "wf_table h" by (simp add: wf_table_def assms)
  show "contents h = Map.empty" by (auto simp: contents_def assms)
qed

lemma unat_or_1: "unat (w OR 1) = unat w + of_bool (even (unat w))" for w :: "'a::len word"
  by (subst unsigned_or_eq) (simp only: unsigned_1 or_one_eq)

section \<open>Properties\<close>

lemma hcreate_r_cases:
  assumes "table h = None"
  shows "(\<exists>p. prime_size p \<and> unat nel \<le> p \<and> (\<forall>q. prime_size q \<longrightarrow> unat nel \<le> q \<longrightarrow> p \<le> q) \<and>
      (if calloc (word_of_nat (p + 1))
       then \<exists>h'. hcreate_r calloc nel (Some h) = (True, None, Some h') \<and> unat (hsize h') = p \<and>
              wf_table h' \<and> contents h' = Map.empty
       else \<exists>h'. hcreate_r calloc nel (Some h) = (False, None, Some h') \<and> table h' = None))
    \<or> (\<forall>q. prime_size q \<longrightarrow> q < unat nel) \<and> hcreate_r calloc nel (Some h) = (False, Some ENOMEM, Some h)"
proof -
  define n where "n = (if nel < 3 then 3 else nel) OR 1"
  have max: "unat n = max 3 (unat nel) + of_bool (even (max 3 (unat nel)))"
    unfolding n_def unat_or_1 by (simp add: word_less_nat_alt max_def)
  then have n: "odd (unat n)" "3 \<le> unat n" "unat nel \<le> unat n"
    by (auto simp: of_bool_def)
  have skip: "unat n \<le> q" if "prime_size q" "unat nel \<le> q" for q
  proof -
    have "odd q" "max 3 (unat nel) \<le> q"
      using that prime_number_odd by (auto simp: prime_size_def)
    then show ?thesis unfolding max by (cases "q = max 3 (unat nel)") (auto simp: of_bool_def)
  qed
  show ?thesis
  proof (cases "first_prime n")
    case None
    have none: "\<not> prime_size q" if "unat n \<le> q" for q
      using first_prime_correct [OF n(1,2)] None that by simp
    then have "\<forall>q. prime_size q \<longrightarrow> q < unat nel"
      using skip not_le by blast
    then show ?thesis
      using None assms by (simp add: hcreate_r_def Let_def n_def)
  next
    case (Some p)
    then have p: "unat n \<le> unat p" "prime_size (unat p)" "\<And>q. unat n \<le> q \<Longrightarrow> q < unat p \<Longrightarrow> \<not> prime_size q"
      using first_prime_correct [OF n(1,2)] by auto
    have least: "\<forall>q. prime_size q \<longrightarrow> unat nel \<le> q \<longrightarrow> unat p \<le> q"
      using p(3) skip not_le by blast
    have sz: "unat (ucast p :: u32) = unat p"
      using p(2) by (simp add: prime_size_def unsigned_ucast_eq take_bit_nat_eq_self)
    have sz1: "unat (ucast p + 1 :: u32) = unat p + 1"
      using p(2) by (simp add: prime_size_def unat_add_mod sz)
    have cells: "(ucast (ucast p + 1 :: u32) :: u64) = word_of_nat (unat p + 1)"
      using p(2) sz1 by (simp add: word_unat_eq_iff unat_add_mod prime_size_def)
    define h' where "h' = h\<lparr>hsize := ucast p, filled := 0,
      table := Some (replicate (unat p + 1) \<lparr>used = 0, entry = \<lparr>ekey = [], edata = 0\<rparr>\<rparr>)\<rparr>"
    have wf: "wf_table h'" and "contents h' = Map.empty"
      using empty_table [of h'] p(2) by (simp_all add: h'_def sz)
    moreover have "hcreate_r calloc nel (Some h) =
        (if calloc (word_of_nat (unat p + 1)) then (True, None, Some h')
         else (False, None, Some (h\<lparr>hsize := ucast p, filled := 0, table := None\<rparr>)))"
      using Some assms sz1 cells by (simp add: hcreate_r_def Let_def n_def h'_def)
    ultimately show ?thesis
      using p(2) least wf n(3) p(1) by (intro disjI1 exI [of _ "unat p"]) (auto simp: h'_def sz)
  qed
qed

text \<open>C33. hcreate_r on a table that is not in use: it ends for every requested size. It takes the
  least prime from the request (at least 3) on and makes a well-formed empty table of that size,
  or fails with ENOMEM when there is no such prime up to UINT_MAX - 2, or fails without errno of
  its own when calloc does. A table in use and a null pointer are refused unchanged.\<close>

theorem hcreate_r_prime_table:
  assumes "table h = None"
  shows "(\<exists>p. prime_size p \<and> unat nel \<le> p \<and> (\<forall>q. prime_size q \<longrightarrow> unat nel \<le> q \<longrightarrow> p \<le> q) \<and>
      (if calloc (word_of_nat (p + 1))
       then \<exists>h'. hcreate_r calloc nel (Some h) = (True, None, Some h') \<and> unat (hsize h') = p \<and>
              wf_table h' \<and> contents h' = Map.empty
       else \<exists>h'. hcreate_r calloc nel (Some h) = (False, None, Some h') \<and> table h' = None))
    \<or> (\<forall>q. prime_size q \<longrightarrow> q < unat nel) \<and> hcreate_r calloc nel (Some h) = (False, Some ENOMEM, Some h)"
  using assms by (rule hcreate_r_cases)

theorem hcreate_r_prime_table_witness:
  "\<exists>h'. hcreate_r (\<lambda>_. True) 8 (Some \<lparr>table = None, hsize = 0, filled = 0\<rparr>) = (True, None, Some h') \<and>
     wf_table h' \<and> contents h' = Map.empty \<and> 8 \<le> unat (hsize h')"
proof -
  let ?h = "\<lparr>table = None, hsize = 0, filled = 0\<rparr>"
  have "first_prime (9 :: u64) = Some 11"
    by (simp add: first_prime.simps UINT_MAX_def isprime_def isprime_loop.simps)
  then have "hcreate_r (\<lambda>_. True) 8 (Some ?h) \<noteq> (False, Some ENOMEM, Some ?h)"
    by (simp add: hcreate_r_def Let_def)
  then show ?thesis
    using hcreate_r_prime_table [of ?h 8 "\<lambda>_. True"] by auto
qed

lemma hsearch_map_laws:
  assumes wf: "wf_table h"
  shows "(case contents h (ekey item) of
      Some d \<Rightarrow> \<exists>idx. hsearch_r item action h = Some (True, None, Some idx, h) \<and>
        unat idx \<in> used_slots h \<and> entry (the (table h) ! unat idx) = \<lparr>ekey = ekey item, edata = d\<rparr>
    | None \<Rightarrow>
        if action = FIND then hsearch_r item action h = Some (False, Some ESRCH, None, h)
        else if card (dom (contents h)) = unat (hsize h)
        then hsearch_r item action h = Some (False, Some ENOMEM, None, h)
        else \<exists>idx h'. hsearch_r item action h = Some (True, None, Some idx, h') \<and> unat idx \<notin> used_slots h \<and>
          wf_table h' \<and> contents h' = (contents h)(ekey item \<mapsto> edata item) \<and> hsize h' = hsize h \<and>
          the (table h') ! unat idx = \<lparr>used = hash_value (ekey item), entry = item\<rparr> \<and>
          (\<forall>i. i \<noteq> unat idx \<longrightarrow> the (table h') ! i = the (table h) ! i))"
proof -
  let ?k = "ekey item"
  obtain t where t: "table h = Some t" "length t = unat (hsize h) + 1" and p: "prime_size (unat (hsize h))"
    using wf by (auto simp: wf_table_def)
  obtain n found where loc: "locate t (hsize h) ?k = Some (found, word_of_nat (probes (hsize h) ?k n))"
      and ends: "search_ends (the (table h)) (hsize h) ?k n found"
    using locate_ends [OF p t(2), of ?k] t(1) by auto
  have u: "unat (word_of_nat (probes (hsize h) ?k n) :: u32) = probes (hsize h) ?k n"
    by (rule unat_probe [OF p])
  have range: "probes (hsize h) ?k n < length t"
    using probes_range [OF p, of ?k n] by (simp add: t)
  show ?thesis
  proof (cases found)
    case True
    then have "search_ends (the (table h)) (hsize h) ?k n True" using ends by simp
    note fnd = search_found [OF wf this]
    then obtain d where d: "entry (t ! probes (hsize h) ?k n) = \<lparr>ekey = ?k, edata = d\<rparr>"
      by (simp add: t ENTRY_eq_iff)
    then have "contents h ?k = Some d"
      using fnd(1) unfolding contents_iff [OF wf] by (auto simp: t)
    then show ?thesis
      using True fnd(1) d loc by (simp add: hsearch_r_def t u)
  next
    case False
    then have ends: "search_ends (the (table h)) (hsize h) ?k n False" using ends by simp
    have "\<nexists>d. contents h ?k = Some d"
      using search_not_found [OF wf ends] unfolding contents_iff [OF wf] by (auto simp: ENTRY_eq_iff)
    then have none: "contents h ?k = None" by (cases "contents h ?k") auto
    have full: "filled h = hsize h \<longleftrightarrow> card (dom (contents h)) = unat (hsize h)"
      by (simp add: card_contents [OF wf] word_unat_eq_iff)
    show ?thesis
    proof (cases "action = FIND \<or> filled h = hsize h")
      case True
      then show ?thesis using False loc none full by (cases action) (auto simp: hsearch_r_def t)
    next
      case room: False
      then have n: "n < unat (hsize h)" using search_room [OF wf ends] by simp
      have act: "action = ENTER" using room by (cases action) auto
      show ?thesis
        using enter_slot [OF wf ends n] room False loc none full range
        by (simp add: hsearch_r_def t u act)
    qed
  qed
qed

text \<open>C31. hsearch_r on a well-formed table never leaves the table and always ends, and the table
  is a finite map. FIND returns the entry of a key in the map, and ESRCH for any other key. ENTER
  returns the entry of a key in the map without changing its data, adds any other key as long as
  fewer keys than slots are stored, which leaves the table well-formed and every other slot as it
  was, and fails with ENOMEM when all slots are used.\<close>

theorem hsearch_r_is_map:
  assumes "wf_table h"
  shows "(case contents h (ekey item) of
      Some d \<Rightarrow> \<exists>idx. hsearch_r item action h = Some (True, None, Some idx, h) \<and>
        unat idx \<in> used_slots h \<and> entry (the (table h) ! unat idx) = \<lparr>ekey = ekey item, edata = d\<rparr>
    | None \<Rightarrow>
        if action = FIND then hsearch_r item action h = Some (False, Some ESRCH, None, h)
        else if card (dom (contents h)) = unat (hsize h)
        then hsearch_r item action h = Some (False, Some ENOMEM, None, h)
        else \<exists>idx h'. hsearch_r item action h = Some (True, None, Some idx, h') \<and> unat idx \<notin> used_slots h \<and>
          wf_table h' \<and> contents h' = (contents h)(ekey item \<mapsto> edata item) \<and> hsize h' = hsize h \<and>
          the (table h') ! unat idx = \<lparr>used = hash_value (ekey item), entry = item\<rparr> \<and>
          (\<forall>i. i \<noteq> unat idx \<longrightarrow> the (table h') ! i = the (table h) ! i))"
  using assms by (rule hsearch_map_laws)

theorem hsearch_r_is_map_witness:
  "\<exists>idx h' idx'.
     hsearch_r \<lparr>ekey = [97, 98], edata = 1\<rparr> ENTER \<lparr>table = Some (replicate 4 \<lparr>used = 0, entry = \<lparr>ekey = [], edata = 0\<rparr>\<rparr>), hsize = 3, filled = 0\<rparr>
       = Some (True, None, Some idx, h') \<and> wf_table h' \<and>
     hsearch_r \<lparr>ekey = [97, 98], edata = 9\<rparr> FIND h' = Some (True, None, Some idx', h') \<and>
     entry (the (table h') ! unat idx') = \<lparr>ekey = [97, 98], edata = 1\<rparr>"
proof -
  let ?h = "\<lparr>table = Some (replicate 4 \<lparr>used = 0, entry = \<lparr>ekey = [], edata = 0\<rparr>\<rparr>), hsize = 3, filled = 0\<rparr>"
  have "prime_number 3"
    by (rule prime_number_least_divisor) (simp, simp, metis mult_le_mono numeral_le_iff numeral_times_numeral order.trans semiring_norm)
  then have "prime_size (unat (hsize ?h))" by (simp add: prime_size_def)
  then have wf: "wf_table ?h" and "contents ?h = Map.empty"
    using empty_table [of ?h "\<lparr>used = 0, entry = \<lparr>ekey = [], edata = 0\<rparr>\<rparr>"] by simp_all
  then obtain idx h' where h': "hsearch_r \<lparr>ekey = [97, 98], edata = 1\<rparr> ENTER ?h = Some (True, None, Some idx, h')"
      "wf_table h'" "contents h' = [[97, 98] \<mapsto> 1]"
    using hsearch_r_is_map [OF wf, where item = "\<lparr>ekey = [97, 98], edata = 1\<rparr>" and action = ENTER] by auto
  then show ?thesis
    using hsearch_r_is_map [OF h'(2), where item = "\<lparr>ekey = [97, 98], edata = 9\<rparr>" and action = FIND] by auto
qed

section \<open>Histories of insertions\<close>

text \<open>ENTER as an operation on the table: \<open>None\<close> when it does not succeed.\<close>

definition enter_key :: "byte list \<Rightarrow> u64 \<Rightarrow> hsearch_data \<Rightarrow> hsearch_data option" where
  "enter_key k d h =
     (case hsearch_r \<lparr>ekey = k, edata = d\<rparr> ENTER h of Some (True, _, _, h') \<Rightarrow> Some h' | _ \<Rightarrow> None)"

lemma enter_key_result:
  assumes "wf_table h"
  shows "contents h k \<noteq> None \<Longrightarrow> enter_key k d h = Some h"
    and "contents h k = None \<Longrightarrow> card (dom (contents h)) < unat (hsize h) \<Longrightarrow>
      \<exists>h'. enter_key k d h = Some h' \<and> wf_table h' \<and> contents h' = (contents h)(k \<mapsto> d) \<and> hsize h' = hsize h"
  using hsearch_map_laws [OF assms, where item = "\<lparr>ekey = k, edata = d\<rparr>" and action = ENTER]
  by (auto simp: enter_key_def)

interpretation hash_store: keyed_store wf_table contents "\<lambda>h n. n \<le> unat (hsize h)" enter_key
proof unfold_locales
  show "finite (dom (contents h))" if "wf_table h" for h
    using that by (simp add: dom_contents)
  show "\<exists>h'. enter_key k d h = Some h' \<and> wf_table h' \<and> contents h' = (contents h)(k \<mapsto> d) \<and>
      (\<lambda>n. n \<le> unat (hsize h')) = (\<lambda>n. n \<le> unat (hsize h))"
    if "wf_table h" "contents h k = None" "Suc (card (dom (contents h))) \<le> unat (hsize h)" for h k d
    using enter_key_result(2) [OF that(1,2), of d] that(3) by auto
qed (simp_all add: enter_key_result(1))

primrec enter_keys :: "(byte list \<times> u64) list \<Rightarrow> hsearch_data \<Rightarrow> hsearch_data option" where
  "enter_keys [] h = Some h"
| "enter_keys (kd # kds) h = Option.bind (enter_key (fst kd) (snd kd) h) (enter_keys kds)"

lemma enter_keys_eq: "enter_keys kds = hash_store.enter_all kds"
proof (induction kds)
  case (Cons kd kds)
  show ?case by (rule ext) (simp add: Cons.IH)
qed (simp add: fun_eq_iff)

text \<open>C32. A table made by hcreate_r for \<open>nel\<close> entries takes any history of ENTER calls with at
  most \<open>nel\<close> different keys: none of them fails, and afterwards FIND returns for each key an
  entry with the data it was first entered with, and fails with ESRCH for any other key.\<close>

theorem hcreate_r_holds_nel_keys:
  assumes "hcreate_r calloc nel (Some h0) = (True, None, Some h)"
    and "card (fst ` set kds) \<le> unat nel"
  shows "\<exists>h'. enter_keys kds h = Some h' \<and>
    (\<forall>k d. case map_of kds k of
       None \<Rightarrow> hsearch_r \<lparr>ekey = k, edata = d\<rparr> FIND h' = Some (False, Some ESRCH, None, h')
     | Some d' \<Rightarrow> \<exists>idx. hsearch_r \<lparr>ekey = k, edata = d\<rparr> FIND h' = Some (True, None, Some idx, h') \<and>
         entry (the (table h') ! unat idx) = \<lparr>ekey = k, edata = d'\<rparr>)"
proof -
  have "table h0 = None"
    using assms(1) by (auto simp: hcreate_r_def split: if_splits)
  from hcreate_r_cases [OF this, of nel calloc] assms(1)
  have h: "wf_table h" "contents h = Map.empty" "unat nel \<le> unat (hsize h)"
    by (auto split: if_splits)
  then obtain h' where h': "enter_keys kds h = Some h'" "wf_table h'" "contents h' = map_of kds"
    using hash_store.enter_all_first_wins [OF h(1), of kds] assms(2) by (auto simp: enter_keys_eq)
  show ?thesis
  proof (intro exI conjI allI)
    show "enter_keys kds h = Some h'" by (rule h'(1))
    show "case map_of kds k of
        None \<Rightarrow> hsearch_r \<lparr>ekey = k, edata = d\<rparr> FIND h' = Some (False, Some ESRCH, None, h')
      | Some d' \<Rightarrow> \<exists>idx. hsearch_r \<lparr>ekey = k, edata = d\<rparr> FIND h' = Some (True, None, Some idx, h') \<and>
          entry (the (table h') ! unat idx) = \<lparr>ekey = k, edata = d'\<rparr>" for k d
      using hsearch_map_laws [OF h'(2), where item = "\<lparr>ekey = k, edata = d\<rparr>" and action = FIND]
      by (auto simp: h'(3) split: option.splits)
  qed
qed

theorem hcreate_r_holds_nel_keys_witness:
  "\<exists>h h'. hcreate_r (\<lambda>_. True) 3 (Some \<lparr>table = None, hsize = 0, filled = 0\<rparr>) = (True, None, Some h) \<and>
     enter_keys [([97], 1), ([98], 2), ([97], 3), ([], 4)] h = Some h' \<and>
     (\<exists>idx. hsearch_r \<lparr>ekey = [97], edata = 0\<rparr> FIND h' = Some (True, None, Some idx, h') \<and>
        entry (the (table h') ! unat idx) = \<lparr>ekey = [97], edata = 1\<rparr>) \<and>
     hsearch_r \<lparr>ekey = [99], edata = 0\<rparr> FIND h' = Some (False, Some ESRCH, None, h')"
proof -
  let ?h0 = "\<lparr>table = None, hsize = 0, filled = 0\<rparr>"
  let ?kds = "[([97], 1), ([98], 2), ([97], 3), ([], 4)] :: (byte list \<times> u64) list"
  have "first_prime (3 :: u64) = Some 3"
    by (simp add: first_prime.simps UINT_MAX_def isprime_def isprime_loop.simps word_le_nat_alt)
  then obtain h where h: "hcreate_r (\<lambda>_. True) 3 (Some ?h0) = (True, None, Some h)"
    by (simp add: hcreate_r_def Let_def)
  moreover have "card (fst ` set ?kds) \<le> unat (3 :: u64)" by (simp add: card_insert_if)
  ultimately obtain h' where h': "enter_keys ?kds h = Some h'"
      "\<forall>k d. case map_of ?kds k of
       None \<Rightarrow> hsearch_r \<lparr>ekey = k, edata = d\<rparr> FIND h' = Some (False, Some ESRCH, None, h')
     | Some d' \<Rightarrow> \<exists>idx. hsearch_r \<lparr>ekey = k, edata = d\<rparr> FIND h' = Some (True, None, Some idx, h') \<and>
         entry (the (table h') ! unat idx) = \<lparr>ekey = k, edata = d'\<rparr>"
    using hcreate_r_holds_nel_keys [OF h, of ?kds] by blast
  show ?thesis
    using h h'(1) h'(2) [rule_format, of "[97]" 0] h'(2) [rule_format, of "[99]" 0] by auto
qed

end
