(* ===== verification/Tsearch.thy ===== *)
theory Tsearch
  imports Keyed_Store "HOL-Library.Monad_Syntax"
begin

text \<open>
  The binary search trees of misc/tsearch.c, as the code has them: red-black trees of allocated
  nodes whose colour is the low bit of the left pointer.

  The heap is a partial map from addresses to nodes beside the caller's root variable; every
  access goes through it, so that following a null pointer, a dangling one or one to freed memory
  gives \<open>None\<close>. A \<open>node *\<close> is the place it points to: the root variable or one of the two link
  fields of a node. What a key pointer designates is the type \<open>'k\<close>, compared by \<open>compar\<close>.
\<close>

section \<open>Nodes and the access macros\<close>

record 'k node_t =
  nkey :: 'k
  left_node :: u64
  right_node :: u64

record 'k theap =
  rootv :: u64
  nodes :: "u64 \<rightharpoonup> 'k node_t"

datatype nodeptr = ROOTPTR | LEFTPTR u64 | RIGHTPTR u64

definition RED :: "'k theap \<Rightarrow> u64 \<Rightarrow> bool option" where
  "RED h n = map_option (\<lambda>x. left_node x AND 1 \<noteq> 0) (nodes h n)"

definition set_node :: "'k theap \<Rightarrow> u64 \<Rightarrow> ('k node_t \<Rightarrow> 'k node_t) \<Rightarrow> 'k theap option" where
  "set_node h n f = map_option (\<lambda>x. h\<lparr>nodes := (nodes h)(n \<mapsto> f x)\<rparr>) (nodes h n)"

definition SETRED :: "'k theap \<Rightarrow> u64 \<Rightarrow> 'k theap option" where
  "SETRED h n = set_node h n (\<lambda>x. x\<lparr>left_node := left_node x OR 1\<rparr>)"

definition SETBLACK :: "'k theap \<Rightarrow> u64 \<Rightarrow> 'k theap option" where
  "SETBLACK h n = set_node h n (\<lambda>x. x\<lparr>left_node := left_node x AND NOT 1\<rparr>)"

definition LEFT :: "'k theap \<Rightarrow> u64 \<Rightarrow> u64 option" where
  "LEFT h n = map_option (\<lambda>x. left_node x AND NOT 1) (nodes h n)"

definition RIGHT :: "'k theap \<Rightarrow> u64 \<Rightarrow> u64 option" where
  "RIGHT h n = map_option right_node (nodes h n)"

definition SETLEFT :: "'k theap \<Rightarrow> u64 \<Rightarrow> u64 \<Rightarrow> 'k theap option" where
  "SETLEFT h n l = set_node h n (\<lambda>x. x\<lparr>left_node := (left_node x AND 1) OR l\<rparr>)"

definition SETRIGHT :: "'k theap \<Rightarrow> u64 \<Rightarrow> u64 \<Rightarrow> 'k theap option" where
  "SETRIGHT h n r = set_node h n (\<lambda>x. x\<lparr>right_node := r\<rparr>)"

definition DEREFNODEPTR :: "'k theap \<Rightarrow> nodeptr \<Rightarrow> u64 option" where
  "DEREFNODEPTR h np =
     (case np of
        ROOTPTR \<Rightarrow> Some (rootv h AND NOT 1)
      | LEFTPTR n \<Rightarrow> map_option (\<lambda>x. left_node x AND NOT 1) (nodes h n)
      | RIGHTPTR n \<Rightarrow> map_option (\<lambda>x. right_node x AND NOT 1) (nodes h n))"

definition SETNODEPTR :: "'k theap \<Rightarrow> nodeptr \<Rightarrow> u64 \<Rightarrow> 'k theap option" where
  "SETNODEPTR h np p =
     (case np of
        ROOTPTR \<Rightarrow> Some (h\<lparr>rootv := (rootv h AND 1) OR p\<rparr>)
      | LEFTPTR n \<Rightarrow> set_node h n (\<lambda>x. x\<lparr>left_node := (left_node x AND 1) OR p\<rparr>)
      | RIGHTPTR n \<Rightarrow> set_node h n (\<lambda>x. x\<lparr>right_node := (right_node x AND 1) OR p\<rparr>))"

definition key_of :: "'k theap \<Rightarrow> u64 \<Rightarrow> 'k option" where
  "key_of h n = map_option nkey (nodes h n)"

section \<open>Insertion\<close>

text \<open>The two red edges from \<open>gparentp\<close> over \<open>parentp\<close> to \<open>root\<close>.\<close>

definition rotate_red_edges ::
  "'k theap \<Rightarrow> u64 \<Rightarrow> u64 \<Rightarrow> u64 \<Rightarrow> nodeptr \<Rightarrow> nodeptr \<Rightarrow> int \<Rightarrow> int \<Rightarrow> 'k theap option" where
  "rotate_red_edges h root lpn rpn parentp gparentp p_r gp_r =
     do { gp \<leftarrow> DEREFNODEPTR h gparentp;
          p \<leftarrow> DEREFNODEPTR h parentp;
          if (p_r > 0) \<noteq> (gp_r > 0)
          then do { h \<leftarrow> SETRED h p;
                    h \<leftarrow> SETRED h gp;
                    h \<leftarrow> SETBLACK h root;
                    h \<leftarrow> (if p_r < 0
                         then do { h \<leftarrow> SETLEFT h p rpn;
                                   h \<leftarrow> SETNODEPTR h (RIGHTPTR root) p;
                                   h \<leftarrow> SETRIGHT h gp lpn;
                                   SETNODEPTR h (LEFTPTR root) gp }
                         else do { h \<leftarrow> SETRIGHT h p lpn;
                                   h \<leftarrow> SETNODEPTR h (LEFTPTR root) p;
                                   h \<leftarrow> SETLEFT h gp rpn;
                                   SETNODEPTR h (RIGHTPTR root) gp });
                    SETNODEPTR h gparentp root }
          else do { h \<leftarrow> SETNODEPTR h gparentp p;
                    h \<leftarrow> SETBLACK h p;
                    h \<leftarrow> SETRED h gp;
                    if p_r < 0
                    then do { pr \<leftarrow> RIGHT h p;
                              h \<leftarrow> SETLEFT h gp pr;
                              SETRIGHT h p gp }
                    else do { pl \<leftarrow> LEFT h p;
                              h \<leftarrow> SETRIGHT h gp pl;
                              SETLEFT h p gp } } }"

text \<open>\<open>parentp\<close> and \<open>gparentp\<close> may be null.\<close>

definition maybe_split_for_insert ::
  "'k theap \<Rightarrow> nodeptr \<Rightarrow> nodeptr option \<Rightarrow> nodeptr option \<Rightarrow> int \<Rightarrow> int \<Rightarrow> nat \<Rightarrow> 'k theap option" where
  "maybe_split_for_insert h rootp parentp gparentp p_r gp_r mode =
     do { root \<leftarrow> DEREFNODEPTR h rootp;
          rpn \<leftarrow> RIGHT h root;
          lpn \<leftarrow> LEFT h root;
          split \<leftarrow> (if mode = 1 then Some True
                   else if rpn \<noteq> 0 \<and> lpn \<noteq> 0
                   then do { rr \<leftarrow> RED h rpn; if rr then RED h lpn else Some False }
                   else Some False);
          if split
          then do { h \<leftarrow> SETRED h root;
                    h \<leftarrow> (if rpn \<noteq> 0 then SETBLACK h rpn else Some h);
                    h \<leftarrow> (if lpn \<noteq> 0 then SETBLACK h lpn else Some h);
                    (case parentp of
                       None \<Rightarrow> Some h
                     | Some pp \<Rightarrow>
                         do { p \<leftarrow> DEREFNODEPTR h pp;
                              red \<leftarrow> RED h p;
                              if red
                              then (case gparentp of
                                      None \<Rightarrow> None
                                    | Some gpp \<Rightarrow> rotate_red_edges h root lpn rpn pp gpp p_r gp_r)
                              else Some h }) }
          else Some h }"

text \<open>The descent: either the node with the key, or the place where the new node belongs, with
  \<open>rootp\<close>, \<open>parentp\<close>, \<open>r\<close> and \<open>p_r\<close> at that point.\<close>

datatype descent =
  Found u64
  | Place (next_ptr: nodeptr) (root_ptr: nodeptr) (parent_ptr: "nodeptr option") (last_r: int) (prev_r: int)

partial_function (option) tsearch_loop ::
  "('k \<Rightarrow> 'k \<Rightarrow> int) \<Rightarrow> 'k \<Rightarrow> 'k theap \<Rightarrow> nodeptr \<Rightarrow> nodeptr option \<Rightarrow> nodeptr option \<Rightarrow> int \<Rightarrow> int
     \<Rightarrow> ('k theap \<times> descent) option" where
  "tsearch_loop compar key h rootp parentp gparentp p_r gp_r =
     do { root \<leftarrow> DEREFNODEPTR h rootp;
          k \<leftarrow> key_of h root;
          let r = compar key k in
          if r = 0 then Some (h, Found root)
          else do { h \<leftarrow> maybe_split_for_insert h rootp parentp gparentp p_r gp_r 0;
                    let nextp = (if r < 0 then LEFTPTR root else RIGHTPTR root) in
                    do { nxt \<leftarrow> DEREFNODEPTR h nextp;
                         if nxt = 0 then Some (h, Place nextp rootp parentp r p_r)
                         else tsearch_loop compar key h nextp (Some rootp) parentp r p_r } } }"

text \<open>\<open>malloc\<close> gives the address of the new node and what the memory there holds; the address is 0
  when there is no memory. An odd address fails the assertion, which aborts the program.\<close>

definition add_node ::
  "('k theap \<Rightarrow> u64 \<times> 'k node_t) \<Rightarrow> 'k \<Rightarrow> 'k theap \<Rightarrow> nodeptr \<Rightarrow> nodeptr \<Rightarrow> nodeptr option \<Rightarrow> int \<Rightarrow> int
     \<Rightarrow> ('k theap \<times> u64) option" where
  "add_node malloc key h nextp rootp parentp r p_r =
     (let (q, mem) = malloc h in
      if q = 0 then Some (h, q)
      else if q AND 1 \<noteq> 0 then None
      else do { h \<leftarrow> Some (h\<lparr>nodes := (nodes h)(q \<mapsto> mem)\<rparr>);
                h \<leftarrow> SETNODEPTR h nextp q;
                h \<leftarrow> set_node h q (\<lambda>x. x\<lparr>nkey := key\<rparr>);
                h \<leftarrow> SETRED h q;
                h \<leftarrow> SETLEFT h q 0;
                h \<leftarrow> SETRIGHT h q 0;
                h \<leftarrow> (if nextp \<noteq> rootp
                     then maybe_split_for_insert h nextp (Some rootp) parentp r p_r 1 else Some h);
                Some (h, q) })"

text \<open>\<open>vrootp\<close> is the pointer to the caller's root variable or null.\<close>

definition tsearch ::
  "('k theap \<Rightarrow> u64 \<times> 'k node_t) \<Rightarrow> ('k \<Rightarrow> 'k \<Rightarrow> int) \<Rightarrow> 'k \<Rightarrow> nodeptr option \<Rightarrow> 'k theap
     \<Rightarrow> ('k theap \<times> u64) option" where
  "tsearch malloc compar key vrootp h =
     (case vrootp of
        None \<Rightarrow> Some (h, 0)
      | Some rootp \<Rightarrow>
          do { root \<leftarrow> DEREFNODEPTR h rootp;
               h \<leftarrow> (if root \<noteq> 0 then SETBLACK h root else Some h);
               nxt \<leftarrow> DEREFNODEPTR h rootp;
               (h, d) \<leftarrow> (if nxt \<noteq> 0 then tsearch_loop compar key h rootp None None 0 0
                         else Some (h, Place rootp rootp None 0 0));
               (case d of
                  Found root \<Rightarrow> Some (h, root)
                | Place nextp rootp parentp r p_r \<Rightarrow> add_node malloc key h nextp rootp parentp r p_r) })"

section \<open>Search\<close>

partial_function (option) tfind_loop ::
  "('k \<Rightarrow> 'k \<Rightarrow> int) \<Rightarrow> 'k \<Rightarrow> 'k theap \<Rightarrow> nodeptr \<Rightarrow> u64 option" where
  "tfind_loop compar key h rootp =
     do { root \<leftarrow> DEREFNODEPTR h rootp;
          if root = 0 then Some 0
          else do { k \<leftarrow> key_of h root;
                    let r = compar key k in
                    if r = 0 then Some root
                    else tfind_loop compar key h (if r < 0 then LEFTPTR root else RIGHTPTR root) } }"

definition tfind :: "('k \<Rightarrow> 'k \<Rightarrow> int) \<Rightarrow> 'k \<Rightarrow> nodeptr option \<Rightarrow> 'k theap \<Rightarrow> u64 option" where
  "tfind compar key vrootp h =
     (case vrootp of None \<Rightarrow> Some 0 | Some rootp \<Rightarrow> tfind_loop compar key h rootp)"

section \<open>Deletion\<close>

text \<open>The stack of parents: its entries, the top one first, and the size it was allocated for. The
  descents enlarge it when it is full; the rebalancing loop stores into it without a test, and a
  store behind the end is \<open>None\<close>.\<close>

type_synonym nodestack = "nodeptr list \<times> nat"

definition push_parent :: "nodeptr \<Rightarrow> nodestack \<Rightarrow> nodestack" where
  "push_parent np st =
     (np # fst st, if length (fst st) = snd st then snd st + 20 else snd st)"

definition push_unchecked :: "nodeptr \<Rightarrow> nodestack \<Rightarrow> nodestack option" where
  "push_unchecked np st = (if length (fst st) < snd st then Some (np # fst st, snd st) else None)"

text \<open>The descent to the key: the place and the parent of its node, or nothing.\<close>

partial_function (option) tdelete_find ::
  "('k \<Rightarrow> 'k \<Rightarrow> int) \<Rightarrow> 'k \<Rightarrow> 'k theap \<Rightarrow> nodeptr \<Rightarrow> u64 \<Rightarrow> u64 \<Rightarrow> nodestack
     \<Rightarrow> (nodeptr \<times> u64 \<times> nodestack) option option" where
  "tdelete_find compar key h rootp root p st =
     do { k \<leftarrow> key_of h root;
          let cmp = compar key k in
          if cmp = 0 then Some (Some (rootp, p, st))
          else do { p \<leftarrow> DEREFNODEPTR h rootp;
                    root \<leftarrow> (if cmp < 0 then LEFT h p else RIGHT h p);
                    if root = 0 then Some None
                    else tdelete_find compar key h (if cmp < 0 then LEFTPTR p else RIGHTPTR p) root p
                           (push_parent rootp st) } }"

partial_function (option) find_successor ::
  "'k theap \<Rightarrow> nodeptr \<Rightarrow> nodeptr \<Rightarrow> nodestack \<Rightarrow> (nodeptr \<times> nodestack) option" where
  "find_successor h parentp up st =
     do { upn \<leftarrow> DEREFNODEPTR h up;
          l \<leftarrow> LEFT h upn;
          if l = 0 then Some (up, push_parent parentp st)
          else find_successor h up (LEFTPTR upn) (push_parent parentp st) }"

definition black_or_null :: "'k theap \<Rightarrow> u64 \<Rightarrow> bool option" where
  "black_or_null h n = (if n = 0 then Some True else map_option Not (RED h n))"

text \<open>The first half of the loop body: \<open>R\<close> is the left successor of \<open>P\<close>. It returns \<open>r\<close> and the
  stack, whose top entry is \<open>pp\<close>.\<close>

definition copy_color :: "'k theap \<Rightarrow> u64 \<Rightarrow> u64 \<Rightarrow> 'k theap option" where
  "copy_color h p q = do { red \<leftarrow> RED h p; if red then SETRED h q else SETBLACK h q }"

definition rotate_left_red :: "'k theap \<Rightarrow> nodeptr \<Rightarrow> u64 \<Rightarrow> u64 \<Rightarrow> 'k theap option" where
  "rotate_left_red h pp p q =
     do { h \<leftarrow> SETBLACK h q;
          h \<leftarrow> SETRED h p;
          l \<leftarrow> LEFT h q;
          h \<leftarrow> SETRIGHT h p l;
          h \<leftarrow> SETLEFT h q p;
          SETNODEPTR h pp q }"

definition rotate_left_double :: "'k theap \<Rightarrow> nodeptr \<Rightarrow> u64 \<Rightarrow> u64 \<Rightarrow> 'k theap option" where
  "rotate_left_double h pp p q =
     do { q2 \<leftarrow> LEFT h q;
          h \<leftarrow> copy_color h p q2;
          l \<leftarrow> LEFT h q2;
          h \<leftarrow> SETRIGHT h p l;
          r \<leftarrow> RIGHT h q2;
          h \<leftarrow> SETLEFT h q r;
          h \<leftarrow> SETRIGHT h q2 q;
          h \<leftarrow> SETLEFT h q2 p;
          h \<leftarrow> SETNODEPTR h pp q2;
          SETBLACK h p }"

definition rotate_left_single :: "'k theap \<Rightarrow> nodeptr \<Rightarrow> u64 \<Rightarrow> u64 \<Rightarrow> 'k theap option" where
  "rotate_left_single h pp p q =
     do { h \<leftarrow> copy_color h p q;
          h \<leftarrow> SETBLACK h p;
          r \<leftarrow> RIGHT h q;
          h \<leftarrow> SETBLACK h r;
          l \<leftarrow> LEFT h q;
          h \<leftarrow> SETRIGHT h p l;
          h \<leftarrow> SETLEFT h q p;
          SETNODEPTR h pp q }"

text \<open>\<open>Q\<close> is black here.\<close>

definition repair_left ::
  "'k theap \<Rightarrow> nodeptr \<Rightarrow> u64 \<Rightarrow> u64 \<Rightarrow> nodestack \<Rightarrow> ('k theap \<times> u64 \<times> nodestack) option" where
  "repair_left h pp p q st =
     do { ql \<leftarrow> LEFT h q;
          qr \<leftarrow> RIGHT h q;
          lb \<leftarrow> black_or_null h ql;
          rb \<leftarrow> black_or_null h qr;
          if lb \<and> rb
          then do { h \<leftarrow> SETRED h q;
                    Some (h, p, st) }
          else do { h \<leftarrow> (if rb then rotate_left_double h pp p q else rotate_left_single h pp p q);
                    Some (h, 0, ([last (fst st)], snd st)) } }"

definition balance_left ::
  "'k theap \<Rightarrow> nodeptr \<Rightarrow> u64 \<Rightarrow> nodestack \<Rightarrow> ('k theap \<times> u64 \<times> nodestack) option" where
  "balance_left h pp p st =
     do { q \<leftarrow> RIGHT h p;
          qred \<leftarrow> RED h q;
          if qred
          then do { h \<leftarrow> rotate_left_red h pp p q;
                    st \<leftarrow> push_unchecked (LEFTPTR q) st;
                    q' \<leftarrow> RIGHT h p;
                    repair_left h (LEFTPTR q) p q' st }
          else repair_left h pp p q st }"

text \<open>The other half of the loop body: \<open>R\<close> is the right successor of \<open>P\<close>.\<close>

definition rotate_right_red :: "'k theap \<Rightarrow> nodeptr \<Rightarrow> u64 \<Rightarrow> u64 \<Rightarrow> 'k theap option" where
  "rotate_right_red h pp p q =
     do { h \<leftarrow> SETBLACK h q;
          h \<leftarrow> SETRED h p;
          r \<leftarrow> RIGHT h q;
          h \<leftarrow> SETLEFT h p r;
          h \<leftarrow> SETRIGHT h q p;
          SETNODEPTR h pp q }"

definition rotate_right_double :: "'k theap \<Rightarrow> nodeptr \<Rightarrow> u64 \<Rightarrow> u64 \<Rightarrow> 'k theap option" where
  "rotate_right_double h pp p q =
     do { q2 \<leftarrow> RIGHT h q;
          h \<leftarrow> copy_color h p q2;
          r \<leftarrow> RIGHT h q2;
          h \<leftarrow> SETLEFT h p r;
          l \<leftarrow> LEFT h q2;
          h \<leftarrow> SETRIGHT h q l;
          h \<leftarrow> SETLEFT h q2 q;
          h \<leftarrow> SETRIGHT h q2 p;
          h \<leftarrow> SETNODEPTR h pp q2;
          SETBLACK h p }"

definition rotate_right_single :: "'k theap \<Rightarrow> nodeptr \<Rightarrow> u64 \<Rightarrow> u64 \<Rightarrow> 'k theap option" where
  "rotate_right_single h pp p q =
     do { h \<leftarrow> copy_color h p q;
          h \<leftarrow> SETBLACK h p;
          l \<leftarrow> LEFT h q;
          h \<leftarrow> SETBLACK h l;
          r \<leftarrow> RIGHT h q;
          h \<leftarrow> SETLEFT h p r;
          h \<leftarrow> SETRIGHT h q p;
          SETNODEPTR h pp q }"

text \<open>\<open>Q\<close> is black here.\<close>

definition repair_right ::
  "'k theap \<Rightarrow> nodeptr \<Rightarrow> u64 \<Rightarrow> u64 \<Rightarrow> nodestack \<Rightarrow> ('k theap \<times> u64 \<times> nodestack) option" where
  "repair_right h pp p q st =
     do { qr \<leftarrow> RIGHT h q;
          ql \<leftarrow> LEFT h q;
          rb \<leftarrow> black_or_null h qr;
          lb \<leftarrow> black_or_null h ql;
          if rb \<and> lb
          then do { h \<leftarrow> SETRED h q;
                    Some (h, p, st) }
          else do { h \<leftarrow> (if lb then rotate_right_double h pp p q else rotate_right_single h pp p q);
                    Some (h, 0, ([last (fst st)], snd st)) } }"

definition balance_right ::
  "'k theap \<Rightarrow> nodeptr \<Rightarrow> u64 \<Rightarrow> nodestack \<Rightarrow> ('k theap \<times> u64 \<times> nodestack) option" where
  "balance_right h pp p st =
     do { q \<leftarrow> LEFT h p;
          qred \<leftarrow> RED h q;
          if qred
          then do { h \<leftarrow> rotate_right_red h pp p q;
                    st \<leftarrow> push_unchecked (RIGHTPTR q) st;
                    q' \<leftarrow> LEFT h p;
                    repair_right h (RIGHTPTR q) p q' st }
          else repair_right h pp p q st }"

partial_function (option) rebalance ::
  "'k theap \<Rightarrow> u64 \<Rightarrow> nodestack \<Rightarrow> ('k theap \<times> u64) option" where
  "rebalance h r st =
     (if fst st = [] then Some (h, r)
      else do { black \<leftarrow> black_or_null h r;
                if \<not> black then Some (h, r)
                else do { p \<leftarrow> DEREFNODEPTR h (hd (fst st));
                          l \<leftarrow> LEFT h p;
                          res \<leftarrow> (if r = l then balance_left h (hd (fst st)) p st
                                 else balance_right h (hd (fst st)) p st);
                          rebalance (fst res) (fst (snd res)) (tl (fst (snd (snd res))), snd (snd (snd res))) } })"

definition free_node :: "'k theap \<Rightarrow> u64 \<Rightarrow> 'k theap option" where
  "free_node h n = map_option (\<lambda>_. h\<lparr>nodes := (nodes h)(n := None)\<rparr>) (nodes h n)"

text \<open>From the point where the node is found: the node to unchain, the unchaining, and the
  rebalancing.\<close>

definition find_unchained :: "'k theap \<Rightarrow> nodeptr \<Rightarrow> u64 \<Rightarrow> nodestack \<Rightarrow> (u64 \<times> nodestack) option" where
  "find_unchained h rootp root st =
     do { r \<leftarrow> RIGHT h root;
          q \<leftarrow> LEFT h root;
          if q = 0 \<or> r = 0 then Some (root, st)
          else do { (up, st) \<leftarrow> find_successor h rootp (RIGHTPTR root) st;
                    unchained \<leftarrow> DEREFNODEPTR h up;
                    Some (unchained, st) } }"

definition unchain :: "'k theap \<Rightarrow> nodeptr \<Rightarrow> u64 \<Rightarrow> nodestack \<Rightarrow> ('k theap \<times> u64) option" where
  "unchain h rootp unchained st =
     do { l \<leftarrow> LEFT h unchained;
          r \<leftarrow> (if l = 0 then RIGHT h unchained else Some l);
          h \<leftarrow> (if fst st = [] then SETNODEPTR h rootp r
               else do { q \<leftarrow> DEREFNODEPTR h (hd (fst st));
                         qr \<leftarrow> RIGHT h q;
                         if unchained = qr then SETRIGHT h q r else SETLEFT h q r });
          Some (h, r) }"

text \<open>The part of \<open>tdelete\<close> after the descent: the node is the one at \<open>rootp\<close>.\<close>

definition delete_node :: "'k theap \<Rightarrow> nodeptr \<Rightarrow> u64 \<Rightarrow> nodestack \<Rightarrow> ('k theap \<times> u64) option" where
  "delete_node h rootp retval st =
     do { root \<leftarrow> DEREFNODEPTR h rootp;
          (unchained, st) \<leftarrow> find_unchained h rootp root st;
          (h, r) \<leftarrow> unchain h rootp unchained st;
          h \<leftarrow> (if unchained \<noteq> root
               then do { k \<leftarrow> key_of h unchained;
                         set_node h root (\<lambda>x. x\<lparr>nkey := k\<rparr>) }
               else Some h);
          red \<leftarrow> RED h unchained;
          h \<leftarrow> (if \<not> red
               then do { (h, r) \<leftarrow> rebalance h r st;
                         if r \<noteq> 0 then SETBLACK h r else Some h }
               else Some h);
          h \<leftarrow> free_node h unchained;
          Some (h, retval) }"

definition tdelete ::
  "('k \<Rightarrow> 'k \<Rightarrow> int) \<Rightarrow> 'k \<Rightarrow> nodeptr option \<Rightarrow> 'k theap \<Rightarrow> ('k theap \<times> u64) option" where
  "tdelete compar key vrootp h =
     (case vrootp of
        None \<Rightarrow> Some (h, 0)
      | Some rootp \<Rightarrow>
          do { p \<leftarrow> DEREFNODEPTR h rootp;
               if p = 0 then Some (h, 0)
               else do { found \<leftarrow> tdelete_find compar key h rootp p p ([], 40);
                         (case found of
                            None \<Rightarrow> Some (h, 0)
                          | Some (rootp, retval, st) \<Rightarrow> delete_node h rootp retval st) } })"

section \<open>Walking and destroying\<close>

datatype VISIT = preorder | postorder | endorder | leaf

text \<open>The callback works on a state of the caller and leaves the tree alone.\<close>

partial_function (option) trecurse ::
  "(u64 \<Rightarrow> VISIT \<Rightarrow> int \<Rightarrow> 's \<Rightarrow> 's) \<Rightarrow> 'k theap \<Rightarrow> u64 \<Rightarrow> int \<Rightarrow> 's \<Rightarrow> 's option" where
  "trecurse action h root level s =
     do { l \<leftarrow> LEFT h root;
          r \<leftarrow> RIGHT h root;
          if l = 0 \<and> r = 0 then Some (action root leaf level s)
          else do { s \<leftarrow> Some (action root preorder level s);
                    s \<leftarrow> (if l \<noteq> 0 then trecurse action h l (level + 1) s else Some s);
                    s \<leftarrow> Some (action root postorder level s);
                    s \<leftarrow> (if r \<noteq> 0 then trecurse action h r (level + 1) s else Some s);
                    Some (action root endorder level s) } }"

definition twalk ::
  "(u64 \<Rightarrow> VISIT \<Rightarrow> int \<Rightarrow> 's \<Rightarrow> 's) option \<Rightarrow> 'k theap \<Rightarrow> u64 \<Rightarrow> 's \<Rightarrow> 's option" where
  "twalk action h vroot s =
     (case action of
        Some act \<Rightarrow> if vroot \<noteq> 0 then trecurse act h vroot 0 s else Some s
      | None \<Rightarrow> Some s)"

partial_function (option) trecurse_r ::
  "(u64 \<Rightarrow> VISIT \<Rightarrow> 'c \<Rightarrow> 's \<Rightarrow> 's) \<Rightarrow> 'k theap \<Rightarrow> u64 \<Rightarrow> 'c \<Rightarrow> 's \<Rightarrow> 's option" where
  "trecurse_r action h root closure s =
     do { l \<leftarrow> LEFT h root;
          r \<leftarrow> RIGHT h root;
          if l = 0 \<and> r = 0 then Some (action root leaf closure s)
          else do { s \<leftarrow> Some (action root preorder closure s);
                    s \<leftarrow> (if l \<noteq> 0 then trecurse_r action h l closure s else Some s);
                    s \<leftarrow> Some (action root postorder closure s);
                    s \<leftarrow> (if r \<noteq> 0 then trecurse_r action h r closure s else Some s);
                    Some (action root endorder closure s) } }"

definition twalk_r ::
  "(u64 \<Rightarrow> VISIT \<Rightarrow> 'c \<Rightarrow> 's \<Rightarrow> 's) option \<Rightarrow> 'k theap \<Rightarrow> u64 \<Rightarrow> 'c \<Rightarrow> 's \<Rightarrow> 's option" where
  "twalk_r action h vroot closure s =
     (case action of
        Some act \<Rightarrow> if vroot \<noteq> 0 then trecurse_r act h vroot closure s else Some s
      | None \<Rightarrow> Some s)"

partial_function (option) tdestroy_recurse ::
  "('k \<Rightarrow> 's \<Rightarrow> 's) \<Rightarrow> 'k theap \<Rightarrow> u64 \<Rightarrow> 's \<Rightarrow> ('k theap \<times> 's) option" where
  "tdestroy_recurse freefct h root s =
     do { l \<leftarrow> LEFT h root;
          (h, s) \<leftarrow> (if l \<noteq> 0 then tdestroy_recurse freefct h l s else Some (h, s));
          r \<leftarrow> RIGHT h root;
          (h, s) \<leftarrow> (if r \<noteq> 0 then tdestroy_recurse freefct h r s else Some (h, s));
          k \<leftarrow> key_of h root;
          s \<leftarrow> Some (freefct k s);
          h \<leftarrow> free_node h root;
          Some (h, s) }"

definition tdestroy ::
  "('k \<Rightarrow> 's \<Rightarrow> 's) \<Rightarrow> 'k theap \<Rightarrow> u64 \<Rightarrow> 's \<Rightarrow> ('k theap \<times> 's) option" where
  "tdestroy freefct h vroot s =
     (if vroot \<noteq> 0 then tdestroy_recurse freefct h vroot s else Some (h, s))"

end
