(* ===== verification/Tsearch_Tree.thy ===== *)
theory Tsearch_Tree
  imports Tsearch
begin

text \<open>
  Trees of nodes with their addresses, paths into them, and when a heap holds such a tree. The
  places of the code (\<open>node *\<close>) are the ends of paths. The lemmas evaluate the access macros on
  nodes whose contents are known.
\<close>

section \<open>Links with a colour bit\<close>

definition link :: "u64 \<Rightarrow> bool \<Rightarrow> u64" where
  "link p c = p OR of_bool c"

lemma bit_minus_2: "bit (- 2 :: u64) n \<longleftrightarrow> n \<noteq> 0 \<and> n < 64"
proof -
  have "bit (NOT 1 :: u64) n \<longleftrightarrow> n \<noteq> 0 \<and> n < 64"
    by (simp only: bit_not_iff bit_1_iff) auto
  then show ?thesis by simp
qed

lemma or_1_and_1: "(p OR 1) AND 1 = 1" for p :: u64
  by (rule bit_word_eqI) (auto simp: bit_and_iff bit_or_iff bit_1_iff)

lemma even_word_bits:
  fixes p q :: u64
  assumes "even p"
  shows "p AND - 2 = p" "(p AND 1) OR q = q" "p AND 1 = 0" "(p OR 1) AND - 2 = p"
proof -
  have p0: "\<not> bit p 0" using assms by (simp add: bit_0)
  show "p AND - 2 = p"
    by (rule bit_word_eqI) (use p0 in \<open>auto simp: bit_and_iff bit_minus_2 intro: gr0I\<close>)
  show "(p OR 1) AND - 2 = p"
    by (rule bit_word_eqI) (use p0 in \<open>auto simp: bit_and_iff bit_or_iff bit_1_iff bit_minus_2 intro: gr0I\<close>)
  show zero: "p AND 1 = 0"
    by (rule bit_word_eqI) (use p0 in \<open>auto simp: bit_and_iff bit_1_iff bit_0 intro: gr0I\<close>)
  show "(p AND 1) OR q = q" unfolding zero by simp
qed

lemma link_bits:
  assumes "even p"
  shows "link p c AND 1 \<noteq> 0 \<longleftrightarrow> c" "link p c AND - 2 = p" "link p c OR 1 = link p True"
    and "(link p c AND 1) OR q = link q c"
  using even_word_bits [OF assms] or_1_and_1 [of p]
  by (cases c; simp add: link_def or.assoc or.commute)+

lemma link_0_simp: "link 0 True = 1" "link p False = p"
  by (simp_all add: link_def)

definition cell :: "'k \<Rightarrow> bool \<Rightarrow> u64 \<Rightarrow> u64 \<Rightarrow> 'k node_t" where
  "cell k c l r = \<lparr>nkey = k, left_node = link l c, right_node = r\<rparr>"

section \<open>Evaluating the macros\<close>

named_theorems heap_ops \<open>access macros on known cells\<close>

lemma RED_cell [heap_ops]: "nodes h n = Some (cell k c l r) \<Longrightarrow> even l \<Longrightarrow> RED h n = Some c"
  by (simp add: RED_def cell_def link_bits)

lemma LEFT_cell [heap_ops]: "nodes h n = Some (cell k c l r) \<Longrightarrow> even l \<Longrightarrow> LEFT h n = Some l"
  by (simp add: LEFT_def cell_def link_bits)

lemma RIGHT_cell [heap_ops]: "nodes h n = Some (cell k c l r) \<Longrightarrow> RIGHT h n = Some r"
  by (simp add: RIGHT_def cell_def)

lemma key_of_cell [heap_ops]: "nodes h n = Some (cell k c l r) \<Longrightarrow> key_of h n = Some k"
  by (simp add: key_of_def cell_def)

lemma SETRED_cell [heap_ops]:
  "nodes h n = Some (cell k c l r) \<Longrightarrow> even l \<Longrightarrow> SETRED h n = Some (h\<lparr>nodes := (nodes h)(n \<mapsto> cell k True l r)\<rparr>)"
  by (simp add: SETRED_def set_node_def cell_def link_bits)

lemma SETBLACK_cell [heap_ops]:
  "nodes h n = Some (cell k c l r) \<Longrightarrow> even l \<Longrightarrow> SETBLACK h n = Some (h\<lparr>nodes := (nodes h)(n \<mapsto> cell k False l r)\<rparr>)"
  by (simp add: SETBLACK_def set_node_def cell_def link_bits link_0_simp)

lemma SETLEFT_cell [heap_ops]:
  "nodes h n = Some (cell k c l r) \<Longrightarrow> even l \<Longrightarrow> SETLEFT h n l' = Some (h\<lparr>nodes := (nodes h)(n \<mapsto> cell k c l' r)\<rparr>)"
  by (simp add: SETLEFT_def set_node_def cell_def link_bits)

lemma SETRIGHT_cell [heap_ops]:
  "nodes h n = Some (cell k c l r) \<Longrightarrow> SETRIGHT h n r' = Some (h\<lparr>nodes := (nodes h)(n \<mapsto> cell k c l r')\<rparr>)"
  by (simp add: SETRIGHT_def set_node_def cell_def)

lemma set_key_cell [heap_ops]:
  "nodes h n = Some (cell k c l r) \<Longrightarrow> set_node h n (\<lambda>x. x\<lparr>nkey := k'\<rparr>) = Some (h\<lparr>nodes := (nodes h)(n \<mapsto> cell k' c l r)\<rparr>)"
  by (simp add: set_node_def cell_def)

lemma DEREFNODEPTR_cell [heap_ops]:
  "nodes h n = Some (cell k c l r) \<Longrightarrow> even l \<Longrightarrow> DEREFNODEPTR h (LEFTPTR n) = Some l"
  "nodes h n = Some (cell k c l r) \<Longrightarrow> even r \<Longrightarrow> DEREFNODEPTR h (RIGHTPTR n) = Some r"
  by (simp_all add: DEREFNODEPTR_def cell_def link_bits even_word_bits)

lemma SETNODEPTR_cell [heap_ops]:
  "nodes h n = Some (cell k c l r) \<Longrightarrow> even l \<Longrightarrow>
     SETNODEPTR h (LEFTPTR n) p = Some (h\<lparr>nodes := (nodes h)(n \<mapsto> cell k c p r)\<rparr>)"
  "nodes h n = Some (cell k c l r) \<Longrightarrow> even r \<Longrightarrow>
     SETNODEPTR h (RIGHTPTR n) p = Some (h\<lparr>nodes := (nodes h)(n \<mapsto> cell k c l p)\<rparr>)"
  by (simp_all add: SETNODEPTR_def set_node_def cell_def link_bits even_word_bits)

lemma DEREFNODEPTR_root [heap_ops]: "even (rootv h) \<Longrightarrow> DEREFNODEPTR h ROOTPTR = Some (rootv h)"
  by (simp add: DEREFNODEPTR_def even_word_bits)

lemma SETNODEPTR_root [heap_ops]: "even (rootv h) \<Longrightarrow> SETNODEPTR h ROOTPTR p = Some (h\<lparr>rootv := p\<rparr>)"
  by (simp add: SETNODEPTR_def even_word_bits)

section \<open>Trees and paths\<close>

datatype 'k rbtree = Tip | Nd u64 bool 'k "'k rbtree" "'k rbtree"

datatype side = L | R

text \<open>A step of a path: the side taken, the node passed (address, colour, key) and its other
  subtree. A path lists its steps from the bottom up.\<close>

datatype 'k step = Step side u64 bool 'k "'k rbtree"

type_synonym 'k path = "'k step list"

fun ptr :: "'k rbtree \<Rightarrow> u64" where
  "ptr Tip = 0"
| "ptr (Nd a _ _ _ _) = a"

fun addrs :: "'k rbtree \<Rightarrow> u64 list" where
  "addrs Tip = []"
| "addrs (Nd a _ _ l r) = a # addrs l @ addrs r"

fun plug :: "'k path \<Rightarrow> 'k rbtree \<Rightarrow> 'k rbtree" where
  "plug [] t = t"
| "plug (Step L a c k s # C) t = plug C (Nd a c k t s)"
| "plug (Step R a c k s # C) t = plug C (Nd a c k s t)"

fun path_addrs :: "'k path \<Rightarrow> u64 list" where
  "path_addrs [] = []"
| "path_addrs (Step _ a _ _ s # C) = a # addrs s @ path_addrs C"

fun slot :: "'k path \<Rightarrow> nodeptr" where
  "slot [] = ROOTPTR"
| "slot (Step L a _ _ _ # _) = LEFTPTR a"
| "slot (Step R a _ _ _ # _) = RIGHTPTR a"

fun holds :: "(u64 \<rightharpoonup> 'k node_t) \<Rightarrow> 'k rbtree \<Rightarrow> bool" where
  "holds m Tip = True"
| "holds m (Nd a c k l r) \<longleftrightarrow>
     a \<noteq> 0 \<and> even a \<and> m a = Some (cell k c (ptr l) (ptr r)) \<and> holds m l \<and> holds m r"

text \<open>The heap holds a path whose end is a pointer \<open>p\<close>.\<close>

fun holds_path :: "'k theap \<Rightarrow> 'k path \<Rightarrow> u64 \<Rightarrow> bool" where
  "holds_path h [] p \<longleftrightarrow> rootv h = p"
| "holds_path h (Step d a c k s # C) p \<longleftrightarrow>
     a \<noteq> 0 \<and> even a \<and> nodes h a = Some (if d = L then cell k c p (ptr s) else cell k c (ptr s) p) \<and>
     holds (nodes h) s \<and> holds_path h C a"

text \<open>The heap consists of the nodes of one tree, given as a path and the subtree at its end, and of
  other nodes beside it.\<close>

definition at_beside :: "(u64 \<rightharpoonup> 'k node_t) \<Rightarrow> 'k theap \<Rightarrow> 'k path \<Rightarrow> 'k rbtree \<Rightarrow> bool" where
  "at_beside M h C t \<longleftrightarrow> holds_path h C (ptr t) \<and> holds (nodes h) t \<and> distinct (path_addrs C @ addrs t) \<and>
     dom M \<inter> (set (path_addrs C) \<union> set (addrs t)) = {} \<and>
     (\<forall>a. a \<notin> set (path_addrs C) \<union> set (addrs t) \<longrightarrow> nodes h a = M a)"

abbreviation at :: "'k theap \<Rightarrow> 'k path \<Rightarrow> 'k rbtree \<Rightarrow> bool" where
  "at \<equiv> at_beside Map.empty"

lemma holds_ptr: "holds m t \<Longrightarrow> even (ptr t)"
  by (cases t) auto

lemma holds_ptr_0: "holds m t \<Longrightarrow> ptr t = 0 \<longleftrightarrow> t = Tip"
  by (cases t) auto

lemma ptr_in_addrs: "t \<noteq> Tip \<Longrightarrow> ptr t \<in> set (addrs t)"
  by (cases t) auto

lemma holds_cong: "(\<And>a. a \<in> set (addrs t) \<Longrightarrow> m' a = m a) \<Longrightarrow> holds m' t = holds m t"
  by (induction t) auto

lemma holds_upd [simp]: "a \<notin> set (addrs t) \<Longrightarrow> holds (m(a := v)) t = holds m t"
  by (rule holds_cong) auto

lemma holds_path_cong:
  "(\<And>a. a \<in> set (path_addrs C) \<Longrightarrow> nodes h' a = nodes h a) \<Longrightarrow> rootv h' = rootv h \<Longrightarrow>
    holds_path h' C p = holds_path h C p"
proof (induction C arbitrary: p rule: path_addrs.induct)
  case (2 d a c k s C)
  have "holds (nodes h') s = holds (nodes h) s"
    using "2.prems"(1) by (intro holds_cong) auto
  then show ?case using "2.IH" "2.prems" by simp
qed simp

lemma nodes_idem [simp]: "h\<lparr>nodes := nodes h\<rparr> = h"
  by (cases h) simp

lemma holds_path_upd [simp]:
  "a \<notin> set (path_addrs C) \<Longrightarrow> holds_path (h\<lparr>nodes := m(a := v)\<rparr>) C p = holds_path (h\<lparr>nodes := m\<rparr>) C p"
  by (rule holds_path_cong) auto

lemma DEREFNODEPTR_slot:
  assumes "holds_path h C p" "even p"
  shows "DEREFNODEPTR h (slot C) = Some p"
  using assms by (cases C rule: slot.cases) (auto simp: heap_ops dest: holds_ptr)

text \<open>Storing through the place at the end of a path.\<close>

fun relink :: "'k theap \<Rightarrow> 'k path \<Rightarrow> u64 \<Rightarrow> 'k theap" where
  "relink h [] q = h\<lparr>rootv := q\<rparr>"
| "relink h (Step d a c k s # C) q =
     h\<lparr>nodes := (nodes h)(a \<mapsto> if d = L then cell k c q (ptr s) else cell k c (ptr s) q)\<rparr>"

lemma SETNODEPTR_slot:
  assumes "holds_path h C p" "even p"
  shows "SETNODEPTR h (slot C) q = Some (relink h C q)"
  using assms by (cases C rule: slot.cases) (auto simp: heap_ops dest: holds_ptr)

lemma holds_path_relink:
  assumes "holds_path h C p" "distinct (path_addrs C)"
  shows "holds_path (relink h C q) C q"
  using assms by (cases C rule: slot.cases) auto

lemma relink_nodes: "a \<notin> set (path_addrs C) \<Longrightarrow> nodes (relink h C q) a = nodes h a"
  by (cases C rule: slot.cases) auto

lemma holds_relink:
  "set (path_addrs C) \<inter> set (addrs t) = {} \<Longrightarrow> holds (nodes (relink h C q)) t = holds (nodes h) t"
  by (rule holds_cong) (metis disjoint_iff relink_nodes)

lemma relink_upd:
  "rootv (relink (h\<lparr>nodes := m\<rparr>) C q) = rootv (relink h C q)"
  "m x = nodes h x \<Longrightarrow> nodes (relink (h\<lparr>nodes := m\<rparr>) C q) x = nodes (relink h C q) x"
  by (cases C rule: slot.cases; simp)+

lemma plug_append: "plug (C @ C') t = plug C' (plug C t)"
  by (induction C t rule: plug.induct) simp_all

lemma at_step:
  "at_beside M h (Step L a c k s # C) t \<longleftrightarrow> at_beside M h C (Nd a c k t s)"
  "at_beside M h (Step R a c k s # C) t \<longleftrightarrow> at_beside M h C (Nd a c k s t)"
proof -
  have U: "set (path_addrs (Step d a c k s # C)) \<union> set (addrs t) = set (path_addrs C) \<union> set (addrs (Nd a c k t s))"
      "set (path_addrs (Step d a c k s # C)) \<union> set (addrs t) = set (path_addrs C) \<union> set (addrs (Nd a c k s t))" for d
    by auto
  have D: "distinct (path_addrs (Step d a c k s # C) @ addrs t) \<longleftrightarrow> distinct (path_addrs C @ addrs (Nd a c k t s))"
      "distinct (path_addrs (Step d a c k s # C) @ addrs t) \<longleftrightarrow> distinct (path_addrs C @ addrs (Nd a c k s t))" for d
    by auto
  have H: "holds_path h (Step L a c k s # C) (ptr t) \<and> holds (nodes h) t \<longleftrightarrow> holds_path h C a \<and> holds (nodes h) (Nd a c k t s)"
      "holds_path h (Step R a c k s # C) (ptr t) \<and> holds (nodes h) t \<longleftrightarrow> holds_path h C a \<and> holds (nodes h) (Nd a c k s t)"
    by auto
  show "at_beside M h (Step L a c k s # C) t \<longleftrightarrow> at_beside M h C (Nd a c k t s)"
    unfolding at_beside_def U(1) D(1) using H(1) unfolding ptr.simps by blast
  show "at_beside M h (Step R a c k s # C) t \<longleftrightarrow> at_beside M h C (Nd a c k s t)"
    unfolding at_beside_def U(2) D(2) using H(2) unfolding ptr.simps by blast
qed

lemma at_plug: "at_beside M h C t \<longleftrightarrow> at_beside M h [] (plug C t)"
  by (induction C t rule: plug.induct) (simp_all add: at_step)

lemma at_slot: "at_beside M h C t \<Longrightarrow> DEREFNODEPTR h (slot C) = Some (ptr t)"
  by (auto simp: at_beside_def intro: DEREFNODEPTR_slot holds_ptr)

lemma at_node:
  assumes "at_beside M h C (Nd a c k l r)"
  shows "nodes h a = Some (cell k c (ptr l) (ptr r))" "even (ptr l)" "even (ptr r)" "a \<noteq> 0" "even a"
  using assms by (auto simp: at_beside_def dest: holds_ptr)

lemma at_ptr_0: "at_beside M h C t \<Longrightarrow> ptr t = 0 \<longleftrightarrow> t = Tip"
  by (auto simp: at_beside_def holds_ptr_0)

lemma holds_dom: "holds m t \<Longrightarrow> set (addrs t) \<subseteq> dom m"
  by (induction t) auto

lemma holds_path_dom: "holds_path h C p \<Longrightarrow> set (path_addrs C) \<subseteq> dom (nodes h)"
  by (induction h C p rule: holds_path.induct) (auto dest: holds_dom)

lemma at_dom: "at_beside M h C t \<Longrightarrow> dom (nodes h) = dom M \<union> set (path_addrs C) \<union> set (addrs t)"
proof -
  assume at: "at_beside M h C t"
  let ?T = "set (path_addrs C) \<union> set (addrs t)"
  have "?T \<subseteq> dom (nodes h)"
    using at holds_dom [of "nodes h" t] holds_path_dom [of h C "ptr t"] by (simp add: at_beside_def)
  moreover have "nodes h a = M a" if "a \<notin> ?T" for a
    using at that by (simp add: at_beside_def)
  ultimately have "a \<in> dom (nodes h) \<longleftrightarrow> a \<in> dom M \<union> ?T" for a
    by (cases "a \<in> ?T") (auto simp: domIff)
  then show ?thesis by blast
qed

text \<open>Replacing the subtree at the end of a path by one with the same nodes: the place at the end
  of the path is stored through when the top node changes.\<close>

lemma at_replace:
  assumes at: "at_beside M h C t" and t': "holds (nodes h') t'" "set (addrs t') = set (addrs t)" "distinct (addrs t')"
    and root: "rootv h' = rootv (relink h C (ptr t'))"
    and frame: "\<And>a. a \<notin> set (addrs t) \<Longrightarrow> nodes h' a = nodes (relink h C (ptr t')) a"
  shows "at_beside M h' C t'"
proof -
  let ?h = "relink h C (ptr t')"
  have disj: "a \<notin> set (addrs t)" if "a \<in> set (path_addrs C)" for a
    using at that by (auto simp: at_beside_def)
  have p: "holds_path h C (ptr t)" and dist: "distinct (path_addrs C)"
    using at by (simp_all add: at_beside_def)
  have path: "holds_path h' C (ptr t')"
    using holds_path_relink [OF p dist, of "ptr t'"] root frame disj
    by (subst holds_path_cong [of C h' ?h]) auto
  have "nodes h' a = M a" if "a \<notin> set (path_addrs C) \<union> set (addrs t)" for a
    using frame [of a] that at by (simp add: at_beside_def relink_nodes)
  then show ?thesis
    using at t' path by (auto simp: at_beside_def)
qed

lemma relink_same: "holds_path h C p \<Longrightarrow> relink h C p = h"
  by (cases C rule: slot.cases) (auto simp: fun_upd_idem)

lemma at_subtree:
  assumes "at_beside M h C t" and "holds m' t'" "set (addrs t') = set (addrs t)" "distinct (addrs t')"
    and "ptr t' = ptr t" "\<And>a. a \<notin> set (addrs t) \<Longrightarrow> m' a = nodes h a"
  shows "at_beside M (h\<lparr>nodes := m'\<rparr>) C t'"
proof -
  have "relink h C (ptr t') = h"
    using assms(1,5) by (simp add: at_beside_def relink_same)
  then show ?thesis
    using assms by (intro at_replace [OF assms(1)]) simp_all
qed

fun is_red :: "'k rbtree \<Rightarrow> bool" where
  "is_red Tip = False"
| "is_red (Nd _ c _ _ _) = c"

lemma RED_at:
  assumes "at_beside M h C t" "t \<noteq> Tip"
  shows "RED h (ptr t) = Some (is_red t)"
proof (cases t)
  case (Nd a c k l r)
  then show ?thesis using at_node [of M h C a c k l r] assms(1) by (simp add: RED_cell)
qed (use assms(2) in simp)

lemma paint_at:
  assumes "at_beside M h C (Nd a c k l r)"
  shows "\<exists>h'. SETBLACK h a = Some h' \<and> at_beside M h' C (Nd a False k l r)"
    and "\<exists>h'. SETRED h a = Some h' \<and> at_beside M h' C (Nd a True k l r)"
proof -
  have paint: "at_beside M (h\<lparr>nodes := (nodes h)(a \<mapsto> cell k c' (ptr l) (ptr r))\<rparr>) C (Nd a c' k l r)" for c'
    by (rule at_subtree [OF assms]) (use assms in \<open>auto simp: at_beside_def\<close>)
  then show "\<exists>h'. SETBLACK h a = Some h' \<and> at_beside M h' C (Nd a False k l r)"
    and "\<exists>h'. SETRED h a = Some h' \<and> at_beside M h' C (Nd a True k l r)"
    using at_node [OF assms] by (simp_all add: heap_ops)
qed

fun blacken :: "'k rbtree \<Rightarrow> 'k rbtree" where
  "blacken Tip = Tip"
| "blacken (Nd a c k l r) = Nd a False k l r"

lemma blacken_at:
  assumes "at_beside M h C t"
  shows "\<exists>h'. (if ptr t \<noteq> 0 then SETBLACK h (ptr t) else Some h) = Some h' \<and> at_beside M h' C (blacken t)"
proof (cases t)
  case (Nd a c k l r)
  then show ?thesis using paint_at(1) [of M h C a c k l r] at_node(4) [of M h C a c k l r] assms by simp
qed (use assms in simp)

lemma blacken_simps [simp]:
  "ptr (blacken t) = ptr t" "addrs (blacken t) = addrs t" "\<not> is_red (blacken t)" "blacken t = Tip \<longleftrightarrow> t = Tip"
  by (cases t; simp)+

section \<open>Order and balance\<close>

fun keys :: "'k rbtree \<Rightarrow> 'k list" where
  "keys Tip = []"
| "keys (Nd _ _ k l r) = keys l @ k # keys r"

fun keys_before :: "'k path \<Rightarrow> 'k list" where
  "keys_before [] = []"
| "keys_before (Step L _ _ _ _ # C) = keys_before C"
| "keys_before (Step R _ _ k s # C) = keys_before C @ keys s @ [k]"

fun keys_after :: "'k path \<Rightarrow> 'k list" where
  "keys_after [] = []"
| "keys_after (Step L _ _ k s # C) = k # keys s @ keys_after C"
| "keys_after (Step R _ _ _ _ # C) = keys_after C"

text \<open>Which node holds which key.\<close>

fun entries :: "'k rbtree \<Rightarrow> (u64 \<times> 'k) set" where
  "entries Tip = {}"
| "entries (Nd a _ k l r) = insert (a, k) (entries l \<union> entries r)"

fun path_entries :: "'k path \<Rightarrow> (u64 \<times> 'k) set" where
  "path_entries [] = {}"
| "path_entries (Step _ a _ k s # C) = insert (a, k) (entries s \<union> path_entries C)"

lemma entries_plug: "entries (plug C t) = path_entries C \<union> entries t"
  by (induction C t rule: plug.induct) auto

lemma entries_blacken [simp]: "entries (blacken t) = entries t" "keys (blacken t) = keys t"
  by (cases t; simp)+

lemma entries_fst: "fst ` entries t = set (addrs t)"
  by (induction t) (auto simp: image_Un)

lemma entries_key: "(a, k) \<in> entries t \<Longrightarrow> k \<in> set (keys t)"
  by (induction t) auto

lemma entries_addr: "(a, k) \<in> entries t \<Longrightarrow> a \<in> set (addrs t)"
  by (induction t) auto

lemma entries_key_of: "holds (nodes h) t \<Longrightarrow> (a, k) \<in> entries t \<Longrightarrow> key_of h a = Some k"
  by (induction t) (auto simp: key_of_cell)

lemma keys_plug: "keys (plug C t) = keys_before C @ keys t @ keys_after C"
  by (induction C t rule: plug.induct) simp_all

fun blackh :: "'k rbtree \<Rightarrow> nat" where
  "blackh Tip = 0"
| "blackh (Nd _ c _ l _) = blackh l + of_bool (\<not> c)"

text \<open>No red node has a red successor, and all paths down have the same number of black nodes. The
  root may be red between calls.\<close>

fun rb_ok :: "'k rbtree \<Rightarrow> bool" where
  "rb_ok Tip = True"
| "rb_ok (Nd _ c _ l r) \<longleftrightarrow>
     (c \<longrightarrow> \<not> is_red l \<and> \<not> is_red r) \<and> blackh l = blackh r \<and> rb_ok l \<and> rb_ok r"

text \<open>A path fits a subtree of a given colour and black height.\<close>

fun fits_path :: "'k path \<Rightarrow> bool \<Rightarrow> nat \<Rightarrow> bool" where
  "fits_path [] _ _ = True"
| "fits_path (Step _ _ c _ s # C) red n \<longleftrightarrow>
     (c \<longrightarrow> \<not> red \<and> \<not> is_red s) \<and> blackh s = n \<and> rb_ok s \<and> fits_path C c (n + of_bool (\<not> c))"

lemma rb_ok_plug: "rb_ok (plug C t) \<longleftrightarrow> rb_ok t \<and> fits_path C (is_red t) (blackh t)"
proof (induction C t rule: plug.induct)
  case (3 a c k s C t)
  then show ?case by (cases "blackh s = blackh t") auto
qed auto

lemma fits_path_black: "fits_path C True n \<Longrightarrow> fits_path C False n"
  by (cases C rule: slot.cases) auto

end
