(* ===== verification/Tsearch_Insert.thy ===== *)
theory Tsearch_Insert
  imports Tsearch_Tree
begin

text \<open>
  Insertion into the trees of misc/tsearch.c: what the rotations and the split do to the tree, the
  invariant of the descent, and the result of \<open>tsearch\<close>.
\<close>

section \<open>Rotations\<close>

fun rotated :: "'k rbtree \<Rightarrow> 'k step \<Rightarrow> 'k step \<Rightarrow> 'k rbtree" where
  "rotated (Nd a c k l r) (Step L p _ kp sp) (Step R g _ kg sg) = Nd a False k (Nd g True kg sg l) (Nd p True kp r sp)"
| "rotated (Nd a c k l r) (Step R p _ kp sp) (Step L g _ kg sg) = Nd a False k (Nd p True kp sp l) (Nd g True kg r sg)"
| "rotated t (Step L p _ kp sp) (Step L g _ kg sg) = Nd p False kp t (Nd g True kg sp sg)"
| "rotated t (Step R p _ kp sp) (Step R g _ kg sg) = Nd p False kp (Nd g True kg sg sp) t"
| "rotated Tip _ _ = Tip"

fun went :: "int \<Rightarrow> side \<Rightarrow> bool" where
  "went r L \<longleftrightarrow> r < 0"
| "went r R \<longleftrightarrow> r > 0"

lemma rotate_red_edges_at:
  assumes at: "at h (Step dp p cp kp sp # Step dg g cg kg sg # C) (Nd a c k l r)"
    and dirs: "went p_r dp" "went gp_r dg"
  shows "\<exists>h'. rotate_red_edges h a (ptr l) (ptr r) (slot (Step dg g cg kg sg # C)) (slot C) p_r gp_r = Some h' \<and>
    at h' C (rotated (Nd a c k l r) (Step dp p cp kp sp) (Step dg g cg kg sg))"
proof -
  let ?t = "plug [Step dp p cp kp sp, Step dg g cg kg sg] (Nd a c k l r)"
  have atC: "at h C ?t"
    using at by (cases dp; cases dg) (simp_all add: at_step)
  have ev: "even (ptr l)" "even (ptr r)" "even (ptr sp)" "even (ptr sg)" "even a" "even p" "even g"
    using at by (auto simp: at_beside_def intro: holds_ptr)
  have ne: "a \<noteq> p" "a \<noteq> g" "p \<noteq> g"
    using at by (auto simp: at_beside_def)
  have C: "holds_path h C g" using at by (simp add: at_beside_def)
  have out: "a \<notin> set (path_addrs C)" "p \<notin> set (path_addrs C)" "g \<notin> set (path_addrs C)"
    using at by (auto simp: at_beside_def)
  have deref: "DEREFNODEPTR h (slot C) = Some g"
    using C ev by (simp add: DEREFNODEPTR_slot)
  have set: "SETNODEPTR (h\<lparr>nodes := m\<rparr>) (slot C) q = Some (relink (h\<lparr>nodes := m\<rparr>) C q)"
    if "holds_path (h\<lparr>nodes := m\<rparr>) C g" for m q
    using SETNODEPTR_slot [OF that] ev by simp
  have set0: "SETNODEPTR h (slot C) q = Some (relink h C q)" for q
    using set [of "nodes h"] C by simp
  note eval = rotate_red_edges_def deref set set0 C heap_ops ev ne ne [symmetric] out relink_nodes
  have sep: "distinct ([a, p, g] @ addrs l @ addrs r @ addrs sp @ addrs sg)"
      "set (path_addrs C) \<inter> set (addrs l @ addrs r @ addrs sp @ addrs sg) = {}"
    using at by (auto simp: at_beside_def)
  have parts: "holds (nodes h) l" "holds (nodes h) r" "holds (nodes h) sp" "holds (nodes h) sg"
      "a \<noteq> 0" "p \<noteq> 0" "g \<noteq> 0" "nodes h a = Some (cell k c (ptr l) (ptr r))"
    using at by (auto simp: at_beside_def)
  have disj: "set (path_addrs C) \<inter> set (addrs l) = {}" "set (path_addrs C) \<inter> set (addrs r) = {}"
      "set (path_addrs C) \<inter> set (addrs sp) = {}" "set (path_addrs C) \<inter> set (addrs sg) = {}"
    using sep(2) by auto
  note frame = relink_upd relink_nodes holds_relink disj parts ev ne ne [symmetric] out
  show ?thesis
  proof (cases dp; cases dg)
    assume d: "dp = L" "dg = L"
    have "nodes h a = Some (cell k c (ptr l) (ptr r))" "nodes h p = Some (cell kp cp a (ptr sp))"
        "nodes h g = Some (cell kg cg p (ptr sg))"
      using at d by (simp_all add: at_beside_def)
    with d dirs have "rotate_red_edges h a (ptr l) (ptr r) (slot (Step dg g cg kg sg # C)) (slot C) p_r gp_r =
        Some ((relink h C p)\<lparr>nodes := (nodes (relink h C p))(p \<mapsto> cell kp False a g, g \<mapsto> cell kg True (ptr sp) (ptr sg))\<rparr>)" (is "_ = Some ?h")
      by (simp add: eval fun_upd_twist)
    moreover have "at ?h C (Nd p False kp (Nd a c k l r) (Nd g True kg sp sg))"
      by (rule at_replace [OF atC]) (use sep(1) d in \<open>auto simp: frame\<close>)
    ultimately show ?thesis using d by simp
  next
    assume d: "dp = L" "dg = R"
    have "nodes h a = Some (cell k c (ptr l) (ptr r))" "nodes h p = Some (cell kp cp a (ptr sp))"
        "nodes h g = Some (cell kg cg (ptr sg) p)"
      using at d by (simp_all add: at_beside_def)
    with d dirs have "rotate_red_edges h a (ptr l) (ptr r) (slot (Step dg g cg kg sg # C)) (slot C) p_r gp_r =
        Some (relink (h\<lparr>nodes := (nodes h)(p \<mapsto> cell kp True (ptr r) (ptr sp), g \<mapsto> cell kg True (ptr sg) (ptr l), a \<mapsto> cell k False g p)\<rparr>) C a)" (is "_ = Some ?h")
      by (simp add: eval fun_upd_twist)
    moreover have "at ?h C (Nd a False k (Nd g True kg sg l) (Nd p True kp r sp))"
      by (rule at_replace [OF atC]) (use sep(1) d in \<open>auto simp: frame\<close>)
    ultimately show ?thesis using d by simp
  next
    assume d: "dp = R" "dg = L"
    have "nodes h a = Some (cell k c (ptr l) (ptr r))" "nodes h p = Some (cell kp cp (ptr sp) a)"
        "nodes h g = Some (cell kg cg p (ptr sg))"
      using at d by (simp_all add: at_beside_def)
    with d dirs have "rotate_red_edges h a (ptr l) (ptr r) (slot (Step dg g cg kg sg # C)) (slot C) p_r gp_r =
        Some (relink (h\<lparr>nodes := (nodes h)(p \<mapsto> cell kp True (ptr sp) (ptr l), g \<mapsto> cell kg True (ptr r) (ptr sg), a \<mapsto> cell k False p g)\<rparr>) C a)" (is "_ = Some ?h")
      by (simp add: eval fun_upd_twist)
    moreover have "at ?h C (Nd a False k (Nd p True kp sp l) (Nd g True kg r sg))"
      by (rule at_replace [OF atC]) (use sep(1) d in \<open>auto simp: frame\<close>)
    ultimately show ?thesis using d by simp
  next
    assume d: "dp = R" "dg = R"
    have "nodes h a = Some (cell k c (ptr l) (ptr r))" "nodes h p = Some (cell kp cp (ptr sp) a)"
        "nodes h g = Some (cell kg cg (ptr sg) p)"
      using at d by (simp_all add: at_beside_def)
    with d dirs have "rotate_red_edges h a (ptr l) (ptr r) (slot (Step dg g cg kg sg # C)) (slot C) p_r gp_r =
        Some ((relink h C p)\<lparr>nodes := (nodes (relink h C p))(p \<mapsto> cell kp False g a, g \<mapsto> cell kg True (ptr sg) (ptr sp))\<rparr>)" (is "_ = Some ?h")
      by (simp add: eval fun_upd_twist)
    moreover have "at ?h C (Nd p False kp (Nd g True kg sg sp) (Nd a c k l r))"
      by (rule at_replace [OF atC]) (use sep(1) d in \<open>auto simp: frame\<close>)
    ultimately show ?thesis using d by simp
  qed
qed

section \<open>Splitting\<close>

fun split_result :: "'k path \<Rightarrow> 'k rbtree \<Rightarrow> 'k path \<times> 'k rbtree" where
  "split_result (Step dp p True kp sp # fg # C) (Nd a c k l r) =
     (C, rotated (Nd a True k (blacken l) (blacken r)) (Step dp p True kp sp) fg)"
| "split_result C (Nd a c k l r) = (C, Nd a True k (blacken l) (blacken r))"
| "split_result C Tip = (C, Tip)"

text \<open>\<open>parentp\<close> is the place of the parent of the node at the end of the path; when the parent is
  red, \<open>gparentp\<close> is the place of its parent and the comparison values tell the sides.\<close>

fun parents_known :: "'k path \<Rightarrow> nodeptr option \<Rightarrow> nodeptr option \<Rightarrow> int \<Rightarrow> int \<Rightarrow> bool" where
  "parents_known [] pp gpp p_r gp_r \<longleftrightarrow> pp = None"
| "parents_known (Step dp p False kp sp # C) pp gpp p_r gp_r \<longleftrightarrow> pp = Some (slot C) \<and> went p_r dp"
| "parents_known [Step dp p True kp sp] pp gpp p_r gp_r \<longleftrightarrow> False"
| "parents_known (Step dp p True kp sp # Step dg g cg kg sg # C) pp gpp p_r gp_r \<longleftrightarrow>
     pp = Some (slot (Step dg g cg kg sg # C)) \<and> gpp = Some (slot C) \<and> went p_r dp \<and> went gp_r dg"

lemma path_cases [case_names top black red_top red]:
  obtains "C = []" | dp p kp sp C' where "C = Step dp p False kp sp # C'"
  | dp p kp sp where "C = [Step dp p True kp sp]"
  | dp p kp sp dg g cg kg sg C' where "C = Step dp p True kp sp # Step dg g cg kg sg # C'"
proof (cases C)
  case (Cons f C')
  then show ?thesis using that by (cases f; cases C'; metis step.exhaust)
qed (use that in blast)

lemma recolor_at:
  assumes "at h C (Nd a c k l r)"
  obtains h1 h2 h' where "SETRED h a = Some h1"
    "(if ptr r \<noteq> 0 then SETBLACK h1 (ptr r) else Some h1) = Some h2"
    "(if ptr l \<noteq> 0 then SETBLACK h2 (ptr l) else Some h2) = Some h'"
    "at h' C (Nd a True k (blacken l) (blacken r))"
proof -
  obtain h1 where h1: "SETRED h a = Some h1" "at h1 C (Nd a True k l r)"
    using paint_at(2) [OF assms] by blast
  then have "at h1 (Step R a True k l # C) r" by (simp add: at_step)
  then obtain h2 where h2: "(if ptr r \<noteq> 0 then SETBLACK h1 (ptr r) else Some h1) = Some h2"
      "at h2 (Step R a True k l # C) (blacken r)"
    using blacken_at by blast
  then have "at h2 (Step L a True k (blacken r) # C) l" by (simp add: at_step)
  then obtain h' where h': "(if ptr l \<noteq> 0 then SETBLACK h2 (ptr l) else Some h2) = Some h'"
      "at h' (Step L a True k (blacken r) # C) (blacken l)"
    using blacken_at by blast
  then show thesis using that h1(1) h2(1) by (simp add: at_step)
qed

lemma maybe_split_at:
  assumes at: "at h C (Nd a c k l r)" and rootp: "rootp = slot C"
    and pk: "parents_known C parentp gparentp p_r gp_r"
    and split: "mode = 1 \<or> is_red l \<and> is_red r"
  shows "\<exists>h'. maybe_split_for_insert h rootp parentp gparentp p_r gp_r mode = Some h' \<and>
    at h' (fst (split_result C (Nd a c k l r))) (snd (split_result C (Nd a c k l r)))"
proof -
  have atl: "at h (Step L a c k r # C) l" and atr: "at h (Step R a c k l # C) r"
    using at by (simp_all add: at_step)
  have root: "DEREFNODEPTR h rootp = Some a" "RIGHT h a = Some (ptr r)" "LEFT h a = Some (ptr l)"
    using at_slot [OF at] at_node [OF at] by (simp_all add: rootp heap_ops)
  have test: "(if mode = 1 then Some True
      else if ptr r \<noteq> 0 \<and> ptr l \<noteq> 0 then do { rr \<leftarrow> RED h (ptr r); if rr then RED h (ptr l) else Some False }
      else Some False) = Some True"
  proof (cases "mode = 1")
    case False
    then have "l \<noteq> Tip" "r \<noteq> Tip" "is_red l" "is_red r" using split by auto
    then show ?thesis
      using RED_at [OF atl] RED_at [OF atr] at_ptr_0 [OF atl] at_ptr_0 [OF atr] by simp
  qed simp
  obtain h1 h2 h' where col: "SETRED h a = Some h1"
      "(if ptr r \<noteq> 0 then SETBLACK h1 (ptr r) else Some h1) = Some h2"
      "(if ptr l \<noteq> 0 then SETBLACK h2 (ptr l) else Some h2) = Some h'"
      "at h' C (Nd a True k (blacken l) (blacken r))"
    using recolor_at [OF at] by blast
  have eval: "maybe_split_for_insert h rootp parentp gparentp p_r gp_r mode =
      (case parentp of None \<Rightarrow> Some h'
       | Some pp \<Rightarrow>
           do { p \<leftarrow> DEREFNODEPTR h' pp;
                red \<leftarrow> RED h' p;
                if red then (case gparentp of None \<Rightarrow> None
                             | Some gpp \<Rightarrow> rotate_red_edges h' a (ptr l) (ptr r) pp gpp p_r gp_r)
                else Some h' })"
    unfolding maybe_split_for_insert_def root bind.simps test by (simp only: col bind.simps if_True)
  show ?thesis
  proof (cases C rule: path_cases)
    case top
    then show ?thesis unfolding eval using pk col(4) by simp
  next
    case (black dp p kp sp C')
    let ?t = "plug [Step dp p False kp sp] (Nd a True k (blacken l) (blacken r))"
    have att: "at h' C' ?t" using col(4) black by (cases dp) (simp_all add: at_step)
    have t: "ptr ?t = p" "is_red ?t = False" "?t \<noteq> Tip" by (cases dp; simp)+
    have "DEREFNODEPTR h' (slot C') = Some p" "RED h' p = Some False"
      using at_slot [OF att] RED_at [OF att t(3)] unfolding t(1,2) by simp_all
    then show ?thesis unfolding eval using black pk col(4) by simp
  next
    case (red dp p kp sp dg g cg kg sg C')
    let ?t = "plug [Step dp p True kp sp] (Nd a True k (blacken l) (blacken r))"
    have att: "at h' (Step dg g cg kg sg # C') ?t" using col(4) red by (cases dp) (simp_all add: at_step)
    have t: "ptr ?t = p" "is_red ?t = True" "?t \<noteq> Tip" by (cases dp; simp)+
    have "DEREFNODEPTR h' (slot (Step dg g cg kg sg # C')) = Some p" "RED h' p = Some True"
      using at_slot [OF att] RED_at [OF att t(3)] unfolding t(1,2) by simp_all
    then show ?thesis
      unfolding eval using red pk rotate_red_edges_at [OF col(4) [unfolded red]] by simp
  qed (use pk in simp)
qed

lemma maybe_split_id:
  assumes at: "at h C (Nd a c k l r)" and "rootp = slot C" "\<not> (is_red l \<and> is_red r)"
  shows "maybe_split_for_insert h rootp parentp gparentp p_r gp_r 0 = Some h"
proof -
  have atl: "at h (Step L a c k r # C) l" and atr: "at h (Step R a c k l # C) r"
    using at by (simp_all add: at_step)
  have root: "DEREFNODEPTR h rootp = Some a" "RIGHT h a = Some (ptr r)" "LEFT h a = Some (ptr l)"
    using at_slot [OF at] at_node [OF at] assms(2) by (simp_all add: heap_ops)
  show ?thesis
    using assms(3) RED_at [OF atl] RED_at [OF atr] at_ptr_0 [OF atl] at_ptr_0 [OF atr]
    by (auto simp: maybe_split_for_insert_def root)
qed

section \<open>The descent\<close>

text \<open>What the comparison function has to satisfy.\<close>

definition consistent :: "('k \<Rightarrow> 'k \<Rightarrow> int) \<Rightarrow> bool" where
  "consistent compar \<longleftrightarrow>
     (\<forall>x y. compar x y < 0 \<longleftrightarrow> compar y x > 0) \<and>
     (\<forall>x y z. compar x y < 0 \<longrightarrow> compar y z < 0 \<longrightarrow> compar x z < 0)"

abbreviation ascending :: "('k \<Rightarrow> 'k \<Rightarrow> int) \<Rightarrow> 'k list \<Rightarrow> bool" where
  "ascending compar \<equiv> sorted_wrt (\<lambda>x y. compar x y < 0)"

text \<open>The key belongs at the end of the path.\<close>

definition leads_to :: "('k \<Rightarrow> 'k \<Rightarrow> int) \<Rightarrow> 'k \<Rightarrow> 'k path \<Rightarrow> bool" where
  "leads_to compar key C \<longleftrightarrow>
     (\<forall>x \<in> set (keys_before C). compar key x > 0) \<and> (\<forall>x \<in> set (keys_after C). compar key x < 0)"

lemma leads_to_step:
  assumes "consistent compar" "ascending compar (keys (plug C (Nd a c k l r)))" "leads_to compar key C"
  shows "compar key k < 0 \<Longrightarrow> leads_to compar key (Step L a c' k r' # C) = (\<forall>x \<in> set (keys r'). compar key x < 0)"
    and "compar key k > 0 \<Longrightarrow> leads_to compar key (Step R a c' k l' # C) = (\<forall>x \<in> set (keys l'). compar key x > 0)"
    and "compar key k < 0 \<Longrightarrow> x \<in> set (keys r) \<Longrightarrow> compar key x < 0"
    and "compar key k > 0 \<Longrightarrow> x \<in> set (keys l) \<Longrightarrow> compar key x > 0"
proof -
  have "compar k x < 0" if "x \<in> set (keys r)" for x
    using assms(2) that by (simp add: keys_plug sorted_wrt_append)
  moreover have "compar x k < 0" if "x \<in> set (keys l)" for x
    using assms(2) that by (simp add: keys_plug sorted_wrt_append)
  ultimately show "compar key k < 0 \<Longrightarrow> x \<in> set (keys r) \<Longrightarrow> compar key x < 0"
    and "compar key k > 0 \<Longrightarrow> x \<in> set (keys l) \<Longrightarrow> compar key x > 0"
    using assms(1) unfolding consistent_def by metis+
qed (use assms(3) in \<open>auto simp: leads_to_def\<close>)

fun quiet :: "'k rbtree \<Rightarrow> bool" where
  "quiet (Nd a c k l r) \<longleftrightarrow> \<not> c \<and> \<not> is_red l \<and> \<not> is_red r"
| "quiet Tip = False"

fun uncle_black :: "'k path \<Rightarrow> bool" where
  "uncle_black (Step dp p True kp sp # Step dg g cg kg sg # C) \<longleftrightarrow> \<not> is_red sg"
| "uncle_black _ = True"

fun brothers_ok :: "'k path \<Rightarrow> 'k rbtree \<Rightarrow> bool" where
  "brothers_ok [] t \<longleftrightarrow> \<not> is_red t"
| "brothers_ok (Step d a c k s # C) t \<longleftrightarrow> \<not> (is_red t \<and> is_red s)"

text \<open>The state of the descent. Right after a node was recoloured its successor is quiet, and the
  two parent variables need not be known.\<close>

definition descending ::
  "('k \<Rightarrow> 'k \<Rightarrow> int) \<Rightarrow> 'k \<Rightarrow> 'k list \<Rightarrow> (u64 \<times> 'k) set \<Rightarrow> 'k theap \<Rightarrow> 'k path \<Rightarrow> 'k rbtree \<Rightarrow> nodeptr option \<Rightarrow> nodeptr option \<Rightarrow> int \<Rightarrow> int
     \<Rightarrow> bool" where
  "descending compar key ks A h C t parentp gparentp p_r gp_r \<longleftrightarrow>
     at h C t \<and> rb_ok (plug C t) \<and> keys (plug C t) = ks \<and> entries (plug C t) = A \<and>
     leads_to compar key C \<and> brothers_ok C t \<and>
     (quiet t \<or> parents_known C parentp gparentp p_r gp_r \<and> uncle_black C)"

text \<open>How the descent ends: at a node with an equal key, or at an empty place for it.\<close>

fun descent_end :: "('k \<Rightarrow> 'k \<Rightarrow> int) \<Rightarrow> 'k \<Rightarrow> 'k list \<Rightarrow> (u64 \<times> 'k) set \<Rightarrow> 'k theap \<times> descent \<Rightarrow> bool" where
  "descent_end compar key ks A (h, Found a) \<longleftrightarrow>
     (\<exists>C c k l r. at h C (Nd a c k l r) \<and> rb_ok (plug C (Nd a c k l r)) \<and> keys (plug C (Nd a c k l r)) = ks \<and>
        entries (plug C (Nd a c k l r)) = A \<and> compar key k = 0)"
| "descent_end compar key ks A (h, Place nextp rootp parentp r p_r) \<longleftrightarrow>
     (\<exists>C. descending compar key ks A h C Tip (Some rootp) parentp r p_r \<and> nextp = slot C \<and> nextp \<noteq> rootp \<and> C \<noteq> [])"

lemma slot_below:
  assumes "at h (Step d a c k s # C) t"
  shows "slot (Step d a c k s # C) \<noteq> slot C"
  using assms by (cases C rule: slot.cases; cases d) (auto simp: at_beside_def)

lemma loop_step:
  assumes at: "at h C (Nd a c k l r)" and cmp: "compar key k \<noteq> 0"
    and split: "maybe_split_for_insert h (slot C) parentp gparentp p_r gp_r 0 = Some h'"
    and nxt: "DEREFNODEPTR h' (if compar key k < 0 then LEFTPTR a else RIGHTPTR a) = Some x"
  shows "tsearch_loop compar key h (slot C) parentp gparentp p_r gp_r =
    (let nextp = (if compar key k < 0 then LEFTPTR a else RIGHTPTR a) in
     if x = 0 then Some (h', Place nextp (slot C) parentp (compar key k) p_r)
     else tsearch_loop compar key h' nextp (Some (slot C)) parentp (compar key k) p_r)"
  using at_slot [OF at] at_node [OF at] cmp split nxt
  by (subst tsearch_loop.simps) (simp add: heap_ops Let_def)

abbreviation turn :: "int \<Rightarrow> side" where
  "turn r \<equiv> (if r < 0 then L else R)"

lemma rotated_tree:
  assumes "t \<noteq> Tip"
  shows "keys (rotated t fp fg) = keys (plug [fp, fg] t)" "entries (rotated t fp fg) = entries (plug [fp, fg] t)"
  using assms by (cases "(t, fp, fg)" rule: rotated.cases; auto)+

lemma split_result_same:
  "keys (plug (fst (split_result C t)) (snd (split_result C t))) = keys (plug C t)"
  "entries (plug (fst (split_result C t)) (snd (split_result C t))) = entries (plug C t)"
proof -
  have app: "plug (fp # fg # C) t = plug C (plug [fp, fg] t)" for fp fg :: "'a step" and C t
    using plug_append [of "[fp, fg]" C t] by simp
  have "keys (plug (fst (split_result C t)) (snd (split_result C t))) = keys (plug C t) \<and>
    entries (plug (fst (split_result C t)) (snd (split_result C t))) = entries (plug C t)"
  proof (cases "(C, t)" rule: split_result.cases)
    case (1 dp p kp sp fg C' a c k l r)
    let ?t = "Nd a True k (blacken l) (blacken r)"
    have "keys (plug [Step dp p True kp sp, fg] ?t) = keys (plug [Step dp p True kp sp, fg] (Nd a c k l r))"
        "entries (plug [Step dp p True kp sp, fg] ?t) = entries (plug [Step dp p True kp sp, fg] (Nd a c k l r))"
      by (simp_all add: keys_plug entries_plug)
    moreover have "plug C t = plug C' (plug [Step dp p True kp sp, fg] (Nd a c k l r))"
      using 1 app [of "Step dp p True kp sp" fg C' "Nd a c k l r"] by (simp del: plug.simps)
    ultimately show ?thesis
      using 1 rotated_tree [of ?t "Step dp p True kp sp" fg] by (simp only: prod.inject split_result.simps fst_conv snd_conv keys_plug [of C'] entries_plug [of C'] rbtree.simps) simp
  qed (auto simp: keys_plug entries_plug)
  then show "keys (plug (fst (split_result C t)) (snd (split_result C t))) = keys (plug C t)"
    and "entries (plug (fst (split_result C t)) (snd (split_result C t))) = entries (plug C t)" by simp_all
qed

lemma split_result_rb:
  assumes kids: "rb_ok (blacken l)" "rb_ok (blacken r)" "blackh (blacken l) = n" "blackh (blacken r) = n"
    and path: "fits_path C False n" "uncle_black C" "parents_known C pp gpp p_r gp_r"
  shows "rb_ok (plug (fst (split_result C (Nd a c k l r))) (snd (split_result C (Nd a c k l r))))"
proof (cases C rule: path_cases)
  case (red dp p kp sp dg g cg kg sg C')
  then show ?thesis
    using assms by (cases dp; cases dg) (auto simp: rb_ok_plug)
qed (use assms in \<open>auto simp: rb_ok_plug\<close>)

lemma blacken_rb: "rb_ok t \<Longrightarrow> rb_ok (blacken t)" "is_red t \<Longrightarrow> blackh (blacken t) = Suc (blackh t)"
  by (cases t; simp)+

lemma red_quiet: "rb_ok t \<Longrightarrow> is_red t \<Longrightarrow> quiet (blacken t)"
  by (cases t) auto

text \<open>One turn of the loop at a node that is not split.\<close>

lemma descend_plain:
  assumes cons: "consistent compar" "ascending compar ks"
    and desc: "descending compar key ks A h C (Nd a c k l r) parentp gparentp p_r gp_r"
    and red: "\<not> (is_red l \<and> is_red r)" and cmp: "compar key k \<noteq> 0"
  defines "d \<equiv> turn (compar key k)"
  shows "descending compar key ks A h (Step d a c k (if d = L then r else l) # C) (if d = L then l else r)
    (Some (slot C)) parentp (compar key k) p_r"
proof -
  have at: "at h C (Nd a c k l r)" and rb: "rb_ok (plug C (Nd a c k l r))" and ks: "keys (plug C (Nd a c k l r)) = ks"
    and A: "entries (plug C (Nd a c k l r)) = A" and lead: "leads_to compar key C" and br: "brothers_ok C (Nd a c k l r)"
    and par: "c \<Longrightarrow> parents_known C parentp gparentp p_r gp_r"
    using desc by (auto simp: descending_def)
  note lead' = leads_to_step [OF cons(1) cons(2) [folded ks] lead]
  have "parents_known (Step d a c k s # C) (Some (slot C)) parentp (compar key k) p_r \<and> uncle_black (Step d a c k s # C)" for s
  proof (cases c)
    case True
    then have "C \<noteq> []" using br by auto
    then obtain dp p cp kp sp C' where C: "C = Step dp p cp kp sp # C'" by (metis list.exhaust step.exhaust)
    then have "\<not> cp" "\<not> is_red sp" using rb br True by (auto simp: rb_ok_plug)
    then show ?thesis using par [OF True] True C cmp by (auto simp: d_def)
  next
    case False
    then show ?thesis using cmp by (auto simp: d_def)
  qed
  moreover have "leads_to compar key (Step d a c k (if d = L then r else l) # C)"
    using lead' cmp by (auto simp: d_def)
  ultimately show ?thesis
    using at rb ks A red by (auto simp: descending_def at_step d_def)
qed

lemma enter_child:
  assumes cons: "consistent compar" "ascending compar ks"
    and at: "at h C (Nd a c k l r)" and rb: "rb_ok (plug C (Nd a c k l r))" and ks: "keys (plug C (Nd a c k l r)) = ks"
    and A: "entries (plug C (Nd a c k l r)) = A" and lead: "leads_to compar key C" and cmp: "compar key k \<noteq> 0"
  defines "d \<equiv> turn (compar key k)"
  defines "t \<equiv> if d = L then l else r" and "C' \<equiv> Step d a c k (if d = L then r else l) # C"
  shows "DEREFNODEPTR h (if compar key k < 0 then LEFTPTR a else RIGHTPTR a) = Some (ptr t)"
    and "(if compar key k < 0 then LEFTPTR a else RIGHTPTR a) = slot C'"
    and "leads_to compar key C'" "at h C' t"
    and "quiet t \<Longrightarrow> descending compar key ks A h C' t parentp gparentp p_r gp_r"
proof -
  show at': "at h C' t" using at by (cases d) (simp_all add: C'_def t_def at_step)
  show "(if compar key k < 0 then LEFTPTR a else RIGHTPTR a) = slot C'"
    by (simp add: C'_def d_def)
  then show "DEREFNODEPTR h (if compar key k < 0 then LEFTPTR a else RIGHTPTR a) = Some (ptr t)"
    using at_slot [OF at'] by simp
  show lead': "leads_to compar key C'"
    using leads_to_step [OF cons(1) cons(2) [folded ks] lead] cmp by (auto simp: C'_def d_def)
  show "descending compar key ks A h C' t parentp gparentp p_r gp_r" if "quiet t"
    using that at' rb ks A lead' by (cases t; cases d) (auto simp: descending_def C'_def t_def)
qed

lemma loop_split:
  assumes cons: "consistent compar" "ascending compar ks"
    and desc: "descending compar key ks A h C (Nd a c k l r) parentp gparentp p_r gp_r"
    and red: "is_red l" "is_red r" and cmp: "compar key k \<noteq> 0"
  shows "\<exists>h' C' t' pp' gpp' p_r' gp_r'.
    tsearch_loop compar key h (slot C) parentp gparentp p_r gp_r = tsearch_loop compar key h' (slot C') pp' gpp' p_r' gp_r' \<and>
    descending compar key ks A h' C' t' pp' gpp' p_r' gp_r' \<and> t' \<noteq> Tip \<and>
    length (addrs t') < length (addrs (Nd a c k l r))"
proof -
  have at: "at h C (Nd a c k l r)" and rb: "rb_ok (plug C (Nd a c k l r))" and ks: "keys (plug C (Nd a c k l r)) = ks"
    and A: "entries (plug C (Nd a c k l r)) = A" and lead: "leads_to compar key C"
    and par: "parents_known C parentp gparentp p_r gp_r" "uncle_black C"
    using desc red by (auto simp: descending_def)
  have kids: "rb_ok l" "rb_ok r" "blackh r = blackh l" "fits_path C False (Suc (blackh l))" "\<not> c"
    using rb red by (auto simp: rb_ok_plug)
  obtain h' where h': "maybe_split_for_insert h (slot C) parentp gparentp p_r gp_r 0 = Some h'"
      "at h' (fst (split_result C (Nd a c k l r))) (snd (split_result C (Nd a c k l r)))"
    using maybe_split_at [OF at refl par(1)] red by blast
  have rb': "rb_ok (plug (fst (split_result C (Nd a c k l r))) (snd (split_result C (Nd a c k l r))))"
    using split_result_rb [OF _ _ _ _ kids(4) par(2,1), of l r] kids red by (simp add: blacken_rb)
  note same = split_result_same [of C "Nd a c k l r", unfolded ks A]
  let ?l = "blacken l" and ?r = "blacken r"
  have q: "quiet ?l" "quiet ?r" using red_quiet kids(1,2) red by auto
  have nt: "l \<noteq> Tip" "r \<noteq> Tip" using red by auto
  have small: "length (addrs (if compar key k < 0 then ?l else ?r)) < length (addrs (Nd a c k l r))" by simp
  have direct: ?thesis
    if at1: "at h' C1 (Nd a c1 k ?l ?r)" and rb1: "rb_ok (plug C1 (Nd a c1 k ?l ?r))" and ks1: "keys (plug C1 (Nd a c1 k ?l ?r)) = ks"
      and A1: "entries (plug C1 (Nd a c1 k ?l ?r)) = A" and lead1: "leads_to compar key C1" for C1 c1
  proof -
    note e = enter_child [OF cons at1 rb1 ks1 A1 lead1 cmp]
    let ?d = "turn (compar key k)"
    let ?C = "Step ?d a c1 k (if ?d = L then ?r else ?l) # C1" and ?t = "if ?d = L then ?l else ?r"
    have "ptr ?t \<noteq> 0" using at_ptr_0 [OF e(4)] nt by simp
    then have "tsearch_loop compar key h (slot C) parentp gparentp p_r gp_r =
        tsearch_loop compar key h' (slot ?C) (Some (slot C)) parentp (compar key k) p_r"
      using loop_step [where compar = compar and key = key and k = k, OF at cmp h'(1) e(1)] unfolding e(2) by simp
    moreover have "descending compar key ks A h' ?C ?t (Some (slot C)) parentp (compar key k) p_r"
      by (rule e(5)) (use q in simp)
    moreover have "?t \<noteq> Tip" "length (addrs ?t) < length (addrs (Nd a c k l r))" using nt by simp_all
    ultimately show ?thesis by blast
  qed
  have zigzag: ?thesis
    if at1: "at h' C1 (Nd a False k wl wr)" and rb1: "rb_ok (plug C1 (Nd a False k wl wr))" and ks1: "keys (plug C1 (Nd a False k wl wr)) = ks"
      and A1: "entries (plug C1 (Nd a False k wl wr)) = A" and lead1: "leads_to compar key C1"
      and w: "(if compar key k < 0 then wl else wr) = Nd b True kb bl br" "\<not> (is_red bl \<and> is_red br)" "compar key kb \<noteq> 0"
      and child: "(if compar key kb < 0 then bl else br) = (if compar key k < 0 then ?l else ?r)" for C1 wl wr b kb bl br
  proof -
    let ?d = "turn (compar key k)"
    let ?C = "Step ?d a False k (if ?d = L then wr else wl) # C1"
    note e = enter_child [OF cons at1 rb1 ks1 A1 lead1 cmp]
    have tw: "(if ?d = L then wl else wr) = Nd b True kb bl br" using w(1) by auto
    have atw: "at h' ?C (Nd b True kb bl br)" using e(4) unfolding tw .
    have plugw: "plug ?C (Nd b True kb bl br) = plug C1 (Nd a False k wl wr)"
      using w(1) by auto
    have one: "tsearch_loop compar key h (slot C) parentp gparentp p_r gp_r =
        tsearch_loop compar key h' (slot ?C) (Some (slot C)) parentp (compar key k) p_r"
      using loop_step [where compar = compar and key = key and k = k, OF at cmp h'(1) e(1)] at_node(4) [OF atw] unfolding e(2) tw by simp
    note e' = enter_child [OF cons atw _ _ _ e(3) w(3), unfolded plugw, OF rb1 ks1 A1]
    have tc: "(if turn (compar key kb) = L then bl else br) = (if compar key k < 0 then ?l else ?r)"
      using child by auto
    have "ptr (if turn (compar key kb) = L then bl else br) \<noteq> 0"
      using at_ptr_0 [OF e'(4)] nt unfolding tc by simp
    then have two: "tsearch_loop compar key h' (slot ?C) (Some (slot C)) parentp (compar key k) p_r =
        tsearch_loop compar key h' (slot (Step (turn (compar key kb)) b True kb (if turn (compar key kb) = L then br else bl) # ?C))
          (Some (slot ?C)) (Some (slot C)) (compar key kb) (compar key k)"
      using loop_step [where compar = compar and key = key and k = kb, OF atw w(3) maybe_split_id [OF atw refl w(2)] e'(1)] unfolding e'(2) by simp
    have "quiet (if turn (compar key kb) = L then bl else br)" using q unfolding tc by simp
    note desc' = e'(5) [OF this, of "Some (slot ?C)" "Some (slot C)" "compar key kb" "compar key k"]
    have "(if turn (compar key kb) = L then bl else br) \<noteq> Tip"
        "length (addrs (if turn (compar key kb) = L then bl else br)) < length (addrs (Nd a c k l r))"
      using nt small unfolding tc by simp_all
    with trans [OF one two] desc' show ?thesis by blast
  qed
  show ?thesis
  proof (cases C rule: path_cases)
    case top
    then show ?thesis using h'(2) rb' same lead by (intro direct [of C True]) simp_all
  next
    case (black dp p kp sp C')
    then show ?thesis using h'(2) rb' same lead by (intro direct [of C True]) simp_all
  next
    case (red_top dp p kp sp)
    then show ?thesis using par by simp
  next
    case (red dp p kp sp dg g cg kg sg C')
    then have at1: "at h' C' (rotated (Nd a True k ?l ?r) (Step dp p True kp sp) (Step dg g cg kg sg))"
      and rb1: "rb_ok (plug C' (rotated (Nd a True k ?l ?r) (Step dp p True kp sp) (Step dg g cg kg sg)))"
      and ks1: "keys (plug C' (rotated (Nd a True k ?l ?r) (Step dp p True kp sp) (Step dg g cg kg sg))) = ks"
      and A1: "entries (plug C' (rotated (Nd a True k ?l ?r) (Step dp p True kp sp) (Step dg g cg kg sg))) = A"
      using h'(2) rb' same by simp_all
    have bl: "\<not> is_red sp" "\<not> is_red sg" using rb par(2) red by (auto simp: rb_ok_plug)
    note lk = leads_to_step(3,4) [OF cons(1) cons(2) [folded ks] lead]
    have lead1: "leads_to compar key C'"
      using lead red by (cases dp; cases dg) (auto simp: leads_to_def)
    show ?thesis
    proof (cases dp; cases dg)
      assume d: "dp = L" "dg = L"
      show ?thesis
        by (rule direct [of "Step L p False kp (Nd g True kg sp sg) # C'" True])
          (use d at1 rb1 ks1 A1 lead red in \<open>auto simp: at_step leads_to_def\<close>)
    next
      assume d: "dp = R" "dg = R"
      show ?thesis
        by (rule direct [of "Step R p False kp (Nd g True kg sg sp) # C'" True])
          (use d at1 rb1 ks1 A1 lead red in \<open>auto simp: at_step leads_to_def\<close>)
    next
      assume d: "dp = L" "dg = R"
      have "compar key kg > 0" "compar key kp < 0" using lead red d by (auto simp: leads_to_def)
      then show ?thesis
        using d at1 rb1 ks1 A1 bl
        by (intro zigzag [of C' "Nd g True kg sg ?l" "Nd p True kp ?r sp" "if compar key k < 0 then g else p"
              "if compar key k < 0 then kg else kp" "if compar key k < 0 then sg else ?r" "if compar key k < 0 then ?l else sp"] lead1)
          (auto split: if_splits)
    next
      assume d: "dp = R" "dg = L"
      have "compar key kg < 0" "compar key kp > 0" using lead red d by (auto simp: leads_to_def)
      then show ?thesis
        using d at1 rb1 ks1 A1 bl
        by (intro zigzag [of C' "Nd p True kp sp ?l" "Nd g True kg ?r sg" "if compar key k < 0 then p else g"
              "if compar key k < 0 then kp else kg" "if compar key k < 0 then sp else ?r" "if compar key k < 0 then ?l else sg"] lead1)
          (auto split: if_splits)
    qed
  qed
qed

lemma tsearch_loop_ends:
  assumes cons: "consistent compar" "ascending compar ks"
    and "descending compar key ks A h C t parentp gparentp p_r gp_r" "t \<noteq> Tip"
  shows "\<exists>res. tsearch_loop compar key h (slot C) parentp gparentp p_r gp_r = Some res \<and> descent_end compar key ks A res"
  using assms(3,4)
proof (induction "length (addrs t)" arbitrary: h C t parentp gparentp p_r gp_r rule: less_induct)
  case less
  obtain a c k l r where t: "t = Nd a c k l r" using less.prems(2) by (cases t) auto
  have at: "at h C (Nd a c k l r)" and dn: "rb_ok (plug C (Nd a c k l r))" "keys (plug C (Nd a c k l r)) = ks"
    "entries (plug C (Nd a c k l r)) = A" "leads_to compar key C"
    using less.prems(1) by (auto simp: t descending_def)
  show ?case
  proof (cases "compar key k = 0")
    case True
    then have "tsearch_loop compar key h (slot C) parentp gparentp p_r gp_r = Some (h, Found a)"
      using at_slot [OF at] at_node [OF at] by (subst tsearch_loop.simps) (simp add: heap_ops)
    moreover have "descent_end compar key ks A (h, Found a)"
      unfolding descent_end.simps using at dn True by blast
    ultimately show ?thesis by blast
  next
    case cmp: False
    show ?thesis
    proof (cases "is_red l \<and> is_red r")
      case True
      then obtain h' C' t' pp' gpp' p_r' gp_r' where
        "tsearch_loop compar key h (slot C) parentp gparentp p_r gp_r = tsearch_loop compar key h' (slot C') pp' gpp' p_r' gp_r'"
        "descending compar key ks A h' C' t' pp' gpp' p_r' gp_r'" "t' \<noteq> Tip" "length (addrs t') < length (addrs t)"
        using loop_split [OF cons less.prems(1) [unfolded t] _ _ cmp] unfolding t by blast
      then show ?thesis using less.hyps by metis
    next
      case False
      let ?d = "turn (compar key k)"
      let ?C = "Step ?d a c k (if ?d = L then r else l) # C" and ?t = "if ?d = L then l else r"
      note e = enter_child [OF cons at dn cmp]
      have desc: "descending compar key ks A h ?C ?t (Some (slot C)) parentp (compar key k) p_r"
        by (rule descend_plain [OF cons less.prems(1) [unfolded t] False cmp])
      have step: "tsearch_loop compar key h (slot C) parentp gparentp p_r gp_r =
          (if ptr ?t = 0 then Some (h, Place (slot ?C) (slot C) parentp (compar key k) p_r)
           else tsearch_loop compar key h (slot ?C) (Some (slot C)) parentp (compar key k) p_r)"
        using loop_step [where compar = compar and key = key and k = k, OF at cmp maybe_split_id [OF at refl False] e(1)]
        unfolding e(2) by simp
      show ?thesis
      proof (cases "?t = Tip")
        case True
        have "descent_end compar key ks A (h, Place (slot ?C) (slot C) parentp (compar key k) p_r)"
          using desc slot_below [OF e(4)] unfolding True descent_end.simps by blast
        then show ?thesis unfolding step True by simp
      next
        case False
        then have "ptr ?t \<noteq> 0" using at_ptr_0 [OF e(4)] by simp
        moreover have "length (addrs ?t) < length (addrs t)" by (simp add: t)
        ultimately show ?thesis using less.hyps [OF _ desc False] unfolding step by simp
      qed
    qed
  qed
qed

section \<open>The new node\<close>

definition fresh_nodes :: "('k theap \<Rightarrow> u64 \<times> 'k node_t) \<Rightarrow> bool" where
  "fresh_nodes malloc \<longleftrightarrow> (\<forall>h. fst (malloc h) \<noteq> 0 \<longrightarrow> even (fst (malloc h)) \<and> fst (malloc h) \<notin> dom (nodes h))"

lemma new_node_at:
  assumes at: "at h C Tip" and q: "q \<noteq> 0" "even q" "q \<notin> dom (nodes h)"
  shows "\<exists>h'. do { h \<leftarrow> Some (h\<lparr>nodes := (nodes h)(q \<mapsto> mem)\<rparr>);
                  h \<leftarrow> SETNODEPTR h (slot C) q;
                  h \<leftarrow> set_node h q (\<lambda>x. x\<lparr>nkey := key\<rparr>);
                  h \<leftarrow> SETRED h q;
                  h \<leftarrow> SETLEFT h q 0;
                  SETRIGHT h q 0 } = Some h' \<and> at h' C (Nd q True key Tip Tip)"
proof -
  let ?h1 = "h\<lparr>nodes := (nodes h)(q \<mapsto> mem)\<rparr>"
  let ?h2 = "relink ?h1 C q"
  have C: "holds_path h C 0" "distinct (path_addrs C)" "dom (nodes h) = set (path_addrs C)"
    using at at_dom [OF at] by (simp_all add: at_beside_def)
  have out: "q \<notin> set (path_addrs C)" using q C(3) by simp
  have C1: "holds_path ?h1 C 0" using C out by simp
  have "SETNODEPTR ?h1 (slot C) q = Some ?h2" by (rule SETNODEPTR_slot [OF C1]) simp
  moreover have "nodes ?h2 q = Some mem" using out by (simp add: relink_nodes)
  moreover have "holds_path ?h2 C q" by (rule holds_path_relink [OF C1 C(2)])
  moreover have "nodes ?h2 a = None" if "a \<notin> insert q (set (path_addrs C))" for a
    using that C(3) by (auto simp: relink_nodes)
  ultimately show ?thesis
    using C(2) out q or_1_and_1
    by (simp add: set_node_def SETRED_def SETLEFT_def SETRIGHT_def at_beside_def cell_def link_0_simp)
qed

section \<open>What tsearch does\<close>

text \<open>The heap holds a search tree: its keys are in order and it is balanced.\<close>

definition tree_ok :: "('k \<Rightarrow> 'k \<Rightarrow> int) \<Rightarrow> 'k theap \<Rightarrow> 'k rbtree \<Rightarrow> bool" where
  "tree_ok compar h T \<longleftrightarrow> at h [] T \<and> rb_ok T \<and> ascending compar (keys T)"

lemma tree_ok_plug: "tree_ok compar h (plug C t) \<longleftrightarrow> at h C t \<and> rb_ok (plug C t) \<and> ascending compar (keys (plug C t))"
  by (simp add: tree_ok_def at_plug [of _ h C t])

lemma ascending_insert:
  assumes "consistent compar" "leads_to compar key C" "ascending compar (keys_before C @ keys_after C)"
  shows "ascending compar (keys_before C @ key # keys_after C)"
  using assms unfolding consistent_def leads_to_def by (simp add: sorted_wrt_append)

text \<open>The part of \<open>tsearch\<close> after the descent.\<close>

lemma insert_at_place:
  assumes cons: "consistent compar" "ascending compar ks"
    and desc: "descending compar key ks A h C Tip parentp gparentp p_r gp_r"
    and q: "q \<noteq> 0" "even q" "q \<notin> dom (nodes h)"
    and top: "C \<noteq> [] \<Longrightarrow> slot C \<noteq> rootp \<and> parentp = Some rootp" "C = [] \<Longrightarrow> rootp = ROOTPTR"
  shows "\<exists>h' T. do { h \<leftarrow> Some (h\<lparr>nodes := (nodes h)(q \<mapsto> mem)\<rparr>);
                    h \<leftarrow> SETNODEPTR h (slot C) q;
                    h \<leftarrow> set_node h q (\<lambda>x. x\<lparr>nkey := key\<rparr>);
                    h \<leftarrow> SETRED h q;
                    h \<leftarrow> SETLEFT h q 0;
                    h \<leftarrow> SETRIGHT h q 0;
                    h \<leftarrow> (if slot C \<noteq> rootp then maybe_split_for_insert h (slot C) (Some rootp) gparentp p_r gp_r 1 else Some h);
                    Some (h, q) } = Some (h', q) \<and>
    tree_ok compar h' T \<and> entries T = insert (q, key) A \<and> keys T = keys_before C @ key # keys_after C \<and>
    ks = keys_before C @ keys_after C \<and> key_of h' q = Some key"
proof -
  let ?n = "Nd q True key Tip Tip"
  have at: "at h C Tip" and rb: "rb_ok (plug C Tip)" and ks: "ks = keys_before C @ keys_after C"
    and A: "A = path_entries C" and lead: "leads_to compar key C"
    and par: "parents_known C parentp gparentp p_r gp_r" "uncle_black C"
    using desc by (auto simp: descending_def keys_plug entries_plug)
  obtain h1 where h1: "do { h \<leftarrow> Some (h\<lparr>nodes := (nodes h)(q \<mapsto> mem)\<rparr>);
      h \<leftarrow> SETNODEPTR h (slot C) q; h \<leftarrow> set_node h q (\<lambda>x. x\<lparr>nkey := key\<rparr>);
      h \<leftarrow> SETRED h q; h \<leftarrow> SETLEFT h q 0; SETRIGHT h q 0 } = Some h1" "at h1 C ?n"
    using new_node_at [OF at q] by blast
  have fit: "fits_path C False 0" using rb by (simp add: rb_ok_plug)
  have "\<exists>h' T. (if slot C \<noteq> rootp then maybe_split_for_insert h1 (slot C) (Some rootp) gparentp p_r gp_r 1 else Some h1) = Some h' \<and>
      at h' [] T \<and> rb_ok T \<and> keys T = keys (plug C ?n) \<and> entries T = entries (plug C ?n)"
  proof (cases "C = []")
    case True
    then show ?thesis using h1(2) top(2) by (intro exI [of _ h1] exI [of _ ?n]) simp
  next
    case False
    then have "slot C \<noteq> rootp" "parents_known C (Some rootp) gparentp p_r gp_r"
      using top(1) par(1) by simp_all
    with maybe_split_at [OF h1(2) refl this(2), of 1]
      split_result_rb [OF _ _ _ _ fit par(2,1), of Tip Tip q True key] split_result_same [of C ?n]
    show ?thesis using at_plug by fastforce
  qed
  then obtain h' T where h': "(if slot C \<noteq> rootp then maybe_split_for_insert h1 (slot C) (Some rootp) gparentp p_r gp_r 1 else Some h1) = Some h'"
      "at h' [] T" "rb_ok T" "keys T = keys_before C @ key # keys_after C" "entries T = insert (q, key) A"
    by (auto simp: keys_plug entries_plug A)
  have "key_of h' q = Some key"
    using h'(2,5) by (auto simp: at_beside_def intro: entries_key_of)
  moreover have "do { h \<leftarrow> Some (h\<lparr>nodes := (nodes h)(q \<mapsto> mem)\<rparr>);
      h \<leftarrow> SETNODEPTR h (slot C) q; h \<leftarrow> set_node h q (\<lambda>x. x\<lparr>nkey := key\<rparr>);
      h \<leftarrow> SETRED h q; h \<leftarrow> SETLEFT h q 0; h \<leftarrow> SETRIGHT h q 0;
      h \<leftarrow> (if slot C \<noteq> rootp then maybe_split_for_insert h (slot C) (Some rootp) gparentp p_r gp_r 1 else Some h);
      Some (h, q) } = Some (h', q)"
    using h1(1) h'(1) by (clarsimp simp only: bind_eq_Some_conv bind.simps option.inject) (simp split: if_splits)
  moreover have "tree_ok compar h' T"
    using h'(2-4) ascending_insert [OF cons(1) lead] cons(2) by (simp add: tree_ok_def ks)
  ultimately show ?thesis using h'(4,5) ks by blast
qed

text \<open>The outcome of \<open>tsearch\<close> on a tree: \<open>n\<close> is the address returned and \<open>T'\<close> the tree left.\<close>

definition tsearch_outcome ::
  "('k \<Rightarrow> 'k \<Rightarrow> int) \<Rightarrow> 'k \<Rightarrow> 'k rbtree \<Rightarrow> 'k rbtree \<Rightarrow> u64 \<Rightarrow> bool" where
  "tsearch_outcome compar key T T' n \<longleftrightarrow>
     (if \<exists>k \<in> set (keys T). compar key k = 0
      then entries T' = entries T \<and> keys T' = keys T \<and> (\<exists>k. (n, k) \<in> entries T \<and> compar key k = 0)
      else if n = 0 then entries T' = entries T \<and> keys T' = keys T
      else entries T' = insert (n, key) (entries T) \<and> n \<notin> set (addrs T) \<and>
        (\<exists>xs ys. keys T = xs @ ys \<and> keys T' = xs @ key # ys))"

lemma addrs_nonzero: "holds m t \<Longrightarrow> a \<in> set (addrs t) \<Longrightarrow> a \<noteq> 0"
  by (induction t) auto

text \<open>What the outcome says of the heap: its nodes are the old ones and, when it was not there, the
  node returned.\<close>

lemma tsearch_outcome_nodes:
  assumes "tree_ok compar h T" "tree_ok compar h' T'" "tsearch_outcome compar key T T' n"
  shows "dom (nodes h') = (if n = 0 then dom (nodes h) else insert n (dom (nodes h)))"
    "n = 0 \<Longrightarrow> k \<in> set (keys T) \<Longrightarrow> compar key k \<noteq> 0"
proof -
  have dom: "dom (nodes h) = fst ` entries T" "dom (nodes h') = fst ` entries T'"
    using assms(1,2) at_dom [of Map.empty h "[]" T] at_dom [of Map.empty h' "[]" T'] by (simp_all add: tree_ok_def entries_fst)
  have nz: "a \<noteq> 0" if "(a, k) \<in> entries T" for a k
    using assms(1) addrs_nonzero entries_addr [OF that] by (auto simp: tree_ok_def at_beside_def)
  show "dom (nodes h') = (if n = 0 then dom (nodes h) else insert n (dom (nodes h)))"
    using assms(3) nz unfolding dom tsearch_outcome_def by (auto split: if_splits intro: rev_image_eqI)
  show "n = 0 \<Longrightarrow> k \<in> set (keys T) \<Longrightarrow> compar key k \<noteq> 0"
    using assms(3) nz unfolding tsearch_outcome_def by (auto split: if_splits)
qed

lemma leads_to_absent:
  assumes "leads_to compar key C" "k \<in> set (keys_before C @ keys_after C)"
  shows "compar key k \<noteq> 0"
  using assms by (auto simp: leads_to_def)

lemma tsearch_after_descent:
  assumes cons: "consistent compar" "ascending compar (keys T)" and mal: "fresh_nodes malloc"
    and desc: "descending compar key (keys T) (entries T) h C Tip parentp gparentp p_r gp_r"
    and top: "C \<noteq> [] \<Longrightarrow> slot C \<noteq> rootp \<and> parentp = Some rootp" "C = [] \<Longrightarrow> rootp = ROOTPTR"
  shows "\<exists>h' T' n. add_node malloc key h (slot C) rootp gparentp p_r gp_r = Some (h', n) \<and>
    tree_ok compar h' T' \<and> tsearch_outcome compar key T T' n \<and> (n = 0 \<longrightarrow> fst (malloc h') = 0)"
proof -
  obtain q mem where q: "malloc h = (q, mem)" by (cases "malloc h")
  have at: "at h C Tip" and rb: "rb_ok (plug C Tip)" and ks: "keys T = keys_before C @ keys_after C"
    and A: "entries (plug C Tip) = entries T" and lead: "leads_to compar key C"
    using desc by (auto simp: descending_def keys_plug)
  have none: "\<not> (\<exists>k \<in> set (keys T). compar key k = 0)"
    using leads_to_absent [OF lead] by (auto simp: ks)
  show ?thesis
  proof (cases "q = 0")
    case True
    have "tree_ok compar h (plug C Tip)"
      using at rb cons(2) ks by (simp add: tree_ok_plug keys_plug)
    then show ?thesis
      using True q none A ks by (auto simp: add_node_def tsearch_outcome_def keys_plug)
  next
    case False
    have fresh: "even q" "q \<notin> dom (nodes h)"
      using mal False q unfolding fresh_nodes_def by (metis fst_conv)+
    have "at h [] (plug C Tip)" using at at_plug by blast
    then have "dom (nodes h) = set (addrs T)"
      using A entries_fst [of "plug C Tip"] entries_fst [of T] at_dom [of Map.empty h "[]"] by simp
    then show ?thesis
      using insert_at_place [OF cons desc False fresh, of rootp mem] top False q none fresh even_word_bits(3) [OF fresh(1)]
      by (simp add: tsearch_outcome_def add_node_def) blast
  qed
qed

lemma tsearch_result:
  assumes cons: "consistent compar" and mal: "fresh_nodes malloc" and ok: "tree_ok compar h T"
  shows "\<exists>h' T' n. tsearch malloc compar key (Some ROOTPTR) h = Some (h', n) \<and> tree_ok compar h' T' \<and>
    tsearch_outcome compar key T T' n \<and> (n = 0 \<longrightarrow> fst (malloc h') = 0)"
proof -
  have at: "at h [] T" and rb: "rb_ok T" and asc: "ascending compar (keys T)"
    using ok by (simp_all add: tree_ok_def)
  have deref: "DEREFNODEPTR h ROOTPTR = Some (ptr T)"
    using at_slot [OF at] by simp
  obtain h1 where h1: "(if ptr T \<noteq> 0 then SETBLACK h (ptr T) else Some h) = Some h1" "at h1 [] (blacken T)"
    using blacken_at [OF at] by blast
  have deref1: "DEREFNODEPTR h1 ROOTPTR = Some (ptr T)"
    using at_slot [OF h1(2)] by simp
  have desc: "descending compar key (keys T) (entries T) h1 [] (blacken T) None None 0 0"
    using h1(2) rb by (simp add: descending_def leads_to_def blacken_rb(1))
  show ?thesis
  proof (cases "T = Tip")
    case True
    then have "descending compar key (keys T) (entries T) h1 [] Tip None None 0 0" using desc by simp
    from tsearch_after_descent [OF cons asc mal this, of ROOTPTR]
    obtain h' T' n where "add_node malloc key h1 ROOTPTR ROOTPTR None 0 0 = Some (h', n)" "tree_ok compar h' T'"
        "tsearch_outcome compar key T T' n" "n = 0 \<longrightarrow> fst (malloc h') = 0" by auto
    then show ?thesis
      using True deref deref1 h1(1) by (auto simp: tsearch_def)
  next
    case False
    then have nz: "ptr T \<noteq> 0" using at_ptr_0 [OF at] by simp
    obtain h2 d where res: "tsearch_loop compar key h1 ROOTPTR None None 0 0 = Some (h2, d)"
        "descent_end compar key (keys T) (entries T) (h2, d)"
      using tsearch_loop_ends [OF cons asc desc] False by auto
    show ?thesis
    proof (cases d)
      case (Found a)
      then obtain C c k l r where f: "at h2 C (Nd a c k l r)" "rb_ok (plug C (Nd a c k l r))" "keys (plug C (Nd a c k l r)) = keys T"
          "entries (plug C (Nd a c k l r)) = entries T" "compar key k = 0"
        using res(2) by auto
      have mem: "(a, k) \<in> entries T"
        using f(4) entries_plug [of C "Nd a c k l r"] by auto
      have "tsearch_outcome compar key T (plug C (Nd a c k l r)) a"
        using f(3-5) mem entries_key [OF mem] by (auto simp: tsearch_outcome_def)
      moreover have "tree_ok compar h2 (plug C (Nd a c k l r))"
        using f(1-3) asc by (simp add: tree_ok_plug)
      moreover have "tsearch malloc compar key (Some ROOTPTR) h = Some (h2, a)"
        using Found res(1) deref deref1 h1(1) nz by (simp add: tsearch_def)
      ultimately show ?thesis using at_node(4) [OF f(1)] by blast
    next
      case (Place nextp rootp parentp r p_r)
      then obtain C where C: "descending compar key (keys T) (entries T) h2 C Tip (Some rootp) parentp r p_r"
          "nextp = slot C" "nextp \<noteq> rootp" "C \<noteq> []"
        using res(2) by auto
      have "tsearch malloc compar key (Some ROOTPTR) h = add_node malloc key h2 (slot C) rootp parentp r p_r"
        using Place res(1) deref deref1 h1(1) nz C(2) by (simp add: tsearch_def)
      then show ?thesis
        using tsearch_after_descent [OF cons asc mal C(1), of rootp] C(2-4) by auto
    qed
  qed
qed

end
