(* ===== verification/Tsearch_Delete.thy ===== *)
theory Tsearch_Delete
  imports Tsearch_Insert
begin

text \<open>
  Search and deletion in the trees of misc/tsearch.c: the descents and their stack of parents, the
  unchaining of a node, and the rebalancing loop.
\<close>

section \<open>The stack of parents\<close>

fun parents :: "'k path \<Rightarrow> nodeptr list" where
  "parents [] = []"
| "parents (_ # C) = slot C # parents C"

text \<open>The size of the stack after it took \<open>n\<close> entries.\<close>

definition stack_cap :: "nat \<Rightarrow> nat" where
  "stack_cap n = (if n \<le> 40 then 40 else (n + 19) div 20 * 20)"

definition stack_of :: "'k path \<Rightarrow> nodestack" where
  "stack_of C = (parents C, stack_cap (length C))"

lemma length_parents [simp]: "length (parents C) = length C"
  by (induction C rule: parents.induct) simp_all

lemma stack_cap_ge: "n \<le> stack_cap n"
  unfolding stack_cap_def by presburger

lemma stack_cap_Suc: "stack_cap (Suc n) = (if n = stack_cap n then stack_cap n + 20 else stack_cap n)"
proof (cases "n < 41")
  case False
  obtain q r where n: "n = 20 * q + r" "r < 20"
    by (rule that [of "n div 20" "n mod 20"]) simp_all
  have "(n + 19) div 20 = q + (if r = 0 then 0 else 1)" "(Suc n + 19) div 20 = q + 1"
    using n by (simp_all add: div_nat_eqI)
  moreover have "\<not> n \<le> 40" "\<not> Suc n \<le> 40" using False by simp_all
  ultimately show ?thesis
    unfolding stack_cap_def using n by (cases "r = 0") simp_all
qed (auto simp: stack_cap_def less_Suc_eq)

lemma stack_cap_small: "n < 40 \<Longrightarrow> n < stack_cap n"
  by (simp add: stack_cap_def)

lemma stack_of_Cons: "stack_of (f # C) = push_parent (slot C) (stack_of C)"
  by (simp add: push_parent_def stack_of_def stack_cap_Suc)

section \<open>The descents\<close>

lemma tfind_loop_at:
  assumes cons: "consistent compar" and "at h C t" "ascending compar (keys (plug C t))" "leads_to compar key C"
  shows "\<exists>n. tfind_loop compar key h (slot C) = Some n \<and>
    (if n = 0 then \<forall>k \<in> set (keys (plug C t)). compar key k \<noteq> 0
     else \<exists>k. (n, k) \<in> entries (plug C t) \<and> compar key k = 0)"
  using assms(2-4)
proof (induction t arbitrary: C)
  case Tip
  have "tfind_loop compar key h (slot C) = Some 0"
    using at_slot [OF Tip.prems(1)] by (subst tfind_loop.simps) simp
  then show ?case
    using leads_to_absent [OF Tip.prems(3)] by (auto simp: keys_plug)
next
  case (Nd a c k l r)
  note at = Nd.prems(1)
  have step: "tfind_loop compar key h (slot C) =
      (if compar key k = 0 then Some a
       else tfind_loop compar key h (if compar key k < 0 then LEFTPTR a else RIGHTPTR a))"
    using at_slot [OF at] at_node [OF at] by (subst tfind_loop.simps) (simp add: heap_ops)
  note lead = leads_to_step [OF cons Nd.prems(2,3)]
  consider "compar key k = 0" | "compar key k < 0" | "compar key k > 0" by linarith
  then show ?case
  proof cases
    case 1
    then show ?thesis using step at_node(4) [OF at] by (auto simp: entries_plug)
  next
    case 2
    then show ?thesis
      using Nd.IH(1) [of "Step L a c k r # C", unfolded plug.simps] at Nd.prems(2) lead step by (simp add: at_step)
  next
    case 3
    then show ?thesis
      using Nd.IH(2) [of "Step R a c k l # C", unfolded plug.simps] at Nd.prems(2) lead step by (simp add: at_step)
  qed
qed

fun step_addr :: "'k step \<Rightarrow> u64" where
  "step_addr (Step _ a _ _ _) = a"

text \<open>The descent of \<open>tdelete\<close> ends at the node with the key, with the places of all its ancestors on
  the stack.\<close>

definition find_end ::
  "('k \<Rightarrow> 'k \<Rightarrow> int) \<Rightarrow> 'k \<Rightarrow> 'k theap \<Rightarrow> 'k path \<Rightarrow> u64 \<Rightarrow> 'k rbtree \<Rightarrow> (nodeptr \<times> u64 \<times> nodestack) option \<Rightarrow> bool" where
  "find_end compar key h C p T found \<longleftrightarrow>
     (case found of
        None \<Rightarrow> \<forall>k \<in> set (keys T). compar key k \<noteq> 0
      | Some (rootp, q, st) \<Rightarrow>
          \<exists>D a c k l r. at h (D @ C) (Nd a c k l r) \<and> plug (D @ C) (Nd a c k l r) = T \<and> compar key k = 0 \<and>
            rootp = slot (D @ C) \<and> st = stack_of (D @ C) \<and>
            q = (if D = [] then p else step_addr (hd D)))"

lemma find_end_step:
  assumes "find_end compar key h (Step d a c k s # C) a T found"
  shows "find_end compar key h C p T found"
proof (cases found)
  case (Some f)
  obtain rootp q st where f: "f = (rootp, q, st)" by (cases f)
  then obtain D a' c' k' l' r' where D: "at h (D @ Step d a c k s # C) (Nd a' c' k' l' r')"
      "plug (D @ Step d a c k s # C) (Nd a' c' k' l' r') = T" "compar key k' = 0"
      "rootp = slot (D @ Step d a c k s # C)" "st = stack_of (D @ Step d a c k s # C)"
      "q = (if D = [] then a else step_addr (hd D))"
    using assms Some by (auto simp: find_end_def)
  have "D @ Step d a c k s # C = (D @ [Step d a c k s]) @ C" by simp
  moreover have "q = step_addr (hd (D @ [Step d a c k s]))" using D(6) by (cases D) simp_all
  ultimately show ?thesis
    unfolding find_end_def Some f option.case prod.case using D(1-5)
    by (intro exI [of _ "D @ [Step d a c k s]"] exI [of _ a'] exI [of _ c'] exI [of _ k'] exI [of _ l'] exI [of _ r']) simp
qed (use assms in \<open>simp add: find_end_def\<close>)

lemma tdelete_find_at:
  assumes cons: "consistent compar" and "at h C t" "t \<noteq> Tip" "ascending compar (keys (plug C t))" "leads_to compar key C"
  shows "\<exists>found. tdelete_find compar key h (slot C) (ptr t) p (stack_of C) = Some found \<and> find_end compar key h C p (plug C t) found"
  using assms(2-)
proof (induction t arbitrary: C p)
  case (Nd a c k l r)
  note at = Nd.prems(1)
  let ?C = "\<lambda>d. Step d a c k (if d = L then r else l) # C"
  have step: "tdelete_find compar key h (slot C) (ptr (Nd a c k l r)) p (stack_of C) =
      (if compar key k = 0 then Some (Some (slot C, p, stack_of C))
       else let d = turn (compar key k); t = (if d = L then l else r) in
            if ptr t = 0 then Some None else tdelete_find compar key h (slot (?C d)) (ptr t) a (stack_of (?C d)))"
    using at_slot [OF at] at_node [OF at]
    by (subst tdelete_find.simps) (simp add: heap_ops Let_def stack_of_Cons)
  note lead = leads_to_step [OF cons Nd.prems(3,4)]
  show ?case
  proof (cases "compar key k = 0")
    case True
    then have "find_end compar key h C p (plug C (Nd a c k l r)) (Some (slot C, p, stack_of C))"
      unfolding find_end_def option.case prod.case using at
      by (intro exI [of _ "[]"] exI [of _ a] exI [of _ c] exI [of _ k] exI [of _ l] exI [of _ r]) simp
    then show ?thesis unfolding step using True by simp
  next
    case cmp: False
    define d where "d = turn (compar key k)"
    define t where "t = (if d = L then l else r)"
    have at': "at h (?C d) t" using at by (cases d) (simp_all add: t_def at_step)
    have plug': "plug (?C d) t = plug C (Nd a c k l r)" by (cases d) (simp_all add: t_def)
    have lead': "leads_to compar key (?C d)" using lead cmp by (auto simp: d_def)
    show ?thesis
    proof (cases "t = Tip")
      case True
      then have "find_end compar key h C p (plug C (Nd a c k l r)) None"
        using leads_to_absent [OF lead'] keys_plug [of "?C d" Tip] plug' by (auto simp: find_end_def)
      then show ?thesis
        unfolding step using cmp True by (simp add: Let_def flip: d_def t_def)
    next
      case False
      have nz: "ptr t \<noteq> 0" using False at_ptr_0 [OF at'] by simp
      have "\<exists>found. tdelete_find compar key h (slot (?C d)) (ptr t) a (stack_of (?C d)) = Some found \<and>
          find_end compar key h (?C d) a (plug (?C d) t) found"
        using Nd.IH(1) [of "?C d" a] Nd.IH(2) [of "?C d" a] at' False Nd.prems(3) lead' plug'
        by (cases d) (simp_all add: t_def)
      then obtain found where found: "tdelete_find compar key h (slot (?C d)) (ptr t) a (stack_of (?C d)) = Some found"
          "find_end compar key h (?C d) a (plug C (Nd a c k l r)) found"
        unfolding plug' by blast
      then show ?thesis
        unfolding step using cmp nz find_end_step [OF found(2), of p] by (simp add: Let_def flip: d_def t_def)
    qed
  qed
qed simp

lemma find_successor_at:
  assumes "at h (f # C) t" "t \<noteq> Tip"
  shows "\<exists>D b cb kb rb. find_successor h (slot C) (slot (f # C)) (stack_of C) = Some (slot (D @ f # C), stack_of (D @ f # C)) \<and>
    at h (D @ f # C) (Nd b cb kb Tip rb) \<and> plug (D @ f # C) (Nd b cb kb Tip rb) = plug (f # C) t \<and>
    keys_before (D @ f # C) = keys_before (f # C)"
  using assms
proof (induction t arbitrary: f C)
  case (Nd a c k l r)
  note at = Nd.prems(1)
  have step: "find_successor h (slot C) (slot (f # C)) (stack_of C) =
      (if ptr l = 0 then Some (slot (f # C), stack_of (f # C))
       else find_successor h (slot (f # C)) (LEFTPTR a) (stack_of (f # C)))"
    using at_slot [OF at] at_node [OF at]
    by (subst find_successor.simps) (simp add: heap_ops Let_def stack_of_Cons)
  have atl: "at h (Step L a c k r # f # C) l" using at by (simp add: at_step)
  show ?case
  proof (cases "l = Tip")
    case True
    then show ?thesis
      unfolding step using at by (intro exI [of _ "[]"] exI [of _ a] exI [of _ c] exI [of _ k] exI [of _ r]) simp
  next
    case False
    then have nz: "ptr l \<noteq> 0" using at_ptr_0 [OF atl] by simp
    obtain D b cb kb rb where "find_successor h (slot (f # C)) (slot (Step L a c k r # f # C)) (stack_of (f # C)) =
        Some (slot (D @ Step L a c k r # f # C), stack_of (D @ Step L a c k r # f # C))"
        "at h (D @ Step L a c k r # f # C) (Nd b cb kb Tip rb)"
        "plug (D @ Step L a c k r # f # C) (Nd b cb kb Tip rb) = plug (Step L a c k r # f # C) l"
        "keys_before (D @ Step L a c k r # f # C) = keys_before (Step L a c k r # f # C)"
      using Nd.IH(1) [OF atl False] by blast
    then show ?thesis
      unfolding step using nz
      by (intro exI [of _ "D @ [Step L a c k r]"] exI [of _ b] exI [of _ cb] exI [of _ kb] exI [of _ rb]) simp
  qed
qed simp

section \<open>Unchaining a node\<close>

text \<open>A node with at most one successor is replaced by that successor and stays beside the tree.\<close>

lemma unchain_at:
  assumes at: "at h C (Nd b cb kb lb rb)" and one: "lb = Tip \<or> rb = Tip"
  defines "t \<equiv> if lb = Tip then rb else lb"
  shows "\<exists>h'. unchain h (slot C) b (stack_of C) = Some (h', ptr t) \<and>
    at_beside [b \<mapsto> cell kb cb (ptr lb) (ptr rb)] h' C t"
proof -
  note node = at_node [OF at]
  have C: "holds_path h C b" "distinct (path_addrs C)" "b \<notin> set (path_addrs C)"
      "set (path_addrs C) \<inter> set (addrs lb @ addrs rb) = {}"
    using at by (auto simp: at_beside_def)
  have lb: "ptr lb = 0 \<longleftrightarrow> lb = Tip" "ptr rb = 0 \<longleftrightarrow> rb = Tip"
    using at by (auto simp: at_beside_def holds_ptr_0)
  have read: "LEFT h b = Some (ptr lb)" "(if ptr lb = 0 then RIGHT h b else Some (ptr lb)) = Some (ptr t)"
    using node lb one by (auto simp: heap_ops t_def)
  have store: "(if parents C = [] then SETNODEPTR h (slot C) (ptr t)
      else do { q \<leftarrow> DEREFNODEPTR h (hd (parents C)); qr \<leftarrow> RIGHT h q;
                if b = qr then SETRIGHT h q (ptr t) else SETLEFT h q (ptr t) }) = Some (relink h C (ptr t))"
  proof (cases C)
    case Nil
    then show ?thesis using C(1) node by (simp add: heap_ops)
  next
    case (Cons f C')
    obtain d a c k s where f: "f = Step d a c k s" by (cases f)
    have a: "nodes h a = Some (if d = L then cell k c b (ptr s) else cell k c (ptr s) b)" "even a" "even (ptr s)"
        "holds_path h C' a" "s \<noteq> Tip \<Longrightarrow> ptr s \<noteq> b"
      using at ptr_in_addrs [of s] by (auto simp: at_beside_def Cons f holds_ptr split: if_splits)
    have "DEREFNODEPTR h (slot C') = Some a" by (rule DEREFNODEPTR_slot [OF a(4,2)])
    moreover have "ptr s \<noteq> b" using a(5) node(4) by (cases s) auto
    ultimately show ?thesis using a node by (cases d) (auto simp: Cons f heap_ops)
  qed
  have "at_beside [b \<mapsto> cell kb cb (ptr lb) (ptr rb)] (relink h C (ptr t)) C t"
    using at C node one holds_path_relink [OF C(1,2), of "ptr t"]
    by (auto simp: at_beside_def t_def holds_relink relink_nodes)
  then show ?thesis
    unfolding unchain_def stack_of_def fst_conv read store bind.simps by simp
qed

text \<open>The key of a node on the path is replaced.\<close>

lemma at_append: "at_beside M h (D @ C) t \<longleftrightarrow> at_beside M h C (plug D t)"
  using at_plug [of M h "D @ C" t] at_plug [of M h C "plug D t"] by (simp add: plug_append)

lemma set_key_at:
  assumes "at_beside M h (D @ Step d a c k s # C) t"
  shows "\<exists>h'. set_node h a (\<lambda>x. x\<lparr>nkey := k'\<rparr>) = Some h' \<and> at_beside M h' (D @ Step d a c k' s # C) t"
proof -
  let ?l = "if d = L then plug D t else s" and ?r = "if d = L then s else plug D t"
  have eq: "at_beside M g (D @ Step d a c x s # C) t \<longleftrightarrow> at_beside M g C (Nd a c x ?l ?r)" for g x
    by (cases d) (simp_all add: at_append at_step)
  then have at: "at_beside M h C (Nd a c k ?l ?r)" using assms by simp
  have "at_beside M (h\<lparr>nodes := (nodes h)(a \<mapsto> cell k' c (ptr ?l) (ptr ?r))\<rparr>) C (Nd a c k' ?l ?r)"
    by (rule at_subtree [OF at]) (use at in \<open>auto simp: at_beside_def\<close>)
  then show ?thesis
    unfolding eq using at_node [OF at] by (simp add: heap_ops)
qed

section \<open>Rotations\<close>

lemma relink_commute:
  "a \<notin> set (path_addrs C) \<Longrightarrow>
    (relink h C q)\<lparr>nodes := (nodes (relink h C q))(a := v)\<rparr> = relink (h\<lparr>nodes := (nodes h)(a := v)\<rparr>) C q"
  by (cases C rule: slot.cases) (auto simp: fun_upd_twist)

lemma at_set_slot:
  assumes "at_beside M h C t" "holds_path (h\<lparr>nodes := m\<rparr>) C (ptr t)"
  shows "SETNODEPTR (h\<lparr>nodes := m\<rparr>) (slot C) q = Some (relink (h\<lparr>nodes := m\<rparr>) C q)"
  using assms by (intro SETNODEPTR_slot) (auto simp: at_beside_def holds_ptr)

lemma at_relink:
  assumes "at_beside M h C t" "holds m t'" "set (addrs t') = set (addrs t)" "distinct (addrs t')"
    and "\<And>a. a \<notin> set (addrs t) \<Longrightarrow> m a = nodes h a"
  shows "at_beside M (relink (h\<lparr>nodes := m\<rparr>) C (ptr t')) C t'"
proof (rule at_replace [OF assms(1) _ assms(3,4)])
  have "a \<notin> set (path_addrs C)" if "a \<in> set (addrs t')" for a
    using that assms(1,3) by (auto simp: at_beside_def)
  then show "holds (nodes (relink (h\<lparr>nodes := m\<rparr>) C (ptr t'))) t'"
    using assms(2) holds_relink [of C t' "h\<lparr>nodes := m\<rparr>"] by auto
qed (simp_all add: relink_upd assms(5))

text \<open>What the heap holds at the nodes of the subtree.\<close>

lemma at_cells:
  assumes "at_beside M h C t"
  shows "holds (nodes h) t" "distinct (addrs t)" "holds_path h C (ptr t)" "set (path_addrs C) \<inter> set (addrs t) = {}"
  using assms by (auto simp: at_beside_def)

lemmas rotate_eval = heap_ops relink_commute relink_nodes fun_upd_twist

lemma rotate_left_red_at:
  assumes at: "at_beside M h C (Nd p c k t (Nd q cq kq ql qr))"
  shows "\<exists>h'. rotate_left_red h (slot C) p q = Some h' \<and> at_beside M h' C (Nd q False kq (Nd p True k t ql) qr)"
proof -
  note cells = at_cells [OF at, simplified]
  have ne: "q \<noteq> p" using cells(2) by auto
  have "rotate_left_red h (slot C) p q = Some (relink (h\<lparr>nodes := (nodes h)(p \<mapsto> cell k True (ptr t) (ptr ql), q \<mapsto> cell kq False p (ptr qr))\<rparr>) C q)"
    using cells ne by (simp add: rotate_left_red_def rotate_eval holds_ptr [of "nodes h"] at_set_slot [OF at])
  then show ?thesis
    using at_relink [OF at, of "(nodes h)(p \<mapsto> cell k True (ptr t) (ptr ql), q \<mapsto> cell kq False p (ptr qr))" "Nd q False kq (Nd p True k t ql) qr"] cells by auto
qed

lemma rotate_left_double_at:
  assumes at: "at_beside M h C (Nd p c k t (Nd q cq kq (Nd q2 c2 k2 a b) qr))"
  shows "\<exists>h'. rotate_left_double h (slot C) p q = Some h' \<and> at_beside M h' C (Nd q2 c k2 (Nd p False k t a) (Nd q cq kq b qr))"
proof -
  note cells = at_cells [OF at, simplified]
  have ne: "q \<noteq> p" "q2 \<noteq> p" "q2 \<noteq> q" using cells(2) by auto
  have "rotate_left_double h (slot C) p q = Some (relink (h\<lparr>nodes := (nodes h)(p \<mapsto> cell k False (ptr t) (ptr a), q \<mapsto> cell kq cq (ptr b) (ptr qr), q2 \<mapsto> cell k2 c p q)\<rparr>) C q2)"
    using cells ne by (simp add: rotate_left_double_def copy_color_def rotate_eval holds_ptr [of "nodes h"] at_set_slot [OF at])
  then show ?thesis
    using at_relink [OF at, of "(nodes h)(p \<mapsto> cell k False (ptr t) (ptr a), q \<mapsto> cell kq cq (ptr b) (ptr qr), q2 \<mapsto> cell k2 c p q)" "Nd q2 c k2 (Nd p False k t a) (Nd q cq kq b qr)"] cells by auto
qed

lemma rotate_left_single_at:
  assumes at: "at_beside M h C (Nd p c k t (Nd q cq kq ql (Nd u cu ku ul ur)))"
  shows "\<exists>h'. rotate_left_single h (slot C) p q = Some h' \<and> at_beside M h' C (Nd q c kq (Nd p False k t ql) (Nd u False ku ul ur))"
proof -
  note cells = at_cells [OF at, simplified]
  have ne: "q \<noteq> p" "u \<noteq> p" "u \<noteq> q" using cells(2) by auto
  have "rotate_left_single h (slot C) p q = Some (relink (h\<lparr>nodes := (nodes h)(p \<mapsto> cell k False (ptr t) (ptr ql), q \<mapsto> cell kq c p u, u \<mapsto> cell ku False (ptr ul) (ptr ur))\<rparr>) C q)"
    using cells ne by (simp add: rotate_left_single_def copy_color_def rotate_eval holds_ptr [of "nodes h"] at_set_slot [OF at])
  then show ?thesis
    using at_relink [OF at, of "(nodes h)(p \<mapsto> cell k False (ptr t) (ptr ql), q \<mapsto> cell kq c p u, u \<mapsto> cell ku False (ptr ul) (ptr ur))" "Nd q c kq (Nd p False k t ql) (Nd u False ku ul ur)"] cells by auto
qed

lemma rotate_right_red_at:
  assumes at: "at_beside M h C (Nd p c k (Nd q cq kq ql qr) t)"
  shows "\<exists>h'. rotate_right_red h (slot C) p q = Some h' \<and> at_beside M h' C (Nd q False kq ql (Nd p True k qr t))"
proof -
  note cells = at_cells [OF at, simplified]
  have ne: "q \<noteq> p" using cells(2) by auto
  have "rotate_right_red h (slot C) p q = Some (relink (h\<lparr>nodes := (nodes h)(p \<mapsto> cell k True (ptr qr) (ptr t), q \<mapsto> cell kq False (ptr ql) p)\<rparr>) C q)"
    using cells ne by (simp add: rotate_right_red_def rotate_eval holds_ptr [of "nodes h"] at_set_slot [OF at])
  then show ?thesis
    using at_relink [OF at, of "(nodes h)(p \<mapsto> cell k True (ptr qr) (ptr t), q \<mapsto> cell kq False (ptr ql) p)" "Nd q False kq ql (Nd p True k qr t)"] cells by auto
qed

lemma rotate_right_double_at:
  assumes at: "at_beside M h C (Nd p c k (Nd q cq kq ql (Nd q2 c2 k2 a b)) t)"
  shows "\<exists>h'. rotate_right_double h (slot C) p q = Some h' \<and> at_beside M h' C (Nd q2 c k2 (Nd q cq kq ql a) (Nd p False k b t))"
proof -
  note cells = at_cells [OF at, simplified]
  have ne: "q \<noteq> p" "q2 \<noteq> p" "q2 \<noteq> q" using cells(2) by auto
  have "rotate_right_double h (slot C) p q = Some (relink (h\<lparr>nodes := (nodes h)(p \<mapsto> cell k False (ptr b) (ptr t), q \<mapsto> cell kq cq (ptr ql) (ptr a), q2 \<mapsto> cell k2 c q p)\<rparr>) C q2)"
    using cells ne by (simp add: rotate_right_double_def copy_color_def rotate_eval holds_ptr [of "nodes h"] at_set_slot [OF at])
  then show ?thesis
    using at_relink [OF at, of "(nodes h)(p \<mapsto> cell k False (ptr b) (ptr t), q \<mapsto> cell kq cq (ptr ql) (ptr a), q2 \<mapsto> cell k2 c q p)" "Nd q2 c k2 (Nd q cq kq ql a) (Nd p False k b t)"] cells by auto
qed

lemma rotate_right_single_at:
  assumes at: "at_beside M h C (Nd p c k (Nd q cq kq (Nd u cu ku ul ur) qr) t)"
  shows "\<exists>h'. rotate_right_single h (slot C) p q = Some h' \<and> at_beside M h' C (Nd q c kq (Nd u False ku ul ur) (Nd p False k qr t))"
proof -
  note cells = at_cells [OF at, simplified]
  have ne: "q \<noteq> p" "u \<noteq> p" "u \<noteq> q" using cells(2) by auto
  have "rotate_right_single h (slot C) p q = Some (relink (h\<lparr>nodes := (nodes h)(p \<mapsto> cell k False (ptr qr) (ptr t), q \<mapsto> cell kq c u p, u \<mapsto> cell ku False (ptr ul) (ptr ur))\<rparr>) C q)"
    using cells ne by (simp add: rotate_right_single_def copy_color_def rotate_eval holds_ptr [of "nodes h"] at_set_slot [OF at])
  then show ?thesis
    using at_relink [OF at, of "(nodes h)(p \<mapsto> cell k False (ptr qr) (ptr t), q \<mapsto> cell kq c u p, u \<mapsto> cell ku False (ptr ul) (ptr ur))" "Nd q c kq (Nd u False ku ul ur) (Nd p False k qr t)"] cells by auto
qed

section \<open>Rebalancing\<close>

text \<open>The subtree at the end of the path has one black node too few.\<close>

definition deficient :: "'k path \<Rightarrow> 'k rbtree \<Rightarrow> bool" where
  "deficient C t \<longleftrightarrow> rb_ok (blacken t) \<and> fits_path C False (Suc (blackh t))"

lemma black_or_null_at: "at_beside M h C t \<Longrightarrow> black_or_null h (ptr t) = Some (\<not> is_red t)"
  using RED_at [of M h C t] at_ptr_0 [of M h C t] by (cases "t = Tip") (auto simp: black_or_null_def)

text \<open>What the repair at a black brother leaves at the place of the parent: either a finished tree,
  or a subtree that is deficient in turn.\<close>

definition repaired :: "'k path \<Rightarrow> bool \<Rightarrow> nodestack \<Rightarrow> u64 \<times> nodestack \<Rightarrow> 'k rbtree \<Rightarrow> bool" where
  "repaired C c st res t \<longleftrightarrow>
     (if fst res = 0 then snd res = ([last (fst st)], snd st) \<and> rb_ok (plug C t)
      else snd res = st \<and> fst res = ptr t \<and> deficient C t \<and> (c \<longrightarrow> is_red t))"

lemma repair_left_at:
  assumes at: "at_beside M h C (Nd p c k t (Nd q False kq ql qr))"
    and t: "rb_ok t" "\<not> is_red t" and q: "rb_ok ql" "rb_ok qr" "blackh ql = blackh t" "blackh qr = blackh t"
    and path: "fits_path C c (Suc (blackh t) + of_bool (\<not> c))"
  shows "\<exists>h' res T'. repair_left h (slot C) p q st = Some (h', res) \<and> at_beside M h' C T' \<and>
    keys T' = keys (Nd p c k t (Nd q False kq ql qr)) \<and> entries T' = entries (Nd p c k t (Nd q False kq ql qr)) \<and>
    repaired C c st res T'"
proof -
  have atq: "at_beside M h (Step R p c k t # C) (Nd q False kq ql qr)"
    and atl: "at_beside M h (Step L q False kq qr # Step R p c k t # C) ql"
    and atr: "at_beside M h (Step R q False kq ql # Step R p c k t # C) qr"
    using at by (simp_all add: at_step)
  have read: "LEFT h q = Some (ptr ql)" "RIGHT h q = Some (ptr qr)"
    using at_node [OF atq] by (simp_all add: heap_ops)
  note black = black_or_null_at [OF atl] black_or_null_at [OF atr]
  have p0: "p \<noteq> 0" using at_node [OF at] by simp
  consider "\<not> is_red ql" "\<not> is_red qr" | q2 k2 a b where "ql = Nd q2 True k2 a b" "\<not> is_red qr"
    | u ku ul ur where "qr = Nd u True ku ul ur"
    by (cases ql; cases qr) auto
  then show ?thesis
  proof cases
    case 1
    obtain h' where h': "SETRED h q = Some h'" "at_beside M h' C (Nd p c k t (Nd q True kq ql qr))"
      using paint_at(2) [OF atq] by (auto simp: at_step)
    moreover have "repaired C c st (p, st) (Nd p c k t (Nd q True kq ql qr))"
      using 1 t q path p0 fits_path_black [of C] by (cases c) (auto simp: repaired_def deficient_def)
    ultimately show ?thesis
      using 1 by (intro exI [of _ h'] exI [of _ "(p, st)"] exI [of _ "Nd p c k t (Nd q True kq ql qr)"])
        (simp add: repair_left_def read black)
  next
    case 2
    let ?T = "Nd q2 c k2 (Nd p False k t a) (Nd q False kq b qr)"
    obtain h' where "rotate_left_double h (slot C) p q = Some h'" "at_beside M h' C ?T"
      using rotate_left_double_at [of M h C p c k t q False kq q2 True k2 a b qr] at 2 by auto
    moreover have "repaired C c st (0, [last (fst st)], snd st) ?T"
      using 2 t q path by (auto simp: repaired_def rb_ok_plug)
    ultimately show ?thesis
      using 2 black read by (intro exI [of _ h'] exI [of _ "(0, [last (fst st)], snd st)"] exI [of _ ?T])
        (auto simp: repair_left_def)
  next
    case 3
    let ?T = "Nd q c kq (Nd p False k t ql) (Nd u False ku ul ur)"
    obtain h' where "rotate_left_single h (slot C) p q = Some h'" "at_beside M h' C ?T"
      using rotate_left_single_at [of M h C p c k t q False kq ql u True ku ul ur] at 3 by auto
    moreover have "repaired C c st (0, [last (fst st)], snd st) ?T"
      using 3 t q path by (auto simp: repaired_def rb_ok_plug)
    ultimately show ?thesis
      using 3 black read by (intro exI [of _ h'] exI [of _ "(0, [last (fst st)], snd st)"] exI [of _ ?T])
        (auto simp: repair_left_def)
  qed
qed

lemma repair_right_at:
  assumes at: "at_beside M h C (Nd p c k (Nd q False kq ql qr) t)"
    and t: "rb_ok t" "\<not> is_red t" and q: "rb_ok ql" "rb_ok qr" "blackh ql = blackh t" "blackh qr = blackh t"
    and path: "fits_path C c (Suc (blackh t) + of_bool (\<not> c))"
  shows "\<exists>h' res T'. repair_right h (slot C) p q st = Some (h', res) \<and> at_beside M h' C T' \<and>
    keys T' = keys (Nd p c k (Nd q False kq ql qr) t) \<and> entries T' = entries (Nd p c k (Nd q False kq ql qr) t) \<and>
    repaired C c st res T'"
proof -
  have atq: "at_beside M h (Step L p c k t # C) (Nd q False kq ql qr)"
    and atl: "at_beside M h (Step L q False kq qr # Step L p c k t # C) ql"
    and atr: "at_beside M h (Step R q False kq ql # Step L p c k t # C) qr"
    using at by (simp_all add: at_step)
  have read: "LEFT h q = Some (ptr ql)" "RIGHT h q = Some (ptr qr)"
    using at_node [OF atq] by (simp_all add: heap_ops)
  note black = black_or_null_at [OF atl] black_or_null_at [OF atr]
  have p0: "p \<noteq> 0" using at_node [OF at] by simp
  consider "\<not> is_red ql" "\<not> is_red qr" | q2 k2 a b where "qr = Nd q2 True k2 a b" "\<not> is_red ql"
    | u ku ul ur where "ql = Nd u True ku ul ur"
    by (cases ql; cases qr) auto
  then show ?thesis
  proof cases
    case 1
    obtain h' where h': "SETRED h q = Some h'" "at_beside M h' C (Nd p c k (Nd q True kq ql qr) t)"
      using paint_at(2) [OF atq] by (auto simp: at_step)
    moreover have "repaired C c st (p, st) (Nd p c k (Nd q True kq ql qr) t)"
      using 1 t q path p0 fits_path_black [of C] by (cases c) (auto simp: repaired_def deficient_def)
    ultimately show ?thesis
      using 1 by (intro exI [of _ h'] exI [of _ "(p, st)"] exI [of _ "Nd p c k (Nd q True kq ql qr) t"])
        (simp add: repair_right_def read black)
  next
    case 2
    let ?T = "Nd q2 c k2 (Nd q False kq ql a) (Nd p False k b t)"
    obtain h' where "rotate_right_double h (slot C) p q = Some h'" "at_beside M h' C ?T"
      using rotate_right_double_at [of M h C p c k q False kq ql q2 True k2 a b t] at 2 by auto
    moreover have "repaired C c st (0, [last (fst st)], snd st) ?T"
      using 2 t q path by (auto simp: repaired_def rb_ok_plug)
    ultimately show ?thesis
      using 2 black read by (intro exI [of _ h'] exI [of _ "(0, [last (fst st)], snd st)"] exI [of _ ?T])
        (auto simp: repair_right_def)
  next
    case 3
    let ?T = "Nd q c kq (Nd u False ku ul ur) (Nd p False k qr t)"
    obtain h' where "rotate_right_single h (slot C) p q = Some h'" "at_beside M h' C ?T"
      using rotate_right_single_at [of M h C p c k q False kq u True ku ul ur qr t] at 3 by auto
    moreover have "repaired C c st (0, [last (fst st)], snd st) ?T"
      using 3 t q path by (auto simp: repaired_def rb_ok_plug)
    ultimately show ?thesis
      using 3 black read by (intro exI [of _ h'] exI [of _ "(0, [last (fst st)], snd st)"] exI [of _ ?T])
        (auto simp: repair_right_def)
  qed
qed

text \<open>What one turn of the loop leaves: a finished tree and an empty stack, or a deficient subtree
  nearer to the root, or a red one at the same depth.\<close>

definition balanced ::
  "'k path \<Rightarrow> 'k rbtree \<Rightarrow> nat \<Rightarrow> u64 \<times> nodestack \<Rightarrow> 'k path \<Rightarrow> 'k rbtree \<Rightarrow> bool" where
  "balanced C t sz res C' t' \<longleftrightarrow>
     keys (plug C' t') = keys (plug C t) \<and> entries (plug C' t') = entries (plug C t) \<and>
     (if fst res = 0 then tl (fst (snd res)) = [] \<and> rb_ok (plug C' t')
      else fst res = ptr t' \<and> tl (fst (snd res)) = parents C' \<and> snd (snd res) = sz \<and> deficient C' t' \<and>
        (length C' < length C \<or> length C' = length C \<and> is_red t'))"

lemma repaired_balanced:
  assumes rep: "repaired C' c (np # parents C', sz) res T'"
    and tree: "keys (plug C' T') = keys (plug C t)" "entries (plug C' T') = entries (plug C t)"
    and near: "length C' < length C \<or> length C' = length C \<and> c"
  shows "balanced C t sz res C' T'"
  using rep tree near by (cases "fst res = 0") (auto simp: repaired_def balanced_def)

lemma balance_left_at:
  assumes at: "at_beside M h (Step L p c k S # C) t" and def: "deficient (Step L p c k S # C) t"
    and black: "\<not> is_red t" and sz: "Suc (length C) < sz"
  shows "\<exists>h' res C' T'. balance_left h (slot C) p (slot C # parents C, sz) = Some (h', res) \<and> at_beside M h' C' T' \<and>
    balanced (Step L p c k S # C) t sz res C' T'"
proof -
  have t: "rb_ok t" using def black by (cases t) (simp_all add: deficient_def)
  have S: "c \<longrightarrow> \<not> is_red S" "blackh S = Suc (blackh t)" "rb_ok S" and path: "fits_path C c (Suc (blackh t) + of_bool (\<not> c))"
    using def by (auto simp: deficient_def)
  obtain q cq kq ql qr where q: "S = Nd q cq kq ql qr" using S(2) by (cases S) auto
  have atC: "at_beside M h C (Nd p c k t S)" and atS: "at_beside M h (Step R p c k t # C) S"
    using at by (simp_all add: at_step)
  have read: "RIGHT h p = Some q" "RED h q = Some cq"
    using at_node [OF atC] RED_at [OF atS] q by (simp_all add: heap_ops)
  show ?thesis
  proof (cases cq)
    case False
    then have q': "S = Nd q False kq ql qr" using q by simp
    have "\<exists>h' res T'. repair_left h (slot C) p q (slot C # parents C, sz) = Some (h', res) \<and> at_beside M h' C T' \<and>
        keys T' = keys (Nd p c k t S) \<and> entries T' = entries (Nd p c k t S) \<and>
        repaired C c (slot C # parents C, sz) res T'"
      unfolding q' by (rule repair_left_at) (use atC S t black path q' in simp_all)
    then obtain h' res T' where "repair_left h (slot C) p q (slot C # parents C, sz) = Some (h', res)" "at_beside M h' C T'"
        "keys T' = keys (Nd p c k t S)" "entries T' = entries (Nd p c k t S)"
        "repaired C c (slot C # parents C, sz) res T'" by blast
    moreover from this have "balanced (Step L p c k S # C) t sz res C T'"
      by (intro repaired_balanced) (simp_all add: keys_plug entries_plug)
    ultimately show ?thesis
      using read False by (intro exI [of _ h'] exI [of _ res] exI [of _ C] exI [of _ T'])
        (simp add: balance_left_def)
  next
    case True
    let ?C = "Step L q False kq qr # C" and ?near = "ql"
    have c: "\<not> c" using S(1) q True by auto
    obtain h1 where h1: "rotate_left_red h (slot C) p q = Some h1" "at_beside M h1 ?C (Nd p True k t ?near)"
      using rotate_left_red_at [of M h C p c k t q cq kq ql qr] atC q by (auto simp: at_step)
    obtain u ku ul ur where u: "?near = Nd u False ku ul ur"
      using S q True by (cases ?near) auto
    have brother: "RIGHT h1 p = Some u"
      using at_node [OF h1(2)] u by (simp add: heap_ops)
    have push: "push_unchecked (LEFTPTR q) (slot C # parents C, sz) = Some (LEFTPTR q # slot C # parents C, sz)"
      using sz by (simp add: push_unchecked_def)
    have "\<exists>h' res T'. repair_left h1 (slot ?C) p u (LEFTPTR q # slot C # parents C, sz) = Some (h', res) \<and> at_beside M h' ?C T' \<and>
        keys T' = keys (Nd p True k t ?near) \<and> entries T' = entries (Nd p True k t ?near) \<and>
        repaired ?C True (LEFTPTR q # slot C # parents C, sz) res T'"
      unfolding u by (rule repair_left_at) (use h1(2) u S q True c t black path in simp_all)
    then obtain h' res T' where "repair_left h1 (LEFTPTR q) p u (LEFTPTR q # slot C # parents C, sz) = Some (h', res)" "at_beside M h' ?C T'"
        "keys T' = keys (Nd p True k t ?near)" "entries T' = entries (Nd p True k t ?near)"
        and rep: "repaired ?C True (LEFTPTR q # parents ?C, sz) res T'" by auto
    moreover from this have "balanced (Step L p c k S # C) t sz res ?C T'"
      using q by (intro repaired_balanced [OF rep]) (simp_all add: keys_plug entries_plug Un_ac insert_commute)
    ultimately show ?thesis
      using read True h1(1) push brother by (intro exI [of _ h'] exI [of _ res] exI [of _ ?C] exI [of _ T'])
        (simp add: balance_left_def)
  qed
qed

lemma balance_right_at:
  assumes at: "at_beside M h (Step R p c k S # C) t" and def: "deficient (Step R p c k S # C) t"
    and black: "\<not> is_red t" and sz: "Suc (length C) < sz"
  shows "\<exists>h' res C' T'. balance_right h (slot C) p (slot C # parents C, sz) = Some (h', res) \<and> at_beside M h' C' T' \<and>
    balanced (Step R p c k S # C) t sz res C' T'"
proof -
  have t: "rb_ok t" using def black by (cases t) (simp_all add: deficient_def)
  have S: "c \<longrightarrow> \<not> is_red S" "blackh S = Suc (blackh t)" "rb_ok S" and path: "fits_path C c (Suc (blackh t) + of_bool (\<not> c))"
    using def by (auto simp: deficient_def)
  obtain q cq kq ql qr where q: "S = Nd q cq kq ql qr" using S(2) by (cases S) auto
  have atC: "at_beside M h C (Nd p c k S t)" and atS: "at_beside M h (Step L p c k t # C) S"
    using at by (simp_all add: at_step)
  have read: "LEFT h p = Some q" "RED h q = Some cq"
    using at_node [OF atC] RED_at [OF atS] q by (simp_all add: heap_ops)
  show ?thesis
  proof (cases cq)
    case False
    then have q': "S = Nd q False kq ql qr" using q by simp
    have "\<exists>h' res T'. repair_right h (slot C) p q (slot C # parents C, sz) = Some (h', res) \<and> at_beside M h' C T' \<and>
        keys T' = keys (Nd p c k S t) \<and> entries T' = entries (Nd p c k S t) \<and>
        repaired C c (slot C # parents C, sz) res T'"
      unfolding q' by (rule repair_right_at) (use atC S t black path q' in simp_all)
    then obtain h' res T' where "repair_right h (slot C) p q (slot C # parents C, sz) = Some (h', res)" "at_beside M h' C T'"
        "keys T' = keys (Nd p c k S t)" "entries T' = entries (Nd p c k S t)"
        "repaired C c (slot C # parents C, sz) res T'" by blast
    moreover from this have "balanced (Step R p c k S # C) t sz res C T'"
      by (intro repaired_balanced) (simp_all add: keys_plug entries_plug)
    ultimately show ?thesis
      using read False by (intro exI [of _ h'] exI [of _ res] exI [of _ C] exI [of _ T'])
        (simp add: balance_right_def)
  next
    case True
    let ?C = "Step R q False kq ql # C" and ?near = "qr"
    have c: "\<not> c" using S(1) q True by auto
    obtain h1 where h1: "rotate_right_red h (slot C) p q = Some h1" "at_beside M h1 ?C (Nd p True k ?near t)"
      using rotate_right_red_at [of M h C p c k q cq kq ql qr t] atC q by (auto simp: at_step)
    obtain u ku ul ur where u: "?near = Nd u False ku ul ur"
      using S q True by (cases ?near) auto
    have brother: "LEFT h1 p = Some u"
      using at_node [OF h1(2)] u by (simp add: heap_ops)
    have push: "push_unchecked (RIGHTPTR q) (slot C # parents C, sz) = Some (RIGHTPTR q # slot C # parents C, sz)"
      using sz by (simp add: push_unchecked_def)
    have "\<exists>h' res T'. repair_right h1 (slot ?C) p u (RIGHTPTR q # slot C # parents C, sz) = Some (h', res) \<and> at_beside M h' ?C T' \<and>
        keys T' = keys (Nd p True k ?near t) \<and> entries T' = entries (Nd p True k ?near t) \<and>
        repaired ?C True (RIGHTPTR q # slot C # parents C, sz) res T'"
      unfolding u by (rule repair_right_at) (use h1(2) u S q True c t black path in simp_all)
    then obtain h' res T' where "repair_right h1 (RIGHTPTR q) p u (RIGHTPTR q # slot C # parents C, sz) = Some (h', res)" "at_beside M h' ?C T'"
        "keys T' = keys (Nd p True k ?near t)" "entries T' = entries (Nd p True k ?near t)"
        and rep: "repaired ?C True (RIGHTPTR q # parents ?C, sz) res T'" by auto
    moreover from this have "balanced (Step R p c k S # C) t sz res ?C T'"
      using q by (intro repaired_balanced [OF rep]) (simp_all add: keys_plug entries_plug Un_ac insert_commute)
    ultimately show ?thesis
      using read True h1(1) push brother by (intro exI [of _ h'] exI [of _ res] exI [of _ ?C] exI [of _ T'])
        (simp add: balance_right_def)
  qed
qed

text \<open>The loop and the blackening after it end at a red-black tree with the same nodes, when the
  stack has room for one more entry.\<close>

definition finished :: "(u64 \<rightharpoonup> 'k node_t) \<Rightarrow> 'k path \<Rightarrow> 'k rbtree \<Rightarrow> 'k theap option \<Rightarrow> bool" where
  "finished M C t res \<longleftrightarrow>
     (\<exists>h' T'. res = Some h' \<and> at_beside M h' [] T' \<and> rb_ok T' \<and>
        keys T' = keys (plug C t) \<and> entries T' = entries (plug C t))"

lemma finished_black:
  assumes at: "at_beside M h C t" and def: "deficient C t" and last: "C = [] \<or> is_red t"
  shows "finished M C t (if ptr t \<noteq> 0 then SETBLACK h (ptr t) else Some h)"
proof -
  obtain h' where h': "(if ptr t \<noteq> 0 then SETBLACK h (ptr t) else Some h) = Some h'" "at_beside M h' C (blacken t)"
    using blacken_at [OF at] by blast
  have "rb_ok (plug C (blacken t))"
    using def last by (cases t) (auto simp: deficient_def rb_ok_plug)
  moreover have "keys (blacken t) = keys t" "entries (blacken t) = entries t" by (cases t; simp)+
  ultimately show ?thesis
    unfolding finished_def h'(1) using h'(2) at_plug [of M h' C "blacken t"]
    by (intro exI [of _ h'] exI [of _ "plug C (blacken t)"]) (simp add: keys_plug entries_plug)
qed

lemma balance_at:
  assumes at: "at_beside M h C t" and def: "deficient C t" and black: "\<not> is_red t" and C: "C \<noteq> []" "length C < sz"
  shows "\<exists>h' res C' T'. at_beside M h' C' T' \<and> balanced C t sz res C' T' \<and>
    rebalance h (ptr t) (parents C, sz) = rebalance h' (fst res) (tl (fst (snd res)), snd (snd res))"
proof -
  obtain d p c k S C' where C': "C = Step d p c k S # C'" using C(1) by (metis list.exhaust step.exhaust)
  have S: "blackh S = Suc (blackh t)" using def by (simp add: deficient_def C')
  have top: "DEREFNODEPTR h (slot C') = Some p"
    using at at_slot [of M h C'] by (cases d) (auto simp: C' at_step)
  have left: "LEFT h p = Some (ptr (if d = L then t else S))"
    using at at_node [of M h C' p c k] by (cases d) (auto simp: C' at_step heap_ops)
  have ne: "ptr t \<noteq> ptr S"
  proof -
    have S0: "S \<noteq> Tip" using S by auto
    have dist: "set (addrs S) \<inter> set (addrs t) = {}" and nz: "ptr S \<noteq> 0"
      using at S0 by (auto simp: at_beside_def C' holds_ptr_0)
    show ?thesis
      using dist nz S0 ptr_in_addrs [of S] ptr_in_addrs [of t] by (cases "t = Tip") auto
  qed
  have "\<exists>h' res C'' T'. (if d = L then balance_left h (slot C') p (slot C' # parents C', sz)
        else balance_right h (slot C') p (slot C' # parents C', sz)) = Some (h', res) \<and>
      at_beside M h' C'' T' \<and> balanced C t sz res C'' T'"
    using balance_left_at [of M h p c k S C' t sz] balance_right_at [of M h p c k S C' t sz] at def black C(2)
    by (cases d) (simp_all add: C')
  then obtain h' res C'' T' where res: "(if d = L then balance_left h (slot C') p (slot C' # parents C', sz)
        else balance_right h (slot C') p (slot C' # parents C', sz)) = Some (h', res)"
      "at_beside M h' C'' T'" "balanced C t sz res C'' T'" by blast
  have "rebalance h (ptr t) (parents C, sz) = rebalance h' (fst res) (tl (fst (snd res)), snd (snd res))"
    using res(1) ne left top black_or_null_at [OF at] black
    by (subst rebalance.simps) (cases d; simp add: C')
  then show ?thesis using res(2,3) by blast
qed

lemma rebalance_ends:
  assumes "at_beside M h C t" "deficient C t" "length C < sz"
  shows "finished M C t
    (do { (h, r) \<leftarrow> rebalance h (ptr t) (parents C, sz); if r \<noteq> 0 then SETBLACK h r else Some h })"
  using assms
proof (induction "2 * length C + of_bool (\<not> is_red t)" arbitrary: h C t rule: less_induct)
  case less
  show ?case
  proof (cases "C = [] \<or> is_red t")
    case True
    then have "rebalance h (ptr t) (parents C, sz) = Some (h, ptr t)"
      using black_or_null_at [OF less.prems(1)] by (subst rebalance.simps) auto
    then show ?thesis using finished_black [OF less.prems(1,2) True] by simp
  next
    case False
    then obtain h' res C' T' where turn: "at_beside M h' C' T'" "balanced C t sz res C' T'"
        "rebalance h (ptr t) (parents C, sz) = rebalance h' (fst res) (tl (fst (snd res)), snd (snd res))"
      using balance_at [OF less.prems(1,2)] less.prems(3) by blast
    show ?thesis
    proof (cases "fst res = 0")
      case True
      then have "rebalance h (ptr t) (parents C, sz) = Some (h', 0)"
        using turn(2,3) by (subst (asm) (2) rebalance.simps) (simp add: balanced_def)
      then show ?thesis
        using turn True at_plug [of M h' C' T']
        by (auto simp: finished_def balanced_def intro!: exI [of _ "plug C' T'"])
    next
      case goon: False
      then have b: "fst res = ptr T'" "tl (fst (snd res)) = parents C'" "snd (snd res) = sz" "deficient C' T'"
          "length C' < length C \<or> length C' = length C \<and> is_red T'"
          "keys (plug C' T') = keys (plug C t)" "entries (plug C' T') = entries (plug C t)"
        using turn(2) by (simp_all add: balanced_def)
      have "finished M C' T'
          (do { (h, r) \<leftarrow> rebalance h' (ptr T') (parents C', sz); if r \<noteq> 0 then SETBLACK h r else Some h })"
        using less.hyps [of C' T' h'] turn(1) b(4,5) less.prems(3) False by auto
      then show ?thesis
        unfolding turn(3) b(1-3) finished_def b(6,7) .
    qed
  qed
qed

section \<open>Deletion\<close>

lemma plug_rekey:
  "fits_path (E @ Step d a c k s # D) red n = fits_path (E @ Step d a c k' s # D) red n"
  "keys_before (E @ D) = keys_before D @ keys_before E" "keys_after (E @ D) = keys_after E @ keys_after D"
  "path_addrs (E @ Step d a c k s # D) = path_addrs (E @ Step d a c k' s # D)"
proof -
  show "fits_path (E @ Step d a c k s # D) red n = fits_path (E @ Step d a c k' s # D) red n"
    by (induction E red n rule: fits_path.induct) simp_all
  show "keys_before (E @ D) = keys_before D @ keys_before E"
    by (induction E rule: keys_before.induct) simp_all
  show "keys_after (E @ D) = keys_after E @ keys_after D"
    by (induction E rule: keys_after.induct) simp_all
  show "path_addrs (E @ Step d a c k s # D) = path_addrs (E @ Step d a c k' s # D)"
    by (induction E rule: path_addrs.induct) simp_all
qed

text \<open>The node to unchain: the one with the key, or its successor in the order.\<close>

definition to_unchain :: "'k path \<Rightarrow> u64 \<Rightarrow> bool \<Rightarrow> 'k \<Rightarrow> 'k rbtree \<Rightarrow> 'k rbtree \<Rightarrow> 'k path \<Rightarrow> u64 \<Rightarrow> 'k \<Rightarrow> 'k rbtree \<Rightarrow> bool" where
  "to_unchain D a c k l r F b kb lb \<longleftrightarrow>
     b = a \<and> F = D \<and> kb = k \<and> lb = l \<or>
     b \<noteq> a \<and> lb = Tip \<and> (\<exists>E. F = E @ Step R a c k l # D \<and> keys_before E = [])"

lemma find_unchained_at:
  assumes at: "at h D (Nd a c k l r)"
  shows "\<exists>F b cb kb lb rb. find_unchained h (slot D) a (stack_of D) = Some (b, stack_of F) \<and>
    at h F (Nd b cb kb lb rb) \<and> plug F (Nd b cb kb lb rb) = plug D (Nd a c k l r) \<and> (lb = Tip \<or> rb = Tip) \<and>
    to_unchain D a c k l r F b kb lb"
proof -
  have atr: "at h (Step R a c k l # D) r" and atl: "at h (Step L a c k r # D) l" using at by (simp_all add: at_step)
  have read: "RIGHT h a = Some (ptr r)" "LEFT h a = Some (ptr l)" "ptr l = 0 \<longleftrightarrow> l = Tip" "ptr r = 0 \<longleftrightarrow> r = Tip"
    using at_node [OF at] at_ptr_0 [OF atr] at_ptr_0 [OF atl] by (simp_all add: heap_ops)
  show ?thesis
  proof (cases "l = Tip \<or> r = Tip")
    case True
    then show ?thesis
      using at read by (intro exI [of _ D] exI [of _ a] exI [of _ c] exI [of _ k] exI [of _ l] exI [of _ r])
        (auto simp: find_unchained_def to_unchain_def)
  next
    case False
    then obtain E b cb kb rb where E: "find_successor h (slot D) (slot (Step R a c k l # D)) (stack_of D) =
          Some (slot (E @ Step R a c k l # D), stack_of (E @ Step R a c k l # D))"
        "at h (E @ Step R a c k l # D) (Nd b cb kb Tip rb)"
        "plug (E @ Step R a c k l # D) (Nd b cb kb Tip rb) = plug (Step R a c k l # D) r"
        "keys_before (E @ Step R a c k l # D) = keys_before (Step R a c k l # D)"
      using find_successor_at [OF atr] by blast
    have "b \<noteq> a"
    proof -
      have "a \<in> set (path_addrs (E @ Step R a c k l # D))"
        by (induction E rule: path_addrs.induct) simp_all
      then show ?thesis using E(2) unfolding at_beside_def by auto
    qed
    then have "to_unchain D a c k l r (E @ Step R a c k l # D) b kb Tip"
      using E(4) by (auto simp: to_unchain_def plug_rekey(2))
    then show ?thesis
      using E at_slot [OF E(2)] False read
      by (intro exI [of _ "E @ Step R a c k l # D"] exI [of _ b] exI [of _ cb] exI [of _ kb] exI [of _ Tip] exI [of _ rb])
        (simp add: find_unchained_def)
  qed
qed

lemma slot_rekey: "slot (E @ Step d a c k s # D) = slot (E @ Step d a c k' s # D)"
  by (cases d; cases E rule: slot.cases) simp_all

lemma parents_rekey: "parents (E @ Step d a c k s # D) = parents (E @ Step d a c k' s # D)"
  by (induction E rule: parents.induct) (simp_all add: slot_rekey [of _ d a c k s D k'])

lemma at_beside_cell:
  assumes "at_beside [b \<mapsto> x] h C t"
  shows "nodes h b = Some x"
  using assms by (auto simp: at_beside_def)

text \<open>The unchained node stays beside the tree, and its key replaces the one that is deleted.\<close>

definition unchained_tree ::
  "'k path \<Rightarrow> 'k rbtree \<Rightarrow> 'k rbtree \<Rightarrow> 'k path \<Rightarrow> 'k path \<Rightarrow> 'k rbtree \<Rightarrow> bool" where
  "unchained_tree D l r F F' t \<longleftrightarrow> length F' = length F \<and> parents F' = parents F \<and> path_addrs F' = path_addrs F \<and>
     (\<forall>red n. fits_path F' red n = fits_path F red n) \<and>
     keys (plug F' t) = keys_before D @ keys l @ keys r @ keys_after D"

lemma unchain_replace:
  assumes at: "at h F (Nd b cb kb lb rb)" and one: "lb = Tip \<or> rb = Tip"
    and un: "to_unchain D a c k l r F b kb lb" and plug: "plug F (Nd b cb kb lb rb) = plug D (Nd a c k l r)"
  defines "t \<equiv> if lb = Tip then rb else lb"
  shows "\<exists>h1 h' F'. unchain h (slot D) b (stack_of F) = Some (h1, ptr t) \<and>
    (if b \<noteq> a then do { k \<leftarrow> key_of h1 b; set_node h1 a (\<lambda>x. x\<lparr>nkey := k\<rparr>) } else Some h1) = Some h' \<and>
    at_beside [b \<mapsto> cell kb cb (ptr lb) (ptr rb)] h' F' t \<and> unchained_tree D l r F F' t"
proof -
  let ?M = "[b \<mapsto> cell kb cb (ptr lb) (ptr rb)]"
  have keys: "keys_before F @ keys lb @ kb # keys rb @ keys_after F = keys_before D @ keys l @ k # keys r @ keys_after D"
    using arg_cong [OF plug, of keys] by (simp add: keys_plug)
  obtain h1 where h1: "unchain h (slot F) b (stack_of F) = Some (h1, ptr t)" "at_beside ?M h1 F t"
    using unchain_at [OF at one] unfolding t_def by blast
  have rootp: "unchain h (slot D) b (stack_of F) = unchain h (slot F) b (stack_of F)"
    using un by (cases F) (auto simp: to_unchain_def unchain_def stack_of_def)
  show ?thesis
  proof (cases "b = a")
    case True
    have "unchained_tree D l r F F t"
      using True un keys one by (auto simp: to_unchain_def unchained_tree_def keys_plug t_def)
    then show ?thesis using h1 rootp True by (intro exI [of _ h1] exI [of _ F]) simp
  next
    case False
    then obtain E where E: "F = E @ Step R a c k l # D" "keys_before E = []" and lb: "lb = Tip"
      using un by (auto simp: to_unchain_def)
    obtain h' where h': "set_node h1 a (\<lambda>x. x\<lparr>nkey := kb\<rparr>) = Some h'" "at_beside ?M h' (E @ Step R a c kb l # D) t"
      using set_key_at [OF h1(2) [unfolded E(1)]] by blast
    have "kb # keys rb @ keys_after E @ keys_after D = keys r @ keys_after D"
      using keys by (simp add: E lb plug_rekey(2,3))
    then have "keys (plug (E @ Step R a c kb l # D) t) = keys_before D @ keys l @ keys r @ keys_after D"
      by (simp add: keys_plug plug_rekey(2,3) E(2) t_def lb)
    then have "unchained_tree D l r F (E @ Step R a c kb l # D) t"
      unfolding unchained_tree_def E(1)
      using plug_rekey(1,4) [of E R a c kb l D] parents_rekey [of E R a c kb l D] by simp
    moreover have "key_of h1 b = Some kb"
      using at_beside_cell [OF h1(2)] by (simp add: heap_ops)
    ultimately show ?thesis
      using h1(1) h' rootp False by (intro exI [of _ h1] exI [of _ h'] exI [of _ "E @ Step R a c kb l # D"]) simp
  qed
qed

lemma free_beside:
  assumes "at_beside [b \<mapsto> x] h [] T"
  shows "\<exists>h'. free_node h b = Some h' \<and> at h' [] T"
proof -
  have "b \<notin> set (addrs T)" using assms by (auto simp: at_beside_def)
  then show ?thesis
    using at_beside_cell [OF assms] assms by (auto simp: free_node_def at_beside_def)
qed

text \<open>What remains after the unchaining: a black node that was unchained leaves a deficient
  subtree.\<close>

lemma unchained_balance:
  assumes rb: "rb_ok (plug F (Nd b cb kb lb rb))" and one: "lb = Tip \<or> rb = Tip"
    and fits: "\<And>red n. fits_path F' red n = fits_path F red n"
  defines "t \<equiv> if lb = Tip then rb else lb"
  shows "cb \<Longrightarrow> rb_ok (plug F' t)" "\<not> cb \<Longrightarrow> deficient F' t"
  using rb one fits_path_black [of F "blackh t"]
  by (auto simp: t_def rb_ok_plug fits deficient_def blacken_rb(1) split: if_splits)

text \<open>Paths are short: one with \<open>n\<close> steps to a black node needs \<open>2 ^ (n div 2 + 1) - 1\<close> nodes or
  more.\<close>

lemma path_height:
  "rb_ok (plug C t) \<Longrightarrow> length C + 2 * blackh t \<le> 2 * blackh (plug C t) + of_bool (\<not> is_red t)"
proof (induction C t rule: plug.induct)
  case (2 a c k s C t)
  then show ?case by (auto simp: rb_ok_plug split: if_splits)
next
  case (3 a c k s C t)
  then have "blackh s = blackh t" by (auto simp: rb_ok_plug)
  with 3 show ?case by (auto simp: rb_ok_plug split: if_splits)
qed simp

lemma blackh_size: "rb_ok T \<Longrightarrow> 2 ^ blackh T \<le> Suc (length (addrs T))"
proof (induction T)
  case (Nd a c k l r)
  then have "2 ^ blackh l \<le> Suc (length (addrs l))" "2 ^ blackh l \<le> Suc (length (addrs r))" by simp_all
  then show ?case by (cases c) simp_all
qed simp

lemma path_size:
  assumes "rb_ok (plug C t)" "\<not> is_red t" "t \<noteq> Tip"
  shows "2 ^ (length C div 2 + 1) \<le> Suc (length (addrs (plug C t)))"
proof -
  have "blackh t \<ge> 1" using assms(2,3) by (cases t) simp_all
  then have "length C div 2 + 1 \<le> blackh (plug C t)"
    using path_height [OF assms(1)] assms(2) by auto
  then have "(2::nat) ^ (length C div 2 + 1) \<le> 2 ^ blackh (plug C t)" by (intro power_increasing) simp_all
  then show ?thesis using blackh_size [OF assms(1)] by linarith
qed

end
