(* ===== verification/Tsearch_Ops.thy ===== *)
theory Tsearch_Ops
  imports Tsearch_Delete "HOL-Library.Multiset"
begin

text \<open>
  The operations of misc/tsearch.c as a whole: what search, insertion and deletion make of a tree,
  the walks over it and its destruction.
\<close>

section \<open>Deletion as a whole\<close>

lemma addrs_plug: "set (addrs (plug C t)) = set (path_addrs C) \<union> set (addrs t)"
  by (induction C t rule: plug.induct) auto

text \<open>The outcome of \<open>tdelete\<close>: \<open>n\<close> is the value returned and \<open>T'\<close> the tree left. One node goes;
  it need not be the one the key was found at.\<close>

definition tdelete_outcome ::
  "('k \<Rightarrow> 'k \<Rightarrow> int) \<Rightarrow> 'k \<Rightarrow> 'k rbtree \<Rightarrow> 'k rbtree \<Rightarrow> u64 \<Rightarrow> bool" where
  "tdelete_outcome compar key T T' n \<longleftrightarrow>
     (if \<exists>k \<in> set (keys T). compar key k = 0
      then n \<in> set (addrs T) \<and>
        (\<exists>xs k ys. keys T = xs @ k # ys \<and> compar key k = 0 \<and> keys T' = xs @ ys) \<and>
        (\<exists>b \<in> set (addrs T). set (addrs T') = set (addrs T) - {b})
      else n = 0 \<and> T' = T)"

text \<open>From the point where the node is found.\<close>

lemma delete_node_at:
  assumes at: "at h D (Nd a c k l r)" and rb: "rb_ok (plug D (Nd a c k l r))"
    and few: "length (addrs (plug D (Nd a c k l r))) < 2 ^ 21 - 1"
  shows "\<exists>h' T' b. delete_node h (slot D) retval (stack_of D) = Some (h', retval) \<and>
    at h' [] T' \<and> rb_ok T' \<and> keys T' = keys_before D @ keys l @ keys r @ keys_after D \<and>
    b \<in> set (addrs (plug D (Nd a c k l r))) \<and> set (addrs T') = set (addrs (plug D (Nd a c k l r))) - {b}"
proof -
  let ?T = "plug D (Nd a c k l r)"
  obtain F b cb kb lb rb where F: "find_unchained h (slot D) a (stack_of D) = Some (b, stack_of F)"
      "at h F (Nd b cb kb lb rb)" "plug F (Nd b cb kb lb rb) = ?T" "lb = Tip \<or> rb = Tip"
      "to_unchain D a c k l r F b kb lb"
    using find_unchained_at [OF at] by blast
  define t where "t = (if lb = Tip then rb else lb)"
  let ?M = "[b \<mapsto> cell kb cb (ptr lb) (ptr rb)]"
  obtain h1 h2 F' where u: "unchain h (slot D) b (stack_of F) = Some (h1, ptr t)"
      "(if b \<noteq> a then do { k \<leftarrow> key_of h1 b; set_node h1 a (\<lambda>x. x\<lparr>nkey := k\<rparr>) } else Some h1) = Some h2"
      "at_beside ?M h2 F' t" "unchained_tree D l r F F' t"
    using unchain_replace [OF F(2,4,5,3)] unfolding t_def by blast
  have red: "RED h2 b = Some cb"
    using at_beside_cell [OF u(3)] at_node [OF F(2)] by (simp add: heap_ops)
  have bal: "cb \<Longrightarrow> rb_ok (plug F' t)" "\<not> cb \<Longrightarrow> deficient F' t"
    using unchained_balance [of F b cb kb lb rb F'] u(4) F(4) rb unfolding t_def F(3) unchained_tree_def by blast+
  have room: "length F < stack_cap (length F)" if "\<not> cb"
  proof (rule stack_cap_small, rule ccontr)
    assume "\<not> length F < 40"
    then have "(2::nat) ^ 21 \<le> 2 ^ (length F div 2 + 1)" by (intro power_increasing) auto
    also have "\<dots> \<le> Suc (length (addrs ?T))" using path_size [of F "Nd b cb kb lb rb"] that rb F(3) by simp
    finally show False using few by simp
  qed
  have "finished ?M F' t (if \<not> cb then do { (h, r) \<leftarrow> rebalance h2 (ptr t) (stack_of F); if r \<noteq> 0 then SETBLACK h r else Some h }
      else Some h2)"
  proof (cases cb)
    case True
    then show ?thesis using u(3) bal(1) at_plug [of ?M h2 F' t] by (auto simp: finished_def)
  next
    case False
    then show ?thesis
      using rebalance_ends [OF u(3) bal(2), of "stack_cap (length F)"] room u(4)
      by (simp add: stack_of_def unchained_tree_def)
  qed
  then obtain h3 T' where h3: "(if \<not> cb then do { (h, r) \<leftarrow> rebalance h2 (ptr t) (stack_of F); if r \<noteq> 0 then SETBLACK h r else Some h }
      else Some h2) = Some h3" "at_beside ?M h3 [] T'" "rb_ok T'" "keys T' = keys (plug F' t)" "entries T' = entries (plug F' t)"
    unfolding finished_def by blast
  obtain h4 where h4: "free_node h3 b = Some h4" "at h4 [] T'" using free_beside [OF h3(2)] by blast
  have "set (addrs ?T) = set (path_addrs F) \<union> insert b (set (addrs t))"
    using F(4) by (auto simp: addrs_plug t_def simp flip: F(3))
  moreover have "set (addrs T') = set (path_addrs F) \<union> set (addrs t)"
    using arg_cong [OF h3(5), of "image fst"] u(4) by (simp add: entries_fst addrs_plug unchained_tree_def)
  moreover have "b \<notin> set (path_addrs F) \<union> set (addrs t)"
    using F(2) by (auto simp: at_beside_def t_def)
  ultimately have "b \<in> set (addrs ?T)" "set (addrs T') = set (addrs ?T) - {b}" by auto
  then show ?thesis
    using F(1) u(1,2,4) red h3(1,3,4) h4 at_slot [OF at]
    by (intro exI [of _ h4] exI [of _ T'] exI [of _ b]) (simp add: unchained_tree_def delete_node_def)
qed

lemma tdelete_result:
  assumes cons: "consistent compar" and ok: "tree_ok compar h T" and few: "length (addrs T) < 2 ^ 21 - 1"
  shows "\<exists>h' T' n. tdelete compar key (Some ROOTPTR) h = Some (h', n) \<and> tree_ok compar h' T' \<and>
    tdelete_outcome compar key T T' n \<and> (n = 0 \<longrightarrow> h' = h)"
proof -
  have at: "at h [] T" and rb: "rb_ok T" and asc: "ascending compar (keys T)"
    using ok by (simp_all add: tree_ok_def)
  have deref: "DEREFNODEPTR h ROOTPTR = Some (ptr T)" using at_slot [OF at] by simp
  show ?thesis
  proof (cases "T = Tip")
    case True
    then show ?thesis using deref ok by (auto simp: tdelete_def tdelete_outcome_def)
  next
    case False
    then have nz: "ptr T \<noteq> 0" using at_ptr_0 [OF at] by simp
    obtain found where find: "tdelete_find compar key h ROOTPTR (ptr T) (ptr T) ([], 40) = Some found"
        "find_end compar key h [] (ptr T) T found"
      using tdelete_find_at [OF cons at False, of key "ptr T"] asc by (auto simp: leads_to_def stack_of_def stack_cap_def)
    show ?thesis
    proof (cases found)
      case None
      then show ?thesis using find deref nz ok by (auto simp: tdelete_def tdelete_outcome_def find_end_def)
    next
      case (Some f)
      then obtain D a c k l r where D: "at h D (Nd a c k l r)" "plug D (Nd a c k l r) = T" "compar key k = 0"
          and f: "f = (slot D, if D = [] then ptr T else step_addr (hd D), stack_of D)"
        using find(2) by (cases f) (auto simp: find_end_def)
      define n where "n = (if D = [] then ptr T else step_addr (hd D))"
      have f': "f = (slot D, n, stack_of D)" using f n_def by simp
      have n: "n \<in> set (addrs T)"
      proof (cases D)
        case (Cons g C)
        then show ?thesis using D(2) addrs_plug [of D "Nd a c k l r"] by (cases g) (auto simp: n_def)
      qed (use False ptr_in_addrs in \<open>auto simp: n_def\<close>)
      obtain h' T' b where res: "delete_node h (slot D) n (stack_of D) = Some (h', n)"
          "at h' [] T'" "rb_ok T'" "keys T' = keys_before D @ keys l @ keys r @ keys_after D"
          "b \<in> set (addrs T)" "set (addrs T') = set (addrs T) - {b}"
        using delete_node_at [OF D(1), unfolded D(2), OF rb few] by blast
      have "tdelete compar key (Some ROOTPTR) h = Some (h', n)"
        using find(1) [unfolded Some f'] nz deref res(1) by (simp add: tdelete_def)
      moreover have ks: "keys T = (keys_before D @ keys l) @ k # keys r @ keys_after D"
        using keys_plug [of D "Nd a c k l r"] D(2) by simp
      moreover have "tree_ok compar h' T'"
        using res(2,3) asc by (auto simp: tree_ok_def ks res(4) sorted_wrt_append)
      moreover have "tdelete_outcome compar key T T' n"
      proof -
        have present: "\<exists>k \<in> set (keys T). compar key k = 0" using ks D(3) by (intro bexI [of _ k]) simp_all
        have "\<exists>xs k ys. keys T = xs @ k # ys \<and> compar key k = 0 \<and> keys T' = xs @ ys"
          using ks D(3) res(4)
          by (intro exI [of _ "keys_before D @ keys l"] exI [of _ k] exI [of _ "keys r @ keys_after D"]) simp
        then show ?thesis unfolding tdelete_outcome_def if_P [OF present] using n res(5,6) by blast
      qed
      moreover have "n \<noteq> 0"
        using addrs_nonzero [OF at_cells(1) [OF at] n] .
      ultimately show ?thesis by blast
    qed
  qed
qed

section \<open>Search as a whole\<close>

lemma tfind_result:
  assumes "consistent compar" "tree_ok compar h T"
  shows "\<exists>n. tfind compar key (Some ROOTPTR) h = Some n \<and>
    (if \<exists>k \<in> set (keys T). compar key k = 0
     then n \<noteq> 0 \<and> (\<exists>k. key_of h n = Some k \<and> compar key k = 0) else n = 0)"
proof -
  have at: "at h [] T" and asc: "ascending compar (keys T)" using assms(2) by (simp_all add: tree_ok_def)
  obtain n where n: "tfind_loop compar key h ROOTPTR = Some n"
      "if n = 0 then \<forall>k \<in> set (keys T). compar key k \<noteq> 0 else \<exists>k. (n, k) \<in> entries T \<and> compar key k = 0"
    using tfind_loop_at [OF assms(1) at, of key] asc unfolding plug.simps slot.simps leads_to_def by auto
  then show ?thesis
    using entries_key_of [OF at_cells(1) [OF at]] entries_key [of n _ T]
    by (cases "n = 0") (auto simp: tfind_def)
qed

section \<open>Walks\<close>

text \<open>The visits of a walk: node, kind and level, in their order.\<close>

fun visits :: "int \<Rightarrow> 'k rbtree \<Rightarrow> (u64 \<times> VISIT \<times> int) list" where
  "visits d Tip = []"
| "visits d (Nd a c k l r) =
     (if l = Tip \<and> r = Tip then [(a, leaf, d)]
      else (a, preorder, d) # visits (d + 1) l @ (a, postorder, d) # visits (d + 1) r @ [(a, endorder, d)])"

lemma trecurse_visits:
  assumes "holds (nodes h) t" "t \<noteq> Tip"
  shows "trecurse action h (ptr t) d s = Some (fold (\<lambda>(a, v, d). action a v d) (visits d t) s)"
  using assms
proof (induction t arbitrary: d s)
  case (Nd a c k l r)
  have read: "LEFT h a = Some (ptr l)" "RIGHT h a = Some (ptr r)" "ptr l = 0 \<longleftrightarrow> l = Tip" "ptr r = 0 \<longleftrightarrow> r = Tip"
    using Nd.prems by (auto simp: heap_ops holds_ptr holds_ptr_0)
  have sub: "(if t \<noteq> Tip then trecurse action h (ptr t) (d + 1) s else Some s) =
      Some (fold (\<lambda>(a, v, d). action a v d) (visits (d + 1) t) s)" if "t = l \<or> t = r" for t s
    using Nd.IH [of "d + 1" s] Nd.prems that by (cases "t = Tip") auto
  show ?case
    by (subst trecurse.simps) (simp add: read sub)
qed simp

lemma trecurse_r_visits:
  assumes "holds (nodes h) t" "t \<noteq> Tip"
  shows "trecurse_r action h (ptr t) closure s = Some (fold (\<lambda>(a, v, d). action a v closure) (visits d t) s)"
  using assms
proof (induction t arbitrary: d s)
  case (Nd a c k l r)
  have read: "LEFT h a = Some (ptr l)" "RIGHT h a = Some (ptr r)" "ptr l = 0 \<longleftrightarrow> l = Tip" "ptr r = 0 \<longleftrightarrow> r = Tip"
    using Nd.prems by (auto simp: heap_ops holds_ptr holds_ptr_0)
  have sub: "(if t \<noteq> Tip then trecurse_r action h (ptr t) closure s else Some s) =
      Some (fold (\<lambda>(a, v, d). action a v closure) (visits (d + 1) t) s)" if "t = l \<or> t = r" for t s
    using Nd.IH [of s "d + 1"] Nd.prems that by (cases "t = Tip") auto
  show ?case
    by (subst trecurse_r.simps) (simp add: read sub)
qed simp

text \<open>The visits that give the order of the keys.\<close>

lemma visits_inorder:
  assumes "holds (nodes h) t"
  shows "map (\<lambda>(a, v, d). key_of h a) (filter (\<lambda>(a, v, d). v \<in> {postorder, leaf}) (visits n t)) = map Some (keys t)"
  using assms
proof (induction t arbitrary: n)
  case (Nd a c k l r)
  then have "key_of h a = Some k" by (auto simp: heap_ops)
  then show ?case using Nd by simp
qed simp

section \<open>Destruction\<close>

fun post_keys :: "'k rbtree \<Rightarrow> 'k list" where
  "post_keys Tip = []"
| "post_keys (Nd a c k l r) = post_keys l @ post_keys r @ [k]"

lemma mset_post_keys: "mset (post_keys t) = mset (keys t)"
  by (induction t) simp_all

lemma free_known: "nodes h n \<noteq> None \<Longrightarrow> free_node h n = Some (h\<lparr>nodes := (nodes h)(n := None)\<rparr>)"
  by (auto simp: free_node_def)

lemma restrict_UNIV: "m |` UNIV = m"
  by (simp add: restrict_map_def)

lemma tdestroy_recurse_frees:
  assumes "holds (nodes h) t" "distinct (addrs t)" "t \<noteq> Tip"
  shows "tdestroy_recurse freefct h (ptr t) s =
    Some (h\<lparr>nodes := nodes h |` (- set (addrs t))\<rparr>, fold freefct (post_keys t) s)"
  using assms
proof (induction t arbitrary: h s)
  case (Nd a c k l r)
  define h1 where "h1 = h\<lparr>nodes := nodes h |` (- set (addrs l))\<rparr>"
  define h2 where "h2 = h\<lparr>nodes := nodes h |` (- (set (addrs l) \<union> set (addrs r)))\<rparr>"
  have cell: "nodes h a = Some (cell k c (ptr l) (ptr r))" "nodes h1 a = nodes h a" "nodes h2 a = nodes h a"
      "even (ptr l)" "even (ptr r)" "ptr l = 0 \<longleftrightarrow> l = Tip" "ptr r = 0 \<longleftrightarrow> r = Tip"
    using Nd.prems by (auto simp: holds_ptr holds_ptr_0 h1_def h2_def)
  have r1: "holds (nodes h1) r"
    using Nd.prems by (subst holds_cong [of r _ "nodes h"]) (auto simp: h1_def restrict_map_def)
  have step1: "(if l \<noteq> Tip then tdestroy_recurse freefct h (ptr l) s else Some (h, s)) = Some (h1, fold freefct (post_keys l) s)"
    using Nd.IH(1) [of h s] Nd.prems by (cases "l = Tip") (simp_all add: h1_def restrict_UNIV)
  have "nodes h1 |` (- set (addrs r)) = nodes h2"
    by (auto simp: h1_def h2_def restrict_map_def)
  then have "h1\<lparr>nodes := nodes h1 |` (- set (addrs r))\<rparr> = h2" by (simp add: h1_def h2_def)
  then have step2: "(if r \<noteq> Tip then tdestroy_recurse freefct h1 (ptr r) s else Some (h1, s)) = Some (h2, fold freefct (post_keys r) s)" for s
    using Nd.IH(2) [of h1 s] Nd.prems r1 by (cases "r = Tip") (simp_all add: h1_def h2_def restrict_UNIV)
  have free: "free_node h2 a = Some (h\<lparr>nodes := nodes h |` (- set (addrs (Nd a c k l r)))\<rparr>)"
    using cell by (subst free_known) (auto simp: h2_def restrict_map_def fun_eq_iff)
  show ?case
    using cell free step1 step2
    by (subst tdestroy_recurse.simps) (simp add: LEFT_cell [OF cell(1)] RIGHT_cell [of h1 a k c "ptr l" "ptr r"] key_of_cell [of h2 a k c "ptr l" "ptr r"])
qed simp

section \<open>Sequences of calls\<close>

text \<open>What the calls do to the sorted sequence of the keys. The comparison orders the keys totally,
  up to keys that compare equal.\<close>

definition ordering :: "('k \<Rightarrow> 'k \<Rightarrow> int) \<Rightarrow> bool" where
  "ordering compar \<longleftrightarrow> consistent compar \<and>
     (\<forall>x y z. compar x y = 0 \<longrightarrow> (compar x z < 0 \<longleftrightarrow> compar y z < 0))"

definition insert_key :: "('k \<Rightarrow> 'k \<Rightarrow> int) \<Rightarrow> 'k \<Rightarrow> 'k list \<Rightarrow> 'k list" where
  "insert_key compar key ks =
     (if \<exists>k \<in> set ks. compar key k = 0 then ks
      else filter (\<lambda>k. compar key k > 0) ks @ key # filter (\<lambda>k. compar key k < 0) ks)"

definition delete_key :: "('k \<Rightarrow> 'k \<Rightarrow> int) \<Rightarrow> 'k \<Rightarrow> 'k list \<Rightarrow> 'k list" where
  "delete_key compar key ks = filter (\<lambda>k. compar key k \<noteq> 0) ks"

text \<open>A program that starts with an empty tree and calls \<open>tsearch\<close> and \<open>tdelete\<close>: the heap it has
  and the keys it expects in the tree. A call of \<open>tsearch\<close> that returns null found no memory.\<close>

inductive tree_run :: "('k theap \<Rightarrow> u64 \<times> 'k node_t) \<Rightarrow> ('k \<Rightarrow> 'k \<Rightarrow> int) \<Rightarrow> 'k theap \<Rightarrow> 'k list \<Rightarrow> bool"
  for malloc compar where
  start: "tree_run malloc compar \<lparr>rootv = 0, nodes = Map.empty\<rparr> []"
| search: "tree_run malloc compar h ks \<Longrightarrow> tsearch malloc compar key (Some ROOTPTR) h = Some (h', n) \<Longrightarrow>
    tree_run malloc compar h' (if n = 0 then ks else insert_key compar key ks)"
| delete: "tree_run malloc compar h ks \<Longrightarrow> length ks < 2 ^ 21 - 1 \<Longrightarrow>
    tdelete compar key (Some ROOTPTR) h = Some (h', n) \<Longrightarrow> tree_run malloc compar h' (delete_key compar key ks)"

lemma ordering_delete:
  assumes ord: "ordering compar" and asc: "ascending compar (xs @ k # ys)" and eq: "compar key k = 0"
  shows "delete_key compar key (xs @ k # ys) = xs @ ys"
proof -
  have law: "\<And>x y z. compar x y = 0 \<Longrightarrow> (compar x z < 0 \<longleftrightarrow> compar y z < 0)" using ord by (simp add: ordering_def)
  have "compar key x \<noteq> 0" if "x \<in> set xs" for x
    using asc that law [of key x k] eq by (auto simp: sorted_wrt_append)
  moreover have "compar key y \<noteq> 0" if "y \<in> set ys" for y
    using asc that law [OF eq, of y] by (auto simp: sorted_wrt_append)
  ultimately show ?thesis using eq by (simp add: delete_key_def)
qed

lemma consistent_insert:
  assumes cons: "consistent compar" and asc: "ascending compar (xs @ key # ys)"
    and new: "\<not> (\<exists>k \<in> set (xs @ ys). compar key k = 0)"
  shows "insert_key compar key (xs @ ys) = xs @ key # ys"
proof -
  have "compar key x > 0" if "x \<in> set xs" for x
    using asc cons that by (auto simp: consistent_def sorted_wrt_append)
  moreover have "compar key y < 0" if "y \<in> set ys" for y
    using asc that by (auto simp: sorted_wrt_append)
  ultimately have "filter (\<lambda>k. compar key k > 0) xs = xs" "filter (\<lambda>k. compar key k < 0) xs = []"
      "filter (\<lambda>k. compar key k > 0) ys = []" "filter (\<lambda>k. compar key k < 0) ys = ys"
    by (force simp: filter_id_conv filter_empty_conv)+
  then show ?thesis unfolding insert_key_def if_not_P [OF new] by simp
qed

lemma tsearch_keys:
  assumes cons: "consistent compar" and mal: "fresh_nodes malloc" and ok: "tree_ok compar h T"
  shows "\<exists>h' T' n. tsearch malloc compar key (Some ROOTPTR) h = Some (h', n) \<and> tree_ok compar h' T' \<and>
    keys T' = (if n = 0 then keys T else insert_key compar key (keys T)) \<and>
    (n = 0 \<longrightarrow> fst (malloc h') = 0 \<and> \<not> (\<exists>k \<in> set (keys T). compar key k = 0))"
proof -
  obtain h' T' n where res: "tsearch malloc compar key (Some ROOTPTR) h = Some (h', n)" "tree_ok compar h' T'"
      and out: "tsearch_outcome compar key T T' n" and null: "n = 0 \<longrightarrow> fst (malloc h') = 0"
    using tsearch_result [OF assms] by blast
  have "keys T' = (if n = 0 then keys T else insert_key compar key (keys T))"
  proof (cases "\<exists>k \<in> set (keys T). compar key k = 0")
    case True
    then show ?thesis using out by (simp add: tsearch_outcome_def insert_key_def)
  next
    case False
    then show ?thesis
      using out consistent_insert [OF cons, of _ key] res(2)
      unfolding tsearch_outcome_def if_not_P [OF False] tree_ok_def by (metis (no_types, lifting))
  qed
  with res null tsearch_outcome_nodes(2) [OF ok res(2) out] show ?thesis by blast
qed

lemma tdelete_keys:
  assumes ord: "ordering compar" and ok: "tree_ok compar h T" and few: "length (keys T) < 2 ^ 21 - 1"
  shows "\<exists>h' T' n. tdelete compar key (Some ROOTPTR) h = Some (h', n) \<and> tree_ok compar h' T' \<and>
    keys T' = delete_key compar key (keys T) \<and> (n \<noteq> 0 \<longleftrightarrow> (\<exists>k \<in> set (keys T). compar key k = 0))"
proof -
  have cons: "consistent compar" using ord by (simp add: ordering_def)
  have "length (addrs T) = length (keys T)" by (induction T) simp_all
  then obtain h' T' n where res: "tdelete compar key (Some ROOTPTR) h = Some (h', n)" "tree_ok compar h' T'"
      and out: "tdelete_outcome compar key T T' n"
    using tdelete_result [OF cons ok] few by metis
  have "keys T' = delete_key compar key (keys T) \<and> (n \<noteq> 0 \<longleftrightarrow> (\<exists>k \<in> set (keys T). compar key k = 0))"
  proof (cases "\<exists>k \<in> set (keys T). compar key k = 0")
    case True
    then obtain xs k ys where ks: "keys T = xs @ k # ys" "compar key k = 0" "keys T' = xs @ ys" and n: "n \<in> set (addrs T)"
      using out by (auto simp: tdelete_outcome_def)
    have "n \<noteq> 0" using n ok addrs_nonzero [of "nodes h" T n] by (simp add: tree_ok_def at_beside_def)
    then show ?thesis
      using ordering_delete [OF ord, of xs k ys key] ks ok True by (simp add: tree_ok_def)
  next
    case False
    then show ?thesis using out by (auto simp: tdelete_outcome_def delete_key_def filter_id_conv)
  qed
  with res show ?thesis by blast
qed

lemma tree_run_ok:
  assumes "tree_run malloc compar h ks" "ordering compar" "fresh_nodes malloc"
  shows "\<exists>T. tree_ok compar h T \<and> keys T = ks"
  using assms
proof (induction rule: tree_run.induct)
  case start
  show ?case by (rule exI [of _ Tip]) (simp add: tree_ok_def at_beside_def)
next
  case (search h ks key h' n)
  then obtain T where "tree_ok compar h T" "keys T = ks" by blast
  then show ?case
    using tsearch_keys [of compar malloc h T key] search by (auto simp: ordering_def)
next
  case (delete h ks key h' n)
  then obtain T where "tree_ok compar h T" "keys T = ks" by blast
  then show ?case
    using tdelete_keys [of compar h T key] delete by auto
qed

section \<open>The properties\<close>

text \<open>A small tree with its heap, for the witnesses.\<close>

definition small_tree :: "int rbtree" where
  "small_tree = Nd 16 False 5 (Nd 32 True 3 Tip Tip) (Nd 48 True 8 Tip Tip)"

definition small_heap :: "int theap" where
  "small_heap = \<lparr>rootv = 16, nodes = [16 \<mapsto> cell 5 False 32 48, 32 \<mapsto> cell 3 True 0 0, 48 \<mapsto> cell 8 True 0 0]\<rparr>"

definition one_node :: "int theap \<Rightarrow> u64 \<times> int node_t" where
  "one_node h = (if nodes h 64 = None then 64 else 0, cell 0 False 0 0)"

lemma small_ok: "tree_ok (-) small_heap small_tree"
  by (auto simp: tree_ok_def at_beside_def small_tree_def small_heap_def)

lemma minus_ordering: "ordering ((-) :: int \<Rightarrow> int \<Rightarrow> int)" "consistent ((-) :: int \<Rightarrow> int \<Rightarrow> int)"
  by (auto simp: ordering_def consistent_def)

lemma one_node_fresh: "fresh_nodes one_node"
  by (auto simp: fresh_nodes_def one_node_def)

text \<open>C5. Insertion: on a heap that holds a red-black tree of nodes with ascending keys (and nothing
  else), \<open>tsearch\<close> makes no invalid access, terminates, and leaves such a tree. When a key that
  compares equal is in the tree, its node is returned and no node gains, loses or changes a key;
  otherwise the node returned is a new one that holds the key, at its place in the order, and it is
  the only node added. Null is returned only when no key compares equal and \<open>malloc\<close> has no memory
  in the heap that is left.\<close>

theorem tsearch_inserts:
  assumes "consistent compar" "fresh_nodes malloc" "tree_ok compar h T"
  shows "\<exists>h' T' n. tsearch malloc compar key (Some ROOTPTR) h = Some (h', n) \<and> tree_ok compar h' T' \<and>
    tsearch_outcome compar key T T' n \<and>
    dom (nodes h') = (if n = 0 then dom (nodes h) else insert n (dom (nodes h))) \<and>
    (n = 0 \<longrightarrow> fst (malloc h') = 0 \<and> \<not> (\<exists>k \<in> set (keys T). compar key k = 0))"
proof -
  obtain h' T' n where res: "tsearch malloc compar key (Some ROOTPTR) h = Some (h', n)" "tree_ok compar h' T'"
      "tsearch_outcome compar key T T' n" "n = 0 \<longrightarrow> fst (malloc h') = 0"
    using tsearch_result [OF assms] by blast
  then show ?thesis using tsearch_outcome_nodes [OF assms(3) res(2,3)] by blast
qed

theorem tsearch_inserts_witness:
  "tree_ok (-) small_heap small_tree \<and>
   (\<exists>h' T' n. tsearch one_node (-) 6 (Some ROOTPTR) small_heap = Some (h', n) \<and> tree_ok (-) h' T' \<and>
      tsearch_outcome (-) 6 small_tree T' n \<and> n \<noteq> 0 \<and> dom (nodes h') = insert n {16, 32, 48})"
proof -
  have dom: "dom (nodes small_heap) = {16, 32, 48}" by (simp add: small_heap_def insert_commute)
  obtain h' T' n where res: "tsearch one_node (-) 6 (Some ROOTPTR) small_heap = Some (h', n)" "tree_ok (-) h' T'"
      "tsearch_outcome (-) 6 small_tree T' n" "dom (nodes h') = (if n = 0 then {16, 32, 48} else insert n {16, 32, 48})"
      "n = 0 \<longrightarrow> fst (one_node h') = 0"
    using tsearch_inserts [OF minus_ordering(2) one_node_fresh small_ok, of 6] unfolding dom by blast
  have "n \<noteq> 0"
  proof
    assume "n = 0"
    then have "64 \<in> dom (nodes h')"
      using res(5) by (auto simp: one_node_def split: if_splits)
    moreover have "dom (nodes h') = {16, 32, 48}" using res(4) \<open>n = 0\<close> by (simp only: if_P)
    ultimately show False by (simp del: not_None_eq)
  qed
  then show ?thesis using res small_ok by auto
qed

text \<open>C6. Deletion: with fewer than \<open>2 ^ 21 - 1\<close> nodes \<open>tdelete\<close> makes no invalid access, the store
  behind the stack of parents included, terminates, and leaves a red-black tree with ascending
  keys. When a key compares equal, exactly that key is gone from the sequence and exactly one node
  is freed; otherwise null is returned and the heap is unchanged.\<close>

theorem tdelete_removes:
  assumes "consistent compar" "tree_ok compar h T" "length (addrs T) < 2 ^ 21 - 1"
  shows "\<exists>h' T' n. tdelete compar key (Some ROOTPTR) h = Some (h', n) \<and> tree_ok compar h' T' \<and>
    tdelete_outcome compar key T T' n \<and> (n = 0 \<longrightarrow> h' = h)"
  by (rule tdelete_result [OF assms])

theorem tdelete_removes_witness:
  "tree_ok (-) small_heap small_tree \<and>
   (\<exists>h' T' n. tdelete (-) 5 (Some ROOTPTR) small_heap = Some (h', n) \<and> tree_ok (-) h' T' \<and>
      tdelete_outcome (-) 5 small_tree T' n \<and> (n = 0 \<longrightarrow> h' = small_heap))"
  using tdelete_removes [OF minus_ordering(2) small_ok, of 5] small_ok by (simp add: small_tree_def)

text \<open>C7. Sequences of calls: whatever calls of \<open>tsearch\<close>, and of \<open>tdelete\<close> on fewer than
  \<open>2 ^ 21 - 1\<close> keys, a program makes on a tree that starts empty, the heap holds a red-black tree with
  exactly the keys the abstract insertions and deletions give, in order, where a \<open>tsearch\<close> that returns
  null inserts nothing. The next \<open>tsearch\<close> never fails, and returns null only when no key compares
  equal and \<open>malloc\<close> has no memory; with fewer than \<open>2 ^ 21 - 1\<close> keys the next \<open>tdelete\<close> never fails;
  \<open>tdelete\<close> and \<open>tfind\<close> return null exactly when no key compares equal.\<close>

theorem tree_run_refines:
  assumes run: "tree_run malloc compar h ks" and ord: "ordering compar" and mal: "fresh_nodes malloc"
  shows "(\<exists>T. tree_ok compar h T \<and> keys T = ks) \<and>
    (\<exists>h' n. tsearch malloc compar key (Some ROOTPTR) h = Some (h', n) \<and>
       (n = 0 \<longrightarrow> fst (malloc h') = 0 \<and> \<not> (\<exists>k \<in> set ks. compar key k = 0))) \<and>
    (length ks < 2 ^ 21 - 1 \<longrightarrow> (\<exists>h' n. tdelete compar key (Some ROOTPTR) h = Some (h', n) \<and>
       (n \<noteq> 0 \<longleftrightarrow> (\<exists>k \<in> set ks. compar key k = 0)))) \<and>
    (\<exists>n. tfind compar key (Some ROOTPTR) h = Some n \<and> (n \<noteq> 0 \<longleftrightarrow> (\<exists>k \<in> set ks. compar key k = 0)))"
proof -
  obtain T where T: "tree_ok compar h T" "keys T = ks" using tree_run_ok [OF assms] by blast
  have cons: "consistent compar" using ord by (simp add: ordering_def)
  have "\<exists>n. tfind compar key (Some ROOTPTR) h = Some n \<and> (n \<noteq> 0 \<longleftrightarrow> (\<exists>k \<in> set ks. compar key k = 0))"
    using tfind_result [OF cons T(1), of key] T(2) by (auto split: if_splits)
  then show ?thesis
    using tsearch_keys [OF cons mal T(1), of key] tdelete_keys [OF ord T(1), of key] T by blast
qed

lemma first_insert:
  "tsearch one_node (-) 5 (Some ROOTPTR) \<lparr>rootv = 0, nodes = Map.empty\<rparr> =
   Some (\<lparr>rootv = 64, nodes = [64 \<mapsto> cell 5 True 0 0]\<rparr>, 64)"
  by (simp add: tsearch_def add_node_def one_node_def heap_ops)

theorem tree_run_refines_witness:
  "tree_run one_node (-) \<lparr>rootv = 64, nodes = [64 \<mapsto> cell 5 True 0 0]\<rparr> [5] \<and>
   (\<exists>h' n. tdelete (-) 5 (Some ROOTPTR) \<lparr>rootv = 64, nodes = [64 \<mapsto> cell 5 True 0 0]\<rparr> = Some (h', n) \<and> n \<noteq> 0)"
proof -
  have run: "tree_run one_node (-) \<lparr>rootv = 64, nodes = [64 \<mapsto> cell 5 True 0 0]\<rparr> [5]"
    using tree_run.search [OF tree_run.start first_insert] by (simp add: insert_key_def)
  then show ?thesis
    using tree_run_refines [OF run minus_ordering(1) one_node_fresh, of 5] by auto
qed

text \<open>C34. Walks: \<open>twalk\<close> and \<open>twalk_r\<close> call the action once for a leaf and three times for an inner
  node, before, between and after the walks of its two subtrees, with the depth as level; the
  nodes of the \<open>postorder\<close> and \<open>leaf\<close> calls are those of the tree in the order of their keys.\<close>

theorem twalk_visits:
  assumes "tree_ok compar h T"
  shows "twalk (Some action) h (rootv h) s = Some (fold (\<lambda>(a, v, d). action a v d) (visits 0 T) s) \<and>
    twalk_r (Some action_r) h (rootv h) closure s = Some (fold (\<lambda>(a, v, d). action_r a v closure) (visits 0 T) s) \<and>
    map (\<lambda>(a, v, d). key_of h a) (filter (\<lambda>(a, v, d). v \<in> {postorder, leaf}) (visits 0 T)) = map Some (keys T)"
proof -
  have h: "holds (nodes h) T" "rootv h = ptr T" using assms by (simp_all add: tree_ok_def at_beside_def)
  then show ?thesis
    using trecurse_visits [OF h(1), of action 0 s] trecurse_r_visits [OF h(1), of action_r closure s 0]
      visits_inorder [OF h(1), of 0] holds_ptr_0 [OF h(1)]
    by (cases "T = Tip") (simp_all add: twalk_def twalk_r_def)
qed

theorem twalk_visits_witness:
  "tree_ok (-) small_heap small_tree \<and>
   twalk (Some (\<lambda>a v d xs. xs @ [(a, v, d)])) small_heap (rootv small_heap) [] =
     Some [(16, preorder, 0), (32, leaf, 1), (16, postorder, 0), (48, leaf, 1), (16, endorder, 0)]"
  using twalk_visits [OF small_ok, of "\<lambda>a v d xs. xs @ [(a, v, d)]" "[]" "\<lambda>a v c xs. xs" "()"] small_ok by (simp add: small_tree_def)

text \<open>C35. Destruction: \<open>tdestroy\<close> frees every node of the tree exactly once, reads none after it was
  freed, and passes every key to the caller's function once.\<close>

theorem tdestroy_frees_all:
  assumes "tree_ok compar h T"
  shows "\<exists>ks. tdestroy freefct h (rootv h) s = Some (\<lparr>rootv = rootv h, nodes = Map.empty\<rparr>, fold freefct ks s) \<and>
    mset ks = mset (keys T)"
proof -
  have h: "holds (nodes h) T" "distinct (addrs T)" "rootv h = ptr T" and out: "\<And>a. a \<notin> set (addrs T) \<Longrightarrow> nodes h a = None"
    using assms by (simp_all add: tree_ok_def at_beside_def)
  have "nodes h |` (- set (addrs T)) = Map.empty" using out by (auto simp: restrict_map_def)
  moreover have "h\<lparr>nodes := Map.empty\<rparr> = \<lparr>rootv = rootv h, nodes = Map.empty\<rparr>" by (cases h) simp
  ultimately have "tdestroy freefct h (rootv h) s = Some (\<lparr>rootv = rootv h, nodes = Map.empty\<rparr>, fold freefct (post_keys T) s)"
    using tdestroy_recurse_frees [OF h(1,2), of freefct s] h(3) holds_ptr_0 [OF h(1)] out
    by (cases "T = Tip"; cases h) (auto simp: tdestroy_def)
  then show ?thesis using mset_post_keys by blast
qed

theorem tdestroy_frees_all_witness:
  "tree_ok (-) small_heap small_tree \<and>
   (\<exists>ks. tdestroy (#) small_heap (rootv small_heap) [] = Some (\<lparr>rootv = 16, nodes = Map.empty\<rparr>, fold (#) ks []) \<and>
      mset ks = {#3, 5, 8#})"
proof -
  have root: "rootv small_heap = 16" and ks: "mset (keys small_tree) = {#3, 5, 8#}" by (simp_all add: small_heap_def small_tree_def)
  show ?thesis using tdestroy_frees_all [OF small_ok, of "(#)" "[]"] small_ok unfolding root ks by blast
qed

end
