(* ===== verification/Tsearch_Overflow.thy ===== *)
theory Tsearch_Overflow
  imports Tsearch_Ops
begin

text \<open>
  The stack of parents in \<open>tdelete\<close> of misc/tsearch.c. The two descents enlarge it when it is full;
  the rebalancing loop pushes one entry more, at a red brother, without that test. A tree on which
  this store goes behind the end of the stack.
\<close>

section \<open>Heaps for given trees\<close>

text \<open>The nodes of a tree numbered in order: the number gives the key and the address.\<close>

fun number :: "nat \<Rightarrow> 'a rbtree \<Rightarrow> int rbtree" where
  "number n Tip = Tip"
| "number n (Nd a c k l r) =
     (let m = n + length (addrs l)
      in Nd (word_of_nat (2 * m + 2)) c (int m) (number n l) (number (Suc m) r))"

primrec cells :: "'k rbtree \<Rightarrow> (u64 \<rightharpoonup> 'k node_t)" where
  "cells Tip = Map.empty"
| "cells (Nd a c k l r) = (cells l ++ cells r)(a \<mapsto> cell k c (ptr l) (ptr r))"

lemma dom_cells: "dom (cells t) = set (addrs t)"
proof (induction t)
  case (Nd a c k l r)
  then show ?case by (simp only: cells.simps dom_fun_upd dom_map_add addrs.simps) auto
qed simp

lemma cells_hold:
  assumes "distinct (addrs t)" "\<forall>a \<in> set (addrs t). a \<noteq> 0 \<and> even a"
  shows "holds (cells t) t"
  using assms
proof (induction t)
  case (Nd a c k l r)
  have "holds (cells l ++ cells r) l = holds (cells l) l" "holds (cells l ++ cells r) r = holds (cells r) r"
    using Nd.prems dom_cells [of l] dom_cells [of r]
    by (auto intro!: holds_cong simp: map_add_def split: option.splits)
  moreover have "holds m l \<longleftrightarrow> holds (m(a := v)) l" "holds m r \<longleftrightarrow> holds (m(a := v)) r" for m :: "u64 \<rightharpoonup> 'a node_t" and v
    using Nd.prems by simp_all
  ultimately show ?case
    using Nd unfolding holds.simps cells.simps by (simp only: fun_upd_same) auto
qed simp

lemma cells_at:
  assumes "distinct (addrs t)" "\<forall>a \<in> set (addrs t). a \<noteq> 0 \<and> even a"
  shows "at \<lparr>rootv = ptr t, nodes = cells t\<rparr> [] t"
  using assms cells_hold [OF assms] dom_cells [of t] by (auto simp: at_beside_def)

lemma length_number [simp]: "length (addrs (number n t)) = length (addrs t)"
  by (induction n t rule: number.induct) (simp_all add: Let_def)

lemma number_rb: "is_red (number n t) = is_red t" "blackh (number n t) = blackh t" "rb_ok t \<Longrightarrow> rb_ok (number n t)"
proof -
  show red: "is_red (number n t) = is_red t" for n t by (cases t) (simp_all add: Let_def)
  show bh: "blackh (number n t) = blackh t" for n t by (induction n t rule: number.induct) (simp_all add: Let_def)
  show "rb_ok t \<Longrightarrow> rb_ok (number n t)"
    by (induction n t rule: number.induct) (simp_all add: Let_def red bh)
qed

lemma number_keys: "keys (number n t) = map int [n ..< n + length (addrs t)]"
proof (induction n t rule: number.induct)
  case (2 n a c k l r)
  let ?m = "n + length (addrs l)" and ?e = "Suc (n + length (addrs l) + length (addrs r))"
  have "[n ..< ?e] = [n ..< ?m] @ [?m ..< ?e]"
    using upt_add_eq_append [of n ?m "Suc (length (addrs r))"] by (simp add: add.assoc)
  moreover have "[?m ..< ?e] = ?m # [Suc ?m ..< ?e]" by (rule upt_conv_Cons) simp
  ultimately show ?case using 2 by (simp add: Let_def add.assoc)
qed simp

lemma number_addrs:
  "set (addrs (number n t)) = (\<lambda>m. word_of_nat (2 * m + 2)) ` {n ..< n + length (addrs t)}"
proof (induction n t rule: number.induct)
  case (2 n a c k l r)
  let ?m = "n + length (addrs l)"
  have "{n ..< n + length (addrs (Nd a c k l r))} = insert ?m ({n ..< ?m} \<union> {Suc ?m ..< Suc ?m + length (addrs r)})"
    by auto
  then show ?case using 2 by (simp add: Let_def image_Un del: of_nat_add of_nat_mult)
qed simp

lemma number_distinct:
  assumes "length (addrs t) < 2 ^ 62"
  shows "distinct (addrs (number 0 t))" "\<forall>a \<in> set (addrs (number 0 t)). a \<noteq> 0 \<and> even a"
proof -
  let ?f = "\<lambda>m. word_of_nat (2 * m + 2) :: u64" and ?n = "length (addrs t)"
  have un: "unat (?f m) = 2 * m + 2" if "m < ?n" for m
    using that assms by (simp only: unat_of_nat) simp
  have "inj_on ?f {0 ..< ?n}" by (rule inj_onI) (metis Suc_inject add_2_eq_Suc' atLeastLessThan_iff mult_left_cancel un zero_neq_numeral)
  then have "card (set (addrs (number 0 t))) = ?n"
    using number_addrs [of 0 t] by (simp add: card_image)
  then show "distinct (addrs (number 0 t))" by (intro card_distinct) simp
  show "\<forall>a \<in> set (addrs (number 0 t)). a \<noteq> 0 \<and> even a"
  proof
    fix a
    assume "a \<in> set (addrs (number 0 t))"
    then obtain m where m: "m < ?n" "a = ?f m" using number_addrs [of 0 t] by auto
    have "a = 2 * (word_of_nat m + 1)" unfolding m(2) by simp
    then have "even a" by simp
    moreover have "a \<noteq> 0" using un [OF m(1)] m(2) by (metis add_2_eq_Suc' nat.distinct(1) unat_0)
    ultimately show "a \<noteq> 0 \<and> even a" by simp
  qed
qed

lemma numbered_heap:
  assumes "rb_ok t" "length (addrs t) < 2 ^ 62"
  shows "tree_ok (-) \<lparr>rootv = ptr (number 0 t), nodes = cells (number 0 t)\<rparr> (number 0 t)"
  using cells_at [OF number_distinct [OF assms(2)]] number_rb(3) [OF assms(1)]
  by (simp add: tree_ok_def number_keys sorted_wrt_map sorted_wrt_upt [THEN sorted_wrt_mono_rel [rotated]])

section \<open>The leftmost node\<close>

fun left_path :: "'k path \<Rightarrow> 'k rbtree \<Rightarrow> 'k path \<times> 'k rbtree" where
  "left_path C Tip = (C, Tip)"
| "left_path C (Nd a c k l r) = (if l = Tip then (C, Nd a c k l r) else left_path (Step L a c k r # C) l)"

lemma left_path_plug:
  "keys_before D = [] \<Longrightarrow> left_path C (plug D (Nd a c k Tip r)) = (D @ C, Nd a c k Tip r)"
proof (induction D arbitrary: C rule: rev_induct)
  case (snoc f D)
  obtain d b cb kb s where f: "f = Step d b cb kb s" by (cases f)
  have "d = L" using snoc.prems by (cases d) (simp_all add: f plug_rekey(2))
  moreover have "plug D (Nd a c k Tip r) \<noteq> Tip"
    by (metis addrs.simps(1) addrs_plug empty_iff empty_set list.set_intros(1) addrs.simps(2) UnI2)
  ultimately show ?case using snoc by (simp add: f plug_append plug_rekey(2))
qed simp

text \<open>The descent for the least key ends at the leftmost node.\<close>

lemma find_leftmost:
  assumes ok: "tree_ok (-) h T" and T: "T \<noteq> Tip" and least: "\<exists>ks. keys T = k # ks"
    and left: "left_path [] T = (D, t)"
  shows "\<exists>a c r. t = Nd a c k Tip r \<and> at h D t \<and> plug D t = T \<and>
    tdelete_find (-) k h ROOTPTR (ptr T) (ptr T) ([], 40) =
      Some (Some (slot D, if D = [] then ptr T else step_addr (hd D), stack_of D))"
proof -
  have at: "at h [] T" and asc: "ascending (-) (keys T)" using ok by (simp_all add: tree_ok_def)
  obtain found where find: "tdelete_find (-) k h ROOTPTR (ptr T) (ptr T) ([], 40) = Some found"
      "find_end (-) k h [] (ptr T) T found"
    using tdelete_find_at [OF minus_ordering(2) at T, of k "ptr T"] asc by (auto simp: leads_to_def stack_of_def stack_cap_def)
  have "found \<noteq> None" using find(2) least by (cases found) (auto simp: find_end_def)
  then obtain E a c l r where E: "at h E (Nd a c k l r)" "plug E (Nd a c k l r) = T"
      "found = Some (slot E, if E = [] then ptr T else step_addr (hd E), stack_of E)"
    using find(2) by (auto simp: find_end_def)
  have ks: "keys T = (keys_before E @ keys l) @ k # keys r @ keys_after E"
    using keys_plug [of E "Nd a c k l r"] E(2) by simp
  have "k \<notin> set (keys_before E @ keys l)" using asc by (auto simp: ks sorted_wrt_append)
  then have empty: "keys_before E @ keys l = []" using least ks by (cases "keys_before E @ keys l") auto
  then have l: "l = Tip" by (cases l) auto
  then have "left_path [] T = (E, Nd a c k l r)" using left_path_plug [of E "[]" a c k r] empty E(2) by simp
  then show ?thesis using left E find(1) l by simp
qed

section \<open>A full stack\<close>

lemma rebalance_overflow:
  assumes at: "at_beside M h (Step L p c k (Nd q True kq ql qr) # C) Tip" and full: "Suc (length C) = sz"
  defines "st \<equiv> (parents (Step L p c k (Nd q True kq ql qr) # C), sz)"
  shows "\<exists>h'. DEREFNODEPTR h (slot C) = Some p \<and> LEFT h p = Some 0 \<and> RIGHT h p = Some q \<and> RED h q = Some True \<and>
    rotate_left_red h (slot C) p q = Some h' \<and> push_unchecked (LEFTPTR q) st = None \<and> rebalance h 0 st = None"
proof -
  have atC: "at_beside M h C (Nd p c k Tip (Nd q True kq ql qr))"
    and atq: "at_beside M h (Step R p c k Tip # C) (Nd q True kq ql qr)" using at by (simp_all add: at_step)
  have read: "DEREFNODEPTR h (slot C) = Some p" "LEFT h p = Some 0" "RIGHT h p = Some q" "RED h q = Some True"
    using at_slot [OF atC] at_node [OF atC] RED_at [OF atq] by (simp_all add: heap_ops)
  obtain h' where rot: "rotate_left_red h (slot C) p q = Some h'" using rotate_left_red_at [OF atC] by blast
  have push: "push_unchecked (LEFTPTR q) st = None" using full by (simp add: push_unchecked_def st_def)
  then have "balance_left h (slot C) p st = None"
    using read rot by (simp add: balance_left_def)
  then have "rebalance h 0 st = None"
    using read by (subst rebalance.simps) (simp add: black_or_null_def st_def)
  then show ?thesis using read rot push by blast
qed

text \<open>The run of \<open>tdelete\<close> from the place \<open>rootp\<close> of the node found, with the stack \<open>st\<close>, up to the
  store behind the end: the node is unchained, it was black, the brother \<open>q\<close> of the place it left
  is red and is rotated above their parent, and the place below \<open>q\<close> is pushed.\<close>

definition stores_behind_stack :: "'k theap \<Rightarrow> nodeptr \<Rightarrow> nodestack \<Rightarrow> bool" where
  "stores_behind_stack h rootp st \<longleftrightarrow>
     (\<exists>b h1 p q h2. DEREFNODEPTR h rootp = Some b \<and> find_unchained h rootp b st = Some (b, st) \<and>
        unchain h rootp b st = Some (h1, 0) \<and> RED h1 b = Some False \<and>
        DEREFNODEPTR h1 (hd (fst st)) = Some p \<and> LEFT h1 p = Some 0 \<and> RIGHT h1 p = Some q \<and> RED h1 q = Some True \<and>
        rotate_left_red h1 (hd (fst st)) p q = Some h2 \<and> push_unchecked (LEFTPTR q) st = None)"

lemma delete_leaf_overflow:
  assumes at: "at h (Step L p c k (Nd q True kq ql qr) # C) (Nd b False kb Tip Tip)" and full: "length C = 39"
  defines "D \<equiv> Step L p c k (Nd q True kq ql qr) # C"
  shows "delete_node h (slot D) n (stack_of D) = None \<and> stores_behind_stack h (slot D) (stack_of D)"
proof -
  have at': "at h D (Nd b False kb Tip Tip)" using at by (simp add: D_def)
  have root: "DEREFNODEPTR h (slot D) = Some b" "find_unchained h (slot D) b (stack_of D) = Some (b, stack_of D)"
    using at_slot [OF at'] at_node [OF at'] by (simp_all add: find_unchained_def heap_ops)
  obtain h1 where h1: "unchain h (slot D) b (stack_of D) = Some (h1, 0)" "at_beside [b \<mapsto> cell kb False 0 0] h1 D Tip"
    using unchain_at [OF at'] by auto
  have red: "RED h1 b = Some False" using at_beside_cell [OF h1(2)] by (simp add: heap_ops)
  have st: "stack_of D = (parents D, 40)" "hd (parents D) = slot C"
    using full by (simp_all add: stack_of_def stack_cap_def D_def)
  obtain h2 where h2: "DEREFNODEPTR h1 (slot C) = Some p" "LEFT h1 p = Some 0" "RIGHT h1 p = Some q" "RED h1 q = Some True"
      "rotate_left_red h1 (slot C) p q = Some h2" "push_unchecked (LEFTPTR q) (stack_of D) = None" "rebalance h1 0 (stack_of D) = None"
    using rebalance_overflow [OF h1(2) [unfolded D_def], of 40] full st(1) by (auto simp: D_def)
  then have "stores_behind_stack h (slot D) (stack_of D)"
    using root h1(1) red st unfolding stores_behind_stack_def by auto
  then show ?thesis using root h1(1) red h2(7) by (simp add: delete_node_def)
qed

section \<open>The tree\<close>

text \<open>Perfect trees of black nodes, and a tree whose leftmost path alternates black and red nodes
  down to a black leaf with a red brother.\<close>

fun perfect :: "nat \<Rightarrow> unit rbtree" where
  "perfect 0 = Tip"
| "perfect (Suc n) = Nd 0 False () (perfect n) (perfect n)"

fun spine :: "nat \<Rightarrow> unit rbtree" where
  "spine 0 = Nd 0 False () (perfect 1) (Nd 0 True () (perfect 1) (perfect 1))"
| "spine (Suc n) = Nd 0 False () (Nd 0 True () (spine n) (perfect (n + 2))) (perfect (n + 2))"

definition deep_tree :: "unit rbtree" where
  "deep_tree = Nd 0 True () (spine 19) (perfect 21)"

lemma perfect_rb: "rb_ok (perfect n)" "blackh (perfect n) = n" "\<not> is_red (perfect n)" "Suc (length (addrs (perfect n))) = 2 ^ n"
  by (induction n) simp_all

lemma spine_rb: "rb_ok (spine n)" "blackh (spine n) = n + 2" "\<not> is_red (spine n)" "length (addrs (spine n)) + 3 = 8 * 2 ^ n"
proof (induction n)
  case (Suc n)
  have "length (addrs (perfect (n + 2))) + 1 = 4 * 2 ^ n" using perfect_rb(4) [of "n + 2"] by simp
  with Suc show "length (addrs (spine (Suc n))) + 3 = 8 * 2 ^ Suc n" by simp
qed (simp_all add: perfect_rb One_nat_def [symmetric] del: One_nat_def, simp)

lemma spine_left:
  "\<exists>p k q kq ql qr E b kb. left_path C (number m (spine n)) =
      (Step L p False k (Nd q True kq ql qr) # E @ C, Nd b False kb Tip Tip) \<and> length E = 2 * n"
proof (induction n arbitrary: C m)
  case 0
  show ?case by (simp add: Let_def)
next
  case (Suc n)
  have ne: "number i (spine n) \<noteq> Tip" for i using number_rb(2) [of i "spine n"] spine_rb(2) [of n] by auto
  obtain a1 k1 s1 a2 k2 s2 where num: "number m (spine (Suc n)) = Nd a1 False k1 (Nd a2 True k2 (number m (spine n)) s2) s1"
    by (simp add: Let_def)
  let ?C = "[Step L a2 True k2 s2, Step L a1 False k1 s1]"
  obtain p k q kq ql qr E b kb where "left_path (?C @ C) (number m (spine n)) =
      (Step L p False k (Nd q True kq ql qr) # E @ ?C @ C, Nd b False kb Tip Tip)" "length E = 2 * n"
    using Suc.IH [of "?C @ C" m] by blast
  then show ?case
    using ne [of m] unfolding num
    by (intro exI [of _ p] exI [of _ k] exI [of _ q] exI [of _ kq] exI [of _ ql] exI [of _ qr] exI [of _ "E @ ?C"]
        exI [of _ b] exI [of _ kb]) simp
qed

lemma deep_tree_rb: "rb_ok deep_tree" "length (addrs deep_tree) + 3 = 3 * 2 ^ 21"
  using perfect_rb [of 21] spine_rb [of 19] by (simp_all add: deep_tree_def del: perfect.simps spine.simps)

lemma deep_tree_overflow:
  defines "T \<equiv> number 0 deep_tree"
  defines "h \<equiv> \<lparr>rootv = ptr T, nodes = cells T\<rparr>"
  shows "\<exists>rootp n st. tree_ok (-) h T \<and> length (addrs T) = 6291453 \<and>
    tdelete_find (-) 0 h ROOTPTR (rootv h) (rootv h) ([], 40) = Some (Some (rootp, n, st)) \<and>
    length (fst st) = 40 \<and> snd st = 40 \<and> stores_behind_stack h rootp st \<and> tdelete (-) 0 (Some ROOTPTR) h = None"
proof -
  have size: "length (addrs deep_tree) = 6291453" using deep_tree_rb(2) by simp
  have ok: "tree_ok (-) h T" unfolding h_def T_def using numbered_heap [OF deep_tree_rb(1)] size by simp
  have T: "T \<noteq> Tip" using number_rb(2) [of 0 deep_tree] by (auto simp: T_def deep_tree_def spine_rb(2) simp del: spine.simps perfect.simps)
  have upt: "\<exists>ks. map int [0 ..< 0 + Suc n] = 0 # ks" for n
    using upt_conv_Cons [of 0 "Suc n"] by simp
  have "length (addrs deep_tree) = Suc 6291452" using size by simp
  then have least: "\<exists>ks. keys T = 0 # ks" using upt [of 6291452] by (simp only: T_def number_keys)
  obtain a0 k0 s0 where num: "T = Nd a0 True k0 (number 0 (spine 19)) s0"
    by (simp add: T_def deep_tree_def Let_def del: spine.simps perfect.simps)
  obtain p k q kq ql qr E b kb where path: "left_path [Step L a0 True k0 s0] (number 0 (spine 19)) =
      (Step L p False k (Nd q True kq ql qr) # E @ [Step L a0 True k0 s0], Nd b False kb Tip Tip)" "length E = 2 * 19"
    using spine_left [of "[Step L a0 True k0 s0]" 0 19] by blast
  define D where "D = Step L p False k (Nd q True kq ql qr) # E @ [Step L a0 True k0 s0]"
  have "number 0 (spine 19) \<noteq> Tip" using path(1) by (cases "number 0 (spine 19)") auto
  then have left: "left_path [] T = (D, Nd b False kb Tip Tip)" using path(1) by (simp add: num D_def)
  note found = find_leftmost [OF ok T least left]
  have "at h D (Nd b False kb Tip Tip)" using found by blast
  then have del: "delete_node h (slot D) n (stack_of D) = None \<and> stores_behind_stack h (slot D) (stack_of D)" for n
    unfolding D_def using path(2) by (intro delete_leaf_overflow) simp_all
  have deref: "DEREFNODEPTR h ROOTPTR = Some (ptr T)" "ptr T \<noteq> 0"
    using ok at_slot [of Map.empty h "[]" T] at_ptr_0 [of Map.empty h "[]" T] T by (simp_all add: tree_ok_def)
  have "tdelete (-) 0 (Some ROOTPTR) h = None"
    using found del deref by (auto simp: tdelete_def)
  moreover have "length (fst (stack_of D)) = 40" "snd (stack_of D) = 40"
    using path(2) by (simp_all add: stack_of_def stack_cap_def D_def)
  moreover have "length (addrs T) = 6291453" "rootv h = ptr T"
    using size by (simp_all add: T_def h_def)
  ultimately show ?thesis using ok found del by auto
qed

text \<open>C36. The store behind the stack: there is a red-black tree of 6291453 nodes on which \<open>tdelete\<close>
  stores behind the end of its stack of 40 parents. The run is given step by step: the descent finds
  the node with all 40 entries of the stack in use, the node is a black leaf, its brother is red, and
  the push in the rebalancing loop, which lacks the test and the enlargement that the two descents
  have, is the first step without a result; so \<open>tdelete\<close> has none. (With fewer than \<open>2 ^ 21 - 1\<close>
  nodes this cannot happen.)\<close>

theorem tdelete_stack_overflow:
  "\<exists>h T rootp n st. tree_ok (-) h T \<and> length (addrs T) = 6291453 \<and>
    tdelete_find (-) (0 :: int) h ROOTPTR (rootv h) (rootv h) ([], 40) = Some (Some (rootp, n, st)) \<and>
    length (fst st) = 40 \<and> snd st = 40 \<and>
    (\<exists>b h1 p q h2. DEREFNODEPTR h rootp = Some b \<and> find_unchained h rootp b st = Some (b, st) \<and>
      unchain h rootp b st = Some (h1, 0) \<and> RED h1 b = Some False \<and>
      DEREFNODEPTR h1 (hd (fst st)) = Some p \<and> LEFT h1 p = Some 0 \<and> RIGHT h1 p = Some q \<and> RED h1 q = Some True \<and>
      rotate_left_red h1 (hd (fst st)) p q = Some h2 \<and> push_unchecked (LEFTPTR q) st = None) \<and>
    tdelete (-) 0 (Some ROOTPTR) h = None"
  using deep_tree_overflow unfolding stores_behind_stack_def by blast

end
