(* ===== verification/Crypt_Output.thy ===== *)
theory Crypt_Output
  imports Prelude "HOL-Library.Monad_Syntax"
begin

text \<open>
  The strings of the password hashes in crypt/: how the salt argument is read and how the result
  is written into the caller's buffer. The output position is \<open>cp\<close>, an index into the buffer, and
  \<open>buflen\<close> the bytes the code believes are left; a store outside the buffer is \<open>None\<close>.
\<close>

section \<open>Reading the salt\<close>

definition dollar :: byte where "dollar = 0x24"

definition rounds_prefix :: "byte list" where
  "rounds_prefix = [0x72, 0x6f, 0x75, 0x6e, 0x64, 0x73, 0x3d]"

definition isdigit :: "byte \<Rightarrow> bool" where
  "isdigit c \<longleftrightarrow> 48 \<le> unat c \<and> unat c \<le> 57"

definition isspace :: "byte \<Rightarrow> bool" where
  "isspace c \<longleftrightarrow> c = 32 \<or> 9 \<le> unat c \<and> unat c \<le> 13"

definition digits_val :: "byte list \<Rightarrow> nat" where
  "digits_val ds = fold (\<lambda>d n. 10 * n + (unat d - 48)) ds 0"

text \<open>\<open>strtoul (num, &endp, 10)\<close> in the C locale: the value and the rest of the string.\<close>

definition strtoul_10 :: "byte list \<Rightarrow> nat \<times> byte list" where
  "strtoul_10 num =
     (let s = dropWhile isspace num;
          (neg, s) = (case s of c # s' \<Rightarrow> if c = 0x2d then (True, s') else if c = 0x2b then (False, s') else (False, s)
                      | [] \<Rightarrow> (False, s));
          n = digits_val (takeWhile isdigit s)
      in if takeWhile isdigit s = [] then (0, num)
         else (if n > 2 ^ 64 - 1 then 2 ^ 64 - 1 else if neg then (2 ^ 64 - n) mod 2 ^ 64 else n,
               dropWhile isdigit s))"

text \<open>The prefix, the optional number of rounds, and the salt proper with its length. The result
  has the rounds, whether they were given, and the salt pointer as the rest of the string.\<close>

definition parse_salt :: "byte list \<Rightarrow> byte list \<Rightarrow> nat \<times> bool \<times> byte list" where
  "parse_salt salt_prefix salt =
     (let salt = (if take (length salt_prefix) salt = salt_prefix then drop (length salt_prefix) salt else salt)
      in if take (length rounds_prefix) salt = rounds_prefix
         then let num = drop (length rounds_prefix) salt;
                  (srounds, endp) = strtoul_10 num
              in if endp \<noteq> [] \<and> hd endp = dollar
                 then (max 1000 (min srounds 999999999), True, tl endp)
                 else (5000, False, salt)
         else (5000, False, salt))"

definition salt_length :: "byte list \<Rightarrow> nat" where
  "salt_length salt = min (length (takeWhile (\<lambda>c. c \<noteq> dollar) salt)) 16"

section \<open>Writing the result\<close>

text \<open>The buffer, the output position and the bytes left.\<close>

type_synonym outbuf = "byte list \<times> nat \<times> int"

definition put_byte :: "byte list \<Rightarrow> nat \<Rightarrow> byte \<Rightarrow> byte list option" where
  "put_byte buf i c = (if i < length buf then Some (buf[i := c]) else None)"

definition store_bytes :: "byte list \<Rightarrow> nat \<Rightarrow> byte list \<Rightarrow> byte list option" where
  "store_bytes buf i cs = (if cs = [] \<or> i + length cs \<le> length buf then Some (blit buf i cs) else None)"

text \<open>\<open>stpncpy\<close> stores exactly \<open>n\<close> bytes, padded with zeros, and returns the end of the copy.\<close>

definition stpncpy :: "byte list \<Rightarrow> nat \<Rightarrow> byte list \<Rightarrow> nat \<Rightarrow> (byte list \<times> nat) option" where
  "stpncpy buf cp src n =
     do { buf \<leftarrow> store_bytes buf cp (take n (src @ replicate n 0));
          Some (buf, cp + min n (length src)) }"

text \<open>Decimal digits, most significant first.\<close>

fun decimal :: "nat \<Rightarrow> byte list" where
  "decimal n = (if n < 10 then [] else decimal (n div 10)) @ [word_of_nat (48 + n mod 10)]"

declare decimal.simps [simp del]

text \<open>\<open>snprintf\<close>, given the formatted text: at most \<open>n - 1\<close> characters of it and a zero byte, and the
  length of the whole text as result.\<close>

definition snprintf :: "byte list \<Rightarrow> nat \<Rightarrow> nat \<Rightarrow> byte list \<Rightarrow> (byte list \<times> nat) option" where
  "snprintf buf cp n str =
     do { buf \<leftarrow> (if n > 0 then store_bytes buf cp (take (n - 1) str @ [0]) else Some buf);
          Some (buf, length str) }"

definition b64t :: "byte list" where
  "b64t = [46, 47] @ map word_of_nat [48..<58] @ map word_of_nat [65..<91] @ map word_of_nat [97..<123]"

fun b64_loop :: "nat \<Rightarrow> u32 \<Rightarrow> outbuf \<Rightarrow> outbuf option" where
  "b64_loop 0 w st = Some st"
| "b64_loop (Suc n) w (buf, cp, buflen) =
     (if buflen > 0
      then do { buf \<leftarrow> put_byte buf cp (b64t ! unat (w AND 0x3f));
                b64_loop n (drop_bit 6 w) (buf, cp + 1, buflen - 1) }
      else Some (buf, cp, buflen))"

definition b64_from_24bit :: "byte \<Rightarrow> byte \<Rightarrow> byte \<Rightarrow> nat \<Rightarrow> outbuf \<Rightarrow> outbuf option" where
  "b64_from_24bit b2 b1 b0 n st =
     b64_loop n (push_bit 16 (ucast b2) OR push_bit 8 (ucast b1) OR ucast b0) st"

text \<open>The groups of the digest bytes in their order; \<open>None\<close> is a constant zero.\<close>

type_synonym b64_group = "nat option \<times> nat option \<times> nat option \<times> nat"

definition digest_byte :: "byte list \<Rightarrow> nat option \<Rightarrow> byte" where
  "digest_byte d i = (case i of None \<Rightarrow> 0 | Some i \<Rightarrow> d ! i)"

fun b64_groups :: "byte list \<Rightarrow> b64_group list \<Rightarrow> outbuf \<Rightarrow> outbuf option" where
  "b64_groups d [] st = Some st"
| "b64_groups d ((b2, b1, b0, n) # gs) st =
     do { st \<leftarrow> b64_from_24bit (digest_byte d b2) (digest_byte d b1) (digest_byte d b0) n st;
          b64_groups d gs st }"

text \<open>The three parts of the result string. The result is whether it fitted, and the buffer.\<close>

definition write_result ::
  "byte list \<Rightarrow> b64_group list \<Rightarrow> nat option \<Rightarrow> byte list \<Rightarrow> byte list \<Rightarrow> byte list \<Rightarrow> int \<Rightarrow> (bool \<times> byte list) option" where
  "write_result salt_prefix groups rounds salt digest buf buflen =
     do { (buf, cp) \<leftarrow> stpncpy buf 0 salt_prefix (nat (max 0 buflen));
          let buflen = buflen - int (length salt_prefix) in
          do { (buf, cp, buflen) \<leftarrow>
                 (case rounds of
                    None \<Rightarrow> Some (buf, cp, buflen)
                  | Some r \<Rightarrow> do { (buf, n) \<leftarrow> snprintf buf cp (nat (max 0 buflen)) (rounds_prefix @ decimal r @ [dollar]);
                                   Some (buf, cp + n, buflen - int n) });
               (buf, cp) \<leftarrow> stpncpy buf cp salt (min (nat (max 0 buflen)) (length salt));
               let buflen = buflen - int (min (nat (max 0 buflen)) (length salt)) in
               do { (buf, cp, buflen) \<leftarrow>
                      (if buflen > 0 then do { buf \<leftarrow> put_byte buf cp dollar; Some (buf, cp + 1, buflen - 1) }
                       else Some (buf, cp, buflen));
                    (buf, cp, buflen) \<leftarrow> b64_groups digest groups (buf, cp, buflen);
                    if buflen \<le> 0 then Some (False, buf)
                    else do { buf \<leftarrow> put_byte buf cp 0; Some (True, buf) } } } }"

section \<open>The result string\<close>

text \<open>Base 64 in the order of crypt: the low six bits first.\<close>

fun b64_text :: "nat \<Rightarrow> nat \<Rightarrow> byte list" where
  "b64_text 0 w = []"
| "b64_text (Suc n) w = b64t ! (w mod 64) # b64_text n (w div 64)"

definition group_text :: "byte list \<Rightarrow> b64_group \<Rightarrow> byte list" where
  "group_text d g =
     (case g of (b2, b1, b0, n) \<Rightarrow>
        b64_text n (65536 * unat (digest_byte d b2) + 256 * unat (digest_byte d b1) + unat (digest_byte d b0)))"

definition result_string :: "byte list \<Rightarrow> b64_group list \<Rightarrow> nat option \<Rightarrow> byte list \<Rightarrow> byte list \<Rightarrow> byte list" where
  "result_string salt_prefix groups rounds salt digest =
     salt_prefix @ (case rounds of None \<Rightarrow> [] | Some r \<Rightarrow> rounds_prefix @ decimal r @ [dollar]) @ salt @ [dollar] @
       concat (map (group_text digest) groups)"

text \<open>What has been written so far, in a buffer of \<open>N\<close> bytes.\<close>

definition written :: "nat \<Rightarrow> byte list \<Rightarrow> outbuf \<Rightarrow> bool" where
  "written N s st \<longleftrightarrow>
     (case st of (buf, cp, buflen) \<Rightarrow> length buf = N \<and>
        (if length s < N then buflen = int N - int (length s) \<and> cp = length s \<and> take cp buf = s else buflen \<le> 0))"

lemma written_cases:
  assumes "written N s (buf, cp, buflen)"
  obtains "length s < N" "buflen > 0" "buflen = int N - int (length s)" "cp = length s" "take cp buf = s" "length buf = N"
  | "N \<le> length s" "buflen \<le> 0" "length buf = N"
  using assms by (auto simp: written_def split: if_splits)

lemma put_written:
  assumes "written N s (buf, cp, buflen)"
  shows "\<exists>st. (if buflen > 0 then do { buf \<leftarrow> put_byte buf cp c; Some (buf, cp + 1, buflen - 1) } else Some (buf, cp, buflen)) =
      Some st \<and> written N (s @ [c]) st"
  using assms
proof (cases rule: written_cases)
  case 1
  then have "take (Suc (length s)) (buf[length s := c]) = s @ [c]"
    by (simp add: take_Suc_conv_app_nth)
  then show ?thesis using 1 by (simp add: put_byte_def written_def)
qed (simp add: written_def)

lemma b64_loop_written:
  assumes "written N s st"
  shows "\<exists>st'. b64_loop n w st = Some st' \<and> written N (s @ b64_text n (unat w)) st'"
  using assms
proof (induction n arbitrary: w s st)
  case (Suc n)
  obtain buf cp buflen where st: "st = (buf, cp, buflen)" by (cases st)
  show ?case
  proof (cases "buflen > 0")
    case True
    have idx: "unat (w AND 0x3f) = unat w mod 64"
    proof -
      have "w AND 0x3f = take_bit 6 w" by (simp add: take_bit_eq_mask mask_eq_exp_minus_1)
      then show ?thesis by (simp only: unsigned_take_bit_eq) (simp add: take_bit_eq_mod)
    qed
    obtain st1 where st1: "do { buf \<leftarrow> put_byte buf cp (b64t ! (unat w mod 64)); Some (buf, cp + 1, buflen - 1) } = Some st1"
        "written N (s @ [b64t ! (unat w mod 64)]) st1"
      using put_written [OF Suc.prems [unfolded st], of "b64t ! (unat w mod 64)"] True by auto
    then obtain buf' where buf': "put_byte buf cp (b64t ! (unat w mod 64)) = Some buf'" "st1 = (buf', cp + 1, buflen - 1)"
      by (cases "put_byte buf cp (b64t ! (unat w mod 64))") auto
    have "unat (drop_bit 6 w) = unat w div 64" by (simp only: unat_drop_bit_eq) (simp add: drop_bit_eq_div)
    then show ?thesis
      using Suc.IH [OF st1(2), of "drop_bit 6 w"] True buf' idx by (simp add: st)
  next
    case False
    then show ?thesis using Suc.prems by (auto simp: st written_def split: if_splits)
  qed
qed simp

lemma b64_word:
  "unat (push_bit 16 (ucast b2) OR push_bit 8 (ucast b1) OR ucast b0 :: u32) =
   65536 * unat b2 + 256 * unat b1 + unat b0" for b2 b1 b0 :: byte
proof -
  have u: "unat (ucast b :: u32) = unat b" for b :: byte
    by (simp add: unsigned_ucast_eq take_bit_eq_mod less_le_trans [OF unsigned_less])
  have b: "unat b < 256" for b :: byte using unsigned_less [of b] by simp
  have "push_bit 8 (ucast b1) OR ucast b0 = (push_bit 8 (ucast b1) + ucast b0 :: u32)"
    by (rule disjunctive_add_eq_or [symmetric]) (auto simp: bit_eq_iff bit_push_bit_iff bit_and_iff bit_ucast_iff dest: bit_imp_le_length)
  moreover have "push_bit 16 (ucast b2) OR (push_bit 8 (ucast b1) OR ucast b0) = (push_bit 16 (ucast b2) + (push_bit 8 (ucast b1) OR ucast b0) :: u32)"
    by (rule disjunctive_add_eq_or [symmetric]) (auto simp: bit_eq_iff bit_push_bit_iff bit_and_iff bit_or_iff bit_ucast_iff dest: bit_imp_le_length)
  ultimately have "push_bit 16 (ucast b2) OR push_bit 8 (ucast b1) OR ucast b0 =
      (word_of_nat (65536 * unat b2 + 256 * unat b1 + unat b0) :: u32)"
    by (simp add: or.assoc push_bit_eq_mult u mult.commute flip: u)
  then show ?thesis
    using b [of b2] b [of b1] b [of b0] by (simp only: unat_word_of_nat_mod) simp
qed

lemma b64_groups_written:
  assumes "written N s st"
  shows "\<exists>st'. b64_groups d gs st = Some st' \<and> written N (s @ concat (map (group_text d) gs)) st'"
  using assms
proof (induction gs arbitrary: s st)
  case (Cons g gs)
  obtain b2 b1 b0 n where g: "g = (b2, b1, b0, n)" by (cases g)
  obtain st1 where "b64_from_24bit (digest_byte d b2) (digest_byte d b1) (digest_byte d b0) n st = Some st1"
      and st1: "written N (s @ group_text d g) st1"
    using b64_loop_written [OF Cons.prems, of n "push_bit 16 (ucast (digest_byte d b2)) OR push_bit 8 (ucast (digest_byte d b1)) OR ucast (digest_byte d b0)"]
    unfolding b64_word by (auto simp: b64_from_24bit_def group_text_def g)
  then show ?case using Cons.IH [OF st1] by (simp add: g)
qed simp

lemma store_written:
  assumes "written N s (buf, cp, buflen)" "buflen > 0" "length cs \<le> nat buflen"
  shows "store_bytes buf cp cs = Some (blit buf cp cs)" "length (blit buf cp cs) = N"
    "take (cp + length cs) (blit buf cp cs) = s @ cs"
proof -
  have "cp + length cs \<le> length buf \<and> take cp buf = s \<and> length buf = N"
    using assms by (cases rule: written_cases) simp_all
  then show "store_bytes buf cp cs = Some (blit buf cp cs)" "length (blit buf cp cs) = N"
      "take (cp + length cs) (blit buf cp cs) = s @ cs"
    using take_blit [of cp buf "cp + length cs" cs] by (auto simp: store_bytes_def length_blit)
qed

lemma snprintf_written:
  assumes w: "written N s (buf, cp, buflen)"
  shows "\<exists>buf' n. snprintf buf cp (nat (max 0 buflen)) str = Some (buf', n) \<and> written N (s @ str) (buf', cp + n, buflen - int n)"
  using w
proof (cases rule: written_cases)
  case 1
  let ?t = "take (nat buflen - 1) str @ [0]"
  have len: "length ?t \<le> nat buflen" using 1(2) by simp
  note st = store_written [OF w 1(2) len]
  have eq: "take (length s + length str) (blit buf cp ?t) = s @ str" if "length (s @ str) < N"
  proof -
    have t: "?t = str @ [0]" using that 1 by simp
    have "take (length s + length str) (take (cp + length ?t) (blit buf cp ?t)) = take (length s + length str) (s @ ?t)"
      unfolding st(3) ..
    then show ?thesis using 1(4) unfolding t by simp
  qed
  then show ?thesis using 1 st by (simp add: snprintf_def written_def)
next
  case 2
  then show ?thesis using w by (auto simp: snprintf_def written_def)
qed

lemma stpncpy_written:
  fixes str :: "byte list"
  assumes w: "written N s (buf, cp, buflen)"
  defines "n \<equiv> min (nat (max 0 buflen)) (length str)"
  shows "\<exists>buf'. stpncpy buf cp str n = Some (buf', cp + n) \<and> written N (s @ str) (buf', cp + n, buflen - int n)"
  using w
proof (cases rule: written_cases)
  case 1
  have t: "take n (str @ replicate n 0) = take n str" by (simp add: n_def)
  have len: "length (take n str) \<le> nat buflen" using 1(2) by (simp add: n_def)
  have n: "length (take n str) = n" by (simp add: n_def)
  note st = store_written [OF w 1(2) len, unfolded n]
  have "take n str = str" "n = length str" if "length (s @ str) < N" using that 1 by (simp_all add: n_def)
  then show ?thesis using 1 st n by (auto simp: stpncpy_def t written_def n_def)
next
  case 2
  then show ?thesis using w by (auto simp: stpncpy_def written_def n_def store_bytes_def)
qed

lemma stpncpy_start:
  assumes "length buf = N"
  shows "\<exists>buf'. stpncpy buf 0 str N = Some (buf', min N (length str)) \<and>
    written N str (buf', min N (length str), int N - int (length str))"
proof -
  have "length (take N (str @ replicate N 0)) = N" by simp
  then have "store_bytes buf 0 (take N (str @ replicate N 0)) = Some (take N (str @ replicate N 0))"
    using assms by (simp add: store_bytes_def blit_def)
  then show ?thesis by (auto simp: stpncpy_def written_def)
qed

lemma write_result_correct:
  fixes salt_prefix groups rounds salt digest
  assumes "length buf = N"
  defines "s \<equiv> result_string salt_prefix groups rounds salt digest"
  shows "\<exists>buf'. write_result salt_prefix groups rounds salt digest buf (int N) = Some (length s < N, buf') \<and> length buf' = N \<and>
    (length s < N \<longrightarrow> take (Suc (length s)) buf' = s @ [0])"
proof -
  let ?r = "case rounds of None \<Rightarrow> [] | Some r \<Rightarrow> rounds_prefix @ decimal r @ [dollar]"
  obtain b1 where b1: "stpncpy buf 0 salt_prefix N = Some (b1, min N (length salt_prefix))"
      "written N salt_prefix (b1, min N (length salt_prefix), int N - int (length salt_prefix))"
    using stpncpy_start [OF assms(1)] by blast
  have "\<exists>b2 cp2 l2. (case rounds of None \<Rightarrow> Some (b1, min N (length salt_prefix), int N - int (length salt_prefix))
      | Some r \<Rightarrow> do { (buf, n) \<leftarrow> snprintf b1 (min N (length salt_prefix)) (nat (max 0 (int N - int (length salt_prefix)))) (rounds_prefix @ decimal r @ [dollar]);
                       Some (buf, min N (length salt_prefix) + n, int N - int (length salt_prefix) - int n) }) = Some (b2, cp2, l2) \<and>
      written N (salt_prefix @ ?r) (b2, cp2, l2)"
  proof (cases rounds)
    case (Some r)
    then show ?thesis using snprintf_written [OF b1(2), of "rounds_prefix @ decimal r @ [dollar]"] by fastforce
  qed (use b1(2) in simp)
  then obtain b2 cp2 l2 where b2: "(case rounds of None \<Rightarrow> Some (b1, min N (length salt_prefix), int N - int (length salt_prefix))
      | Some r \<Rightarrow> do { (buf, n) \<leftarrow> snprintf b1 (min N (length salt_prefix)) (nat (max 0 (int N - int (length salt_prefix)))) (rounds_prefix @ decimal r @ [dollar]);
                       Some (buf, min N (length salt_prefix) + n, int N - int (length salt_prefix) - int n) }) = Some (b2, cp2, l2)"
      "written N (salt_prefix @ ?r) (b2, cp2, l2)" by blast
  let ?n = "min (nat (max 0 l2)) (length salt)"
  obtain b3 where b3: "stpncpy b2 cp2 salt ?n = Some (b3, cp2 + ?n)" "written N ((salt_prefix @ ?r) @ salt) (b3, cp2 + ?n, l2 - int ?n)"
    using stpncpy_written [OF b2(2), of salt] by blast
  obtain st4 where st4: "(if l2 - int ?n > 0 then do { buf \<leftarrow> put_byte b3 (cp2 + ?n) dollar; Some (buf, cp2 + ?n + 1, l2 - int ?n - 1) }
      else Some (b3, cp2 + ?n, l2 - int ?n)) = Some st4" "written N (((salt_prefix @ ?r) @ salt) @ [dollar]) st4"
    using put_written [OF b3(2), of dollar] by blast
  obtain b4 cp4 l4 where "st4 = (b4, cp4, l4)" by (cases st4)
  note b4 = st4 [unfolded this]
  obtain b5 cp5 l5 where b5: "b64_groups digest groups (b4, cp4, l4) = Some (b5, cp5, l5)" "written N s (b5, cp5, l5)"
    using b64_groups_written [OF b4(2), of digest groups] by (auto simp: s_def result_string_def)
  have "\<exists>buf'. (if l5 \<le> 0 then Some (False, b5) else do { buf \<leftarrow> put_byte b5 cp5 0; Some (True, buf) }) = Some (length s < N, buf') \<and>
      length buf' = N \<and> (length s < N \<longrightarrow> take (Suc (length s)) buf' = s @ [0])"
    using b5(2)
  proof (cases rule: written_cases)
    case 1
    then show ?thesis by (auto simp: put_byte_def take_Suc_conv_app_nth)
  qed auto
  then show ?thesis
    using b1(1) b2(1) b3(1) b4(1) b5(1) unfolding write_result_def by (simp add: Let_def)
qed

end
