(* ===== verification/Sha_Crypt.thy ===== *)
theory Sha_Crypt
  imports Crypt_Output "HOL-Library.Log_Nat"
begin

text \<open>
  The password hash that crypt/sha256-crypt.c and crypt/sha512-crypt.c share, with the parts that
  crypt/md5-crypt.c has too. The first two files hold the same function with different constants: the digest with its size \<open>n\<close>, the alignment \<open>al\<close>
  its block function wants, the salt prefix and the order in which the digest is printed. It is
  written once over these; the component theories instantiate it. The configured build does not
  use NSS.
\<close>

section \<open>The code\<close>

text \<open>The three functions of a digest that are used, and what \<open>explicit_bzero\<close> leaves of a context.\<close>

record 'c digest_ops =
  ctx_init :: "'c \<Rightarrow> 'c"
  ctx_bytes :: "nat \<Rightarrow> byte list \<Rightarrow> 'c \<Rightarrow> 'c"
  ctx_finish :: "'c \<Rightarrow> byte list \<times> 'c"
  ctx_zero :: 'c

text \<open>What the code learns from its surroundings: the addresses of its arguments and of the memory
  it allocates (only their alignment matters), and whether the two allocations that may go to the
  heap succeed.\<close>

record crypt_env =
  key_addr :: nat
  salt_addr :: nat
  key_tmp :: nat
  key_tmp_ok :: bool
  salt_tmp :: nat
  alt_result_addr :: nat
  p_bytes_addr :: nat
  p_bytes_ok :: bool
  s_bytes_addr :: nat

text \<open>The local memory that holds intermediate results: what crypt/md5-crypt.c has too, and the
  sequences of the two SHA variants.\<close>

record 'c scratch =
  ctx :: 'c
  alt_ctx :: 'c
  alt_result :: "byte list"
  copied_key :: "byte list option"
  copied_salt :: "byte list option"

record 'c sha_scratch = "'c scratch" +
  temp_result :: "byte list"
  p_bytes :: "byte list"
  s_bytes :: "byte list"

datatype crypt_ret = NULL_ENOMEM | NULL_ERANGE | RESULT

text \<open>\<open>for (cnt = key_len; cnt > n; cnt -= n)\<close> and the call after it.\<close>

function add_alt_sum :: "'c digest_ops \<Rightarrow> nat \<Rightarrow> nat \<Rightarrow> byte list \<Rightarrow> nat \<Rightarrow> 'c \<Rightarrow> 'c" where
  "add_alt_sum D n addr alt cnt c =
     (if 0 < n \<and> cnt > n then add_alt_sum D n addr alt (cnt - n) (ctx_bytes D addr alt c)
      else ctx_bytes D addr (take cnt alt) c)"
  by pat_completeness auto
termination by (relation "measure (\<lambda>(D, n, addr, alt, cnt, c). cnt)") auto

declare add_alt_sum.simps [simp del]

text \<open>\<open>for (cnt = key_len; cnt > 0; cnt >>= 1)\<close>.\<close>

fun add_key_bits :: "'c digest_ops \<Rightarrow> nat \<Rightarrow> byte list \<Rightarrow> nat \<Rightarrow> byte list \<Rightarrow> nat \<Rightarrow> 'c \<Rightarrow> 'c" where
  "add_key_bits D alt_addr alt kaddr key cnt c =
     (if cnt > 0
      then add_key_bits D alt_addr alt kaddr key (cnt div 2)
             (if odd cnt then ctx_bytes D alt_addr alt c else ctx_bytes D kaddr key c)
      else c)"

declare add_key_bits.simps [simp del]

text \<open>\<open>for (cnt = len; cnt >= n; cnt -= n) cp = mempcpy (cp, temp_result, n)\<close> and the copy after it.\<close>

function fill_bytes :: "nat \<Rightarrow> byte list \<Rightarrow> nat \<Rightarrow> byte list" where
  "fill_bytes n temp cnt = (if 0 < n \<and> cnt \<ge> n then temp @ fill_bytes n temp (cnt - n) else take cnt temp)"
  by pat_completeness auto
termination by (relation "measure (\<lambda>(n, temp, cnt). cnt)") auto

declare fill_bytes.simps [simp del]

text \<open>From the initialisation of the first context to its intermediate result.\<close>

definition start_digest ::
  "'c digest_ops \<Rightarrow> nat \<Rightarrow> crypt_env \<Rightarrow> nat \<Rightarrow> byte list \<Rightarrow> nat \<Rightarrow> byte list \<Rightarrow> 'c sha_scratch \<Rightarrow> 'c sha_scratch" where
  "start_digest D n env kaddr key saddr salt sc =
     (let c = ctx_init D (ctx sc);
          c = ctx_bytes D kaddr key c;
          c = ctx_bytes D saddr salt c;
          ac = ctx_init D (alt_ctx sc);
          ac = ctx_bytes D kaddr key ac;
          ac = ctx_bytes D saddr salt ac;
          ac = ctx_bytes D kaddr key ac;
          (alt, ac) = ctx_finish D ac;
          c = add_alt_sum D n (alt_result_addr env) alt (length key) c;
          c = add_key_bits D (alt_result_addr env) alt kaddr key (length key) c;
          (alt, c) = ctx_finish D c
      in sc\<lparr>ctx := c, alt_ctx := ac, alt_result := alt\<rparr>)"

text \<open>A digest of a repeated string, left in \<open>temp_result\<close>.\<close>

definition repeat_digest :: "'c digest_ops \<Rightarrow> nat \<Rightarrow> nat \<Rightarrow> byte list \<Rightarrow> 'c sha_scratch \<Rightarrow> 'c sha_scratch" where
  "repeat_digest D cnt addr str sc =
     (let ac = ctx_init D (alt_ctx sc);
          ac = (ctx_bytes D addr str ^^ cnt) ac;
          (temp, ac) = ctx_finish D ac
      in sc\<lparr>alt_ctx := ac, temp_result := temp\<rparr>)"

text \<open>One round, with the sequences \<open>P\<close> and \<open>S\<close> and the previous result \<open>alt\<close> at their addresses: the
  digest in the context \<open>c\<close>.\<close>

definition round_digest ::
  "'c digest_ops \<Rightarrow> nat \<times> byte list \<Rightarrow> nat \<times> byte list \<Rightarrow> nat \<times> byte list \<Rightarrow> nat \<Rightarrow> 'c \<Rightarrow> byte list \<times> 'c" where
  "round_digest D P S alt cnt c =
     (let add = (\<lambda>(addr, bs). ctx_bytes D addr bs);
          c = ctx_init D c;
          c = (if odd cnt then add P c else add alt c);
          c = (if cnt mod 3 \<noteq> 0 then add S c else c);
          c = (if cnt mod 7 \<noteq> 0 then add P c else c);
          c = (if odd cnt then add alt c else add P c)
      in ctx_finish D c)"

definition crypt_round :: "'c digest_ops \<Rightarrow> crypt_env \<Rightarrow> nat \<Rightarrow> 'c sha_scratch \<Rightarrow> 'c sha_scratch" where
  "crypt_round D env cnt sc =
     (let (alt, c) = round_digest D (p_bytes_addr env, p_bytes sc) (s_bytes_addr env, s_bytes sc)
                       (alt_result_addr env, alt_result sc) cnt (ctx sc)
      in sc\<lparr>ctx := c, alt_result := alt\<rparr>)"

definition bzero :: "byte list \<Rightarrow> byte list" where
  "bzero bs = replicate (length bs) 0"

text \<open>The end of the function: the contexts and the copies are cleared.\<close>

definition clear_common :: "'c digest_ops \<Rightarrow> ('c, 'm) scratch_scheme \<Rightarrow> ('c, 'm) scratch_scheme" where
  "clear_common D sc =
     (let c = ctx_init D (ctx sc);
          (alt, c) = ctx_finish D c
      in sc\<lparr>ctx := ctx_zero D, alt_ctx := ctx_zero D, alt_result := alt,
         copied_key := map_option bzero (copied_key sc), copied_salt := map_option bzero (copied_salt sc)\<rparr>)"

definition clear_scratch :: "'c digest_ops \<Rightarrow> 'c sha_scratch \<Rightarrow> 'c sha_scratch" where
  "clear_scratch D sc =
     (clear_common D sc)\<lparr>temp_result := bzero (temp_result sc), p_bytes := bzero (p_bytes sc), s_bytes := bzero (s_bytes sc)\<rparr>"

text \<open>The address of a copy that is aligned within memory of \<open>al\<close> bytes more than it needs.\<close>

definition align_up :: "nat \<Rightarrow> nat \<Rightarrow> nat" where
  "align_up al tmp = tmp + al - tmp mod al"

text \<open>From the preparation of the contexts to the end of the rounds; the result is false when there
  is no memory for \<open>p_bytes\<close>.\<close>

definition crypt_digest ::
  "'c digest_ops \<Rightarrow> nat \<Rightarrow> crypt_env \<Rightarrow> nat \<Rightarrow> byte list \<Rightarrow> nat \<Rightarrow> byte list \<Rightarrow> nat \<Rightarrow> 'c sha_scratch \<Rightarrow> bool \<times> 'c sha_scratch" where
  "crypt_digest D n env kaddr key saddr salt rounds sc =
     (let sc = start_digest D n env kaddr key saddr salt sc;
          sc = repeat_digest D (length key) kaddr key sc
      in if \<not> p_bytes_ok env then (False, sc)
         else
           let sc = sc\<lparr>p_bytes := fill_bytes n (temp_result sc) (length key)\<rparr>;
               sc = repeat_digest D (16 + unat (alt_result sc ! 0)) saddr salt sc;
               sc = sc\<lparr>s_bytes := fill_bytes n (temp_result sc) (length salt)\<rparr>
           in (True, fold (crypt_round D env) [0..<rounds] sc))"

text \<open>The copies of an unaligned key and an unaligned salt.\<close>

definition copy_key :: "nat \<Rightarrow> crypt_env \<Rightarrow> byte list \<Rightarrow> ('c, 'm) scratch_scheme \<Rightarrow> nat \<times> ('c, 'm) scratch_scheme" where
  "copy_key al env key sc =
     (if key_addr env mod al \<noteq> 0 then (align_up al (key_tmp env), sc\<lparr>copied_key := Some key\<rparr>)
      else (key_addr env, sc\<lparr>copied_key := None\<rparr>))"

definition copy_salt :: "nat \<Rightarrow> crypt_env \<Rightarrow> nat \<Rightarrow> byte list \<Rightarrow> ('c, 'm) scratch_scheme \<Rightarrow> nat \<times> ('c, 'm) scratch_scheme" where
  "copy_salt al env saddr salt sc =
     (if saddr mod al \<noteq> 0 then (align_up al (salt_tmp env), sc\<lparr>copied_salt := Some salt\<rparr>)
      else (saddr, sc\<lparr>copied_salt := None\<rparr>))"

definition sha_crypt_r ::
  "'c digest_ops \<Rightarrow> nat \<Rightarrow> nat \<Rightarrow> byte list \<Rightarrow> b64_group list \<Rightarrow> crypt_env \<Rightarrow> byte list \<Rightarrow> byte list \<Rightarrow> byte list \<Rightarrow> int
     \<Rightarrow> 'c sha_scratch \<Rightarrow> (crypt_ret \<times> byte list \<times> 'c sha_scratch) option" where
  "sha_crypt_r D n al salt_prefix groups env key salt0 buf buflen sc =
     (let (rounds, rounds_custom, salt_rest) = parse_salt salt_prefix salt0;
          salt = take (salt_length salt_rest) salt_rest;
          saddr = salt_addr env + (length salt0 - length salt_rest)
      in if key_addr env mod al \<noteq> 0 \<and> \<not> key_tmp_ok env
         then Some (NULL_ENOMEM, buf, sc\<lparr>copied_key := None, copied_salt := None\<rparr>)
         else
           let (kaddr, sc) = copy_key al env key sc;
               (saddr, sc) = copy_salt al env saddr salt sc
           in if kaddr mod al \<noteq> 0 \<or> saddr mod al \<noteq> 0 then None
              else
                let (ok, sc) = crypt_digest D n env kaddr key saddr salt rounds sc
                in if \<not> ok then Some (NULL_ENOMEM, buf, sc)
                   else do { (fits, buf) \<leftarrow> write_result salt_prefix groups (if rounds_custom then Some rounds else None)
                                            salt (alt_result sc) buf buflen;
                             Some (if fits then RESULT else NULL_ERANGE, buf, clear_scratch D sc) })"

text \<open>The non-reentrant functions keep a buffer that they enlarge to an upper bound of the result,
  computed as an \<open>int\<close>, before they call the reentrant one. The static state is the buffer and its
  size; \<open>realloc\<close> gives the new buffer or nothing.\<close>

definition static_buffer ::
  "(byte list \<Rightarrow> int \<Rightarrow> byte list option) \<Rightarrow> int \<Rightarrow> (byte list \<Rightarrow> int \<Rightarrow> 's \<Rightarrow> (crypt_ret \<times> byte list \<times> 's) option)
     \<Rightarrow> byte list \<times> int \<Rightarrow> 's \<Rightarrow> (crypt_ret \<times> (byte list \<times> int) \<times> 's) option" where
  "static_buffer realloc needed crypt_r st sc =
     (let (buf, buflen) = st
      in if buflen < needed
         then (case realloc buf needed of
                 None \<Rightarrow> Some (NULL_ENOMEM, (buf, buflen), sc)
               | Some buf \<Rightarrow> do { (ret, buf, sc) \<leftarrow> crypt_r buf needed sc; Some (ret, (buf, needed), sc) })
         else do { (ret, buf, sc) \<leftarrow> crypt_r buf buflen sc; Some (ret, (buf, buflen), sc) })"

text \<open>\<open>outlen\<close> is the length of the printed digest.\<close>

definition needed_size :: "byte list \<Rightarrow> nat \<Rightarrow> byte list \<Rightarrow> int" where
  "needed_size salt_prefix outlen salt =
     sint (word_of_nat (length salt_prefix + Suc (length rounds_prefix) + 9 + 1 + length salt + 1 + outlen + 1) :: u32)"

definition sha_crypt ::
  "'c digest_ops \<Rightarrow> nat \<Rightarrow> nat \<Rightarrow> byte list \<Rightarrow> b64_group list \<Rightarrow> nat \<Rightarrow> (byte list \<Rightarrow> int \<Rightarrow> byte list option)
     \<Rightarrow> crypt_env \<Rightarrow> byte list \<Rightarrow> byte list \<Rightarrow> byte list \<times> int \<Rightarrow> 'c sha_scratch
     \<Rightarrow> (crypt_ret \<times> (byte list \<times> int) \<times> 'c sha_scratch) option" where
  "sha_crypt D n al salt_prefix groups outlen realloc env key salt =
     static_buffer realloc (needed_size salt_prefix outlen salt) (sha_crypt_r D n al salt_prefix groups env key salt)"

section \<open>The specification\<close>

text \<open>The published algorithm, over a hash function on whole messages.\<close>

definition cycle :: "nat \<Rightarrow> byte list \<Rightarrow> byte list" where
  "cycle k bs = map (\<lambda>i. bs ! (i mod length bs)) [0..<k]"

definition spec_start :: "(byte list \<Rightarrow> byte list) \<Rightarrow> byte list \<Rightarrow> byte list \<Rightarrow> byte list" where
  "spec_start H key salt =
     (let B = H (key @ salt @ key)
      in H (key @ salt @ cycle (length key) B @
            concat (map (\<lambda>i. if odd (length key div 2 ^ i) then B else key) [0..<floorlog 2 (length key)])))"

definition spec_round :: "(byte list \<Rightarrow> byte list) \<Rightarrow> byte list \<Rightarrow> byte list \<Rightarrow> nat \<Rightarrow> byte list \<Rightarrow> byte list" where
  "spec_round H P S i C =
     H ((if odd i then P else C) @ (if i mod 3 \<noteq> 0 then S else []) @ (if i mod 7 \<noteq> 0 then P else []) @
        (if odd i then C else P))"

definition sha_crypt_spec :: "(byte list \<Rightarrow> byte list) \<Rightarrow> byte list \<Rightarrow> byte list \<Rightarrow> nat \<Rightarrow> byte list" where
  "sha_crypt_spec H key salt rounds =
     (let A = spec_start H key salt;
          P = cycle (length key) (H (concat (replicate (length key) key)));
          S = cycle (length salt) (H (concat (replicate (16 + unat (A ! 0)) salt)))
      in fold (spec_round H P S) [0..<rounds] A)"

lemma cycle_wrap:
  assumes "length bs = n" "0 < n" "n \<le> k"
  shows "cycle k bs = bs @ cycle (k - n) bs"
proof (rule nth_equalityI)
  fix i
  assume "i < length (cycle k bs)"
  then show "cycle k bs ! i = (bs @ cycle (k - n) bs) ! i"
    using assms by (auto simp: cycle_def nth_append le_mod_geq not_less)
qed (use assms in \<open>simp add: cycle_def\<close>)

lemma cycle_short: "k \<le> length bs \<Longrightarrow> cycle k bs = take k bs"
  by (rule nth_equalityI) (simp_all add: cycle_def)

lemma fill_bytes_cycle: "length temp = n \<Longrightarrow> 0 < n \<Longrightarrow> fill_bytes n temp cnt = cycle cnt temp"
proof (induction n temp cnt rule: fill_bytes.induct)
  case (1 n temp cnt)
  then show ?case
    by (subst fill_bytes.simps) (simp add: cycle_wrap cycle_short)
qed

lemma length_cycle [simp]: "length (cycle k bs) = k"
  by (simp add: cycle_def)

text \<open>The message bits of the length, lowest first.\<close>

fun bit_texts :: "byte list \<Rightarrow> byte list \<Rightarrow> nat \<Rightarrow> byte list" where
  "bit_texts B key cnt = (if cnt > 0 then (if odd cnt then B else key) @ bit_texts B key (cnt div 2) else [])"

declare bit_texts.simps [simp del]

lemma bit_texts_concat:
  "bit_texts B key cnt = concat (map (\<lambda>i. if odd (cnt div 2 ^ i) then B else key) [0..<floorlog 2 cnt])"
proof (induction B key cnt rule: bit_texts.induct)
  case (1 B key cnt)
  show ?case
  proof (cases "cnt > 0")
    case True
    have fl: "floorlog 2 cnt = Suc (floorlog 2 (cnt div 2))" using True by (subst compute_floorlog) simp
    have "[0..<Suc (floorlog 2 (cnt div 2))] = 0 # map Suc [0..<floorlog 2 (cnt div 2)]"
      by (simp add: upt_conv_Cons map_Suc_upt del: upt_Suc)
    then show ?thesis
      using True 1 by (subst bit_texts.simps) (simp add: fl comp_def div_mult2_eq del: upt_Suc)
  qed (simp add: bit_texts.simps floorlog_def)
qed

section \<open>The outcome\<close>

text \<open>No secret is left in the local memory.\<close>

definition scrubbed_common :: "'c digest_ops \<Rightarrow> ('c, 'm) scratch_scheme \<Rightarrow> bool" where
  "scrubbed_common D sc \<longleftrightarrow> ctx sc = ctx_zero D \<and> alt_ctx sc = ctx_zero D \<and>
     (\<forall>k. copied_key sc = Some k \<longrightarrow> (\<forall>b \<in> set k. b = 0)) \<and> (\<forall>s. copied_salt sc = Some s \<longrightarrow> (\<forall>b \<in> set s. b = 0))"

definition scrubbed :: "'c digest_ops \<Rightarrow> 'c sha_scratch \<Rightarrow> bool" where
  "scrubbed D sc \<longleftrightarrow> scrubbed_common D sc \<and>
     (\<forall>b \<in> set (temp_result sc) \<union> set (p_bytes sc) \<union> set (s_bytes sc). b = 0)"

text \<open>The string the function has to return.\<close>

definition crypt_string ::
  "(byte list \<Rightarrow> byte list) \<Rightarrow> byte list \<Rightarrow> b64_group list \<Rightarrow> byte list \<Rightarrow> byte list \<Rightarrow> byte list" where
  "crypt_string H salt_prefix groups key salt0 =
     (let (rounds, rounds_custom, rest) = parse_salt salt_prefix salt0;
          salt = take (salt_length rest) rest
      in result_string salt_prefix groups (if rounds_custom then Some rounds else None) salt
           (sha_crypt_spec H key salt rounds))"

text \<open>The outcome of a call with a buffer of the size given: the result is the string, terminated in
  the buffer; a buffer that is too small is reported; nothing is stored outside it; the secrets are
  cleared in both cases, as \<open>cleared\<close> says. \<open>nomem\<close> says that an allocation failed.\<close>

definition crypt_outcome ::
  "('s \<Rightarrow> bool) \<Rightarrow> byte list \<Rightarrow> bool \<Rightarrow> byte list \<Rightarrow> (crypt_ret \<times> byte list \<times> 's) option \<Rightarrow> bool" where
  "crypt_outcome cleared s nomem buf res \<longleftrightarrow>
     (\<exists>ret buf' sc. res = Some (ret, buf', sc) \<and> length buf' = length buf \<and>
        (if nomem then ret = NULL_ENOMEM \<and> buf' = buf
         else cleared sc \<and>
           (if length s < length buf then ret = RESULT \<and> take (Suc (length s)) buf' = s @ [0] else ret = NULL_ERANGE)))"

lemma scrubbed_common_clear: "scrubbed_common D (clear_common D sc)"
  by (auto simp: scrubbed_common_def clear_common_def bzero_def split: prod.splits)

lemma scrubbed_clear: "scrubbed D (clear_scratch D sc)"
  using scrubbed_common_clear [of D sc] by (auto simp: scrubbed_def scrubbed_common_def clear_scratch_def bzero_def)

lemma align_up_aligned: "0 < al \<Longrightarrow> align_up al tmp mod al = 0"
proof -
  assume "0 < al"
  then have "tmp mod al \<le> al" by (simp add: less_imp_le)
  then have "align_up al tmp = tmp div al * al + al"
    using div_mult_mod_eq [of tmp al] unfolding align_up_def by linarith
  then show ?thesis by simp
qed

lemma copies_aligned:
  assumes "0 < al"
  shows "copy_key al env key sc = (a, sc') \<Longrightarrow> a mod al = 0 \<and> ctx sc' = ctx sc \<and> alt_ctx sc' = alt_ctx sc"
    and "copy_salt al env b salt sc = (a, sc') \<Longrightarrow> a mod al = 0 \<and> ctx sc' = ctx sc \<and> alt_ctx sc' = alt_ctx sc"
  using align_up_aligned [OF assms] by (auto simp: copy_key_def copy_salt_def split: if_splits)

section \<open>What a digest promises\<close>

text \<open>The contract of the three digest functions: a context that has been fed a message gives its
  hash, however the message was cut, and can be used again.\<close>

locale incremental_digest =
  fixes D :: "'c digest_ops" and n :: nat and H :: "byte list \<Rightarrow> byte list"
    and fed :: "byte list \<Rightarrow> 'c \<Rightarrow> bool" and ready :: "'c \<Rightarrow> bool"
  assumes n_pos: "0 < n"
    and length_hash: "length (H m) = n"
    and init_fed: "ready c \<Longrightarrow> fed [] (ctx_init D c)"
    and bytes_fed: "fed m c \<Longrightarrow> fed (m @ d) (ctx_bytes D a d c)"
    and finish_hash: "fed m c \<Longrightarrow> fst (ctx_finish D c) = H m"
    and finish_ready: "fed m c \<Longrightarrow> ready (snd (ctx_finish D c))"
begin

lemma finish_pair: "fed m c \<Longrightarrow> \<exists>c'. ctx_finish D c = (H m, c') \<and> ready c'"
  using finish_hash [of m c] finish_ready [of m c] by (cases "ctx_finish D c") auto

lemma bytes_again: "fed m c \<Longrightarrow> fed (m @ concat (replicate k d)) ((ctx_bytes D a d ^^ k) c)"
proof (induction k)
  case (Suc k)
  have "concat (replicate (Suc k) d) = concat (replicate k d) @ d"
    by (induction k) simp_all
  then show ?case using bytes_fed [OF Suc.IH [OF Suc.prems]] by simp
qed simp

lemma add_alt_sum_fed:
  "length alt = n \<Longrightarrow> fed m c \<Longrightarrow> fed (m @ cycle cnt alt) (add_alt_sum D n addr alt cnt c)"
proof (induction cnt arbitrary: m c rule: less_induct)
  case (less cnt)
  show ?case
  proof (cases "cnt > n")
    case True
    have "fed ((m @ alt) @ cycle (cnt - n) alt) (add_alt_sum D n addr alt (cnt - n) (ctx_bytes D addr alt c))"
      using less True n_pos by (intro less.IH bytes_fed) simp_all
    then show ?thesis
      using True n_pos less.prems(1) by (subst add_alt_sum.simps) (simp add: cycle_wrap)
  next
    case False
    then show ?thesis
      using bytes_fed [OF less.prems(2)] less.prems(1) by (subst add_alt_sum.simps) (simp add: cycle_short)
  qed
qed

lemma add_key_bits_fed:
  "fed m c \<Longrightarrow> fed (m @ bit_texts alt key cnt) (add_key_bits D aaddr alt kaddr key cnt c)"
proof (induction cnt arbitrary: m c rule: less_induct)
  case (less cnt)
  show ?case
  proof (cases "cnt > 0")
    case True
    let ?t = "if odd cnt then alt else key"
    have "fed (m @ ?t) (if odd cnt then ctx_bytes D aaddr alt c else ctx_bytes D kaddr key c)"
      using bytes_fed [OF less.prems] by simp
    then have "fed ((m @ ?t) @ bit_texts alt key (cnt div 2))
        (add_key_bits D aaddr alt kaddr key (cnt div 2) (if odd cnt then ctx_bytes D aaddr alt c else ctx_bytes D kaddr key c))"
      by (rule less.IH [rotated]) (use True in simp)
    then show ?thesis
      using True by (subst add_key_bits.simps, subst bit_texts.simps) simp
  next
    case False
    then show ?thesis using less.prems by (simp add: add_key_bits.simps bit_texts.simps)
  qed
qed

abbreviation prepared :: "('c, 'm) scratch_scheme \<Rightarrow> bool" where
  "prepared sc \<equiv> ready (ctx sc) \<and> ready (alt_ctx sc)"

lemma start_digest_spec:
  assumes "prepared sc"
  shows "\<exists>c ac. start_digest D n env kaddr key saddr salt sc = sc\<lparr>ctx := c, alt_ctx := ac, alt_result := spec_start H key salt\<rparr> \<and>
    ready c \<and> ready ac"
proof -
  define B where "B = H (key @ salt @ key)"
  let ?c0 = "ctx_bytes D saddr salt (ctx_bytes D kaddr key (ctx_init D (ctx sc)))"
  let ?a0 = "ctx_bytes D kaddr key (ctx_bytes D saddr salt (ctx_bytes D kaddr key (ctx_init D (alt_ctx sc))))"
  have "fed (key @ salt) ?c0"
    using bytes_fed [OF bytes_fed [OF init_fed]] assms by fastforce
  then have c: "fed (key @ salt @ cycle (length key) B @ bit_texts B key (length key))
      (add_key_bits D (alt_result_addr env) B kaddr key (length key) (add_alt_sum D n (alt_result_addr env) B (length key) ?c0))"
    using add_key_bits_fed [OF add_alt_sum_fed, of B] length_hash by (fastforce simp: B_def)
  have "fed (key @ salt @ key) ?a0"
    using bytes_fed [OF bytes_fed [OF bytes_fed [OF init_fed]]] assms by fastforce
  then obtain ac where ac: "ctx_finish D ?a0 = (B, ac)" "ready ac" using finish_pair B_def by blast
  have spec: "H (key @ salt @ cycle (length key) B @ bit_texts B key (length key)) = spec_start H key salt"
    by (simp add: spec_start_def B_def bit_texts_concat Let_def)
  obtain c' where c': "ctx_finish D (add_key_bits D (alt_result_addr env) B kaddr key (length key)
      (add_alt_sum D n (alt_result_addr env) B (length key) ?c0)) = (spec_start H key salt, c')" "ready c'"
    using finish_pair [OF c] unfolding spec by blast
  show ?thesis
    unfolding start_digest_def Let_def ac(1) prod.case c'(1) using ac(2) c'(2) by blast
qed

lemma repeat_digest_spec:
  assumes "ready (alt_ctx sc)"
  shows "\<exists>ac. repeat_digest D k a d sc = sc\<lparr>alt_ctx := ac, temp_result := H (concat (replicate k d))\<rparr> \<and> ready ac"
  using finish_pair [OF bytes_again [OF init_fed [OF assms], where k = k and a = a and d = d]] by (auto simp: repeat_digest_def Let_def)

lemma round_digest_spec:
  assumes "ready c"
  shows "\<exists>c'. round_digest D (pa, P) (sa, S) (aa, alt) cnt c = (spec_round H P S cnt alt, c') \<and> ready c'"
proof -
  have opt: "fed (m @ (if b then d else [])) (if b then ctx_bytes D a d c else c)" if "fed m c" for m c b a d
    using bytes_fed [OF that] that by simp
  have two: "fed (m @ (if b then d else d')) (if b then ctx_bytes D a d c else ctx_bytes D a' d' c)" if "fed m c" for m c b a d a' d'
    using bytes_fed [OF that] by simp
  define c1 where "c1 = (if odd cnt then ctx_bytes D pa P (ctx_init D c) else ctx_bytes D aa alt (ctx_init D c))"
  define c2 where "c2 = (if cnt mod 3 \<noteq> 0 then ctx_bytes D sa S c1 else c1)"
  define c3 where "c3 = (if cnt mod 7 \<noteq> 0 then ctx_bytes D pa P c2 else c2)"
  define c4 where "c4 = (if odd cnt then ctx_bytes D aa alt c3 else ctx_bytes D pa P c3)"
  have "fed ([] @ (if odd cnt then P else alt)) c1"
    unfolding c1_def by (rule two [OF init_fed [OF assms]])
  from opt [OF this] have "fed (([] @ (if odd cnt then P else alt)) @ (if cnt mod 3 \<noteq> 0 then S else [])) c2"
    unfolding c2_def .
  from opt [OF this] have "fed ((([] @ (if odd cnt then P else alt)) @ (if cnt mod 3 \<noteq> 0 then S else [])) @
      (if cnt mod 7 \<noteq> 0 then P else [])) c3"
    unfolding c3_def .
  from two [OF this] have "fed (((([] @ (if odd cnt then P else alt)) @ (if cnt mod 3 \<noteq> 0 then S else [])) @
      (if cnt mod 7 \<noteq> 0 then P else [])) @ (if odd cnt then alt else P)) c4"
    unfolding c4_def .
  from finish_pair [OF this] obtain c' where "ctx_finish D c4 = (spec_round H P S cnt alt, c')" "ready c'"
    by (auto simp: spec_round_def)
  moreover have "round_digest D (pa, P) (sa, S) (aa, alt) cnt c = ctx_finish D c4"
    by (simp add: round_digest_def Let_def c4_def c3_def c2_def c1_def)
  ultimately show ?thesis by auto
qed

lemma crypt_round_spec:
  assumes "ready (ctx sc)"
  shows "\<exists>c. crypt_round D env cnt sc =
    sc\<lparr>ctx := c, alt_result := spec_round H (p_bytes sc) (s_bytes sc) cnt (alt_result sc)\<rparr> \<and> ready c"
proof -
  obtain c where "round_digest D (p_bytes_addr env, p_bytes sc) (s_bytes_addr env, s_bytes sc) (alt_result_addr env, alt_result sc)
      cnt (ctx sc) = (spec_round H (p_bytes sc) (s_bytes sc) cnt (alt_result sc), c)" "ready c"
    using round_digest_spec [OF assms] by blast
  then show ?thesis unfolding crypt_round_def Let_def by auto
qed

lemma rounds_spec:
  assumes "ready (ctx sc)"
  shows "alt_result (fold (crypt_round D env) cnts sc) = fold (spec_round H (p_bytes sc) (s_bytes sc)) cnts (alt_result sc)"
  using assms
proof (induction cnts arbitrary: sc)
  case (Cons cnt cnts)
  then show ?case using crypt_round_spec [of sc env cnt] by force
qed simp

lemma crypt_digest_spec:
  assumes sc: "prepared sc"
  shows "\<exists>sc'. crypt_digest D n env kaddr key saddr salt rounds sc = (p_bytes_ok env, sc') \<and>
    (p_bytes_ok env \<longrightarrow> alt_result sc' = sha_crypt_spec H key salt rounds)"
proof -
  define sc2 where "sc2 = repeat_digest D (length key) kaddr key (start_digest D n env kaddr key saddr salt sc)"
  define sc3 where "sc3 = sc2\<lparr>p_bytes := fill_bytes n (temp_result sc2) (length key)\<rparr>"
  define sc4 where "sc4 = repeat_digest D (16 + unat (alt_result sc3 ! 0)) saddr salt sc3"
  define sc5 where "sc5 = sc4\<lparr>s_bytes := fill_bytes n (temp_result sc4) (length salt)\<rparr>"
  define A where "A = spec_start H key salt"
  define P where "P = cycle (length key) (H (concat (replicate (length key) key)))"
  define S where "S = cycle (length salt) (H (concat (replicate (16 + unat (A ! 0)) salt)))"
  have code: "crypt_digest D n env kaddr key saddr salt rounds sc =
      (if p_bytes_ok env then (True, fold (crypt_round D env) [0..<rounds] sc5) else (False, sc2))"
    by (simp add: crypt_digest_def Let_def sc5_def sc4_def sc3_def sc2_def)
  obtain c ac where st: "start_digest D n env kaddr key saddr salt sc = sc\<lparr>ctx := c, alt_ctx := ac, alt_result := A\<rparr>"
      "ready c" "ready ac"
    using start_digest_spec [OF sc] unfolding A_def by blast
  obtain ac2 where sc2: "sc2 = sc\<lparr>ctx := c, alt_ctx := ac, alt_result := A\<rparr>
      \<lparr>alt_ctx := ac2, temp_result := H (concat (replicate (length key) key))\<rparr>" "ready ac2"
    using repeat_digest_spec [of "sc\<lparr>ctx := c, alt_ctx := ac, alt_result := A\<rparr>" "length key" kaddr key] st(3)
    unfolding sc2_def st(1) by auto
  have sc3: "p_bytes sc3 = P" "alt_result sc3 = A" "ready (alt_ctx sc3)" "ready (ctx sc3)"
    using st(2) sc2(2) by (simp_all add: sc3_def sc2(1) fill_bytes_cycle length_hash n_pos P_def)
  obtain ac4 where sc4: "sc4 = sc3\<lparr>alt_ctx := ac4, temp_result := H (concat (replicate (16 + unat (A ! 0)) salt))\<rparr>"
    using repeat_digest_spec [OF sc3(3)] unfolding sc4_def sc3(2) by blast
  have sc5: "p_bytes sc5 = P" "s_bytes sc5 = S" "alt_result sc5 = A" "ready (ctx sc5)"
    using sc3 by (simp_all add: sc5_def sc4 fill_bytes_cycle length_hash n_pos S_def)
  have "alt_result (fold (crypt_round D env) [0..<rounds] sc5) = sha_crypt_spec H key salt rounds"
    unfolding rounds_spec [OF sc5(4)] sc5(1-3) by (simp add: sha_crypt_spec_def P_def S_def A_def Let_def)
  then show ?thesis unfolding code by auto
qed

lemma sha_crypt_r_outcome:
  assumes al: "0 < al" and sc: "prepared sc" and N: "int (length buf) = buflen"
  shows "crypt_outcome (scrubbed D) (crypt_string H salt_prefix groups key salt0)
    (key_addr env mod al \<noteq> 0 \<and> \<not> key_tmp_ok env \<or> \<not> p_bytes_ok env) buf
    (sha_crypt_r D n al salt_prefix groups env key salt0 buf buflen sc)"
proof -
  obtain rounds custom rest where parse: "parse_salt salt_prefix salt0 = (rounds, custom, rest)"
    by (cases "parse_salt salt_prefix salt0") auto
  define salt where "salt = take (salt_length rest) rest"
  let ?s = "crypt_string H salt_prefix groups key salt0"
  obtain kaddr sc1 where k: "copy_key al env key sc = (kaddr, sc1)" by (cases "copy_key al env key sc")
  obtain saddr sc2 where s: "copy_salt al env (salt_addr env + (length salt0 - length rest)) salt sc1 = (saddr, sc2)"
    by (cases "copy_salt al env (salt_addr env + (length salt0 - length rest)) salt sc1")
  have aligned: "kaddr mod al = 0" "saddr mod al = 0" and sc2: "prepared sc2"
    using copies_aligned(1) [OF al k] copies_aligned(2) [OF al s] sc by auto
  obtain sc3 where d: "crypt_digest D n env kaddr key saddr salt rounds sc2 = (p_bytes_ok env, sc3)"
      "p_bytes_ok env \<longrightarrow> alt_result sc3 = sha_crypt_spec H key salt rounds"
    using crypt_digest_spec [OF sc2] by blast
  let ?w = "write_result salt_prefix groups (if custom then Some rounds else None) salt (alt_result sc3) buf buflen"
  have code: "sha_crypt_r D n al salt_prefix groups env key salt0 buf buflen sc =
      (if key_addr env mod al \<noteq> 0 \<and> \<not> key_tmp_ok env then Some (NULL_ENOMEM, buf, sc\<lparr>copied_key := None, copied_salt := None\<rparr>)
       else if \<not> p_bytes_ok env then Some (NULL_ENOMEM, buf, sc3)
       else do { (fits, buf) \<leftarrow> ?w; Some (if fits then RESULT else NULL_ERANGE, buf, clear_scratch D sc3) })"
    using aligned by (simp add: sha_crypt_r_def parse k s d(1) Let_def flip: salt_def)
  show ?thesis
  proof (cases "key_addr env mod al \<noteq> 0 \<and> \<not> key_tmp_ok env \<or> \<not> p_bytes_ok env")
    case True
    then show ?thesis unfolding code crypt_outcome_def by auto
  next
    case False
    then have str: "?s = result_string salt_prefix groups (if custom then Some rounds else None) salt (alt_result sc3)"
      using d(2) by (simp add: crypt_string_def parse flip: salt_def)
    obtain buf' where w: "?w = Some (length ?s < length buf, buf')" "length buf' = length buf"
        "length ?s < length buf \<longrightarrow> take (Suc (length ?s)) buf' = ?s @ [0]"
      using write_result_correct [of buf "length buf"] unfolding N str by blast
    then show ?thesis
      using False scrubbed_clear unfolding code w(1) crypt_outcome_def by auto
  qed
qed

end

text \<open>Surroundings for the witnesses: an unaligned key, and memory for everything.\<close>

definition plain_env :: crypt_env where
  "plain_env = \<lparr>key_addr = 3, salt_addr = 8, key_tmp = 17, key_tmp_ok = True, salt_tmp = 5, alt_result_addr = 16,
     p_bytes_addr = 7, p_bytes_ok = True, s_bytes_addr = 9\<rparr>"

end
