(* ===== verification/Sha256_Crypt.thy ===== *)
theory Sha256_Crypt
  imports Sha256 Sha_Crypt
begin

text \<open>
  The password hash of crypt/sha256-crypt.c: the SHA-256 functions provide the digest, and the
  contract of the generic function is proved for them.
\<close>

definition sha256_ops :: "bool \<Rightarrow> sha256_ctx digest_ops" where
  "sha256_ops sau = \<lparr>ctx_init = sha256_init_ctx, ctx_bytes = sha256_process_bytes sau, ctx_finish = sha256_finish_ctx sau,
     ctx_zero = \<lparr>buflen = 0, buffer = replicate 128 0, sha256_H = replicate 8 0, total64 = 0\<rparr>\<rparr>"

definition sha256_salt_prefix :: "byte list" where
  "sha256_salt_prefix = [0x24, 0x35, 0x24]"

definition sha256_groups :: "b64_group list" where
  "sha256_groups =
     [(Some 0, Some 10, Some 20, 4), (Some 21, Some 1, Some 11, 4), (Some 12, Some 22, Some 2, 4),
      (Some 3, Some 13, Some 23, 4), (Some 24, Some 4, Some 14, 4), (Some 15, Some 25, Some 5, 4),
      (Some 6, Some 16, Some 26, 4), (Some 27, Some 7, Some 17, 4), (Some 18, Some 28, Some 8, 4),
      (Some 9, Some 19, Some 29, 4), (None, Some 31, Some 30, 3)]"

definition sha256_crypt_r ::
  "bool \<Rightarrow> crypt_env \<Rightarrow> byte list \<Rightarrow> byte list \<Rightarrow> byte list \<Rightarrow> int \<Rightarrow> sha256_ctx sha_scratch
     \<Rightarrow> (crypt_ret \<times> byte list \<times> sha256_ctx sha_scratch) option" where
  "sha256_crypt_r sau = sha_crypt_r (sha256_ops sau) 32 4 sha256_salt_prefix sha256_groups"

definition sha256_crypt ::
  "bool \<Rightarrow> (byte list \<Rightarrow> int \<Rightarrow> byte list option) \<Rightarrow> crypt_env \<Rightarrow> byte list \<Rightarrow> byte list \<Rightarrow> byte list \<times> int
     \<Rightarrow> sha256_ctx sha_scratch \<Rightarrow> (crypt_ret \<times> (byte list \<times> int) \<times> sha256_ctx sha_scratch) option" where
  "sha256_crypt sau = sha_crypt (sha256_ops sau) 32 4 sha256_salt_prefix sha256_groups 43"

lemma length_sha256_ref: "length (sha256_ref m) = 32"
proof -
  have "length (words8_list hv) = 8" for hv by (cases hv rule: words8_list.cases) simp
  then show ?thesis by (simp add: sha256_ref_def length_concat comp_def sum_list_triv)
qed

lemma sha256_finish_buffer:
  assumes "length (buffer c) = 128" "buflen c \<le> 64"
  shows "length (buffer (snd (sha256_finish_ctx sau c))) = 128"
proof -
  define pad where "pad = finish_pad 64 8 (buflen c)"
  have pad: "buflen c + pad = 56 \<or> buflen c + pad = 120" "pad \<le> 64"
    using finish_pad_total [of 8 64 "buflen c"] assms(2) by (auto simp: pad_def)
  have len: "length (take pad fillbuf) = pad" using pad(2) by (simp add: fillbuf_def)
  have fp: "(if 56 \<le> buflen c then 64 + 56 - buflen c else 56 - buflen c) = pad"
    by (simp add: pad_def finish_pad_def)
  show ?thesis
    using pad(1) assms(1) len
    unfolding sha256_finish_ctx_def Let_def fp
    by (cases sau) (auto simp: length_blit)
qed

interpretation sha256_crypt: incremental_digest "sha256_ops sau" 32 sha256_ref sha256_absorbed "\<lambda>c. length (buffer c) = 128" for sau
proof
  show "length (buffer c) = 128 \<Longrightarrow> sha256_absorbed [] (ctx_init (sha256_ops sau) c)" for c
    using sha256_init_absorbed [of c] by (simp add: sha256_ops_def)
  show "sha256_absorbed m c \<Longrightarrow> fst (ctx_finish (sha256_ops sau) c) = sha256_ref m" for m c
    using sha256_finish_digest [of m c sau] by (simp add: sha256_ops_def)
  show "sha256_absorbed m c \<Longrightarrow> sha256_absorbed (m @ d) (ctx_bytes (sha256_ops sau) a d c)" for m c d a
    using sha256.process_bytes_absorbed [of m c d 4 sau a] by (simp add: sha256_ops_def sha256_process_bytes_def)
  show "sha256_absorbed m c \<Longrightarrow> length (buffer (snd (ctx_finish (sha256_ops sau) c))) = 128" for m c
    using sha256_finish_buffer [of c sau] by (simp add: sha256_ops_def absorbed_def Let_def)
qed (simp_all add: length_sha256_ref)

text \<open>C9. The SHA-256 password hash: with any alignment of key, salt and local memory,
  \<open>__sha256_crypt_r\<close> stores nothing outside the buffer of the size it is given. When no allocation
  fails, the buffer receives the terminated string of the published algorithm (prefix, rounds when
  given, salt and the digest in base 64) when it fits, the call fails with \<open>ERANGE\<close> when it does
  not, and both times contexts, copies and intermediate sequences are cleared.\<close>

theorem sha256_crypt_r_correct:
  assumes "length (buffer (ctx sc)) = 128" "length (buffer (alt_ctx sc)) = 128"
  shows "crypt_outcome (scrubbed (sha256_ops sau)) (crypt_string sha256_ref sha256_salt_prefix sha256_groups key salt)
    (key_addr env mod 4 \<noteq> 0 \<and> \<not> key_tmp_ok env \<or> \<not> p_bytes_ok env) buf
    (sha256_crypt_r sau env key salt buf (int (length buf)) sc)"
  unfolding sha256_crypt_r_def using assms by (intro sha256_crypt.sha_crypt_r_outcome) simp_all

definition fresh_sha256_scratch :: "sha256_ctx sha_scratch" where
  "fresh_sha256_scratch = \<lparr>ctx = fresh_sha256_ctx, alt_ctx = fresh_sha256_ctx, alt_result = [],
     copied_key = None, copied_salt = None, temp_result = [], p_bytes = [], s_bytes = []\<rparr>"

lemma sha256_crypt_r_correct_witness:
  "length (buffer (ctx fresh_sha256_scratch)) = 128 \<and>
   crypt_outcome (scrubbed (sha256_ops True)) (crypt_string sha256_ref sha256_salt_prefix sha256_groups [112, 119] [0x24, 0x35, 0x24, 97])
     False (replicate 80 1) (sha256_crypt_r True plain_env [112, 119] [0x24, 0x35, 0x24, 97] (replicate 80 1) 80 fresh_sha256_scratch)"
  using sha256_crypt_r_correct [of fresh_sha256_scratch True "[112, 119]" "[0x24, 0x35, 0x24, 97]" plain_env "replicate 80 1"]
  by (simp add: fresh_sha256_scratch_def fresh_sha256_ctx_def plain_env_def)

end
