(* ===== verification/Sha512_Crypt.thy ===== *)
theory Sha512_Crypt
  imports Sha512 Sha_Crypt
begin

text \<open>
  The password hash of crypt/sha512-crypt.c: the SHA-512 functions provide the digest, and the
  contract of the generic function is proved for them.
\<close>

definition sha512_ops :: "bool \<Rightarrow> bool \<Rightarrow> sha512_ctx digest_ops" where
  "sha512_ops u128 sau = \<lparr>ctx_init = sha512_init_ctx, ctx_bytes = sha512_process_bytes u128 sau, ctx_finish = sha512_finish_ctx u128,
     ctx_zero = \<lparr>buflen = 0, buffer = replicate 256 0, sha512_H = replicate 8 0, total_lo = 0, total_hi = 0\<rparr>\<rparr>"

definition sha512_salt_prefix :: "byte list" where
  "sha512_salt_prefix = [0x24, 0x36, 0x24]"

definition sha512_groups :: "b64_group list" where
  "sha512_groups =
     [(Some 0, Some 21, Some 42, 4), (Some 22, Some 43, Some 1, 4), (Some 44, Some 2, Some 23, 4),
      (Some 3, Some 24, Some 45, 4), (Some 25, Some 46, Some 4, 4), (Some 47, Some 5, Some 26, 4),
      (Some 6, Some 27, Some 48, 4), (Some 28, Some 49, Some 7, 4), (Some 50, Some 8, Some 29, 4),
      (Some 9, Some 30, Some 51, 4), (Some 31, Some 52, Some 10, 4), (Some 53, Some 11, Some 32, 4),
      (Some 12, Some 33, Some 54, 4), (Some 34, Some 55, Some 13, 4), (Some 56, Some 14, Some 35, 4),
      (Some 15, Some 36, Some 57, 4), (Some 37, Some 58, Some 16, 4), (Some 59, Some 17, Some 38, 4),
      (Some 18, Some 39, Some 60, 4), (Some 40, Some 61, Some 19, 4), (Some 62, Some 20, Some 41, 4),
      (None, None, Some 63, 2)]"

definition sha512_crypt_r ::
  "bool \<Rightarrow> bool \<Rightarrow> crypt_env \<Rightarrow> byte list \<Rightarrow> byte list \<Rightarrow> byte list \<Rightarrow> int \<Rightarrow> sha512_ctx sha_scratch
     \<Rightarrow> (crypt_ret \<times> byte list \<times> sha512_ctx sha_scratch) option" where
  "sha512_crypt_r u128 sau = sha_crypt_r (sha512_ops u128 sau) 64 8 sha512_salt_prefix sha512_groups"

definition sha512_crypt ::
  "bool \<Rightarrow> bool \<Rightarrow> (byte list \<Rightarrow> int \<Rightarrow> byte list option) \<Rightarrow> crypt_env \<Rightarrow> byte list \<Rightarrow> byte list \<Rightarrow> byte list \<times> int
     \<Rightarrow> sha512_ctx sha_scratch \<Rightarrow> (crypt_ret \<times> (byte list \<times> int) \<times> sha512_ctx sha_scratch) option" where
  "sha512_crypt u128 sau = sha_crypt (sha512_ops u128 sau) 64 8 sha512_salt_prefix sha512_groups 86"

lemma length_sha512_ref: "length (sha512_ref m) = 64"
proof -
  have "length (words8_list hv) = 8" for hv by (cases hv rule: words8_list.cases) simp
  then show ?thesis by (simp add: sha512_ref_def length_concat comp_def sum_list_triv)
qed

lemma sha512_finish_buffer:
  assumes "length (buffer c) = 256" "buflen c \<le> 128"
  shows "length (buffer (snd (sha512_finish_ctx u128 c))) = 256"
proof -
  define pad where "pad = finish_pad 128 16 (buflen c)"
  have pad: "buflen c + pad = 112 \<or> buflen c + pad = 240" "pad \<le> 128"
    using finish_pad_total [of 16 128 "buflen c"] assms(2) by (auto simp: pad_def)
  have len: "length (take pad fillbuf) = pad" using pad(2) by (simp add: fillbuf_def)
  have fp: "(if 112 \<le> buflen c then 128 + 112 - buflen c else 112 - buflen c) = pad"
    by (simp add: pad_def finish_pad_def)
  show ?thesis
    using pad(1) assms(1) len
    unfolding sha512_finish_ctx_def Let_def fp
    by (cases u128) (auto simp: length_blit)
qed

interpretation sha512_crypt: incremental_digest "sha512_ops u128 sau" 64 sha512_ref sha512_absorbed "\<lambda>c. length (buffer c) = 256" for u128 sau
proof
  show "length (buffer c) = 256 \<Longrightarrow> sha512_absorbed [] (ctx_init (sha512_ops u128 sau) c)" for c
    using sha512_init_absorbed [of c] by (simp add: sha512_ops_def)
  show "sha512_absorbed m c \<Longrightarrow> fst (ctx_finish (sha512_ops u128 sau) c) = sha512_ref m" for m c
    using sha512_finish_digest [of m c u128] by (simp add: sha512_ops_def)
  show "sha512_absorbed m c \<Longrightarrow> sha512_absorbed (m @ d) (ctx_bytes (sha512_ops u128 sau) a d c)" for m c d a
    unfolding sha512_ops_def sha512_process_bytes_def digest_ops.select_convs by (rule sha512.process_bytes_absorbed)
  show "sha512_absorbed m c \<Longrightarrow> length (buffer (snd (ctx_finish (sha512_ops u128 sau) c))) = 256" for m c
    using sha512_finish_buffer [of c u128] by (simp add: sha512_ops_def absorbed_def Let_def)
qed (simp_all add: length_sha512_ref)

text \<open>The SHA-512 password hash: with any alignment of key, salt and local memory,
  \<open>__sha512_crypt_r\<close> stores nothing outside the buffer of the size it is given. When no allocation
  fails, the buffer receives the terminated string of the published algorithm (prefix, rounds when
  given, salt and the digest in base 64) when it fits, the call fails with \<open>ERANGE\<close> when it does
  not, and both times contexts, copies and intermediate sequences are cleared.\<close>

theorem sha512_crypt_r_correct:
  assumes "length (buffer (ctx sc)) = 256" "length (buffer (alt_ctx sc)) = 256"
  shows "crypt_outcome (scrubbed (sha512_ops u128 sau)) (crypt_string sha512_ref sha512_salt_prefix sha512_groups key salt)
    (key_addr env mod 8 \<noteq> 0 \<and> \<not> key_tmp_ok env \<or> \<not> p_bytes_ok env) buf
    (sha512_crypt_r u128 sau env key salt buf (int (length buf)) sc)"
  unfolding sha512_crypt_r_def using assms by (intro sha512_crypt.sha_crypt_r_outcome) simp_all

definition fresh_sha512_scratch :: "sha512_ctx sha_scratch" where
  "fresh_sha512_scratch = \<lparr>ctx = fresh_sha512_ctx, alt_ctx = fresh_sha512_ctx, alt_result = [],
     copied_key = None, copied_salt = None, temp_result = [], p_bytes = [], s_bytes = []\<rparr>"

lemma sha512_crypt_r_correct_witness:
  "length (buffer (ctx fresh_sha512_scratch)) = 256 \<and>
   crypt_outcome (scrubbed (sha512_ops True False)) (crypt_string sha512_ref sha512_salt_prefix sha512_groups [112, 119] [0x24, 0x36, 0x24, 97])
     False (replicate 80 1) (sha512_crypt_r True False plain_env [112, 119] [0x24, 0x36, 0x24, 97] (replicate 80 1) 80 fresh_sha512_scratch)"
  using sha512_crypt_r_correct [of fresh_sha512_scratch True False "[112, 119]" "[0x24, 0x36, 0x24, 97]" plain_env "replicate 80 1"]
  by (simp add: fresh_sha512_scratch_def fresh_sha512_ctx_def plain_env_def)

end
