(* ===== verification/Crypt_Verify.thy ===== *)
theory Crypt_Verify
  imports Sha256_Crypt Sha512_Crypt "HOL-Library.Sublist"
begin

text \<open>
  What the strings of the password hashes are good for: a stored result is passed back as the salt
  to verify a password. The shape of the result, when it reads back as the salt it was made with,
  and the size of the buffer that the non-reentrant functions allocate.
\<close>

section \<open>Decimal numbers\<close>

lemma decimal_digits: "\<forall>d \<in> set (decimal n). isdigit d" "decimal n \<noteq> []"
proof -
  show "\<forall>d \<in> set (decimal n). isdigit d"
  proof (induction n rule: decimal.induct)
    case (1 n)
    have "isdigit (word_of_nat (48 + n mod 10))"
      by (simp only: isdigit_def unat_word_of_nat_mod) simp
    with 1 show ?case by (subst decimal.simps) (auto simp del: of_nat_add)
  qed
  show "decimal n \<noteq> []" by (subst decimal.simps) simp
qed

lemma digits_val_snoc: "digits_val (ds @ [d]) = 10 * digits_val ds + (unat d - 48)"
  by (simp add: digits_val_def)

lemma digits_val_decimal: "digits_val (decimal n) = n"
proof (induction n rule: decimal.induct)
  case (1 n)
  have "unat (word_of_nat (48 + n mod 10) :: byte) = 48 + n mod 10"
    by (simp only: unat_word_of_nat_mod) simp
  then have "unat (word_of_nat (48 + n mod 10) :: byte) - 48 = n mod 10" by linarith
  then show ?case
    using 1 by (subst decimal.simps) (auto simp: digits_val_snoc digits_val_def simp del: of_nat_add)
qed

lemma length_decimal: "n < 10 ^ Suc k \<Longrightarrow> length (decimal n) \<le> Suc k"
proof (induction k arbitrary: n)
  case 0
  then show ?case by (subst decimal.simps) simp
next
  case (Suc k)
  then have "n div 10 < 10 ^ Suc k" by (simp add: div_less_iff_less_mult mult.commute)
  then show ?case using Suc.IH [of "n div 10"] by (subst decimal.simps) simp
qed

section \<open>Reading the salt back\<close>

lemma strtoul_decimal:
  assumes "n < 2 ^ 64"
  shows "strtoul_10 (decimal n @ dollar # rest) = (n, dollar # rest)"
proof -
  obtain d ds where d: "decimal n = d # ds" using decimal_digits(2) by (cases "decimal n") auto
  have dig: "isdigit d" using decimal_digits(1) [of n] d by simp
  then have "\<not> isspace d" "d \<noteq> 0x2d" "d \<noteq> 0x2b" by (auto simp: isdigit_def isspace_def)
  moreover have "\<not> isdigit dollar" by (simp add: isdigit_def dollar_def)
  then have "takeWhile isdigit (decimal n @ dollar # rest) = decimal n" "dropWhile isdigit (decimal n @ dollar # rest) = dollar # rest"
    using decimal_digits(1) [of n] by (auto simp: takeWhile_append2 dropWhile_append2)
  ultimately show ?thesis
    using assms digits_val_decimal [of n] unfolding strtoul_10_def d by (auto simp: Let_def)
qed

lemma suffix_tail:
  assumes "dropWhile Q xs = a # ys"
  shows "suffix (dropWhile P ys) xs"
proof -
  have "suffix (a # ys) xs" using suffix_dropWhile [of Q xs] assms by simp
  moreover have "suffix (dropWhile P ys) (a # ys)" using suffix_dropWhile [of P ys] by (rule suffix_ConsI)
  ultimately show ?thesis by (rule suffix_order.trans [rotated])
qed

lemma strtoul_suffix: "suffix (snd (strtoul_10 xs)) xs"
proof -
  have "suffix (dropWhile isdigit (dropWhile isspace xs)) xs"
    by (rule suffix_order.trans [OF suffix_dropWhile suffix_dropWhile])
  then show ?thesis by (auto simp: strtoul_10_def Let_def suffix_tail split: list.splits)
qed

lemma parse_salt_shape:
  assumes "parse_salt p s = (rounds, custom, rest)"
  shows "suffix rest s" "1000 \<le> rounds" "rounds \<le> 999999999" "\<not> custom \<Longrightarrow> rounds = 5000"
proof -
  let ?s = "if take (length p) s = p then drop (length p) s else s"
  have s: "suffix ?s s" by (simp add: suffix_drop)
  have num: "suffix (tl (snd (strtoul_10 (drop (length rounds_prefix) ?s)))) ?s"
    using suffix_order.trans [OF suffix_tl suffix_order.trans [OF strtoul_suffix suffix_drop]] .
  have "rest = ?s \<or> rest = tl (snd (strtoul_10 (drop (length rounds_prefix) ?s)))"
    using assms unfolding parse_salt_def Let_def by (auto split: if_splits prod.splits)
  then show "suffix rest s"
    using s suffix_order.trans [OF num s] by blast
  show "1000 \<le> rounds" "rounds \<le> 999999999" "\<not> custom \<Longrightarrow> rounds = 5000"
    using assms by (auto simp: parse_salt_def Let_def split: if_splits prod.splits)
qed

text \<open>A result reads back with the rounds and the salt it was made with: always when the rounds are
  printed, and otherwise unless the salt looks like a number of rounds.\<close>

lemma salt_length_append:
  assumes "dollar \<notin> set salt" "length salt \<le> 16"
  shows "take (salt_length (salt @ dollar # xs)) (salt @ dollar # xs) = salt"
proof -
  have "takeWhile (\<lambda>c. c \<noteq> dollar) (salt @ dollar # xs) = salt"
    using assms(1) by (subst takeWhile_append2) auto
  then show ?thesis using assms(2) by (simp add: salt_length_def)
qed

lemma salt_no_dollar:
  "dollar \<notin> set (take (salt_length s) s)" "length (take (salt_length s) s) \<le> 16" "length (take (salt_length s) s) \<le> length s"
proof -
  have "take (salt_length s) s = take 16 (take (length (takeWhile (\<lambda>c. c \<noteq> dollar) s)) s)"
    by (simp add: salt_length_def min.commute)
  then have "take (salt_length s) s = take 16 (takeWhile (\<lambda>c. c \<noteq> dollar) s)"
    by (simp only: takeWhile_eq_take [symmetric])
  then show "dollar \<notin> set (take (salt_length s) s)" by (auto dest: in_set_takeD set_takeWhileD)
qed (simp_all add: salt_length_def)

lemma rounds_prefix_append:
  assumes "take (length rounds_prefix) salt \<noteq> rounds_prefix"
  shows "take (length rounds_prefix) (salt @ dollar # xs) \<noteq> rounds_prefix"
proof
  assume eq: "take (length rounds_prefix) (salt @ dollar # xs) = rounds_prefix"
  show False
  proof (cases "length rounds_prefix \<le> length salt")
    case True
    then show False using eq assms by simp
  next
    case False
    then have "dollar \<in> set (take (length rounds_prefix) (salt @ dollar # xs))"
      by (auto simp: take_Cons' not_le)
    then show False unfolding eq by (simp add: rounds_prefix_def dollar_def)
  qed
qed

definition stable_salt :: "byte list \<Rightarrow> byte list \<Rightarrow> bool" where
  "stable_salt p s \<longleftrightarrow>
     (case parse_salt p s of (rounds, custom, rest) \<Rightarrow>
        custom \<or> take (length rounds_prefix) (take (salt_length rest) rest) \<noteq> rounds_prefix)"

lemma parse_result:
  assumes "parse_salt p s = (rounds, custom, rest)" "stable_salt p s"
  defines "salt \<equiv> take (salt_length rest) rest"
  shows "parse_salt p (result_string p groups (if custom then Some rounds else None) salt digest) =
    (rounds, custom, salt @ dollar # concat (map (group_text digest) groups))"
proof (cases custom)
  case True
  let ?xs = "salt @ dollar # concat (map (group_text digest) groups)"
  have "rounds < 2 ^ 64" using parse_salt_shape(3) [OF assms(1)] by simp
  then show ?thesis
    using True strtoul_decimal [of rounds ?xs] parse_salt_shape(2,3) [OF assms(1)]
    by (simp add: parse_salt_def result_string_def Let_def)
next
  case False
  then have "take (length rounds_prefix) (salt @ dollar # concat (map (group_text digest) groups)) \<noteq> rounds_prefix"
    using assms(2) by (intro rounds_prefix_append) (simp add: stable_salt_def assms(1) salt_def)
  then show ?thesis
    using False parse_salt_shape(4) [OF assms(1)] by (simp add: parse_salt_def result_string_def Let_def)
qed

lemma crypt_string_again:
  assumes "stable_salt p s"
  shows "crypt_string H p groups key (crypt_string H p groups key' s) = crypt_string H p groups key s"
proof -
  obtain rounds custom rest where parse: "parse_salt p s = (rounds, custom, rest)" by (cases "parse_salt p s") auto
  let ?salt = "take (salt_length rest) rest"
  define r where "r = result_string p groups (if custom then Some rounds else None) ?salt (sha_crypt_spec H key' ?salt rounds)"
  have first: "crypt_string H p groups key' s = r"
    by (simp add: crypt_string_def parse r_def Let_def)
  have again: "parse_salt p r = (rounds, custom, ?salt @ dollar # concat (map (group_text (sha_crypt_spec H key' ?salt rounds)) groups))"
    unfolding r_def by (rule parse_result [OF parse assms])
  have "crypt_string H p groups key r = crypt_string H p groups key s"
    unfolding crypt_string_def again parse by (simp only: salt_length_append [OF salt_no_dollar(1,2)] Let_def prod.case)
  then show ?thesis unfolding first .
qed

section \<open>The shape of the result\<close>

lemma length_b64_text [simp]: "length (b64_text n w) = n"
  by (induction n arbitrary: w) simp_all

definition group_width :: "b64_group \<Rightarrow> nat" where
  "group_width g = (case g of (_, _, _, n) \<Rightarrow> n)"

lemma length_groups: "length (concat (map (group_text d) groups)) = sum_list (map group_width groups)"
  by (induction groups) (auto simp: group_text_def group_width_def split: prod.split)

lemma b64t_chars: "length b64t = 64" "\<forall>c \<in> set b64t. c \<noteq> 0 \<and> c \<noteq> dollar"
  by (simp_all add: b64t_def dollar_def upt_rec)

lemma b64_text_chars: "set (b64_text n w) \<subseteq> set b64t"
proof (induction n arbitrary: w)
  case (Suc n)
  have "b64t ! (w mod 64) \<in> set b64t" by (rule nth_mem) (simp add: b64t_chars(1))
  with Suc show ?case by simp
qed simp

lemma crypt_string_length:
  assumes "parse_salt p s = (rounds, custom, rest)"
  shows "length (crypt_string H p groups key s) =
    length p + (if custom then 8 + length (decimal rounds) else 0) + length (take (salt_length rest) rest) + 1 + sum_list (map group_width groups)"
    and "length (crypt_string H p groups key s) \<le> length p + 17 + length s + 1 + sum_list (map group_width groups)"
proof -
  show len: "length (crypt_string H p groups key s) =
    length p + (if custom then 8 + length (decimal rounds) else 0) + length (take (salt_length rest) rest) + 1 + sum_list (map group_width groups)"
    by (simp add: crypt_string_def assms result_string_def length_groups rounds_prefix_def Let_def)
  have "length (decimal rounds) \<le> 9"
    using length_decimal [of rounds 8] parse_salt_shape(3) [OF assms] by simp
  moreover have "length (take (salt_length rest) rest) \<le> length s"
    using salt_no_dollar(3) [of rest] suffix_length_le [OF parse_salt_shape(1) [OF assms]] by linarith
  ultimately show "length (crypt_string H p groups key s) \<le> length p + 17 + length s + 1 + sum_list (map group_width groups)"
    unfolding len by simp
qed

lemma crypt_string_chars:
  assumes "0 \<notin> set p" "0 \<notin> set s"
  shows "0 \<notin> set (crypt_string H p groups key s)"
proof -
  obtain rounds custom rest where parse: "parse_salt p s = (rounds, custom, rest)" by (cases "parse_salt p s") auto
  have "0 \<notin> set (take (salt_length rest) rest)"
    using set_mono_suffix [OF parse_salt_shape(1) [OF parse]] assms(2) by (auto dest: in_set_takeD)
  moreover have "0 \<notin> set (decimal rounds)" using decimal_digits(1) [of rounds] by (auto simp: isdigit_def)
  moreover have "0 \<notin> set (group_text d g)" for d g
    using b64_text_chars b64t_chars(2) by (auto simp: group_text_def split: prod.splits)
  ultimately show ?thesis
    using assms(1) by (auto simp: crypt_string_def parse result_string_def rounds_prefix_def dollar_def Let_def)
qed

section \<open>Calls that succeed\<close>

text \<open>The string in a buffer.\<close>

definition cstring :: "byte list \<Rightarrow> byte list" where
  "cstring buf = takeWhile (\<lambda>c. c \<noteq> 0) buf"

lemma cstring_terminated:
  assumes "take (Suc (length s)) buf = s @ [0]" "0 \<notin> set s"
  shows "cstring buf = s"
proof -
  have "buf = (s @ [0]) @ drop (Suc (length s)) buf"
    using assms(1) append_take_drop_id [of "Suc (length s)" buf] by simp
  then have "cstring buf = takeWhile (\<lambda>c. c \<noteq> 0) (s @ 0 # drop (Suc (length s)) buf)"
    unfolding cstring_def by simp
  then show ?thesis using assms(2) by (subst (asm) takeWhile_append2) auto
qed

lemma outcome_result:
  assumes "crypt_outcome cleared s False buf res" "length s < length buf" "0 \<notin> set s"
  shows "\<exists>buf' sc. res = Some (RESULT, buf', sc) \<and> cstring buf' = s \<and> length buf' = length buf \<and> cleared sc"
  using assms cstring_terminated [of s] by (auto simp: crypt_outcome_def)

lemma group_widths: "sum_list (map group_width sha256_groups) = 43" "sum_list (map group_width sha512_groups) = 86"
  by (simp_all add: sha256_groups_def sha512_groups_def group_width_def)

lemma sha256_string:
  "length (crypt_string H sha256_salt_prefix sha256_groups key salt) \<le> length salt + 64"
  "0 \<notin> set salt \<Longrightarrow> 0 \<notin> set (crypt_string H sha256_salt_prefix sha256_groups key salt)"
proof -
  obtain rounds custom rest where "parse_salt sha256_salt_prefix salt = (rounds, custom, rest)"
    by (cases "parse_salt sha256_salt_prefix salt") auto
  then show "length (crypt_string H sha256_salt_prefix sha256_groups key salt) \<le> length salt + 64"
    using crypt_string_length(2) [of sha256_salt_prefix salt rounds custom rest H sha256_groups key]
    by (simp add: group_widths sha256_salt_prefix_def)
qed (simp add: crypt_string_chars sha256_salt_prefix_def)

lemma sha256_crypt_r_result:
  assumes "length (buffer (ctx sc)) = 128" "length (buffer (alt_ctx sc)) = 128" "key_tmp_ok env" "p_bytes_ok env"
    and "0 \<notin> set salt" "length (crypt_string sha256_ref sha256_salt_prefix sha256_groups key salt) < length buf"
  shows "\<exists>buf' sc'. sha256_crypt_r sau env key salt buf (int (length buf)) sc = Some (RESULT, buf', sc') \<and>
    cstring buf' = crypt_string sha256_ref sha256_salt_prefix sha256_groups key salt"
proof -
  have "crypt_outcome (scrubbed (sha256_ops sau)) (crypt_string sha256_ref sha256_salt_prefix sha256_groups key salt) False buf
      (sha256_crypt_r sau env key salt buf (int (length buf)) sc)"
    using sha256_crypt.sha_crypt_r_outcome [of 4 sc buf "int (length buf)" sau sha256_salt_prefix sha256_groups key salt env] assms
    by (simp add: sha256_crypt_r_def)
  then show ?thesis
    using outcome_result assms(6) sha256_string(2) [OF assms(5)] by blast
qed

section \<open>The properties\<close>

text \<open>C10. Verifying a password: the string \<open>__sha256_crypt_r\<close> returns for a salt works as a salt in
  its place. A second call with it and the same key returns the same string, and with another key
  the string that the original salt gives with that key, unless the salt has no valid number of
  rounds and nevertheless begins with \<open>rounds=\<close>.\<close>

theorem sha256_crypt_verifies:
  assumes "length (buffer (ctx sc)) = 128" "length (buffer (alt_ctx sc)) = 128" "key_tmp_ok env" "p_bytes_ok env"
    and "0 \<notin> set salt" "stable_salt sha256_salt_prefix salt" "length salt + 64 < length buf"
  shows "\<exists>buf1 sc1 buf2 sc2 buf3 sc3.
    sha256_crypt_r sau env key salt buf (int (length buf)) sc = Some (RESULT, buf1, sc1) \<and>
    sha256_crypt_r sau env key' salt buf (int (length buf)) sc = Some (RESULT, buf2, sc2) \<and>
    sha256_crypt_r sau env key' (cstring buf1) buf (int (length buf)) sc = Some (RESULT, buf3, sc3) \<and>
    cstring buf3 = cstring buf2 \<and> (key' = key \<longrightarrow> cstring buf3 = cstring buf1)"
proof -
  let ?s = "\<lambda>k s. crypt_string sha256_ref sha256_salt_prefix sha256_groups k s"
  have len: "length (?s k salt) < length buf" for k using sha256_string(1) assms(7) by (rule le_less_trans)
  have again: "?s key' (?s key salt) = ?s key' salt" by (rule crypt_string_again [OF assms(6)])
  obtain buf1 sc1 where 1: "sha256_crypt_r sau env key salt buf (int (length buf)) sc = Some (RESULT, buf1, sc1)" "cstring buf1 = ?s key salt"
    using sha256_crypt_r_result [OF assms(1-5) len] by blast
  obtain buf2 sc2 where 2: "sha256_crypt_r sau env key' salt buf (int (length buf)) sc = Some (RESULT, buf2, sc2)" "cstring buf2 = ?s key' salt"
    using sha256_crypt_r_result [OF assms(1-5) len] by blast
  have "length (?s key' (?s key salt)) < length buf" unfolding again by (rule len)
  then obtain buf3 sc3 where 3: "sha256_crypt_r sau env key' (cstring buf1) buf (int (length buf)) sc = Some (RESULT, buf3, sc3)"
      "cstring buf3 = ?s key' (?s key salt)"
    using sha256_crypt_r_result [OF assms(1-4) sha256_string(2) [OF assms(5)]] unfolding 1(2) by blast
  have "cstring buf3 = cstring buf2" using 2(2) 3(2) again by simp
  moreover have "key' = key \<longrightarrow> cstring buf3 = cstring buf1" using 1(2) 3(2) again by auto
  ultimately show ?thesis using 1(1) 2(1) 3(1) by blast
qed

lemma sha256_crypt_verifies_witness:
  "stable_salt sha256_salt_prefix [0x24, 0x35, 0x24, 97] \<and>
   (\<exists>buf1 sc1 buf3 sc3.
      sha256_crypt_r True plain_env [112] [0x24, 0x35, 0x24, 97] (replicate 80 1) 80 fresh_sha256_scratch = Some (RESULT, buf1, sc1) \<and>
      sha256_crypt_r True plain_env [112] (cstring buf1) (replicate 80 1) 80 fresh_sha256_scratch = Some (RESULT, buf3, sc3) \<and>
      cstring buf3 = cstring buf1)"
proof -
  have stable: "stable_salt sha256_salt_prefix [0x24, 0x35, 0x24, 97]"
    by (simp add: stable_salt_def parse_salt_def sha256_salt_prefix_def rounds_prefix_def salt_length_def dollar_def)
  have sizes: "length (buffer (ctx fresh_sha256_scratch)) = 128" "length (buffer (alt_ctx fresh_sha256_scratch)) = 128"
      "key_tmp_ok plain_env" "p_bytes_ok plain_env" "int (length (replicate 80 (1 :: byte))) = 80"
      "length [0x24, 0x35, 0x24, 97 :: byte] + 64 < length (replicate 80 (1 :: byte))" "(0 :: byte) \<notin> set [0x24, 0x35, 0x24, 97]"
    by (simp_all add: fresh_sha256_scratch_def fresh_sha256_ctx_def plain_env_def)
  show ?thesis
    using sha256_crypt_verifies [OF sizes(1-4) sizes(7) stable sizes(6), of True "[112]" "[112]"] stable
    unfolding sizes(5) by blast
qed

text \<open>The salt \<open>$5$rounds=7\<close> has no end of the number and is taken as it is; in the result it is
  followed by a dollar sign and then reads as a number of rounds.\<close>

definition rounds_salt :: "byte list" where
  "rounds_salt = [0x24, 0x35, 0x24, 0x72, 0x6f, 0x75, 0x6e, 0x64, 0x73, 0x3d, 0x37]"

lemma parse_rounds_salt:
  "parse_salt sha256_salt_prefix rounds_salt = (5000, False, rounds_prefix @ [0x37])"
  "parse_salt sha256_salt_prefix (rounds_salt @ dollar # xs) = (1000, True, xs)"
  by (simp_all add: parse_salt_def rounds_salt_def sha256_salt_prefix_def rounds_prefix_def strtoul_10_def isspace_def isdigit_def
      dollar_def digits_val_def Let_def)

lemma crypt_string_rounds_salt:
  "\<exists>xs. crypt_string H sha256_salt_prefix sha256_groups key rounds_salt = rounds_salt @ dollar # xs"
  "\<exists>xs. crypt_string H sha256_salt_prefix sha256_groups key (rounds_salt @ dollar # ys) =
      sha256_salt_prefix @ rounds_prefix @ decimal 1000 @ dollar # xs"
proof -
  have salt: "take (salt_length (rounds_prefix @ [0x37])) (rounds_prefix @ [0x37]) = rounds_prefix @ [0x37]"
    by (simp add: salt_length_def rounds_prefix_def dollar_def)
  have eq: "rounds_salt = sha256_salt_prefix @ rounds_prefix @ [0x37]"
    by (simp add: rounds_salt_def sha256_salt_prefix_def rounds_prefix_def)
  show "\<exists>xs. crypt_string H sha256_salt_prefix sha256_groups key rounds_salt = rounds_salt @ dollar # xs"
    unfolding crypt_string_def parse_rounds_salt(1) Let_def prod.case salt by (simp add: result_string_def eq)
  show "\<exists>xs. crypt_string H sha256_salt_prefix sha256_groups key (rounds_salt @ dollar # ys) =
      sha256_salt_prefix @ rounds_prefix @ decimal 1000 @ dollar # xs"
    by (simp add: crypt_string_def parse_rounds_salt(2) result_string_def Let_def)
qed

lemma decimal_1000: "decimal 1000 = [0x31, 0x30, 0x30, 0x30]"
  by (simp add: decimal.simps)

text \<open>C38. A password that cannot be verified: with the salt \<open>$5$rounds=7\<close> the string that
  \<open>__sha256_crypt_r\<close> returns for a key is refused for the same key, whatever the key: given as the
  salt of a second call, which also succeeds, it returns another string.\<close>

theorem sha256_crypt_rejects_own_result:
  assumes "length (buffer (ctx sc)) = 128" "length (buffer (alt_ctx sc)) = 128" "key_tmp_ok env" "p_bytes_ok env"
    and "160 < length buf"
  shows "\<exists>buf1 sc1 buf2 sc2.
    sha256_crypt_r sau env key rounds_salt buf (int (length buf)) sc = Some (RESULT, buf1, sc1) \<and>
    sha256_crypt_r sau env key (cstring buf1) buf (int (length buf)) sc = Some (RESULT, buf2, sc2) \<and>
    cstring buf2 \<noteq> cstring buf1"
proof -
  let ?s = "\<lambda>s. crypt_string sha256_ref sha256_salt_prefix sha256_groups key s"
  have nz: "0 \<notin> set rounds_salt" "length rounds_salt = 11" by (simp_all add: rounds_salt_def)
  have len: "length (?s rounds_salt) < length buf" "length (?s (?s rounds_salt)) < length buf"
    using sha256_string(1) [of sha256_ref key rounds_salt] sha256_string(1) [of sha256_ref key "?s rounds_salt"] nz(2) assms(5)
    by linarith+
  obtain buf1 sc1 where 1: "sha256_crypt_r sau env key rounds_salt buf (int (length buf)) sc = Some (RESULT, buf1, sc1)"
      "cstring buf1 = ?s rounds_salt"
    using sha256_crypt_r_result [OF assms(1-4) nz(1) len(1)] by blast
  obtain buf2 sc2 where 2: "sha256_crypt_r sau env key (cstring buf1) buf (int (length buf)) sc = Some (RESULT, buf2, sc2)"
      "cstring buf2 = ?s (?s rounds_salt)"
    using sha256_crypt_r_result [OF assms(1-4) sha256_string(2) [OF nz(1)] len(2)] unfolding 1(2) by blast
  obtain xs ys where "?s rounds_salt = rounds_salt @ dollar # xs"
      "?s (?s rounds_salt) = sha256_salt_prefix @ rounds_prefix @ decimal 1000 @ dollar # ys"
    using crypt_string_rounds_salt by metis
  then have "?s (?s rounds_salt) \<noteq> ?s rounds_salt"
    by (simp add: rounds_salt_def sha256_salt_prefix_def rounds_prefix_def decimal_1000)
  then show ?thesis using 1(1) 2(1) unfolding 1(2) [symmetric] 2(2) [symmetric] by (metis 1(2) 2(2))
qed

lemma sha256_crypt_rejects_own_result_witness:
  "length (buffer (ctx fresh_sha256_scratch)) = 128 \<and>
   (\<exists>buf1 sc1 buf2 sc2.
      sha256_crypt_r True plain_env [112] rounds_salt (replicate 161 1) 161 fresh_sha256_scratch = Some (RESULT, buf1, sc1) \<and>
      sha256_crypt_r True plain_env [112] (cstring buf1) (replicate 161 1) 161 fresh_sha256_scratch = Some (RESULT, buf2, sc2) \<and>
      cstring buf2 \<noteq> cstring buf1)"
proof -
  have sizes: "length (buffer (ctx fresh_sha256_scratch)) = 128" "length (buffer (alt_ctx fresh_sha256_scratch)) = 128"
      "key_tmp_ok plain_env" "p_bytes_ok plain_env" "int (length (replicate 161 (1 :: byte))) = 161"
      "160 < length (replicate 161 (1 :: byte))"
    by (simp_all add: fresh_sha256_scratch_def fresh_sha256_ctx_def plain_env_def)
  show ?thesis
    using sha256_crypt_rejects_own_result [OF sizes(1-4) sizes(6), of True "[112]"] sizes(1) unfolding sizes(5) by blast
qed

section \<open>The non-reentrant functions\<close>

text \<open>The size computed for the buffer is enough for every result, as long as it is representable.\<close>

lemma sint_of_small_nat: "n < 2 ^ 31 \<Longrightarrow> sint (word_of_nat n :: u32) = int n"
proof -
  assume n: "n < 2 ^ 31"
  then have "unat (word_of_nat n :: u32) = n" by (simp add: unat_word_of_nat_mod)
  then have "uint (word_of_nat n :: u32) = int n" by (metis of_nat_unat)
  then show ?thesis
    using n by (simp only: sint_uint) (simp add: signed_take_bit_int_eq_self)
qed

lemma needed_size_value:
  assumes "length p + length salt + outlen < 2 ^ 30"
  shows "needed_size p outlen salt = int (length p + length salt + outlen + 20)"
proof -
  have eq: "length p + Suc (length rounds_prefix) + 9 + 1 + length salt + 1 + outlen + 1 = length p + length salt + outlen + 20"
    by (simp add: rounds_prefix_def)
  show ?thesis
    unfolding needed_size_def eq using assms by (intro sint_of_small_nat) simp
qed

text \<open>What \<open>realloc\<close> promises: memory of the size asked for.\<close>

definition reallocates :: "(byte list \<Rightarrow> int \<Rightarrow> byte list option) \<Rightarrow> bool" where
  "reallocates realloc \<longleftrightarrow> (\<forall>buf k buf'. k > 0 \<longrightarrow> realloc buf k = Some buf' \<longrightarrow> int (length buf') = k)"

lemma static_buffer_returns:
  assumes call: "\<And>b. needed \<le> int (length b) \<Longrightarrow>
      \<exists>b' sc'. crypt_r b (int (length b)) sc = Some (RESULT, b', sc') \<and> cstring b' = s \<and> length b' = length b"
    and "0 < needed" "reallocates realloc" "int (length buf) = bsize"
  shows "if bsize < needed \<and> realloc buf needed = None
    then static_buffer realloc needed crypt_r (buf, bsize) sc = Some (NULL_ENOMEM, (buf, bsize), sc)
    else \<exists>buf' size' sc'. static_buffer realloc needed crypt_r (buf, bsize) sc = Some (RESULT, (buf', size'), sc') \<and>
      cstring buf' = s \<and> int (length buf') = size' \<and> size' = max bsize needed"
proof (cases "bsize < needed")
  case True
  show ?thesis
  proof (cases "realloc buf needed")
    case None
    then show ?thesis using True by (simp add: static_buffer_def)
  next
    case (Some b)
    then have b: "int (length b) = needed" using assms(2,3) by (simp add: reallocates_def)
    then obtain b' sc' where "crypt_r b needed sc = Some (RESULT, b', sc')" "cstring b' = s" "length b' = length b"
      using call [of b] by auto
    then show ?thesis using True Some b by (simp add: static_buffer_def)
  qed
next
  case False
  then obtain b' sc' where "crypt_r buf bsize sc = Some (RESULT, b', sc')" "cstring b' = s" "length b' = length buf"
    using call [of buf] assms(4) by auto
  then show ?thesis using False assms(4) by (simp add: static_buffer_def)
qed

text \<open>C39. The non-reentrant function has room: for a salt of less than 2^29 bytes (the size needed is
  an \<open>int\<close>), when the allocations inside \<open>__sha256_crypt_r\<close> succeed, and starting from a buffer of the
  recorded size, \<open>__sha256_crypt\<close> enlarges it to the size it computes when it is smaller, and then
  returns the string of the published algorithm, not \<open>ERANGE\<close>; the recorded size stays right. A failing
  \<open>realloc\<close> makes it return null, and then buffer and size are unchanged.\<close>

theorem sha256_crypt_returns:
  assumes "length (buffer (ctx sc)) = 128" "length (buffer (alt_ctx sc)) = 128" "key_tmp_ok env" "p_bytes_ok env"
    and "0 \<notin> set salt" "length salt < 2 ^ 29" "reallocates realloc" "int (length buf) = bsize"
  shows "if bsize < int (length salt) + 66 \<and> realloc buf (int (length salt) + 66) = None
    then sha256_crypt sau realloc env key salt (buf, bsize) sc = Some (NULL_ENOMEM, (buf, bsize), sc)
    else \<exists>buf' size' sc'. sha256_crypt sau realloc env key salt (buf, bsize) sc = Some (RESULT, (buf', size'), sc') \<and>
      cstring buf' = crypt_string sha256_ref sha256_salt_prefix sha256_groups key salt \<and> int (length buf') = size' \<and>
      size' = max bsize (int (length salt) + 66)"
proof -
  let ?s = "crypt_string sha256_ref sha256_salt_prefix sha256_groups key salt"
  have needed: "needed_size sha256_salt_prefix 43 salt = int (length salt) + 66"
    using needed_size_value [of sha256_salt_prefix salt 43] assms(6) by (simp add: sha256_salt_prefix_def)
  have call: "\<exists>b' sc'. sha_crypt_r (sha256_ops sau) 32 4 sha256_salt_prefix sha256_groups env key salt b (int (length b)) sc = Some (RESULT, b', sc') \<and>
      cstring b' = ?s \<and> length b' = length b" if "int (length salt) + 66 \<le> int (length b)" for b
  proof -
    have "crypt_outcome (scrubbed (sha256_ops sau)) ?s False b
        (sha_crypt_r (sha256_ops sau) 32 4 sha256_salt_prefix sha256_groups env key salt b (int (length b)) sc)"
      using sha256_crypt.sha_crypt_r_outcome [of 4 sc b "int (length b)" sau sha256_salt_prefix sha256_groups key salt env] assms(1-4)
      by simp
    moreover have "length ?s < length b" using sha256_string(1) [of sha256_ref key salt] that by linarith
    ultimately show ?thesis using outcome_result sha256_string(2) [OF assms(5)] by blast
  qed
  show ?thesis
    unfolding sha256_crypt_def sha_crypt_def needed using assms(7,8) by (intro static_buffer_returns call) simp_all
qed

definition zero_realloc :: "byte list \<Rightarrow> int \<Rightarrow> byte list option" where
  "zero_realloc buf k = Some (take (nat k) buf @ replicate (nat k - length buf) 0)"

lemma sha256_crypt_returns_witness:
  "reallocates zero_realloc \<and>
   (\<exists>buf' size' sc'. sha256_crypt True zero_realloc plain_env [112] [0x24, 0x35, 0x24, 97] ([], 0) fresh_sha256_scratch =
        Some (RESULT, (buf', size'), sc') \<and>
      cstring buf' = crypt_string sha256_ref sha256_salt_prefix sha256_groups [112] [0x24, 0x35, 0x24, 97] \<and> int (length buf') = size')"
proof -
  have sizes: "length (buffer (ctx fresh_sha256_scratch)) = 128" "length (buffer (alt_ctx fresh_sha256_scratch)) = 128"
      "key_tmp_ok plain_env" "p_bytes_ok plain_env" "(0 :: byte) \<notin> set [0x24, 0x35, 0x24, 97]"
      "length [0x24, 0x35, 0x24, 97 :: byte] < 2 ^ 29"
    by (simp_all add: fresh_sha256_scratch_def fresh_sha256_ctx_def plain_env_def)
  have re: "reallocates zero_realloc" by (auto simp: reallocates_def zero_realloc_def)
  show ?thesis
    using sha256_crypt_returns [OF sizes re, of "[]" 0 True "[112]"] re by (auto simp: zero_realloc_def)
qed

end
