(* ===== verification/Md5_Crypt.thy ===== *)
theory Md5_Crypt
  imports Md5 Crypt_Verify
begin

text \<open>
  The password hash of crypt/md5-crypt.c. It shares the alternate sum, the bits of the length, the
  rounds, the copies of unaligned arguments and the output with the SHA variants of \<open>Sha_Crypt\<close>, but
  has a salt of at most eight characters, always 1000 rounds, and feeds key and salt themselves to
  the rounds. The configured build does not use NSS.
\<close>

section \<open>The code\<close>

definition md5_ops :: "bool \<Rightarrow> md5_ctx digest_ops" where
  "md5_ops sau = \<lparr>ctx_init = md5_init_ctx, ctx_bytes = md5_process_bytes sau, ctx_finish = md5_finish_ctx,
     ctx_zero = \<lparr>buflen = 0, buffer = replicate 128 0, md5_A = 0, md5_B = 0, md5_C = 0, md5_D = 0, total0 = 0, total1 = 0\<rparr>\<rparr>"

definition md5_salt_prefix :: "byte list" where
  "md5_salt_prefix = [0x24, 0x31, 0x24]"

definition md5_groups :: "b64_group list" where
  "md5_groups =
     [(Some 0, Some 6, Some 12, 4), (Some 1, Some 7, Some 13, 4), (Some 2, Some 8, Some 14, 4),
      (Some 3, Some 9, Some 15, 4), (Some 4, Some 10, Some 5, 4), (None, None, Some 11, 2)]"

definition md5_skip_prefix :: "byte list \<Rightarrow> byte list" where
  "md5_skip_prefix salt =
     (if take (length md5_salt_prefix) salt = md5_salt_prefix then drop (length md5_salt_prefix) salt else salt)"

definition md5_salt_length :: "byte list \<Rightarrow> nat" where
  "md5_salt_length salt = min (length (takeWhile (\<lambda>c. c \<noteq> dollar) salt)) 8"

text \<open>From the initialisation of the first context to the first intermediate result. The address of
  the constant \<open>md5_salt_prefix\<close> is \<open>paddr\<close>. Before the bits of the length are added the first byte of
  \<open>alt_result\<close> becomes zero; for every bit one byte is added, this one or the first of the key.\<close>

definition md5_start_digest ::
  "'c digest_ops \<Rightarrow> nat \<Rightarrow> crypt_env \<Rightarrow> nat \<Rightarrow> byte list \<Rightarrow> nat \<Rightarrow> byte list \<Rightarrow> 'c scratch \<Rightarrow> 'c scratch" where
  "md5_start_digest D paddr env kaddr key saddr salt sc =
     (let c = ctx_init D (ctx sc);
          c = ctx_bytes D kaddr key c;
          c = ctx_bytes D paddr md5_salt_prefix c;
          c = ctx_bytes D saddr salt c;
          ac = ctx_init D (alt_ctx sc);
          ac = ctx_bytes D kaddr key ac;
          ac = ctx_bytes D saddr salt ac;
          ac = ctx_bytes D kaddr key ac;
          (alt, ac) = ctx_finish D ac;
          c = add_alt_sum D 16 (alt_result_addr env) alt (length key) c;
          alt = alt[0 := 0];
          c = add_key_bits D (alt_result_addr env) (take 1 alt) kaddr (take 1 key) (length key) c;
          (alt, c) = ctx_finish D c
      in sc\<lparr>ctx := c, alt_ctx := ac, alt_result := alt\<rparr>)"

definition md5_crypt_round ::
  "'c digest_ops \<Rightarrow> crypt_env \<Rightarrow> nat \<Rightarrow> byte list \<Rightarrow> nat \<Rightarrow> byte list \<Rightarrow> nat \<Rightarrow> 'c scratch \<Rightarrow> 'c scratch" where
  "md5_crypt_round D env kaddr key saddr salt cnt sc =
     (let (alt, c) = round_digest D (kaddr, key) (saddr, salt) (alt_result_addr env, alt_result sc) cnt (ctx sc)
      in sc\<lparr>ctx := c, alt_result := alt\<rparr>)"

definition md5_crypt_r ::
  "bool \<Rightarrow> nat \<Rightarrow> crypt_env \<Rightarrow> byte list \<Rightarrow> byte list \<Rightarrow> byte list \<Rightarrow> int \<Rightarrow> md5_ctx scratch
     \<Rightarrow> (crypt_ret \<times> byte list \<times> md5_ctx scratch) option" where
  "md5_crypt_r sau paddr env key salt0 buf bsize sc =
     (let D = md5_ops sau;
          salt_rest = md5_skip_prefix salt0;
          salt = take (md5_salt_length salt_rest) salt_rest;
          saddr = salt_addr env + (length salt0 - length salt_rest)
      in if key_addr env mod 4 \<noteq> 0 \<and> \<not> key_tmp_ok env
         then Some (NULL_ENOMEM, buf, sc\<lparr>copied_key := None, copied_salt := None\<rparr>)
         else
           let (kaddr, sc) = copy_key 4 env key sc;
               (saddr, sc) = copy_salt 4 env saddr salt sc
           in if kaddr mod 4 \<noteq> 0 \<or> saddr mod 4 \<noteq> 0 then None
              else
                let sc = md5_start_digest D paddr env kaddr key saddr salt sc;
                    sc = fold (md5_crypt_round D env kaddr key saddr salt) [0..<1000] sc
                in do { (fits, buf) \<leftarrow> write_result md5_salt_prefix md5_groups None salt (alt_result sc) buf bsize;
                        Some (if fits then RESULT else NULL_ERANGE, buf, clear_common D sc) })"

definition md5_needed :: "byte list \<Rightarrow> int" where
  "md5_needed salt = sint (word_of_nat (3 + length salt + 1 + 26 + 1) :: u32)"

definition md5_crypt ::
  "bool \<Rightarrow> nat \<Rightarrow> (byte list \<Rightarrow> int \<Rightarrow> byte list option) \<Rightarrow> crypt_env \<Rightarrow> byte list \<Rightarrow> byte list \<Rightarrow> byte list \<times> int
     \<Rightarrow> md5_ctx scratch \<Rightarrow> (crypt_ret \<times> (byte list \<times> int) \<times> md5_ctx scratch) option" where
  "md5_crypt sau paddr realloc env key salt =
     static_buffer realloc (md5_needed salt) (md5_crypt_r sau paddr env key salt)"

section \<open>The specification\<close>

definition md5_spec_start :: "(byte list \<Rightarrow> byte list) \<Rightarrow> byte list \<Rightarrow> byte list \<Rightarrow> byte list" where
  "md5_spec_start H key salt =
     H (key @ md5_salt_prefix @ salt @ cycle (length key) (H (key @ salt @ key)) @
        map (\<lambda>i. if odd (length key div 2 ^ i) then 0 else hd key) [0..<floorlog 2 (length key)])"

definition md5_crypt_spec :: "(byte list \<Rightarrow> byte list) \<Rightarrow> byte list \<Rightarrow> byte list \<Rightarrow> byte list" where
  "md5_crypt_spec H key salt = fold (spec_round H key salt) [0..<1000] (md5_spec_start H key salt)"

definition md5_crypt_string :: "byte list \<Rightarrow> byte list \<Rightarrow> byte list" where
  "md5_crypt_string key salt0 =
     (let rest = md5_skip_prefix salt0; salt = take (md5_salt_length rest) rest
      in result_string md5_salt_prefix md5_groups None salt (md5_crypt_spec md5_ref key salt))"

lemma concat_singletons: "concat (map (\<lambda>x. if P x then [a] else [b]) xs) = map (\<lambda>x. if P x then a else b) xs"
  by (induction xs) simp_all

lemma md5_bit_texts:
  "bit_texts [0] (take 1 key) (length key) =
     map (\<lambda>i. if odd (length key div 2 ^ i) then 0 else hd key) [0..<floorlog 2 (length key)]"
proof (cases key)
  case (Cons a as)
  then have "take 1 key = [hd key]" by simp
  then show ?thesis by (simp only: bit_texts_concat concat_singletons)
qed (simp add: bit_texts.simps floorlog_def)

section \<open>The code computes the specification\<close>

context incremental_digest
begin

lemma md5_start_digest_spec:
  assumes "prepared sc" and n: "n = 16"
  shows "\<exists>c ac. md5_start_digest D paddr env kaddr key saddr salt sc =
      sc\<lparr>ctx := c, alt_ctx := ac, alt_result := md5_spec_start H key salt\<rparr> \<and> ready c \<and> ready ac"
proof -
  define B where "B = H (key @ salt @ key)"
  let ?c0 = "ctx_bytes D saddr salt (ctx_bytes D paddr md5_salt_prefix (ctx_bytes D kaddr key (ctx_init D (ctx sc))))"
  let ?a0 = "ctx_bytes D kaddr key (ctx_bytes D saddr salt (ctx_bytes D kaddr key (ctx_init D (alt_ctx sc))))"
  let ?m = "((key @ md5_salt_prefix @ salt) @ cycle (length key) B) @ bit_texts [0] (take 1 key) (length key)"
  have "length B = 16" using length_hash n by (simp add: B_def)
  then have B: "take 1 (B[0 := 0]) = [0]" by (cases B) simp_all
  have "fed (key @ md5_salt_prefix @ salt) ?c0"
    using bytes_fed [OF bytes_fed [OF bytes_fed [OF init_fed]]] assms(1) by fastforce
  then have c: "fed ?m (add_key_bits D (alt_result_addr env) [0] kaddr (take 1 key) (length key)
      (add_alt_sum D 16 (alt_result_addr env) B (length key) ?c0))"
    using \<open>length B = 16\<close> n by (intro add_key_bits_fed add_alt_sum_fed [unfolded n]) simp_all
  have "fed (key @ salt @ key) ?a0"
    using bytes_fed [OF bytes_fed [OF bytes_fed [OF init_fed]]] assms(1) by fastforce
  then obtain ac where ac: "ctx_finish D ?a0 = (B, ac)" "ready ac" using finish_pair B_def by blast
  have spec: "H ?m = md5_spec_start H key salt"
    unfolding md5_spec_start_def md5_bit_texts B_def by simp
  obtain c' where c': "ctx_finish D (add_key_bits D (alt_result_addr env) [0] kaddr (take 1 key) (length key)
      (add_alt_sum D 16 (alt_result_addr env) B (length key) ?c0)) = (md5_spec_start H key salt, c')" "ready c'"
    using finish_pair [OF c] unfolding spec by blast
  show ?thesis
    unfolding md5_start_digest_def Let_def ac(1) prod.case B c'(1) using ac(2) c'(2) by blast
qed

lemma md5_rounds_spec:
  assumes "ready (ctx sc)"
  shows "alt_result (fold (md5_crypt_round D env kaddr key saddr salt) cnts sc) = fold (spec_round H key salt) cnts (alt_result sc)"
  using assms
proof (induction cnts arbitrary: sc)
  case (Cons cnt cnts)
  obtain c where c: "round_digest D (kaddr, key) (saddr, salt) (alt_result_addr env, alt_result sc) cnt (ctx sc) =
      (spec_round H key salt cnt (alt_result sc), c)" "ready c"
    using round_digest_spec [OF Cons.prems] by blast
  then have "md5_crypt_round D env kaddr key saddr salt cnt sc = sc\<lparr>ctx := c, alt_result := spec_round H key salt cnt (alt_result sc)\<rparr>"
    by (simp add: md5_crypt_round_def)
  then show ?case using Cons.IH c(2) by simp
qed simp

lemma md5_digest_spec:
  assumes "prepared sc" "n = 16"
  shows "alt_result (fold (md5_crypt_round D env kaddr key saddr salt) [0..<1000]
      (md5_start_digest D paddr env kaddr key saddr salt sc)) = md5_crypt_spec H key salt"
  using md5_start_digest_spec [OF assms, of paddr env kaddr key saddr salt] md5_rounds_spec
  by (auto simp: md5_crypt_spec_def)

end

lemma length_md5_ref: "length (md5_ref m) = 16"
  by (simp add: md5_ref_def split: prod.split)

lemma md5_finish_buffer:
  assumes "length (buffer c) = 128" "buflen c \<le> 64"
  shows "length (buffer (snd (md5_finish_ctx c))) = 128"
proof -
  define pad where "pad = finish_pad 64 8 (buflen c)"
  have pad: "buflen c + pad = 56 \<or> buflen c + pad = 120" "pad \<le> 64"
    using finish_pad_total [of 8 64 "buflen c"] assms(2) by (auto simp: pad_def)
  have len: "length (take pad Md5.fillbuf) = pad" using pad(2) by (simp add: Md5.fillbuf_def)
  have fp: "(if 56 \<le> buflen c then 64 + 56 - buflen c else 56 - buflen c) = pad"
    by (simp add: pad_def finish_pad_def)
  show ?thesis
    using pad(1) assms(1) len unfolding md5_finish_ctx_def Let_def fp by (auto simp: length_blit)
qed

interpretation md5_crypt: incremental_digest "md5_ops sau" 16 md5_ref md5_absorbed "\<lambda>c. length (buffer c) = 128" for sau
proof
  show "length (buffer c) = 128 \<Longrightarrow> md5_absorbed [] (ctx_init (md5_ops sau) c)" for c
    using md5_init_absorbed [of c] by (simp add: md5_ops_def)
  show "md5_absorbed m c \<Longrightarrow> fst (ctx_finish (md5_ops sau) c) = md5_ref m" for m c
    using md5_finish_digest [of m c] by (simp add: md5_ops_def)
  show "md5_absorbed m c \<Longrightarrow> md5_absorbed (m @ d) (ctx_bytes (md5_ops sau) a d c)" for m c d a
    using md5.process_bytes_absorbed [of m c d 4 sau a] by (simp add: md5_ops_def md5_process_bytes_def)
  show "md5_absorbed m c \<Longrightarrow> length (buffer (snd (ctx_finish (md5_ops sau) c))) = 128" for m c
    using md5_finish_buffer [of c] by (simp add: md5_ops_def absorbed_def Let_def)
qed (simp_all add: length_md5_ref)

lemma md5_crypt_r_outcome:
  assumes sc: "length (buffer (ctx sc)) = 128" "length (buffer (alt_ctx sc)) = 128"
  shows "crypt_outcome (scrubbed_common (md5_ops sau)) (md5_crypt_string key salt0)
    (key_addr env mod 4 \<noteq> 0 \<and> \<not> key_tmp_ok env) buf (md5_crypt_r sau paddr env key salt0 buf (int (length buf)) sc)"
proof -
  define rest where "rest = md5_skip_prefix salt0"
  define salt where "salt = take (md5_salt_length rest) rest"
  obtain kaddr sc1 where k: "copy_key 4 env key sc = (kaddr, sc1)" by (cases "copy_key 4 env key sc")
  obtain saddr sc2 where s: "copy_salt 4 env (salt_addr env + (length salt0 - length rest)) salt sc1 = (saddr, sc2)"
    by (cases "copy_salt 4 env (salt_addr env + (length salt0 - length rest)) salt sc1")
  have aligned: "kaddr mod 4 = 0" "saddr mod 4 = 0"
    and sc2: "length (buffer (ctx sc2)) = 128 \<and> length (buffer (alt_ctx sc2)) = 128"
    using copies_aligned(1) [OF _ k] copies_aligned(2) [OF _ s] sc by auto
  define sc3 where "sc3 = fold (md5_crypt_round (md5_ops sau) env kaddr key saddr salt) [0..<1000]
    (md5_start_digest (md5_ops sau) paddr env kaddr key saddr salt sc2)"
  have d: "alt_result sc3 = md5_crypt_spec md5_ref key salt"
    unfolding sc3_def by (rule md5_crypt.md5_digest_spec [OF sc2 refl])
  let ?s = "md5_crypt_string key salt0"
  let ?w = "write_result md5_salt_prefix md5_groups None salt (alt_result sc3) buf (int (length buf))"
  have code: "md5_crypt_r sau paddr env key salt0 buf (int (length buf)) sc =
      (if key_addr env mod 4 \<noteq> 0 \<and> \<not> key_tmp_ok env then Some (NULL_ENOMEM, buf, sc\<lparr>copied_key := None, copied_salt := None\<rparr>)
       else do { (fits, buf) \<leftarrow> ?w; Some (if fits then RESULT else NULL_ERANGE, buf, clear_common (md5_ops sau) sc3) })"
    using aligned unfolding md5_crypt_r_def Let_def rest_def [symmetric] salt_def [symmetric] k s prod.case sc3_def by simp
  have str: "?s = result_string md5_salt_prefix md5_groups None salt (alt_result sc3)"
    by (simp add: md5_crypt_string_def d Let_def flip: rest_def salt_def)
  obtain buf' where w: "?w = Some (length ?s < length buf, buf')" "length buf' = length buf"
      "length ?s < length buf \<longrightarrow> take (Suc (length ?s)) buf' = ?s @ [0]"
    using write_result_correct [of buf "length buf"] unfolding str by blast
  then show ?thesis
    using scrubbed_common_clear unfolding code w(1) crypt_outcome_def by auto
qed

section \<open>Reading the result back\<close>

lemma md5_salt_shape:
  "dollar \<notin> set (take (md5_salt_length s) s)" "length (take (md5_salt_length s) s) \<le> 8"
  "set (take (md5_salt_length s) s) \<subseteq> set s"
proof -
  have "take (md5_salt_length s) s = take 8 (take (length (takeWhile (\<lambda>c. c \<noteq> dollar) s)) s)"
    by (simp add: md5_salt_length_def min.commute)
  then have "take (md5_salt_length s) s = take 8 (takeWhile (\<lambda>c. c \<noteq> dollar) s)"
    by (simp only: takeWhile_eq_take [symmetric])
  then show "dollar \<notin> set (take (md5_salt_length s) s)" by (auto dest: in_set_takeD set_takeWhileD)
qed (auto simp: md5_salt_length_def dest: in_set_takeD)

lemma md5_skip_prefix_set: "set (md5_skip_prefix s) \<subseteq> set s" "length (md5_skip_prefix s) \<le> length s"
  by (auto simp: md5_skip_prefix_def dest: in_set_dropD)

lemma md5_salt_again:
  assumes "dollar \<notin> set salt" "length salt \<le> 8"
  shows "take (md5_salt_length (salt @ dollar # xs)) (salt @ dollar # xs) = salt"
proof -
  have "takeWhile (\<lambda>c. c \<noteq> dollar) (salt @ dollar # xs) = salt"
    using assms(1) by (subst takeWhile_append2) auto
  then show ?thesis using assms(2) by (simp add: md5_salt_length_def)
qed

lemma md5_crypt_string_again: "md5_crypt_string key (md5_crypt_string key' salt) = md5_crypt_string key salt"
proof -
  define salt' where "salt' = take (md5_salt_length (md5_skip_prefix salt)) (md5_skip_prefix salt)"
  have first: "md5_crypt_string k salt = result_string md5_salt_prefix md5_groups None salt' (md5_crypt_spec md5_ref k salt')" for k
    by (simp add: md5_crypt_string_def salt'_def Let_def)
  have skip: "md5_skip_prefix (md5_crypt_string key' salt) =
      salt' @ dollar # concat (map (group_text (md5_crypt_spec md5_ref key' salt')) md5_groups)"
    unfolding first by (simp add: md5_skip_prefix_def result_string_def)
  show ?thesis
    unfolding md5_crypt_string_def [of key "md5_crypt_string key' salt"] Let_def skip
    unfolding salt'_def md5_salt_again [OF md5_salt_shape(1,2)] by (simp add: md5_crypt_string_def Let_def)
qed

lemma md5_group_widths: "sum_list (map group_width md5_groups) = 22"
  by (simp add: md5_groups_def group_width_def)

lemma md5_string:
  "length (md5_crypt_string key salt) \<le> 34" "length (md5_crypt_string key salt) \<le> 26 + length salt"
  "0 \<notin> set salt \<Longrightarrow> 0 \<notin> set (md5_crypt_string key salt)"
proof -
  let ?r = "md5_skip_prefix salt"
  have len: "length (md5_crypt_string key salt) = 26 + length (take (md5_salt_length ?r) ?r)"
    by (simp add: md5_crypt_string_def result_string_def length_groups md5_group_widths md5_salt_prefix_def Let_def)
  show "length (md5_crypt_string key salt) \<le> 34" unfolding len using md5_salt_shape(2) [of ?r] by linarith
  show "length (md5_crypt_string key salt) \<le> 26 + length salt" unfolding len using md5_skip_prefix_set(2) [of salt] by simp
  assume "0 \<notin> set salt"
  then have "0 \<notin> set (take (md5_salt_length ?r) ?r)" using md5_salt_shape(3) [of ?r] md5_skip_prefix_set(1) [of salt] by blast
  moreover have "0 \<notin> set (group_text d g)" for d g
    using b64_text_chars b64t_chars(2) by (auto simp: group_text_def split: prod.splits)
  ultimately show "0 \<notin> set (md5_crypt_string key salt)"
    by (auto simp: md5_crypt_string_def result_string_def md5_salt_prefix_def dollar_def Let_def)
qed

lemma md5_crypt_r_result:
  assumes "length (buffer (ctx sc)) = 128" "length (buffer (alt_ctx sc)) = 128" "key_tmp_ok env" "0 \<notin> set salt"
    and "length (md5_crypt_string key salt) < length buf"
  shows "\<exists>buf' sc'. md5_crypt_r sau paddr env key salt buf (int (length buf)) sc = Some (RESULT, buf', sc') \<and>
    cstring buf' = md5_crypt_string key salt \<and> length buf' = length buf"
proof -
  have "crypt_outcome (scrubbed_common (md5_ops sau)) (md5_crypt_string key salt) False buf
      (md5_crypt_r sau paddr env key salt buf (int (length buf)) sc)"
    using md5_crypt_r_outcome [OF assms(1,2), of sau key salt env buf paddr] assms(3) by simp
  then show ?thesis using outcome_result assms(5) md5_string(3) [OF assms(4)] by blast
qed

section \<open>The properties\<close>

text \<open>C8. The MD5 password hash: with any alignment of key, salt and local memory,
  \<open>__md5_crypt_r\<close> stores nothing outside the buffer of the size it is given. Unless the copy of an
  unaligned key cannot be allocated, the buffer receives the terminated string of the MD5-crypt
  algorithm (prefix, up to eight characters of salt, the digest after 1000 rounds in base 64) when it
  fits, the call fails with \<open>ERANGE\<close> when it does not, and both times contexts and copies are cleared.\<close>

theorem md5_crypt_r_correct:
  assumes "length (buffer (ctx sc)) = 128" "length (buffer (alt_ctx sc)) = 128"
  shows "crypt_outcome (scrubbed_common (md5_ops sau)) (md5_crypt_string key salt)
    (key_addr env mod 4 \<noteq> 0 \<and> \<not> key_tmp_ok env) buf (md5_crypt_r sau paddr env key salt buf (int (length buf)) sc)"
  by (rule md5_crypt_r_outcome [OF assms])

definition fresh_md5_scratch :: "md5_ctx scratch" where
  "fresh_md5_scratch = \<lparr>ctx = fresh_md5_ctx, alt_ctx = fresh_md5_ctx, alt_result = [], copied_key = None, copied_salt = None\<rparr>"

lemma md5_crypt_r_correct_witness:
  "length (buffer (ctx fresh_md5_scratch)) = 128 \<and>
   crypt_outcome (scrubbed_common (md5_ops True)) (md5_crypt_string [112, 119] [0x24, 0x31, 0x24, 97])
     False (replicate 40 1) (md5_crypt_r True 5 plain_env [112, 119] [0x24, 0x31, 0x24, 97] (replicate 40 1) 40 fresh_md5_scratch)"
  using md5_crypt_r_correct [of fresh_md5_scratch True "[112, 119]" "[0x24, 0x31, 0x24, 97]" plain_env "replicate 40 1" 5]
  by (simp add: fresh_md5_scratch_def fresh_md5_ctx_def plain_env_def)

text \<open>Every string that \<open>__md5_crypt_r\<close> returns works as a salt in place of the one it was made with:
  there is no exception like that of the SHA variants.\<close>

theorem md5_crypt_verifies:
  assumes "length (buffer (ctx sc)) = 128" "length (buffer (alt_ctx sc)) = 128" "key_tmp_ok env" "0 \<notin> set salt" "34 < length buf"
  shows "\<exists>buf1 sc1 buf2 sc2 buf3 sc3.
    md5_crypt_r sau paddr env key salt buf (int (length buf)) sc = Some (RESULT, buf1, sc1) \<and>
    md5_crypt_r sau paddr env key' salt buf (int (length buf)) sc = Some (RESULT, buf2, sc2) \<and>
    md5_crypt_r sau paddr env key' (cstring buf1) buf (int (length buf)) sc = Some (RESULT, buf3, sc3) \<and>
    cstring buf3 = cstring buf2"
proof -
  have len: "length (md5_crypt_string k s) < length buf" for k s using md5_string(1) assms(5) by (rule le_less_trans)
  obtain buf1 sc1 where 1: "md5_crypt_r sau paddr env key salt buf (int (length buf)) sc = Some (RESULT, buf1, sc1)"
      "cstring buf1 = md5_crypt_string key salt"
    using md5_crypt_r_result [OF assms(1-4) len] by blast
  obtain buf2 sc2 where 2: "md5_crypt_r sau paddr env key' salt buf (int (length buf)) sc = Some (RESULT, buf2, sc2)"
      "cstring buf2 = md5_crypt_string key' salt"
    using md5_crypt_r_result [OF assms(1-4) len] by blast
  obtain buf3 sc3 where 3: "md5_crypt_r sau paddr env key' (cstring buf1) buf (int (length buf)) sc = Some (RESULT, buf3, sc3)"
      "cstring buf3 = md5_crypt_string key' (md5_crypt_string key salt)"
    using md5_crypt_r_result [OF assms(1-3) md5_string(3) [OF assms(4)] len] unfolding 1(2) by blast
  show ?thesis using 1(1) 2 3 md5_crypt_string_again by auto
qed

text \<open>\<open>__md5_crypt\<close> always has room, too: only a failing allocation makes it return null.\<close>

theorem md5_crypt_returns:
  assumes "length (buffer (ctx sc)) = 128" "length (buffer (alt_ctx sc)) = 128" "key_tmp_ok env"
    and "0 \<notin> set salt" "length salt < 2 ^ 29" "reallocates realloc" "int (length buf) = bsize"
  shows "if bsize < int (length salt) + 31 \<and> realloc buf (int (length salt) + 31) = None
    then md5_crypt sau paddr realloc env key salt (buf, bsize) sc = Some (NULL_ENOMEM, (buf, bsize), sc)
    else \<exists>buf' size' sc'. md5_crypt sau paddr realloc env key salt (buf, bsize) sc = Some (RESULT, (buf', size'), sc') \<and>
      cstring buf' = md5_crypt_string key salt \<and> int (length buf') = size' \<and> size' = max bsize (int (length salt) + 31)"
proof -
  have needed: "md5_needed salt = int (length salt) + 31"
  proof -
    have eq: "3 + length salt + 1 + 26 + 1 = length salt + 31" by simp
    show ?thesis unfolding md5_needed_def eq using assms(5) by (subst sint_of_small_nat) simp_all
  qed
  have call: "\<exists>b' sc'. md5_crypt_r sau paddr env key salt b (int (length b)) sc = Some (RESULT, b', sc') \<and>
      cstring b' = md5_crypt_string key salt \<and> length b' = length b" if "int (length salt) + 31 \<le> int (length b)" for b
  proof (rule md5_crypt_r_result [OF assms(1-4)])
    show "length (md5_crypt_string key salt) < length b" using md5_string(2) [of key salt] that by linarith
  qed
  show ?thesis
    unfolding md5_crypt_def needed using assms(6,7) by (intro static_buffer_returns call) simp_all
qed

end
