(* ===== verification/Crypt_Format.thy ===== *)
theory Crypt_Format
  imports Md5_Crypt
begin

text \<open>
  The format of a stored password: a string the three password hashes return is one that the other
  programs reading the password file accept.
\<close>

section \<open>The format\<close>

text \<open>A salt of at most \<open>k\<close> characters without a dollar sign, and the same behind a number of rounds.\<close>

definition salt_field :: "nat \<Rightarrow> byte list \<Rightarrow> bool" where
  "salt_field k salt \<longleftrightarrow> dollar \<notin> set salt \<and> length salt \<le> k"

definition rounds_field :: "nat \<Rightarrow> byte list \<Rightarrow> bool" where
  "rounds_field k mid \<longleftrightarrow>
     (let num = drop (length rounds_prefix) mid; ds = takeWhile isdigit num; rest = dropWhile isdigit num
      in take (length rounds_prefix) mid = rounds_prefix \<and> 1000 \<le> digits_val ds \<and> digits_val ds \<le> 999999999 \<and>
         rest \<noteq> [] \<and> hd rest = dollar \<and> salt_field k (tl rest))"

text \<open>The prefix, the fields accepted by \<open>mid_ok\<close>, a dollar sign and \<open>w\<close> characters of the alphabet.\<close>

definition crypt_format :: "byte list \<Rightarrow> (byte list \<Rightarrow> bool) \<Rightarrow> nat \<Rightarrow> byte list \<Rightarrow> bool" where
  "crypt_format p mid_ok w s \<longleftrightarrow>
     (let head = take (length s - w) s; digest = drop (length s - w) s
      in length digest = w \<and> set digest \<subseteq> set b64t \<and> take (length p) head = p \<and>
         length p < length head \<and> last head = dollar \<and> mid_ok (butlast (drop (length p) head)))"

definition md5_format :: "byte list \<Rightarrow> bool" where
  "md5_format = crypt_format md5_salt_prefix (salt_field 8) 22"

definition sha256_format :: "byte list \<Rightarrow> bool" where
  "sha256_format = crypt_format sha256_salt_prefix (\<lambda>mid. salt_field 16 mid \<or> rounds_field 16 mid) 43"

definition sha512_format :: "byte list \<Rightarrow> bool" where
  "sha512_format = crypt_format sha512_salt_prefix (\<lambda>mid. salt_field 16 mid \<or> rounds_field 16 mid) 86"

section \<open>Strings of the format\<close>

lemma crypt_format_parts:
  assumes "mid_ok mid" "set digest \<subseteq> set b64t" "length digest = w"
  shows "crypt_format p mid_ok w (p @ mid @ [dollar] @ digest)"
proof -
  have "length (p @ mid @ [dollar] @ digest) - w = length (p @ mid @ [dollar])" using assms(3) by simp
  then have "take (length (p @ mid @ [dollar] @ digest) - w) (p @ mid @ [dollar] @ digest) = p @ mid @ [dollar]"
      "drop (length (p @ mid @ [dollar] @ digest) - w) (p @ mid @ [dollar] @ digest) = digest"
    by simp_all
  then show ?thesis using assms unfolding crypt_format_def Let_def by (simp add: butlast_append)
qed

lemma result_format:
  assumes "mid_ok ((case rounds of None \<Rightarrow> [] | Some r \<Rightarrow> rounds_prefix @ decimal r @ [dollar]) @ salt)"
  shows "crypt_format p mid_ok (sum_list (map group_width groups)) (result_string p groups rounds salt d)"
proof -
  have "set (concat (map (group_text d) groups)) \<subseteq> set b64t"
    using b64_text_chars by (fastforce simp: group_text_def split: prod.splits)
  then show ?thesis
    using crypt_format_parts [of mid_ok, OF assms, of "concat (map (group_text d) groups)"]
    by (simp add: result_string_def length_groups)
qed

lemma rounds_field_text:
  assumes "1000 \<le> r" "r \<le> 999999999" "salt_field k salt"
  shows "rounds_field k (rounds_prefix @ decimal r @ dollar # salt)"
proof -
  have "\<not> isdigit dollar" by (simp add: isdigit_def dollar_def)
  then have "takeWhile isdigit (decimal r @ dollar # salt) = decimal r" "dropWhile isdigit (decimal r @ dollar # salt) = dollar # salt"
    using decimal_digits(1) [of r] by (auto simp: takeWhile_append2 dropWhile_append2)
  then show ?thesis
    using assms unfolding rounds_field_def Let_def append_eq_conv_conj [symmetric] by (simp add: digits_val_decimal \<open>\<not> isdigit dollar\<close>)
qed

lemma crypt_string_format:
  "crypt_format p (\<lambda>mid. salt_field 16 mid \<or> rounds_field 16 mid) (sum_list (map group_width groups)) (crypt_string H p groups key s)"
proof -
  obtain rounds custom rest where parse: "parse_salt p s = (rounds, custom, rest)" by (cases "parse_salt p s") auto
  have salt: "salt_field 16 (take (salt_length rest) rest)" using salt_no_dollar(1,2) by (simp add: salt_field_def)
  show ?thesis
    unfolding crypt_string_def parse Let_def prod.case
    by (rule result_format) (use salt rounds_field_text [OF _ _ salt] parse_salt_shape(2,3) [OF parse] in \<open>auto split: option.splits\<close>)
qed

lemma md5_string_format: "md5_format (md5_crypt_string key salt)"
proof -
  have "salt_field 8 (take (md5_salt_length s) s)" for s using md5_salt_shape(1,2) by (simp add: salt_field_def)
  then show ?thesis
    using result_format [of "salt_field 8" None _ md5_salt_prefix md5_groups]
    by (simp add: md5_format_def md5_crypt_string_def md5_group_widths Let_def)
qed

lemma outcome_cstring:
  assumes "crypt_outcome cleared s nomem buf res" "res = Some (RESULT, buf', sc)" "0 \<notin> set s"
  shows "cstring buf' = s"
  using assms cstring_terminated [of s buf'] by (auto simp: crypt_outcome_def split: if_splits)

section \<open>The property\<close>

text \<open>C37. Whatever the key, the salt and the size of the buffer: when a password hash returns a
  string, it has the format of its kind. It begins with the prefix, has a salt of at most 8 (MD5) or
  16 characters without a dollar sign, for SHA possibly behind a number of rounds from 1000 to
  999999999, and after a dollar sign exactly 22, 43 or 86 characters of the base 64 alphabet.\<close>

theorem crypt_result_format:
  assumes "0 \<notin> set salt"
    and "length (buffer (ctx sc)) = 128" "length (buffer (alt_ctx sc)) = 128"
    and "length (buffer (ctx sc1)) = 128" "length (buffer (alt_ctx sc1)) = 128"
    and "length (buffer (ctx sc2)) = 256" "length (buffer (alt_ctx sc2)) = 256"
  shows "(md5_crypt_r sau paddr env key salt buf (int (length buf)) sc = Some (RESULT, buf', sc') \<longrightarrow> md5_format (cstring buf')) \<and>
    (sha256_crypt_r sau env key salt buf (int (length buf)) sc1 = Some (RESULT, buf', sc1') \<longrightarrow> sha256_format (cstring buf')) \<and>
    (sha512_crypt_r u128 sau env key salt buf (int (length buf)) sc2 = Some (RESULT, buf', sc2') \<longrightarrow> sha512_format (cstring buf'))"
proof (intro conjI impI)
  assume "md5_crypt_r sau paddr env key salt buf (int (length buf)) sc = Some (RESULT, buf', sc')"
  then have "cstring buf' = md5_crypt_string key salt"
    by (rule outcome_cstring [OF md5_crypt_r_outcome [OF assms(2,3)] _ md5_string(3) [OF assms(1)]])
  then show "md5_format (cstring buf')" by (simp add: md5_string_format)
next
  assume "sha256_crypt_r sau env key salt buf (int (length buf)) sc1 = Some (RESULT, buf', sc1')"
  then have "cstring buf' = crypt_string sha256_ref sha256_salt_prefix sha256_groups key salt"
    unfolding sha256_crypt_r_def using assms(4,5)
    by (intro outcome_cstring [OF sha256_crypt.sha_crypt_r_outcome _ sha256_string(2) [OF assms(1)]]) simp_all
  then show "sha256_format (cstring buf')"
    using crypt_string_format [of sha256_salt_prefix sha256_groups] by (simp add: sha256_format_def group_widths)
next
  assume "sha512_crypt_r u128 sau env key salt buf (int (length buf)) sc2 = Some (RESULT, buf', sc2')"
  moreover have "0 \<notin> set (crypt_string sha512_ref sha512_salt_prefix sha512_groups key salt)"
    using assms(1) by (simp add: crypt_string_chars sha512_salt_prefix_def)
  ultimately have "cstring buf' = crypt_string sha512_ref sha512_salt_prefix sha512_groups key salt"
    unfolding sha512_crypt_r_def using assms(6,7)
    by (intro outcome_cstring [OF sha512_crypt.sha_crypt_r_outcome]) simp_all
  then show "sha512_format (cstring buf')"
    using crypt_string_format [of sha512_salt_prefix sha512_groups] by (simp add: sha512_format_def group_widths)
qed

lemma crypt_result_format_witness:
  "\<exists>buf1 sc1 buf2 sc2.
     md5_crypt_r True 5 plain_env [112] [97] (replicate 80 1) 80 fresh_md5_scratch = Some (RESULT, buf1, sc1) \<and> md5_format (cstring buf1) \<and>
     sha256_crypt_r True plain_env [112] [97] (replicate 80 1) 80 fresh_sha256_scratch = Some (RESULT, buf2, sc2) \<and> sha256_format (cstring buf2)"
proof -
  let ?buf = "replicate 80 (1 :: byte)"
  have sizes: "length (buffer (ctx fresh_md5_scratch)) = 128" "length (buffer (alt_ctx fresh_md5_scratch)) = 128"
      "length (buffer (ctx fresh_sha256_scratch)) = 128" "length (buffer (alt_ctx fresh_sha256_scratch)) = 128"
      "length (buffer (ctx fresh_sha512_scratch)) = 256" "length (buffer (alt_ctx fresh_sha512_scratch)) = 256"
    by (simp_all add: fresh_md5_scratch_def fresh_md5_ctx_def fresh_sha256_scratch_def fresh_sha256_ctx_def
        fresh_sha512_scratch_def fresh_sha512_ctx_def)
  have env: "key_tmp_ok plain_env" "p_bytes_ok plain_env" and nz: "(0 :: byte) \<notin> set [97]" and len: "int (length ?buf) = 80"
    by (simp_all add: plain_env_def)
  have "length (md5_crypt_string [112] [97]) < length ?buf"
    using md5_string(1) [of "[112]" "[97]"] by simp
  then obtain buf1 sc1 where 1: "md5_crypt_r True 5 plain_env [112] [97] ?buf (int (length ?buf)) fresh_md5_scratch = Some (RESULT, buf1, sc1)"
    using md5_crypt_r_result [OF sizes(1,2) env(1) nz] by blast
  have "length (crypt_string sha256_ref sha256_salt_prefix sha256_groups [112] [97]) < length ?buf"
    using sha256_string(1) [of sha256_ref "[112]" "[97]"] by simp
  then obtain buf2 sc2 where 2: "sha256_crypt_r True plain_env [112] [97] ?buf (int (length ?buf)) fresh_sha256_scratch = Some (RESULT, buf2, sc2)"
    using sha256_crypt_r_result [OF sizes(3,4) env nz] by blast
  have "md5_format (cstring buf1)" "sha256_format (cstring buf2)"
    using crypt_result_format [OF nz sizes] 1 2 by blast+
  then show ?thesis using 1 2 unfolding len by blast
qed

end
