(* ===== verification/Mpn.thy ===== *)
theory Mpn
  imports Prelude "HOL-Library.Monad_Syntax"
begin

text \<open>
  The generic multiple precision routines of stdlib/ (add_n.c, sub_n.c, mul_1.c, addmul_1.c,
  submul_1.c, lshift.c, rshift.c, cmp.c, the inline functions of gmp.h and the macros of
  longlong.h), on which the conversion of floating-point numbers rests.

  Numbers are arrays of 64-bit limbs in one memory, least significant limb first; a pointer is the
  index of a limb. Source and destination may overlap, so the theorems say for which overlaps the
  routines are correct. A loop that tests at its end takes at least one turn: called with size 0 it
  would run through the whole memory, which is \<open>None\<close>.
\<close>

type_synonym limb = u64
type_synonym mem = "nat \<Rightarrow> limb"

section \<open>longlong.h\<close>

definition ll_B :: limb where
  "ll_B = push_bit 32 1"

definition ll_lowpart :: "limb \<Rightarrow> limb" where
  "ll_lowpart t = t AND (ll_B - 1)"

definition ll_highpart :: "limb \<Rightarrow> limb" where
  "ll_highpart t = drop_bit 32 t"

definition umul_ppmm :: "limb \<Rightarrow> limb \<Rightarrow> limb \<times> limb" where
  "umul_ppmm u v =
     (let ul = ll_lowpart u; uh = ll_highpart u; vl = ll_lowpart v; vh = ll_highpart v;
          x0 = ul * vl; x1 = ul * vh; x2 = uh * vl; x3 = uh * vh;
          x1 = x1 + ll_highpart x0;
          x1 = x1 + x2;
          x3 = (if x1 < x2 then x3 + ll_B else x3)
      in (x3 + ll_highpart x1, ll_lowpart x1 * ll_B + ll_lowpart x0))"

section \<open>Loops over limbs\<close>

text \<open>The loops of add_n.c, sub_n.c, mul_1.c, addmul_1.c and submul_1.c: \<open>f\<close> computes from the limbs at
  two pointers and the carry a limb, which is stored, and the new carry.\<close>

fun limb_loop :: "(limb \<Rightarrow> limb \<Rightarrow> limb \<Rightarrow> limb \<times> limb) \<Rightarrow> nat \<Rightarrow> nat \<Rightarrow> nat \<Rightarrow> nat \<Rightarrow> limb \<Rightarrow> mem \<Rightarrow> mem \<times> limb" where
  "limb_loop f 0 res_ptr s1_ptr s2_ptr cy m = (m, cy)"
| "limb_loop f (Suc j) res_ptr s1_ptr s2_ptr cy m =
     (let (y, cy) = f (m s1_ptr) (m s2_ptr) cy
      in limb_loop f j (res_ptr + 1) (s1_ptr + 1) (s2_ptr + 1) cy (m(res_ptr := y)))"

definition do_loop ::
  "(limb \<Rightarrow> limb \<Rightarrow> limb \<Rightarrow> limb \<times> limb) \<Rightarrow> nat \<Rightarrow> nat \<Rightarrow> nat \<Rightarrow> nat \<Rightarrow> mem \<Rightarrow> (mem \<times> limb) option" where
  "do_loop f sz res_ptr s1_ptr s2_ptr m =
     (if sz = 0 then None else Some (limb_loop f sz res_ptr s1_ptr s2_ptr 0 m))"

definition add_step :: "limb \<Rightarrow> limb \<Rightarrow> limb \<Rightarrow> limb \<times> limb" where
  "add_step x y cy =
     (let y = y + cy;
          cy = of_bool (y < cy);
          y = x + y;
          cy = of_bool (y < x) + cy
      in (y, cy))"

definition mpn_add_n :: "nat \<Rightarrow> nat \<Rightarrow> nat \<Rightarrow> nat \<Rightarrow> mem \<Rightarrow> (mem \<times> limb) option" where
  "mpn_add_n res_ptr s1_ptr s2_ptr sz m = do_loop add_step sz res_ptr s1_ptr s2_ptr m"

definition sub_step :: "limb \<Rightarrow> limb \<Rightarrow> limb \<Rightarrow> limb \<times> limb" where
  "sub_step x y cy =
     (let y = y + cy;
          cy = of_bool (y < cy);
          y = x - y;
          cy = of_bool (y > x) + cy
      in (y, cy))"

definition mpn_sub_n :: "nat \<Rightarrow> nat \<Rightarrow> nat \<Rightarrow> nat \<Rightarrow> mem \<Rightarrow> (mem \<times> limb) option" where
  "mpn_sub_n res_ptr s1_ptr s2_ptr sz m = do_loop sub_step sz res_ptr s1_ptr s2_ptr m"

definition mul_step :: "limb \<Rightarrow> limb \<Rightarrow> limb \<Rightarrow> limb \<times> limb" where
  "mul_step s2_limb x cy_limb =
     (let (prod_high, prod_low) = umul_ppmm x s2_limb;
          prod_low = prod_low + cy_limb;
          cy_limb = of_bool (prod_low < cy_limb) + prod_high
      in (prod_low, cy_limb))"

definition mpn_mul_1 :: "nat \<Rightarrow> nat \<Rightarrow> nat \<Rightarrow> limb \<Rightarrow> mem \<Rightarrow> (mem \<times> limb) option" where
  "mpn_mul_1 res_ptr s1_ptr s1_size s2_limb m =
     do_loop (\<lambda>x _. mul_step s2_limb x) s1_size res_ptr s1_ptr res_ptr m"

definition addmul_step :: "limb \<Rightarrow> limb \<Rightarrow> limb \<Rightarrow> limb \<Rightarrow> limb \<times> limb" where
  "addmul_step s2_limb s1 x cy_limb =
     (let (prod_low, cy_limb) = mul_step s2_limb s1 cy_limb;
          prod_low = x + prod_low;
          cy_limb = cy_limb + of_bool (prod_low < x)
      in (prod_low, cy_limb))"

definition mpn_addmul_1 :: "nat \<Rightarrow> nat \<Rightarrow> nat \<Rightarrow> limb \<Rightarrow> mem \<Rightarrow> (mem \<times> limb) option" where
  "mpn_addmul_1 res_ptr s1_ptr s1_size s2_limb m =
     do_loop (addmul_step s2_limb) s1_size res_ptr s1_ptr res_ptr m"

definition submul_step :: "limb \<Rightarrow> limb \<Rightarrow> limb \<Rightarrow> limb \<Rightarrow> limb \<times> limb" where
  "submul_step s2_limb s1 x cy_limb =
     (let (prod_low, cy_limb) = mul_step s2_limb s1 cy_limb;
          prod_low = x - prod_low;
          cy_limb = cy_limb + of_bool (prod_low > x)
      in (prod_low, cy_limb))"

definition mpn_submul_1 :: "nat \<Rightarrow> nat \<Rightarrow> nat \<Rightarrow> limb \<Rightarrow> mem \<Rightarrow> (mem \<times> limb) option" where
  "mpn_submul_1 res_ptr s1_ptr s1_size s2_limb m =
     do_loop (submul_step s2_limb) s1_size res_ptr s1_ptr res_ptr m"

section \<open>gmp-impl.h, gmp.h, cmp.c\<close>

fun MPN_COPY_INCR :: "nat \<Rightarrow> nat \<Rightarrow> nat \<Rightarrow> mem \<Rightarrow> mem" where
  "MPN_COPY_INCR dst src 0 m = m"
| "MPN_COPY_INCR dst src (Suc n) m = MPN_COPY_INCR (dst + 1) (src + 1) n (m(dst := m src))"

fun MPN_ZERO :: "nat \<Rightarrow> nat \<Rightarrow> mem \<Rightarrow> mem" where
  "MPN_ZERO dst 0 m = m"
| "MPN_ZERO dst (Suc n) m = MPN_ZERO (dst + 1) n (m(dst := 0))"

text \<open>The end of \<open>mpn_add_1\<close> and \<open>mpn_sub_1\<close> (label \<open>fin\<close>): the limbs that do not change.\<close>

definition copy_rest :: "nat \<Rightarrow> nat \<Rightarrow> nat \<Rightarrow> mem \<Rightarrow> mem" where
  "copy_rest res_ptr s1_ptr n m = (if res_ptr \<noteq> s1_ptr then MPN_COPY_INCR res_ptr s1_ptr n m else m)"

text \<open>The loop that carries on; \<open>n\<close> limbs are left.\<close>

fun add_1_carry :: "nat \<Rightarrow> nat \<Rightarrow> nat \<Rightarrow> mem \<Rightarrow> mem \<times> limb" where
  "add_1_carry res_ptr s1_ptr 0 m = (m, 1)"
| "add_1_carry res_ptr s1_ptr (Suc n) m =
     (let x = m s1_ptr + 1;
          m = m(res_ptr := x)
      in if x \<noteq> 0 then (copy_rest (res_ptr + 1) (s1_ptr + 1) n m, 0)
         else add_1_carry (res_ptr + 1) (s1_ptr + 1) n m)"

definition mpn_add_1 :: "nat \<Rightarrow> nat \<Rightarrow> nat \<Rightarrow> limb \<Rightarrow> mem \<Rightarrow> (mem \<times> limb) option" where
  "mpn_add_1 res_ptr s1_ptr s1_size s2_limb m =
     (if s1_size = 0 then None
      else let x = m s1_ptr;
               s2_limb = x + s2_limb;
               m = m(res_ptr := s2_limb)
           in Some (if s2_limb < x then add_1_carry (res_ptr + 1) (s1_ptr + 1) (s1_size - 1) m
                    else (copy_rest (res_ptr + 1) (s1_ptr + 1) (s1_size - 1) m, 0)))"

fun sub_1_borrow :: "nat \<Rightarrow> nat \<Rightarrow> nat \<Rightarrow> mem \<Rightarrow> mem \<times> limb" where
  "sub_1_borrow res_ptr s1_ptr 0 m = (m, 1)"
| "sub_1_borrow res_ptr s1_ptr (Suc n) m =
     (let x = m s1_ptr;
          m = m(res_ptr := x - 1)
      in if x \<noteq> 0 then (copy_rest (res_ptr + 1) (s1_ptr + 1) n m, 0)
         else sub_1_borrow (res_ptr + 1) (s1_ptr + 1) n m)"

definition mpn_sub_1 :: "nat \<Rightarrow> nat \<Rightarrow> nat \<Rightarrow> limb \<Rightarrow> mem \<Rightarrow> (mem \<times> limb) option" where
  "mpn_sub_1 res_ptr s1_ptr s1_size s2_limb m =
     (if s1_size = 0 then None
      else let x = m s1_ptr;
               s2_limb = x - s2_limb;
               m = m(res_ptr := s2_limb)
           in Some (if s2_limb > x then sub_1_borrow (res_ptr + 1) (s1_ptr + 1) (s1_size - 1) m
                    else (copy_rest (res_ptr + 1) (s1_ptr + 1) (s1_size - 1) m, 0)))"

definition mpn_add :: "nat \<Rightarrow> nat \<Rightarrow> nat \<Rightarrow> nat \<Rightarrow> nat \<Rightarrow> mem \<Rightarrow> (mem \<times> limb) option" where
  "mpn_add res_ptr s1_ptr s1_size s2_ptr s2_size m =
     do { (m, cy_limb) \<leftarrow> (if s2_size \<noteq> 0 then mpn_add_n res_ptr s1_ptr s2_ptr s2_size m else Some (m, 0));
          if s1_size - s2_size \<noteq> 0
          then mpn_add_1 (res_ptr + s2_size) (s1_ptr + s2_size) (s1_size - s2_size) cy_limb m
          else Some (m, cy_limb) }"

definition mpn_sub :: "nat \<Rightarrow> nat \<Rightarrow> nat \<Rightarrow> nat \<Rightarrow> nat \<Rightarrow> mem \<Rightarrow> (mem \<times> limb) option" where
  "mpn_sub res_ptr s1_ptr s1_size s2_ptr s2_size m =
     do { (m, cy_limb) \<leftarrow> (if s2_size \<noteq> 0 then mpn_sub_n res_ptr s1_ptr s2_ptr s2_size m else Some (m, 0));
          if s1_size - s2_size \<noteq> 0
          then mpn_sub_1 (res_ptr + s2_size) (s1_ptr + s2_size) (s1_size - s2_size) cy_limb m
          else Some (m, cy_limb) }"

text \<open>From the most significant limb down.\<close>

fun mpn_cmp :: "nat \<Rightarrow> nat \<Rightarrow> nat \<Rightarrow> mem \<Rightarrow> int" where
  "mpn_cmp op1_ptr op2_ptr 0 m = 0"
| "mpn_cmp op1_ptr op2_ptr (Suc i) m =
     (let op1_word = m (op1_ptr + i); op2_word = m (op2_ptr + i)
      in if op1_word \<noteq> op2_word then if op1_word > op2_word then 1 else -1
         else mpn_cmp op1_ptr op2_ptr i m)"

section \<open>lshift.c and rshift.c\<close>

text \<open>From the high to the low end; \<open>i\<close> limbs are left. A count of 0 or 64 and more is a shift that C leaves
  undefined, and an array without limbs is read outside its bounds.\<close>

fun lshift_loop :: "nat \<Rightarrow> nat \<Rightarrow> nat \<Rightarrow> nat \<Rightarrow> limb \<Rightarrow> mem \<Rightarrow> mem" where
  "lshift_loop sh_1 wp up 0 high_limb m = m(wp := push_bit sh_1 high_limb)"
| "lshift_loop sh_1 wp up (Suc i) high_limb m =
     (let low_limb = m (up + i)
      in lshift_loop sh_1 wp up i low_limb
           (m(wp + 1 + i := push_bit sh_1 high_limb OR drop_bit (64 - sh_1) low_limb)))"

definition mpn_lshift :: "nat \<Rightarrow> nat \<Rightarrow> nat \<Rightarrow> nat \<Rightarrow> mem \<Rightarrow> (mem \<times> limb) option" where
  "mpn_lshift wp up usize cnt m =
     (if usize = 0 \<or> cnt = 0 \<or> 64 \<le> cnt then None
      else let low_limb = m (up + (usize - 1));
               retval = drop_bit (64 - cnt) low_limb
           in Some (lshift_loop cnt wp up (usize - 1) low_limb m, retval))"

fun rshift_loop :: "nat \<Rightarrow> nat \<Rightarrow> nat \<Rightarrow> nat \<Rightarrow> limb \<Rightarrow> mem \<Rightarrow> mem" where
  "rshift_loop sh_1 wp up 0 low_limb m = m(wp := drop_bit sh_1 low_limb)"
| "rshift_loop sh_1 wp up (Suc n) low_limb m =
     (let high_limb = m up
      in rshift_loop sh_1 (wp + 1) (up + 1) n high_limb
           (m(wp := drop_bit sh_1 low_limb OR push_bit (64 - sh_1) high_limb)))"

definition mpn_rshift :: "nat \<Rightarrow> nat \<Rightarrow> nat \<Rightarrow> nat \<Rightarrow> mem \<Rightarrow> (mem \<times> limb) option" where
  "mpn_rshift wp up usize cnt m =
     (if usize = 0 \<or> cnt = 0 \<or> 64 \<le> cnt then None
      else let high_limb = m up;
               retval = push_bit (64 - cnt) high_limb
           in Some (rshift_loop cnt wp (up + 1) (usize - 1) high_limb m, retval))"

section \<open>Numbers in memory\<close>

definition BB :: int where
  "BB = 2 ^ 64"

fun val :: "mem \<Rightarrow> nat \<Rightarrow> nat \<Rightarrow> int" where
  "val m p 0 = 0"
| "val m p (Suc n) = uint (m p) + BB * val m (p + 1) n"

text \<open>A routine changes only \<open>n\<close> limbs at \<open>r\<close>.\<close>

definition writes :: "nat \<Rightarrow> nat \<Rightarrow> mem \<Rightarrow> mem \<Rightarrow> bool" where
  "writes r n m m' \<longleftrightarrow> (\<forall>a. a < r \<or> r + n \<le> a \<longrightarrow> m' a = m a)"

definition sep :: "nat \<Rightarrow> nat \<Rightarrow> nat \<Rightarrow> nat \<Rightarrow> bool" where
  "sep p n q k \<longleftrightarrow> p + n \<le> q \<or> q + k \<le> p"

text \<open>The overlaps that a loop from the low to the high end allows.\<close>

definition upward :: "nat \<Rightarrow> nat \<Rightarrow> nat \<Rightarrow> bool" where
  "upward r s n \<longleftrightarrow> r \<le> s \<or> s + n \<le> r"

lemma BB_pos [simp]: "0 < BB" "0 \<le> BB" "1 < BB" "BB \<noteq> 0"
  by (simp_all add: BB_def)

lemma limb_range [simp]: "0 \<le> uint x" "uint x < BB" "uint x \<le> BB - 1" for x :: limb
  using uint_lt2p [of x] by (simp_all add: BB_def)

lemma val_range: "0 \<le> val m p n" "val m p n < BB ^ n"
proof (induction n arbitrary: p)
  case (Suc n)
  { case 1 then show ?case using Suc.IH(1) by simp }
  { case 2
    have "BB * val m (p + 1) n \<le> BB * (BB ^ n - 1)" using Suc.IH(2) [of "p + 1"] by (intro mult_left_mono) simp_all
    then have "uint (m p) + BB * val m (p + 1) n < BB + BB * (BB ^ n - 1)" using limb_range(2) [of "m p"] by linarith
    then show ?case by (simp add: algebra_simps) }
qed simp_all

lemma val_cong: "(\<And>i. i < n \<Longrightarrow> m' (p + i) = m (p + i)) \<Longrightarrow> val m' p n = val m p n"
proof (induction n arbitrary: p)
  case (Suc n)
  have "val m' (p + 1) n = val m (p + 1) n"
  proof (rule Suc.IH)
    show "m' (p + 1 + i) = m (p + 1 + i)" if "i < n" for i using Suc.prems [of "Suc i"] that by simp
  qed
  then show ?case using Suc.prems [of 0] by simp
qed simp

lemma val_writes: "writes r n m m' \<Longrightarrow> sep r n p k \<Longrightarrow> val m' p k = val m p k"
  by (rule val_cong) (auto simp: writes_def sep_def)

lemma writes_at: "writes r n m m' \<Longrightarrow> a < r \<or> r + n \<le> a \<Longrightarrow> m' a = m a"
  unfolding writes_def by blast

lemma val_append: "val m p (k + n) = val m p k + BB ^ k * val m (p + k) n"
  by (induction k arbitrary: p) (simp_all add: algebra_simps)

lemma val_split: "k \<le> n \<Longrightarrow> val m p n = val m p k + BB ^ k * val m (p + k) (n - k)"
  using val_append [of m p k "n - k"] by simp

lemma val_snoc: "val m p (Suc n) = val m p n + BB ^ n * uint (m (p + n))"
  using val_append [of m p n 1] by simp

lemma writes_refl [simp]: "writes r n m m"
  by (simp add: writes_def)

lemma writes_upd [simp]: "r \<le> a \<Longrightarrow> a < r + n \<Longrightarrow> writes r n m m' \<Longrightarrow> writes r n m (m'(a := x))"
  by (auto simp: writes_def)

lemma writes_trans: "writes r n m m' \<Longrightarrow> writes r' n' m' m'' \<Longrightarrow> r'' \<le> r \<Longrightarrow> r + n \<le> r'' + n'' \<Longrightarrow> r'' \<le> r' \<Longrightarrow> r' + n' \<le> r'' + n'' \<Longrightarrow> writes r'' n'' m m''"
  by (auto simp: writes_def)

section \<open>One step\<close>

lemma carry_sum: "uint (a + b) + BB * of_bool (a + b < a) = uint a + uint b" for a b :: limb
  using limb_range(2) [of b] by (auto simp: uint_plus_if' word_less_def BB_def)

lemma carry_sum_right: "uint (a + b) + BB * of_bool (a + b < b) = uint a + uint b" for a b :: limb
  using carry_sum [of b a] by (simp add: add.commute)

lemma borrow_diff: "uint (a - b) - BB * of_bool (a - b > a) = uint a - uint b" for a b :: limb
  using limb_range(2) [of b] by (auto simp: uint_sub_if' word_less_def BB_def)

lemma uint_of_bool [simp]: "uint (of_bool b :: limb) = of_bool b"
  by (cases b) simp_all

lemma uint_add_small: "uint a + uint b < BB \<Longrightarrow> uint (a + b) = uint a + uint b" for a b :: limb
  by (simp add: uint_plus_if' BB_def)

lemma add_step:
  assumes "uint cy \<le> 1" "add_step x y cy = (z, cy')"
  shows "uint z + BB * uint cy' = uint x + uint y + uint cy" "uint cy' \<le> 1"
proof -
  let ?c1 = "y + cy < cy" and ?c2 = "x + (y + cy) < x"
  have z: "z = x + (y + cy)" "cy' = of_bool ?c2 + of_bool ?c1" using assms(2) unfolding add_step_def Let_def by (auto simp only: prod.inject)
  have sum: "uint z + BB * (of_bool ?c2 + of_bool ?c1) = uint x + uint y + uint cy"
    using carry_sum [of x "y + cy"] carry_sum_right [of y cy] unfolding z(1) by (simp add: algebra_simps)
  have "BB * (of_bool ?c2 + of_bool ?c1) < BB * 2"
    using sum assms(1) limb_range(1) [of z] limb_range(3) [of x] limb_range(3) [of y] by linarith
  then have le: "of_bool ?c2 + of_bool ?c1 \<le> (1 :: int)" by (cases ?c1; cases ?c2) simp_all
  then have "uint cy' = of_bool ?c2 + of_bool ?c1" unfolding z(2)
    by (subst uint_add_small) (simp_all add: BB_def)
  then show "uint z + BB * uint cy' = uint x + uint y + uint cy" "uint cy' \<le> 1" using sum le by simp_all
qed

lemma sub_step:
  assumes "uint cy \<le> 1" "sub_step x y cy = (z, cy')"
  shows "uint z - BB * uint cy' = uint x - uint y - uint cy" "uint cy' \<le> 1"
proof -
  let ?c1 = "y + cy < cy" and ?c2 = "x - (y + cy) > x"
  have z: "z = x - (y + cy)" "cy' = of_bool ?c2 + of_bool ?c1" using assms(2) unfolding sub_step_def Let_def by (auto simp only: prod.inject)
  have sum: "uint z - BB * (of_bool ?c2 + of_bool ?c1) = uint x - uint y - uint cy"
    using borrow_diff [of x "y + cy"] carry_sum_right [of y cy] unfolding z(1) by (simp add: algebra_simps)
  have "BB * (of_bool ?c2 + of_bool ?c1) < BB * 2"
    using sum assms(1) limb_range(3) [of z] limb_range(1) [of x] limb_range(3) [of y] by linarith
  then have le: "of_bool ?c2 + of_bool ?c1 \<le> (1 :: int)" by (cases ?c1; cases ?c2) simp_all
  then have "uint cy' = of_bool ?c2 + of_bool ?c1" unfolding z(2)
    by (subst uint_add_small) (simp_all add: BB_def)
  then show "uint z - BB * uint cy' = uint x - uint y - uint cy" "uint cy' \<le> 1" using sum le by simp_all
qed

lemma half_parts: "uint (ll_lowpart t) = uint t mod 2 ^ 32" "uint (ll_highpart t) = uint t div 2 ^ 32"
proof -
  have "ll_lowpart t = take_bit 32 t"
    by (simp add: ll_lowpart_def ll_B_def take_bit_eq_mask mask_eq_exp_minus_1)
  then show "uint (ll_lowpart t) = uint t mod 2 ^ 32" by (simp only: unsigned_take_bit_eq) (simp add: take_bit_eq_mod)
  show "uint (ll_highpart t) = uint t div 2 ^ 32"
    using limb_range(2) [of t] by (simp only: ll_highpart_def unsigned_drop_bit_eq) (simp add: drop_bit_eq_div take_bit_int_eq_self BB_def)
qed

lemma uint_mult_small: "uint a * uint b < BB \<Longrightarrow> uint (a * b) = uint a * uint b" for a b :: limb
  by (simp add: uint_word_ariths BB_def)

lemma half_product:
  fixes a b :: int
  assumes "0 \<le> a" "a < 2 ^ 32" "0 \<le> b" "b < 2 ^ 32"
  shows "0 \<le> a * b" "a * b \<le> BB - 2 * 2 ^ 32 + 1"
proof -
  show "0 \<le> a * b" using assms by simp
  have "a * b \<le> (2 ^ 32 - 1) * (2 ^ 32 - 1)" using assms by (intro mult_mono) simp_all
  then show "a * b \<le> BB - 2 * 2 ^ 32 + 1" by (simp add: BB_def)
qed

lemma umul_ppmm:
  assumes "umul_ppmm u v = (w1, w0)"
  shows "BB * uint w1 + uint w0 = uint u * uint v"
proof -
  define h :: int where "h = 2 ^ 32"
  have h: "0 < h" "h * h = BB" by (simp_all add: h_def BB_def)
  have part: "uint (ll_lowpart t) = uint t mod h" "uint (ll_highpart t) = uint t div h" for t
    by (simp_all only: half_parts h_def)
  define ul uh vl vh where "ul = ll_lowpart u" and "uh = ll_highpart u" and "vl = ll_lowpart v" and "vh = ll_highpart v"
  have parts: "uint ul = uint u mod h" "uint uh = uint u div h" "uint vl = uint v mod h" "uint vh = uint v div h"
    by (simp_all only: ul_def uh_def vl_def vh_def part)
  have div_less: "uint t div h < h" for t :: limb
  proof (rule ccontr)
    assume "\<not> uint t div h < h"
    then have "h * h \<le> h * (uint t div h)" using h(1) by (intro mult_left_mono) simp_all
    then show False
      using mult_div_mod_eq [of h "uint t"] pos_mod_sign [OF h(1), of "uint t"] limb_range(2) [of t] h(2) by linarith
  qed
  have small: "0 \<le> uint a \<and> uint a < h" if "a \<in> {ul, uh, vl, vh}" for a
    using that h(1) div_less by (auto simp: parts)
  define x0 x1 x2 x3 where "x0 = ul * vl" and "x1 = ul * vh" and "x2 = uh * vl" and "x3 = uh * vh"
  have prod: "uint (a * b) = uint a * uint b" "uint a * uint b \<le> BB - 2 * h + 1" if "a \<in> {ul, uh, vl, vh}" "b \<in> {ul, uh, vl, vh}" for a b
  proof -
    show le: "uint a * uint b \<le> BB - 2 * h + 1"
      using half_product [of "uint a" "uint b"] small [OF that(1)] small [OF that(2)] by (simp add: h_def)
    show "uint (a * b) = uint a * uint b" using le h(1) by (intro uint_mult_small) (simp add: h_def)
  qed
  have x: "uint x0 = uint ul * uint vl" "uint x1 = uint ul * uint vh" "uint x2 = uint uh * uint vl" "uint x3 = uint uh * uint vh"
    by (simp_all add: x0_def x1_def x2_def x3_def prod)
  define y1 where "y1 = x1 + ll_highpart x0"
  have "uint x1 + uint x0 div h < BB" using prod(2) [of ul vh] div_less [of x0] h(1) unfolding x(2) by simp
  then have y1: "uint y1 = uint x1 + uint x0 div h" by (simp add: y1_def uint_add_small part)
  define c where "c = (of_bool (y1 + x2 < x2) :: int)"
  define z1 where "z1 = y1 + x2"
  have z1: "uint z1 + BB * c = uint y1 + uint x2" using carry_sum_right [of y1 x2] by (simp add: z1_def c_def)
  have w: "w1 = (if z1 < x2 then x3 + ll_B else x3) + ll_highpart z1" "w0 = ll_lowpart z1 * ll_B + ll_lowpart x0"
    using assms unfolding umul_ppmm_def Let_def ul_def uh_def vl_def vh_def x0_def x1_def x2_def x3_def y1_def z1_def
    by (auto simp only: prod.inject)
  have B: "uint ll_B = h" by (simp add: ll_B_def h_def)
  have w0: "uint w0 = (uint z1 mod h) * h + uint x0 mod h"
  proof -
    have "(uint z1 mod h) * h \<le> (h - 1) * h" using h(1) by (intro mult_right_mono) simp_all
    moreover have "(h - 1) * h = BB - h" using h(2) by (simp add: algebra_simps)
    ultimately have le: "(uint z1 mod h) * h \<le> BB - h" by simp
    have m: "uint (ll_lowpart z1 * ll_B) = (uint z1 mod h) * h"
      using le h(1) by (subst uint_mult_small) (simp_all add: part B)
    have "uint x0 mod h < h" using h(1) by simp
    then show ?thesis unfolding w(2) using le by (subst uint_add_small) (simp_all add: m part)
  qed
  let ?w1 = "uint x3 + c * h + uint z1 div h"
  have uv: "uint u * uint v = BB * uint x3 + h * (uint x1 + uint x2) + uint x0"
  proof -
    have "uint u = uint ul + h * uint uh" "uint v = uint vl + h * uint vh" by (simp_all add: parts)
    then show ?thesis unfolding x h(2) [symmetric] by (simp add: algebra_simps)
  qed
  have total: "BB * ?w1 + uint w0 = uint u * uint v"
  proof -
    have "BB * ?w1 + uint w0 = BB * uint x3 + h * (h * h) * c + h * (h * (uint z1 div h) + uint z1 mod h) + uint x0 mod h"
      unfolding w0 h(2) [symmetric] by (simp only: algebra_simps)
    also have "\<dots> = BB * uint x3 + h * (uint z1 + BB * c) + uint x0 mod h"
      unfolding mult_div_mod_eq h(2) by (simp add: algebra_simps)
    also have "\<dots> = BB * uint x3 + h * (uint x1 + uint x2) + (h * (uint x0 div h) + uint x0 mod h)"
      unfolding z1 y1 by (simp add: algebra_simps)
    finally show ?thesis unfolding uv by simp
  qed
  have "?w1 < BB"
  proof -
    have "uint u * uint v \<le> (BB - 1) * (BB - 1)" by (intro mult_mono) simp_all
    moreover have "(BB - 1) * (BB - 1) = BB * BB - 2 * BB + 1" by (simp add: algebra_simps)
    ultimately have "BB * ?w1 < BB * BB" using total limb_range(1) [of w0] BB_pos(3) by linarith
    then show ?thesis by simp
  qed
  then have "uint w1 = ?w1"
    using h(1) pos_imp_zdiv_nonneg_iff [of h "uint z1"] unfolding w(1) c_def z1_def [symmetric]
    by (cases "z1 < x2") (simp_all add: uint_add_small part B)
  then show ?thesis using total by simp
qed

lemma mul_step:
  assumes "mul_step v x cy = (z, cy')"
  shows "uint z + BB * uint cy' = uint x * uint v + uint cy"
proof -
  obtain hi lo where u: "umul_ppmm x v = (hi, lo)" by (cases "umul_ppmm x v")
  let ?c = "lo + cy < cy"
  have z: "z = lo + cy" "cy' = of_bool ?c + hi" using assms unfolding mul_step_def Let_def u prod.case by (auto simp only: prod.inject)
  have sum: "uint z + BB * (of_bool ?c + uint hi) = uint x * uint v + uint cy"
    using umul_ppmm [OF u] carry_sum_right [of lo cy] unfolding z(1) by (simp add: algebra_simps)
  have "uint x * uint v \<le> (BB - 1) * (BB - 1)" by (intro mult_mono) simp_all
  moreover have "(BB - 1) * (BB - 1) = BB * BB - 2 * BB + 1" by (simp add: algebra_simps)
  ultimately have "BB * (of_bool ?c + uint hi) < BB * BB"
    using sum limb_range(1) [of z] limb_range(2) [of cy] BB_pos(3) by linarith
  then have "of_bool ?c + uint hi < BB" by (simp only: mult_less_cancel_left_pos BB_pos)
  then have "uint cy' = of_bool ?c + uint hi" unfolding z(2) by (subst uint_add_small) simp_all
  then show ?thesis using sum by simp
qed

text \<open>A limb more is added to or subtracted from the product; the carry has room for it.\<close>

lemma product_room:
  fixes x v y c q z :: limb
  assumes "int b \<le> 1" "uint z + BB * (uint q + int b) = uint x * uint v + uint y + uint c"
  shows "uint q + int b < BB"
proof -
  have "uint x * uint v \<le> (BB - 1) * (BB - 1)" by (intro mult_mono) simp_all
  moreover have "(BB - 1) * (BB - 1) = BB * BB - 2 * BB + 1" by (simp add: algebra_simps)
  ultimately have "BB * (uint q + int b) < BB * BB"
    using assms(2) limb_range(1) [of z] limb_range(3) [of y] limb_range(3) [of c] by linarith
  then show ?thesis by (simp only: mult_less_cancel_left_pos BB_pos)
qed

lemma addmul_step:
  assumes "addmul_step v x y cy = (z, cy')"
  shows "uint z + BB * uint cy' = uint y + uint x * uint v + uint cy"
proof -
  obtain lo q where u: "mul_step v x cy = (lo, q)" by (cases "mul_step v x cy")
  let ?c = "y + lo < y"
  have z: "z = y + lo" "cy' = q + of_bool ?c" using assms unfolding addmul_step_def Let_def u prod.case by (auto simp only: prod.inject)
  have sum: "uint z + BB * (uint q + of_bool ?c) = uint x * uint v + uint y + uint cy"
    using mul_step [OF u] carry_sum [of y lo] unfolding z(1) by (simp add: algebra_simps)
  have "uint q + of_bool ?c < BB" using product_room [of "of_bool ?c" z q x v y cy] sum by simp
  then have "uint cy' = uint q + of_bool ?c" unfolding z(2) by (subst uint_add_small) simp_all
  then show ?thesis using sum by simp
qed

lemma submul_step:
  assumes "submul_step v x y cy = (z, cy')"
  shows "uint z - BB * uint cy' = uint y - uint x * uint v - uint cy"
proof -
  obtain lo q where u: "mul_step v x cy = (lo, q)" by (cases "mul_step v x cy")
  let ?c = "y - lo > y"
  have z: "z = y - lo" "cy' = q + of_bool ?c" using assms unfolding submul_step_def Let_def u prod.case by (auto simp only: prod.inject)
  have sum: "uint z - BB * (uint q + of_bool ?c) = uint y - uint x * uint v - uint cy"
    using mul_step [OF u] borrow_diff [of y lo] unfolding z(1) by (simp add: algebra_simps)
  have "uint x * uint v \<le> (BB - 1) * (BB - 1)" by (intro mult_mono) simp_all
  moreover have "(BB - 1) * (BB - 1) = BB * BB - 2 * BB + 1" by (simp add: algebra_simps)
  ultimately have "BB * (uint q + of_bool ?c) < BB * BB"
    using sum limb_range(3) [of z] limb_range(1) [of y] limb_range(3) [of cy] by linarith
  then have "uint q + of_bool ?c < BB" by (simp only: mult_less_cancel_left_pos BB_pos)
  then have "uint cy' = uint q + of_bool ?c" unfolding z(2) by (subst uint_add_small) simp_all
  then show ?thesis using sum by simp
qed

section \<open>The loops\<close>

text \<open>What a step has to promise: the limb with the carry of weight \<open>K\<close> is a combination of the two limbs
  it reads, with the coefficients \<open>a\<close> and \<open>b\<close>.\<close>

locale limb_step =
  fixes f :: "limb \<Rightarrow> limb \<Rightarrow> limb \<Rightarrow> limb \<times> limb" and a b :: int and K :: "limb \<Rightarrow> int" and ok :: "limb \<Rightarrow> bool"
  assumes start: "ok 0" "K 0 = 0"
    and step: "ok c \<Longrightarrow> f x y c = (z, c') \<Longrightarrow> uint z + BB * K c' = a * uint x + b * uint y + K c \<and> ok c'"
begin

lemma loop_correct:
  assumes "ok cy" "upward r s1 n" "upward r s2 n" "limb_loop f n r s1 s2 cy m = (m', cy')"
  shows "val m' r n + BB ^ n * K cy' = a * val m s1 n + b * val m s2 n + K cy \<and> ok cy' \<and> writes r n m m'"
  using assms
proof (induction n arbitrary: r s1 s2 cy m)
  case (Suc n)
  obtain y c where y: "f (m s1) (m s2) cy = (y, c)" by (cases "f (m s1) (m s2) cy")
  note st = step [OF Suc.prems(1) y]
  define m1 where "m1 = m(r := y)"
  have loop: "limb_loop f n (r + 1) (s1 + 1) (s2 + 1) c m1 = (m', cy')" using Suc.prems(4) by (simp add: y m1_def)
  have up: "upward (r + 1) (s1 + 1) n" "upward (r + 1) (s2 + 1) n" using Suc.prems(2,3) by (auto simp: upward_def)
  have v: "val m1 (s1 + 1) n = val m (s1 + 1) n" "val m1 (s2 + 1) n = val m (s2 + 1) n"
    using Suc.prems(2,3) by (auto simp: m1_def upward_def intro!: val_cong)
  have IH: "val m' (r + 1) n + BB ^ n * K cy' = a * val m1 (s1 + 1) n + b * val m1 (s2 + 1) n + K c" "ok cy'" "writes (r + 1) n m1 m'"
    using Suc.IH [OF _ up loop] st by auto
  have "m' r = y" using writes_at [OF IH(3), of r] by (simp add: m1_def)
  then have "val m' r (Suc n) + BB ^ Suc n * K cy' = uint y + BB * (val m' (r + 1) n + BB ^ n * K cy')" by (simp add: algebra_simps)
  also have "\<dots> = (uint y + BB * K c) + BB * (a * val m (s1 + 1) n + b * val m (s2 + 1) n)"
    unfolding IH(1) v by (simp add: algebra_simps)
  also have "\<dots> = a * val m s1 (Suc n) + b * val m s2 (Suc n) + K cy"
    using st by (simp add: algebra_simps)
  finally show ?case using IH(2,3) by (auto simp: writes_def m1_def)
qed simp

lemma do_loop_correct:
  assumes "0 < n" "upward r s1 n" "upward r s2 n"
  shows "\<exists>m' cy. do_loop f n r s1 s2 m = Some (m', cy) \<and> val m' r n + BB ^ n * K cy = a * val m s1 n + b * val m s2 n \<and>
    ok cy \<and> writes r n m m'"
  using loop_correct [OF start(1) assms(2,3)] start(2) assms(1)
  by (cases "limb_loop f n r s1 s2 0 m") (auto simp: do_loop_def)

end

interpretation add_loop: limb_step add_step 1 1 uint "\<lambda>c. uint c \<le> 1"
  by unfold_locales (simp_all add: add_step)

interpretation sub_loop: limb_step sub_step 1 "-1" "\<lambda>c. - uint c" "\<lambda>c. uint c \<le> 1"
proof
  show "uint z + BB * - uint c' = 1 * uint x + - 1 * uint y + - uint c \<and> uint c' \<le> 1"
    if "uint c \<le> 1" "sub_step x y c = (z, c')" for c x y z c' using sub_step [OF that] by simp
qed simp_all

interpretation mul_loop: limb_step "\<lambda>x _. mul_step v x" "uint v" 0 uint "\<lambda>c. True" for v
  by unfold_locales (simp_all add: mul_step mult.commute)

interpretation addmul_loop: limb_step "addmul_step v" "uint v" 1 uint "\<lambda>c. True" for v
  by unfold_locales (simp_all add: addmul_step mult.commute)

interpretation submul_loop: limb_step "submul_step v" "- uint v" 1 "\<lambda>c. - uint c" "\<lambda>c. True" for v
proof
  show "uint z + BB * - uint c' = - uint v * uint x + 1 * uint y + - uint c \<and> True"
    if "submul_step v x y c = (z, c')" for c x y z c' using submul_step [OF that] by (simp add: mult.commute)
qed simp_all

section \<open>The operations\<close>

lemma mpn_add_n_correct:
  assumes "0 < n" "upward r s1 n" "upward r s2 n"
  shows "\<exists>m' cy. mpn_add_n r s1 s2 n m = Some (m', cy) \<and> val m' r n + BB ^ n * uint cy = val m s1 n + val m s2 n \<and>
    uint cy \<le> 1 \<and> writes r n m m'"
  using add_loop.do_loop_correct [OF assms, of m] by (simp add: mpn_add_n_def)

lemma mpn_sub_n_correct:
  assumes "0 < n" "upward r s1 n" "upward r s2 n"
  shows "\<exists>m' cy. mpn_sub_n r s1 s2 n m = Some (m', cy) \<and> val m' r n - BB ^ n * uint cy = val m s1 n - val m s2 n \<and>
    uint cy \<le> 1 \<and> writes r n m m'"
  using sub_loop.do_loop_correct [OF assms, of m] by (simp add: mpn_sub_n_def)

lemma mpn_mul_1_correct:
  assumes "0 < n" "upward r s1 n"
  shows "\<exists>m' cy. mpn_mul_1 r s1 n v m = Some (m', cy) \<and> val m' r n + BB ^ n * uint cy = uint v * val m s1 n \<and> writes r n m m'"
  using mul_loop.do_loop_correct [OF assms, of r v m] by (simp add: mpn_mul_1_def upward_def)

lemma mpn_addmul_1_correct:
  assumes "0 < n" "upward r s1 n"
  shows "\<exists>m' cy. mpn_addmul_1 r s1 n v m = Some (m', cy) \<and> val m' r n + BB ^ n * uint cy = val m r n + uint v * val m s1 n \<and>
    writes r n m m'"
  using addmul_loop.do_loop_correct [OF assms, of r v m] by (simp add: mpn_addmul_1_def upward_def add.commute)

lemma mpn_submul_1_correct:
  assumes "0 < n" "upward r s1 n"
  shows "\<exists>m' cy. mpn_submul_1 r s1 n v m = Some (m', cy) \<and> val m' r n - BB ^ n * uint cy = val m r n - uint v * val m s1 n \<and>
    writes r n m m'"
  using submul_loop.do_loop_correct [OF assms, of r v m] by (simp add: mpn_submul_1_def upward_def)

lemma MPN_COPY_INCR_correct:
  "upward d s n \<Longrightarrow> val (MPN_COPY_INCR d s n m) d n = val m s n \<and> writes d n m (MPN_COPY_INCR d s n m)"
proof (induction n arbitrary: d s m)
  case (Suc n)
  define m1 where "m1 = m(d := m s)"
  let ?m = "MPN_COPY_INCR (d + 1) (s + 1) n m1"
  have up: "upward (d + 1) (s + 1) n" using Suc.prems by (auto simp: upward_def)
  have IH: "val ?m (d + 1) n = val m1 (s + 1) n" "writes (d + 1) n m1 ?m" using Suc.IH [OF up] by auto
  have v: "val m1 (s + 1) n = val m (s + 1) n" using Suc.prems by (auto simp: m1_def upward_def intro!: val_cong)
  have "?m d = m s" using writes_at [OF IH(2), of d] by (simp add: m1_def)
  moreover have "writes d (Suc n) m ?m" using IH(2) by (auto simp: writes_def m1_def)
  ultimately show ?case using IH(1) v by (simp flip: m1_def)
qed simp

lemma MPN_ZERO_correct: "val (MPN_ZERO d n m) d n = 0 \<and> writes d n m (MPN_ZERO d n m)"
proof (induction n arbitrary: d m)
  case (Suc n)
  define m1 where "m1 = m(d := 0)"
  have IH: "val (MPN_ZERO (d + 1) n m1) (d + 1) n = 0" "writes (d + 1) n m1 (MPN_ZERO (d + 1) n m1)" using Suc.IH by auto
  have "MPN_ZERO (d + 1) n m1 d = 0" using writes_at [OF IH(2), of d] by (simp add: m1_def)
  moreover have "writes d (Suc n) m (MPN_ZERO (d + 1) n m1)" using IH(2) by (auto simp: writes_def m1_def)
  ultimately show ?case using IH(1) by (simp flip: m1_def)
qed simp

lemma copy_rest_correct:
  "upward d s n \<Longrightarrow> val (copy_rest d s n m) d n = val m s n \<and> writes d n m (copy_rest d s n m)"
  using MPN_COPY_INCR_correct by (simp add: copy_rest_def)

text \<open>One limb of a result is stored, and the limbs behind it come from the rest of the source.\<close>

lemma limb_then_rest:
  assumes "upward r s (Suc n)" "writes (r + 1) n (m(r := x)) m'"
  shows "val m' r (Suc n) = uint x + BB * val m' (r + 1) n" "val (m(r := x)) (s + 1) n = val m (s + 1) n" "writes r (Suc n) m m'"
    "upward (r + 1) (s + 1) n"
proof -
  have "m' r = x" using writes_at [OF assms(2), of r] by simp
  then show "val m' r (Suc n) = uint x + BB * val m' (r + 1) n" by simp
  show "val (m(r := x)) (s + 1) n = val m (s + 1) n" using assms(1) by (auto simp: upward_def intro!: val_cong)
  show "writes r (Suc n) m m'" using assms(2) by (auto simp: writes_def)
  show "upward (r + 1) (s + 1) n" using assms(1) by (auto simp: upward_def)
qed

lemma upward_Suc: "upward r s (Suc n) \<Longrightarrow> upward (r + 1) (s + 1) n"
  by (auto simp: upward_def)

lemma add_1_carry_correct:
  assumes "upward r s n" "add_1_carry r s n m = (m', cy)"
  shows "val m' r n + BB ^ n * uint cy = val m s n + 1 \<and> uint cy \<le> 1 \<and> writes r n m m'"
  using assms
proof (induction n arbitrary: r s m)
  case (Suc n)
  define x where "x = m s + 1"
  have x: "uint x + BB * of_bool (x = 0) = uint (m s) + 1"
  proof -
    have "x = 0 \<longleftrightarrow> uint x = 0" by (simp add: uint_0_iff)
    then show ?thesis using limb_range(2) [of "m s"] uint_plus_if' [of "m s" 1] unfolding x_def
      by (auto simp: BB_def) (use uint_nonnegative [of "m s"] in linarith)
  qed
  show ?case
  proof (cases "x = 0")
    case True
    then have "add_1_carry (r + 1) (s + 1) n (m(r := x)) = (m', cy)" using Suc.prems(2) by (simp add: x_def)
    then have IH: "val m' (r + 1) n + BB ^ n * uint cy = val (m(r := x)) (s + 1) n + 1" "uint cy \<le> 1" "writes (r + 1) n (m(r := x)) m'"
      using Suc.IH [OF upward_Suc [OF Suc.prems(1)]] by blast+
    note l = limb_then_rest [OF Suc.prems(1) IH(3)]
    have "val m' r (Suc n) + BB ^ Suc n * uint cy = uint x + BB * (val m' (r + 1) n + BB ^ n * uint cy)"
      unfolding l(1) by (simp add: algebra_simps)
    also have "\<dots> = val m s (Suc n) + 1" unfolding IH(1) l(2) using x True by (simp add: algebra_simps)
    finally show ?thesis using IH(2) l(3) by simp
  next
    case False
    then have m': "m' = copy_rest (r + 1) (s + 1) n (m(r := x))" "cy = 0" using Suc.prems(2) by (auto simp: x_def)
    have c: "val m' (r + 1) n = val (m(r := x)) (s + 1) n" "writes (r + 1) n (m(r := x)) m'"
      using copy_rest_correct [OF upward_Suc [OF Suc.prems(1)]] unfolding m' by blast+
    note l = limb_then_rest [OF Suc.prems(1) c(2)]
    show ?thesis using l(3) x False m'(2) unfolding l(1) c(1) l(2) by simp
  qed
qed simp

lemma mpn_add_1_correct:
  assumes "0 < n" "upward r s n"
  shows "\<exists>m' cy. mpn_add_1 r s n v m = Some (m', cy) \<and> val m' r n + BB ^ n * uint cy = val m s n + uint v \<and>
    uint cy \<le> 1 \<and> writes r n m m'"
proof -
  obtain k where n: "n = Suc k" using assms(1) by (cases n) auto
  let ?x = "m s + v"
  note up = upward_Suc [OF assms(2) [unfolded n]]
  show ?thesis
  proof (cases "?x < m s")
    case True
    obtain m' cy where r: "add_1_carry (r + 1) (s + 1) k (m(r := ?x)) = (m', cy)" by fastforce
    have c: "val m' (r + 1) k + BB ^ k * uint cy = val (m(r := ?x)) (s + 1) k + 1" "uint cy \<le> 1" "writes (r + 1) k (m(r := ?x)) m'"
      using add_1_carry_correct [OF up r] by blast+
    note l = limb_then_rest [OF assms(2) [unfolded n] c(3)]
    have "val m' r n + BB ^ n * uint cy = uint ?x + BB * (val m' (r + 1) k + BB ^ k * uint cy)"
      unfolding n l(1) by (simp only: power_Suc algebra_simps)
    also have "\<dots> = val m s n + uint v"
      using carry_sum [of "m s" v] True unfolding c(1) l(2) n by (simp add: algebra_simps)
    finally show ?thesis using True r c l(3) by (simp add: mpn_add_1_def n Let_def)
  next
    case False
    define m' where "m' = copy_rest (r + 1) (s + 1) k (m(r := ?x))"
    have c: "val m' (r + 1) k = val (m(r := ?x)) (s + 1) k" "writes (r + 1) k (m(r := ?x)) m'"
      using copy_rest_correct [OF up] unfolding m'_def by blast+
    note l = limb_then_rest [OF assms(2) [unfolded n] c(2)]
    have "mpn_add_1 r s n v m = Some (m', 0)" using False by (simp add: mpn_add_1_def n Let_def m'_def)
    moreover have "val m' r n = val m s n + uint v"
      using carry_sum [of "m s" v] False unfolding n l(1) c(1) l(2) by simp
    ultimately show ?thesis using l(3) n by simp
  qed
qed

lemma sub_1_borrow_correct:
  assumes "upward r s n" "sub_1_borrow r s n m = (m', cy)"
  shows "val m' r n - BB ^ n * uint cy = val m s n - 1 \<and> uint cy \<le> 1 \<and> writes r n m m'"
  using assms
proof (induction n arbitrary: r s m)
  case (Suc n)
  define x where "x = m s - 1"
  have x: "uint x - BB * of_bool (m s = 0) = uint (m s) - 1"
    using uint_sub_if' [of "m s" 1] limb_range(1) [of "m s"] uint_0_iff [of "m s"] unfolding x_def
    by (auto simp: BB_def) (use uint_nonnegative [of "m s"] in linarith)
  show ?case
  proof (cases "m s = 0")
    case True
    then have "sub_1_borrow (r + 1) (s + 1) n (m(r := x)) = (m', cy)" using Suc.prems(2) by (simp add: x_def)
    then have IH: "val m' (r + 1) n - BB ^ n * uint cy = val (m(r := x)) (s + 1) n - 1" "uint cy \<le> 1" "writes (r + 1) n (m(r := x)) m'"
      using Suc.IH [OF upward_Suc [OF Suc.prems(1)]] by blast+
    note l = limb_then_rest [OF Suc.prems(1) IH(3)]
    have "val m' r (Suc n) - BB ^ Suc n * uint cy = uint x + BB * (val m' (r + 1) n - BB ^ n * uint cy)"
      unfolding l(1) by (simp add: algebra_simps)
    also have "\<dots> = val m s (Suc n) - 1" unfolding IH(1) l(2) using x True by (simp add: algebra_simps)
    finally show ?thesis using IH(2) l(3) by simp
  next
    case False
    then have m': "m' = copy_rest (r + 1) (s + 1) n (m(r := x))" "cy = 0" using Suc.prems(2) by (auto simp: x_def)
    have c: "val m' (r + 1) n = val (m(r := x)) (s + 1) n" "writes (r + 1) n (m(r := x)) m'"
      using copy_rest_correct [OF upward_Suc [OF Suc.prems(1)]] unfolding m' by blast+
    note l = limb_then_rest [OF Suc.prems(1) c(2)]
    show ?thesis using l(3) x False m'(2) unfolding l(1) c(1) l(2) by simp
  qed
qed simp

lemma mpn_sub_1_correct:
  assumes "0 < n" "upward r s n"
  shows "\<exists>m' cy. mpn_sub_1 r s n v m = Some (m', cy) \<and> val m' r n - BB ^ n * uint cy = val m s n - uint v \<and>
    uint cy \<le> 1 \<and> writes r n m m'"
proof -
  obtain k where n: "n = Suc k" using assms(1) by (cases n) auto
  let ?x = "m s - v"
  note up = upward_Suc [OF assms(2) [unfolded n]]
  show ?thesis
  proof (cases "?x > m s")
    case True
    obtain m' cy where r: "sub_1_borrow (r + 1) (s + 1) k (m(r := ?x)) = (m', cy)" by fastforce
    have c: "val m' (r + 1) k - BB ^ k * uint cy = val (m(r := ?x)) (s + 1) k - 1" "uint cy \<le> 1" "writes (r + 1) k (m(r := ?x)) m'"
      using sub_1_borrow_correct [OF up r] by blast+
    note l = limb_then_rest [OF assms(2) [unfolded n] c(3)]
    have "val m' r n - BB ^ n * uint cy = uint ?x + BB * (val m' (r + 1) k - BB ^ k * uint cy)"
      unfolding n l(1) by (simp only: power_Suc algebra_simps)
    also have "\<dots> = val m s n - uint v"
      using borrow_diff [of "m s" v] True unfolding c(1) l(2) n by (simp add: algebra_simps)
    finally show ?thesis using True r c l(3) by (simp add: mpn_sub_1_def n Let_def)
  next
    case False
    define m' where "m' = copy_rest (r + 1) (s + 1) k (m(r := ?x))"
    have c: "val m' (r + 1) k = val (m(r := ?x)) (s + 1) k" "writes (r + 1) k (m(r := ?x)) m'"
      using copy_rest_correct [OF up] unfolding m'_def by blast+
    note l = limb_then_rest [OF assms(2) [unfolded n] c(2)]
    have "mpn_sub_1 r s n v m = Some (m', 0)" using False by (simp add: mpn_sub_1_def n Let_def m'_def)
    moreover have "val m' r n = val m s n - uint v"
      using borrow_diff [of "m s" v] False unfolding n l(1) c(1) l(2) by simp
    ultimately show ?thesis using l(3) n by simp
  qed
qed

lemma mpn_cmp_correct: "mpn_cmp p q n m = sgn (val m p n - val m q n)"
proof (induction n)
  case (Suc n)
  let ?x = "uint (m (p + n))" and ?y = "uint (m (q + n))"
  have d: "val m p (Suc n) - val m q (Suc n) = (val m p n - val m q n) + BB ^ n * (?x - ?y)"
    unfolding val_snoc by (simp add: algebra_simps)
  have bound: "\<bar>val m p n - val m q n\<bar> < BB ^ n"
    using val_range [where m = m and p = p and n = n] val_range [where m = m and p = q and n = n] by linarith
  show ?case
  proof (cases "m (p + n) = m (q + n)")
    case True
    then show ?thesis using Suc.IH d by (simp del: val.simps)
  next
    case False
    then have "?x \<noteq> ?y" by (simp add: word_uint_eq_iff)
    then consider "?x > ?y" | "?x < ?y" by linarith
    then show ?thesis
    proof cases
      case 1
      then have "BB ^ n * 1 \<le> BB ^ n * (?x - ?y)" by (intro mult_left_mono) simp_all
      then have "0 < val m p (Suc n) - val m q (Suc n)" using d bound by linarith
      then show ?thesis using False 1 by (simp add: word_less_def del: val.simps)
    next
      case 2
      then have "BB ^ n * 1 \<le> BB ^ n * (?y - ?x)" by (intro mult_left_mono) simp_all
      then have "val m p (Suc n) - val m q (Suc n) < 0" using d bound by (simp add: algebra_simps del: val.simps)
      then show ?thesis using False 2 by (simp add: word_less_def del: val.simps)
    qed
  qed
qed simp

section \<open>Shifts\<close>

lemma uint_push_limb: "uint (push_bit c x) = 2 ^ c * uint x mod BB" for x :: limb
  by (simp only: unsigned_push_bit_eq) (simp add: BB_def take_bit_eq_mod push_bit_eq_mult mult.commute)

lemma uint_drop_limb: "uint (drop_bit c x) = uint x div 2 ^ c" for x :: limb
  using limb_range(2) [of x] by (simp only: unsigned_drop_bit_eq) (simp add: drop_bit_eq_div take_bit_int_eq_self BB_def)

lemma uint_or_disjoint:
  fixes a b :: limb
  assumes "a AND b = 0"
  shows "uint (a OR b) = uint a + uint b"
proof -
  have "uint a AND uint b = uint (a AND b)" by (simp only: unsigned_and_eq)
  then have "uint a AND uint b = 0" using assms by simp
  then show ?thesis by (simp only: unsigned_or_eq disjunctive_add_eq_or)
qed

lemma uint_shifted_pair:
  fixes high low :: limb
  assumes "c \<le> 64"
  shows "uint (push_bit c high OR drop_bit (64 - c) low) = 2 ^ c * uint high mod BB + uint low div 2 ^ (64 - c)"
proof -
  have "push_bit c high AND drop_bit (64 - c) low = 0"
    by (rule bit_word_eqI) (use assms in \<open>auto simp: bit_and_iff bit_push_bit_iff bit_drop_bit_eq dest: bit_imp_le_length\<close>)
  then show ?thesis by (simp only: uint_or_disjoint uint_push_limb uint_drop_limb)
qed

lemma shift_parts:
  fixes x :: limb
  assumes "c \<le> 64"
  shows "2 ^ c * uint x = BB * (uint x div 2 ^ (64 - c)) + 2 ^ c * uint x mod BB"
proof -
  have B: "BB = 2 ^ c * 2 ^ (64 - c)" using assms by (simp add: BB_def flip: power_add)
  have "2 ^ c * uint x div BB = uint x div 2 ^ (64 - c)" unfolding B by simp
  then show ?thesis using mult_div_mod_eq [of BB "2 ^ c * uint x"] by simp
qed

text \<open>The overlaps that a loop from the high to the low end allows.\<close>

definition downward :: "nat \<Rightarrow> nat \<Rightarrow> nat \<Rightarrow> bool" where
  "downward r s n \<longleftrightarrow> s \<le> r \<or> r + n \<le> s"

lemma lshift_loop_correct:
  assumes "c \<le> 64" "downward wp up (Suc i)"
  shows "val (lshift_loop c wp up i high m) wp (Suc i) = 2 ^ c * val m up i + BB ^ i * (2 ^ c * uint high mod BB) \<and>
    writes wp (Suc i) m (lshift_loop c wp up i high m)"
  using assms(2)
proof (induction i arbitrary: high m)
  case 0
  then show ?case by (simp add: uint_push_limb writes_def)
next
  case (Suc i)
  define low where "low = m (up + i)"
  define m1 where "m1 = m(wp + 1 + i := push_bit c high OR drop_bit (64 - c) low)"
  let ?m = "lshift_loop c wp up i low m1"
  have down: "downward wp up (Suc i)" using Suc.prems by (auto simp: downward_def)
  have IH: "val ?m wp (Suc i) = 2 ^ c * val m1 up i + BB ^ i * (2 ^ c * uint low mod BB)" "writes wp (Suc i) m1 ?m"
    using Suc.IH [OF down] by blast+
  have "?m (wp + Suc i) = push_bit c high OR drop_bit (64 - c) low"
    using writes_at [OF IH(2), of "wp + Suc i"] by (simp add: m1_def)
  then have top: "uint (?m (wp + Suc i)) = 2 ^ c * uint high mod BB + uint low div 2 ^ (64 - c)"
    using uint_shifted_pair [OF assms(1)] by simp
  have v: "val m1 up i = val m up i" using Suc.prems by (auto simp: m1_def downward_def intro!: val_cong)
  have "val ?m wp (Suc (Suc i)) = 2 ^ c * val m up i +
      BB ^ i * (BB * (uint low div 2 ^ (64 - c)) + 2 ^ c * uint low mod BB) + BB ^ Suc i * (2 ^ c * uint high mod BB)"
    unfolding val_snoc [of ?m wp "Suc i"] IH(1) top v by (simp only: power_Suc algebra_simps)
  also have "\<dots> = 2 ^ c * val m up (Suc i) + BB ^ Suc i * (2 ^ c * uint high mod BB)"
    unfolding shift_parts [OF assms(1), symmetric] val_snoc low_def by (simp only: algebra_simps)
  finally have "val ?m wp (Suc (Suc i)) = 2 ^ c * val m up (Suc i) + BB ^ Suc i * (2 ^ c * uint high mod BB)" .
  moreover have "writes wp (Suc (Suc i)) m ?m" using IH(2) by (auto simp: writes_def m1_def)
  moreover have "lshift_loop c wp up (Suc i) high m = ?m" by (simp add: m1_def low_def Let_def)
  ultimately show ?case by metis
qed

lemma mpn_lshift_correct:
  assumes "0 < n" "0 < c" "c < 64" "downward wp up n"
  shows "\<exists>m' ret. mpn_lshift wp up n c m = Some (m', ret) \<and> val m' wp n + BB ^ n * uint ret = 2 ^ c * val m up n \<and> writes wp n m m'"
proof -
  obtain i where n: "n = Suc i" using assms(1) by (cases n) auto
  let ?high = "m (up + i)"
  have c: "c \<le> 64" using assms(3) by simp
  note l = lshift_loop_correct [OF c assms(4) [unfolded n], of ?high m]
  have "val (lshift_loop c wp up i ?high m) wp n + BB ^ n * uint (drop_bit (64 - c) ?high) =
      2 ^ c * val m up i + BB ^ i * (BB * (uint ?high div 2 ^ (64 - c)) + 2 ^ c * uint ?high mod BB)"
    unfolding n conjunct1 [OF l] uint_drop_limb by (simp only: power_Suc algebra_simps)
  also have "\<dots> = 2 ^ c * val m up n"
    unfolding shift_parts [OF c, symmetric] n val_snoc by (simp only: algebra_simps)
  finally have "val (lshift_loop c wp up i ?high m) wp n + BB ^ n * uint (drop_bit (64 - c) ?high) = 2 ^ c * val m up n" .
  moreover have "mpn_lshift wp up n c m = Some (lshift_loop c wp up i ?high m, drop_bit (64 - c) ?high)"
    using assms(2,3) by (simp add: mpn_lshift_def n Let_def)
  ultimately show ?thesis using conjunct2 [OF l] n by blast
qed

lemma rshift_loop_correct:
  assumes "c \<le> 64" "upward wp up (Suc n)"
  shows "val (rshift_loop c wp (up + 1) n low m) wp (Suc n) = uint low div 2 ^ c + 2 ^ (64 - c) * val m (up + 1) n \<and>
    writes wp (Suc n) m (rshift_loop c wp (up + 1) n low m)"
  using assms(2)
proof (induction n arbitrary: wp up low m)
  case 0
  then show ?case by (simp add: uint_drop_limb writes_def)
next
  case (Suc n)
  define high where "high = m (up + 1)"
  define x where "x = drop_bit c low OR push_bit (64 - c) high"
  let ?m = "rshift_loop c (wp + 1) (up + 1 + 1) n high (m(wp := x))"
  note upw = upward_Suc [OF Suc.prems]
  have IH: "val ?m (wp + 1) (Suc n) = uint high div 2 ^ c + 2 ^ (64 - c) * val (m(wp := x)) (up + 1 + 1) n"
      "writes (wp + 1) (Suc n) (m(wp := x)) ?m"
    using Suc.IH [OF upw] by blast+
  note l = limb_then_rest(1,3) [OF Suc.prems IH(2)]
  have v: "val (m(wp := x)) (up + 1 + 1) n = val m (up + 1 + 1) n"
    using Suc.prems by (auto simp: upward_def intro!: val_cong)
  have x: "uint x = uint low div 2 ^ c + 2 ^ (64 - c) * uint high mod BB"
    using uint_shifted_pair [of "64 - c" high low] assms(1) by (simp add: x_def or.commute add.commute)
  have "val ?m wp (Suc (Suc n)) = uint low div 2 ^ c +
      (BB * (uint high div 2 ^ (64 - (64 - c))) + 2 ^ (64 - c) * uint high mod BB) + BB * (2 ^ (64 - c) * val m (up + 1 + 1) n)"
    unfolding l(1) IH(1) v x using assms(1) by (simp add: distrib_left)
  also have "\<dots> = uint low div 2 ^ c + 2 ^ (64 - c) * val m (up + 1) (Suc n)"
    unfolding shift_parts [OF diff_le_self, symmetric] by (simp add: high_def algebra_simps)
  finally have "val ?m wp (Suc (Suc n)) = uint low div 2 ^ c + 2 ^ (64 - c) * val m (up + 1) (Suc n)" .
  moreover have "rshift_loop c wp (up + 1) (Suc n) low m = ?m" by (simp add: x_def high_def Let_def)
  ultimately show ?case using l(2) by metis
qed

lemma mpn_rshift_correct:
  assumes "0 < n" "0 < c" "c < 64" "upward wp up n"
  shows "\<exists>m' ret. mpn_rshift wp up n c m = Some (m', ret) \<and> val m' wp n = val m up n div 2 ^ c \<and>
    BB * val m' wp n + uint ret = 2 ^ (64 - c) * val m up n \<and> writes wp n m m'"
proof -
  obtain k where n: "n = Suc k" using assms(1) by (cases n) auto
  have c: "c \<le> 64" "64 - c \<le> 64" "64 - (64 - c) = c" using assms(3) by simp_all
  define m' where "m' = rshift_loop c wp (up + 1) k (m up) m"
  have l: "val m' wp n = uint (m up) div 2 ^ c + 2 ^ (64 - c) * val m (up + 1) k" "writes wp n m m'"
    using rshift_loop_correct [OF c(1) assms(4) [unfolded n], of "m up" m] unfolding m'_def n by blast+
  have B: "BB = 2 ^ c * 2 ^ (64 - c)" using c(1) by (simp add: BB_def flip: power_add)
  have "val m up n = uint (m up) + 2 ^ c * (2 ^ (64 - c) * val m (up + 1) k)" unfolding n val.simps B by simp
  then have "val m up n div 2 ^ c = val m' wp n" unfolding l(1) by simp
  moreover have "BB * val m' wp n + 2 ^ (64 - c) * uint (m up) mod BB = 2 ^ (64 - c) * val m up n"
  proof -
    have "BB * val m' wp n + 2 ^ (64 - c) * uint (m up) mod BB =
        (BB * (uint (m up) div 2 ^ c) + 2 ^ (64 - c) * uint (m up) mod BB) + BB * (2 ^ (64 - c) * val m (up + 1) k)"
      unfolding l(1) by (simp only: algebra_simps)
    then show ?thesis
      using shift_parts [OF c(2), of "m up"] unfolding c(3) n by (simp add: algebra_simps)
  qed
  moreover have "mpn_rshift wp up n c m = Some (m', push_bit (64 - c) (m up))"
    using assms(2,3) by (simp add: mpn_rshift_def n Let_def m'_def)
  ultimately show ?thesis using l(2) uint_push_limb [of "64 - c" "m up"] by simp
qed

section \<open>Operands of different sizes\<close>

lemma sizes_upward:
  assumes "k \<le> n" "upward r s n"
  shows "upward r s k" "upward (r + k) (s + k) (n - k)" "sep r k (s + k) (n - k)"
  using assms by (auto simp: upward_def sep_def)

lemma mpn_add_correct:
  assumes "s2_size \<le> n" "upward r s1 n" "upward r s2 s2_size"
  shows "\<exists>m' cy. mpn_add r s1 n s2 s2_size m = Some (m', cy) \<and> val m' r n + BB ^ n * uint cy = val m s1 n + val m s2 s2_size \<and>
    uint cy \<le> 1 \<and> writes r n m m'"
proof -
  note up = sizes_upward [OF assms(1,2)]
  obtain m1 c where 1: "(if s2_size \<noteq> 0 then mpn_add_n r s1 s2 s2_size m else Some (m, 0)) = Some (m1, c)"
      "val m1 r s2_size + BB ^ s2_size * uint c = val m s1 s2_size + val m s2 s2_size" "uint c \<le> 1" "writes r s2_size m m1"
    using mpn_add_n_correct [OF _ up(1) assms(3), of m] by (cases "s2_size = 0") auto
  show ?thesis
  proof (cases "s2_size = n")
    case True
    then show ?thesis using 1 by (auto simp: mpn_add_def)
  next
    case False
    then have k: "0 < n - s2_size" using assms(1) by simp
    obtain m2 d where 2: "mpn_add_1 (r + s2_size) (s1 + s2_size) (n - s2_size) c m1 = Some (m2, d)"
        "val m2 (r + s2_size) (n - s2_size) + BB ^ (n - s2_size) * uint d = val m1 (s1 + s2_size) (n - s2_size) + uint c"
        "uint d \<le> 1" "writes (r + s2_size) (n - s2_size) m1 m2"
      using mpn_add_1_correct [OF k up(2), of c m1] by blast
    have keep: "val m2 r s2_size = val m1 r s2_size" "val m1 (s1 + s2_size) (n - s2_size) = val m (s1 + s2_size) (n - s2_size)"
      using val_writes [OF 2(4)] val_writes [OF 1(4) up(3)] by (simp_all add: sep_def)
    have "val m2 r n + BB ^ n * uint d =
        val m1 r s2_size + BB ^ s2_size * (val m2 (r + s2_size) (n - s2_size) + BB ^ (n - s2_size) * uint d)"
      unfolding val_split [OF assms(1), of m2] keep(1) using assms(1) by (simp add: algebra_simps flip: power_add)
    also have "\<dots> = val m s1 n + val m s2 s2_size"
      unfolding 2(2) keep(2) val_split [OF assms(1), of m s1] using 1(2) by (simp add: algebra_simps)
    finally have "val m2 r n + BB ^ n * uint d = val m s1 n + val m s2 s2_size" .
    moreover have "writes r n m m2" using writes_trans [OF 1(4) 2(4)] assms(1) by simp
    moreover have "mpn_add r s1 n s2 s2_size m = Some (m2, d)"
      unfolding mpn_add_def 1(1) using 2(1) k by simp
    ultimately show ?thesis using 2(3) by blast
  qed
qed

lemma mpn_sub_correct:
  assumes "s2_size \<le> n" "upward r s1 n" "upward r s2 s2_size"
  shows "\<exists>m' cy. mpn_sub r s1 n s2 s2_size m = Some (m', cy) \<and> val m' r n - BB ^ n * uint cy = val m s1 n - val m s2 s2_size \<and>
    uint cy \<le> 1 \<and> writes r n m m'"
proof -
  note up = sizes_upward [OF assms(1,2)]
  obtain m1 c where 1: "(if s2_size \<noteq> 0 then mpn_sub_n r s1 s2 s2_size m else Some (m, 0)) = Some (m1, c)"
      "val m1 r s2_size - BB ^ s2_size * uint c = val m s1 s2_size - val m s2 s2_size" "uint c \<le> 1" "writes r s2_size m m1"
    using mpn_sub_n_correct [OF _ up(1) assms(3), of m] by (cases "s2_size = 0") auto
  show ?thesis
  proof (cases "s2_size = n")
    case True
    then show ?thesis using 1 by (auto simp: mpn_sub_def)
  next
    case False
    then have k: "0 < n - s2_size" using assms(1) by simp
    obtain m2 d where 2: "mpn_sub_1 (r + s2_size) (s1 + s2_size) (n - s2_size) c m1 = Some (m2, d)"
        "val m2 (r + s2_size) (n - s2_size) - BB ^ (n - s2_size) * uint d = val m1 (s1 + s2_size) (n - s2_size) - uint c"
        "uint d \<le> 1" "writes (r + s2_size) (n - s2_size) m1 m2"
      using mpn_sub_1_correct [OF k up(2), of c m1] by blast
    have keep: "val m2 r s2_size = val m1 r s2_size" "val m1 (s1 + s2_size) (n - s2_size) = val m (s1 + s2_size) (n - s2_size)"
      using val_writes [OF 2(4)] val_writes [OF 1(4) up(3)] by (simp_all add: sep_def)
    have "val m2 r n - BB ^ n * uint d =
        val m1 r s2_size + BB ^ s2_size * (val m2 (r + s2_size) (n - s2_size) - BB ^ (n - s2_size) * uint d)"
      unfolding val_split [OF assms(1), of m2] keep(1) using assms(1) by (simp add: algebra_simps flip: power_add)
    also have "\<dots> = val m s1 n - val m s2 s2_size"
      unfolding 2(2) keep(2) val_split [OF assms(1), of m s1] using 1(2) by (simp add: algebra_simps)
    finally have "val m2 r n - BB ^ n * uint d = val m s1 n - val m s2 s2_size" .
    moreover have "writes r n m m2" using writes_trans [OF 1(4) 2(4)] assms(1) by simp
    moreover have "mpn_sub r s1 n s2 s2_size m = Some (m2, d)"
      unfolding mpn_sub_def 1(1) using 2(1) k by simp
    ultimately show ?thesis using 2(3) by blast
  qed
qed

section \<open>The properties\<close>

text \<open>\<open>mpn_add\<close> and \<open>mpn_sub\<close> are exact: for operands of \<open>n\<close> and \<open>k \<le> n\<close> limbs, at any addresses where the
  destination does not begin behind the start of a source that it overlaps, the number stored with the
  carry or borrow returned is the sum or the difference, the carry is 0 or 1, and no limb outside the
  destination is changed.\<close>

theorem mpn_add_sub_exact:
  assumes "k \<le> n" "upward r s1 n" "upward r s2 k"
  shows "\<exists>m1 c m2 b. mpn_add r s1 n s2 k m = Some (m1, c) \<and> mpn_sub r s1 n s2 k m = Some (m2, b) \<and>
    val m1 r n + BB ^ n * uint c = val m s1 n + val m s2 k \<and> val m2 r n - BB ^ n * uint b = val m s1 n - val m s2 k \<and>
    uint c \<le> 1 \<and> uint b \<le> 1 \<and> writes r n m m1 \<and> writes r n m m2"
  using mpn_add_correct [OF assms, of m] mpn_sub_correct [OF assms, of m] by blast

lemma mpn_add_sub_exact_witness:
  "upward 0 1 5 \<and> (\<exists>m1 c. mpn_add 0 1 5 7 2 (\<lambda>_. - 1) = Some (m1, c) \<and> val m1 0 5 + BB ^ 5 * uint c = val (\<lambda>_. - 1) 1 5 + val (\<lambda>_. - 1) 7 2)"
proof -
  have up: "2 \<le> (5 :: nat)" "upward 0 1 5" "upward 0 7 2" by (simp_all add: upward_def)
  show ?thesis using mpn_add_sub_exact [OF up, of "\<lambda>_. - 1"] up(2) by blast
qed

text \<open>Shifting left and back: \<open>mpn_lshift\<close> onto limbs at the same or a higher address, followed by
  \<open>mpn_rshift\<close> of the result onto the same or a lower address, restores the number except for the
  bits that the left shift returned, and these are the bits that were shifted out.\<close>

theorem mpn_shift_roundtrip:
  assumes "0 < n" "0 < c" "c < 64" "downward wp up n" "upward xp wp n"
  shows "\<exists>m1 hi m2 lo. mpn_lshift wp up n c m = Some (m1, hi) \<and> mpn_rshift xp wp n c m1 = Some (m2, lo) \<and>
    val m1 wp n + BB ^ n * uint hi = 2 ^ c * val m up n \<and>
    2 ^ c * val m2 xp n + BB ^ n * uint hi = 2 ^ c * val m up n \<and> lo = 0 \<and> writes wp n m m1 \<and> writes xp n m1 m2"
proof -
  obtain m1 hi where 1: "mpn_lshift wp up n c m = Some (m1, hi)" "val m1 wp n + BB ^ n * uint hi = 2 ^ c * val m up n" "writes wp n m m1"
    using mpn_lshift_correct [OF assms(1-4), of m] by blast
  obtain m2 lo where 2: "mpn_rshift xp wp n c m1 = Some (m2, lo)" "val m2 xp n = val m1 wp n div 2 ^ c"
      "BB * val m2 xp n + uint lo = 2 ^ (64 - c) * val m1 wp n" "writes xp n m1 m2"
    using mpn_rshift_correct [OF assms(1-3,5), of m1] by blast
  have B: "BB = 2 ^ (64 - c) * 2 ^ c" using assms(3) by (simp add: BB_def flip: power_add)
  have "(2 :: int) ^ c dvd BB ^ n" using assms(1) unfolding B by (cases n) simp_all
  then have "2 ^ c dvd val m1 wp n"
    using 1(2) by (metis dvd_add_left_iff dvd_triv_left dvd_mult2)
  then have exact: "2 ^ c * val m2 xp n = val m1 wp n" unfolding 2(2) by simp
  have "BB * val m2 xp n = 2 ^ (64 - c) * val m1 wp n" unfolding B exact [symmetric] by simp
  then have "uint lo = 0" using 2(3) by simp
  then show ?thesis using 1 2 exact by (simp add: uint_0_iff)
qed

lemma mpn_shift_roundtrip_witness:
  "downward 3 1 4 \<and> (\<exists>m1 hi m2. mpn_lshift 3 1 4 5 (\<lambda>a. word_of_nat a) = Some (m1, hi) \<and> mpn_rshift 0 3 4 5 m1 = Some (m2, 0) \<and>
     2 ^ 5 * val m2 0 4 + BB ^ 4 * uint hi = 2 ^ 5 * val (\<lambda>a. word_of_nat a) 1 4)"
proof -
  have o: "downward 3 1 4" "upward 0 3 4" by (simp_all add: downward_def upward_def)
  have n: "0 < (4 :: nat)" "0 < (5 :: nat)" "5 < (64 :: nat)" by simp_all
  show ?thesis using mpn_shift_roundtrip [OF n o, of "\<lambda>a. word_of_nat a"] o(1) by blast
qed

end
