(* ===== verification/Mpn_Mul.thy ===== *)
theory Mpn_Mul
  imports Mpn
begin

text \<open>
  Multiplication of stdlib/mul_n.c and stdlib/mul.c: the schoolbook method for small numbers and
  Karatsuba's method, which computes in the product area itself and in a temporary area of twice the
  size. The macro \<open>MPN_MUL_N_RECURSE\<close> of gmp-impl.h chooses between them by \<open>KARATSUBA_THRESHOLD\<close>, an
  argument \<open>T\<close> here; the code raises it to 2 at least. Temporary areas (\<open>TMP_ALLOC\<close>) are taken from the
  free memory at \<open>tmp\<close> and behind it.
\<close>

section \<open>The code\<close>

text \<open>The first row of the product, and one of the following rows, which is added.\<close>

definition first_row :: "nat \<Rightarrow> nat \<Rightarrow> nat \<Rightarrow> limb \<Rightarrow> mem \<Rightarrow> (mem \<times> limb) option" where
  "first_row prodp up usize v_limb m =
     (if v_limb \<le> 1
      then Some (if v_limb = 1 then MPN_COPY_INCR prodp up usize m else MPN_ZERO prodp usize m, 0)
      else mpn_mul_1 prodp up usize v_limb m)"

definition next_row :: "nat \<Rightarrow> nat \<Rightarrow> nat \<Rightarrow> limb \<Rightarrow> mem \<Rightarrow> (mem \<times> limb) option" where
  "next_row prodp up usize v_limb m =
     (if v_limb \<le> 1
      then if v_limb = 1 then mpn_add_n prodp prodp up usize m else Some (m, 0)
      else mpn_addmul_1 prodp up usize v_limb m)"

fun mul_rows :: "nat \<Rightarrow> nat \<Rightarrow> nat \<Rightarrow> nat \<Rightarrow> nat \<Rightarrow> limb \<Rightarrow> mem \<Rightarrow> (mem \<times> limb) option" where
  "mul_rows prodp up usize vp 0 cy_limb m = Some (m, cy_limb)"
| "mul_rows prodp up usize vp (Suc i) cy_limb m =
     do { (m, cy_limb) \<leftarrow> next_row prodp up usize (m vp) m;
          mul_rows (prodp + 1) up usize (vp + 1) i cy_limb (m(prodp + usize := cy_limb)) }"

definition mul_basecase :: "nat \<Rightarrow> nat \<Rightarrow> nat \<Rightarrow> nat \<Rightarrow> nat \<Rightarrow> mem \<Rightarrow> (mem \<times> limb) option" where
  "mul_basecase prodp up usize vp vsize m =
     do { (m, cy_limb) \<leftarrow> first_row prodp up usize (m vp) m;
          mul_rows (prodp + 1) up usize (vp + 1) (vsize - 1) cy_limb (m(prodp + usize := cy_limb)) }"

definition impn_mul_n_basecase :: "nat \<Rightarrow> nat \<Rightarrow> nat \<Rightarrow> nat \<Rightarrow> mem \<Rightarrow> mem option" where
  "impn_mul_n_basecase prodp up vp sz m = map_option fst (mul_basecase prodp up sz vp sz m)"

text \<open>The difference of the halves of a number, and whether the low half is the larger.\<close>

definition half_diff :: "nat \<Rightarrow> nat \<Rightarrow> nat \<Rightarrow> mem \<Rightarrow> (mem \<times> bool) option" where
  "half_diff dst up hsize m =
     (if mpn_cmp (up + hsize) up hsize m \<ge> 0
      then do { (m, _) \<leftarrow> mpn_sub_n dst (up + hsize) up hsize m; Some (m, False) }
      else do { (m, _) \<leftarrow> mpn_sub_n dst up (up + hsize) hsize m; Some (m, True) })"

text \<open>``Add/copy product H'' and ``Add product M''; then ``Add/copy Product L (twice)''.\<close>

definition add_H_M :: "nat \<Rightarrow> nat \<Rightarrow> nat \<Rightarrow> bool \<Rightarrow> mem \<Rightarrow> (mem \<times> limb) option" where
  "add_H_M prodp tspace sz negflg m =
     (let hsize = sz div 2;
          m = MPN_COPY_INCR (prodp + hsize) (prodp + sz) hsize m
      in do { (m, cy) \<leftarrow> mpn_add_n (prodp + sz) (prodp + sz) (prodp + sz + hsize) hsize m;
              if negflg
              then do { (m, c) \<leftarrow> mpn_sub_n (prodp + hsize) (prodp + hsize) tspace sz m; Some (m, cy - c) }
              else do { (m, c) \<leftarrow> mpn_add_n (prodp + hsize) (prodp + hsize) tspace sz m; Some (m, cy + c) } })"

definition add_L :: "nat \<Rightarrow> nat \<Rightarrow> nat \<Rightarrow> limb \<Rightarrow> mem \<Rightarrow> mem option" where
  "add_L prodp tspace sz cy m =
     (let hsize = sz div 2
      in do { (m, c) \<leftarrow> mpn_add_n (prodp + hsize) (prodp + hsize) tspace sz m;
              let cy = cy + c in
              do { m \<leftarrow> (if cy \<noteq> 0
                          then do { (m, _) \<leftarrow> mpn_add_1 (prodp + hsize + sz) (prodp + hsize + sz) hsize cy m; Some m }
                          else Some m);
                   let m = MPN_COPY_INCR prodp tspace hsize m in
                   do { (m, cy) \<leftarrow> mpn_add_n (prodp + hsize) (prodp + hsize) (tspace + hsize) hsize m;
                        if cy \<noteq> 0
                        then do { (m, _) \<leftarrow> mpn_add_1 (prodp + sz) (prodp + sz) sz 1 m; Some m }
                        else Some m } } })"

function impn_mul_n :: "nat \<Rightarrow> nat \<Rightarrow> nat \<Rightarrow> nat \<Rightarrow> nat \<Rightarrow> nat \<Rightarrow> mem \<Rightarrow> mem option"
  and MPN_MUL_N_RECURSE :: "nat \<Rightarrow> nat \<Rightarrow> nat \<Rightarrow> nat \<Rightarrow> nat \<Rightarrow> nat \<Rightarrow> mem \<Rightarrow> mem option" where
  "impn_mul_n T prodp up vp sz tspace m =
     (if odd sz
      then let esize = sz - 1
           in do { m \<leftarrow> MPN_MUL_N_RECURSE T prodp up vp esize tspace m;
                   (m, cy_limb) \<leftarrow> mpn_addmul_1 (prodp + esize) up esize (m (vp + esize)) m;
                   let m = m(prodp + esize + esize := cy_limb) in
                   do { (m, cy_limb) \<leftarrow> mpn_addmul_1 (prodp + esize) vp sz (m (up + esize)) m;
                        Some (m(prodp + esize + sz := cy_limb)) } }
      else let hsize = sz div 2
           in do { m \<leftarrow> MPN_MUL_N_RECURSE T (prodp + sz) (up + hsize) (vp + hsize) hsize tspace m;
                   (m, negflg) \<leftarrow> half_diff prodp up hsize m;
                   (m, low) \<leftarrow> half_diff (prodp + hsize) vp hsize m;
                   let negflg = (if low then negflg else \<not> negflg) in
                   do { m \<leftarrow> MPN_MUL_N_RECURSE T tspace prodp (prodp + hsize) hsize (tspace + sz) m;
                        (m, cy) \<leftarrow> add_H_M prodp tspace sz negflg m;
                        m \<leftarrow> MPN_MUL_N_RECURSE T tspace up vp hsize (tspace + sz) m;
                        add_L prodp tspace sz cy m } })"
| "MPN_MUL_N_RECURSE T prodp up vp sz tspace m =
     (if sz < max 2 T then impn_mul_n_basecase prodp up vp sz m else impn_mul_n T prodp up vp sz tspace m)"
  by pat_completeness auto
termination
  by (relation "measure (\<lambda>x. case x of Inl (T, prodp, up, vp, sz, tspace, m) \<Rightarrow> if sz = 0 then 2 else 2 * sz
                                     | Inr (T, prodp, up, vp, sz, tspace, m) \<Rightarrow> 2 * sz + 1)") auto

declare impn_mul_n.simps [simp del] MPN_MUL_N_RECURSE.simps [simp del]

section \<open>Areas of memory\<close>

lemma sep_sub: "sep p n q k \<Longrightarrow> p \<le> p' \<Longrightarrow> p' + n' \<le> p + n \<Longrightarrow> q \<le> q' \<Longrightarrow> q' + k' \<le> q + k \<Longrightarrow> sep p' n' q' k'"
  by (auto simp: sep_def)

lemma sep_sym: "sep p n q k \<Longrightarrow> sep q k p n"
  by (auto simp: sep_def)

lemma sep_upward: "sep p n q k \<Longrightarrow> k' \<le> k \<Longrightarrow> k' \<le> n \<Longrightarrow> upward p q k'"
  by (auto simp: sep_def upward_def)

lemma upward_refl [simp]: "upward p p n"
  by (simp add: upward_def)

text \<open>Only two areas are changed.\<close>

definition writes2 :: "nat \<Rightarrow> nat \<Rightarrow> nat \<Rightarrow> nat \<Rightarrow> mem \<Rightarrow> mem \<Rightarrow> bool" where
  "writes2 p n q k m m' \<longleftrightarrow> (\<forall>a. (a < p \<or> p + n \<le> a) \<and> (a < q \<or> q + k \<le> a) \<longrightarrow> m' a = m a)"

lemma writes_writes2: "writes p' n' m m' \<Longrightarrow> p \<le> p' \<Longrightarrow> p' + n' \<le> p + n \<Longrightarrow> writes2 p n q k m m'"
  by (auto simp: writes_def writes2_def)

lemma writes2_trans: "writes2 p n q k m m' \<Longrightarrow> writes2 p n q k m' m'' \<Longrightarrow> writes2 p n q k m m''"
  by (auto simp: writes2_def)

lemma writes2_mono:
  "writes2 p' n' q' k' m m' \<Longrightarrow> p \<le> p' \<Longrightarrow> p' + n' \<le> p + n \<Longrightarrow> q \<le> q' \<Longrightarrow> q' + k' \<le> q + k \<Longrightarrow> writes2 p n q k m m'"
  by (auto simp: writes2_def)

lemma writes2_mono_tmp:
  "writes2 p' n' q' k' m m' \<Longrightarrow> q \<le> p' \<Longrightarrow> p' + n' \<le> q + k \<Longrightarrow> q \<le> q' \<Longrightarrow> q' + k' \<le> q + k \<Longrightarrow> writes2 p n q k m m'"
  by (auto simp: writes2_def)

lemma val_writes2: "writes2 p n q k m m' \<Longrightarrow> sep p n r j \<Longrightarrow> sep q k r j \<Longrightarrow> val m' r j = val m r j"
  by (rule val_cong) (auto simp: writes2_def sep_def)

lemma writes2_at: "writes2 p n q k m m' \<Longrightarrow> sep p n a 1 \<Longrightarrow> sep q k a 1 \<Longrightarrow> m' a = m a"
  using val_writes2 [of p n q k m m' a 1] by (simp add: word_uint_eq_iff)

section \<open>The schoolbook method\<close>

lemma limb_le_1: "v \<le> 1 \<Longrightarrow> v = 0 \<or> v = 1" for v :: limb
proof -
  assume "v \<le> 1"
  then have "uint v \<le> 1" by (simp add: word_le_def)
  then have "uint v = 0 \<or> uint v = 1" using uint_nonnegative [of v] by linarith
  then show ?thesis by (auto simp: word_uint_eq_iff)
qed

lemma first_row_correct:
  assumes "0 < n" "sep r k up n" "n \<le> k"
  shows "\<exists>m' cy. first_row r up n v m = Some (m', cy) \<and> val m' r n + BB ^ n * uint cy = uint v * val m up n \<and> writes r n m m'"
proof -
  have up: "upward r up n" using sep_upward [OF assms(2)] assms(3) by simp
  show ?thesis
  proof (cases "v \<le> 1")
    case True
    then show ?thesis
      using limb_le_1 [OF True] MPN_COPY_INCR_correct [OF up, of m] MPN_ZERO_correct [of r n m] by (auto simp: first_row_def)
  next
    case False
    then show ?thesis using mpn_mul_1_correct [OF assms(1) up, of v m] by (simp add: first_row_def)
  qed
qed

lemma next_row_correct:
  assumes "0 < n" "sep r k up n" "n \<le> k"
  shows "\<exists>m' cy. next_row r up n v m = Some (m', cy) \<and> val m' r n + BB ^ n * uint cy = val m r n + uint v * val m up n \<and> writes r n m m'"
proof -
  have up: "upward r up n" using sep_upward [OF assms(2)] assms(3) by simp
  show ?thesis
  proof (cases "v \<le> 1")
    case True
    then show ?thesis
      using limb_le_1 [OF True] mpn_add_n_correct [OF assms(1) upward_refl up, of m] by (auto simp: next_row_def)
  next
    case False
    then show ?thesis using mpn_addmul_1_correct [OF assms(1) up, of v m] by (simp add: next_row_def)
  qed
qed

text \<open>A row is complete when its carry is stored; the rows behind it are one limb further.\<close>

lemma row_then_rows:
  assumes "sep r (n + Suc k) up n" "sep r (n + Suc k) vp (Suc k)"
    and row: "val m1 r n + BB ^ n * uint c = A + uint (m vp) * val m up n" "writes r n m m1"
    and rest: "val m' (r + 1) (n + k) = val (m1(r + n := c)) (r + 1) n + val (m1(r + n := c)) up n * val (m1(r + n := c)) (vp + 1) k"
      "writes (r + 1) (n + k) (m1(r + n := c)) m'"
  shows "val m' r (n + Suc k) = A + val m up n * val m vp (Suc k)" "writes r (n + Suc k) m m'"
proof -
  define m2 where "m2 = m1(r + n := c)"
  have w2: "writes r (n + Suc k) m m2" using row(2) by (auto simp: m2_def writes_def)
  have "val m2 r (Suc n) = val m1 r n + BB ^ n * uint c"
    unfolding val_snoc using val_cong [of n m2 r m1] by (simp add: m2_def)
  then have first: "uint (m2 r) + BB * val m2 (r + 1) n = A + uint (m vp) * val m up n" using row(1) by simp
  have keep: "val m2 up n = val m up n" "val m2 (vp + 1) k = val m (vp + 1) k"
    using val_writes [OF w2 assms(1)] val_writes [OF w2 sep_sub [OF assms(2), of r "n + Suc k" "vp + 1" k]] by simp_all
  have "m' r = m2 r" using writes_at [OF rest(2), of r] by (simp add: m2_def)
  then have "val m' r (n + Suc k) = (uint (m2 r) + BB * val m2 (r + 1) n) + BB * (val m up n * val m (vp + 1) k)"
    using rest(1) keep unfolding m2_def [symmetric] by (simp add: algebra_simps)
  then show "val m' r (n + Suc k) = A + val m up n * val m vp (Suc k)" unfolding first by (simp add: algebra_simps)
  show "writes r (n + Suc k) m m'" using writes_trans [OF w2 rest(2) [folded m2_def]] by simp
qed

lemma rows_sep:
  assumes "sep r (n + Suc k) up n" "sep r (n + Suc k) vp (Suc k)"
  shows "sep (r + 1) (n + k) up n" "sep (r + 1) (n + k) (vp + 1) k"
  using sep_sub [OF assms(1), of "r + 1" "n + k" up n] sep_sub [OF assms(2), of "r + 1" "n + k" "vp + 1" k] by simp_all

lemma mul_rows_correct:
  assumes "0 < n" "sep r (n + k) up n" "sep r (n + k) vp k" "cy = m (r + n - 1)"
  shows "\<exists>m' cy'. mul_rows r up n vp k cy m = Some (m', cy') \<and> val m' r (n + k) = val m r n + val m up n * val m vp k \<and>
    cy' = m' (r + n + k - 1) \<and> writes r (n + k) m m'"
  using assms
proof (induction k arbitrary: r vp cy m)
  case (Suc k)
  obtain m1 c where 1: "next_row r up n (m vp) m = Some (m1, c)"
      "val m1 r n + BB ^ n * uint c = val m r n + uint (m vp) * val m up n" "writes r n m m1"
    using next_row_correct [OF Suc.prems(1,2)] by fastforce
  obtain m' cy' where IH: "mul_rows (r + 1) up n (vp + 1) k c (m1(r + n := c)) = Some (m', cy')"
      "val m' (r + 1) (n + k) = val (m1(r + n := c)) (r + 1) n + val (m1(r + n := c)) up n * val (m1(r + n := c)) (vp + 1) k"
      "cy' = m' (r + 1 + n + k - 1)" "writes (r + 1) (n + k) (m1(r + n := c)) m'"
    using Suc.IH [OF assms(1) rows_sep [OF Suc.prems(2,3)], of c "m1(r + n := c)"] by fastforce
  have "mul_rows r up n vp (Suc k) cy m = Some (m', cy')" using 1(1) IH(1) by simp
  then show ?case using row_then_rows [OF Suc.prems(2,3) 1(2,3) IH(2,4)] IH(3) by (simp del: val.simps)
qed simp

lemma mul_basecase_correct:
  assumes "0 < n" "0 < k" "sep r (n + k) up n" "sep r (n + k) vp k"
  shows "\<exists>m' cy. mul_basecase r up n vp k m = Some (m', cy) \<and> val m' r (n + k) = val m up n * val m vp k \<and>
    cy = m' (r + n + k - 1) \<and> writes r (n + k) m m'"
proof -
  obtain j where k: "k = Suc j" using assms(2) by (cases k) auto
  note s = assms(3,4) [unfolded k]
  obtain m1 c where 1: "first_row r up n (m vp) m = Some (m1, c)" "val m1 r n + BB ^ n * uint c = 0 + uint (m vp) * val m up n" "writes r n m m1"
    using first_row_correct [OF assms(1,3)] by fastforce
  obtain m' cy where 2: "mul_rows (r + 1) up n (vp + 1) j c (m1(r + n := c)) = Some (m', cy)"
      "val m' (r + 1) (n + j) = val (m1(r + n := c)) (r + 1) n + val (m1(r + n := c)) up n * val (m1(r + n := c)) (vp + 1) j"
      "cy = m' (r + 1 + n + j - 1)" "writes (r + 1) (n + j) (m1(r + n := c)) m'"
    using mul_rows_correct [OF assms(1) rows_sep [OF s], of c "m1(r + n := c)"] by fastforce
  have "mul_basecase r up n vp k m = Some (m', cy)" using 1(1) 2(1) by (simp add: mul_basecase_def k)
  then show ?thesis using row_then_rows [OF s 1(2,3) 2(2,4)] 2(3) k by (simp del: val.simps)
qed

section \<open>Karatsuba's method\<close>

lemma half_diff_correct:
  assumes "0 < h" "upward d up h" "upward d (up + h) h"
  shows "\<exists>m'. half_diff d up h m = Some (m', val m (up + h) h < val m up h) \<and>
    val m' d h = \<bar>val m (up + h) h - val m up h\<bar> \<and> writes d h m m'"
proof -
  have no_borrow: "val m' d h = x - y" if "val m' d h - BB ^ h * uint c = x - y" "uint c \<le> 1" "y \<le> x" for m' x y and c :: limb
  proof -
    have "BB ^ h * uint c < BB ^ h" using that(1,3) val_range(2) [of m' d h] by linarith
    then have "uint c \<noteq> 1" by auto
    then have "uint c = 0" using that(2) limb_range(1) [of c] by linarith
    then show ?thesis using that(1) by simp
  qed
  show ?thesis
  proof (cases "mpn_cmp (up + h) up h m \<ge> 0")
    case True
    then have le: "val m up h \<le> val m (up + h) h" unfolding mpn_cmp_correct by (simp add: sgn_if split: if_splits)
    obtain m' c where s: "mpn_sub_n d (up + h) up h m = Some (m', c)" "val m' d h - BB ^ h * uint c = val m (up + h) h - val m up h"
        "uint c \<le> 1" "writes d h m m'"
      using mpn_sub_n_correct [OF assms(1,3,2), of m] by blast
    then show ?thesis using True le no_borrow [OF s(2,3) le] by (auto simp: half_diff_def)
  next
    case False
    then have le: "val m (up + h) h < val m up h" unfolding mpn_cmp_correct by (simp add: sgn_if split: if_splits)
    obtain m' c where s: "mpn_sub_n d up (up + h) h m = Some (m', c)" "val m' d h - BB ^ h * uint c = val m up h - val m (up + h) h"
        "uint c \<le> 1" "writes d h m m'"
      using mpn_sub_n_correct [OF assms(1,2,3), of m] by blast
    then show ?thesis using False le no_borrow [OF s(2,3)] by (auto simp: half_diff_def)
  qed
qed

text \<open>The carry is a small integer that may be negative on the way, kept modulo the base.\<close>

lemma add_H_M_correct:
  fixes m :: mem and neg :: bool
  assumes "0 < h" "sep P (4 * h) Q (2 * h)"
  defines "X \<equiv> BB ^ h" and "H0 \<equiv> val m (P + 2 * h) h" and "H1 \<equiv> val m (P + 3 * h) h"
    and "M \<equiv> (if neg then - val m Q (2 * h) else val m Q (2 * h))"
  shows "\<exists>m' cy. add_H_M P Q (2 * h) neg m = Some (m', word_of_int cy) \<and> -1 \<le> cy \<and> cy \<le> 2 \<and>
    val m' (P + h) (2 * h) + BB ^ (2 * h) * cy = H0 + X * (H0 + H1) + M \<and> writes (P + h) (2 * h) m m'"
proof -
  define m1 where "m1 = MPN_COPY_INCR (P + h) (P + 2 * h) h m"
  have 1: "val m1 (P + h) h = H0" "writes (P + h) h m m1"
    using MPN_COPY_INCR_correct [of "P + h" "P + 2 * h" h m] unfolding m1_def H0_def by (simp_all add: upward_def)
  have v1: "val m1 (P + 2 * h) h = H0" "val m1 (P + 3 * h) h = H1"
    unfolding H0_def H1_def by (rule val_writes [OF 1(2)], simp add: sep_def)+
  obtain m2 c where 2: "mpn_add_n (P + 2 * h) (P + 2 * h) (P + 2 * h + h) h m1 = Some (m2, c)"
      "val m2 (P + 2 * h) h + X * uint c = H0 + H1" "uint c \<le> 1" "writes (P + 2 * h) h m1 m2"
    using mpn_add_n_correct [OF assms(1) upward_refl, of "P + 2 * h" "P + 2 * h + h" m1] v1
    by (auto simp: upward_def X_def add.assoc)
  have "val m2 (P + h) (h + h) = H0 + X * val m2 (P + 2 * h) h"
    unfolding val_append X_def using val_writes [OF 2(4), of "P + h" h] 1(1) by (simp add: sep_def mult_2 add.assoc)
  then have half: "val m2 (P + h) (2 * h) = H0 + X * val m2 (P + 2 * h) h" by (simp only: mult_2)
  have XX: "BB ^ (2 * h) = X * X" by (simp add: X_def mult_2 power_add)
  have v2: "val m2 (P + h) (2 * h) + BB ^ (2 * h) * uint c = H0 + X * (H0 + H1)"
    unfolding half XX 2(2) [symmetric] by (simp only: algebra_simps)
  have w2: "writes (P + h) (2 * h) m m2" using writes_trans [OF 1(2) 2(4)] by simp
  have sQ: "sep (P + h) (2 * h) Q (2 * h)" using sep_sub [OF assms(2)] by simp
  then have Q: "val m2 Q (2 * h) = val m Q (2 * h)" using val_writes [OF w2] by simp
  have up: "upward (P + h) Q (2 * h)" using sep_upward [OF sQ] by simp
  have h2: "2 * h div 2 = h" by simp
  show ?thesis
  proof (cases neg)
    case True
    obtain m3 d where 3: "mpn_sub_n (P + h) (P + h) Q (2 * h) m2 = Some (m3, d)"
        "val m3 (P + h) (2 * h) - BB ^ (2 * h) * uint d = val m2 (P + h) (2 * h) - val m2 Q (2 * h)" "uint d \<le> 1" "writes (P + h) (2 * h) m2 m3"
      using mpn_sub_n_correct [OF _ upward_refl up, of m2] assms(1) by auto
    have "add_H_M P Q (2 * h) neg m = Some (m3, word_of_int (uint c - uint d))"
      using True 2(1) 3(1) by (simp add: add_H_M_def h2 Let_def flip: m1_def)
    moreover have "val m3 (P + h) (2 * h) + BB ^ (2 * h) * (uint c - uint d) = H0 + X * (H0 + H1) + M"
      using 3(2) v2 True unfolding M_def Q by (simp add: algebra_simps)
    moreover have "-1 \<le> uint c - uint d" "uint c - uint d \<le> 2"
      using 2(3) 3(3) limb_range(1) [of c] limb_range(1) [of d] by linarith+
    ultimately show ?thesis using writes_trans [OF w2 3(4)] by blast
  next
    case False
    obtain m3 d where 3: "mpn_add_n (P + h) (P + h) Q (2 * h) m2 = Some (m3, d)"
        "val m3 (P + h) (2 * h) + BB ^ (2 * h) * uint d = val m2 (P + h) (2 * h) + val m2 Q (2 * h)" "uint d \<le> 1" "writes (P + h) (2 * h) m2 m3"
      using mpn_add_n_correct [OF _ upward_refl up, of m2] assms(1) by auto
    have "add_H_M P Q (2 * h) neg m = Some (m3, word_of_int (uint c + uint d))"
      using False 2(1) 3(1) by (simp add: add_H_M_def h2 Let_def flip: m1_def)
    moreover have "val m3 (P + h) (2 * h) + BB ^ (2 * h) * (uint c + uint d) = H0 + X * (H0 + H1) + M"
      using 3(2) v2 False unfolding M_def Q by (simp add: algebra_simps)
    moreover have "-1 \<le> uint c + uint d" "uint c + uint d \<le> 2"
      using 2(3) 3(3) limb_range(1) [of c] limb_range(1) [of d] by linarith+
    ultimately show ?thesis using writes_trans [OF w2 3(4)] by blast
  qed
qed

text \<open>A carry that is zero is not added.\<close>

lemma carry_correct:
  assumes "0 < k"
  shows "\<exists>m' d. (if cy \<noteq> 0 then do { (m, _) \<leftarrow> mpn_add_1 r r k cy m; Some m } else Some m) = Some m' \<and>
    val m' r k + BB ^ k * d = val m r k + uint cy \<and> writes r k m m'"
proof (cases "cy = 0")
  case True
  then show ?thesis by (intro exI [of _ m] exI [of _ 0]) simp
next
  case False
  then show ?thesis using mpn_add_1_correct [OF assms upward_refl, of r cy m] by auto
qed

lemma val_quarters:
  "val m P (4 * h) = val m P h + BB ^ h * (val m (P + h) (2 * h) + BB ^ (2 * h) * val m (P + 3 * h) h)"
  "val m P (4 * h) = val m P h + BB ^ h * (val m (P + h) h + BB ^ h * val m (P + 2 * h) (2 * h))"
  "val m P (2 * h) = val m P h + BB ^ h * val m (P + h) h"
proof -
  have n: "4 * h = h + (2 * h + h)" "4 * h = h + (h + 2 * h)" "2 * h = h + h" "P + h + 2 * h = P + 3 * h" "P + h + h = P + 2 * h"
    by simp_all
  show "val m P (4 * h) = val m P h + BB ^ h * (val m (P + h) (2 * h) + BB ^ (2 * h) * val m (P + 3 * h) h)"
    unfolding n(1) val_append n(4) ..
  show "val m P (4 * h) = val m P h + BB ^ h * (val m (P + h) h + BB ^ h * val m (P + 2 * h) (2 * h))"
    unfolding n(2) val_append n(5) ..
  show "val m P (2 * h) = val m P h + BB ^ h * val m (P + h) h"
    unfolding n(3) val_append ..
qed

lemma add_L_high:
  fixes m :: mem and cy :: int
  assumes "0 < h" "sep P (4 * h) Q (2 * h)" "-1 \<le> cy" "cy \<le> 2"
    and "0 \<le> val m (P + h) (2 * h) + BB ^ (2 * h) * cy + val m Q (2 * h)"
  shows "\<exists>m1 c m2 d. mpn_add_n (P + h) (P + h) Q (2 * h) m = Some (m1, c) \<and>
    (if word_of_int cy + c \<noteq> 0 then do { (m, _) \<leftarrow> mpn_add_1 (P + 3 * h) (P + 3 * h) h (word_of_int cy + c) m1; Some m } else Some m1) = Some m2 \<and>
    val m2 (P + h) (2 * h) + BB ^ (2 * h) * val m2 (P + 3 * h) h + BB ^ (3 * h) * d =
      val m (P + h) (2 * h) + val m Q (2 * h) + BB ^ (2 * h) * (val m (P + 3 * h) h + cy) \<and> writes (P + h) (3 * h) m m2"
proof -
  have sQ: "sep (P + h) (2 * h) Q (2 * h)" using sep_sub [OF assms(2)] by simp
  have up: "upward (P + h) Q (2 * h)" using sep_upward [OF sQ] by simp
  obtain m1 c where 1: "mpn_add_n (P + h) (P + h) Q (2 * h) m = Some (m1, c)"
      "val m1 (P + h) (2 * h) + BB ^ (2 * h) * uint c = val m (P + h) (2 * h) + val m Q (2 * h)" "uint c \<le> 1" "writes (P + h) (2 * h) m m1"
    using mpn_add_n_correct [OF _ upward_refl up, of m] assms(1) by auto
  have "0 \<le> val m1 (P + h) (2 * h) + BB ^ (2 * h) * (cy + uint c)" using assms(5) 1(2) by (simp add: algebra_simps)
  then have "BB ^ (2 * h) * (- 1) < BB ^ (2 * h) * (cy + uint c)" using val_range(2) [of m1 "P + h" "2 * h"] by linarith
  then have "-1 < cy + uint c" by (simp only: mult_less_cancel_left_pos zero_less_power BB_pos)
  moreover have "cy + uint c < BB" using assms(4) 1(3) by (simp add: BB_def)
  ultimately have cy: "uint (word_of_int cy + c) = cy + uint c"
    by (simp add: uint_word_of_int_eq take_bit_eq_mod uint_word_ariths BB_def mod_simps)
  obtain m2 d where 2: "(if word_of_int cy + c \<noteq> 0 then do { (m, _) \<leftarrow> mpn_add_1 (P + 3 * h) (P + 3 * h) h (word_of_int cy + c) m1; Some m } else Some m1) = Some m2"
      "val m2 (P + 3 * h) h + BB ^ h * d = val m1 (P + 3 * h) h + (cy + uint c)" "writes (P + 3 * h) h m1 m2"
    using carry_correct [OF assms(1)] cy by metis
  have keep: "val m2 (P + h) (2 * h) = val m1 (P + h) (2 * h)" "val m1 (P + 3 * h) h = val m (P + 3 * h) h"
    using val_writes [OF 2(3), of "P + h" "2 * h"] val_writes [OF 1(4), of "P + 3 * h" h] by (simp_all add: sep_def)
  have "3 * h = 2 * h + h" by simp
  then have X3: "BB ^ (3 * h) = BB ^ (2 * h) * BB ^ h" by (metis power_add)
  have "val m2 (P + h) (2 * h) + BB ^ (2 * h) * val m2 (P + 3 * h) h + BB ^ (3 * h) * d =
      val m1 (P + h) (2 * h) + BB ^ (2 * h) * (val m2 (P + 3 * h) h + BB ^ h * d)"
    unfolding X3 keep(1) by (simp only: algebra_simps)
  also have "\<dots> = (val m1 (P + h) (2 * h) + BB ^ (2 * h) * uint c) + BB ^ (2 * h) * (val m (P + 3 * h) h + cy)"
    unfolding 2(2) keep(2) by (simp only: algebra_simps)
  finally have "val m2 (P + h) (2 * h) + BB ^ (2 * h) * val m2 (P + 3 * h) h + BB ^ (3 * h) * d =
      val m (P + h) (2 * h) + val m Q (2 * h) + BB ^ (2 * h) * (val m (P + 3 * h) h + cy)" unfolding 1(2) .
  moreover have "writes (P + h) (3 * h) m m2" using writes_trans [OF 1(4) 2(3)] by simp
  ultimately show ?thesis using 1(1) 2(1) by blast
qed

lemma add_L_low:
  fixes m :: mem
  assumes "0 < h" "sep P (4 * h) Q (2 * h)"
  shows "\<exists>m4 e m5 f. mpn_add_n (P + h) (P + h) (Q + h) h (MPN_COPY_INCR P Q h m) = Some (m4, e) \<and>
    (if e \<noteq> 0 then do { (m, _) \<leftarrow> mpn_add_1 (P + 2 * h) (P + 2 * h) (2 * h) 1 m4; Some m } else Some m4) = Some m5 \<and>
    val m5 P (4 * h) + BB ^ (4 * h) * f = val m Q (2 * h) + BB ^ h * (val m (P + h) (2 * h) + BB ^ (2 * h) * val m (P + 3 * h) h) \<and>
    writes P (4 * h) m m5"
proof -
  define m3 where "m3 = MPN_COPY_INCR P Q h m"
  have up: "upward P Q h" "upward (P + h) (Q + h) h" using assms(2) by (auto simp: sep_def upward_def)
  have 3: "val m3 P h = val m Q h" "writes P h m m3"
    using MPN_COPY_INCR_correct [OF up(1), of m] by (simp_all add: m3_def)
  have k3: "val m3 (P + h) h = val m (P + h) h" "val m3 (P + 2 * h) (2 * h) = val m (P + 2 * h) (2 * h)" "val m3 (Q + h) h = val m (Q + h) h"
    using val_writes [OF 3(2), of "P + h" h] val_writes [OF 3(2), of "P + 2 * h" "2 * h"]
      val_writes [OF 3(2) sep_sub [OF assms(2), of P h "Q + h" h]] by (simp_all add: sep_def)
  obtain m4 e where 4: "mpn_add_n (P + h) (P + h) (Q + h) h m3 = Some (m4, e)"
      "val m4 (P + h) h + BB ^ h * uint e = val m (P + h) h + val m (Q + h) h" "uint e \<le> 1" "writes (P + h) h m3 m4"
    using mpn_add_n_correct [OF assms(1) upward_refl up(2), of m3] unfolding k3 by blast
  have "uint e = 0 \<or> uint e = 1" using 4(3) limb_range(1) [of e] by linarith
  then have e: "e = 0 \<or> e = 1" by (simp add: word_uint_eq_iff)
  obtain m5 f where 5: "(if e \<noteq> 0 then do { (m, _) \<leftarrow> mpn_add_1 (P + 2 * h) (P + 2 * h) (2 * h) 1 m4; Some m } else Some m4) = Some m5"
      "val m5 (P + 2 * h) (2 * h) + BB ^ (2 * h) * f = val m4 (P + 2 * h) (2 * h) + uint e" "writes (P + 2 * h) (2 * h) m4 m5"
    using carry_correct [of "2 * h" e "P + 2 * h" m4] assms(1) e by fastforce
  have keep: "val m5 P h = val m Q h" "val m5 (P + h) h = val m4 (P + h) h" "val m4 (P + 2 * h) (2 * h) = val m (P + 2 * h) (2 * h)"
    using val_writes [OF 5(3), of P h] val_writes [OF 4(4), of P h] val_writes [OF 5(3), of "P + h" h]
      val_writes [OF 4(4), of "P + 2 * h" "2 * h"] 3(1) k3 by (simp_all add: sep_def)
  have "4 * h = h + (h + 2 * h)" by simp
  then have X4: "BB ^ (4 * h) = BB ^ h * (BB ^ h * BB ^ (2 * h))" by (metis power_add)
  have "val m5 P (4 * h) + BB ^ (4 * h) * f =
      val m Q h + BB ^ h * (val m4 (P + h) h + BB ^ h * (val m5 (P + 2 * h) (2 * h) + BB ^ (2 * h) * f))"
    unfolding val_quarters(2) [of m5] X4 keep(1,2) by (simp only: algebra_simps)
  also have "\<dots> = val m Q h + BB ^ h * (val m4 (P + h) h + BB ^ h * uint e) + BB ^ h * (BB ^ h * val m (P + 2 * h) (2 * h))"
    unfolding 5(2) keep(3) by (simp only: algebra_simps)
  also have "\<dots> = val m Q (2 * h) + BB ^ h * (val m (P + h) h + BB ^ h * val m (P + 2 * h) (2 * h))"
    unfolding 4(2) val_quarters(3) [of m Q] by (simp only: algebra_simps)
  also have "\<dots> = val m Q (2 * h) + BB ^ h * (val m (P + h) (2 * h) + BB ^ (2 * h) * val m (P + 3 * h) h)"
    using val_quarters(1,2) [of m P h] by simp
  finally have "val m5 P (4 * h) + BB ^ (4 * h) * f = val m Q (2 * h) + BB ^ h * (val m (P + h) (2 * h) + BB ^ (2 * h) * val m (P + 3 * h) h)" .
  moreover have "writes P (4 * h) m m5"
    using writes_trans [OF writes_trans [OF 3(2) 4(4), of P "2 * h"] 5(3), of P "4 * h"] by simp
  ultimately show ?thesis using 4(1) 5(1) unfolding m3_def by blast
qed

lemma add_L_correct:
  fixes m :: mem and cy :: int
  assumes "0 < h" "sep P (4 * h) Q (2 * h)" "-1 \<le> cy" "cy \<le> 2"
    and "0 \<le> val m (P + h) (2 * h) + BB ^ (2 * h) * cy + val m Q (2 * h)"
  shows "\<exists>m' g. add_L P Q (2 * h) (word_of_int cy) m = Some m' \<and>
    val m' P (4 * h) + BB ^ (4 * h) * g =
      val m Q (2 * h) + BB ^ h * (val m (P + h) (2 * h) + val m Q (2 * h) + BB ^ (2 * h) * (val m (P + 3 * h) h + cy)) \<and>
    writes P (4 * h) m m'"
proof -
  obtain m1 c m2 d where 1: "mpn_add_n (P + h) (P + h) Q (2 * h) m = Some (m1, c)"
      "(if word_of_int cy + c \<noteq> 0 then do { (m, _) \<leftarrow> mpn_add_1 (P + 3 * h) (P + 3 * h) h (word_of_int cy + c) m1; Some m } else Some m1) = Some m2"
      "val m2 (P + h) (2 * h) + BB ^ (2 * h) * val m2 (P + 3 * h) h + BB ^ (3 * h) * d =
        val m (P + h) (2 * h) + val m Q (2 * h) + BB ^ (2 * h) * (val m (P + 3 * h) h + cy)" "writes (P + h) (3 * h) m m2"
    using add_L_high [OF assms] by blast
  obtain m4 e m5 f where 2: "mpn_add_n (P + h) (P + h) (Q + h) h (MPN_COPY_INCR P Q h m2) = Some (m4, e)"
      "(if e \<noteq> 0 then do { (m, _) \<leftarrow> mpn_add_1 (P + 2 * h) (P + 2 * h) (2 * h) 1 m4; Some m } else Some m4) = Some m5"
      "val m5 P (4 * h) + BB ^ (4 * h) * f = val m2 Q (2 * h) + BB ^ h * (val m2 (P + h) (2 * h) + BB ^ (2 * h) * val m2 (P + 3 * h) h)"
      "writes P (4 * h) m2 m5"
    using add_L_low [OF assms(1,2), of m2] by blast
  have Q: "val m2 Q (2 * h) = val m Q (2 * h)"
    by (rule val_writes [OF 1(4)]) (rule sep_sub [OF assms(2)], simp_all)
  have "4 * h = h + 3 * h" by simp
  then have X4: "BB ^ (4 * h) = BB ^ h * BB ^ (3 * h)" by (metis power_add)
  have "val m5 P (4 * h) + BB ^ (4 * h) * (f + d) = (val m5 P (4 * h) + BB ^ (4 * h) * f) + BB ^ h * (BB ^ (3 * h) * d)"
    unfolding X4 by (simp only: algebra_simps)
  also have "\<dots> = val m Q (2 * h) + BB ^ h * (val m2 (P + h) (2 * h) + BB ^ (2 * h) * val m2 (P + 3 * h) h + BB ^ (3 * h) * d)"
    unfolding 2(3) Q by (simp only: algebra_simps)
  finally have "val m5 P (4 * h) + BB ^ (4 * h) * (f + d) =
      val m Q (2 * h) + BB ^ h * (val m (P + h) (2 * h) + val m Q (2 * h) + BB ^ (2 * h) * (val m (P + 3 * h) h + cy))"
    unfolding 1(3) .
  moreover have "writes P (4 * h) m m5" using writes_trans [OF 1(4) 2(4)] by simp
  moreover have "add_L P Q (2 * h) (word_of_int cy) m = Some m5"
  proof -
    have n: "2 * h div 2 = h" "P + h + 2 * h = P + 3 * h" by simp_all
    show ?thesis unfolding add_L_def Let_def n 1(1) bind.bind_lunit prod.case 1(2) 2(1) 2(2) ..
  qed
  ultimately show ?thesis by blast
qed

text \<open>Karatsuba's identity.\<close>

lemma karatsuba_identity:
  fixes U0 U1 V0 V1 X H0 H1 M L :: int
  assumes "H0 + X * H1 = U1 * V1" "M = (U1 - U0) * (V0 - V1)" "L = U0 * V0"
  shows "L + X * (H0 + X * (H0 + H1) + M + L + X * X * H1) = (U0 + X * U1) * (V0 + X * V1)"
    and "H0 + X * (H0 + H1) + M + L = U1 * V0 + U0 * V1 + X * H0"
proof -
  have H0: "H0 = U1 * V1 - X * H1" using assms(1) by simp
  show "L + X * (H0 + X * (H0 + H1) + M + L + X * X * H1) = (U0 + X * U1) * (V0 + X * V1)"
    unfolding assms(2,3) H0 by (simp add: algebra_simps)
  show "H0 + X * (H0 + H1) + M + L = U1 * V0 + U0 * V1 + X * H0"
    using assms by (simp add: algebra_simps)
qed

lemma val_unique:
  assumes "val m p n + BB ^ n * g = x" "0 \<le> x" "x < BB ^ n"
  shows "val m p n = x"
proof -
  have "BB ^ n * g < BB ^ n * 1" "BB ^ n * (- 1) < BB ^ n * g" using assms val_range [of m p n] by linarith+
  then have "g < 1" "- 1 < g" by (simp_all only: mult_less_cancel_left_pos zero_less_power BB_pos)
  then have "g = 0" by linarith
  then show ?thesis using assms(1) by simp
qed

text \<open>What the recursive calls promise.\<close>

definition multiplies :: "(nat \<Rightarrow> nat \<Rightarrow> nat \<Rightarrow> nat \<Rightarrow> nat \<Rightarrow> mem \<Rightarrow> mem option) \<Rightarrow> nat \<Rightarrow> bool" where
  "multiplies f n \<longleftrightarrow> (\<forall>P up vp Q m. sep P (2 * n) up n \<longrightarrow> sep P (2 * n) vp n \<longrightarrow> sep Q (2 * n) up n \<longrightarrow> sep Q (2 * n) vp n \<longrightarrow>
     sep P (2 * n) Q (2 * n) \<longrightarrow>
     (\<exists>m'. f P up vp n Q m = Some m' \<and> val m' P (2 * n) = val m up n * val m vp n \<and> writes2 P (2 * n) Q (2 * n) m m'))"

lemma multipliesD:
  assumes "multiplies f n" "sep P (2 * n) up n" "sep P (2 * n) vp n" "sep Q (2 * n) up n" "sep Q (2 * n) vp n" "sep P (2 * n) Q (2 * n)"
  obtains m' where "f P up vp n Q m = Some m'" "val m' P (2 * n) = val m up n * val m vp n" "writes2 P (2 * n) Q (2 * n) m m'"
  using assms unfolding multiplies_def by blast

lemma karatsuba_combine:
  fixes U0 U1 V0 V1 :: int
  assumes "0 < h" "sep P (4 * h) Q (4 * h)"
    and H: "val m (P + 2 * h) (2 * h) = U1 * V1"
    and M: "(if neg then - val m Q (2 * h) else val m Q (2 * h)) = (U1 - U0) * (V0 - V1)"
    and pos: "0 \<le> U0" "0 \<le> U1" "0 \<le> V0" "0 \<le> V1"
    and small: "(U0 + BB ^ h * U1) * (V0 + BB ^ h * V1) < BB ^ (4 * h)"
    and rec: "\<And>m1. writes (P + h) (2 * h) m m1 \<Longrightarrow> \<exists>m2. rec m1 = Some m2 \<and> val m2 Q (2 * h) = U0 * V0 \<and> writes2 Q (2 * h) (Q + 2 * h) (2 * h) m1 m2"
  shows "\<exists>m'. do { (m, cy) \<leftarrow> add_H_M P Q (2 * h) neg m; m \<leftarrow> rec m; add_L P Q (2 * h) cy m } = Some m' \<and>
    val m' P (4 * h) = (U0 + BB ^ h * U1) * (V0 + BB ^ h * V1) \<and> writes2 P (4 * h) Q (4 * h) m m'"
proof -
  define X where "X = BB ^ h"
  define H0 where "H0 = val m (P + 2 * h) h"
  define H1 where "H1 = val m (P + 3 * h) h"
  have XX: "BB ^ (2 * h) = X * X" by (simp add: X_def mult_2 power_add)
  have sQ: "sep P (4 * h) Q (2 * h)" using sep_sub [OF assms(2)] by simp
  obtain m1 cy where 1: "add_H_M P Q (2 * h) neg m = Some (m1, word_of_int cy)" "-1 \<le> cy" "cy \<le> 2"
      "val m1 (P + h) (2 * h) + BB ^ (2 * h) * cy = H0 + X * (H0 + H1) + (U1 - U0) * (V0 - V1)" "writes (P + h) (2 * h) m m1"
    using add_H_M_correct [OF assms(1) sQ, where m = m and neg = neg] unfolding M X_def H0_def H1_def by blast
  obtain m2 where 2: "rec m1 = Some m2" "val m2 Q (2 * h) = U0 * V0" "writes2 Q (2 * h) (Q + 2 * h) (2 * h) m1 m2"
    using rec [OF 1(5)] by blast
  have keep: "val m2 (P + h) (2 * h) = val m1 (P + h) (2 * h)" "val m2 (P + 3 * h) h = H1"
  proof -
    have s: "sep Q (2 * h) r j" "sep (Q + 2 * h) (2 * h) r j" if "P \<le> r" "r + j \<le> P + 4 * h" for r j
      using sep_sub [OF sep_sym [OF assms(2)], of Q "2 * h" r j] sep_sub [OF sep_sym [OF assms(2)], of "Q + 2 * h" "2 * h" r j] that by simp_all
    show "val m2 (P + h) (2 * h) = val m1 (P + h) (2 * h)" by (rule val_writes2 [OF 2(3)]) (rule s, simp_all)+
    have "val m2 (P + 3 * h) h = val m1 (P + 3 * h) h" by (rule val_writes2 [OF 2(3)]) (rule s, simp_all)+
    also have "\<dots> = H1" unfolding H1_def by (rule val_writes [OF 1(5)]) (simp add: sep_def)
    finally show "val m2 (P + 3 * h) h = H1" .
  qed
  have HH: "H0 + X * H1 = U1 * V1" using H val_quarters(3) [of m "P + 2 * h" h] by (simp add: H0_def H1_def X_def add.assoc)
  note id = karatsuba_identity [OF HH refl refl, of U0 V0]
  have "0 \<le> val m2 (P + h) (2 * h) + BB ^ (2 * h) * cy + val m2 Q (2 * h)"
  proof -
    have "0 \<le> U1 * V0 + U0 * V1 + X * H0" using pos val_range(1) [of m "P + 2 * h" h] by (simp add: X_def H0_def)
    then show ?thesis using id(2) 1(4) unfolding keep(1) 2(2) by linarith
  qed
  from add_L_correct [OF assms(1) sQ 1(2,3) this]
  obtain m3 g where 3: "add_L P Q (2 * h) (word_of_int cy) m2 = Some m3"
      "val m3 P (4 * h) + BB ^ (4 * h) * g = U0 * V0 + X * (val m1 (P + h) (2 * h) + U0 * V0 + BB ^ (2 * h) * (H1 + cy))" "writes P (4 * h) m2 m3"
    unfolding keep 2(2) X_def by blast
  have "U0 * V0 + X * (val m1 (P + h) (2 * h) + U0 * V0 + BB ^ (2 * h) * (H1 + cy)) =
      U0 * V0 + X * ((val m1 (P + h) (2 * h) + BB ^ (2 * h) * cy) + U0 * V0 + X * X * H1)" unfolding XX by (simp only: algebra_simps)
  also have "\<dots> = (U0 + X * U1) * (V0 + X * V1)" unfolding 1(4) by (rule id(1))
  finally have eq: "val m3 P (4 * h) + BB ^ (4 * h) * g = (U0 + X * U1) * (V0 + X * V1)" unfolding 3(2) .
  have "0 \<le> (U0 + X * U1) * (V0 + X * V1)" using pos by (simp add: X_def)
  then have "val m3 P (4 * h) = (U0 + X * U1) * (V0 + X * V1)" using val_unique [OF eq] small by (simp add: X_def)
  moreover have "writes2 P (4 * h) Q (4 * h) m m3"
    using writes2_trans [OF writes_writes2 [OF 1(5)] writes2_trans [OF writes2_mono_tmp [OF 2(3)] writes_writes2 [OF 3(3)]]] by simp
  moreover have "do { (m, cy) \<leftarrow> add_H_M P Q (2 * h) neg m; m \<leftarrow> rec m; add_L P Q (2 * h) cy m } = Some m3"
    using 1(1) 2(1) 3(1) by simp
  ultimately show ?thesis unfolding X_def by blast
qed

lemma val_product_bound: "val m p n * val m' q k < BB ^ (n + k)"
  unfolding power_add using val_range [of m p n] val_range [of m' q k] by (intro mult_strict_mono) simp_all

lemma product_sign:
  fixes U0 U1 V0 V1 :: int
  assumes "neg \<longleftrightarrow> (if V1 < V0 then U1 < U0 else \<not> U1 < U0)"
  shows "(if neg then - (\<bar>U1 - U0\<bar> * \<bar>V1 - V0\<bar>) else \<bar>U1 - U0\<bar> * \<bar>V1 - V0\<bar>) = (U1 - U0) * (V0 - V1)"
  using assms by (auto simp: abs_if algebra_simps)

text \<open>The four areas of a call, and the parts of them that the steps use.\<close>

definition areas :: "nat \<Rightarrow> nat \<Rightarrow> nat \<Rightarrow> nat \<Rightarrow> nat \<Rightarrow> bool" where
  "areas P up vp Q n \<longleftrightarrow> sep P (2 * n) up n \<and> sep P (2 * n) vp n \<and> sep Q (2 * n) up n \<and> sep Q (2 * n) vp n \<and> sep P (2 * n) Q (2 * n)"

lemma multiplies_areas:
  assumes "multiplies f n" "areas P up vp Q n"
  shows "\<exists>m'. f P up vp n Q m = Some m' \<and> val m' P (2 * n) = val m up n * val m vp n \<and> writes2 P (2 * n) Q (2 * n) m m'"
  using assms unfolding multiplies_def areas_def by blast

lemma multipliesI:
  assumes "\<And>P up vp Q m. areas P up vp Q n \<Longrightarrow> \<exists>m'. f P up vp n Q m = Some m' \<and> val m' P (2 * n) = val m up n * val m vp n \<and> writes2 P (2 * n) Q (2 * n) m m'"
  shows "multiplies f n"
  using assms unfolding multiplies_def areas_def by blast

lemma areas_halves:
  assumes "areas P up vp Q (2 * h)"
  shows "areas (P + 2 * h) (up + h) (vp + h) Q h" "areas Q P (P + h) (Q + 2 * h) h" "areas Q up vp (Q + 2 * h) h"
    "upward P up h" "upward P (up + h) h" "upward (P + h) vp h" "upward (P + h) (vp + h) h"
proof -
  have a: "sep P (4 * h) up (2 * h)" "sep P (4 * h) vp (2 * h)" "sep Q (4 * h) up (2 * h)" "sep Q (4 * h) vp (2 * h)" "sep P (4 * h) Q (4 * h)"
    using assms by (simp_all add: areas_def)
  note b = a [THEN sep_sub] sep_sym [OF a(5), THEN sep_sub]
  have "sep (P + 2 * h) (2 * h) (up + h) h" by (rule b(1)) simp_all
  moreover have "sep (P + 2 * h) (2 * h) (vp + h) h" by (rule b(2)) simp_all
  moreover have "sep Q (2 * h) (up + h) h" by (rule b(3)) simp_all
  moreover have "sep Q (2 * h) (vp + h) h" by (rule b(4)) simp_all
  moreover have "sep (P + 2 * h) (2 * h) Q (2 * h)" by (rule b(5)) simp_all
  ultimately show "areas (P + 2 * h) (up + h) (vp + h) Q h" by (simp add: areas_def)
  have QQ: "sep Q (2 * h) (Q + 2 * h) (2 * h)" by (simp add: sep_def)
  have "sep Q (2 * h) up h" "sep (Q + 2 * h) (2 * h) up h" by (rule b(3), simp_all)+
  moreover have "sep Q (2 * h) vp h" "sep (Q + 2 * h) (2 * h) vp h" by (rule b(4), simp_all)+
  ultimately show "areas Q up vp (Q + 2 * h) h" using QQ by (simp add: areas_def)
  have "sep Q (2 * h) P h" "sep Q (2 * h) (P + h) h" "sep (Q + 2 * h) (2 * h) P h" "sep (Q + 2 * h) (2 * h) (P + h) h"
    by (rule b(6), simp_all)+
  then show "areas Q P (P + h) (Q + 2 * h) h" using QQ by (simp add: areas_def)
  show "upward P up h" "upward P (up + h) h" "upward (P + h) vp h" "upward (P + h) (vp + h) h"
    using a(1,2) by (auto simp: sep_def upward_def)
qed

lemma areas_keep:
  assumes "areas P up vp Q (2 * h)" "writes2 P (4 * h) Q (4 * h) m m'"
  shows "val m' up h = val m up h" "val m' (up + h) h = val m (up + h) h" "val m' vp h = val m vp h" "val m' (vp + h) h = val m (vp + h) h"
proof -
  have a: "sep P (4 * h) up (2 * h)" "sep P (4 * h) vp (2 * h)" "sep Q (4 * h) up (2 * h)" "sep Q (4 * h) vp (2 * h)"
    using assms(1) by (simp_all add: areas_def)
  note b = a [THEN sep_sub]
  have "val m' r h = val m r h" if "up \<le> r" "r + h \<le> up + 2 * h" for r
    by (rule val_writes2 [OF assms(2)]) (rule b(1), use that in simp_all, rule b(3), use that in simp_all)
  then show "val m' up h = val m up h" "val m' (up + h) h = val m (up + h) h" by simp_all
  have "val m' r h = val m r h" if "vp \<le> r" "r + h \<le> vp + 2 * h" for r
    by (rule val_writes2 [OF assms(2)]) (rule b(2), use that in simp_all, rule b(4), use that in simp_all)
  then show "val m' vp h = val m vp h" "val m' (vp + h) h = val m (vp + h) h" by simp_all
qed

lemma karatsuba_even:
  assumes "0 < h" "multiplies (MPN_MUL_N_RECURSE T) h" and ar: "areas P up vp Q (2 * h)"
  shows "\<exists>m'. impn_mul_n T P up vp (2 * h) Q m = Some m' \<and> val m' P (4 * h) = val m up (2 * h) * val m vp (2 * h) \<and>
    writes2 P (4 * h) Q (4 * h) m m'"
proof -
  let ?U0 = "val m up h" and ?U1 = "val m (up + h) h" and ?V0 = "val m vp h" and ?V1 = "val m (vp + h) h"
  note half = areas_halves [OF ar]
  have sPQ: "sep P (4 * h) Q (4 * h)" using ar by (simp add: areas_def)
  obtain m1 where 1: "MPN_MUL_N_RECURSE T (P + 2 * h) (up + h) (vp + h) h Q m = Some m1" "val m1 (P + 2 * h) (2 * h) = ?U1 * ?V1"
      "writes2 (P + 2 * h) (2 * h) Q (2 * h) m m1"
    using multiplies_areas [OF assms(2) half(1)] by blast
  have f1: "writes2 P (4 * h) Q (4 * h) m m1" using writes2_mono [OF 1(3)] by simp
  obtain m2 where 2: "half_diff P up h m1 = Some (m2, ?U1 < ?U0)" "val m2 P h = \<bar>?U1 - ?U0\<bar>" "writes P h m1 m2"
    using half_diff_correct [OF assms(1) half(4,5), of m1] unfolding areas_keep [OF ar f1] by blast
  have f2: "writes2 P (4 * h) Q (4 * h) m m2" using writes2_trans [OF f1 writes_writes2 [OF 2(3)]] by simp
  obtain m3 where 3: "half_diff (P + h) vp h m2 = Some (m3, ?V1 < ?V0)" "val m3 (P + h) h = \<bar>?V1 - ?V0\<bar>" "writes (P + h) h m2 m3"
    using half_diff_correct [OF assms(1) half(6,7), of m2] unfolding areas_keep [OF ar f2] by blast
  have f3: "writes2 P (4 * h) Q (4 * h) m m3" using writes2_trans [OF f2 writes_writes2 [OF 3(3)]] by simp
  have "val m3 P h = \<bar>?U1 - ?U0\<bar>" using val_writes [OF 3(3), of P h] 2(2) by (simp add: sep_def)
  then obtain m4 where 4: "MPN_MUL_N_RECURSE T Q P (P + h) h (Q + 2 * h) m3 = Some m4"
      "val m4 Q (2 * h) = \<bar>?U1 - ?U0\<bar> * \<bar>?V1 - ?V0\<bar>" "writes2 Q (2 * h) (Q + 2 * h) (2 * h) m3 m4"
    using multiplies_areas [OF assms(2) half(2), of m3] 3(2) by auto
  have f4: "writes2 P (4 * h) Q (4 * h) m m4" using writes2_trans [OF f3 writes2_mono_tmp [OF 4(3)]] by simp
  have H: "val m4 (P + 2 * h) (2 * h) = ?U1 * ?V1"
  proof -
    note b = sep_sym [OF sPQ, THEN sep_sub]
    have "val m4 (P + 2 * h) (2 * h) = val m3 (P + 2 * h) (2 * h)"
      by (rule val_writes2 [OF 4(3)]; rule b) simp_all
    also have "\<dots> = val m2 (P + 2 * h) (2 * h)" by (rule val_writes [OF 3(3)]) (simp add: sep_def)
    also have "\<dots> = val m1 (P + 2 * h) (2 * h)" by (rule val_writes [OF 2(3)]) (simp add: sep_def)
    finally show ?thesis unfolding 1(2) .
  qed
  define neg where "neg = (if ?V1 < ?V0 then ?U1 < ?U0 else \<not> ?U1 < ?U0)"
  have M: "(if neg then - val m4 Q (2 * h) else val m4 Q (2 * h)) = (?U1 - ?U0) * (?V0 - ?V1)"
    unfolding 4(2) by (rule product_sign [OF neg_def])
  have U: "val m up (2 * h) = ?U0 + BB ^ h * ?U1" "val m vp (2 * h) = ?V0 + BB ^ h * ?V1" by (rule val_quarters(3))+
  have "4 * h = 2 * h + 2 * h" by simp
  then have small: "(?U0 + BB ^ h * ?U1) * (?V0 + BB ^ h * ?V1) < BB ^ (4 * h)"
    unfolding U [symmetric] by (metis val_product_bound)
  have rec: "\<exists>m2. MPN_MUL_N_RECURSE T Q up vp h (Q + 2 * h) m' = Some m2 \<and> val m2 Q (2 * h) = ?U0 * ?V0 \<and> writes2 Q (2 * h) (Q + 2 * h) (2 * h) m' m2"
    if "writes (P + h) (2 * h) m4 m'" for m'
  proof -
    have f5: "writes2 P (4 * h) Q (4 * h) m m'" using writes2_trans [OF f4 writes_writes2 [OF that]] by simp
    show ?thesis using multiplies_areas [OF assms(2) half(3), of m'] unfolding areas_keep [OF ar f5] .
  qed
  obtain m' where c: "do { (m, cy) \<leftarrow> add_H_M P Q (2 * h) neg m4; m \<leftarrow> MPN_MUL_N_RECURSE T Q up vp h (Q + 2 * h) m; add_L P Q (2 * h) cy m } = Some m'"
      "val m' P (4 * h) = (?U0 + BB ^ h * ?U1) * (?V0 + BB ^ h * ?V1)" "writes2 P (4 * h) Q (4 * h) m4 m'"
    using karatsuba_combine [OF assms(1) sPQ H M val_range(1) val_range(1) val_range(1) val_range(1) small rec] by blast
  have "impn_mul_n T P up vp (2 * h) Q m = Some m'"
    using 1(1) 2(1) 3(1) 4(1) c(1) by (subst impn_mul_n.simps) (simp add: Let_def neg_def)
  then show ?thesis using c(2) writes2_trans [OF f4 c(3)] unfolding U by blast
qed

text \<open>A row with its carry stored behind it.\<close>

lemma addmul_row:
  assumes "0 < n" "upward r s n"
  shows "\<exists>m1 c. mpn_addmul_1 r s n v m = Some (m1, c) \<and> val (m1(r + n := c)) r (Suc n) = val m r n + uint v * val m s n \<and>
    writes r (Suc n) m (m1(r + n := c))"
proof -
  obtain m1 c where 1: "mpn_addmul_1 r s n v m = Some (m1, c)" "val m1 r n + BB ^ n * uint c = val m r n + uint v * val m s n" "writes r n m m1"
    using mpn_addmul_1_correct [OF assms, of v m] by blast
  have "val (m1(r + n := c)) r n = val m1 r n" by (rule val_cong) simp
  then have "val (m1(r + n := c)) r (Suc n) = val m r n + uint v * val m s n" using 1(2) by (simp add: val_snoc del: val.simps)
  moreover have "writes r (Suc n) m (m1(r + n := c))" using 1(3) by (auto simp: writes_def)
  ultimately show ?thesis using 1(1) by blast
qed

text \<open>The two rows that an odd size adds to the product without the highest limbs.\<close>

lemma odd_rows:
  assumes "0 < e" "sep P (2 * e + 2) up (Suc e)" "sep P (2 * e + 2) vp (Suc e)"
    and prod: "val m P (2 * e) = val m up e * val m vp e"
  shows "\<exists>m2 c m4 d. mpn_addmul_1 (P + e) up e (m (vp + e)) m = Some (m2, c) \<and>
    mpn_addmul_1 (P + e) vp (Suc e) ((m2(P + e + e := c)) (up + e)) (m2(P + e + e := c)) = Some (m4, d) \<and>
    val (m4(P + e + Suc e := d)) P (2 * e + 2) = val m up (Suc e) * val m vp (Suc e) \<and> writes P (2 * e + 2) m (m4(P + e + Suc e := d))"
proof -
  note b = assms(2,3) [THEN sep_sub]
  have s1: "sep (P + e) (e + 2) up (Suc e)" by (rule b(1)) simp_all
  have s2: "sep (P + e) (e + 2) vp (Suc e)" by (rule b(2)) simp_all
  have up: "upward (P + e) up e" "upward (P + e) vp (Suc e)" using sep_upward [OF s1] sep_upward [OF s2] by simp_all
  let ?v = "m (vp + e)" and ?u = "m (up + e)"
  obtain m2 c where 2: "mpn_addmul_1 (P + e) up e ?v m = Some (m2, c)"
      "val (m2(P + e + e := c)) (P + e) (Suc e) = val m (P + e) e + uint ?v * val m up e" "writes (P + e) (Suc e) m (m2(P + e + e := c))"
    using addmul_row [OF assms(1) up(1)] by blast
  define m3 where "m3 = m2(P + e + e := c)"
  have w3: "writes (P + e) (e + 2) m m3" using 2(3) by (auto simp: m3_def writes_def)
  have u: "m3 (up + e) = ?u" using s1 w3 by (auto simp: writes_def sep_def)
  have V: "val m3 vp (Suc e) = val m vp (Suc e)" by (rule val_writes [OF w3 s2])
  obtain m4 d where 4: "mpn_addmul_1 (P + e) vp (Suc e) ?u m3 = Some (m4, d)"
      "val (m4(P + e + Suc e := d)) (P + e) (Suc (Suc e)) = val m3 (P + e) (Suc e) + uint ?u * val m vp (Suc e)"
      "writes (P + e) (Suc (Suc e)) m3 (m4(P + e + Suc e := d))"
    using addmul_row [OF _ up(2), of ?u m3] V by auto
  define m5 where "m5 = m4(P + e + Suc e := d)"
  have low: "val m5 P e = val m P e"
    using val_writes [OF 4(3) [folded m5_def], of P e] val_writes [OF w3, of P e] by (simp add: sep_def)
  have "2 * e + 2 = e + Suc (Suc e)" by simp
  then have "val m5 P (2 * e + 2) = val m P e + BB ^ e * (val m (P + e) e + uint ?v * val m up e + uint ?u * val m vp (Suc e))"
    using 4(2) [folded m5_def] 2(2) [folded m3_def] low by (simp only: val_append)
  also have "\<dots> = val m P (2 * e) + BB ^ e * (uint ?v * val m up e + uint ?u * val m vp (Suc e))"
    unfolding val_quarters(3) by (simp only: algebra_simps)
  also have "\<dots> = val m up (Suc e) * val m vp (Suc e)" unfolding prod val_snoc by (simp only: algebra_simps)
  finally have "val m5 P (2 * e + 2) = val m up (Suc e) * val m vp (Suc e)" .
  moreover have "writes P (2 * e + 2) m m5" using writes_trans [OF w3 4(3) [folded m5_def]] by simp
  ultimately show ?thesis using 2(1) 4(1) u unfolding m5_def m3_def by metis
qed

lemma areas_pred:
  assumes "areas P up vp Q (Suc e)"
  shows "areas P up vp Q e"
proof -
  have a: "sep P (2 * Suc e) up (Suc e)" "sep P (2 * Suc e) vp (Suc e)" "sep Q (2 * Suc e) up (Suc e)" "sep Q (2 * Suc e) vp (Suc e)"
      "sep P (2 * Suc e) Q (2 * Suc e)"
    using assms by (simp_all add: areas_def)
  note b = a [THEN sep_sub]
  have "sep P (2 * e) up e" by (rule b(1)) simp_all
  moreover have "sep P (2 * e) vp e" by (rule b(2)) simp_all
  moreover have "sep Q (2 * e) up e" by (rule b(3)) simp_all
  moreover have "sep Q (2 * e) vp e" by (rule b(4)) simp_all
  moreover have "sep P (2 * e) Q (2 * e)" by (rule b(5)) simp_all
  ultimately show ?thesis by (simp add: areas_def)
qed

lemma karatsuba_odd:
  assumes "0 < e" "even e" "multiplies (MPN_MUL_N_RECURSE T) e" and ar: "areas P up vp Q (Suc e)"
  shows "\<exists>m'. impn_mul_n T P up vp (Suc e) Q m = Some m' \<and> val m' P (2 * e + 2) = val m up (Suc e) * val m vp (Suc e) \<and>
    writes2 P (2 * e + 2) Q (2 * e + 2) m m'"
proof -
  have s: "sep P (2 * e + 2) up (Suc e)" "sep P (2 * e + 2) vp (Suc e)" "sep Q (2 * e + 2) up (Suc e)" "sep Q (2 * e + 2) vp (Suc e)"
    using ar by (simp_all add: areas_def)
  obtain m1 where 1: "MPN_MUL_N_RECURSE T P up vp e Q m = Some m1" "val m1 P (2 * e) = val m up e * val m vp e" "writes2 P (2 * e) Q (2 * e) m m1"
    using multiplies_areas [OF assms(3) areas_pred [OF ar]] by blast
  have w: "writes2 P (2 * e + 2) Q (2 * e + 2) m m1" using writes2_mono [OF 1(3)] by simp
  have U: "val m1 up (Suc e) = val m up (Suc e)" "val m1 vp (Suc e) = val m vp (Suc e)"
    using val_writes2 [OF w s(1,3)] val_writes2 [OF w s(2,4)] by simp_all
  have "val m1 up e = val m up e" "val m1 vp e = val m vp e"
    using sep_sub [OF s(1), of P "2 * e + 2" up e] sep_sub [OF s(3), of Q "2 * e + 2" up e] sep_sub [OF s(2), of P "2 * e + 2" vp e]
      sep_sub [OF s(4), of Q "2 * e + 2" vp e] val_writes2 [OF w, of up e] val_writes2 [OF w, of vp e] by simp_all
  then have prod: "val m1 P (2 * e) = val m1 up e * val m1 vp e" using 1(2) by simp
  obtain m2 c m4 d where 2: "mpn_addmul_1 (P + e) up e (m1 (vp + e)) m1 = Some (m2, c)"
      "mpn_addmul_1 (P + e) vp (Suc e) ((m2(P + e + e := c)) (up + e)) (m2(P + e + e := c)) = Some (m4, d)"
      "val (m4(P + e + Suc e := d)) P (2 * e + 2) = val m up (Suc e) * val m vp (Suc e)" "writes P (2 * e + 2) m1 (m4(P + e + Suc e := d))"
    using odd_rows [OF assms(1) s(1,2) prod] unfolding U by blast
  have "impn_mul_n T P up vp (Suc e) Q m = Some (m4(P + e + Suc e := d))"
    using assms(2) 1(1) 2(1,2) by (subst impn_mul_n.simps) (simp add: Let_def del: fun_upd_apply)
  moreover have "writes2 P (2 * e + 2) Q (2 * e + 2) m (m4(P + e + Suc e := d))"
    using writes2_trans [OF w writes_writes2 [OF 2(4)]] by simp
  ultimately show ?thesis using 2(3) by blast
qed

lemma basecase_areas:
  assumes "0 < n" "areas P up vp Q n"
  shows "\<exists>m'. impn_mul_n_basecase P up vp n m = Some m' \<and> val m' P (2 * n) = val m up n * val m vp n \<and> writes2 P (2 * n) Q (2 * n) m m'"
proof -
  have "sep P (n + n) up n" "sep P (n + n) vp n" using assms(2) by (simp_all add: areas_def mult_2)
  from mul_basecase_correct [OF assms(1,1) this, of m] show ?thesis
    by (auto simp: impn_mul_n_basecase_def mult_2 intro: writes_writes2)
qed

theorem mul_n_recurse_multiplies: "0 < n \<Longrightarrow> multiplies (MPN_MUL_N_RECURSE T) n"
proof (induction n rule: less_induct)
  case (less n)
  show ?case
  proof (rule multipliesI)
    fix P up vp Q and m :: mem
    assume ar: "areas P up vp Q n"
    show "\<exists>m'. MPN_MUL_N_RECURSE T P up vp n Q m = Some m' \<and> val m' P (2 * n) = val m up n * val m vp n \<and> writes2 P (2 * n) Q (2 * n) m m'"
    proof (cases "n < max 2 T")
      case True
      then show ?thesis using basecase_areas [OF less.prems ar] by (subst MPN_MUL_N_RECURSE.simps) simp
    next
      case False
      then have code: "MPN_MUL_N_RECURSE T P up vp n Q m = impn_mul_n T P up vp n Q m"
        by (subst MPN_MUL_N_RECURSE.simps) simp
      show ?thesis
      proof (cases "even n")
        case True
        then obtain h where h: "n = 2 * h" by (elim evenE)
        then have "0 < h" "multiplies (MPN_MUL_N_RECURSE T) h" using less by simp_all
        from karatsuba_even [OF this ar [unfolded h], of m] show ?thesis unfolding code unfolding h by simp
      next
        case odd: False
        define e where "e = n - 1"
        have n: "n = Suc e" using less.prems by (simp add: e_def)
        have "0 < e" "even e" "multiplies (MPN_MUL_N_RECURSE T) e" using False odd less.IH [of e] by (auto simp: n)
        from karatsuba_odd [OF this ar [unfolded n], of m] show ?thesis unfolding code unfolding n by simp
      qed
    qed
  qed
qed

end
