(* ===== verification/Mpn_Product.thy ===== *)
theory Mpn_Product
  imports Mpn_Mul
begin

text \<open>
  Squaring (impn_sqr_n of stdlib/mul_n.c) and the two functions callers use: \<open>mpn_mul_n\<close> for operands
  of the same size and \<open>mpn_mul\<close> of stdlib/mul.c, which cuts the larger operand into blocks. No port in
  this tree defines \<open>KARATSUBA_THRESHOLD\<close>, so that it has its default.
\<close>

section \<open>The code\<close>

definition KARATSUBA_THRESHOLD :: nat where
  "KARATSUBA_THRESHOLD = 32"

text \<open>The text of the function is that of \<open>impn_mul_n_basecase\<close> with \<open>up\<close> for \<open>vp\<close>.\<close>

definition impn_sqr_n_basecase :: "nat \<Rightarrow> nat \<Rightarrow> nat \<Rightarrow> mem \<Rightarrow> mem option" where
  "impn_sqr_n_basecase prodp up sz m = impn_mul_n_basecase prodp up up sz m"

function impn_sqr_n :: "nat \<Rightarrow> nat \<Rightarrow> nat \<Rightarrow> nat \<Rightarrow> nat \<Rightarrow> mem \<Rightarrow> mem option"
  and MPN_SQR_N_RECURSE :: "nat \<Rightarrow> nat \<Rightarrow> nat \<Rightarrow> nat \<Rightarrow> nat \<Rightarrow> mem \<Rightarrow> mem option" where
  "impn_sqr_n T prodp up sz tspace m =
     (if odd sz
      then let esize = sz - 1
           in do { m \<leftarrow> MPN_SQR_N_RECURSE T prodp up esize tspace m;
                   (m, cy_limb) \<leftarrow> mpn_addmul_1 (prodp + esize) up esize (m (up + esize)) m;
                   let m = m(prodp + esize + esize := cy_limb) in
                   do { (m, cy_limb) \<leftarrow> mpn_addmul_1 (prodp + esize) up sz (m (up + esize)) m;
                        Some (m(prodp + esize + sz := cy_limb)) } }
      else let hsize = sz div 2
           in do { m \<leftarrow> MPN_SQR_N_RECURSE T (prodp + sz) (up + hsize) hsize tspace m;
                   (m, _) \<leftarrow> half_diff prodp up hsize m;
                   m \<leftarrow> MPN_SQR_N_RECURSE T tspace prodp hsize (tspace + sz) m;
                   (m, cy) \<leftarrow> add_H_M prodp tspace sz True m;
                   m \<leftarrow> MPN_SQR_N_RECURSE T tspace up hsize (tspace + sz) m;
                   add_L prodp tspace sz cy m })"
| "MPN_SQR_N_RECURSE T prodp up sz tspace m =
     (if sz < max 2 T then impn_sqr_n_basecase prodp up sz m else impn_sqr_n T prodp up sz tspace m)"
  by pat_completeness auto
termination
  by (relation "measure (\<lambda>x. case x of Inl (T, prodp, up, sz, tspace, m) \<Rightarrow> if sz = 0 then 2 else 2 * sz
                                     | Inr (T, prodp, up, sz, tspace, m) \<Rightarrow> 2 * sz + 1)") auto

declare impn_sqr_n.simps [simp del] MPN_SQR_N_RECURSE.simps [simp del]

definition mpn_mul_n :: "nat \<Rightarrow> nat \<Rightarrow> nat \<Rightarrow> nat \<Rightarrow> nat \<Rightarrow> mem \<Rightarrow> mem option" where
  "mpn_mul_n tmp prodp up vp sz m =
     (if up = vp
      then if sz < KARATSUBA_THRESHOLD then impn_sqr_n_basecase prodp up sz m
           else impn_sqr_n KARATSUBA_THRESHOLD prodp up sz tmp m
      else if sz < KARATSUBA_THRESHOLD then impn_mul_n_basecase prodp up vp sz m
           else impn_mul_n KARATSUBA_THRESHOLD prodp up vp sz tmp m)"

text \<open>A number of \<open>k + j\<close> limbs at \<open>t\<close> is added to \<open>k\<close> limbs of the product.\<close>

definition add_block :: "nat \<Rightarrow> nat \<Rightarrow> nat \<Rightarrow> nat \<Rightarrow> mem \<Rightarrow> mem option" where
  "add_block prodp t k j m =
     do { (m, cy) \<leftarrow> mpn_add_n prodp prodp t k m;
          (m, _) \<leftarrow> mpn_add_1 (prodp + k) (t + k) j cy m;
          Some m }"

function mul_blocks :: "nat \<Rightarrow> nat \<Rightarrow> nat \<Rightarrow> nat \<Rightarrow> nat \<Rightarrow> nat \<Rightarrow> nat \<Rightarrow> mem \<Rightarrow> (nat \<times> nat \<times> nat \<times> mem) option" where
  "mul_blocks tspace tp vp vsize prodp up usize m =
     (if 0 < vsize \<and> usize \<ge> vsize
      then do { m \<leftarrow> MPN_MUL_N_RECURSE KARATSUBA_THRESHOLD tp up vp vsize tspace m;
                m \<leftarrow> add_block prodp tp vsize vsize m;
                mul_blocks tspace tp vp vsize (prodp + vsize) (up + vsize) (usize - vsize) m }
      else Some (prodp, up, usize, m))"
  by pat_completeness auto
termination
  by (relation "measure (\<lambda>(tspace, tp, vp, vsize, prodp, up, usize, m). usize)") auto

declare mul_blocks.simps [simp del]

lemma mul_blocks_usize:
  "mul_blocks tspace tp vp vsize prodp up usize m = Some (prodp', up', usize', m') \<Longrightarrow> usize' \<le> usize \<and> (0 < vsize \<longrightarrow> usize' < vsize)"
proof (induction tspace tp vp vsize prodp up usize m rule: mul_blocks.induct)
  case (1 tspace tp vp vsize prodp up usize m)
  show ?case
  proof (cases "0 < vsize \<and> usize \<ge> vsize")
    case True
    then obtain m1 m2 where "MPN_MUL_N_RECURSE KARATSUBA_THRESHOLD tp up vp vsize tspace m = Some m1" "add_block prodp tp vsize vsize m1 = Some m2"
        "mul_blocks tspace tp vp vsize (prodp + vsize) (up + vsize) (usize - vsize) m2 = Some (prodp', up', usize', m')"
      using "1.prems" by (subst (asm) mul_blocks.simps) (auto split: Option.bind_splits)
    then show ?thesis using "1.IH" [OF True] by fastforce
  next
    case False
    then show ?thesis using "1.prems" by (subst (asm) mul_blocks.simps) auto
  qed
qed

text \<open>The second operand must not be the larger one.\<close>

function mpn_mul :: "nat \<Rightarrow> nat \<Rightarrow> nat \<Rightarrow> nat \<Rightarrow> nat \<Rightarrow> nat \<Rightarrow> mem \<Rightarrow> (mem \<times> limb) option" where
  "mpn_mul tmp prodp up usize vp vsize m =
     (if vsize < KARATSUBA_THRESHOLD
      then if vsize = 0 then Some (m, 0) else mul_basecase prodp up usize vp vsize m
      else if usize < vsize then None
      else let prod_endp = prodp + usize + vsize - 1;
               tspace = tmp; tmp = tmp + 2 * vsize
           in do { m \<leftarrow> MPN_MUL_N_RECURSE KARATSUBA_THRESHOLD prodp up vp vsize tspace m;
                   let tp = tmp; tmp = (if usize - vsize \<ge> vsize then tmp + 2 * vsize else tmp) in
                   do { (prodp, up, usize, m) \<leftarrow> mul_blocks tspace tp vp vsize (prodp + vsize) (up + vsize) (usize - vsize) m;
                        m \<leftarrow> (if usize \<noteq> 0
                               then do { (m, _) \<leftarrow> mpn_mul tmp tspace vp vsize up usize m; add_block prodp tspace vsize usize m }
                               else Some m);
                        Some (m, m prod_endp) } })"
  by pat_completeness auto
termination
proof (relation "measure (\<lambda>(tmp, prodp, up, usize, vp, vsize, m). usize + vsize)", goal_cases)
  case (2 tmp prodp up usize vp vsize m)
  then show ?case by (auto dest!: mul_blocks_usize simp: KARATSUBA_THRESHOLD_def)
qed simp

declare mpn_mul.simps [simp del]

section \<open>Squaring\<close>

definition squares :: "(nat \<Rightarrow> nat \<Rightarrow> nat \<Rightarrow> nat \<Rightarrow> mem \<Rightarrow> mem option) \<Rightarrow> nat \<Rightarrow> bool" where
  "squares f n \<longleftrightarrow> (\<forall>P up Q m. areas P up up Q n \<longrightarrow>
     (\<exists>m'. f P up n Q m = Some m' \<and> val m' P (2 * n) = val m up n * val m up n \<and> writes2 P (2 * n) Q (2 * n) m m'))"

lemma squares_areas:
  assumes "squares f n" "areas P up up Q n"
  shows "\<exists>m'. f P up n Q m = Some m' \<and> val m' P (2 * n) = val m up n * val m up n \<and> writes2 P (2 * n) Q (2 * n) m m'"
  using assms unfolding squares_def by blast

lemma areas_left: "areas P up vp Q n \<Longrightarrow> areas P up up Q n"
  by (simp add: areas_def)

lemma square_even:
  assumes "0 < h" "squares (MPN_SQR_N_RECURSE T) h" and ar: "areas P up up Q (2 * h)"
  shows "\<exists>m'. impn_sqr_n T P up (2 * h) Q m = Some m' \<and> val m' P (4 * h) = val m up (2 * h) * val m up (2 * h) \<and>
    writes2 P (4 * h) Q (4 * h) m m'"
proof -
  let ?U0 = "val m up h" and ?U1 = "val m (up + h) h"
  note half = areas_halves [OF ar]
  have sPQ: "sep P (4 * h) Q (4 * h)" using ar by (simp add: areas_def)
  obtain m1 where 1: "MPN_SQR_N_RECURSE T (P + 2 * h) (up + h) h Q m = Some m1" "val m1 (P + 2 * h) (2 * h) = ?U1 * ?U1"
      "writes2 (P + 2 * h) (2 * h) Q (2 * h) m m1"
    using squares_areas [OF assms(2) half(1)] by blast
  have f1: "writes2 P (4 * h) Q (4 * h) m m1" using writes2_mono [OF 1(3)] by simp
  obtain m2 where 2: "half_diff P up h m1 = Some (m2, ?U1 < ?U0)" "val m2 P h = \<bar>?U1 - ?U0\<bar>" "writes P h m1 m2"
    using half_diff_correct [OF assms(1) half(4,5), of m1] unfolding areas_keep [OF ar f1] by blast
  have f2: "writes2 P (4 * h) Q (4 * h) m m2" using writes2_trans [OF f1 writes_writes2 [OF 2(3)]] by simp
  obtain m4 where 4: "MPN_SQR_N_RECURSE T Q P h (Q + 2 * h) m2 = Some m4"
      "val m4 Q (2 * h) = \<bar>?U1 - ?U0\<bar> * \<bar>?U1 - ?U0\<bar>" "writes2 Q (2 * h) (Q + 2 * h) (2 * h) m2 m4"
    using squares_areas [OF assms(2) areas_left [OF half(2)], of m2] unfolding 2(2) by blast
  have f4: "writes2 P (4 * h) Q (4 * h) m m4" using writes2_trans [OF f2 writes2_mono_tmp [OF 4(3)]] by simp
  have H: "val m4 (P + 2 * h) (2 * h) = ?U1 * ?U1"
  proof -
    note b = sep_sym [OF sPQ, THEN sep_sub]
    have "val m4 (P + 2 * h) (2 * h) = val m2 (P + 2 * h) (2 * h)"
      by (rule val_writes2 [OF 4(3)]; rule b) simp_all
    also have "\<dots> = val m1 (P + 2 * h) (2 * h)" by (rule val_writes [OF 2(3)]) (simp add: sep_def)
    finally show ?thesis unfolding 1(2) .
  qed
  have M: "(if True then - val m4 Q (2 * h) else val m4 Q (2 * h)) = (?U1 - ?U0) * (?U0 - ?U1)"
    unfolding 4(2) by (simp add: abs_mult_self_eq algebra_simps)
  have U: "val m up (2 * h) = ?U0 + BB ^ h * ?U1" by (rule val_quarters(3))
  have "4 * h = 2 * h + 2 * h" by simp
  then have small: "(?U0 + BB ^ h * ?U1) * (?U0 + BB ^ h * ?U1) < BB ^ (4 * h)"
    unfolding U [symmetric] by (metis val_product_bound)
  have rec: "\<exists>m2. MPN_SQR_N_RECURSE T Q up h (Q + 2 * h) m' = Some m2 \<and> val m2 Q (2 * h) = ?U0 * ?U0 \<and> writes2 Q (2 * h) (Q + 2 * h) (2 * h) m' m2"
    if "writes (P + h) (2 * h) m4 m'" for m'
  proof -
    have f5: "writes2 P (4 * h) Q (4 * h) m m'" using writes2_trans [OF f4 writes_writes2 [OF that]] by simp
    show ?thesis using squares_areas [OF assms(2) half(3), of m'] unfolding areas_keep [OF ar f5] .
  qed
  obtain m' where c: "do { (m, cy) \<leftarrow> add_H_M P Q (2 * h) True m4; m \<leftarrow> MPN_SQR_N_RECURSE T Q up h (Q + 2 * h) m; add_L P Q (2 * h) cy m } = Some m'"
      "val m' P (4 * h) = (?U0 + BB ^ h * ?U1) * (?U0 + BB ^ h * ?U1)" "writes2 P (4 * h) Q (4 * h) m4 m'"
    using karatsuba_combine [OF assms(1) sPQ H M val_range(1) val_range(1) val_range(1) val_range(1) small rec] by blast
  have "impn_sqr_n T P up (2 * h) Q m = Some m'"
    using 1(1) 2(1) 4(1) c(1) by (subst impn_sqr_n.simps) (simp add: Let_def)
  then show ?thesis using c(2) writes2_trans [OF f4 c(3)] unfolding U by blast
qed

lemma square_odd:
  assumes "0 < e" "even e" "squares (MPN_SQR_N_RECURSE T) e" and ar: "areas P up up Q (Suc e)"
  shows "\<exists>m'. impn_sqr_n T P up (Suc e) Q m = Some m' \<and> val m' P (2 * e + 2) = val m up (Suc e) * val m up (Suc e) \<and>
    writes2 P (2 * e + 2) Q (2 * e + 2) m m'"
proof -
  have s: "sep P (2 * e + 2) up (Suc e)" "sep Q (2 * e + 2) up (Suc e)" using ar by (simp_all add: areas_def)
  obtain m1 where 1: "MPN_SQR_N_RECURSE T P up e Q m = Some m1" "val m1 P (2 * e) = val m up e * val m up e" "writes2 P (2 * e) Q (2 * e) m m1"
    using squares_areas [OF assms(3) areas_pred [OF ar]] by blast
  have w: "writes2 P (2 * e + 2) Q (2 * e + 2) m m1" using writes2_mono [OF 1(3)] by simp
  have U: "val m1 up (Suc e) = val m up (Suc e)" using val_writes2 [OF w s] by simp
  have "val m1 up e = val m up e"
    using sep_sub [OF s(1), of P "2 * e + 2" up e] sep_sub [OF s(2), of Q "2 * e + 2" up e] val_writes2 [OF w, of up e] by simp
  then have prod: "val m1 P (2 * e) = val m1 up e * val m1 up e" using 1(2) by simp
  obtain m2 c m4 d where 2: "mpn_addmul_1 (P + e) up e (m1 (up + e)) m1 = Some (m2, c)"
      "mpn_addmul_1 (P + e) up (Suc e) ((m2(P + e + e := c)) (up + e)) (m2(P + e + e := c)) = Some (m4, d)"
      "val (m4(P + e + Suc e := d)) P (2 * e + 2) = val m up (Suc e) * val m up (Suc e)" "writes P (2 * e + 2) m1 (m4(P + e + Suc e := d))"
    using odd_rows [OF assms(1) s(1,1) prod] unfolding U by blast
  have "impn_sqr_n T P up (Suc e) Q m = Some (m4(P + e + Suc e := d))"
    using assms(2) 1(1) 2(1,2) by (subst impn_sqr_n.simps) (simp add: Let_def del: fun_upd_apply)
  moreover have "writes2 P (2 * e + 2) Q (2 * e + 2) m (m4(P + e + Suc e := d))"
    using writes2_trans [OF w writes_writes2 [OF 2(4)]] by simp
  ultimately show ?thesis using 2(3) by blast
qed

theorem sqr_n_recurse_squares: "0 < n \<Longrightarrow> squares (MPN_SQR_N_RECURSE T) n"
proof (induction n rule: less_induct)
  case (less n)
  show ?case
    unfolding squares_def
  proof (intro allI impI)
    fix P up Q and m :: mem
    assume ar: "areas P up up Q n"
    show "\<exists>m'. MPN_SQR_N_RECURSE T P up n Q m = Some m' \<and> val m' P (2 * n) = val m up n * val m up n \<and> writes2 P (2 * n) Q (2 * n) m m'"
    proof (cases "n < max 2 T")
      case True
      then show ?thesis using basecase_areas [OF less.prems ar] by (subst MPN_SQR_N_RECURSE.simps) (simp add: impn_sqr_n_basecase_def)
    next
      case False
      then have code: "MPN_SQR_N_RECURSE T P up n Q m = impn_sqr_n T P up n Q m"
        by (subst MPN_SQR_N_RECURSE.simps) simp
      show ?thesis
      proof (cases "even n")
        case True
        then obtain h where h: "n = 2 * h" by (elim evenE)
        then have "0 < h" "squares (MPN_SQR_N_RECURSE T) h" using less by simp_all
        from square_even [OF this ar [unfolded h], of m] show ?thesis unfolding code unfolding h by simp
      next
        case odd: False
        define e where "e = n - 1"
        have n: "n = Suc e" using less.prems by (simp add: e_def)
        have "0 < e" "even e" "squares (MPN_SQR_N_RECURSE T) e" using False odd less.IH [of e] by (auto simp: n)
        from square_odd [OF this ar [unfolded n], of m] show ?thesis unfolding code unfolding n by simp
      qed
    qed
  qed
qed

section \<open>Operands of different sizes\<close>

text \<open>Below the temporary memory at \<open>tmp\<close> only \<open>n\<close> limbs at \<open>r\<close> are changed.\<close>

definition writes_tmp :: "nat \<Rightarrow> nat \<Rightarrow> nat \<Rightarrow> mem \<Rightarrow> mem \<Rightarrow> bool" where
  "writes_tmp r n tmp m m' \<longleftrightarrow> (\<forall>a < tmp. a < r \<or> r + n \<le> a \<longrightarrow> m' a = m a)"

lemma writes_tmp_trans:
  "writes_tmp r n t m m' \<Longrightarrow> writes_tmp r' n' t' m' m'' \<Longrightarrow> r'' \<le> r \<Longrightarrow> r + n \<le> r'' + n'' \<Longrightarrow> r'' \<le> r' \<Longrightarrow> r' + n' \<le> r'' + n'' \<Longrightarrow>
     t'' \<le> t \<Longrightarrow> t'' \<le> t' \<Longrightarrow> writes_tmp r'' n'' t'' m m''"
  by (auto simp: writes_tmp_def)

lemma writes_writes_tmp: "writes r n m m' \<Longrightarrow> writes_tmp r n t m m'"
  by (auto simp: writes_def writes_tmp_def)

lemma writes2_writes_tmp: "writes2 p n q k m m' \<Longrightarrow> t \<le> q \<Longrightarrow> writes_tmp p n t m m'"
  by (auto simp: writes2_def writes_tmp_def)

lemma writes2_tmp_only: "writes2 p n q k m m' \<Longrightarrow> t \<le> p \<Longrightarrow> t \<le> q \<Longrightarrow> writes_tmp r j t m m'"
  by (auto simp: writes2_def writes_tmp_def)

lemma val_writes_tmp: "writes_tmp r n t m m' \<Longrightarrow> sep r n p k \<Longrightarrow> p + k \<le> t \<Longrightarrow> val m' p k = val m p k"
  by (rule val_cong) (auto simp: writes_tmp_def sep_def)

lemma add_block_correct:
  assumes "0 < k" "0 < j" "sep r (k + j) t (k + j)" "val m r k + val m t (k + j) < BB ^ (k + j)"
  shows "\<exists>m'. add_block r t k j m = Some m' \<and> val m' r (k + j) = val m r k + val m t (k + j) \<and> writes r (k + j) m m'"
proof -
  have up: "upward r t k" "upward (r + k) (t + k) j" "sep r k (t + k) j" using assms(3) by (auto simp: sep_def upward_def)
  obtain m1 c where 1: "mpn_add_n r r t k m = Some (m1, c)" "val m1 r k + BB ^ k * uint c = val m r k + val m t k" "writes r k m m1"
    using mpn_add_n_correct [OF assms(1) upward_refl up(1), of m] by blast
  obtain m2 d where 2: "mpn_add_1 (r + k) (t + k) j c m1 = Some (m2, d)" "val m2 (r + k) j + BB ^ j * uint d = val m1 (t + k) j + uint c"
      "writes (r + k) j m1 m2"
    using mpn_add_1_correct [OF assms(2) up(2), of c m1] by blast
  have keep: "val m2 r k = val m1 r k" "val m1 (t + k) j = val m (t + k) j"
    using val_writes [OF 2(3), of r k] val_writes [OF 1(3) up(3)] by (simp_all add: sep_def)
  have "val m2 r (k + j) + BB ^ (k + j) * uint d = val m1 r k + BB ^ k * (val m2 (r + k) j + BB ^ j * uint d)"
    unfolding val_append keep power_add by (simp only: algebra_simps)
  also have "\<dots> = val m r k + val m t (k + j)"
    unfolding 2(2) keep val_append using 1(2) by (simp add: algebra_simps)
  finally have eq: "val m2 r (k + j) + BB ^ (k + j) * uint d = val m r k + val m t (k + j)" .
  have "val m2 r (k + j) = val m r k + val m t (k + j)"
    using val_unique [OF eq] assms(4) val_range(1) [of m r k] val_range(1) [of m t "k + j"] by simp
  moreover have "writes r (k + j) m m2" using writes_trans [OF 1(3) 2(3)] by simp
  ultimately show ?thesis using 1(1) 2(1) by (simp add: add_block_def)
qed

lemma product_plus_bound: "val m r k + val m' p j * val m'' q k < BB ^ (k + j)"
proof -
  have "val m' p j * val m'' q k \<le> (BB ^ j - 1) * val m'' q k"
    using val_range(2) [of m' p j] val_range(1) [of m'' q k] by (intro mult_right_mono) simp_all
  moreover have "(BB ^ j - 1) * val m'' q k \<le> (BB ^ j - 1) * (BB ^ k - 1)"
    using val_range(2) [of m'' q k] one_le_power [of BB j] by (intro mult_left_mono) simp_all
  moreover have "(BB ^ j - 1) * (BB ^ k - 1) = BB ^ (k + j) - BB ^ j - BB ^ k + 1" by (simp add: power_add algebra_simps)
  moreover have "0 < BB ^ j" by simp
  ultimately show ?thesis using val_range(2) [of m r k] by linarith
qed

lemma mul_blocks_correct:
  assumes "0 < k" "Q + 2 * k \<le> t"
    and "r + n + k \<le> Q" "up + n \<le> Q" "vp + k \<le> Q" "sep r (n + k) up n" "sep r (n + k) vp k"
  shows "\<exists>m'. mul_blocks Q t vp k r up n m = Some (r + (n - n mod k), up + (n - n mod k), n mod k, m') \<and>
    val m' r (n - n mod k + k) = val m r k + val m up (n - n mod k) * val m vp k \<and> writes_tmp r (n - n mod k + k) Q m m'"
  using assms(3-)
proof (induction n arbitrary: r up m rule: less_induct)
  case (less n)
  show ?case
  proof (cases "n < k")
    case True
    then show ?thesis by (subst mul_blocks.simps) (simp add: writes_tmp_def)
  next
    case False
    have nk: "(n - k) mod k = n mod k" using False by (simp add: le_mod_geq)
    have "(n - k) mod k \<le> n - k" by simp
    then have mod_le: "n mod k \<le> n - k" unfolding nk .
    define d where "d = n - k - n mod k"
    have n: "n - n mod k = k + d" using False mod_le by (simp add: d_def)
    have "sep t (2 * k) up k" "sep t (2 * k) vp k" "sep Q (2 * k) up k" "sep Q (2 * k) vp k" "sep t (2 * k) Q (2 * k)"
      using less.prems(2,3) assms(2) False by (simp_all add: sep_def)
    then have ar: "areas t up vp Q k" by (simp add: areas_def)
    obtain m1 where 1: "MPN_MUL_N_RECURSE KARATSUBA_THRESHOLD t up vp k Q m = Some m1" "val m1 t (2 * k) = val m up k * val m vp k"
        "writes2 t (2 * k) Q (2 * k) m m1"
      using multiplies_areas [OF mul_n_recurse_multiplies [OF assms(1)] ar] by blast
    have w1: "writes_tmp r 0 Q m m1" using writes2_tmp_only [OF 1(3)] assms(2) by simp
    have A: "val m1 r k = val m r k" using val_writes_tmp [OF w1, of r k] less.prems(1) False by (simp add: sep_def)
    have "sep r (k + k) t (k + k)" using less.prems(1) assms(2) False by (simp add: sep_def)
    then obtain m2 where 2: "add_block r t k k m1 = Some m2" "val m2 r (k + k) = val m r k + val m up k * val m vp k" "writes r (k + k) m1 m2"
      using add_block_correct [OF assms(1,1), of r t m1] product_plus_bound [of m r k m up k m vp] 1(2) A by (auto simp: mult_2)
    have w2: "writes_tmp r (n + k) Q m m2"
      using writes_tmp_trans [OF w1 writes_writes_tmp [OF 2(3), of Q]] False by simp
    have keep: "val m2 (up + k) d = val m (up + k) d" "val m2 vp k = val m vp k"
      using val_writes_tmp [OF w2, of "up + k" d] sep_sub [OF less.prems(4), of r "n + k" "up + k" d] less.prems(2)
        val_writes_tmp [OF w2 less.prems(5,3)] False by (simp_all add: d_def)
    have seps: "sep (r + k) (n - k + k) (up + k) (n - k)" "sep (r + k) (n - k + k) vp k"
      using sep_sub [OF less.prems(4), of "r + k" "n - k + k" "up + k" "n - k"] sep_sub [OF less.prems(5), of "r + k" "n - k + k" vp k] False
      by simp_all
    have "n - k < n" "r + k + (n - k) + k \<le> Q" "up + k + (n - k) \<le> Q" using False assms(1) less.prems(1,2) by simp_all
    from less.IH [OF this less.prems(3) seps, of m2] obtain m' where
      3: "mul_blocks Q t vp k (r + k) (up + k) (n - k) m2 = Some (r + k + d, up + k + d, n mod k, m')"
        "val m' (r + k) (d + k) = val m2 (r + k) k + val m2 (up + k) d * val m2 vp k" "writes_tmp (r + k) (d + k) Q m2 m'"
      unfolding nk d_def [symmetric] by blast
    have low: "val m' r k = val m2 r k" using val_writes_tmp [OF 3(3), of r k] less.prems(1) False by (simp add: sep_def)
    have "val m' r (k + (d + k)) = val m2 r (k + k) + BB ^ k * (val m (up + k) d * val m vp k)"
      unfolding val_append [of m' r k] low 3(2) keep val_append [of m2 r k] by (simp only: algebra_simps)
    also have "\<dots> = val m r k + val m up (k + d) * val m vp k" unfolding 2(2) val_append [of m up k] by (simp only: algebra_simps)
    finally have "val m' r (k + d + k) = val m r k + val m up (k + d) * val m vp k" by (simp only: add.assoc)
    moreover have "writes_tmp r (k + d + k) Q m m'"
      using writes_tmp_trans [OF writes_tmp_trans [OF w1 writes_writes_tmp [OF 2(3), of Q], of r "k + k" Q] 3(3), of r "k + d + k" Q] by simp
    moreover have "mul_blocks Q t vp k r up n m = Some (r + (k + d), up + (k + d), n mod k, m')"
      using False assms(1) 1(1) 2(1) 3(1) by (subst mul_blocks.simps) (simp add: add.assoc)
    ultimately show ?thesis unfolding n by blast
  qed
qed

text \<open>The whole blocks of the larger operand.\<close>

lemma mul_whole_blocks:
  assumes "0 < k" "k \<le> n" "r + n + k \<le> Q" "up + n \<le> Q" "vp + k \<le> Q" "sep r (n + k) up n" "sep r (n + k) vp k"
  defines "q \<equiv> (n - k) mod k"
  shows "\<exists>m1 m2. MPN_MUL_N_RECURSE KARATSUBA_THRESHOLD r up vp k Q m = Some m1 \<and>
    mul_blocks Q (Q + 2 * k) vp k (r + k) (up + k) (n - k) m1 = Some (r + (n - q), up + (n - q), q, m2) \<and>
    val m2 r (n - q + k) = val m up (n - q) * val m vp k \<and> writes_tmp r (n - q + k) Q m m2"
proof -
  have "q \<le> n - k" by (simp add: q_def)
  then have n: "n - q = k + (n - k - q)" using assms(2) by simp
  define D where "D = n - k - q"
  have "sep r (2 * k) up k" "sep r (2 * k) vp k"
    using sep_sub [OF assms(6), of r "2 * k" up k] sep_sub [OF assms(7), of r "2 * k" vp k] assms(2) by simp_all
  moreover have "sep Q (2 * k) up k" "sep Q (2 * k) vp k" "sep r (2 * k) Q (2 * k)" using assms(2-5) by (simp_all add: sep_def)
  ultimately have ar: "areas r up vp Q k" by (simp add: areas_def)
  obtain m1 where 1: "MPN_MUL_N_RECURSE KARATSUBA_THRESHOLD r up vp k Q m = Some m1" "val m1 r (2 * k) = val m up k * val m vp k"
      "writes2 r (2 * k) Q (2 * k) m m1"
    using multiplies_areas [OF mul_n_recurse_multiplies [OF assms(1)] ar] by blast
  have w1: "writes_tmp r (2 * k) Q m m1" using writes2_writes_tmp [OF 1(3)] by simp
  have D: "D \<le> n - k" by (simp add: D_def)
  have keep: "val m1 (up + k) D = val m (up + k) D" "val m1 vp k = val m vp k"
    using val_writes_tmp [OF w1, of "up + k" D] sep_sub [OF assms(6), of r "2 * k" "up + k" D]
      val_writes_tmp [OF w1, of vp k] sep_sub [OF assms(7), of r "2 * k" vp k] assms(2,4,5) D by simp_all
  have seps: "sep (r + k) (n - k + k) (up + k) (n - k)" "sep (r + k) (n - k + k) vp k"
    using sep_sub [OF assms(6), of "r + k" "n - k + k" "up + k" "n - k"] sep_sub [OF assms(7), of "r + k" "n - k + k" vp k] assms(2)
    by simp_all
  have "r + k + (n - k) + k \<le> Q" "up + k + (n - k) \<le> Q" using assms(2-4) by simp_all
  from mul_blocks_correct [OF assms(1) order_refl this assms(5) seps, of m1] obtain m2 where
    2: "mul_blocks Q (Q + 2 * k) vp k (r + k) (up + k) (n - k) m1 = Some (r + k + D, up + k + D, q, m2)"
      "val m2 (r + k) (D + k) = val m1 (r + k) k + val m (up + k) D * val m vp k" "writes_tmp (r + k) (D + k) Q m1 m2"
    unfolding q_def [symmetric] D_def [symmetric] keep by blast
  have low: "val m2 r k = val m1 r k" using val_writes_tmp [OF 2(3), of r k] assms(2,3) by (simp add: sep_def)
  have "val m2 r (k + (D + k)) = val m1 r (k + k) + BB ^ k * (val m (up + k) D * val m vp k)"
    unfolding val_append [of m2 r k] low 2(2) val_append [of m1 r k] by (simp only: algebra_simps)
  also have "\<dots> = val m up (k + D) * val m vp k"
    using 1(2) unfolding val_append [of m up k] mult_2 by (simp add: algebra_simps)
  finally have "val m2 r (k + D + k) = val m up (k + D) * val m vp k" by (simp only: add.assoc)
  moreover have "writes_tmp r (k + D + k) Q m m2" using writes_tmp_trans [OF w1 2(3)] by simp
  moreover have "mul_blocks Q (Q + 2 * k) vp k (r + k) (up + k) (n - k) m1 = Some (r + (k + D), up + (k + D), q, m2)"
    using 2(1) by (simp only: add.assoc)
  ultimately show ?thesis using 1(1) unfolding n D_def by blast
qed

lemma mul_last_block:
  assumes "0 < k" "0 < q" "q \<le> k" "r + (d + q) + k \<le> Q" "vp + k \<le> Q" "up + (d + q) \<le> Q"
    and prod: "val m r (d + k) = val m0 up d * val m0 vp k"
    and keep: "val m vp k = val m0 vp k" "val m (up + d) q = val m0 (up + d) q"
    and m1: "val m1 Q (k + q) = val m vp k * val m (up + d) q" "writes_tmp Q (k + q) t m m1" "Q + (k + q) \<le> t"
  shows "\<exists>m2. add_block (r + d) Q k q m1 = Some m2 \<and> val m2 r (d + q + k) = val m0 up (d + q) * val m0 vp k \<and> writes_tmp r (d + q + k) Q m m2"
proof -
  have below: "val m1 p j = val m p j" if "p + j \<le> Q" for p j
    using val_writes_tmp [OF m1(2), of p j] that m1(3) by (simp add: sep_def)
  have "sep (r + d) (k + q) Q (k + q)" using assms(4) by (simp add: sep_def)
  moreover have "val m1 (r + d) k + val m1 Q (k + q) < BB ^ (k + q)"
    using product_plus_bound [of m1 "r + d" k m "up + d" q m vp] unfolding m1(1) by (simp add: mult.commute)
  ultimately obtain m2 where 2: "add_block (r + d) Q k q m1 = Some m2"
      "val m2 (r + d) (k + q) = val m1 (r + d) k + val m1 Q (k + q)" "writes (r + d) (k + q) m1 m2"
    using add_block_correct [OF assms(1,2)] by blast
  have low: "val m2 r d = val m r d" using val_writes [OF 2(3), of r d] below [of r d] assms(4) by (simp add: sep_def)
  have mid: "val m1 (r + d) k = val m (r + d) k" using below assms(4) by simp
  have "val m2 r (d + (k + q)) = val m r (d + k) + BB ^ d * (val m0 vp k * val m0 (up + d) q)"
    unfolding val_append [of m2 r d] val_append [of m r d] low 2(2) mid m1(1) keep by (simp only: algebra_simps)
  also have "\<dots> = val m0 up (d + q) * val m0 vp k" unfolding prod val_append [of m0 up d] by (simp only: algebra_simps)
  finally have "val m2 r (d + (k + q)) = val m0 up (d + q) * val m0 vp k" .
  moreover have "d + (k + q) = d + q + k" by simp
  ultimately have v: "val m2 r (d + q + k) = val m0 up (d + q) * val m0 vp k" by metis
  have "writes_tmp r (d + q + k) Q m m2"
    unfolding writes_tmp_def
  proof (intro allI impI)
    fix a
    assume a: "a < Q" "a < r \<or> r + (d + q + k) \<le> a"
    then have "m2 a = m1 a" using 2(3) by (auto simp: writes_def)
    moreover have "m1 a = m a" using m1(2,3) a(1) by (simp add: writes_tmp_def)
    ultimately show "m2 a = m a" by simp
  qed
  then show ?thesis using 2(1) v by blast
qed

lemma mpn_mul_product:
  assumes "0 < k" "k \<le> n" "r + n + k \<le> tmp" "up + n \<le> tmp" "vp + k \<le> tmp" "sep r (n + k) up n" "sep r (n + k) vp k"
  shows "\<exists>m'. mpn_mul tmp r up n vp k m = Some (m', m' (r + n + k - 1)) \<and> val m' r (n + k) = val m up n * val m vp k \<and>
    writes_tmp r (n + k) tmp m m'"
  using assms
proof (induction "n + k" arbitrary: tmp r up n vp k m rule: less_induct)
  case less
  show ?case
  proof (cases "k < KARATSUBA_THRESHOLD")
    case True
    then show ?thesis
      using mul_basecase_correct [OF _ less.prems(1,6,7), of m] less.prems(1,2)
      by (subst mpn_mul.simps) (auto intro: writes_writes_tmp)
  next
    case False
    define q where "q = (n - k) mod k"
    define d where "d = n - q"
    have q: "q < k" "q \<le> n - k" using less.prems(1) by (simp_all add: q_def)
    have n: "n = d + q" using q(2) by (simp add: d_def)
    obtain m1 m2 where 1: "MPN_MUL_N_RECURSE KARATSUBA_THRESHOLD r up vp k tmp m = Some m1"
        "mul_blocks tmp (tmp + 2 * k) vp k (r + k) (up + k) (n - k) m1 = Some (r + d, up + d, q, m2)"
        "val m2 r (d + k) = val m up d * val m vp k" "writes_tmp r (d + k) tmp m m2"
      using mul_whole_blocks [OF less.prems, of m] unfolding q_def [symmetric] d_def [symmetric] by blast
    let ?tmp = "if n - k \<ge> k then tmp + 2 * k + 2 * k else tmp + 2 * k"
    have code: "mpn_mul tmp r up n vp k m =
        do { m \<leftarrow> (if q \<noteq> 0 then do { (m, _) \<leftarrow> mpn_mul ?tmp tmp vp k (up + d) q m2; add_block (r + d) tmp k q m } else Some m2);
             Some (m, m (r + n + k - 1)) }"
      using False less.prems(2) 1(1,2) by (subst mpn_mul.simps) (simp add: Let_def)
    show ?thesis
    proof (cases "q = 0")
      case True
      then show ?thesis using code 1(3,4) n by simp
    next
      case q0: False
      have pre: "k + q < n + k" "0 < q" "q \<le> k" "tmp + k + q \<le> ?tmp" "vp + k \<le> ?tmp" "up + d + q \<le> ?tmp"
          "sep tmp (k + q) vp k" "sep tmp (k + q) (up + d) q"
        using q0 q less.prems(1-5) n by (auto simp: sep_def)
      obtain m3 where 3: "mpn_mul ?tmp tmp vp k (up + d) q m2 = Some (m3, m3 (tmp + k + q - 1))"
          "val m3 tmp (k + q) = val m2 vp k * val m2 (up + d) q" "writes_tmp tmp (k + q) ?tmp m2 m3"
        using less.hyps [OF pre, of m2] by blast
      have keep: "val m2 vp k = val m vp k" "val m2 (up + d) q = val m (up + d) q"
        using val_writes_tmp [OF 1(4), of vp k] sep_sub [OF less.prems(7), of r "d + k" vp k] less.prems(4,5)
          val_writes_tmp [OF 1(4), of "up + d" q] sep_sub [OF less.prems(6), of r "d + k" "up + d" q] n by simp_all
      have bounds: "r + (d + q) + k \<le> tmp" "up + (d + q) \<le> tmp" "tmp + (k + q) \<le> ?tmp" using less.prems(3,4) pre(4) n by simp_all
      obtain m4 where 4: "add_block (r + d) tmp k q m3 = Some m4" "val m4 r (d + q + k) = val m up (d + q) * val m vp k"
          "writes_tmp r (d + q + k) tmp m2 m4"
        using mul_last_block [OF less.prems(1) pre(2,3) bounds(1) less.prems(5) bounds(2) 1(3) keep 3(2,3) bounds(3)] by blast
      have "mpn_mul tmp r up n vp k m = Some (m4, m4 (r + n + k - 1))" unfolding code using q0 3(1) 4(1) by simp
      moreover have "writes_tmp r (n + k) tmp m m4" using writes_tmp_trans [OF 1(4) 4(3)] n by simp
      ultimately show ?thesis using 4(2) n by simp
    qed
  qed
qed

section \<open>The properties\<close>

text \<open>C11. Karatsuba multiplication in place: \<open>mpn_mul_n\<close> ends and stores the exact product of two numbers of
  the same size, whichever method the size selects, squaring included when the operands are the same
  array, and for every split, sign of the middle product and pattern of carries. It uses the product
  area for intermediate results and twice the operand size of temporary memory, and changes nothing else.\<close>

theorem mpn_mul_n_correct:
  assumes "0 < n" "areas prodp up vp tmp n"
  shows "\<exists>m'. mpn_mul_n tmp prodp up vp n m = Some m' \<and> val m' prodp (2 * n) = val m up n * val m vp n \<and> writes2 prodp (2 * n) tmp (2 * n) m m'"
proof (cases "up = vp")
  case True
  have "mpn_mul_n tmp prodp up vp n m = MPN_SQR_N_RECURSE KARATSUBA_THRESHOLD prodp up n tmp m"
    using True by (subst MPN_SQR_N_RECURSE.simps) (simp add: mpn_mul_n_def KARATSUBA_THRESHOLD_def)
  then show ?thesis
    using squares_areas [OF sqr_n_recurse_squares [OF assms(1)] assms(2) [folded True], of KARATSUBA_THRESHOLD m] True by simp
next
  case False
  then have "mpn_mul_n tmp prodp up vp n m = MPN_MUL_N_RECURSE KARATSUBA_THRESHOLD prodp up vp n tmp m"
    by (subst MPN_MUL_N_RECURSE.simps) (simp add: mpn_mul_n_def KARATSUBA_THRESHOLD_def)
  then show ?thesis
    using multiplies_areas [OF mul_n_recurse_multiplies [OF assms(1)] assms(2), of KARATSUBA_THRESHOLD m] by simp
qed

lemma mpn_mul_n_correct_witness:
  "areas 0 200 300 400 77 \<and>
   (\<exists>m'. mpn_mul_n 400 0 200 300 77 (\<lambda>a. word_of_nat (a * a)) = Some m' \<and>
     val m' 0 154 = val (\<lambda>a. word_of_nat (a * a)) 200 77 * val (\<lambda>a. word_of_nat (a * a)) 300 77)"
proof -
  have a: "areas 0 200 300 400 77" by (simp add: areas_def sep_def)
  show ?thesis using mpn_mul_n_correct [OF _ a, of "\<lambda>a. word_of_nat (a * a)"] a by auto
qed

text \<open>C12. \<open>mpn_mul\<close> multiplies numbers of different sizes exactly: the larger operand is cut into blocks of
  the size of the smaller one, the rest is multiplied by a recursive call with the operands exchanged,
  and the partial products are added with their carries. It returns the most significant limb and
  changes only the product and temporary memory.\<close>

theorem mpn_mul_correct:
  assumes "0 < vsize" "vsize \<le> usize" "prodp + usize + vsize \<le> tmp" "up + usize \<le> tmp" "vp + vsize \<le> tmp"
    and "sep prodp (usize + vsize) up usize" "sep prodp (usize + vsize) vp vsize"
  shows "\<exists>m'. mpn_mul tmp prodp up usize vp vsize m = Some (m', m' (prodp + usize + vsize - 1)) \<and>
    val m' prodp (usize + vsize) = val m up usize * val m vp vsize \<and> writes_tmp prodp (usize + vsize) tmp m m'"
  by (rule mpn_mul_product [OF assms])

lemma mpn_mul_correct_witness:
  "sep 0 133 200 100 \<and>
   (\<exists>m'. mpn_mul 400 0 200 100 300 33 (\<lambda>a. word_of_nat (a * a)) = Some (m', m' 132) \<and>
     val m' 0 133 = val (\<lambda>a. word_of_nat (a * a)) 200 100 * val (\<lambda>a. word_of_nat (a * a)) 300 33)"
proof -
  have s: "sep 0 (100 + 33) 200 100" "sep 0 (100 + 33) 300 33" by (simp_all add: sep_def)
  have b: "0 < (33 :: nat)" "33 \<le> (100 :: nat)" "0 + 100 + 33 \<le> (400 :: nat)" "200 + 100 \<le> (400 :: nat)" "300 + 33 \<le> (400 :: nat)" by simp_all
  show ?thesis using mpn_mul_correct [OF b s, of "\<lambda>a. word_of_nat (a * a)"] s(1) by auto
qed

end
