(* ===== verification/Mpn_Div1.thy ===== *)
theory Mpn_Div1
  imports Mpn
begin

text \<open>
  Division by one limb: the division macros of longlong.h and gmp-impl.h, divmod_1.c and mod_1.c.

  The divisor of \<open>udiv_qrnnd\<close> has its most significant bit set. What the loops rely on is the locale
  \<open>limb_divider\<close>, which the division by half limbs and the multiplication by the inverse of the
  divisor both interpret.
\<close>

section \<open>longlong.h and gmp-impl.h\<close>

definition sub_ddmmss :: "limb \<Rightarrow> limb \<Rightarrow> limb \<Rightarrow> limb \<Rightarrow> limb \<times> limb" where
  "sub_ddmmss ah al bh bl = (let x = al - bl in (ah - bh - of_bool (x > al), x))"

text \<open>One half of \<open>__udiv_qrnnd_c\<close>: the dividend \<open>n\<close> is followed by the half limb \<open>x\<close>.\<close>

definition udiv_half :: "limb \<Rightarrow> limb \<Rightarrow> limb \<Rightarrow> limb \<times> limb" where
  "udiv_half n x d =
     (let d1 = ll_highpart d; d0 = ll_lowpart d;
          r = n mod d1;
          q = n div d1;
          m = q * d0;
          r = r * ll_B OR x;
          (q, r) = (if r < m
                    then let q = q - 1; r = r + d
                         in if r \<ge> d \<and> r < m then (q - 1, r + d) else (q, r)
                    else (q, r))
      in (q, r - m))"

definition udiv_qrnnd_c :: "limb \<Rightarrow> limb \<Rightarrow> limb \<Rightarrow> limb \<times> limb" where
  "udiv_qrnnd_c n1 n0 d =
     (let (q1, r1) = udiv_half n1 (ll_highpart n0) d;
          (q0, r0) = udiv_half r1 (ll_lowpart n0) d
      in (q1 * ll_B OR q0, r0))"

definition udiv_qrnnd_preinv :: "limb \<Rightarrow> limb \<Rightarrow> limb \<Rightarrow> limb \<Rightarrow> limb \<times> limb" where
  "udiv_qrnnd_preinv nh nl d di =
     (let (q, _) = umul_ppmm nh di;
          q = q + nh;
          (xh, xl) = umul_ppmm q d;
          (xh, r) = sub_ddmmss nh nl xh xl;
          (q, r) = (if xh \<noteq> 0
                    then let (xh, r) = sub_ddmmss xh r 0 d;
                             q = q + 1
                         in if xh \<noteq> 0
                            then let (xh, r) = sub_ddmmss xh r 0 d in (q + 1, r)
                            else (q, r)
                    else (q, r))
      in if r \<ge> d then (q + 1, r - d) else (q, r))"

text \<open>The table of mp\_clz\_tab.c and the count of leading zeros.\<close>

definition clz_tab :: "nat list" where
  "clz_tab =
     [0,1,2,2,3,3,3,3,4,4,4,4,4,4,4,4,5,5,5,5,5,5,5,5,5,5,5,5,5,5,5,5,
      6,6,6,6,6,6,6,6,6,6,6,6,6,6,6,6,6,6,6,6,6,6,6,6,6,6,6,6,6,6,6,6,
      7,7,7,7,7,7,7,7,7,7,7,7,7,7,7,7,7,7,7,7,7,7,7,7,7,7,7,7,7,7,7,7,
      7,7,7,7,7,7,7,7,7,7,7,7,7,7,7,7,7,7,7,7,7,7,7,7,7,7,7,7,7,7,7,7,
      8,8,8,8,8,8,8,8,8,8,8,8,8,8,8,8,8,8,8,8,8,8,8,8,8,8,8,8,8,8,8,8,
      8,8,8,8,8,8,8,8,8,8,8,8,8,8,8,8,8,8,8,8,8,8,8,8,8,8,8,8,8,8,8,8,
      8,8,8,8,8,8,8,8,8,8,8,8,8,8,8,8,8,8,8,8,8,8,8,8,8,8,8,8,8,8,8,8,
      8,8,8,8,8,8,8,8,8,8,8,8,8,8,8,8,8,8,8,8,8,8,8,8,8,8,8,8,8,8,8,8]"

fun clz_loop :: "limb \<Rightarrow> nat \<Rightarrow> nat" where
  "clz_loop xr 0 = 0"
| "clz_loop xr (Suc k) = (if drop_bit (8 * Suc k) xr AND 0xff \<noteq> 0 then 8 * Suc k else clz_loop xr k)"

definition count_leading_zeros :: "limb \<Rightarrow> nat" where
  "count_leading_zeros x = (let a = clz_loop x 7 in 64 - (clz_tab ! unat (drop_bit a x) + a))"

section \<open>divmod\_1.c and mod\_1.c\<close>

text \<open>The approximation of \<open>1 / divisor_limb\<close>; it depends on the divisor alone, and the code computes it
  once, before the loop.\<close>

definition divisor_limb_inverted :: "limb \<Rightarrow> limb" where
  "divisor_limb_inverted divisor_limb =
     (if push_bit 1 divisor_limb = 0 then NOT 0 else fst (udiv_qrnnd_c (- divisor_limb) 0 divisor_limb))"

definition preinv_divide :: "limb \<Rightarrow> limb \<Rightarrow> limb \<Rightarrow> limb \<times> limb" where
  "preinv_divide nh nl divisor_limb = udiv_qrnnd_preinv nh nl divisor_limb (divisor_limb_inverted divisor_limb)"

text \<open>Does it help to pre-invert the divisor?\<close>

definition divide_macro :: "int \<Rightarrow> int \<Rightarrow> nat \<Rightarrow> limb \<Rightarrow> limb \<Rightarrow> limb \<Rightarrow> limb \<times> limb" where
  "divide_macro UMUL_TIME UDIV_TIME dividend_size =
     (if UDIV_TIME > 2 * UMUL_TIME + 6 \<and> (UDIV_TIME - (2 * UMUL_TIME + 6)) * int dividend_size > UDIV_TIME
      then preinv_divide else udiv_qrnnd_c)"

text \<open>The loops for a divisor that is shifted by \<open>s\<close>, and for one that needs no shift; \<open>i\<close> limbs are left.\<close>

fun shifted_loop ::
  "(limb \<Rightarrow> limb \<Rightarrow> limb \<Rightarrow> limb \<times> limb) \<Rightarrow> nat \<Rightarrow> nat \<Rightarrow> nat \<Rightarrow> limb \<Rightarrow> nat \<Rightarrow> limb \<Rightarrow> limb \<Rightarrow> mem \<Rightarrow> mem \<times> limb" where
  "shifted_loop udiv s quot_ptr dividend_ptr d 0 n1 r m =
     (let (q, r) = udiv r (push_bit s n1) d in (m(quot_ptr := q), r))"
| "shifted_loop udiv s quot_ptr dividend_ptr d (Suc i) n1 r m =
     (let n0 = m (dividend_ptr + i);
          (q, r) = udiv r (push_bit s n1 OR drop_bit (64 - s) n0) d
      in shifted_loop udiv s quot_ptr dividend_ptr d i n0 r (m(quot_ptr + (i + 1) := q)))"

fun plain_loop ::
  "(limb \<Rightarrow> limb \<Rightarrow> limb \<Rightarrow> limb \<times> limb) \<Rightarrow> nat \<Rightarrow> nat \<Rightarrow> limb \<Rightarrow> nat \<Rightarrow> limb \<Rightarrow> mem \<Rightarrow> mem \<times> limb" where
  "plain_loop udiv quot_ptr dividend_ptr d 0 r m = (m, r)"
| "plain_loop udiv quot_ptr dividend_ptr d (Suc i) r m =
     (let n0 = m (dividend_ptr + i);
          (q, r) = udiv r n0 d
      in plain_loop udiv quot_ptr dividend_ptr d i r (m(quot_ptr + i := q)))"

definition divmod_1_shifted ::
  "(limb \<Rightarrow> limb \<Rightarrow> limb \<Rightarrow> limb \<times> limb) \<Rightarrow> nat \<Rightarrow> nat \<Rightarrow> nat \<Rightarrow> nat \<Rightarrow> limb \<Rightarrow> mem \<Rightarrow> mem \<times> limb" where
  "divmod_1_shifted udiv s quot_ptr dividend_ptr dividend_size divisor_limb m =
     (let divisor_limb = push_bit s divisor_limb;
          n1 = m (dividend_ptr + (dividend_size - 1));
          r = drop_bit (64 - s) n1;
          (m, r) = shifted_loop udiv s quot_ptr dividend_ptr divisor_limb (dividend_size - 1) n1 r m
      in (m, drop_bit s r))"

definition divmod_1_plain ::
  "(limb \<Rightarrow> limb \<Rightarrow> limb \<Rightarrow> limb \<times> limb) \<Rightarrow> nat \<Rightarrow> nat \<Rightarrow> nat \<Rightarrow> limb \<Rightarrow> mem \<Rightarrow> mem \<times> limb" where
  "divmod_1_plain udiv quot_ptr dividend_ptr dividend_size divisor_limb m =
     (let i = dividend_size - 1;
          r = m (dividend_ptr + i)
      in if r \<ge> divisor_limb then plain_loop udiv quot_ptr dividend_ptr divisor_limb (i + 1) 0 m
         else plain_loop udiv quot_ptr dividend_ptr divisor_limb i r (m(quot_ptr + i := 0)))"

text \<open>A divisor 0 would be shifted by 64 bits, which C leaves undefined.\<close>

definition mpn_divmod_1 :: "int \<Rightarrow> int \<Rightarrow> nat \<Rightarrow> nat \<Rightarrow> nat \<Rightarrow> limb \<Rightarrow> mem \<Rightarrow> (mem \<times> limb) option" where
  "mpn_divmod_1 UMUL_TIME UDIV_TIME quot_ptr dividend_ptr dividend_size divisor_limb m =
     (if dividend_size = 0 then Some (m, 0)
      else if divisor_limb = 0 then None
      else let udiv = divide_macro UMUL_TIME UDIV_TIME dividend_size;
               normalization_steps = count_leading_zeros divisor_limb
           in Some (if normalization_steps \<noteq> 0
                    then divmod_1_shifted udiv normalization_steps quot_ptr dividend_ptr dividend_size divisor_limb m
                    else divmod_1_plain udiv quot_ptr dividend_ptr dividend_size divisor_limb m))"

text \<open>mod\_1.c: the same loops without the stores.\<close>

fun mod_shifted_loop ::
  "(limb \<Rightarrow> limb \<Rightarrow> limb \<Rightarrow> limb \<times> limb) \<Rightarrow> nat \<Rightarrow> nat \<Rightarrow> limb \<Rightarrow> nat \<Rightarrow> limb \<Rightarrow> limb \<Rightarrow> mem \<Rightarrow> limb" where
  "mod_shifted_loop udiv s dividend_ptr d 0 n1 r m = snd (udiv r (push_bit s n1) d)"
| "mod_shifted_loop udiv s dividend_ptr d (Suc i) n1 r m =
     (let n0 = m (dividend_ptr + i);
          (dummy, r) = udiv r (push_bit s n1 OR drop_bit (64 - s) n0) d
      in mod_shifted_loop udiv s dividend_ptr d i n0 r m)"

fun mod_plain_loop :: "(limb \<Rightarrow> limb \<Rightarrow> limb \<Rightarrow> limb \<times> limb) \<Rightarrow> nat \<Rightarrow> limb \<Rightarrow> nat \<Rightarrow> limb \<Rightarrow> mem \<Rightarrow> limb" where
  "mod_plain_loop udiv dividend_ptr d 0 r m = r"
| "mod_plain_loop udiv dividend_ptr d (Suc i) r m =
     (let n0 = m (dividend_ptr + i);
          (dummy, r) = udiv r n0 d
      in mod_plain_loop udiv dividend_ptr d i r m)"

definition mod_1_shifted :: "(limb \<Rightarrow> limb \<Rightarrow> limb \<Rightarrow> limb \<times> limb) \<Rightarrow> nat \<Rightarrow> nat \<Rightarrow> nat \<Rightarrow> limb \<Rightarrow> mem \<Rightarrow> limb" where
  "mod_1_shifted udiv s dividend_ptr dividend_size divisor_limb m =
     (let divisor_limb = push_bit s divisor_limb;
          n1 = m (dividend_ptr + (dividend_size - 1));
          r = drop_bit (64 - s) n1
      in drop_bit s (mod_shifted_loop udiv s dividend_ptr divisor_limb (dividend_size - 1) n1 r m))"

definition mod_1_plain :: "(limb \<Rightarrow> limb \<Rightarrow> limb \<Rightarrow> limb \<times> limb) \<Rightarrow> nat \<Rightarrow> nat \<Rightarrow> limb \<Rightarrow> mem \<Rightarrow> limb" where
  "mod_1_plain udiv dividend_ptr dividend_size divisor_limb m =
     (let i = dividend_size - 1;
          r = m (dividend_ptr + i)
      in if r \<ge> divisor_limb then mod_plain_loop udiv dividend_ptr divisor_limb (i + 1) 0 m
         else mod_plain_loop udiv dividend_ptr divisor_limb i r m)"

definition mpn_mod_1 :: "int \<Rightarrow> int \<Rightarrow> nat \<Rightarrow> nat \<Rightarrow> limb \<Rightarrow> mem \<Rightarrow> limb option" where
  "mpn_mod_1 UMUL_TIME UDIV_TIME dividend_ptr dividend_size divisor_limb m =
     (if dividend_size = 0 then Some 0
      else if divisor_limb = 0 then None
      else let udiv = divide_macro UMUL_TIME UDIV_TIME dividend_size;
               normalization_steps = count_leading_zeros divisor_limb
           in Some (if normalization_steps \<noteq> 0
                    then mod_1_shifted udiv normalization_steps dividend_ptr dividend_size divisor_limb m
                    else mod_1_plain udiv dividend_ptr dividend_size divisor_limb m))"

section \<open>The division of two limbs\<close>

lemma div_less_bound: "n div d < k" if "0 < d" "n < k * d" for n d k :: int
proof (rule ccontr)
  assume "\<not> n div d < k"
  then have "k * d \<le> n div d * d" using that(1) by (intro mult_right_mono) simp_all
  then show False using that div_mult_mod_eq [of n d] pos_mod_sign [of d n] by linarith
qed

lemma limb_eqI: "0 \<le> v \<Longrightarrow> v < BB \<Longrightarrow> w = of_int v \<Longrightarrow> uint w = v" for w :: limb
  by (simp add: BB_def uint_word_of_int)

definition normalized :: "limb \<Rightarrow> bool" where
  "normalized d \<longleftrightarrow> 2 ^ 63 \<le> d"

lemma normalized_int: "normalized d \<longleftrightarrow> BB \<le> 2 * uint d"
  by (simp add: normalized_def word_le_def BB_def)

definition HB :: int where
  "HB = 2 ^ 32"

lemma HB_facts [simp]: "0 < HB" "0 \<le> HB" "1 < HB" "HB \<noteq> 0"
  by (simp_all add: HB_def)

lemma HB_square: "HB * HB = BB"
  by (simp add: HB_def BB_def)

lemma uint_ll_B: "uint ll_B = HB"
  by (simp add: ll_B_def HB_def)

lemma half_parts_HB: "uint (ll_lowpart t) = uint t mod HB" "uint (ll_highpart t) = uint t div HB"
  by (simp_all only: half_parts HB_def)

lemma half_limb: "uint t div HB < HB" for t :: limb
proof (rule ccontr)
  assume "\<not> uint t div HB < HB"
  then have "HB * HB \<le> HB * (uint t div HB)" by (intro mult_left_mono) simp_all
  then show False
    using mult_div_mod_eq [of HB "uint t"] pos_mod_sign [of HB "uint t"] limb_range(2) [of t]
    unfolding HB_square using HB_facts(1) by linarith
qed

lemma uint_join_halves:
  assumes "uint a < HB" "uint b < HB"
  shows "uint (a * ll_B OR b) = uint a * HB + uint b"
proof -
  have s: "a * ll_B = push_bit 32 a" by (simp add: ll_B_def push_bit_eq_mult)
  have b: "b = take_bit 32 b" using assms(2) by (simp add: HB_def word_uint_eq_iff unsigned_take_bit_eq take_bit_int_eq_self)
  have "push_bit 32 a AND take_bit 32 b = 0"
    by (rule bit_word_eqI) (auto simp: bit_and_iff bit_push_bit_iff bit_take_bit_iff)
  then have "uint (a * ll_B OR b) = uint (push_bit 32 a) + uint b" using uint_or_disjoint [of "push_bit 32 a" b] b s by metis
  moreover have "uint a * HB \<le> (HB - 1) * HB" using assms(1) by (intro mult_right_mono) simp_all
  then have "uint a * HB < BB" unfolding HB_square [symmetric] left_diff_distrib using HB_facts(1) by linarith
  then have "uint (push_bit 32 a) = uint a * HB" by (simp add: uint_push_limb HB_def mult.commute)
  ultimately show ?thesis by simp
qed

text \<open>The estimate of half a quotient limb from the upper half \<open>d1\<close> of the divisor is too large by 2 at most.\<close>

lemma half_estimate:
  fixes n x d d1 d0 :: int
  assumes d: "d = d1 * HB + d0" "0 \<le> d0" "d0 < HB" "HB \<le> 2 * d1" and n: "0 \<le> n" "n < d" and x: "0 \<le> x" "x < HB"
  defines "q \<equiv> n div d1" and "r \<equiv> n mod d1"
  shows "n * HB + x = q * d + (r * HB + x) - q * d0" "0 \<le> q * d0" "q * d0 < BB" "q < HB + 2" "0 \<le> q" "r * HB + x < d"
proof -
  have d1: "0 < d1" using d(4) HB_facts(1) by linarith
  have nq: "n = q * d1 + r" unfolding q_def r_def by simp
  have r: "0 \<le> r" "r \<le> d1 - 1" using d1 by (simp_all add: r_def)
  show "n * HB + x = q * d + (r * HB + x) - q * d0" unfolding nq d(1) by (simp add: algebra_simps)
  show q0: "0 \<le> q" using n(1) d1 by (simp add: q_def pos_imp_zdiv_nonneg_iff)
  show q: "q < HB + 2"
  proof (rule ccontr)
    assume "\<not> ?thesis"
    then have "(HB + 2) * d1 \<le> q * d1" using d1 by (intro mult_right_mono) simp_all
    then show False using nq n(2) r(1) d(3,4) unfolding d(1) by (simp add: algebra_simps)
  qed
  show "0 \<le> q * d0" using q0 d(2) by simp
  have "q * d0 \<le> (HB + 1) * (HB - 1)" using q q0 d(2,3) by (intro mult_mono) simp_all
  then show "q * d0 < BB" unfolding HB_square [symmetric] by (simp add: algebra_simps)
  have "r * HB \<le> (d1 - 1) * HB" using r by (intro mult_right_mono) simp_all
  then show "r * HB + x < d" using x(2) d(2) unfolding d(1) by (simp add: algebra_simps)
qed

lemma uint_div_limb: "uint (a div b) = uint a div uint b" "uint (a mod b) = uint a mod uint b" for a b :: limb
  by (simp_all add: uint_div uint_mod)

text \<open>The corrections of the estimate \<open>q0\<close> with the rest \<open>r0\<close> and the product \<open>m\<close>.\<close>

lemma half_correction:
  assumes d: "normalized d" and r0: "uint r0 < uint d"
    and code: "(q, r) = (if r0 < m then if r0 + d \<ge> d \<and> r0 + d < m then (q0 - 1 - 1, r0 + d + d - m) else (q0 - 1, r0 + d - m)
                         else (q0, r0 - m))"
  obtains k where "q = of_int (uint q0 - k)" "r = of_int (uint r0 + k * uint d - uint m)"
    "0 \<le> uint r0 + k * uint d - uint m" "uint r0 + k * uint d - uint m < uint d"
proof (cases "r0 < m")
  case False
  then have "uint m \<le> uint r0" by (simp add: word_less_def)
  moreover have "uint r0 - uint m < uint d" using r0 limb_range(1) [of m] by linarith
  ultimately show ?thesis using code False by (intro that [of 0]) simp_all
next
  case True
  have sum: "uint (r0 + d) = uint r0 + uint d - BB * of_bool (r0 + d < d)" using carry_sum_right [of r0 d] by simp
  have room: "BB \<le> 2 * uint d" using d by (simp only: normalized_int)
  show ?thesis
  proof (cases "r0 + d \<ge> d \<and> r0 + d < m")
    case True2: True
    then have "\<not> r0 + d < d" "uint (r0 + d) < uint m" by (simp_all add: word_less_def word_le_def)
    then have "uint r0 + uint d < uint m" using sum by simp
    moreover have "0 \<le> uint r0 + 2 * uint d - uint m" using room limb_range(2) [of m] limb_range(1) [of r0] by linarith
    ultimately show ?thesis using code True True2 by (intro that [of 2]) simp_all
  next
    case False2: False
    have "uint m \<le> uint r0 + uint d"
    proof (cases "r0 + d < d")
      case True
      then have "BB \<le> uint r0 + uint d" using sum limb_range(1) [of "r0 + d"] by simp
      then show ?thesis using limb_range(2) [of m] by linarith
    next
      case False
      then have "uint m \<le> uint (r0 + d)" using False2 by (simp add: word_less_def word_le_def)
      then show ?thesis using sum False by simp
    qed
    moreover have "(q, r) = (q0 - 1, r0 + d - m)" using code True False2 by auto
    ultimately show ?thesis using True by (intro that [of 1]) (simp_all add: word_less_def)
  qed
qed

lemma udiv_half:
  assumes d: "normalized d" and n: "uint n < uint d" and x: "uint x < HB" and code: "udiv_half n x d = (q, r)"
  shows "uint n * HB + uint x = uint q * uint d + uint r" "uint r < uint d" "uint q < HB"
proof -
  define d1 d0 where "d1 = ll_highpart d" and "d0 = ll_lowpart d"
  have D: "uint d = uint d1 * HB + uint d0" "0 \<le> uint d0" "uint d0 < HB" "uint d1 < HB"
    using half_limb [of d] by (simp_all add: d1_def d0_def half_parts_HB)
  have "HB * HB \<le> 2 * (uint d1 * HB + uint d0)" using d unfolding normalized_int HB_square D(1) .
  then have "HB * (HB - 2) < HB * (2 * uint d1)" using D(3) by (simp add: algebra_simps)
  then have "HB - 2 < 2 * uint d1" by simp
  then have D4: "HB \<le> 2 * uint d1" by (simp add: HB_def)
  define Q R M where "Q = uint n div uint d1" and "R = uint n mod uint d1 * HB + uint x" and "M = Q * uint d0"
  note est = half_estimate [OF D(1-3) D4 limb_range(1) n limb_range(1) x, folded Q_def R_def, folded M_def]
  define r0 m where "r0 = n mod d1 * ll_B OR x" and "m = (n div d1) * d0"
  have "0 < uint d1" using D4 HB_facts(1) by linarith
  then have "uint n mod uint d1 < HB" using D(4) pos_mod_bound [of "uint d1" "uint n"] by linarith
  then have r0: "uint r0 = R" unfolding r0_def R_def by (subst uint_join_halves) (simp_all add: uint_div_limb x)
  have m: "uint m = M" using est(3) unfolding m_def M_def Q_def by (subst uint_mult_small) (simp_all add: uint_div_limb)
  have qw: "uint (n div d1) = Q" by (simp add: Q_def uint_div_limb)
  let ?T = "uint n * HB + uint x"
  have cases: "(q, r) = (if r0 < m then if r0 + d \<ge> d \<and> r0 + d < m then (n div d1 - 1 - 1, r0 + d + d - m) else (n div d1 - 1, r0 + d - m)
                         else (n div d1, r0 - m))"
    unfolding code [symmetric] udiv_half_def Let_def d1_def [symmetric] d0_def [symmetric] r0_def [symmetric] m_def [symmetric]
    by simp
  obtain k where k: "q = of_int (Q - k)" "r = of_int (R + k * uint d - M)" "0 \<le> R + k * uint d - M" "R + k * uint d - M < uint d"
    using half_correction [OF d _ cases] est(6) unfolding r0 m qw by blast
  have T: "?T = (Q - k) * uint d + (R + k * uint d - M)" using est(1) by (simp add: algebra_simps)
  have r: "uint r = R + k * uint d - M" using k limb_range(2) [of d] by (intro limb_eqI) linarith+
  have dpos: "0 < uint d" using n limb_range(1) [of n] by linarith
  have "?T div uint d = Q - k" using k(3,4) dpos unfolding T by (simp add: div_pos_pos_trivial)
  moreover have "0 \<le> ?T div uint d" using dpos by (simp add: pos_imp_zdiv_nonneg_iff)
  moreover have "?T < HB * uint d"
  proof -
    have "uint n * HB \<le> (uint d - 1) * HB" using n by (intro mult_right_mono) simp_all
    then show ?thesis using x by (simp add: algebra_simps)
  qed
  then have "?T div uint d < HB" using dpos by (intro div_less_bound)
  ultimately have qk: "0 \<le> Q - k" "Q - k < HB" by simp_all
  moreover have "HB < BB" by (simp add: HB_def BB_def)
  ultimately have "uint q = Q - k" using k(1) by (intro limb_eqI) linarith+
  then show "?T = uint q * uint d + uint r" "uint r < uint d" "uint q < HB" using T r k(4) qk by simp_all
qed

lemma udiv_qrnnd_c:
  assumes d: "normalized d" and n: "uint n1 < uint d" and code: "udiv_qrnnd_c n1 n0 d = (q, r)"
  shows "uint n1 * BB + uint n0 = uint q * uint d + uint r" "uint r < uint d"
proof -
  obtain q1 r1 where h1: "udiv_half n1 (ll_highpart n0) d = (q1, r1)" by fastforce
  obtain q0 r0 where h0: "udiv_half r1 (ll_lowpart n0) d = (q0, r0)" by fastforce
  have parts: "uint (ll_highpart n0) < HB" "uint (ll_lowpart n0) < HB" using half_limb by (simp_all add: half_parts_HB)
  note c1 = udiv_half [OF d n parts(1) h1]
  note c0 = udiv_half [OF d c1(2) parts(2) h0]
  have qr: "q = q1 * ll_B OR q0" "r = r0" using code by (simp_all add: udiv_qrnnd_c_def h1 h0)
  have n0: "uint n0 = uint (ll_highpart n0) * HB + uint (ll_lowpart n0)" by (simp add: half_parts_HB)
  have "uint n1 * BB + uint n0 = (uint n1 * HB + uint (ll_highpart n0)) * HB + uint (ll_lowpart n0)"
    by (simp add: n0 algebra_simps flip: HB_square)
  also have "\<dots> = (uint q1 * HB) * uint d + (uint r1 * HB + uint (ll_lowpart n0))"
    unfolding c1(1) by (simp add: algebra_simps)
  also have "\<dots> = (uint q1 * HB + uint q0) * uint d + uint r0" unfolding c0(1) by (simp add: algebra_simps)
  finally show "uint n1 * BB + uint n0 = uint q * uint d + uint r" "uint r < uint d"
    using c0(2) unfolding qr by (simp_all add: uint_join_halves c1(3) c0(3))
qed

section \<open>Multiplication by the inverse\<close>

lemma sub_ddmmss:
  assumes code: "sub_ddmmss ah al bh bl = (h, l)" and le: "uint bh * BB + uint bl \<le> uint ah * BB + uint al"
  shows "uint h * BB + uint l = (uint ah * BB + uint al) - (uint bh * BB + uint bl)"
proof -
  define c :: int where "c = of_bool (al - bl > al)"
  have l: "uint l = uint al - uint bl + BB * c" and h: "h = of_int (uint ah - uint bh - c)"
    using code borrow_diff [of al bl] by (auto simp: sub_ddmmss_def Let_def c_def)
  have "BB * (uint bh + c - uint ah) < BB * 1"
    unfolding right_diff_distrib distrib_left using le l limb_range(2) [of l] mult.commute [of BB "uint ah"] mult.commute [of BB "uint bh"] by linarith
  then have "0 \<le> uint ah - uint bh - c" by (simp only: mult_less_cancel_left_pos BB_pos)
  moreover have "0 \<le> c" by (simp add: c_def)
  then have "uint ah - uint bh - c < BB" using limb_range(2) [of ah] limb_range(1) [of bh] by linarith
  ultimately have "uint h = uint ah - uint bh - c" using h by (intro limb_eqI) simp_all
  then have "uint h * BB = uint ah * BB - uint bh * BB - c * BB" by (simp only: left_diff_distrib)
  then show ?thesis using l by (simp only: mult.commute [of BB])
qed

text \<open>\<open>di\<close> is the inverse of \<open>d\<close>, without its leading bit.\<close>

definition inverse_of :: "limb \<Rightarrow> limb \<Rightarrow> bool" where
  "inverse_of d di \<longleftrightarrow> BB * BB - uint d \<le> (BB + uint di) * uint d \<and> (BB + uint di) * uint d \<le> BB * BB"

lemma preinv_estimate:
  fixes nh nl d v :: int
  assumes v: "BB * BB - d \<le> v * d" "v * d \<le> BB * BB" "0 \<le> v" and n: "0 \<le> nh" "nh < d" "0 \<le> nl" "nl < BB" and d: "d < BB"
  defines "q \<equiv> nh * v div BB"
  shows "0 \<le> q" "q < BB" "q * d \<le> nh * BB + nl" "nh * BB + nl - q * d < BB + 2 * d"
proof -
  have d0: "0 < d" using n by linarith
  have qv: "nh * v = q * BB + nh * v mod BB" by (simp add: q_def)
  have md: "0 \<le> nh * v mod BB" "nh * v mod BB \<le> BB - 1" by (simp_all add: BB_def)
  show "0 \<le> q" using n(1) v(3) by (simp add: q_def pos_imp_zdiv_nonneg_iff)
  have "nh * (v * d) \<le> nh * (BB * BB)" using v(2) n(1) by (intro mult_left_mono) simp_all
  moreover have "q * BB * d \<le> nh * v * d" using qv md(1) d0 by (intro mult_right_mono) linarith+
  ultimately have "BB * (q * d) \<le> BB * (nh * BB)" by (simp only: ac_simps)
  then have qd: "q * d \<le> nh * BB" by (simp only: mult_le_cancel_left_pos BB_pos)
  then show "q * d \<le> nh * BB + nl" using n(3) by linarith
  show "q < BB"
  proof (rule ccontr)
    assume "\<not> q < BB"
    then have "d * BB \<le> d * q" using d0 by (intro mult_left_mono) simp_all
    moreover have "nh * BB < d * BB" using n(2) by simp
    ultimately show False using qd by (simp only: mult.commute [of d])
  qed
  have "nh * (BB * BB - d) \<le> nh * (v * d)" using v(1) n(1) by (intro mult_left_mono) simp_all
  moreover have "nh * v * d \<le> (q * BB + (BB - 1)) * d" using qv md(2) d0 by (intro mult_right_mono) linarith+
  ultimately have "nh * BB * BB - nh * d \<le> q * d * BB + BB * d - d" by (simp add: algebra_simps)
  moreover have "nh * d \<le> BB * d" using n d d0 by (intro mult_right_mono) linarith+
  moreover have "nl * BB < BB * BB" using n(4) by simp
  ultimately have "BB * (nh * BB + nl - q * d) < BB * (BB + 2 * d)" using d0 by (simp only: algebra_simps)
  then show "nh * BB + nl - q * d < BB + 2 * d" by (simp only: mult_less_cancel_left_pos BB_pos)
qed

lemma sub_limb:
  assumes code: "sub_ddmmss h l 0 d = (h', l')" and big: "h \<noteq> 0"
  shows "uint h' * BB + uint l' = uint h * BB + uint l - uint d"
proof -
  have "0 < uint h" using big by (metis uint_0_iff limb_range(1) order_le_less)
  then have "BB * 1 \<le> BB * uint h" by (intro mult_left_mono) simp_all
  then have "uint d \<le> uint h * BB + uint l" using limb_range(2) [of d] limb_range(1) [of l] by (simp only: mult.commute [of "uint h"])
  then show ?thesis using sub_ddmmss [OF code] by simp
qed

lemma udiv_qrnnd_preinv:
  assumes d: "normalized d" and di: "inverse_of d di" and n: "uint nh < uint d" and code: "udiv_qrnnd_preinv nh nl d di = (q, r)"
  shows "uint nh * BB + uint nl = uint q * uint d + uint r" "uint r < uint d"
proof -
  let ?N = "uint nh * BB + uint nl"
  obtain p1 p0 where m1: "umul_ppmm nh di = (p1, p0)" by fastforce
  define q0 where "q0 = p1 + nh"
  obtain x1 x0 where m2: "umul_ppmm q0 d = (x1, x0)" by fastforce
  obtain xh r0 where s1: "sub_ddmmss nh nl x1 x0 = (xh, r0)" by fastforce
  obtain xh1 r1 where s2: "sub_ddmmss xh r0 0 d = (xh1, r1)" by fastforce
  obtain xh2 r2 where s3: "sub_ddmmss xh1 r1 0 d = (xh2, r2)" by fastforce
  have "uint nh * (BB + uint di) = BB * (uint p1 + uint nh) + uint p0"
    using umul_ppmm [OF m1] by (simp add: algebra_simps)
  then have p: "uint p1 + uint nh = uint nh * (BB + uint di) div BB"
    using int_div_pos_eq [OF _ limb_range(1,2), of _ _ p0] by simp
  have inv: "BB * BB - uint d \<le> (BB + uint di) * uint d" "(BB + uint di) * uint d \<le> BB * BB" "0 \<le> BB + uint di"
    using di by (simp_all add: inverse_of_def)
  note est = preinv_estimate [OF inv limb_range(1) n limb_range(1) limb_range(2) limb_range(2), folded p]
  have q0: "uint q0 = uint p1 + uint nh" unfolding q0_def using est(2) by (rule uint_add_small)
  define R where "R = ?N - uint q0 * uint d"
  have R: "0 \<le> R" "R < BB + 2 * uint d" using est(3,4) [of nl] by (simp_all only: R_def q0)
  have x: "uint x1 * BB + uint x0 = uint q0 * uint d" using umul_ppmm [OF m2] by (simp only: mult.commute [of "uint x1"])
  have R0: "uint xh * BB + uint r0 = R" using sub_ddmmss [OF s1] R(1) unfolding x R_def by linarith
  have R1: "uint xh1 * BB + uint r1 = R - uint d" if "xh \<noteq> 0" using sub_limb [OF s2 that] R0 by linarith
  have R2: "uint xh2 * BB + uint r2 = R - 2 * uint d" if "xh \<noteq> 0" "xh1 \<noteq> 0" using sub_limb [OF s3 that(2)] R1 [OF that(1)] by linarith
  have xh2: "xh2 = 0" if "xh \<noteq> 0" "xh1 \<noteq> 0"
  proof -
    have "uint xh2 * BB < 1 * BB" using R2 [OF that] R(2) limb_range(1) [of r2] by linarith
    then have "uint xh2 < 1" by (simp only: mult_less_cancel_right_pos BB_pos)
    then show ?thesis using limb_range(1) [of xh2] by (metis int_one_le_iff_zero_less linorder_not_le order_le_less uint_0_iff)
  qed
  define k ra where "k = (if xh \<noteq> 0 then if xh1 \<noteq> 0 then 2 else 1 else 0 :: int)"
    and "ra = (if xh \<noteq> 0 then if xh1 \<noteq> 0 then r2 else r1 else r0)"
  have ra: "uint ra = R - k * uint d" using R0 R1 R2 xh2 by (auto simp: ra_def k_def)
  have "(q, r) = (if ra \<ge> d then (q0 + of_int k + 1, ra - d) else (q0 + of_int k, ra))"
    unfolding code [symmetric] udiv_qrnnd_preinv_def by (auto simp: m1 m2 s1 s2 s3 q0_def [symmetric] k_def ra_def)
  moreover define j where "j = (if ra \<ge> d then k + 1 else k)"
  ultimately have qr: "q = of_int (uint q0 + j)" "r = (if ra \<ge> d then ra - d else ra)" by (auto split: if_splits)
  have small: "uint ra < 2 * uint d" using d limb_range(2) [of ra] unfolding normalized_int by linarith
  have r: "uint r = R - j * uint d" "uint r < uint d"
    using ra small uint_sub_if' [of ra d] unfolding qr(2) j_def by (auto simp: word_le_def algebra_simps)
  have N: "?N = (uint q0 + j) * uint d + uint r" unfolding r R_def by (simp add: algebra_simps)
  have "0 \<le> j" by (simp add: j_def k_def)
  then have "0 \<le> uint q0 + j" by simp
  moreover have "uint q0 + j < BB"
  proof (rule ccontr)
    assume "\<not> uint q0 + j < BB"
    then have "BB * uint d \<le> (uint q0 + j) * uint d" by (intro mult_right_mono) simp_all
    moreover have "uint nh * BB \<le> (uint d - 1) * BB" using n by (intro mult_right_mono) simp_all
    ultimately show False using N limb_range(1) [of r] limb_range(2) [of nl] by (simp only: algebra_simps)
  qed
  ultimately have "uint q = uint q0 + j" using qr(1) by (intro limb_eqI)
  then show "?N = uint q * uint d + uint r" "uint r < uint d" using N r(2) by simp_all
qed

lemma clz_tab_bounds: "k < 256 \<Longrightarrow> clz_tab ! k \<le> 8 \<and> int k < 2 ^ (clz_tab ! k) \<and> (k \<noteq> 0 \<longrightarrow> 2 ^ (clz_tab ! k) \<le> 2 * int k)"
proof -
  have "list_all (\<lambda>(k, c). c \<le> 8 \<and> k < 2 ^ c \<and> (k \<noteq> 0 \<longrightarrow> 2 ^ c \<le> 2 * k)) (zip [0..<256] clz_tab)" by code_simp
  moreover have "length clz_tab = 256" by code_simp
  moreover assume "k < 256"
  ultimately have "(\<lambda>(k, c). c \<le> 8 \<and> k < 2 ^ c \<and> (k \<noteq> 0 \<longrightarrow> 2 ^ c \<le> 2 * k)) (zip [0..<256] clz_tab ! k)"
    by (simp add: list_all_length)
  then have c: "clz_tab ! k \<le> 8" "k < 2 ^ (clz_tab ! k)" "k \<noteq> 0 \<Longrightarrow> 2 ^ (clz_tab ! k) \<le> 2 * k"
    using \<open>k < 256\<close> \<open>length clz_tab = 256\<close> by simp_all
  have "int k < int (2 ^ (clz_tab ! k))" using c(2) by (simp only: of_nat_less_iff)
  moreover have "k \<noteq> 0 \<Longrightarrow> int (2 ^ (clz_tab ! k)) \<le> int (2 * k)" using c(3) by (simp only: of_nat_le_iff not_False_eq_True)
  ultimately show ?thesis using c(1) by simp
qed

lemma clz_loop:
  assumes "uint x < 2 ^ (8 * Suc k)"
  shows "clz_loop x k \<le> 8 * k \<and> uint x div 2 ^ clz_loop x k < 256 \<and> (x \<noteq> 0 \<longrightarrow> 0 < uint x div 2 ^ clz_loop x k)"
  using assms
proof (induction k)
  case 0
  have "x \<noteq> 0 \<Longrightarrow> 0 < uint x" by (metis uint_0_iff limb_range(1) order_le_less)
  then show ?case using 0 by simp
next
  case (Suc k)
  let ?y = "uint x div 2 ^ (8 * Suc k)"
  have "uint x < 256 * 2 ^ (8 * Suc k)" using Suc.prems by (simp add: power_add)
  then have y: "0 \<le> ?y" "?y < 256"
    by (simp_all only: pos_imp_zdiv_nonneg_iff div_less_bound zero_less_power zero_less_numeral limb_range)
  have "uint (drop_bit (8 * Suc k) x AND 0xff) = ?y mod 256"
    by (simp only: unsigned_and_eq uint_drop_limb) (use take_bit_eq_mask [of 8 ?y] in \<open>simp add: mask_eq_exp_minus_1 take_bit_eq_mod\<close>)
  then have test: "drop_bit (8 * Suc k) x AND 0xff \<noteq> 0 \<longleftrightarrow> ?y \<noteq> 0"
    using y by (metis mod_pos_pos_trivial uint_0_iff)
  show ?case
  proof (cases "?y = 0")
    case True
    then have "uint x < 2 ^ (8 * Suc k)"
      using mult_div_mod_eq [of "2 ^ (8 * Suc k)" "uint x"] pos_mod_bound [of "2 ^ (8 * Suc k)" "uint x"] by simp
    then show ?thesis using Suc.IH True test by simp
  next
    case False
    then show ?thesis using y test by simp
  qed
qed

lemma count_leading_zeros:
  assumes "x \<noteq> 0"
  shows "count_leading_zeros x < 64" "uint x * 2 ^ count_leading_zeros x < BB" "BB \<le> 2 * (uint x * 2 ^ count_leading_zeros x)"
proof -
  define a where "a = clz_loop x 7"
  define y where "y = uint x div 2 ^ a"
  define c where "c = clz_tab ! nat y"
  have l: "a \<le> 56" "0 < y" "y < 256"
    using clz_loop [of x 7] assms limb_range(2) [of x] by (simp_all add: a_def y_def BB_def)
  have "unat (drop_bit a x) = nat y" by (simp only: y_def uint_drop_limb unat_eq_nat_uint)
  then have z: "count_leading_zeros x = 64 - (c + a)" by (simp add: count_leading_zeros_def a_def [symmetric] c_def)
  have c: "c \<le> 8" "y < 2 ^ c" "2 ^ c \<le> 2 * y" using clz_tab_bounds [of "nat y"] l by (simp_all add: c_def)
  have "c \<noteq> 0" using c(2) l(2) by (cases c) simp_all
  have x: "y * 2 ^ a \<le> uint x" "uint x < (y + 1) * 2 ^ a"
    using mult_div_mod_eq [of "2 ^ a" "uint x"] pos_mod_bound [of "2 ^ a" "uint x"] pos_mod_sign [of "2 ^ a" "uint x"]
    mult.commute [of "2 ^ a" y] unfolding y_def [symmetric] distrib_right mult_1 using zero_less_power [of "2 :: int" a] by linarith+
  let ?z = "64 - (c + a)"
  have P: "BB = 2 ^ c * 2 ^ a * 2 ^ ?z" using c(1) l(1) by (simp add: BB_def flip: power_add)
  show "count_leading_zeros x < 64" using z \<open>c \<noteq> 0\<close> by simp
  have "uint x < 2 ^ c * 2 ^ a"
  proof -
    have "(y + 1) * 2 ^ a \<le> 2 ^ c * 2 ^ a" using c(2) by (intro mult_right_mono) simp_all
    then show ?thesis using x(2) by linarith
  qed
  then show "uint x * 2 ^ count_leading_zeros x < BB" unfolding P z by (intro mult_strict_right_mono) simp_all
  have "2 ^ c * 2 ^ a \<le> 2 * y * 2 ^ a" using c(3) by (intro mult_right_mono) simp_all
  then have "2 ^ c * 2 ^ a \<le> 2 * uint x" using x(1) by linarith
  then show "BB \<le> 2 * (uint x * 2 ^ count_leading_zeros x)" unfolding P z
    using mult_right_mono [of "2 ^ c * 2 ^ a" "2 * uint x" "2 ^ ?z"] by (simp add: ac_simps)
qed

section \<open>What the loops rely on\<close>

locale limb_divider =
  fixes udiv :: "limb \<Rightarrow> limb \<Rightarrow> limb \<Rightarrow> limb \<times> limb"
  assumes divide_exact: "normalized d \<Longrightarrow> uint n1 < uint d \<Longrightarrow> udiv n1 n0 d = (q, r) \<Longrightarrow> uint n1 * BB + uint n0 = uint q * uint d + uint r"
    and divide_rest: "normalized d \<Longrightarrow> uint n1 < uint d \<Longrightarrow> udiv n1 n0 d = (q, r) \<Longrightarrow> uint r < uint d"
begin

lemma plain_loop_correct:
  assumes "normalized d" "uint r < uint d" "downward qp np i" "plain_loop udiv qp np d i r m = (m', r')"
  shows "val m' qp i * uint d + uint r' = uint r * BB ^ i + val m np i \<and> uint r' < uint d \<and> writes qp i m m'"
  using assms(2-)
proof (induction i arbitrary: r m)
  case (Suc i)
  obtain q r1 where q: "udiv r (m (np + i)) d = (q, r1)" by fastforce
  define m1 where "m1 = m(qp + i := q)"
  note ex = divide_exact [OF assms(1) Suc.prems(1) q] divide_rest [OF assms(1) Suc.prems(1) q]
  have down: "downward qp np i" using Suc.prems(2) by (auto simp: downward_def)
  have code: "plain_loop udiv qp np d i r1 m1 = (m', r')" using Suc.prems(3) q by (simp add: m1_def)
  have IH: "val m' qp i * uint d + uint r' = uint r1 * BB ^ i + val m1 np i" "uint r' < uint d" "writes qp i m1 m'"
    using Suc.IH [OF ex(2) down code] by simp_all
  have np: "val m1 np i = val m np i" using Suc.prems(2) by (auto simp: m1_def downward_def intro!: val_cong)
  have "m' (qp + i) = q" using writes_at [OF IH(3), of "qp + i"] by (simp add: m1_def)
  then have "val m' qp (Suc i) * uint d + uint r' = BB ^ i * (uint q * uint d + uint r1) + val m np i"
    using IH(1) unfolding val_snoc np by (simp add: algebra_simps)
  also have "\<dots> = uint r * BB ^ Suc i + val m np (Suc i)" unfolding ex(1) [symmetric] val_snoc by (simp add: algebra_simps)
  finally have "val m' qp (Suc i) * uint d + uint r' = uint r * BB ^ Suc i + val m np (Suc i)" .
  moreover have "writes qp (Suc i) m m'" using IH(3) by (auto simp: writes_def m1_def)
  ultimately show ?case using IH(2) by blast
qed simp

lemma shifted_loop_correct:
  assumes "normalized d" "s \<le> 64" "uint r < uint d" "downward qp np (Suc i)" "shifted_loop udiv s qp np d i n1 r m = (m', r')"
  shows "val m' qp (Suc i) * uint d + uint r' = uint r * BB ^ Suc i + (2 ^ s * uint n1 mod BB) * BB ^ i + 2 ^ s * val m np i
    \<and> uint r' < uint d \<and> writes qp (Suc i) m m'"
  using assms(3-)
proof (induction i arbitrary: n1 r m)
  case 0
  obtain q r1 where q: "udiv r (push_bit s n1) d = (q, r1)" by fastforce
  then show ?case using 0 divide_exact [OF assms(1) 0(1) q] divide_rest [OF assms(1) 0(1) q]
    by (auto simp: uint_push_limb mult.commute)
next
  case (Suc i)
  let ?n0 = "m (np + i)"
  obtain q r1 where q: "udiv r (push_bit s n1 OR drop_bit (64 - s) ?n0) d = (q, r1)" by fastforce
  define m1 where "m1 = m(qp + (i + 1) := q)"
  note ex = divide_exact [OF assms(1) Suc.prems(1) q] divide_rest [OF assms(1) Suc.prems(1) q]
  have down: "downward qp np (Suc i)" using Suc.prems(2) by (auto simp: downward_def)
  have code: "shifted_loop udiv s qp np d i ?n0 r1 m1 = (m', r')" using Suc.prems(3) q by (simp add: m1_def)
  have IH: "val m' qp (Suc i) * uint d + uint r' = uint r1 * BB ^ Suc i + (2 ^ s * uint ?n0 mod BB) * BB ^ i + 2 ^ s * val m1 np i"
      "uint r' < uint d" "writes qp (Suc i) m1 m'"
    using Suc.IH [OF ex(2) down code] by simp_all
  have np: "val m1 np i = val m np i" using Suc.prems(2) by (auto simp: m1_def downward_def intro!: val_cong)
  have "m' (qp + Suc i) = q" using writes_at [OF IH(3), of "qp + Suc i"] by (simp add: m1_def)
  then have "val m' qp (Suc (Suc i)) * uint d + uint r' =
      BB ^ Suc i * (uint q * uint d + uint r1) + (2 ^ s * uint ?n0 mod BB) * BB ^ i + 2 ^ s * val m np i"
    using IH(1) unfolding val_snoc [of m' qp "Suc i"] np by (simp add: algebra_simps)
  also have "\<dots> = uint r * BB ^ Suc (Suc i) + (2 ^ s * uint n1 mod BB) * BB ^ Suc i
      + BB ^ i * (BB * (uint ?n0 div 2 ^ (64 - s)) + 2 ^ s * uint ?n0 mod BB) + 2 ^ s * val m np i"
    unfolding ex(1) [symmetric] uint_shifted_pair [OF assms(2)] by (simp add: algebra_simps)
  also have "\<dots> = uint r * BB ^ Suc (Suc i) + (2 ^ s * uint n1 mod BB) * BB ^ Suc i + 2 ^ s * val m np (Suc i)"
    unfolding shift_parts [OF assms(2), symmetric] val_snoc by (simp add: algebra_simps)
  finally show ?case using IH(2,3) by (auto simp: writes_def m1_def)
qed

lemma divmod_1_plain_correct:
  assumes d: "normalized d" and n: "0 < n" "downward qp np n" and code: "divmod_1_plain udiv qp np n d m = (m', r)"
  shows "val m' qp n * uint d + uint r = val m np n \<and> uint r < uint d \<and> writes qp n m m'"
proof -
  obtain i where i: "n = Suc i" using n(1) by (cases n) simp_all
  show ?thesis
  proof (cases "m (np + i) \<ge> d")
    case True
    have "uint (0 :: limb) < uint d" using d BB_pos(1) unfolding normalized_int unsigned_0 by linarith
    moreover have "plain_loop udiv qp np d n 0 m = (m', r)" using code True by (simp add: divmod_1_plain_def i)
    ultimately show ?thesis using plain_loop_correct [OF d _ n(2)] by fastforce
  next
    case False
    define m1 where "m1 = m(qp + i := 0)"
    have c: "plain_loop udiv qp np d i (m (np + i)) m1 = (m', r)" using code False by (simp add: divmod_1_plain_def i m1_def Let_def)
    have down: "downward qp np i" using n(2) by (auto simp: i downward_def)
    have less: "uint (m (np + i)) < uint d" using False by (simp add: word_le_def)
    have l: "val m' qp i * uint d + uint r = uint (m (np + i)) * BB ^ i + val m1 np i" "uint r < uint d" "writes qp i m1 m'"
      using plain_loop_correct [OF d less down c] by simp_all
    have np: "val m1 np i = val m np i" using n(2) by (auto simp: m1_def i downward_def intro!: val_cong)
    have "m' (qp + i) = 0" using writes_at [OF l(3), of "qp + i"] by (simp add: m1_def)
    then have "val m' qp n * uint d + uint r = val m np n" using l(1) unfolding i val_snoc np by (simp add: mult.commute)
    then show ?thesis using l(2,3) by (auto simp: writes_def m1_def i)
  qed
qed

lemma divmod_1_shifted_correct:
  assumes s: "0 < s" "s < 64" "uint d * 2 ^ s < BB" "BB \<le> 2 * (uint d * 2 ^ s)" and n: "0 < n" "downward qp np n"
    and code: "divmod_1_shifted udiv s qp np n d m = (m', r)"
  shows "val m' qp n * uint d + uint r = val m np n \<and> uint r < uint d \<and> writes qp n m m'"
proof -
  obtain i where i: "n = Suc i" using n(1) by (cases n) simp_all
  let ?n1 = "m (np + i)" and ?d = "push_bit s d"
  have d: "uint ?d = uint d * 2 ^ s" using s(3) by (simp add: uint_push_limb mult.commute)
  have norm: "normalized ?d" using s(4) by (simp only: normalized_int d)
  obtain r' where c: "shifted_loop udiv s qp np ?d i ?n1 (drop_bit (64 - s) ?n1) m = (m', r')" and r: "r = drop_bit s r'"
    using code unfolding divmod_1_shifted_def Let_def i by (auto split: prod.splits)
  have less: "uint (drop_bit (64 - s) ?n1) < uint ?d"
  proof -
    have "BB = 2 ^ s * 2 ^ (64 - s)" using s(2) by (simp add: BB_def flip: power_add)
    then have "uint ?n1 div 2 ^ (64 - s) < 2 ^ s" using limb_range(2) [of ?n1] by (intro div_less_bound) simp_all
    moreover have "0 < uint d" using s(4) BB_pos(1) limb_range(1) [of d] by (metis order_le_less mult_zero_left mult_zero_right not_le)
    then have "1 * 2 ^ s \<le> uint d * 2 ^ s" by (intro mult_right_mono) simp_all
    ultimately show ?thesis by (simp only: uint_drop_limb d)
  qed
  have l: "val m' qp n * uint ?d + uint r' = uint (drop_bit (64 - s) ?n1) * BB ^ n + (2 ^ s * uint ?n1 mod BB) * BB ^ i + 2 ^ s * val m np i"
      "uint r' < uint ?d" "writes qp n m m'"
    using shifted_loop_correct [OF norm less_imp_le [OF s(2)] less n(2) [unfolded i] c] by (simp_all only: i)
  have "val m' qp n * uint ?d + uint r' = BB ^ i * (BB * (uint ?n1 div 2 ^ (64 - s)) + 2 ^ s * uint ?n1 mod BB) + 2 ^ s * val m np i"
    unfolding l(1) by (simp add: i uint_drop_limb algebra_simps)
  also have "\<dots> = 2 ^ s * val m np n"
    unfolding shift_parts [OF less_imp_le [OF s(2)], symmetric] i val_snoc by (simp add: algebra_simps)
  finally have total: "uint r' = 2 ^ s * (val m np n - val m' qp n * uint d)" unfolding d by (simp add: algebra_simps)
  then have "uint r = val m np n - val m' qp n * uint d" unfolding r uint_drop_limb by simp
  moreover have "2 ^ s * (val m np n - val m' qp n * uint d) < 2 ^ s * uint d" using l(2) unfolding total d by (simp only: mult.commute)
  then have "val m np n - val m' qp n * uint d < uint d" by (simp only: mult_less_cancel_left_pos zero_less_power zero_less_numeral)
  ultimately show ?thesis using l(3) by simp
qed

end

lemma normalized_pos: "normalized d \<Longrightarrow> 0 < uint d"
  using BB_pos(1) unfolding normalized_int by linarith

lemma divisor_limb_inverted:
  assumes d: "normalized d"
  shows "inverse_of d (divisor_limb_inverted d)"
proof (cases "push_bit 1 d = 0")
  case True
  then have "2 * uint d mod BB = 0" using uint_push_limb [of 1 d] by simp
  then have "2 * uint d = BB * (2 * uint d div BB)" using mult_div_mod_eq [of BB "2 * uint d"] by linarith
  moreover have "2 * uint d div BB < 2" using limb_range(2) [of d] by (intro div_less_bound) simp_all
  moreover have "0 < 2 * uint d div BB" using d unfolding normalized_int by (simp add: pos_imp_zdiv_pos_iff)
  ultimately have "2 * uint d = BB" by (metis int_one_le_iff_zero_less one_add_one order_antisym_conv zless_imp_add1_zle add_le_cancel_right mult_1_right)
  moreover have "uint (divisor_limb_inverted d) = BB - 1" using True by (simp add: divisor_limb_inverted_def BB_def unsigned_minus_1_eq_mask mask_eq_exp_minus_1)
  moreover have "(BB + (BB - 1)) * uint d = BB * (2 * uint d) - uint d" by (simp add: algebra_simps)
  ultimately show ?thesis using normalized_pos [OF d] unfolding inverse_of_def by simp
next
  case False
  obtain q r where q: "udiv_qrnnd_c (- d) 0 d = (q, r)" by fastforce
  have "2 * uint d \<noteq> BB"
  proof
    assume "2 * uint d = BB"
    then have "uint (push_bit 1 d) = 0" using uint_push_limb [of 1 d] by (simp only: power_one_right mod_self)
    then show False using False by (simp only: uint_0_iff)
  qed
  then have less: "BB < 2 * uint d" using d unfolding normalized_int by linarith
  have neg: "uint (- d) = BB - uint d" using normalized_pos [OF d] limb_range(2) [of d] by (intro limb_eqI) (simp_all add: BB_def)
  have "uint (- d) < uint d" using less unfolding neg by linarith
  note ex = udiv_qrnnd_c [OF d this q]
  have "(BB + uint q) * uint d = BB * BB - uint r" using ex(1) unfolding neg by (simp add: algebra_simps)
  moreover have "divisor_limb_inverted d = q" unfolding divisor_limb_inverted_def q using False by (simp only: if_False fst_conv)
  ultimately show ?thesis using ex(2) limb_range(1) [of r] unfolding inverse_of_def by simp
qed

interpretation schoolbook: limb_divider udiv_qrnnd_c
  using udiv_qrnnd_c by unfold_locales

interpretation by_inverse: limb_divider preinv_divide
  using udiv_qrnnd_preinv [OF _ divisor_limb_inverted, folded preinv_divide_def] by unfold_locales blast+

lemma divide_macro_divides: "limb_divider (divide_macro UMUL_TIME UDIV_TIME n)"
  using schoolbook.limb_divider_axioms by_inverse.limb_divider_axioms by (simp add: divide_macro_def)

section \<open>Division by a limb\<close>

lemma mpn_divmod_1_splits:
  assumes "d \<noteq> 0" "downward qp np n"
  shows "\<exists>m' r. mpn_divmod_1 UMUL_TIME UDIV_TIME qp np n d m = Some (m', r) \<and>
    val m' qp n * uint d + uint r = val m np n \<and> uint r < uint d \<and> writes qp n m m'"
proof (cases "n = 0")
  case True
  have "0 < uint d" using assms(1) by (metis uint_0_iff limb_range(1) order_le_less)
  then show ?thesis using True by (simp add: mpn_divmod_1_def)
next
  case False
  let ?udiv = "divide_macro UMUL_TIME UDIV_TIME n" and ?s = "count_leading_zeros d"
  note clz = count_leading_zeros [OF assms(1)]
  show ?thesis
  proof (cases "?s = 0")
    case True
    obtain m' r where c: "divmod_1_plain ?udiv qp np n d m = (m', r)" by fastforce
    have "normalized d" using clz(3) True by (simp add: normalized_int)
    then show ?thesis
      using limb_divider.divmod_1_plain_correct [OF divide_macro_divides _ _ assms(2) c] assms(1) False True c by (simp add: mpn_divmod_1_def)
  next
    case nz: False
    obtain m' r where c: "divmod_1_shifted ?udiv ?s qp np n d m = (m', r)" by fastforce
    show ?thesis
      using limb_divider.divmod_1_shifted_correct [OF divide_macro_divides _ clz(1-3) _ assms(2) c] assms(1) False nz c by (simp add: mpn_divmod_1_def)
  qed
qed

lemma mod_plain_loop_same:
  assumes "downward qp np i" "\<And>j. j < i \<Longrightarrow> m' (np + j) = m (np + j)"
  shows "mod_plain_loop udiv np d i r m = snd (plain_loop udiv qp np d i r m')"
  using assms
proof (induction i arbitrary: r m')
  case (Suc i)
  obtain q r1 where q: "udiv r (m (np + i)) d = (q, r1)" by fastforce
  have "mod_plain_loop udiv np d i r1 m = snd (plain_loop udiv qp np d i r1 (m'(qp + i := q)))"
    using Suc.prems by (intro Suc.IH) (auto simp: downward_def)
  then show ?case using Suc.prems(2) [of i] q by simp
qed simp

lemma mod_shifted_loop_same:
  assumes "downward qp np (Suc i)" "\<And>j. j < i \<Longrightarrow> m' (np + j) = m (np + j)"
  shows "mod_shifted_loop udiv s np d i n1 r m = snd (shifted_loop udiv s qp np d i n1 r m')"
  using assms
proof (induction i arbitrary: n1 r m')
  case (Suc i)
  obtain q r1 where q: "udiv r (push_bit s n1 OR drop_bit (64 - s) (m (np + i))) d = (q, r1)" by fastforce
  have "mod_shifted_loop udiv s np d i (m (np + i)) r1 m = snd (shifted_loop udiv s qp np d i (m (np + i)) r1 (m'(qp + (i + 1) := q)))"
    using Suc.prems by (intro Suc.IH) (auto simp: downward_def)
  then show ?case using Suc.prems(2) [of i] q by simp
qed (simp add: split_beta)

lemma mpn_mod_1_same:
  assumes "downward qp np n"
  shows "mpn_mod_1 UMUL_TIME UDIV_TIME np n d m = map_option snd (mpn_divmod_1 UMUL_TIME UDIV_TIME qp np n d m)"
proof (cases n)
  case (Suc i)
  have down: "downward qp np i" using assms by (auto simp: Suc downward_def)
  have stored: "(m(qp + i := 0)) (np + j) = m (np + j)" if "j < i" for j using assms that by (auto simp: Suc downward_def)
  have "mod_1_plain udiv np n d m = snd (divmod_1_plain udiv qp np n d m)" for udiv
    using mod_plain_loop_same [where m = m and m' = m, OF assms refl] mod_plain_loop_same [where qp = qp and np = np and i = i and m = m and m' = "m(qp + i := 0)", OF down stored]
    by (simp add: mod_1_plain_def divmod_1_plain_def Suc Let_def)
  moreover have "mod_1_shifted udiv s np n d m = snd (divmod_1_shifted udiv s qp np n d m)" for udiv s
    using mod_shifted_loop_same [where m = m and m' = m, OF assms [unfolded Suc] refl]
    by (simp add: mod_1_shifted_def divmod_1_shifted_def Suc Let_def split_beta)
  ultimately show ?thesis by (simp add: mpn_mod_1_def mpn_divmod_1_def Let_def Suc)
qed (simp add: mpn_mod_1_def mpn_divmod_1_def)

lemma quotient_rest: "q * d + r = x \<Longrightarrow> 0 \<le> r \<Longrightarrow> r < d \<Longrightarrow> q = x div d \<and> r = x mod d" for x d q r :: int
  by auto

text \<open>
  C13. Division by a limb: for every non-zero divisor and whatever the relative costs of the machine's
  multiplication and division make the code choose, \<open>mpn_divmod_1\<close> stores the quotient of the
  number at \<open>np\<close>, also when the quotient overwrites the dividend from its own place on up, and
  returns the remainder; it changes nothing else, and \<open>mpn_mod_1\<close> returns the same remainder.
\<close>

theorem mpn_divmod_1_correct:
  assumes "d \<noteq> 0" "downward qp np n"
  shows "\<exists>m' r. mpn_divmod_1 UMUL_TIME UDIV_TIME qp np n d m = Some (m', r) \<and>
    val m' qp n = val m np n div uint d \<and> uint r = val m np n mod uint d \<and> writes qp n m m' \<and>
    mpn_mod_1 UMUL_TIME UDIV_TIME np n d m = Some r"
  using mpn_divmod_1_splits [OF assms, of UMUL_TIME UDIV_TIME m] mpn_mod_1_same [OF assms(2), of UMUL_TIME UDIV_TIME d m]
    quotient_rest [OF _ limb_range(1)] by fastforce

lemma mpn_divmod_1_correct_witness:
  "(10 :: limb) \<noteq> 0 \<and> downward 1 1 3 \<and> (\<exists>m' r. mpn_divmod_1 3 38 1 1 3 10 (\<lambda>_. 7) = Some (m', r) \<and>
    val m' 1 3 = (7 + 7 * 2 ^ 64 + 7 * 2 ^ 128) div 10 \<and> uint r = 1 \<and> writes 1 3 (\<lambda>_. 7) m')"
proof -
  have d: "downward 1 1 3" by (simp add: downward_def)
  have v: "val (\<lambda>_. 7) 1 3 = 7 + 7 * 2 ^ 64 + 7 * 2 ^ 128" by (simp add: numeral_3_eq_3 BB_def)
  have "(10 :: limb) \<noteq> 0" by simp
  from mpn_divmod_1_correct [OF this d, of 3 38 "\<lambda>_. 7"] d show ?thesis unfolding v by auto
qed

end
