(* ===== verification/Mpn_Div.thy ===== *)
theory Mpn_Div
  imports Mpn_Div1 Mpn_Mul
begin

text \<open>
  Division of limb arrays (divrem.c): by one limb, by two limbs held in registers, and Knuth's long
  division with the quotient limbs estimated from the three upper limbs of the partial remainder
  and the two upper limbs of the divisor. The remainder replaces the numerator, the quotient may be
  written above the remainder, and \<open>qextra_limbs\<close> limbs of the fraction are appended on request.
\<close>

section \<open>The code\<close>

definition add_ssaaaa :: "limb \<Rightarrow> limb \<Rightarrow> limb \<Rightarrow> limb \<Rightarrow> limb \<times> limb" where
  "add_ssaaaa ah al bh bl = (let x = al + bl in (ah + bh + of_bool (x < al), x))"

fun MPN_COPY_DECR :: "nat \<Rightarrow> nat \<Rightarrow> nat \<Rightarrow> mem \<Rightarrow> mem" where
  "MPN_COPY_DECR dst src 0 m = m"
| "MPN_COPY_DECR dst src (Suc i) m = MPN_COPY_DECR dst src i (m(dst + i := m (src + i)))"

text \<open>Case 1: the limbs of the fraction.\<close>

fun fraction_loop :: "nat \<Rightarrow> limb \<Rightarrow> nat \<Rightarrow> limb \<Rightarrow> mem \<Rightarrow> mem \<times> limb" where
  "fraction_loop qp d 0 n1 m = (m, n1)"
| "fraction_loop qp d (Suc i) n1 m =
     (let (q, n1) = udiv_qrnnd_c n1 0 d in fraction_loop qp d i n1 (m(qp + i := q)))"

definition divrem_1 :: "nat \<Rightarrow> nat \<Rightarrow> nat \<Rightarrow> nat \<Rightarrow> nat \<Rightarrow> mem \<Rightarrow> mem \<times> limb" where
  "divrem_1 qp qextra_limbs np nsize dp m =
     (let d = m dp;
          n1 = m (np + (nsize - 1));
          (n1, most_significant_q_limb) = (if n1 \<ge> d then (n1 - d, 1) else (n1, 0));
          (m, n1) = plain_loop udiv_qrnnd_c (qp + qextra_limbs) np d (nsize - 1) n1 m;
          (m, n1) = fraction_loop qp d qextra_limbs n1 m
      in (m(np := n1), most_significant_q_limb))"

text \<open>Case 2. The label \<open>q_test\<close>: the quotient limb, what is left of the dividend, and the product.\<close>

partial_function (option) q_test ::
  "limb \<Rightarrow> limb \<Rightarrow> limb \<Rightarrow> limb \<Rightarrow> limb \<Rightarrow> limb \<Rightarrow> limb \<Rightarrow> (limb \<times> limb \<times> limb \<times> limb) option" where
  "q_test d1 d0 n2 q r n1 n0 =
     (if n1 > r \<or> (n1 = r \<and> n0 > n2)
      then let q = q - 1;
               (n1, n0) = sub_ddmmss n1 n0 0 d0;
               r = r + d1
           in if r \<ge> d1 then q_test d1 d0 n2 q r n1 n0 else Some (q, r, n1, n0)
      else Some (q, r, n1, n0))"

definition divrem_2_step :: "limb \<Rightarrow> limb \<Rightarrow> limb \<Rightarrow> limb \<Rightarrow> limb \<Rightarrow> (limb \<times> limb \<times> limb) option" where
  "divrem_2_step d1 d0 n1 n0 n2 =
     (let test = (\<lambda>q r n1 n0. do { (q, r, n1, n0) \<leftarrow> q_test d1 d0 n2 q r n1 n0;
                                   let (n1, n0) = sub_ddmmss r n2 n1 n0 in Some (q, n1, n0) })
      in if n1 = d1
         then let q = NOT 0;
                  r = n0 + d1
              in if r < d1
                 then let (n1, n0) = add_ssaaaa (r - d0) n2 0 d0 in Some (q, n1, n0)
                 else test q r (d0 - of_bool (d0 \<noteq> 0)) (- d0)
         else let (q, r) = udiv_qrnnd_c n1 n0 d1;
                  (n1, n0) = umul_ppmm d0 q
              in test q r n1 n0)"

fun divrem_2_loop :: "limb \<Rightarrow> limb \<Rightarrow> nat \<Rightarrow> nat \<Rightarrow> nat \<Rightarrow> nat \<Rightarrow> limb \<Rightarrow> limb \<Rightarrow> mem \<Rightarrow> (nat \<times> limb \<times> limb \<times> mem) option" where
  "divrem_2_loop d1 d0 qextra_limbs qp 0 np n1 n0 m = Some (np, n1, n0, m)"
| "divrem_2_loop d1 d0 qextra_limbs qp (Suc i) np n1 n0 m =
     (let (np, m) = (if i \<ge> qextra_limbs then (np - 1, m) else (np, m(np := 0)))
      in do { (q, n1, n0) \<leftarrow> divrem_2_step d1 d0 n1 n0 (m np);
              divrem_2_loop d1 d0 qextra_limbs qp i np n1 n0 (m(qp + i := q)) })"

definition divrem_2 :: "nat \<Rightarrow> nat \<Rightarrow> nat \<Rightarrow> nat \<Rightarrow> nat \<Rightarrow> mem \<Rightarrow> (mem \<times> limb) option" where
  "divrem_2 qp qextra_limbs np nsize dp m =
     (let np = np + (nsize - 2);
          d1 = m (dp + 1);
          d0 = m dp;
          n1 = m (np + 1);
          n0 = m np;
          ((n1, n0), most_significant_q_limb) =
            (if n1 \<ge> d1 \<and> (n1 > d1 \<or> n0 \<ge> d0) then (sub_ddmmss n1 n0 d1 d0, 1) else ((n1, n0), 0))
      in do { (np, n1, n0, m) \<leftarrow> divrem_2_loop d1 d0 qextra_limbs qp (qextra_limbs + nsize - 2) np n1 n0 m;
              Some (m(np + 1 := n1, np := n0), most_significant_q_limb) })"

text \<open>The default case. The quotient limb is made smaller while the product with \<open>d1\<close> is too large.\<close>

partial_function (option) q_loop :: "limb \<Rightarrow> limb \<Rightarrow> limb \<Rightarrow> limb \<Rightarrow> limb \<Rightarrow> limb \<Rightarrow> limb \<Rightarrow> limb option" where
  "q_loop dX d1 np_2 q r n1 n0 =
     (if n1 > r \<or> (n1 = r \<and> n0 > np_2)
      then let q = q - 1;
               r = r + dX
           in if r < dX then Some q
              else q_loop dX d1 np_2 q r (n1 - of_bool (n0 < d1)) (n0 - d1)
      else Some q)"

definition q_estimate :: "limb \<Rightarrow> limb \<Rightarrow> limb \<Rightarrow> limb \<Rightarrow> limb \<Rightarrow> limb option" where
  "q_estimate dX d1 n0 np_1 np_2 =
     (if n0 = dX then Some (NOT 0)
      else let (q, r) = udiv_qrnnd_c n0 np_1 dX;
               (n1, n0) = umul_ppmm d1 q
           in q_loop dX d1 np_2 q r n1 n0)"

text \<open>The two most significant limbs of the divisor, \<open>dX\<close> and \<open>d1\<close>, are read once, before the loop.\<close>

definition divrem_limb :: "limb \<Rightarrow> limb \<Rightarrow> nat \<Rightarrow> nat \<Rightarrow> nat \<Rightarrow> limb \<Rightarrow> limb \<Rightarrow> mem \<Rightarrow> (mem \<times> limb) option" where
  "divrem_limb dX d1 np dp dsize n0 n2 m =
     do { q \<leftarrow> q_estimate dX d1 n0 (m (np + (dsize - 1))) (m (np + (dsize - 2)));
          (m, cy_limb) \<leftarrow> mpn_submul_1 np dp dsize q m;
          if n2 \<noteq> cy_limb
          then do { (m, _) \<leftarrow> mpn_add_n np np dp dsize m; Some (m, q - 1) }
          else Some (m, q) }"

fun divrem_loop :: "limb \<Rightarrow> limb \<Rightarrow> nat \<Rightarrow> nat \<Rightarrow> nat \<Rightarrow> nat \<Rightarrow> nat \<Rightarrow> nat \<Rightarrow> limb \<Rightarrow> mem \<Rightarrow> mem option" where
  "divrem_loop dX d1 dp dsize qextra_limbs qp 0 np n0 m = Some m"
| "divrem_loop dX d1 dp dsize qextra_limbs qp (Suc i) np n0 m =
     (let (np, n2, m) = (if i \<ge> qextra_limbs then (np - 1, m (np - 1 + dsize), m)
                         else (np, m (np + (dsize - 1)), (MPN_COPY_DECR (np + 1) np dsize m)(np := 0)))
      in do { (m, q) \<leftarrow> divrem_limb dX d1 np dp dsize n0 n2 m;
              let m = m(qp + i := q) in
              divrem_loop dX d1 dp dsize qextra_limbs qp i np (m (np + (dsize - 1))) m })"

definition divrem_n :: "nat \<Rightarrow> nat \<Rightarrow> nat \<Rightarrow> nat \<Rightarrow> nat \<Rightarrow> nat \<Rightarrow> mem \<Rightarrow> (mem \<times> limb) option" where
  "divrem_n qp qextra_limbs np nsize dp dsize m =
     (let np = np + (nsize - dsize);
          dX = m (dp + (dsize - 1));
          d1 = m (dp + (dsize - 2));
          n0 = m (np + (dsize - 1))
      in do { (m, n0, most_significant_q_limb) \<leftarrow>
                (if n0 \<ge> dX \<and> (n0 > dX \<or> mpn_cmp np dp (dsize - 1) m \<ge> 0)
                 then do { (m, _) \<leftarrow> mpn_sub_n np np dp dsize m; Some (m, m (np + (dsize - 1)), 1) }
                 else Some (m, n0, 0));
              m \<leftarrow> divrem_loop dX d1 dp dsize qextra_limbs qp (qextra_limbs + nsize - dsize) np n0 m;
              Some (m, most_significant_q_limb) })"

text \<open>Division by an array of no limbs is a division by zero, which C leaves undefined.\<close>

definition mpn_divrem :: "nat \<Rightarrow> nat \<Rightarrow> nat \<Rightarrow> nat \<Rightarrow> nat \<Rightarrow> nat \<Rightarrow> mem \<Rightarrow> (mem \<times> limb) option" where
  "mpn_divrem qp qextra_limbs np nsize dp dsize m =
     (if dsize = 0 then None
      else if dsize = 1 then Some (divrem_1 qp qextra_limbs np nsize dp m)
      else if dsize = 2 then divrem_2 qp qextra_limbs np nsize dp m
      else divrem_n qp qextra_limbs np nsize dp dsize m)"

section \<open>The quotient limb of two and three limbs\<close>

lemma limb_pair_less: "b > a \<or> (b = a \<and> d > c) \<longleftrightarrow> uint a * BB + uint c < uint b * BB + uint d" for a b c d :: limb
proof -
  consider "uint a < uint b" | "uint a = uint b" | "uint b < uint a" by linarith
  then show ?thesis
  proof cases
    case 1
    then have "(uint a + 1) * BB \<le> uint b * BB" by (intro mult_right_mono) simp_all
    then have "uint a * BB + uint c < uint b * BB + uint d" using limb_range(2) [of c] limb_range(1) [of d] by (simp only: distrib_right)
    then show ?thesis using 1 by (auto simp: word_less_def)
  next
    case 2
    then have "a = b" by (simp only: word_uint_eq_iff)
    then show ?thesis by (simp add: word_less_def)
  next
    case 3
    then have "(uint b + 1) * BB \<le> uint a * BB" by (intro mult_right_mono) simp_all
    then have "\<not> uint a * BB + uint c < uint b * BB + uint d" using limb_range(2) [of d] limb_range(1) [of c] by (simp only: distrib_right)
    then show ?thesis using 3 by (auto simp: word_less_def)
  qed
qed

lemma borrow_less: "(a < b) = (a - b > a)" for a b :: limb
proof (cases "a - b > a")
  case True
  then have "uint a - uint b = uint (a - b) - BB" using borrow_diff [of a b] by simp
  then show ?thesis using True limb_range(2) [of "a - b"] unfolding word_less_def by linarith
next
  case False
  then have "uint a - uint b = uint (a - b)" using borrow_diff [of a b] by simp
  then show ?thesis using False limb_range(1) [of "a - b"] unfolding word_less_def by linarith
qed

lemma wrapped_limb: "\<exists>k. uint (of_int v :: limb) = v + k * BB"
proof -
  have "uint (of_int v :: limb) = v mod BB" by (simp add: uint_word_of_int BB_def)
  also have "\<dots> = v + (- (v div BB)) * BB" by (simp add: minus_div_mult_eq_mod [symmetric])
  finally show ?thesis by blast
qed

text \<open>The subtraction of two limbs with the wrap-around.\<close>

lemma sub_ddmmss_wraps:
  assumes code: "sub_ddmmss ah al bh bl = (h, l)" and v: "uint ah * BB + uint al - (uint bh * BB + uint bl) = v + j * (BB * BB)"
    and range: "0 \<le> v" "v < BB * BB"
  shows "uint h * BB + uint l = v"
proof -
  define c :: int where "c = of_bool (al - bl > al)"
  have l: "uint l = uint al - uint bl + BB * c" and h: "h = of_int (uint ah - uint bh - c)"
    using code borrow_diff [of al bl] by (auto simp: sub_ddmmss_def Let_def c_def)
  obtain k where k: "uint h = uint ah - uint bh - c + k * BB" using wrapped_limb unfolding h by blast
  have e: "uint h * BB + uint l = v + (k + j) * (BB * BB)" using v unfolding k l by (simp add: algebra_simps)
  have "uint h * BB \<le> (BB - 1) * BB" by (intro mult_right_mono) simp_all
  then have "uint h * BB + uint l < BB * BB" using limb_range(2) [of l] by (simp only: left_diff_distrib)
  moreover have "0 \<le> uint h * BB" by simp
  ultimately have "(k + j) * (BB * BB) < 1 * (BB * BB)" "(- 1) * (BB * BB) < (k + j) * (BB * BB)"
    using e range limb_range(1) [of l] by linarith+
  then have "k + j < 1" "- 1 < k + j" by (simp_all only: mult_less_cancel_right_pos zero_less_mult_iff BB_pos simp_thms)
  then have "k + j = 0" by linarith
  then show ?thesis using e by simp
qed

lemma limb_pair_range: "0 \<le> uint a * BB + uint b" "uint a * BB + uint b < BB * BB" for a b :: limb
proof -
  have "uint a * BB \<le> (BB - 1) * BB" by (intro mult_right_mono) simp_all
  then show "uint a * BB + uint b < BB * BB" using limb_range(2) [of b] by (simp only: left_diff_distrib)
qed simp

text \<open>The loops that correct a quotient limb \<open>q\<close> which is not too small; \<open>U\<close> is the dividend of three limbs.
  They end since \<open>r\<close> grows at every turn.\<close>

lemma q_loops:
  assumes d: "normalized d1" and D: "D = uint d1 * BB + uint d0"
    and "U = uint q * D + (uint r * BB + uint x) - (uint n1 * BB + uint n0)" "uint n1 * BB + uint n0 = uint q * uint d0"
      "U - uint q * D < D"
  shows "\<exists>q' r' n1' n0' j. q_test d1 d0 x q r n1 n0 = Some (q', r', n1', n0') \<and> q_loop d1 d0 x q r n1 n0 = Some q' \<and>
    0 \<le> U - uint q' * D \<and> U - uint q' * D < D \<and>
    uint r' * BB + uint x - (uint n1' * BB + uint n0') = U - uint q' * D + j * (BB * BB)"
  using assms(3-5)
proof (induction "nat (BB - uint r)" arbitrary: q r n1 n0 rule: less_induct)
  case less
  let ?P = "uint n1 * BB + uint n0" and ?R = "uint r * BB + uint x"
  show ?case
  proof (cases "n1 > r \<or> (n1 = r \<and> n0 > x)")
    case False
    then have "?P \<le> ?R" unfolding limb_pair_less by simp
    moreover have "q_test d1 d0 x q r n1 n0 = Some (q, r, n1, n0)" by (subst q_test.simps) (simp only: False if_False)
    moreover have "q_loop d1 d0 x q r n1 n0 = Some q" by (subst q_loop.simps) (simp only: False if_False)
    moreover have "?R - ?P = U - uint q * D + 0 * (BB * BB)" using less.prems(1) by simp
    ultimately show ?thesis using less.prems by (metis diff_ge_0_iff_ge mult_zero_left add_0_right)
  next
    case True
    then have lt: "?R < ?P" unfolding limb_pair_less by simp
    then have "uint q \<noteq> 0" using less.prems(2) limb_pair_range(1) [of r x] by (metis mult_zero_left not_le)
    then have q: "uint (q - 1) = uint q - 1" using limb_range(1) [of q] limb_range(2) [of q] by (intro limb_eqI) (linarith+, simp)
    obtain h l where s: "sub_ddmmss n1 n0 0 d0 = (h, l)" by fastforce
    have "1 * uint d0 \<le> uint q * uint d0" using \<open>uint q \<noteq> 0\<close> limb_range(1) [of q] limb_range(1) [of d0] by (intro mult_right_mono) linarith+
    then have P: "uint h * BB + uint l = (uint q - 1) * uint d0"
      using sub_ddmmss [OF s] less.prems(2) by (simp add: left_diff_distrib)
    have hl: "h = n1 - of_bool (n0 < d0)" "l = n0 - d0" using s unfolding borrow_less [of n0 d0] sub_ddmmss_def Let_def by (simp_all only: prod.inject diff_0_right) blast+
    have U1: "U = (uint q - 1) * D + ((uint r + uint d1) * BB + uint x) - (uint h * BB + uint l)"
      using less.prems(1,2) unfolding P D by (simp add: algebra_simps)
    have small: "U - (uint q - 1) * D < D" using less.prems(1) lt by (simp add: left_diff_distrib)
    show ?thesis
    proof (cases "r + d1 < d1")
      case carry: True
      then have r: "uint (r + d1) = uint r + uint d1 - BB" using carry_sum_right [of r d1] by simp
      have "BB * BB \<le> (uint r + uint d1) * BB" using r limb_range(1) [of "r + d1"] by (intro mult_right_mono) simp_all
      then have "0 \<le> U - (uint q - 1) * D" using U1 limb_pair_range(2) [of h l] limb_range(1) [of x] by linarith
      moreover have "uint (r + d1) * BB + uint x - (uint h * BB + uint l) = U - (uint q - 1) * D + (- 1) * (BB * BB)"
        unfolding U1 r by (simp add: algebra_simps)
      moreover have nle: "\<not> d1 \<le> r + d1" using carry by (simp only: not_le)
      moreover have "q_test d1 d0 x q r n1 n0 = Some (q - 1, r + d1, h, l)"
        using True nle by (subst q_test.simps) (simp add: s)
      moreover have "q_loop d1 d0 x q r n1 n0 = Some (q - 1)" using True carry by (subst q_loop.simps) simp
      ultimately show ?thesis using small unfolding q [symmetric] by blast
    next
      case nc: False
      then have r: "uint (r + d1) = uint r + uint d1" using carry_sum_right [of r d1] by simp
      have "nat (BB - uint (r + d1)) < nat (BB - uint r)"
        using r normalized_pos [OF d] limb_range(2) [of r] by simp
      moreover have "q_test d1 d0 x q r n1 n0 = q_test d1 d0 x (q - 1) (r + d1) h l"
        using True nc [unfolded not_less] by (subst q_test.simps) (simp add: s)
      moreover have "q_loop d1 d0 x q r n1 n0 = q_loop d1 d0 x (q - 1) (r + d1) h l"
        using True nc by (subst q_loop.simps) (simp add: hl)
      ultimately show ?thesis
        using less.hyps [of "r + d1" "q - 1" h l] U1 P small unfolding q r by simp
    qed
  qed
qed

lemma udiv_estimate:
  fixes x :: limb
  assumes d: "normalized d1" and n: "uint n1 < uint d1" and code: "udiv_qrnnd_c n1 n0 d1 = (q, r)" "umul_ppmm d0 q = (p1, p0)"
  shows "(uint n1 * BB + uint n0) * BB + uint x = uint q * (uint d1 * BB + uint d0) + (uint r * BB + uint x) - (uint p1 * BB + uint p0)"
    "uint p1 * BB + uint p0 = uint q * uint d0"
    "(uint n1 * BB + uint n0) * BB + uint x - uint q * (uint d1 * BB + uint d0) < uint d1 * BB + uint d0"
proof -
  note u = udiv_qrnnd_c [OF d n code(1)]
  show P: "uint p1 * BB + uint p0 = uint q * uint d0" using umul_ppmm [OF code(2)] by (simp add: mult.commute)
  show e: "(uint n1 * BB + uint n0) * BB + uint x = uint q * (uint d1 * BB + uint d0) + (uint r * BB + uint x) - (uint p1 * BB + uint p0)"
    unfolding u(1) P by (simp add: algebra_simps)
  have "uint r * BB \<le> (uint d1 - 1) * BB" using u(2) by (intro mult_right_mono) simp_all
  moreover have "0 \<le> uint q * uint d0" by simp
  ultimately show "(uint n1 * BB + uint n0) * BB + uint x - uint q * (uint d1 * BB + uint d0) < uint d1 * BB + uint d0"
    unfolding e P left_diff_distrib using limb_range(2) [of x] limb_range(1) [of d0] by linarith
qed

section \<open>Division by two limbs\<close>

lemma add_ssaaaa_wraps:
  assumes "add_ssaaaa ah al 0 bl = (h, l)" "0 \<le> v" "v < BB * BB" "uint ah * BB + uint al + uint bl = v + j * (BB * BB)"
  shows "uint h * BB + uint l = v"
proof -
  define c :: int where "c = of_bool (al + bl < al)"
  have l: "uint l = uint al + uint bl - BB * c" and h: "h = of_int (uint ah + c)"
    using assms(1) carry_sum [of al bl] by (auto simp: add_ssaaaa_def Let_def c_def)
  obtain k where k: "uint h = uint ah + c + k * BB" using wrapped_limb unfolding h by blast
  have e: "uint h * BB + uint l = v + (k + j) * (BB * BB)" using assms(4) unfolding k l by (simp add: algebra_simps)
  then have "(k + j) * (BB * BB) < 1 * (BB * BB)" "(- 1) * (BB * BB) < (k + j) * (BB * BB)"
    using limb_pair_range [of h l] assms(2,3) by linarith+
  then have "k + j < 1" "- 1 < k + j" by (simp_all only: mult_less_cancel_right_pos zero_less_mult_iff BB_pos simp_thms)
  then have "k + j = 0" by linarith
  then show ?thesis using e by simp
qed

text \<open>The end of a step: the estimate is corrected, and what it leaves is the new remainder.\<close>

lemma q_test_finish:
  assumes d: "normalized d1" "D = uint d1 * BB + uint d0"
    and q: "U = uint q * D + (uint r * BB + uint x) - (uint p1 * BB + uint p0)" "uint p1 * BB + uint p0 = uint q * uint d0" "U - uint q * D < D"
  shows "\<exists>q' h l. do { (q, r, n1, n0) \<leftarrow> q_test d1 d0 x q r p1 p0; let (n1, n0) = sub_ddmmss r x n1 n0 in Some (q, n1, n0) }
    = Some (q', h, l) \<and> U = uint q' * D + (uint h * BB + uint l) \<and> uint h * BB + uint l < D"
proof -
  obtain q' r' n1' n0' j where t: "q_test d1 d0 x q r p1 p0 = Some (q', r', n1', n0')" "0 \<le> U - uint q' * D" "U - uint q' * D < D"
      "uint r' * BB + uint x - (uint n1' * BB + uint n0') = U - uint q' * D + j * (BB * BB)"
    using q_loops [OF d q] by blast
  obtain h l where s: "sub_ddmmss r' x n1' n0' = (h, l)" by fastforce
  have "D < BB * BB" unfolding d(2) by (rule limb_pair_range)
  then have v: "uint h * BB + uint l = U - uint q' * D" using sub_ddmmss_wraps [OF s t(4,2)] t(3) by linarith
  then show ?thesis using t(1,3) s by simp
qed

lemma ones_limb: "uint (NOT 0 :: limb) = BB - 1"
  by (simp add: BB_def unsigned_minus_1_eq_mask mask_eq_exp_minus_1)

text \<open>The product of \<open>d0\<close> with a limb of ones.\<close>

lemma ones_product: "uint (d0 - of_bool (d0 \<noteq> 0)) * BB + uint (- d0) = uint (NOT 0 :: limb) * uint d0" for d0 :: limb
proof (cases "d0 = 0")
  case False
  then have "0 < uint d0" by (metis uint_0_iff limb_range(1) order_le_less)
  then have "uint (d0 - 1) = uint d0 - 1" and neg: "uint (- d0) = BB - uint d0"
    using limb_range(2) [of d0] by (intro limb_eqI; simp add: BB_def)+
  then have one: "uint (d0 - of_bool (d0 \<noteq> 0)) = uint d0 - 1" using False by simp
  show ?thesis unfolding ones_limb one neg by (simp add: algebra_simps)
qed simp

text \<open>The rare case in which the upper limbs are equal.\<close>

lemma divrem_2_step_equal:
  assumes d: "normalized d1" and D: "D = uint d1 * BB + uint d0" and n: "uint d1 * BB + uint n0 < D"
  shows "\<exists>q h l. divrem_2_step d1 d0 d1 n0 x = Some (q, h, l) \<and>
    (uint d1 * BB + uint n0) * BB + uint x = uint q * D + (uint h * BB + uint l) \<and> uint h * BB + uint l < D"
proof -
  define U where "U = (uint d1 * BB + uint n0) * BB + uint x"
  have "(uint d1 * BB + uint n0) * BB \<le> (D - 1) * BB" using n by (intro mult_right_mono) simp_all
  then have "U < D * BB" using limb_range(2) [of x] unfolding U_def left_diff_distrib by linarith
  then have small: "U - uint (NOT 0 :: limb) * D < D" unfolding ones_limb left_diff_distrib by (simp add: mult.commute)
  have e: "U - (BB - 1) * D = (uint n0 + uint d1 - uint d0) * BB + uint x + uint d0"
    unfolding U_def D by (simp add: algebra_simps)
  show ?thesis
  proof (cases "n0 + d1 < d1")
    case True
    then have r: "uint (n0 + d1) = uint n0 + uint d1 - BB" using carry_sum_right [of n0 d1] by simp
    obtain h l where s: "add_ssaaaa (n0 + d1 - d0) x 0 d0 = (h, l)" by fastforce
    obtain k where k: "uint (n0 + d1 - d0) = uint n0 + uint d1 - uint d0 + k * BB"
      using wrapped_limb [of "uint n0 + uint d1 - uint d0"] by auto
    have w: "uint (n0 + d1 - d0) * BB + uint x + uint d0 = U - (BB - 1) * D + k * (BB * BB)"
      unfolding e k by (simp add: algebra_simps)
    have "uint d0 * BB \<le> (uint n0 + uint d1) * BB"
      using r limb_range(1) [of "n0 + d1"] limb_range(2) [of d0] BB_pos(1) by (intro mult_right_mono) linarith+
    then have "0 \<le> U - (BB - 1) * D"
      unfolding e unfolding left_diff_distrib using limb_range(1) [of x] limb_range(1) [of d0] by linarith
    moreover have "D < BB * BB" unfolding D by (rule limb_pair_range)
    ultimately have "uint h * BB + uint l = U - (BB - 1) * D" using add_ssaaaa_wraps [OF s _ _ w] small unfolding ones_limb by linarith
    moreover have "divrem_2_step d1 d0 d1 n0 x = Some (NOT 0, h, l)" using True s by (simp add: divrem_2_step_def)
    ultimately show ?thesis using small ones_limb unfolding U_def by simp
  next
    case False
    then have r: "uint (n0 + d1) = uint n0 + uint d1" using carry_sum_right [of n0 d1] by simp
    have "U = uint (NOT 0 :: limb) * D + (uint (n0 + d1) * BB + uint x) - (uint (d0 - of_bool (d0 \<noteq> 0)) * BB + uint (- d0))"
      unfolding ones_product using e unfolding ones_limb r by (simp add: algebra_simps)
    then show ?thesis using q_test_finish [OF d D _ ones_product small] False by (simp add: divrem_2_step_def U_def)
  qed
qed

lemma divrem_2_step_correct:
  assumes d: "normalized d1" and D: "D = uint d1 * BB + uint d0" and n: "uint n1 * BB + uint n0 < D"
  shows "\<exists>q h l. divrem_2_step d1 d0 n1 n0 x = Some (q, h, l) \<and>
    (uint n1 * BB + uint n0) * BB + uint x = uint q * D + (uint h * BB + uint l) \<and> uint h * BB + uint l < D"
proof (cases "n1 = d1")
  case True
  then show ?thesis using divrem_2_step_equal [OF d D] n by blast
next
  case False
  have less: "uint n1 < uint d1"
  proof (rule ccontr)
    assume "\<not> uint n1 < uint d1"
    then have "uint d1 + 1 \<le> uint n1" using False by (simp add: word_uint_eq_iff)
    then have "(uint d1 + 1) * BB \<le> uint n1 * BB" by (intro mult_right_mono) simp_all
    then show False using n limb_range(1) [of n0] limb_range(2) [of d0] unfolding D distrib_right by linarith
  qed
  obtain q r where q: "udiv_qrnnd_c n1 n0 d1 = (q, r)" by fastforce
  obtain p1 p0 where p: "umul_ppmm d0 q = (p1, p0)" by fastforce
  note est = udiv_estimate(1,3) [where x = x, OF d less q p, folded D]
  show ?thesis
    using q_test_finish [OF d D est(1) udiv_estimate(2) [OF d less q p] est(2)] False q p by (simp add: divrem_2_step_def)
qed

section \<open>Long division\<close>

text \<open>The estimate from three limbs of the dividend and two of the divisor is too large by 1 at most; \<open>w\<close> is the
  weight of the limbs left out. First, when the upper limbs are equal, the largest limb is no worse.\<close>

lemma largest_limb_estimate:
  fixes D U w :: int and d1 a b :: limb
  assumes d: "normalized dX" and D: "D = (uint dX * BB + uint d1) * w + Dl" "0 \<le> Dl" "Dl < w"
    and U: "U = ((uint dX * BB + uint a) * BB + uint b) * w + Ul" "0 \<le> Ul"
  shows "(BB - 2) * D \<le> U"
proof -
  have w: "0 < w" using D(2,3) by linarith
  have "(uint dX * BB + uint d1 + 1) * w \<le> (uint dX * BB + BB) * w" using w limb_range(2) [of d1] by (intro mult_right_mono) linarith+
  then have "D \<le> (uint dX + 1) * (BB * w)" using D(1,3) by (simp add: algebra_simps)
  then have "(BB - 2) * D \<le> (BB - 2) * ((uint dX + 1) * (BB * w))" by (intro mult_left_mono) (simp_all add: BB_def)
  also have "\<dots> = (BB - 2) * (uint dX + 1) * (BB * w)" by (simp only: mult.assoc)
  also have "\<dots> \<le> (uint dX * BB) * (BB * w)"
  proof (rule mult_right_mono)
    have "BB \<le> 2 * uint dX" using d by (simp only: normalized_int)
    moreover have "(BB - 2) * (uint dX + 1) = uint dX * BB + BB - 2 * uint dX - 2" by (simp add: algebra_simps)
    ultimately show "(BB - 2) * (uint dX + 1) \<le> uint dX * BB" by linarith
    show "0 \<le> BB * w" using w by simp
  qed
  also have "\<dots> = uint dX * BB * BB * w" by (simp only: mult.assoc)
  also have "\<dots> \<le> U"
  proof -
    have "uint dX * BB * BB * w \<le> ((uint dX * BB + uint a) * BB + uint b) * w"
      using w by (intro mult_right_mono) (simp_all add: distrib_right)
    then show ?thesis using U(1,2) by linarith
  qed
  finally show ?thesis .
qed

lemma upper_limb_less:
  fixes D U w :: int and dX d1 n0 a b :: limb
  assumes D: "D = (uint dX * BB + uint d1) * w + Dl" "0 \<le> Dl" "Dl < w"
    and U: "U = ((uint n0 * BB + uint a) * BB + uint b) * w + Ul" "0 \<le> Ul" "U < BB * D" and ne: "n0 \<noteq> dX"
  shows "uint n0 < uint dX"
proof (rule ccontr)
  have w: "0 < w" using D(2,3) by linarith
  assume "\<not> uint n0 < uint dX"
  then have "uint dX + 1 \<le> uint n0" using ne by (simp add: word_uint_eq_iff)
  then have "(uint dX + 1) * (BB * (BB * w)) \<le> uint n0 * (BB * (BB * w))" using w by (intro mult_right_mono) simp_all
  moreover have "0 \<le> uint a * (BB * w)" "0 \<le> uint b * w" using w by simp_all
  ultimately have "(uint dX + 1) * (BB * (BB * w)) \<le> U" using U(2) unfolding U(1) by (simp add: algebra_simps)
  moreover have "D \<le> (uint dX + 1) * (BB * w)"
  proof -
    have "(uint d1 + 1) * w \<le> BB * w" using w limb_range(2) [of d1] by (intro mult_right_mono) linarith+
    then show ?thesis using D(3) unfolding D(1) by (simp add: algebra_simps)
  qed
  then have "BB * D \<le> BB * ((uint dX + 1) * (BB * w))" by (intro mult_left_mono) simp_all
  ultimately show False using U(3) by (simp only: ac_simps)
qed

lemma q_estimate_correct:
  fixes D U w :: int
  assumes d: "normalized dX" and D: "D = (uint dX * BB + uint d1) * w + Dl" "0 \<le> Dl" "Dl < w"
    and U: "U = ((uint n0 * BB + uint a) * BB + uint b) * w + Ul" "0 \<le> Ul" "Ul < w" "U < BB * D"
  shows "\<exists>q. q_estimate dX d1 n0 a b = Some q \<and> - D \<le> U - uint q * D \<and> U - uint q * D < D"
proof (cases "n0 = dX")
  case True
  have "- D \<le> U - uint (NOT 0 :: limb) * D" "U - uint (NOT 0 :: limb) * D < D"
    using largest_limb_estimate [OF d D U(1) [unfolded True] U(2)] U(4) unfolding ones_limb left_diff_distrib by linarith+
  then show ?thesis using True by (simp add: q_estimate_def)
next
  case False
  have w: "0 < w" using D(2,3) by linarith
  define D2 U3 where "D2 = uint dX * BB + uint d1" and "U3 = (uint n0 * BB + uint a) * BB + uint b"
  note less = upper_limb_less [OF D U(1,2,4) False]
  obtain q r where q: "udiv_qrnnd_c n0 a dX = (q, r)" by fastforce
  obtain p1 p0 where p: "umul_ppmm d1 q = (p1, p0)" by fastforce
  note est = udiv_estimate(1,3) [where x = b, OF d less q p, folded D2_def, folded U3_def]
  obtain q' where l: "q_loop dX d1 b q r p1 p0 = Some q'" "0 \<le> U3 - uint q' * D2" "U3 - uint q' * D2 < D2"
    using q_loops [OF d D2_def est(1) udiv_estimate(2) [OF d less q p] est(2)] by blast
  have c: "q_estimate dX d1 n0 a b = Some q'" using False q p l(1) by (simp add: q_estimate_def)
  have e: "U - uint q' * D = (U3 - uint q' * D2) * w + Ul - uint q' * Dl"
    unfolding U(1) D(1) U3_def [symmetric] D2_def [symmetric] by (simp add: algebra_simps)
  have "(U3 - uint q' * D2) * w \<le> (D2 - 1) * w" using l(3) w by (intro mult_right_mono) simp_all
  then have up: "U - uint q' * D < D" using D(2) U(3) mult_nonneg_nonneg [OF limb_range(1) [of q'] D(2)]
    unfolding e unfolding D(1) D2_def [symmetric] left_diff_distrib by linarith
  have "uint q' * Dl \<le> BB * w" using less_imp_le [OF limb_range(2) [of q']] D(2,3) by (intro mult_mono) simp_all
  moreover have "BB * w \<le> D2 * w"
  proof (rule mult_right_mono)
    have "1 * BB \<le> uint dX * BB" using normalized_pos [OF d] by (intro mult_right_mono) simp_all
    then show "BB \<le> D2" unfolding D2_def using limb_range(1) [of d1] by linarith
  qed (use w in simp)
  moreover have "0 \<le> (U3 - uint q' * D2) * w" using l(2) w by simp
  ultimately have "- D \<le> U - uint q' * D" using U(2) D(2) unfolding e unfolding D(1) D2_def [symmetric] by linarith
  then show ?thesis using c up by blast
qed

lemma val_upper_two:
  assumes "2 \<le> s"
  shows "val m p s = (uint (m (p + (s - 1))) * BB + uint (m (p + (s - 2)))) * BB ^ (s - 2) + val m p (s - 2)"
proof -
  obtain t where "s = Suc (Suc t)" using assms by (metis add_2_eq_Suc le_Suc_ex)
  then show ?thesis by (simp add: val_snoc algebra_simps del: val.simps)
qed

lemma divrem_limb_correct:
  assumes s: "2 \<le> s" "sep np s dp s" and d: "normalized (m (dp + (s - 1)))" and D: "D = val m dp s"
    and U: "U = BB ^ s * uint n2 + val m np s" "U < BB * D"
  shows "\<exists>m' q. divrem_limb (m (dp + (s - 1))) (m (dp + (s - 2))) np dp s n2 n2 m = Some (m', q) \<and> U = uint q * D + val m' np s \<and> val m' np s < D \<and> writes np s m m'"
proof -
  let ?dX = "m (dp + (s - 1))" and ?d1 = "m (dp + (s - 2))" and ?a = "m (np + (s - 1))" and ?b = "m (np + (s - 2))" and ?w = "BB ^ (s - 2)"
  have s0: "0 < s" using s(1) by simp
  have "BB ^ s = BB * BB * ?w" using s(1) by (metis le_add_diff_inverse power2_eq_square power_add)
  then have "U = ((uint n2 * BB + uint ?a) * BB + uint ?b) * ?w + val m np (s - 2)"
    unfolding U(1) val_upper_two [OF s(1)] by (simp add: algebra_simps)
  then obtain q where q: "q_estimate ?dX ?d1 n2 ?a ?b = Some q" "- D \<le> U - uint q * D" "U - uint q * D < D"
    using q_estimate_correct [OF d val_upper_two [OF s(1), of m dp, folded D] val_range _ val_range _] U(2) by blast
  have up: "upward np dp s" using s(2) by (auto simp: sep_def upward_def)
  obtain m1 cy where c: "mpn_submul_1 np dp s q m = Some (m1, cy)"
      "val m1 np s - BB ^ s * uint cy = val m np s - uint q * D" "writes np s m m1"
    using mpn_submul_1_correct [OF s0 up] unfolding D by blast
  have e: "val m1 np s + BB ^ s * (uint n2 - uint cy) = U - uint q * D" using c(2) unfolding U(1) by (simp add: algebra_simps)
  have DB: "D < BB ^ s" unfolding D by (rule val_range)
  show ?thesis
  proof (cases "0 \<le> U - uint q * D")
    case True
    have v: "val m1 np s = U - uint q * D" using val_unique [OF e True] q(3) DB by linarith
    then have "n2 = cy" using e by (simp add: word_uint_eq_iff)
    then have "divrem_limb (m (dp + (s - 1))) (m (dp + (s - 2))) np dp s n2 n2 m = Some (m1, q)" unfolding divrem_limb_def q(1) by (simp add: c(1))
    then show ?thesis using v q(3) c(3) by fastforce
  next
    case False
    have ne: "n2 \<noteq> cy" using e False val_range(1) [of m1 np s] by auto
    obtain m2 c2 where a: "mpn_add_n np np dp s m1 = Some (m2, c2)"
        "val m2 np s + BB ^ s * uint c2 = val m1 np s + val m1 dp s" "writes np s m1 m2"
      using mpn_add_n_correct [OF s0 _ up, of np m1] by auto
    have D1: "val m1 dp s = D" using val_writes [OF c(3)] s(2) unfolding D by blast
    have e2: "val m2 np s + BB ^ s * (uint n2 - uint cy + uint c2) = U - uint q * D + D"
      using a(2) e unfolding D1 by (simp add: algebra_simps)
    have v: "val m2 np s = U - uint q * D + D" using val_unique [OF e2] False q(2) DB by linarith
    have "uint q \<noteq> 0"
    proof
      assume "uint q = 0"
      moreover have "0 \<le> U" unfolding U(1) using val_range(1) [of m np s] by simp
      ultimately show False using \<open>\<not> 0 \<le> U - uint q * D\<close> by simp
    qed
    then have q1: "uint (q - 1) = uint q - 1" using limb_range(1) [of q] limb_range(2) [of q] by (intro limb_eqI) (linarith+, simp)
    have "divrem_limb (m (dp + (s - 1))) (m (dp + (s - 2))) np dp s n2 n2 m = Some (m2, q - 1)" using ne unfolding divrem_limb_def q(1) by (simp add: c(1) a(1))
    moreover have "U = uint (q - 1) * D + val m2 np s" unfolding q1 v by (simp add: algebra_simps)
    moreover have "val m2 np s < D" using v False by simp
    moreover have "writes np s m m2" using c(3) a(3) by (auto simp: writes_def)
    ultimately show ?thesis by blast
  qed
qed

text \<open>The limbs of the numerator that the loops have not reached, followed by \<open>e\<close> limbs of zero.\<close>

definition rest :: "mem \<Rightarrow> nat \<Rightarrow> nat \<Rightarrow> nat \<Rightarrow> int" where
  "rest m np e i = val m np (i - e) * BB ^ min i e"

lemma rest_Suc: "rest m np e (Suc i) = BB ^ i * (if e \<le> i then uint (m (np + (i - e))) else 0) + rest m np e i"
proof (cases "e \<le> i")
  case True
  then have p: "BB ^ i = BB ^ (i - e) * BB ^ e" by (simp flip: power_add)
  have n: "Suc i - e = Suc (i - e)" "min (Suc i) e = e" "min i e = e" using True by simp_all
  show ?thesis using True unfolding rest_def n val_snoc p by (simp only: if_True algebra_simps)
next
  case False
  then show ?thesis by (simp add: rest_def)
qed

lemma rest_cong: "(\<And>j. j < i - e \<Longrightarrow> m' (np + j) = m (np + j)) \<Longrightarrow> rest m' np e i = rest m np e i"
  unfolding rest_def using val_cong [of "i - e" m' np m] by simp

text \<open>One digit of a division from the top.\<close>

lemma division_digit:
  fixes D :: int
  assumes "BB * R + x = q * D + R1" "Q * D + Rf = R1 * BB ^ i + t"
  shows "(Q + BB ^ i * q) * D + Rf = R * BB ^ Suc i + (BB ^ i * x + t)"
proof -
  have "(Q + BB ^ i * q) * D + Rf = BB ^ i * (q * D + R1) + t" using assms(2) by (simp add: algebra_simps)
  also have "\<dots> = R * BB ^ Suc i + (BB ^ i * x + t)" unfolding assms(1) [symmetric] by (simp add: algebra_simps)
  finally show ?thesis .
qed

lemma MPN_COPY_DECR_correct:
  "downward d s n \<Longrightarrow> val (MPN_COPY_DECR d s n m) d n = val m s n \<and> writes d n m (MPN_COPY_DECR d s n m)"
proof (induction n arbitrary: m)
  case (Suc n)
  define m1 where "m1 = m(d + n := m (s + n))"
  let ?m = "MPN_COPY_DECR d s n m1"
  have down: "downward d s n" using Suc.prems by (auto simp: downward_def)
  have IH: "val ?m d n = val m1 s n" "writes d n m1 ?m" using Suc.IH [OF down] by auto
  have v: "val m1 s n = val m s n" using Suc.prems by (auto simp: m1_def downward_def intro!: val_cong)
  have "?m (d + n) = m (s + n)" using writes_at [OF IH(2), of "d + n"] by (simp add: m1_def)
  moreover have "writes d (Suc n) m ?m" using IH(2) by (auto simp: writes_def m1_def)
  ultimately show ?case using IH(1) v by (simp add: val_snoc del: val.simps flip: m1_def)
qed simp

lemma copy_top: "0 < n \<Longrightarrow> s \<le> d \<Longrightarrow> MPN_COPY_DECR d s n m (d + (n - 1)) = m (s + (n - 1))"
proof -
  assume "0 < n" "s \<le> d"
  then obtain k where k: "n = Suc k" by (cases n) simp_all
  have w: "writes d k (m(d + k := m (s + k))) (MPN_COPY_DECR d s n m)"
    using MPN_COPY_DECR_correct [of d s k "m(d + k := m (s + k))"] \<open>s \<le> d\<close> by (simp add: k downward_def)
  show ?thesis using writes_at [OF w, of "d + k"] by (simp add: k)
qed

text \<open>For a limb of the fraction the remainder is moved up by one limb.\<close>

lemma remainder_moved:
  assumes s: "2 \<le> s" and m0: "m0 = (MPN_COPY_DECR (np + 1) np s m)(np := 0)"
  shows "m0 (np + s) = m (np + (s - 1))" "BB ^ s * uint (m (np + (s - 1))) + val m0 np s = BB * val m np s" "writes np (s + 1) m m0"
proof -
  let ?m1 = "MPN_COPY_DECR (np + 1) np s m"
  have c: "val ?m1 (np + 1) s = val m np s" "writes (np + 1) s m ?m1"
    using MPN_COPY_DECR_correct [of "np + 1" np s m] by (simp_all add: downward_def)
  show top: "m0 (np + s) = m (np + (s - 1))"
    using copy_top [where d = "np + 1" and s = np and n = s and m = m] s by (simp add: m0)
  have "BB ^ s * uint (m (np + (s - 1))) + val m0 np s = val m0 np (Suc s)" unfolding val_snoc top by simp
  also have "\<dots> = BB * val m0 (np + 1) s" by (simp add: m0)
  also have "val m0 (np + 1) s = val ?m1 (np + 1) s" by (rule val_cong) (simp add: m0)
  finally show "BB ^ s * uint (m (np + (s - 1))) + val m0 np s = BB * val m np s" unfolding c(1) .
  show "writes np (s + 1) m m0" using c(2) by (auto simp: writes_def m0)
qed

text \<open>The part of the numerator that the loop changes; for the fraction the remainder is moved up by a limb.\<close>

definition frame :: "nat \<Rightarrow> nat \<Rightarrow> nat \<Rightarrow> nat" where
  "frame s e i = s + max (i - e) (if 0 < e \<and> 0 < i then 1 else 0)"

lemma next_limb:
  assumes s: "2 \<le> s" and n0: "n0 = m (np + (Suc i - e) + (s - 1))" and D: "val m (np + (Suc i - e)) s < D"
  obtains m0 where
    "divrem_loop dX d1 dp s e qp (Suc i) (np + (Suc i - e)) n0 m =
       do { (m, q) \<leftarrow> divrem_limb dX d1 (np + (i - e)) dp s n0 n0 m0;
            let m = m(qp + i := q) in divrem_loop dX d1 dp s e qp i (np + (i - e)) (m (np + (i - e) + (s - 1))) m }"
    "BB ^ s * uint n0 + val m0 (np + (i - e)) s = BB * val m (np + (Suc i - e)) s + (if e \<le> i then uint (m (np + (i - e))) else 0)"
    "BB ^ s * uint n0 + val m0 (np + (i - e)) s < BB * D"
    "writes np (frame s e (Suc i)) m m0" "\<And>j. j < i - e \<Longrightarrow> m0 (np + j) = m (np + j)"
proof -
  let ?R = "val m (np + (Suc i - e)) s"
  have small: "BB * ?R + x < BB * D" if "x < BB" for x
  proof -
    have "BB * ?R \<le> BB * (D - 1)" using D by (intro mult_left_mono) simp_all
    then show ?thesis using that by (simp only: right_diff_distrib)
  qed
  show ?thesis
  proof (cases "e \<le> i")
    case True
    let ?p = "np + (i - e)"
    have p: "np + (Suc i - e) = Suc ?p" using True by simp
    have n: "n0 = m (?p + s)" using n0 s unfolding p by simp
    have "BB ^ s * uint n0 + val m ?p s = val m ?p (Suc s)" unfolding val_snoc n by simp
    also have "\<dots> = BB * ?R + uint (m ?p)" unfolding p by simp
    finally have v: "BB ^ s * uint n0 + val m ?p s = BB * ?R + uint (m ?p)" .
    show ?thesis
    proof (rule that [of m])
      show "divrem_loop dX d1 dp s e qp (Suc i) (np + (Suc i - e)) n0 m =
       do { (m, q) \<leftarrow> divrem_limb dX d1 ?p dp s n0 n0 m;
            let m = m(qp + i := q) in divrem_loop dX d1 dp s e qp i ?p (m (?p + (s - 1))) m }"
        unfolding p n by (simp add: True del: add_diff_assoc add_diff_assoc2 diff_add_assoc)
      show "BB ^ s * uint n0 + val m ?p s < BB * D" unfolding v by (rule small) simp
    qed (use v True in simp_all)
  next
    case False
    then have p: "Suc i - e = 0" "i - e = 0" by simp_all
    define m0 where "m0 = (MPN_COPY_DECR (np + 1) np s m)(np := 0)"
    have n: "n0 = m (np + (s - 1))" using n0 by (simp add: p)
    note mv = remainder_moved [OF s m0_def, folded n]
    show ?thesis
    proof (rule that [of m0])
      show "divrem_loop dX d1 dp s e qp (Suc i) (np + (Suc i - e)) n0 m =
       do { (m, q) \<leftarrow> divrem_limb dX d1 (np + (i - e)) dp s n0 n0 m0;
            let m = m(qp + i := q) in divrem_loop dX d1 dp s e qp i (np + (i - e)) (m (np + (i - e) + (s - 1))) m }"
        using False n by (simp add: p m0_def)
      show "BB ^ s * uint n0 + val m0 (np + (i - e)) s < BB * D" using small [of 0] mv(2) by (simp add: p)
      show "writes np (frame s e (Suc i)) m m0" using mv(3) False by (simp add: frame_def)
    qed (use mv(2) False in \<open>simp_all add: p\<close>)
  qed
qed

lemma divrem_loop_correct:
  assumes "2 \<le> s" "normalized (m (dp + (s - 1)))" "val m dp s = D" "np + s \<le> qp \<or> qp + i \<le> np"
    "sep np (frame s e i) dp s" "sep qp i dp s" "val m (np + (i - e)) s < D" "n0 = m (np + (i - e) + (s - 1))"
    "dX = m (dp + (s - 1))" "d1 = m (dp + (s - 2))"
  shows "\<exists>m'. divrem_loop dX d1 dp s e qp i (np + (i - e)) n0 m = Some m' \<and>
    val m' qp i * D + val m' np s = val m (np + (i - e)) s * BB ^ i + rest m np e i \<and> val m' np s < D \<and>
    writes2 np (frame s e i) qp i m m'"
  using assms(2-)
proof (induction i arbitrary: m n0)
  case 0
  then show ?case by (simp add: rest_def writes2_def)
next
  case (Suc i)
  let ?p = "np + (i - e)"
  obtain m0 where m0: "divrem_loop dX d1 dp s e qp (Suc i) (np + (Suc i - e)) n0 m =
       do { (m, q) \<leftarrow> divrem_limb dX d1 ?p dp s n0 n0 m0;
            let m = m(qp + i := q) in divrem_loop dX d1 dp s e qp i ?p (m (?p + (s - 1))) m }"
    "BB ^ s * uint n0 + val m0 ?p s = BB * val m (np + (Suc i - e)) s + (if e \<le> i then uint (m ?p) else 0)"
    "BB ^ s * uint n0 + val m0 ?p s < BB * D"
    "writes np (frame s e (Suc i)) m m0" "\<And>j. j < i - e \<Longrightarrow> m0 (np + j) = m (np + j)"
    using next_limb [where dX = dX and ?d1.0 = d1 and dp = dp and qp = qp, OF assms(1) Suc.prems(7,6)] by blast
  have fr: "s + (i - e) \<le> frame s e (Suc i)" "frame s e i \<le> frame s e (Suc i)" "s \<le> frame s e i" by (auto simp: frame_def)
  have dp0: "m0 (dp + j) = m (dp + j)" if "j < s" for j
    using writes_at [OF m0(4)] Suc.prems(4) that by (auto simp: sep_def)
  have d0: "normalized (m0 (dp + (s - 1)))" "val m0 dp s = D"
    using Suc.prems(1,2) dp0 [of "s - 1"] val_cong [of s m0 dp m] dp0 assms(1) by simp_all
  have top0: "dX = m0 (dp + (s - 1))" "d1 = m0 (dp + (s - 2))"
    using Suc.prems(8,9) dp0 [of "s - 1"] dp0 [of "s - 2"] assms(1) by simp_all
  have sp: "sep ?p s dp s" using fr(1) by (intro sep_sub [OF Suc.prems(4)]) simp_all
  obtain m1 q where l: "divrem_limb dX d1 ?p dp s n0 n0 m0 = Some (m1, q)" "BB ^ s * uint n0 + val m0 ?p s = uint q * D + val m1 ?p s"
      "val m1 ?p s < D" "writes ?p s m0 m1"
    using divrem_limb_correct [OF assms(1) sp d0(1) d0(2) [symmetric] refl m0(3)] unfolding top0 by blast
  define m2 where "m2 = m1(qp + i := q)"
  have qn: "np + s \<le> qp \<or> qp + Suc i \<le> np" by (rule Suc.prems(3))
  have dp2: "m2 (dp + j) = m0 (dp + j)" if "j < s" for j
    using writes_at [OF l(4)] sp Suc.prems(5) that by (auto simp: sep_def m2_def)
  have d2: "normalized (m2 (dp + (s - 1)))" "val m2 dp s = D"
    using d0 dp2 [of "s - 1"] val_cong [of s m2 dp m0] dp2 assms(1) by simp_all
  have top2: "dX = m2 (dp + (s - 1))" "d1 = m2 (dp + (s - 2))"
    using top0 dp2 [of "s - 1"] dp2 [of "s - 2"] assms(1) by simp_all
  have R1: "val m2 ?p s = val m1 ?p s" using qn by (intro val_cong) (auto simp: m2_def)
  have seps: "np + s \<le> qp \<or> qp + i \<le> np" "sep np (frame s e i) dp s" "sep qp i dp s"
    using qn sep_sub [OF Suc.prems(4), of np "frame s e i" dp s] fr(2) sep_sub [OF Suc.prems(5), of qp i dp s] by auto
  obtain m' where IH: "divrem_loop dX d1 dp s e qp i ?p (m2 (?p + (s - 1))) m2 = Some m'"
      "val m' qp i * D + val m' np s = val m1 ?p s * BB ^ i + rest m2 np e i" "val m' np s < D" "writes2 np (frame s e i) qp i m2 m'"
    using Suc.IH [OF d2 seps _ refl top2] l(3) unfolding R1 by blast
  have "frame s e i \<le> s + i" by (auto simp: frame_def)
  then have "m' (qp + i) = q"
    using writes2_at [OF IH(4), of "qp + i"] qn by (auto simp: m2_def sep_def)
  moreover have "m2 (np + j) = m (np + j)" if "j < i - e" for j
    using m0(5) [OF that] writes_at [OF l(4) disjI1, of "np + j"] qn that by (auto simp: m2_def)
  then have "rest m2 np e i = rest m np e i" by (rule rest_cong)
  ultimately have "val m' qp (Suc i) * D + val m' np s = val m (np + (Suc i - e)) s * BB ^ Suc i + rest m np e (Suc i)"
    using division_digit [OF _ IH(2)] l(2) m0(2) unfolding val_snoc rest_Suc by simp
  moreover have "writes2 np (frame s e (Suc i)) qp (Suc i) m m'"
  proof -
    have "writes2 np (frame s e (Suc i)) qp (Suc i) m m1"
      using m0(4) l(4) fr(1) by (auto simp: writes_def writes2_def)
    then have "writes2 np (frame s e (Suc i)) qp (Suc i) m m2" by (auto simp: writes2_def m2_def)
    moreover have "writes2 np (frame s e (Suc i)) qp (Suc i) m2 m'" using writes2_mono [OF IH(4)] fr(2) by simp
    ultimately show ?thesis by (rule writes2_trans)
  qed
  moreover have "divrem_loop dX d1 dp s e qp (Suc i) (np + (Suc i - e)) n0 m = Some m'"
    unfolding m0(1) l(1) using IH(1) by (simp add: m2_def)
  ultimately show ?case using IH(3) by blast
qed

text \<open>The quotient with its most significant limb \<open>h\<close>, from the first partial remainder on.\<close>

lemma assemble_quotient:
  assumes "s \<le> n" "qn = e + n - s" "R + h * D = val m (np + (n - s)) s" "Q * D + r = R * BB ^ qn + rest m np e qn"
  shows "(BB ^ qn * h + Q) * D + r = val m np n * BB ^ e"
proof -
  have qn: "qn - e = n - s" "min qn e = e" "BB ^ qn = BB ^ (n - s) * BB ^ e" using assms(1,2) by (simp_all flip: power_add)
  have "(BB ^ qn * h + Q) * D + r = BB ^ qn * (R + h * D) + rest m np e qn" using assms(4) by (simp add: algebra_simps)
  also have "\<dots> = (val m np (n - s) + BB ^ (n - s) * val m (np + (n - s)) s) * BB ^ e"
    unfolding assms(3) rest_def qn by (simp add: algebra_simps)
  also have "\<dots> = val m np n * BB ^ e" using val_split [of "n - s" n m np] assms(1) by simp
  finally show ?thesis .
qed

lemma top_limb_compare:
  assumes "0 < s"
  shows "m (p + (s - 1)) \<ge> m (q + (s - 1)) \<and> (m (p + (s - 1)) > m (q + (s - 1)) \<or> mpn_cmp p q (s - 1) m \<ge> 0) \<longleftrightarrow> val m q s \<le> val m p s"
proof -
  have c: "mpn_cmp p q s m \<ge> 0 \<longleftrightarrow> val m q s \<le> val m p s" unfolding mpn_cmp_correct by (simp add: sgn_if)
  obtain t where "s = Suc t" using assms by (cases s) simp_all
  then show ?thesis unfolding c [symmetric] by (auto simp: Let_def)
qed

lemma normalized_val: "0 < s \<Longrightarrow> normalized (m (p + (s - 1))) \<Longrightarrow> BB ^ s \<le> 2 * val m p s"
proof -
  assume s: "0 < s" and d: "normalized (m (p + (s - 1)))"
  obtain t where t: "s = Suc t" using s by (cases s) simp_all
  have "BB ^ t * BB \<le> BB ^ t * (2 * uint (m (p + t)))" using d by (intro mult_left_mono) (simp_all add: t normalized_int)
  then show ?thesis using val_range(1) [of m p t] unfolding t val_snoc by (simp only: power_Suc2 distrib_left ac_simps)
qed

text \<open>What all cases establish.\<close>

definition divided :: "mem \<Rightarrow> nat \<Rightarrow> nat \<Rightarrow> nat \<Rightarrow> nat \<Rightarrow> nat \<Rightarrow> nat \<Rightarrow> nat \<Rightarrow> mem \<Rightarrow> limb \<Rightarrow> bool" where
  "divided m qp e np n dp s a m' h \<longleftrightarrow>
     (BB ^ (e + n - s) * uint h + val m' qp (e + n - s)) * val m dp s + val m' np s = val m np n * BB ^ e \<and>
     val m' np s < val m dp s \<and> uint h \<le> 1 \<and> writes2 np a qp (e + n - s) m m'"

lemma divrem_n_correct:
  assumes s: "2 \<le> s" "s \<le> n" and d: "normalized (m (dp + (s - 1)))" and q: "np + s \<le> qp \<or> qp + (e + n - s) \<le> np"
    and a: "a = max n (if 0 < e then s + 1 else s)" "sep np a dp s" "sep qp (e + n - s) dp s"
  shows "\<exists>m' h. divrem_n qp e np n dp s m = Some (m', h) \<and> divided m qp e np n dp s a m' h"
proof -
  define qn D R0 where "qn = e + n - s" and "D = val m dp s" and "R0 = val m (np + (n - s)) s"
  let ?p = "np + (n - s)"
  have s0: "0 < s" using s(1) by simp
  have qe: "qn - e = n - s" "frame s e qn = a" using s(2) by (auto simp: qn_def frame_def a(1))
  have "val m ?p s < BB ^ s" by (rule val_range)
  then have R0: "R0 < 2 * D" using normalized_val [of s m dp] s0 d unfolding D_def R0_def by linarith
  have sp: "sep ?p s dp s" using s(2) by (intro sep_sub [OF a(2)]) (simp_all add: a(1))
  let ?c = "m (?p + (s - 1)) \<ge> m (dp + (s - 1)) \<and> (m (?p + (s - 1)) > m (dp + (s - 1)) \<or> mpn_cmp ?p dp (s - 1) m \<ge> 0)"
  have top: "?c \<longleftrightarrow> D \<le> R0" unfolding D_def R0_def by (rule top_limb_compare [OF s0])
  obtain m1 n0 h where first: "(if D \<le> R0 then do { (m, _) \<leftarrow> mpn_sub_n ?p ?p dp s m; Some (m, m (?p + (s - 1)), 1) } else Some (m, m (?p + (s - 1)), 0)) = Some (m1, n0, h :: limb)"
      "n0 = m1 (?p + (s - 1))" "val m1 ?p s + uint h * D = R0" "val m1 ?p s < D" "uint h \<le> 1" "writes ?p s m m1"
  proof (cases "D \<le> R0")
    case True
    obtain m1 cy where c: "mpn_sub_n ?p ?p dp s m = Some (m1, cy)" "val m1 ?p s - BB ^ s * uint cy = R0 - D" "writes ?p s m m1"
      using mpn_sub_n_correct [OF s0 upward_refl sep_upward [OF sp order_refl order_refl], of m] unfolding R0_def D_def by blast
    have e: "val m1 ?p s + BB ^ s * (- uint cy) = R0 - D" using c(2) by simp
    have "D < BB ^ s" unfolding D_def by (rule val_range)
    then have "val m1 ?p s = R0 - D" using val_unique [OF e] True R0 by linarith
    then show ?thesis using c(1,3) True R0 by (intro that [of m1 "m1 (?p + (s - 1))" 1]) simp_all
  next
    case False
    then show ?thesis by (intro that [of m "m (?p + (s - 1))" 0]) (simp_all flip: R0_def)
  qed
  have dp: "m1 (dp + j) = m (dp + j)" if "j < s" for j using writes_at [OF first(6)] sp that by (auto simp: sep_def)
  have d1: "normalized (m1 (dp + (s - 1)))" "val m1 dp s = D"
    using d dp [of "s - 1"] val_cong [of s m1 dp m] dp s0 by (simp_all add: D_def)
  have top1: "m (dp + (s - 1)) = m1 (dp + (s - 1))" "m (dp + (s - 2)) = m1 (dp + (s - 2))"
    using dp [of "s - 1"] dp [of "s - 2"] s(1) by simp_all
  obtain m' where l: "divrem_loop (m (dp + (s - 1))) (m (dp + (s - 2))) dp s e qp qn ?p n0 m1 = Some m'"
      "val m' qp qn * D + val m' np s = val m1 ?p s * BB ^ qn + rest m1 np e qn" "val m' np s < D" "writes2 np a qp qn m1 m'"
    using divrem_loop_correct [OF s(1) d1, of np qp qn e n0 "m (dp + (s - 1))" "m (dp + (s - 2))"] q a(2,3) first(2,4) top1 unfolding qe qn_def [symmetric] by blast
  have "rest m1 np e qn = rest m np e qn" using writes_at [OF first(6) disjI1] by (intro rest_cong) (simp add: qe)
  then have "(BB ^ qn * uint h + val m' qp qn) * D + val m' np s = val m np n * BB ^ e"
    using assemble_quotient [OF s(2) qn_def first(3) [unfolded R0_def]] l(2) by simp
  moreover have "writes2 np a qp qn m m'"
    using writes2_trans [OF writes_writes2 [OF first(6)] l(4)] s(2) by (simp add: a(1))
  moreover have "divrem_n qp e np n dp s m = Some (m', h)"
    unfolding divrem_n_def Let_def top first(1) using l(1) by (simp add: qn_def)
  ultimately show ?thesis using l(3) first(5) unfolding divided_def D_def qn_def by blast
qed

lemma divrem_2_loop_correct:
  assumes d: "normalized d1" "D = uint d1 * BB + uint d0"
    and "np + 2 \<le> qp \<or> qp + i \<le> np" "uint n1 * BB + uint n0 < D"
  shows "\<exists>n1' n0' m'. divrem_2_loop d1 d0 e qp i (np + (i - e)) n1 n0 m = Some (np, n1', n0', m') \<and>
    val m' qp i * D + (uint n1' * BB + uint n0') = (uint n1 * BB + uint n0) * BB ^ i + rest m np e i \<and>
    uint n1' * BB + uint n0' < D \<and> writes2 np 1 qp i m m'"
  using assms(3-)
proof (induction i arbitrary: n1 n0 m)
  case 0
  then show ?case by (simp add: rest_def writes2_def)
next
  case (Suc i)
  let ?p = "np + (i - e)"
  define m0 where "m0 = (if e \<le> i then m else m(np := 0))"
  have start: "(if i \<ge> e then (np + (Suc i - e) - 1, m) else (np + (Suc i - e), m(np + (Suc i - e) := 0))) = (?p, m0)"
    by (auto simp: m0_def)
  have x: "uint (m0 ?p) = (if e \<le> i then uint (m ?p) else 0)" by (simp add: m0_def)
  obtain q h l where st: "divrem_2_step d1 d0 n1 n0 (m0 ?p) = Some (q, h, l)"
      "(uint n1 * BB + uint n0) * BB + uint (m0 ?p) = uint q * D + (uint h * BB + uint l)" "uint h * BB + uint l < D"
    using divrem_2_step_correct [OF d Suc.prems(2)] by blast
  define m2 where "m2 = m0(qp + i := q)"
  have qn: "np + 2 \<le> qp \<or> qp + i \<le> np" using Suc.prems(1) by auto
  obtain n1' n0' m' where IH: "divrem_2_loop d1 d0 e qp i ?p h l m2 = Some (np, n1', n0', m')"
      "val m' qp i * D + (uint n1' * BB + uint n0') = (uint h * BB + uint l) * BB ^ i + rest m2 np e i"
      "uint n1' * BB + uint n0' < D" "writes2 np 1 qp i m2 m'"
    using Suc.IH [OF qn st(3), of m2] by blast
  have "m' (qp + i) = q" using writes2_at [OF IH(4), of "qp + i"] Suc.prems(1) by (auto simp: m2_def sep_def)
  moreover have "rest m2 np e i = rest m np e i" using Suc.prems(1) by (intro rest_cong) (auto simp: m2_def m0_def)
  moreover have "BB * (uint n1 * BB + uint n0) + (if e \<le> i then uint (m ?p) else 0) = uint q * D + (uint h * BB + uint l)"
    using st(2) x by (simp add: mult.commute)
  ultimately have "val m' qp (Suc i) * D + (uint n1' * BB + uint n0') = (uint n1 * BB + uint n0) * BB ^ Suc i + rest m np e (Suc i)"
    using division_digit [OF _ IH(2)] unfolding val_snoc rest_Suc by simp
  moreover have "writes2 np 1 qp (Suc i) m m'" using IH(4) by (auto simp: writes2_def m2_def m0_def)
  moreover have "divrem_2_loop d1 d0 e qp (Suc i) (np + (Suc i - e)) n1 n0 m = Some (np, n1', n0', m')"
    unfolding divrem_2_loop.simps start using st(1) IH(1) by (simp add: m2_def)
  ultimately show ?case using IH(3) by blast
qed

lemma val_two: "val m p 2 = uint (m (p + 1)) * BB + uint (m p)"
  by (simp add: numeral_2_eq_2 mult.commute)

lemma divrem_2_correct:
  assumes s: "2 \<le> n" and d: "normalized (m (dp + 1))" and q: "np + 2 \<le> qp \<or> qp + (e + n - 2) \<le> np"
  shows "\<exists>m' h. divrem_2 qp e np n dp m = Some (m', h) \<and> divided m qp e np n dp 2 n m' h"
proof -
  define qn D R0 where "qn = e + n - 2" and "D = uint (m (dp + 1)) * BB + uint (m dp)" and "R0 = val m (np + (n - 2)) 2"
  let ?p = "np + (n - 2)"
  have qe: "qn - e = n - 2" using s by (simp add: qn_def)
  have D: "val m dp 2 = D" by (simp add: val_two D_def)
  have R0: "R0 = uint (m (?p + 1)) * BB + uint (m ?p)" by (simp add: R0_def val_two)
  have "R0 < BB ^ 2" unfolding R0_def by (rule val_range)
  then have small: "R0 < 2 * D" using normalized_val [of 2 m dp] d unfolding D by simp
  let ?c = "m (?p + 1) \<ge> m (dp + 1) \<and> (m (?p + 1) > m (dp + 1) \<or> m ?p \<ge> m dp)"
  have c: "?c \<longleftrightarrow> D \<le> R0"
    using limb_pair_less [where a = "m (?p + 1)" and b = "m (dp + 1)" and c = "m ?p" and d = "m dp"] unfolding R0 D_def by auto
  obtain n1 n0 h where first: "(if ?c then (sub_ddmmss (m (?p + 1)) (m ?p) (m (dp + 1)) (m dp), 1) else ((m (?p + 1), m ?p), 0)) = ((n1, n0), h :: limb)"
      "(uint n1 * BB + uint n0) + uint h * D = R0" "uint n1 * BB + uint n0 < D" "uint h \<le> 1"
  proof (cases "D \<le> R0")
    case True
    obtain n1 n0 where sub: "sub_ddmmss (m (?p + 1)) (m ?p) (m (dp + 1)) (m dp) = (n1, n0)" by fastforce
    then have "uint n1 * BB + uint n0 = R0 - D" using sub_ddmmss [OF sub] True unfolding R0 D_def by blast
    then show ?thesis using that [of n1 n0 1] c True sub small by simp
  next
    case False
    then show ?thesis using that [of "m (?p + 1)" "m ?p" 0] c R0 by simp
  qed
  obtain n1' n0' m1 where l: "divrem_2_loop (m (dp + 1)) (m dp) e qp qn ?p n1 n0 m = Some (np, n1', n0', m1)"
      "val m1 qp qn * D + (uint n1' * BB + uint n0') = (uint n1 * BB + uint n0) * BB ^ qn + rest m np e qn"
      "uint n1' * BB + uint n0' < D" "writes2 np 1 qp qn m m1"
    using divrem_2_loop_correct [OF d D_def, of np qp qn n1 n0 e m] q first(3) unfolding qe qn_def [symmetric] by blast
  define m' where "m' = m1(np + 1 := n1', np := n0')"
  have r: "val m' np 2 = uint n1' * BB + uint n0'" by (simp add: m'_def val_two)
  have "val m' qp qn = val m1 qp qn" using q by (intro val_cong) (auto simp: m'_def qn_def)
  then have "(BB ^ qn * uint h + val m' qp qn) * D + val m' np 2 = val m np n * BB ^ e"
    using assemble_quotient [OF s qn_def first(2) [unfolded R0_def]] l(2) unfolding r by simp
  moreover have "writes2 np n qp qn m m'" using l(4) s by (auto simp: writes2_def m'_def)
  moreover have "divrem_2 qp e np n dp m = Some (m', h)"
    unfolding divrem_2_def Let_def first(1) using l(1) by (simp add: qn_def m'_def)
  ultimately show ?thesis using l(3) first(4) unfolding divided_def D r [symmetric] qn_def by blast
qed

lemma fraction_loop_correct:
  assumes d: "normalized d" and "uint n1 < uint d" "fraction_loop qp d i n1 m = (m', r)"
  shows "val m' qp i * uint d + uint r = uint n1 * BB ^ i \<and> uint r < uint d \<and> writes qp i m m'"
  using assms(2-)
proof (induction i arbitrary: n1 m)
  case (Suc i)
  obtain q n2 where q: "udiv_qrnnd_c n1 0 d = (q, n2)" by fastforce
  note u = udiv_qrnnd_c [OF d Suc.prems(1) q]
  have code: "fraction_loop qp d i n2 (m(qp + i := q)) = (m', r)" using Suc.prems(2) q by simp
  have IH: "val m' qp i * uint d + uint r = uint n2 * BB ^ i" "uint r < uint d" "writes qp i (m(qp + i := q)) m'"
    using Suc.IH [OF u(2) code] by blast+
  have "m' (qp + i) = q" using writes_at [OF IH(3), of "qp + i"] by simp
  then have "val m' qp (Suc i) * uint d + uint r = uint n1 * BB ^ Suc i"
    using division_digit [of "uint n1" 0 "uint q" "uint d" "uint n2" "val m' qp i" "uint r" i 0] u(1) IH(1) unfolding val_snoc
    by (simp add: mult.commute)
  then show ?case using IH(2,3) by (auto simp: writes_def)
qed simp

lemma divrem_1_correct:
  assumes s: "1 \<le> n" and d: "normalized (m dp)" and q: "np + 1 \<le> qp \<or> qp + (e + n - 1) \<le> np"
  shows "\<exists>m' h. divrem_1 qp e np n dp m = (m', h) \<and> divided m qp e np n dp 1 n m' h"
proof -
  define qn where "qn = e + n - 1"
  let ?d = "m dp" and ?p = "np + (n - 1)"
  have D: "val m dp 1 = uint ?d" and R0: "val m ?p 1 = uint (m ?p)" by simp_all
  obtain n1 h where first: "(if m ?p \<ge> ?d then (m ?p - ?d, 1) else (m ?p, 0)) = (n1, h :: limb)"
      "uint n1 + uint h * uint ?d = uint (m ?p)" "uint n1 < uint ?d" "uint h \<le> 1"
  proof (cases "m ?p \<ge> ?d")
    case True
    then have sub: "uint (m ?p - ?d) = uint (m ?p) - uint ?d" by (simp add: word_le_def uint_sub_if')
    have "uint (m ?p) < 2 * uint ?d" using d limb_range(2) [of "m ?p"] unfolding normalized_int by linarith
    then show ?thesis using True sub by (intro that [of "m ?p - ?d" 1]) simp_all
  next
    case False
    then show ?thesis by (intro that [of "m ?p" 0]) (simp_all add: word_le_def)
  qed
  obtain m1 r1 where l1: "plain_loop udiv_qrnnd_c (qp + e) np ?d (n - 1) n1 m = (m1, r1)" by fastforce
  obtain m2 r2 where l2: "fraction_loop qp ?d e r1 m1 = (m2, r2)" by fastforce
  have down: "downward (qp + e) np (n - 1)" using q s by (auto simp: downward_def)
  have c1: "val m1 (qp + e) (n - 1) * uint ?d + uint r1 = uint n1 * BB ^ (n - 1) + val m np (n - 1)" "uint r1 < uint ?d"
      "writes (qp + e) (n - 1) m m1"
    using schoolbook.plain_loop_correct [OF d first(3) down l1] by blast+
  have c2: "val m2 qp e * uint ?d + uint r2 = uint r1 * BB ^ e" "uint r2 < uint ?d" "writes qp e m1 m2"
    using fraction_loop_correct [OF d c1(2) l2] by blast+
  define m' where "m' = m2(np := r2)"
  have qn: "qn = e + (n - 1)" "qn - e = n - 1" "min qn e = e" using s by (simp_all add: qn_def)
  have "val m' qp qn = val m2 qp qn" using q by (intro val_cong) (auto simp: m'_def qn_def)
  also have "\<dots> = val m2 qp e + BB ^ e * val m1 (qp + e) (n - 1)"
    unfolding qn(1) val_append using val_writes [OF c2(3), of "qp + e" "n - 1"] by (simp add: sep_def)
  finally have Q: "val m' qp qn = val m2 qp e + BB ^ e * val m1 (qp + e) (n - 1)" .
  have "val m' qp qn * uint ?d + uint r2 = BB ^ e * (val m1 (qp + e) (n - 1) * uint ?d + uint r1)"
    using c2(1) unfolding Q by (simp add: algebra_simps)
  also have "\<dots> = uint n1 * BB ^ qn + rest m np e qn" unfolding c1(1) rest_def qn(2,3) unfolding qn(1) by (simp add: power_add algebra_simps)
  finally have "(BB ^ qn * uint h + val m' qp qn) * uint ?d + uint r2 = val m np n * BB ^ e"
    using assemble_quotient [OF s qn_def first(2) [folded R0]] by blast
  moreover have "val m' np 1 = uint r2" by (simp add: m'_def)
  moreover have "writes2 np n qp qn m m'" using c1(3) c2(3) s by (auto simp: writes_def writes2_def m'_def qn(1))
  moreover have "divrem_1 qp e np n dp m = (m', h)" unfolding divrem_1_def Let_def first(1) by (simp add: l1 l2 m'_def flip: One_nat_def)
  ultimately show ?thesis using c2(2) first(4) unfolding divided_def D qn_def by simp
qed

section \<open>Division\<close>

text \<open>The limbs at \<open>np\<close> that the division uses: the numerator, and one limb more when the fraction of a
  division by three limbs and more is asked for and the numerator is no longer than the divisor.\<close>

definition numerator_area :: "nat \<Rightarrow> nat \<Rightarrow> nat \<Rightarrow> nat" where
  "numerator_area nsize dsize qextra_limbs = max nsize (if 2 < dsize \<and> 0 < qextra_limbs then dsize + 1 else dsize)"

lemma mpn_divrem_divided:
  assumes "0 < s" "s \<le> n" "normalized (m (dp + (s - 1)))" "np + s \<le> qp \<or> qp + (e + n - s) \<le> np"
    "sep np (numerator_area n s e) dp s" "sep qp (e + n - s) dp s"
  shows "\<exists>m' h. mpn_divrem qp e np n dp s m = Some (m', h) \<and> divided m qp e np n dp s (numerator_area n s e) m' h"
proof -
  consider "s = 1" | "s = 2" | "2 < s" using assms(1) by linarith
  then show ?thesis
  proof cases
    case 1
    have "numerator_area n 1 e = n" using assms(2) 1 by (simp add: numerator_area_def)
    then show ?thesis using divrem_1_correct [of n m dp np qp e] assms by (auto simp: 1 mpn_divrem_def)
  next
    case 2
    have "numerator_area n 2 e = n" using assms(2) 2 by (simp add: numerator_area_def)
    then show ?thesis using divrem_2_correct [of n m dp np qp e] assms by (auto simp: 2 mpn_divrem_def)
  next
    case 3
    then show ?thesis
      using divrem_n_correct [where m = m and dp = dp and s = s, OF _ assms(2-4) _ assms(5,6)] by (auto simp: numerator_area_def mpn_divrem_def)
  qed
qed

text \<open>
  C14. Long division: for a divisor whose most significant bit is set and a numerator that is not
  shorter, \<open>mpn_divrem\<close> ends, returns the most significant limb of the quotient, which is 0 or 1,
  stores the other limbs of the quotient of the numerator, followed by \<open>e\<close> limbs of its fraction,
  and leaves the remainder in place of the numerator. The quotient may stand above the remainder or
  below the numerator, and the divisor overlaps neither. Only the quotient and the area of the
  numerator change; the limb behind the numerator belongs to this area when a fraction is asked for
  and numerator and divisor have the same three or more limbs.
\<close>

theorem mpn_divrem_correct:
  assumes "0 < s" "s \<le> n" "normalized (m (dp + (s - 1)))" "np + s \<le> qp \<or> qp + (e + n - s) \<le> np"
    "sep np (numerator_area n s e) dp s" "sep qp (e + n - s) dp s"
  shows "\<exists>m' h. mpn_divrem qp e np n dp s m = Some (m', h) \<and> uint h \<le> 1 \<and>
    BB ^ (e + n - s) * uint h + val m' qp (e + n - s) = val m np n * BB ^ e div val m dp s \<and>
    val m' np s = val m np n * BB ^ e mod val m dp s \<and> writes2 np (numerator_area n s e) qp (e + n - s) m m'"
proof -
  obtain m' h where c: "mpn_divrem qp e np n dp s m = Some (m', h)" and v: "divided m qp e np n dp s (numerator_area n s e) m' h"
    using mpn_divrem_divided [where m = m and dp = dp and s = s, OF assms] by blast
  show ?thesis using c v quotient_rest [OF conjunct1 [OF v [unfolded divided_def]] val_range(1)] unfolding divided_def by blast
qed

lemma mpn_divrem_correct_witness:
  "normalized (- 1) \<and> (\<exists>m' h. mpn_divrem 9 2 0 6 30 4 (\<lambda>_. - 1) = Some (m', h) \<and> uint h \<le> 1 \<and>
    BB ^ 4 * uint h + val m' 9 4 = val (\<lambda>_. - 1) 0 6 * BB ^ 2 div val (\<lambda>_. - 1) 30 4)"
proof -
  have d: "normalized (- 1)" by (simp add: normalized_int BB_def unsigned_minus_1_eq_mask mask_eq_exp_minus_1)
  have "0 < (4 :: nat)" "4 \<le> (6 :: nat)" "normalized ((\<lambda>_. - 1) (30 + (4 - 1) :: nat))" "0 + 4 \<le> (9 :: nat) \<or> 9 + (2 + 6 - 4) \<le> (0 :: nat)"
    "sep 0 (numerator_area 6 4 2) 30 4" "sep 9 (2 + 6 - 4) 30 4"
    using d by (simp_all add: sep_def numerator_area_def)
  from mpn_divrem_correct [where m = "\<lambda>_. - 1", OF this] d show ?thesis by auto
qed

text \<open>
  C40. A limb behind the numerator is overwritten: when one limb of the fraction of a number that is
  smaller than the divisor is asked for, and both have the same three or more limbs, then
  \<open>mpn_divrem\<close> has stored the most significant limb of the numerator one limb above it, where
  neither the remainder nor the quotient belongs.
\<close>

theorem mpn_divrem_beyond_numerator:
  assumes "2 < s" "normalized (m (dp + (s - 1)))" "val m np s < val m dp s" "np + s < qp \<or> qp < np" "sep np (s + 1) dp s" "sep qp 1 dp s"
  shows "\<exists>m' h. mpn_divrem qp 1 np s dp s m = Some (m', h) \<and> m' (np + s) = m (np + (s - 1))"
proof -
  let ?n0 = "m (np + (s - 1))"
  define m0 where "m0 = (MPN_COPY_DECR (np + 1) np s m)(np := 0)"
  have s: "2 \<le> s" "0 < s" using assms(1) by simp_all
  note mv = remainder_moved [OF s(1) m0_def]
  have dp: "m0 (dp + j) = m (dp + j)" if "j < s" for j
    using writes_at [OF mv(3)] assms(5) that by (auto simp: sep_def)
  have d0: "normalized (m0 (dp + (s - 1)))" "val m0 dp s = val m dp s"
    using assms(2) dp [of "s - 1"] val_cong [of s m0 dp m] dp s by simp_all
  have sp: "sep np s dp s" by (intro sep_sub [OF assms(5)]) simp_all
  have "BB ^ s * uint ?n0 + val m0 np s < BB * val m0 dp s" unfolding mv(2) d0(2) using assms(3) by simp
  then obtain m2 q where l: "divrem_limb (m0 (dp + (s - 1))) (m0 (dp + (s - 2))) np dp s ?n0 ?n0 m0 = Some (m2, q)" "writes np s m0 m2"
    using divrem_limb_correct [where m = m0 and dp = dp and s = s, OF s(1) sp d0(1) refl refl] by blast
  have "divrem_n qp 1 np s dp s m = Some (m2(qp := q), 0)"
    using top_limb_compare [OF s(2), where m = m and p = np and q = dp] assms(3) l(1) s dp [of "s - 1"] dp [of "s - 2"]
    unfolding divrem_n_def Let_def by (auto simp: m0_def)
  moreover have "m2 (np + s) = ?n0" using writes_at [OF l(2), of "np + s"] mv(1) by simp
  ultimately show ?thesis using assms(1,4) by (auto simp: mpn_divrem_def)
qed

lemma mpn_divrem_beyond_numerator_witness:
  "normalized (- 1) \<and> (\<exists>m' h. mpn_divrem 9 1 0 3 30 3 (\<lambda>a. if a < 3 then 5 else - 1) = Some (m', h) \<and> m' 3 = 5)"
proof -
  let ?m = "\<lambda>a :: nat. if a < 3 then 5 else - 1 :: limb"
  have d: "normalized (- 1)" by (simp add: normalized_int BB_def unsigned_minus_1_eq_mask mask_eq_exp_minus_1)
  have "2 < (3 :: nat)" "normalized (?m (30 + (3 - 1)))" "val ?m 0 3 < val ?m 30 3" "0 + 3 < (9 :: nat) \<or> 9 < (0 :: nat)" "sep 0 (3 + 1) 30 3" "sep 9 1 30 3"
    using d by (simp_all add: sep_def numeral_3_eq_3 unsigned_minus_1_eq_mask mask_eq_exp_minus_1 BB_def)
  from mpn_divrem_beyond_numerator [where m = ?m, OF this] d show ?thesis by auto
qed

end
