(* ===== verification/Spec2Isabelle.thy ===== *)
theory Spec2Isabelle
  imports Md5_Stream Sha256 Sha512 Rpc Xdr_Rec_Read Xdr_Stdio Qsort Hsearch Tsearch_Overflow Crypt_Format
    Mpn_Product Mpn_Div
begin

text \<open>
  Verification of components of the C library in glibc-2.33, the C program of this repository.

  \<^bold>\<open>Scope.\<close> The repository holds a small Flutter application and a copy of the GNU C
  library. The development models parts of the library that compute: the message digests and
  password hashes of crypt/, external data representation and the RPC messages of sunrpc/, the
  searching and sorting routines of stdlib/ and misc/, and the multiple precision arithmetic of
  stdlib/. The configuration is that of the repository's build
  directory: a little-endian LP64 machine. Where a source file has several compile-time variants
  (unaligned access or not, a 128-bit counter or two words), the variants are arguments of the
  definitions and the theorems hold for all of them.

  \<^bold>\<open>How code is rendered.\<close> Structures are records, enumerations and unions are datatypes,
  32- and 64-bit integers whose wrap-around matters are words, sizes and indices are natural
  numbers, buffers are lists of bytes. A function that can fail returns its status beside its
  state; a loop that might not end is a \<open>partial_function\<close> with \<open>None\<close> for a run that does
  not end (and, in the hash table, the trees and the sorting routines, for an access outside the memory at
  hand), so that every theorem which states a result also states that the loop ends. No fuel is used, except in \<open>xdr_pmaplist\<close>,
  whose loop takes as many turns as the list it decodes has elements and one more. Code outside
  these files (malloc, calloc, sysconf, the transport callbacks of record streams, comparison
  functions) is a parameter, with what the code relies on as hypotheses; the calls of stdio that
  md5_stream and the stdio streams make are definitions on a FILE that shows their documented
  behaviour.

  \<^bold>\<open>Parts and theories.\<close>

  \<^item> \<open>Prelude\<close>: words, bytes and byte order, buffers, the macros \<open>SWAP\<close> and \<open>SWAP64\<close>.

  \<^item> \<open>Digest\<close> (the buffering that md5.c, sha256.c and sha512.c share: \<open>md5_process_bytes\<close> and
    its siblings), with the locale \<open>block_digest\<close> for a digest built on a block function;
    \<open>Md5\<close> (md5.c, md5-block.c), \<open>Sha256\<close> and \<open>Sha512\<close> (sha256.c, sha512.c and their block
    files) interpret it. The theorems: whatever the chunks and alignments in which a message is
    fed, the digest is that of RFC 1321 or FIPS 180-2 on the whole message; the unrolled MD5
    rounds compute the tables of the RFC. \<open>Md5_Stream\<close> has \<open>md5_stream\<close>, with a FILE as the bytes and
    the failures that its reads show: the digest of the whole stream, or an error when a read failed.

  \<^item> \<open>Crypt_Output\<close> (reading the salt and writing the result), \<open>Sha_Crypt\<close> (the function that
    sha256-crypt.c and sha512-crypt.c share, over the locale \<open>incremental_digest\<close>, the contract of
    the three digest functions), \<open>Sha256_Crypt\<close>, \<open>Sha512_Crypt\<close> and \<open>Md5_Crypt\<close> (md5-crypt.c; the three
    interpretations), \<open>Crypt_Verify\<close> and \<open>Crypt_Format\<close>: the password hashes. The theorems: the result
    is that of the published algorithm, within the buffer, with the secrets cleared; it has the
    format of a stored password; a stored result verifies its password, except for salts of the SHA
    variants that only look like a number of rounds; the non-reentrant functions make their buffer
    large enough, for salts short enough that the size is an int.

  \<^item> \<open>Xdr\<close> (xdr.c, xdr_array.c, xdr_ref.c, xdr_intXX_t.c over an arbitrary stream of
    operations \<open>xdr_ops\<close>), \<open>Xdr_Contract\<close> (locales for what a stream promises as a sink and as
    a source, and the filters' lemmas proved once from them), \<open>Xdr_Mem\<close> (xdr_mem.c),
    \<open>Xdr_Rec\<close> and \<open>Xdr_Rec_Read\<close> (xdr_rec.c: fragments, record marks, the transport delivering
    bytes in pieces), \<open>Xdr_Stdio\<close> (xdr_stdio.c and xdr_sizeof.c). Each stream interprets the
    locales. A read callback of a record stream gives -1 at the end of its input, as those of the
    RPC transports do; one that gives 0 makes the reading loops run for ever. A FILE has contents, which
    the writes extend as long as the buffer can be emptied, and a device, which gets them at a flush and
    may take less; the stream cannot report what xdrstdio_destroy loses in this way. The theorems: round
    trips through every kind of stream, the exact external bytes,
    refusal of oversized or truncated data, nothing written outside the buffer, reads that stay
    inside a record, and what \<open>xdr_free\<close> releases.

  \<^item> \<open>Rpc\<close> (rpc_prot.c, rpc_cmsg.c, pmap_prot.c, pmap_prot2.c, authuxprot.c): call and reply
    messages with the inline fast paths of \<open>xdr_callmsg\<close>, client error codes, portmapper lists
    and Unix credentials; round trips and the meaning of \<open>_seterr_reply\<close>.

  \<^item> \<open>Search\<close> (lsearch.c, stdlib-bsearch.h, insremque.c): linear and binary search over arrays,
    queues linked through a heap of link fields.

  \<^item> \<open>Msort\<close>, \<open>Msort_Indirect\<close>, \<open>Quicksort\<close> and \<open>Qsort\<close> (msort.c and qsort.c): the merge sort
    with its five ways of copying objects, the sort of pointers and the permutation of the
    objects along its cycles, the non-recursive quicksort with its stack of 64 entries, and the
    choice between them in \<open>__qsort_r\<close>. The locale \<open>total_preorder\<close> carries the facts on merging.
    Every access of the quicksort is checked, and so is the room that the temporary block, of the
    size that \<open>__qsort_r\<close> computes, has for what the merge sorts write. The theorems: both sorts
    return a sorted permutation, the stack of the quicksort never overflows and no access leaves
    the array, the temporary block is large enough, and the merge sort is stable.

  \<^item> \<open>Keyed_Store\<close> and \<open>Hsearch\<close> (hsearch_r.c, hsearch.c): double hashing in a table of prime
    size. The locale \<open>keyed_store\<close> is the contract of a search table; its interpretation gives
    the theorems on histories of insertions. The theorems: a search ends inside the table, the
    table is a finite map, its size is the least prime from the request on, and a table made for
    a number of keys takes them.

  \<^item> \<open>Tsearch\<close> (tsearch.c): red-black trees of allocated nodes, with the colour in the low bit of a
    pointer, on a heap in which every access to memory that is not allocated is \<open>None\<close>.
    \<open>Tsearch_Tree\<close> says when a heap holds a tree, given as a path and the subtree at its end;
    \<open>Tsearch_Insert\<close> follows the descent of \<open>tsearch\<close> with its splits and rotations,
    \<open>Tsearch_Delete\<close> the descents, the unchaining and the rebalancing loop of \<open>tdelete\<close>, and
    \<open>Tsearch_Ops\<close> has the operations as a whole. The theorems: insertion and deletion keep the
    tree a red-black tree with ascending keys and touch only allocated memory, sequences of calls
    implement a sorted list of keys, walks visit the nodes in order, and destruction frees every
    node once. \<open>Tsearch_Overflow\<close> builds a tree on which \<open>tdelete\<close> stores behind its stack.

  \<^item> \<open>Mpn\<close> (the generic C of add_n.c, sub_n.c, mul_1.c, addmul_1.c, submul_1.c, lshift.c,
    rshift.c and cmp.c, the inline functions of gmp.h and \<open>umul_ppmm\<close> of longlong.h), \<open>Mpn_Mul\<close>
    (the schoolbook product and Karatsuba's product of mul_n.c) and \<open>Mpn_Product\<close> (the squares of
    mul_n.c, \<open>mpn_mul_n\<close>, and mul.c): natural numbers as arrays of 64-bit limbs in a memory from
    addresses to limbs, so that source and result may overlap as the code allows. The locale
    \<open>limb_step\<close> is one turn of the loops from the least limb up, and its five interpretations are
    their bodies. Karatsuba's product works in the product area and in 2n limbs at the address
    \<open>tmp\<close>, the result of \<open>TMP_ALLOC\<close>; its threshold is the code's 32. The theorems: sums,
    differences and products are exact, with the carry or the most significant limb returned, a
    shift to the left and back restores the number, and only the result and the temporary memory
    change.

  \<^item> \<open>Mpn_Div1\<close> (divmod_1.c, mod_1.c, \<open>__udiv_qrnnd_c\<close> and \<open>count_leading_zeros\<close> of longlong.h with
    mp_clz_tab.c, \<open>udiv_qrnnd_preinv\<close> of gmp-impl.h): division of a limb array by one limb. The
    locale \<open>limb_divider\<close> is the contract of the division of two limbs by one, which the division by
    half limbs and the multiplication by the inverse both interpret; the costs \<open>UMUL_TIME\<close> and
    \<open>UDIV_TIME\<close>, which decide between them, are arguments. \<open>Mpn_Div\<close> (divrem.c): division by one limb, by two limbs
    in registers, and Knuth's long division; the loops that correct an estimated quotient limb are
    partial functions, which end since the rest grows by the divisor's top limb at every turn. The
    theorems: quotient, fraction and remainder, with only their areas changed, and the limb behind
    the numerator that is overwritten when a fraction is asked for.

  \<^bold>\<open>What is not modelled.\<close> The rest of the library: I/O, threads, the allocator, the dynamic
  linker, floating point, locales and conversions, the resolver. In the modelled directories:
  the DES password hash with its tables and the dispatch in \<open>crypt\<close>, the RPC clients and servers
  around the messages, and the conversions of floating-point
  numbers that use the multiple precision routines. The Dart application is in another language.
\<close>

end
